(* ===== verification/Prelude.thy ===== *)
theory Prelude
  imports Main "HOL-Library.AList" "HOL-Library.Word"
begin

section \<open>Shared vocabulary of the plugins\<close>

text \<open>
  What the component theories share: the result monad for code that throws, the
  unordered map of the standard library as an association list with distinct keys,
  generic list facts (a first match and its erasure, recency lists), and the
  collections of simplification rules the components fill.

  \<^item> \<open>'e + 'a\<close> is the result of a call that may throw: \<open>Inl e\<close> the exception, \<open>Inr a\<close>
    the returned value; \<open>bindE\<close> sequences two such calls.
  \<^item> \<open>um_find\<close>, \<open>um_erase\<close>, \<open>um_insert\<close> are \<open>find\<close>, \<open>erase\<close> by key and
    \<open>operator[]\<close>-assignment of \<open>std::unordered_map\<close> and \<open>std::map\<close>.
  \<^item> \<open>erase_first\<close> is \<open>vector::erase\<close> of the iterator that \<open>std::find_if\<close> returns.
\<close>

named_theorems frame_simps \<open>fields an operation leaves unchanged\<close>
named_theorems inv_intros \<open>operations keep the invariant of their component\<close>

subsection \<open>Calls that may throw\<close>

type_synonym ('e, 'a) result = "'e + 'a"

fun bindE :: "('e, 'a) result \<Rightarrow> ('a \<Rightarrow> ('e, 'b) result) \<Rightarrow> ('e, 'b) result" where
  "bindE (Inl e) f = Inl e"
| "bindE (Inr a) f = f a"

lemma bindE_Inr_conv: "bindE r f = Inr b \<longleftrightarrow> (\<exists>a. r = Inr a \<and> f a = Inr b)"
  by (cases r) auto

lemma bindE_Inl_conv: "bindE r f = Inl e \<longleftrightarrow> r = Inl e \<or> (\<exists>a. r = Inr a \<and> f a = Inl e)"
  by (cases r) auto

lemma bindE_assoc: "bindE (bindE r f) g = bindE r (\<lambda>a. bindE (f a) g)"
  by (cases r) auto

lemma bindE_cong [fundef_cong]:
  "r = r' \<Longrightarrow> (\<And>a. r' = Inr a \<Longrightarrow> f a = f' a) \<Longrightarrow> bindE r f = bindE r' f'"
  by (cases r') auto

text \<open>A loop that stops at the first exception.\<close>

fun mapE :: "('a \<Rightarrow> ('e, 'b) result) \<Rightarrow> 'a list \<Rightarrow> ('e, 'b list) result" where
  "mapE f [] = Inr []"
| "mapE f (x # xs) = bindE (f x) (\<lambda>y. bindE (mapE f xs) (\<lambda>ys. Inr (y # ys)))"

lemma mapE_total:
  "(\<And>x. x \<in> set xs \<Longrightarrow> \<exists>y. f x = Inr y \<and> P x y) \<Longrightarrow> \<exists>ys. mapE f xs = Inr ys \<and> list_all2 P xs ys"
proof (induction xs)
  case (Cons x xs)
  then obtain y ys where "f x = Inr y" "P x y" "mapE f xs = Inr ys" "list_all2 P xs ys"
    by (metis list.set_intros)
  then show ?case by simp
qed simp

fun is_ok :: "('e, 'a) result \<Rightarrow> bool" where
  "is_ok (Inl e) = False"
| "is_ok (Inr a) = True"

lemma is_ok_conv: "is_ok r \<longleftrightarrow> (\<exists>a. r = Inr a)"
  by (cases r) auto

subsection \<open>Unordered maps\<close>

type_synonym ('k, 'v) umap = "('k \<times> 'v) list"

definition um_find :: "'k \<Rightarrow> ('k, 'v) umap \<Rightarrow> 'v option" where
  "um_find k m = map_of m k"

definition um_erase :: "'k \<Rightarrow> ('k, 'v) umap \<Rightarrow> ('k, 'v) umap" where
  "um_erase k m = AList.delete k m"

definition um_insert :: "'k \<Rightarrow> 'v \<Rightarrow> ('k, 'v) umap \<Rightarrow> ('k, 'v) umap" where
  "um_insert k v m = AList.update k v m"

definition um_keys :: "('k, 'v) umap \<Rightarrow> 'k list" where
  "um_keys m = map fst m"

lemma um_find_Nil [simp]: "um_find k [] = None"
  by (simp add: um_find_def)

lemma um_find_Cons [simp]:
  "um_find k ((k', v) # m) = (if k = k' then Some v else um_find k m)"
  by (simp add: um_find_def)

lemma um_find_insert [simp]:
  "um_find k (um_insert k' v m) = (if k = k' then Some v else um_find k m)"
  by (simp add: um_find_def um_insert_def update_conv')

lemma um_find_erase [simp]:
  "um_find k (um_erase k' m) = (if k = k' then None else um_find k m)"
  by (simp add: um_find_def um_erase_def delete_conv')

lemma um_find_None_iff: "um_find k m = None \<longleftrightarrow> k \<notin> set (um_keys m)"
  by (simp add: um_find_def um_keys_def map_of_eq_None_iff)

lemma um_find_SomeD: "um_find k m = Some v \<Longrightarrow> (k, v) \<in> set m"
  by (simp add: um_find_def map_of_SomeD)

lemma um_find_in_set: "distinct (um_keys m) \<Longrightarrow> (k, v) \<in> set m \<Longrightarrow> um_find k m = Some v"
  by (simp add: um_find_def um_keys_def)

lemma um_keys_erase: "um_keys (um_erase k m) = filter (\<lambda>k'. k' \<noteq> k) (um_keys m)"
  unfolding um_keys_def um_erase_def AList.delete_eq by (induction m) auto

lemma um_insert_fresh: "k \<notin> set (um_keys m) \<Longrightarrow> um_insert k v m = m @ [(k, v)]"
  unfolding um_insert_def um_keys_def by (induction m) auto

lemma um_keys_insert:
  "um_keys (um_insert k v m) = (if k \<in> set (um_keys m) then um_keys m else um_keys m @ [k])"
  unfolding um_insert_def um_keys_def by (simp add: update_keys)

lemma distinct_um_insert [simp]: "distinct (um_keys m) \<Longrightarrow> distinct (um_keys (um_insert k v m))"
  by (simp add: um_keys_insert)

lemma distinct_um_erase [simp]: "distinct (um_keys m) \<Longrightarrow> distinct (um_keys (um_erase k m))"
  by (simp add: um_keys_erase)

lemma set_um_insert:
  "distinct (um_keys m) \<Longrightarrow>
   set (um_insert k v m) = insert (k, v) {(k', v') \<in> set m. k' \<noteq> k}"
  unfolding um_insert_def um_keys_def
  by (induction m) (auto simp: image_iff)

lemma set_um_erase: "set (um_erase k m) = {(k', v') \<in> set m. k' \<noteq> k}"
  unfolding um_erase_def AList.delete_eq by auto

subsection \<open>First matches in a vector\<close>

fun erase_first :: "('a \<Rightarrow> bool) \<Rightarrow> 'a list \<Rightarrow> 'a list" where
  "erase_first p [] = []"
| "erase_first p (x # xs) = (if p x then xs else x # erase_first p xs)"

lemma erase_first_none: "\<not> list_ex p xs \<Longrightarrow> erase_first p xs = xs"
  by (induction xs) auto

lemma set_erase_first_subset: "set (erase_first p xs) \<subseteq> set xs"
  by (induction xs) auto

lemma map_erase_first_distinct:
  "distinct (map f xs) \<Longrightarrow> erase_first (\<lambda>x. f x = a) xs = filter (\<lambda>x. f x \<noteq> a) xs"
proof (induction xs)
  case (Cons x xs)
  show ?case
  proof (cases "f x = a")
    case True
    with Cons.prems have "\<forall>y \<in> set xs. f y \<noteq> a"
      by (simp add: image_iff) metis
    with True show ?thesis by simp
  next
    case False
    with Cons show ?thesis by simp
  qed
qed simp

lemma filter_key_singleton:
  "distinct (map f xs) \<Longrightarrow> x \<in> set xs \<Longrightarrow> filter (\<lambda>y. f y = f x) xs = [x]"
proof (induction xs)
  case (Cons z zs)
  have none: "filter (\<lambda>y. f y = f z) zs = []"
    using Cons.prems(1) by (simp add: filter_empty_conv image_iff) metis
  show ?case
  proof (cases "x = z")
    case True
    with none show ?thesis by simp
  next
    case False
    with Cons.prems have "x \<in> set zs" and "f z \<noteq> f x" by auto
    with Cons show ?thesis by simp
  qed
qed simp

lemma find_key_None: "find (\<lambda>x. f x = a) xs = None \<longleftrightarrow> a \<notin> f ` set xs"
  by (induction xs) auto

declare distinct_map_filter [simp]

subsection \<open>Recency lists\<close>

text \<open>
  Moving a key to the front of a duplicate-free list and keeping the first \<open>n\<close> keys
  commute: the fact behind every bounded least-recently-used structure.
\<close>

definition touch :: "'k \<Rightarrow> 'k list \<Rightarrow> 'k list" where
  "touch k ks = k # filter (\<lambda>k'. k' \<noteq> k) ks"

lemma set_touch [simp]: "set (touch k ks) = insert k (set ks)"
  by (auto simp: touch_def)

lemma distinct_touch [simp]: "distinct ks \<Longrightarrow> distinct (touch k ks)"
  by (simp add: touch_def)

lemma filter_take_distinct:
  assumes "distinct ks"
  shows "take n (filter (\<lambda>k'. k' \<noteq> k) (take (Suc n) ks)) = take n (filter (\<lambda>k'. k' \<noteq> k) ks)"
  using assms
proof (induction ks arbitrary: n)
  case (Cons x ks)
  show ?case
  proof (cases "x = k")
    case True
    with Cons.prems have "filter (\<lambda>k'. k' \<noteq> k) ks = ks"
      and "filter (\<lambda>k'. k' \<noteq> k) (take n ks) = take n ks"
      by (auto simp: filter_id_conv dest: in_set_takeD)
    with True show ?thesis by simp
  next
    case False
    then show ?thesis using Cons by (cases n) auto
  qed
qed simp

lemma take_touch_take: "distinct ks \<Longrightarrow> take n (touch k (take n ks)) = take n (touch k ks)"
  by (cases n) (auto simp: touch_def filter_take_distinct)

lemma touch_take_hit:
  assumes "distinct ks" and "k \<in> set (take n ks)"
  shows "touch k (take n ks) = take n (touch k ks)"
proof -
  have "length (filter (\<lambda>k'. k' \<noteq> k) (take n ks)) < length (take n ks)"
    using assms(2) by (intro length_filter_less) auto
  then have "length (touch k (take n ks)) \<le> n"
    by (simp add: touch_def)
  then show ?thesis
    using take_touch_take [OF assms(1), of n k] by simp
qed

end
