(* ===== verification/Lru_Cache.thy ===== *)
theory Lru_Cache
  imports Prelude
begin

section \<open>The LRU cache and the cache service\<close>

text \<open>
  Model of \<open>cache/include/cocaine/lru_cache.hpp\<close> and of the service on top of it,
  \<open>cache/src/cache.cpp\<close>.

  \<open>std::list\<close> hands out iterators that stay valid while other nodes are inserted,
  erased or spliced, and the hash map stores such iterators. A list node is therefore
  a pair of an address and its key/value pair, an iterator is the address, and a node
  gets the next unused address. \<open>lru_inv\<close> says that the map and the list describe the
  same set of nodes; \<open>lru_abs\<close> forgets the addresses. The abstract cache is a plain
  recency list, and \<open>put\<close> and \<open>get\<close> refine its operations. The cache service is
  verified against the contract \<open>bounded_store\<close>, which the LRU cache satisfies.
\<close>

subsection \<open>State\<close>

type_synonym addr = nat

type_synonym ('k, 'v) node = "addr \<times> 'k \<times> 'v"

record ('k, 'v) lru_cache =
  cache_items_list :: "('k, 'v) node list"
  cache_items_map :: "('k, addr) umap"
  max_size :: nat
  next_addr :: addr

datatype cache_error = Range_error string

definition new_lru_cache :: "nat \<Rightarrow> ('k, 'v) lru_cache" where
  "new_lru_cache n =
     \<lparr>cache_items_list = [], cache_items_map = [], max_size = n, next_addr = 0\<rparr>"

subsection \<open>Operations\<close>

definition list_erase :: "addr \<Rightarrow> ('k, 'v) node list \<Rightarrow> ('k, 'v) node list" where
  "list_erase a xs = filter (\<lambda>n. fst n \<noteq> a) xs"

definition list_splice_front :: "addr \<Rightarrow> ('k, 'v) node list \<Rightarrow> ('k, 'v) node list" where
  "list_splice_front a xs = filter (\<lambda>n. fst n = a) xs @ list_erase a xs"

text \<open>The three steps of \<open>put\<close>: drop an old node of the key, link a new one, evict.\<close>

definition lru_drop_old :: "'k \<Rightarrow> ('k, 'v) lru_cache \<Rightarrow> ('k, 'v) lru_cache" where
  "lru_drop_old key c =
     (case um_find key (cache_items_map c) of
        Some it \<Rightarrow> c\<lparr>cache_items_list := list_erase it (cache_items_list c),
                    cache_items_map := um_erase key (cache_items_map c)\<rparr>
      | None \<Rightarrow> c)"

definition lru_push_front :: "'k \<Rightarrow> 'v \<Rightarrow> ('k, 'v) lru_cache \<Rightarrow> ('k, 'v) lru_cache" where
  "lru_push_front key v c =
     c\<lparr>cache_items_list := (next_addr c, key, v) # cache_items_list c,
       cache_items_map := um_insert key (next_addr c) (cache_items_map c),
       next_addr := Suc (next_addr c)\<rparr>"

definition lru_evict :: "('k, 'v) lru_cache \<Rightarrow> ('k, 'v) lru_cache" where
  "lru_evict c =
     (if length (cache_items_map c) > max_size c then
        case rev (cache_items_list c) of
          [] \<Rightarrow> c
        | lst # _ \<Rightarrow> c\<lparr>cache_items_map := um_erase (fst (snd lst)) (cache_items_map c),
                      cache_items_list := butlast (cache_items_list c)\<rparr>
      else c)"

definition put :: "'k \<Rightarrow> 'v \<Rightarrow> ('k, 'v) lru_cache \<Rightarrow> ('k, 'v) lru_cache" where
  "put key v c = lru_evict (lru_push_front key v (lru_drop_old key c))"

definition deref :: "addr \<Rightarrow> ('k, 'v) node list \<Rightarrow> ('k \<times> 'v) option" where
  "deref a xs = map_of xs a"

definition get ::
  "'k \<Rightarrow> ('k, 'v) lru_cache \<Rightarrow> (cache_error, 'v \<times> ('k, 'v) lru_cache) result" where
  "get key c =
     (case um_find key (cache_items_map c) of
        None \<Rightarrow> Inl (Range_error ''there is no such key in cache'')
      | Some it \<Rightarrow>
          let c' = c\<lparr>cache_items_list := list_splice_front it (cache_items_list c)\<rparr> in
          case deref it (cache_items_list c') of
            Some kv \<Rightarrow> Inr (snd kv, c')
          | None \<Rightarrow> Inl (Range_error ''dangling iterator''))"

definition exists :: "'k \<Rightarrow> ('k, 'v) lru_cache \<Rightarrow> bool" where
  "exists key c \<longleftrightarrow> um_find key (cache_items_map c) \<noteq> None"

definition lru_size :: "('k, 'v) lru_cache \<Rightarrow> nat" where
  "lru_size c = length (cache_items_map c)"

subsection \<open>The cache service\<close>

text \<open>
  The handlers of \<open>cache_t\<close>, written over the operations of the store they call; the
  service instantiates them with the LRU cache. A request holds the lock of the store
  from \<open>exists\<close> to \<open>get\<close>, so one handler is one step.
\<close>

definition serve_put :: "('k \<Rightarrow> 'v \<Rightarrow> 's \<Rightarrow> 's) \<Rightarrow> 'k \<Rightarrow> 'v \<Rightarrow> 's \<Rightarrow> 's" where
  "serve_put pt key v s = pt key v s"

definition serve_get ::
  "('k \<Rightarrow> 's \<Rightarrow> bool) \<Rightarrow> ('k \<Rightarrow> 's \<Rightarrow> ('e, string \<times> 's) result) \<Rightarrow> 'k \<Rightarrow> 's \<Rightarrow>
   ('e, (bool \<times> string) \<times> 's) result" where
  "serve_get ex gt key s =
     (if ex key s then bindE (gt key s) (\<lambda>(v, s'). Inr ((True, v), s'))
      else Inr ((False, ''''), s))"

datatype request = Put string string | Get string

fun serve ::
  "(string \<Rightarrow> string \<Rightarrow> 's \<Rightarrow> 's) \<Rightarrow> (string \<Rightarrow> 's \<Rightarrow> bool) \<Rightarrow>
   (string \<Rightarrow> 's \<Rightarrow> ('e, string \<times> 's) result) \<Rightarrow> 's \<Rightarrow> request list \<Rightarrow> 's" where
  "serve pt ex gt s [] = s"
| "serve pt ex gt s (Put k v # rs) = serve pt ex gt (serve_put pt k v s) rs"
| "serve pt ex gt s (Get k # rs) =
     (case serve_get ex gt k s of
        Inl e \<Rightarrow> serve pt ex gt s rs
      | Inr (_, s') \<Rightarrow> serve pt ex gt s' rs)"

definition new_cache_t :: "nat option \<Rightarrow> (string, string) lru_cache" where
  "new_cache_t max_size_arg = new_lru_cache (case max_size_arg of None \<Rightarrow> 1000000 | Some n \<Rightarrow> n)"

definition cache_put ::
  "string \<Rightarrow> string \<Rightarrow> (string, string) lru_cache \<Rightarrow> (string, string) lru_cache" where
  "cache_put = serve_put put"

definition cache_get ::
  "string \<Rightarrow> (string, string) lru_cache \<Rightarrow>
   (cache_error, (bool \<times> string) \<times> (string, string) lru_cache) result" where
  "cache_get = serve_get exists get"

definition cache_run ::
  "(string, string) lru_cache \<Rightarrow> request list \<Rightarrow> (string, string) lru_cache" where
  "cache_run = serve put exists get"

text \<open>The last value written under a key by a sequence of requests, if any.\<close>

fun last_put :: "string \<Rightarrow> request list \<Rightarrow> string option \<Rightarrow> string option" where
  "last_put k [] acc = acc"
| "last_put k (Put k' v # rs) acc = last_put k rs (if k = k' then Some v else acc)"
| "last_put k (Get _ # rs) acc = last_put k rs acc"

text \<open>The unbounded recency list: a hit is a key among the \<open>n\<close> most recent ones.\<close>

fun recency :: "nat \<Rightarrow> request list \<Rightarrow> string list \<Rightarrow> string list" where
  "recency n [] ks = ks"
| "recency n (Put k v # rs) ks = recency n rs (touch k ks)"
| "recency n (Get k # rs) ks = recency n rs (if k \<in> set (take n ks) then touch k ks else ks)"

subsection \<open>Invariant and abstraction\<close>

text \<open>
  The map stores for every key of the list the address of its node, and nothing else;
  addresses and keys of the list are distinct and addresses are below the next one.
\<close>

definition lru_inv :: "('k, 'v) lru_cache \<Rightarrow> bool" where
  "lru_inv c \<longleftrightarrow>
     distinct (map fst (cache_items_list c)) \<and>
     distinct (map (fst \<circ> snd) (cache_items_list c)) \<and>
     distinct (um_keys (cache_items_map c)) \<and>
     set (cache_items_map c) = (\<lambda>(a, k, v). (k, a)) ` set (cache_items_list c) \<and>
     (\<forall>n \<in> set (cache_items_list c). fst n < next_addr c) \<and>
     length (cache_items_list c) \<le> max_size c"

definition lru_abs :: "('k, 'v) lru_cache \<Rightarrow> ('k \<times> 'v) list" where
  "lru_abs c = map snd (cache_items_list c)"

definition spec_put :: "nat \<Rightarrow> 'k \<Rightarrow> 'v \<Rightarrow> ('k \<times> 'v) list \<Rightarrow> ('k \<times> 'v) list" where
  "spec_put n key v xs = take n ((key, v) # filter (\<lambda>kv. fst kv \<noteq> key) xs)"

definition spec_touch :: "'k \<Rightarrow> 'v \<Rightarrow> ('k \<times> 'v) list \<Rightarrow> ('k \<times> 'v) list" where
  "spec_touch key v xs = (key, v) # filter (\<lambda>kv. fst kv \<noteq> key) xs"

text \<open>The invariant without the bound: what holds between the steps of \<open>put\<close>.\<close>

definition lru_linked :: "('k, 'v) lru_cache \<Rightarrow> bool" where
  "lru_linked c \<longleftrightarrow>
     distinct (map fst (cache_items_list c)) \<and>
     distinct (map (fst \<circ> snd) (cache_items_list c)) \<and>
     distinct (um_keys (cache_items_map c)) \<and>
     set (cache_items_map c) = (\<lambda>(a, k, v). (k, a)) ` set (cache_items_list c) \<and>
     (\<forall>n \<in> set (cache_items_list c). fst n < next_addr c)"

lemma lru_inv_linked: "lru_inv c \<longleftrightarrow> lru_linked c \<and> length (cache_items_list c) \<le> max_size c"
  by (auto simp: lru_inv_def lru_linked_def)

lemma map_image_iff: "(k, a) \<in> (\<lambda>(a, k, v). (k, a)) ` S \<longleftrightarrow> (\<exists>v. (a, k, v) \<in> S)"
  by force

lemma lru_linked_find:
  assumes "lru_linked c"
  shows "um_find key (cache_items_map c) = Some a \<longleftrightarrow>
         (\<exists>v. (a, key, v) \<in> set (cache_items_list c))"
proof -
  have "um_find key (cache_items_map c) = Some a \<longleftrightarrow> (key, a) \<in> set (cache_items_map c)"
    using assms unfolding lru_linked_def by (blast intro: um_find_in_set dest: um_find_SomeD)
  moreover have "set (cache_items_map c) = (\<lambda>(a, k, v). (k, a)) ` set (cache_items_list c)"
    using assms by (simp add: lru_linked_def)
  ultimately show ?thesis by (simp only: map_image_iff)
qed

lemma lru_linked_find_None:
  assumes "lru_linked c"
  shows "um_find key (cache_items_map c) = None \<longleftrightarrow> key \<notin> set (map fst (lru_abs c))"
  using lru_linked_find [OF assms, of key]
  by (cases "um_find key (cache_items_map c)") (force simp: lru_abs_def)+

lemma lru_linked_length:
  assumes "lru_linked c"
  shows "length (cache_items_map c) = length (cache_items_list c)"
proof -
  have "map snd (map (\<lambda>(a, k, v). (k, a)) (cache_items_list c)) = map fst (cache_items_list c)"
    by auto
  then have "distinct (map (\<lambda>(a, k, v). (k, a)) (cache_items_list c))"
    using assms by (metis distinct_map lru_linked_def)
  moreover have "distinct (cache_items_map c)"
    using assms by (auto simp: lru_linked_def um_keys_def distinct_map)
  ultimately show ?thesis
    using assms unfolding lru_linked_def
    by (metis distinct_card length_map list.set_map)
qed

text \<open>Erasing by address is erasing by key, for the node the map points to.\<close>

lemma list_erase_by_key:
  assumes "lru_linked c" and "(a, key, v) \<in> set (cache_items_list c)"
  shows "list_erase a (cache_items_list c) =
         filter (\<lambda>n. fst (snd n) \<noteq> key) (cache_items_list c)"
  unfolding list_erase_def
proof (rule filter_cong [OF refl])
  fix n assume n: "n \<in> set (cache_items_list c)"
  have "inj_on fst (set (cache_items_list c))"
    and "inj_on (fst \<circ> snd) (set (cache_items_list c))"
    using assms(1) by (simp_all add: lru_linked_def distinct_map)
  then have "fst n = fst (a, key, v) \<longleftrightarrow> n = (a, key, v)"
    and "(fst \<circ> snd) n = (fst \<circ> snd) (a, key, v) \<longleftrightarrow> n = (a, key, v)"
    using n assms(2) by (blast dest: inj_onD)+
  then show "(fst n \<noteq> a) = (fst (snd n) \<noteq> key)" by simp
qed

lemma filter_by_addr:
  assumes "lru_linked c" and "(a, key, v) \<in> set (cache_items_list c)"
  shows "filter (\<lambda>n. fst n = a) (cache_items_list c) = [(a, key, v)]"
  using filter_key_singleton [of fst "cache_items_list c" "(a, key, v)"] assms
  by (simp add: lru_linked_def)


subsection \<open>The steps of put\<close>

lemma lru_drop_old_list:
  assumes "lru_linked c"
  shows "cache_items_list (lru_drop_old key c) =
         filter (\<lambda>n. fst (snd n) \<noteq> key) (cache_items_list c)"
proof (cases "um_find key (cache_items_map c)")
  case None
  then have "key \<notin> set (map fst (lru_abs c))"
    using lru_linked_find_None [OF assms] by blast
  with None show ?thesis
    by (auto simp: lru_drop_old_def lru_abs_def intro!: filter_True [symmetric])
next
  case (Some a)
  then obtain v where "(a, key, v) \<in> set (cache_items_list c)"
    using lru_linked_find [OF assms] by blast
  with Some show ?thesis
    using list_erase_by_key [OF assms] by (simp add: lru_drop_old_def)
qed

lemma lru_drop_old_frame [frame_simps]:
  "max_size (lru_drop_old key c) = max_size c"
  "next_addr (lru_drop_old key c) = next_addr c"
  by (simp_all add: lru_drop_old_def split: option.split)

lemma lru_drop_old_map:
  "set (cache_items_map (lru_drop_old key c)) = {(k, a) \<in> set (cache_items_map c). k \<noteq> key}"
proof (cases "um_find key (cache_items_map c)")
  case None
  then have "key \<notin> set (um_keys (cache_items_map c))" by (simp add: um_find_None_iff)
  with None show ?thesis by (force simp: lru_drop_old_def um_keys_def)
next
  case (Some a)
  then show ?thesis by (simp add: lru_drop_old_def set_um_erase)
qed

lemma lru_drop_old_linked:
  assumes "lru_linked c"
  shows "lru_linked (lru_drop_old key c)"
proof -
  have keys: "distinct (um_keys (cache_items_map (lru_drop_old key c)))"
    using assms by (simp add: lru_drop_old_def lru_linked_def split: option.split)
  have "{(k, a) \<in> (\<lambda>(a, k, v). (k, a)) ` S. k \<noteq> key} =
        (\<lambda>(a, k, v). (k, a)) ` {n \<in> S. fst (snd n) \<noteq> key}" for S :: "('a, 'b) node set"
    by force
  then show ?thesis
    using assms keys
    by (simp add: lru_linked_def lru_drop_old_list [OF assms] lru_drop_old_map frame_simps)
qed

lemma lru_drop_old_abs:
  "lru_linked c \<Longrightarrow> lru_abs (lru_drop_old key c) = filter (\<lambda>kv. fst kv \<noteq> key) (lru_abs c)"
  by (simp add: lru_abs_def lru_drop_old_list filter_map comp_def)

lemma lru_push_front_linked:
  assumes "lru_linked c" and "key \<notin> set (map fst (lru_abs c))"
  shows "lru_linked (lru_push_front key v c)"
proof -
  have fresh: "key \<notin> set (um_keys (cache_items_map c))"
    using lru_linked_find_None [OF assms(1)] assms(2) by (simp add: um_find_None_iff)
  have "next_addr c \<notin> fst ` set (cache_items_list c)"
    using assms(1) by (auto simp: lru_linked_def)
  moreover have "key \<notin> (fst \<circ> snd) ` set (cache_items_list c)"
    using assms(2) by (auto simp: lru_abs_def)
  moreover have "\<forall>n \<in> set (cache_items_list c). fst n < Suc (next_addr c)"
    using assms(1) by (auto simp: lru_linked_def less_Suc_eq)
  moreover have "set (um_insert key (next_addr c) (cache_items_map c)) =
                 insert (key, next_addr c) (set (cache_items_map c))"
    using fresh by (auto simp: um_insert_fresh)
  ultimately show ?thesis
    using assms(1) by (simp add: lru_linked_def lru_push_front_def)
qed

lemma lru_push_front_abs: "lru_abs (lru_push_front key v c) = (key, v) # lru_abs c"
  by (simp add: lru_abs_def lru_push_front_def)

lemma lru_push_front_frame [frame_simps]:
  "max_size (lru_push_front key v c) = max_size c"
  by (simp add: lru_push_front_def)

lemma lru_evict_frame [frame_simps]: "max_size (lru_evict c) = max_size c"
  by (simp add: lru_evict_def split: list.split)

lemma lru_evict_last:
  assumes "lru_linked c" and "cache_items_list c = xs @ [(a, k, v)]"
  shows "lru_linked (c\<lparr>cache_items_map := um_erase k (cache_items_map c),
                      cache_items_list := xs\<rparr>)"
proof -
  have map: "set (cache_items_map c) = insert (k, a) ((\<lambda>(a, k, v). (k, a)) ` set xs)"
    and fresh: "k \<notin> (fst \<circ> snd) ` set xs"
    using assms by (auto simp: lru_linked_def)
  have "{(k', a') \<in> insert (k, a) ((\<lambda>(a, k, v). (k, a)) ` set xs). k' \<noteq> k} =
        (\<lambda>(a, k, v). (k, a)) ` set xs"
    using fresh by force
  then show ?thesis
    using assms by (simp add: lru_linked_def set_um_erase map)
qed

lemma lru_evict_inv:
  assumes "lru_linked c" and "length (cache_items_list c) \<le> Suc (max_size c)"
  shows "lru_inv (lru_evict c) \<and> lru_abs (lru_evict c) = take (max_size c) (lru_abs c)"
proof (cases "length (cache_items_map c) > max_size c")
  case False
  then show ?thesis
    using assms lru_linked_length [OF assms(1)]
    by (simp add: lru_evict_def lru_inv_linked lru_abs_def)
next
  case True
  then have len: "length (cache_items_list c) = Suc (max_size c)"
    using assms(2) lru_linked_length [OF assms(1)] by simp
  then obtain xs a k v where xs: "cache_items_list c = xs @ [(a, k, v)]"
    by (metis length_0_conv old.nat.distinct(2) prod_cases3 rev_exhaust)
  have "lru_evict c = c\<lparr>cache_items_map := um_erase k (cache_items_map c),
                        cache_items_list := xs\<rparr>"
    using True xs by (simp add: lru_evict_def)
  then show ?thesis
    using lru_evict_last [OF assms(1) xs] len xs by (simp add: lru_inv_linked lru_abs_def)
qed

subsection \<open>Refinement of the recency list\<close>

lemma lru_put_refines:
  assumes "lru_inv c"
  shows "lru_inv (put key v c) \<and> lru_abs (put key v c) = spec_put (max_size c) key v (lru_abs c)"
proof -
  let ?d = "lru_drop_old key c"
  let ?p = "lru_push_front key v ?d"
  have c: "lru_linked c" and len: "length (cache_items_list c) \<le> max_size c"
    using assms by (simp_all add: lru_inv_linked)
  have abs: "lru_abs ?d = filter (\<lambda>kv. fst kv \<noteq> key) (lru_abs c)"
    by (rule lru_drop_old_abs [OF c])
  have "lru_linked ?p"
    by (rule lru_push_front_linked [OF lru_drop_old_linked [OF c]]) (auto simp: abs)
  moreover have "length (cache_items_list ?p) \<le> Suc (max_size ?p)"
    using order_trans [OF length_filter_le len]
    by (simp add: lru_push_front_def lru_drop_old_list [OF c] lru_drop_old_frame)
  ultimately show ?thesis
    using lru_evict_inv [of ?p]
    by (simp add: put_def frame_simps lru_push_front_abs abs spec_put_def)
qed

lemma map_of_lru_abs:
  assumes "lru_linked c"
  shows "map_of (lru_abs c) key = Some v \<longleftrightarrow> (\<exists>a. (a, key, v) \<in> set (cache_items_list c))"
proof -
  have "distinct (map fst (lru_abs c))"
    using assms by (simp add: lru_linked_def lru_abs_def)
  then have "map_of (lru_abs c) key = Some v \<longleftrightarrow> (key, v) \<in> set (lru_abs c)"
    by (simp add: map_of_eq_Some_iff)
  then show ?thesis by (force simp: lru_abs_def)
qed

lemma lru_get_hit:
  assumes "lru_inv c" and "map_of (lru_abs c) key = Some v"
  shows "\<exists>c'. get key c = Inr (v, c') \<and> lru_inv c' \<and> max_size c' = max_size c \<and>
              lru_abs c' = spec_touch key v (lru_abs c)"
proof -
  have c: "lru_linked c" using assms(1) by (simp add: lru_inv_linked)
  obtain a where a: "(a, key, v) \<in> set (cache_items_list c)"
    using assms(2) map_of_lru_abs [OF c] by blast
  then have find: "um_find key (cache_items_map c) = Some a"
    using lru_linked_find [OF c] by blast
  let ?xs = "(a, key, v) # filter (\<lambda>n. fst (snd n) \<noteq> key) (cache_items_list c)"
  have xs: "list_splice_front a (cache_items_list c) = ?xs"
    using filter_by_addr [OF c a] list_erase_by_key [OF c a] by (simp add: list_splice_front_def)
  have erased: "?xs = (a, key, v) # filter (\<lambda>n. fst n \<noteq> a) (cache_items_list c)"
    using list_erase_by_key [OF c a] by (simp add: list_erase_def)
  have set: "set ?xs = set (cache_items_list c)"
  proof -
    have "set (filter (\<lambda>n. fst n = a) (cache_items_list c)) \<union>
          set (filter (\<lambda>n. fst n \<noteq> a) (cache_items_list c)) = set (cache_items_list c)"
      by auto
    then show ?thesis unfolding erased filter_by_addr [OF c a] by simp
  qed
  have "length ?xs \<le> length (cache_items_list c)"
    using length_filter_less [OF a, of "\<lambda>n. fst (snd n) \<noteq> key"] by simp
  moreover have "distinct (map fst ?xs)"
    using c unfolding erased by (auto simp: lru_linked_def)
  moreover have "distinct (map (fst \<circ> snd) ?xs)"
    using c by (auto simp: lru_linked_def)
  ultimately have "lru_inv (c\<lparr>cache_items_list := ?xs\<rparr>)"
    using assms(1) set unfolding lru_inv_def by simp
  then show ?thesis
    by (simp add: get_def find xs deref_def lru_abs_def spec_touch_def filter_map comp_def)
qed

lemma lru_get_miss:
  assumes "lru_inv c" and "map_of (lru_abs c) key = None"
  shows "get key c = Inl (Range_error ''there is no such key in cache'')"
  using assms lru_linked_find_None [of c key]
  by (simp add: get_def lru_inv_linked map_of_eq_None_iff)

lemma lru_exists_iff:
  assumes "lru_inv c"
  shows "exists key c \<longleftrightarrow> map_of (lru_abs c) key \<noteq> None"
  using assms lru_linked_find_None [of c key]
  by (simp add: exists_def lru_inv_linked map_of_eq_None_iff)

lemma lru_size_abs: "lru_inv c \<Longrightarrow> lru_size c = length (lru_abs c)"
  by (simp add: lru_size_def lru_inv_linked lru_linked_length lru_abs_def)

lemma lru_inv_new [inv_intros]: "lru_inv (new_lru_cache n)"
  by (simp add: lru_inv_def new_lru_cache_def um_keys_def)

lemma lru_inv_put [inv_intros]: "lru_inv c \<Longrightarrow> lru_inv (put key v c)"
  by (simp add: lru_put_refines)

lemma max_size_put [frame_simps]: "max_size (put key v c) = max_size c"
  by (simp add: put_def frame_simps)

subsection \<open>The contract of a bounded store, and the service on top of it\<close>

text \<open>
  What the service relies on: a store that may forget entries but never invents one,
  returns what was written while it remembers it, and changes nothing by reading.
\<close>

locale bounded_store =
  fixes st_put :: "string \<Rightarrow> string \<Rightarrow> 's \<Rightarrow> 's"
    and st_exists :: "string \<Rightarrow> 's \<Rightarrow> bool"
    and st_get :: "string \<Rightarrow> 's \<Rightarrow> ('e, string \<times> 's) result"
    and lookup :: "'s \<Rightarrow> string \<Rightarrow> string option"
    and invar :: "'s \<Rightarrow> bool"
    and cap :: "'s \<Rightarrow> nat"
  assumes put_invar: "invar s \<Longrightarrow> invar (st_put k v s)"
    and put_cap: "cap (st_put k v s) = cap s"
    and put_same: "invar s \<Longrightarrow> 0 < cap s \<Longrightarrow> lookup (st_put k v s) k = Some v"
    and put_same_forget: "invar s \<Longrightarrow> lookup (st_put k v s) k \<in> {None, Some v}"
    and put_other: "invar s \<Longrightarrow> k' \<noteq> k \<Longrightarrow> lookup (st_put k v s) k' \<in> {None, lookup s k'}"
    and exists_lookup: "invar s \<Longrightarrow> st_exists k s \<longleftrightarrow> lookup s k \<noteq> None"
    and get_hit: "invar s \<Longrightarrow> lookup s k = Some v \<Longrightarrow>
      \<exists>s'. st_get k s = Inr (v, s') \<and> invar s' \<and> cap s' = cap s \<and> lookup s' = lookup s"
begin

lemma serve_get_cases:
  assumes "invar s"
  obtains (hit) v s' where "lookup s k = Some v" "serve_get st_exists st_get k s = Inr ((True, v), s')"
      "invar s'" "cap s' = cap s" "lookup s' = lookup s"
    | (miss) "lookup s k = None" "serve_get st_exists st_get k s = Inr ((False, ''''), s)"
proof (cases "lookup s k")
  case None
  with assms show thesis by (intro miss) (simp_all add: serve_get_def exists_lookup)
next
  case (Some v)
  from get_hit [OF assms this] obtain s' where
    "st_get k s = Inr (v, s')" "invar s'" "cap s' = cap s" "lookup s' = lookup s"
    by blast
  with assms Some show thesis by (intro hit [of v s']) (simp_all add: serve_get_def exists_lookup)
qed

lemma serve_invar: "invar s \<Longrightarrow> invar (serve st_put st_exists st_get s rs)"
proof (induction rs arbitrary: s)
  case (Cons r rs)
  show ?case
  proof (cases r)
    case (Put k v)
    with Cons show ?thesis by (simp add: serve_put_def put_invar)
  next
    case (Get k)
    from Cons.prems show ?thesis
      by (cases rule: serve_get_cases [of s k]) (simp_all add: Get Cons.IH Cons.prems)
  qed
qed simp

text \<open>Whatever is remembered under a key is the last value written to it.\<close>

lemma serve_lookup:
  assumes "invar s" and "lookup s k \<in> {None, acc}"
  shows "lookup (serve st_put st_exists st_get s rs) k \<in> {None, last_put k rs acc}"
  using assms
proof (induction rs arbitrary: s acc)
  case (Cons r rs)
  show ?case
  proof (cases r)
    case (Put k' v)
    have "lookup (st_put k' v s) k \<in> {None, if k = k' then Some v else acc}"
      using Cons.prems put_same_forget [of s k v] put_other [of s k k' v] by auto
    with Put Cons show ?thesis by (simp add: serve_put_def put_invar)
  next
    case (Get k')
    from Cons.prems(1) show ?thesis
    proof (cases rule: serve_get_cases [of s k'])
      case (hit v s')
      with Cons.prems(2) Cons.IH [of s' acc] show ?thesis by (simp add: Get)
    next
      case miss
      with Cons.prems Cons.IH [of s acc] show ?thesis by (simp add: Get)
    qed
  qed
qed simp

lemma get_not_stale:
  assumes "invar s" and "lookup s = Map.empty"
    and "serve_get st_exists st_get k (serve st_put st_exists st_get s rs) = Inr ((True, v), s')"
  shows "last_put k rs None = Some v"
proof -
  let ?t = "serve st_put st_exists st_get s rs"
  have "invar ?t" using assms(1) by (rule serve_invar)
  then have "lookup ?t k = Some v"
    using assms(3) by (cases rule: serve_get_cases [of ?t k]) auto
  then show ?thesis
    using serve_lookup [of s k None rs] assms(1,2) by auto
qed

lemma get_after_put:
  assumes "invar s" and "0 < cap s"
  shows "\<exists>s'. serve_get st_exists st_get k (serve_put st_put k v s) = Inr ((True, v), s')"
proof -
  have "invar (st_put k v s)" and "lookup (st_put k v s) k = Some v"
    using assms by (simp_all add: put_invar put_same)
  then show ?thesis
    by (cases rule: serve_get_cases [of "st_put k v s" k]) (auto simp: serve_put_def)
qed

end

lemma map_of_take_subset:
  "distinct (map fst xs) \<Longrightarrow> map_of (take n xs) k \<in> {None, map_of xs k}"
  by (cases "map_of (take n xs) k")
    (auto dest!: map_of_SomeD in_set_takeD simp: map_of_eq_Some_iff)

lemma map_of_filter_key:
  "map_of (filter (\<lambda>kv. fst kv \<noteq> key) xs) k = (if k = key then None else map_of xs k)"
  by (induction xs) auto

lemma distinct_lru_abs: "lru_inv c \<Longrightarrow> distinct (map fst (lru_abs c))"
  by (simp add: lru_inv_def lru_abs_def)

lemma lru_put_lookup:
  assumes "lru_inv c"
  shows "map_of (lru_abs (put key v c)) k \<in>
         {None, if k = key then Some v else map_of (lru_abs c) k}"
proof -
  let ?xs = "(key, v) # filter (\<lambda>kv. fst kv \<noteq> key) (lru_abs c)"
  have "distinct (map fst ?xs)"
    using distinct_lru_abs [OF assms] by auto
  from map_of_take_subset [OF this, of "max_size c" k] show ?thesis
    using lru_put_refines [OF assms, of key v]
    by (auto simp: spec_put_def map_of_filter_key)
qed

lemma spec_touch_lookup:
  "map_of xs key = Some v \<Longrightarrow> map_of (spec_touch key v xs) = map_of xs"
  by (auto simp: spec_touch_def map_of_filter_key)

interpretation lru: bounded_store put exists get "\<lambda>c. map_of (lru_abs c)" lru_inv max_size
proof (unfold_locales, goal_cases)
  case (1 s k v)
  then show ?case by (rule lru_inv_put)
next
  case (2 k v s)
  show ?case by (rule max_size_put)
next
  case (3 s k v)
  then show ?case
    using lru_put_refines [OF 3(1), of k v] by (cases "max_size s") (simp_all add: spec_put_def)
next
  case (4 s k v)
  then show ?case using lru_put_lookup [OF 4, of k v k] by simp
next
  case (5 s k' k v)
  then show ?case using lru_put_lookup [OF 5(1), of k v k'] by simp
next
  case (6 s k)
  then show ?case by (rule lru_exists_iff)
next
  case (7 s k v)
  from lru_get_hit [OF this] spec_touch_lookup [OF 7(2)] show ?case by metis
qed

subsection \<open>Recency\<close>

lemma map_fst_spec_put:
  "map fst (spec_put n k v xs) = take n (touch k (map fst xs))"
  by (simp add: spec_put_def touch_def take_map [symmetric] filter_map comp_def)

lemma map_fst_spec_touch: "map fst (spec_touch k v xs) = touch k (map fst xs)"
  by (simp add: spec_touch_def touch_def filter_map comp_def)

lemma cache_run_recency_gen:
  assumes "lru_inv c" and "distinct ks" and "map fst (lru_abs c) = take (max_size c) ks"
  shows "map fst (lru_abs (cache_run c rs)) = take (max_size c) (recency (max_size c) rs ks)"
  using assms
proof (induction rs arbitrary: c ks)
  case Nil
  then show ?case by (simp add: cache_run_def)
next
  case (Cons r rs)
  show ?case
  proof (cases r)
    case (Put k v)
    have "map fst (lru_abs (put k v c)) = take (max_size c) (touch k ks)"
      using lru_put_refines [OF Cons.prems(1), of k v] Cons.prems(2,3)
      by (simp add: map_fst_spec_put take_touch_take)
    from Cons.IH [OF lru_inv_put [OF Cons.prems(1)] distinct_touch [OF Cons.prems(2)]] this
    show ?thesis using Put by (simp add: cache_run_def serve_put_def max_size_put)
  next
    case (Get k)
    show ?thesis
    proof (cases "map_of (lru_abs c) k")
      case None
      then have miss: "k \<notin> set (take (max_size c) ks)"
        using Cons.prems(3) by (metis map_of_eq_None_iff list.set_map)
      have "\<not> exists k c" using None lru_exists_iff [OF Cons.prems(1)] by simp
      then show ?thesis
        using Cons.IH [OF Cons.prems] Get miss by (simp add: cache_run_def serve_get_def)
    next
      case (Some v)
      then have hit: "k \<in> set (take (max_size c) ks)"
        using Cons.prems(3) by (metis map_of_eq_None_iff list.set_map option.distinct(1))
      obtain c' where c': "get k c = Inr (v, c')" "lru_inv c'" "max_size c' = max_size c"
        "lru_abs c' = spec_touch k v (lru_abs c)"
        using lru_get_hit [OF Cons.prems(1) Some] by blast
      have "map fst (lru_abs c') = take (max_size c') (touch k ks)"
        using c'(3,4) Cons.prems(2,3) hit by (simp add: map_fst_spec_touch touch_take_hit)
      from Cons.IH [OF c'(2) distinct_touch [OF Cons.prems(2)] this] show ?thesis
        using Get c'(1,3) hit Some lru_exists_iff [OF Cons.prems(1), of k]
        by (simp add: cache_run_def serve_get_def)
    qed
  qed
qed

subsection \<open>Properties\<close>

text \<open>
  \<open>put\<close> implements the abstract cache. On a well-formed cache it
  keeps the iterator map and the list in agreement and within the bound, and its effect
  on the recency list is to drop an old entry of the key, push the new one in front and
  keep the first \<open>max_size\<close> entries.
\<close>

theorem lru_put_refinement:
  assumes "lru_inv c"
  shows "lru_inv (put key v c) \<and>
         lru_abs (put key v c) = take (max_size c) ((key, v) # filter (\<lambda>kv. fst kv \<noteq> key) (lru_abs c))"
  using lru_put_refines [OF assms] by (simp add: spec_put_def)

theorem lru_put_refinement_witness:
  "lru_abs (put (3::nat) ''c'' (put 2 ''b'' (put 1 ''a'' (new_lru_cache 2)))) = [(3, ''c''), (2, ''b'')]"
  using lru_put_refinement [OF lru_inv_put [OF lru_inv_put [OF lru_inv_new [of 2]]],
      of "3::nat" "''c''" 2 "''b''" 1 "''a''"]
  by (simp add: put_def lru_drop_old_def lru_push_front_def lru_evict_def new_lru_cache_def
      lru_abs_def um_insert_def um_erase_def um_find_def)

text \<open>
  \<open>get\<close> on both branches. A key the cache holds is answered with its
  value and becomes the most recent entry, all others keeping their order, and no entry
  is lost; a key it does not hold raises \<open>std::range_error\<close>. The iterator of the map
  is never dangling.
\<close>

theorem lru_get_behaviour:
  assumes "lru_inv c"
  shows "case map_of (lru_abs c) key of
           None \<Rightarrow> get key c = Inl (Range_error ''there is no such key in cache'')
         | Some v \<Rightarrow> \<exists>c'. get key c = Inr (v, c') \<and> lru_inv c' \<and>
             lru_abs c' = (key, v) # filter (\<lambda>kv. fst kv \<noteq> key) (lru_abs c)"
  using lru_get_miss [OF assms, of key] lru_get_hit [OF assms, of key]
  by (auto simp: spec_touch_def split: option.split)

theorem lru_get_behaviour_witness:
  "\<exists>c'. get (1::nat) (put 2 ''b'' (put 1 ''a'' (new_lru_cache 2))) = Inr (''a'', c') \<and>
        lru_abs c' = [(1, ''a''), (2, ''b'')]"
  using lru_get_behaviour [OF lru_inv_put [OF lru_inv_put [OF lru_inv_new [of 2]]],
      of "1::nat" 2 "''b''" 1 "''a''"]
  by (simp add: put_def lru_drop_old_def lru_push_front_def lru_evict_def new_lru_cache_def
      lru_abs_def um_insert_def um_erase_def um_find_def) auto

text \<open>
  C36: the eviction policy of the service over whole request sequences. After
  any sequence of \<open>put\<close> and \<open>get\<close> requests to a fresh cache of capacity \<open>n\<close>, the keys it
  holds are exactly the \<open>n\<close> most recently used ones, most recent first, where a
  \<open>get\<close> counts as a use when it hits.
\<close>

theorem cache_run_recency:
  "map fst (lru_abs (cache_run (new_lru_cache n) rs)) = take n (recency n rs [])"
  using cache_run_recency_gen [OF lru_inv_new, of "[]" n rs]
  by (simp add: new_lru_cache_def lru_abs_def)

text \<open>
  A positive answer of the service is never stale. Whatever requests
  were served since the start, if \<open>get\<close> answers \<open>(true, v)\<close> then \<open>v\<close> is the last value
  put under that key.
\<close>

theorem cache_get_not_stale:
  assumes "cache_get k (cache_run (new_cache_t arg) rs) = Inr ((True, v), c')"
  shows "last_put k rs None = Some v"
proof (rule lru.get_not_stale)
  show "lru_inv (new_cache_t arg)" by (simp add: new_cache_t_def lru_inv_new)
  show "map_of (lru_abs (new_cache_t arg)) = Map.empty"
    by (simp add: new_cache_t_def new_lru_cache_def lru_abs_def)
qed (use assms in \<open>simp add: cache_get_def cache_run_def\<close>)

theorem cache_get_not_stale_witness:
  "last_put ''a'' [Put ''a'' ''1'', Put ''a'' ''2'', Get ''b''] None = Some ''2''"
proof (rule cache_get_not_stale)
  let ?c = "cache_run (new_cache_t (Some 1)) [Put ''a'' ''1'', Put ''a'' ''2'', Get ''b'']"
  show "cache_get ''a'' ?c = Inr ((True, ''2''), ?c)"
    by (simp add: cache_get_def cache_run_def serve_get_def serve_put_def new_cache_t_def put_def
        get_def exists_def lru_drop_old_def lru_push_front_def lru_evict_def new_lru_cache_def
        um_insert_def um_erase_def um_find_def list_erase_def list_splice_front_def deref_def)
qed

end
