(* ===== verification/Dynamic.thy ===== *)
theory Dynamic
  imports Prelude
begin

section \<open>Dynamic values\<close>

text \<open>
  \<open>dynamic_t\<close> is the variant type of the Cocaine core in which configuration, filters
  and stored metadata are represented. The plugins use it through the alternatives of
  its visitor (null, bool, unsigned, signed, double, string, array, object), the \<open>is_\<close>
  tests and the \<open>as_\<close> accessors, which throw when the alternative is another one.
  Numbers are 64-bit words; floating point numbers are an abstract type \<open>'d\<close>, whose
  operations the code uses come as a record \<open>fpu\<close>.
\<close>

type_synonym u64 = "64 word"

datatype 'd dynamic =
    D_null
  | D_bool bool
  | D_uint u64
  | D_int u64
  | D_double 'd
  | D_string string
  | D_array "'d dynamic list"
  | D_object "(string \<times> 'd dynamic) list"

record 'd fpu =
  fp_eq :: "'d \<Rightarrow> 'd \<Rightarrow> bool"
  fp_lt :: "'d \<Rightarrow> 'd \<Rightarrow> bool"
  fp_le :: "'d \<Rightarrow> 'd \<Rightarrow> bool"
  fp_of_int :: "int \<Rightarrow> 'd"
  fp_trunc :: "'d \<Rightarrow> u64"

text \<open>A concrete arithmetic, for evaluation: integers in place of doubles.\<close>

definition int_fpu :: "int fpu" where
  "int_fpu = \<lparr>fp_eq = (=), fp_lt = (<), fp_le = (\<le>), fp_of_int = (\<lambda>i. i), fp_trunc = of_int\<rparr>"

datatype dynamic_error = Bad_get

fun is_string :: "'d dynamic \<Rightarrow> bool" where
  "is_string (D_string s) = True"
| "is_string _ = False"

fun is_uint :: "'d dynamic \<Rightarrow> bool" where
  "is_uint (D_uint u) = True"
| "is_uint _ = False"

fun is_array :: "'d dynamic \<Rightarrow> bool" where
  "is_array (D_array xs) = True"
| "is_array _ = False"

fun is_object :: "'d dynamic \<Rightarrow> bool" where
  "is_object (D_object m) = True"
| "is_object _ = False"

fun as_uint :: "'d dynamic \<Rightarrow> (dynamic_error, u64) result" where
  "as_uint (D_uint u) = Inr u"
| "as_uint _ = Inl Bad_get"

fun as_string :: "'d dynamic \<Rightarrow> (dynamic_error, string) result" where
  "as_string (D_string s) = Inr s"
| "as_string _ = Inl Bad_get"

lemma is_string_conv: "is_string v \<longleftrightarrow> (\<exists>s. v = D_string s)"
  by (cases v) auto

lemma is_uint_conv: "is_uint v \<longleftrightarrow> (\<exists>u. v = D_uint u)"
  by (cases v) auto

lemma is_array_conv: "is_array v \<longleftrightarrow> (\<exists>xs. v = D_array xs)"
  by (cases v) auto

text \<open>An accessor's error, raised inside an operation of another component.\<close>

fun lift_error :: "('e \<Rightarrow> 'f) \<Rightarrow> ('e, 'a) result \<Rightarrow> ('f, 'a) result" where
  "lift_error h (Inl e) = Inl (h e)"
| "lift_error h (Inr a) = Inr a"

end
