(* ===== verification/Log_Filter.thy ===== *)
theory Log_Filter
  imports Dynamic "HOL-Library.Sublist"
begin

section \<open>Log filters\<close>

text \<open>
  Model of \<open>logging/src/logging/filter.cpp\<close>: the filter expressions a logger applies to
  the severity and the attributes of a record, their construction from a dynamic value
  and their representation as one, and \<open>filter_info_t\<close>, a filter with its lifetime.

  The subclasses of \<open>filter_t::inner_t\<close> are the constructors of \<open>filter\<close>; the class
  templates over the operand type take a \<open>scalar\<close>. The factory functions keep their
  names. \<open>filter_of\<close> is the constructor \<open>filter_t(const dynamic_t&)\<close>, \<open>apply_filter\<close> and
  \<open>representation\<close> are the virtual functions. Comparison of strings follows the four
  operators the file defines on \<open>char\<close>, which is signed.

  Parameters: the floating point operations, whether the current trace is verbose, and
  \<open>dyn_of_int\<close>, the core's conversion of a C++ \<open>int\<close> to a dynamic value.
\<close>

subsection \<open>Attribute views and their conversions\<close>

datatype 'd view =
    A_null
  | A_bool bool
  | A_sint u64
  | A_uint u64
  | A_double 'd
  | A_string string
  | A_function

type_synonym 'd attribute_pack = "(string \<times> 'd view) list list"

fun lexicographical_compare :: "('a \<Rightarrow> 'a \<Rightarrow> bool) \<Rightarrow> 'a list \<Rightarrow> 'a list \<Rightarrow> bool" where
  "lexicographical_compare cmp [] ys = (ys \<noteq> [])"
| "lexicographical_compare cmp (x # xs) [] = False"
| "lexicographical_compare cmp (x # xs) (y # ys) =
     (if cmp x y then True
      else if cmp y x then False
      else lexicographical_compare cmp xs ys)"

definition schar :: "char \<Rightarrow> int" where
  "schar c = (let n = of_char c in if n < 128 then n else n - 256)"

definition view_less :: "string \<Rightarrow> string \<Rightarrow> bool" where
  "view_less lhs rhs = lexicographical_compare (\<lambda>a b. schar a < schar b) lhs rhs"

definition view_greater :: "string \<Rightarrow> string \<Rightarrow> bool" where
  "view_greater lhs rhs = lexicographical_compare (\<lambda>a b. schar a > schar b) lhs rhs"

definition view_less_equal :: "string \<Rightarrow> string \<Rightarrow> bool" where
  "view_less_equal lhs rhs = (\<not> view_greater lhs rhs)"

definition view_greater_equal :: "string \<Rightarrow> string \<Rightarrow> bool" where
  "view_greater_equal lhs rhs = (\<not> view_less lhs rhs)"

text \<open>The visitors \<open>to<int64_t>\<close>, \<open>to<string_view>\<close> and \<open>to<double>\<close>: \<open>None\<close> is \<open>failed\<close>.\<close>

fun to_int64 :: "'d fpu \<Rightarrow> 'd view \<Rightarrow> u64 option" where
  "to_int64 fp A_null = Some 0"
| "to_int64 fp (A_bool b) = Some (of_bool b)"
| "to_int64 fp (A_sint w) = Some w"
| "to_int64 fp (A_uint w) = (if w > 9223372036854775807 then None else Some w)"
| "to_int64 fp (A_double d) = Some (fp_trunc fp d)"
| "to_int64 fp (A_string s) = None"
| "to_int64 fp A_function = None"

fun to_string_view :: "'d view \<Rightarrow> string option" where
  "to_string_view A_null = Some ''''"
| "to_string_view (A_string s) = Some s"
| "to_string_view _ = None"

fun to_double :: "'d fpu \<Rightarrow> 'd view \<Rightarrow> 'd option" where
  "to_double fp A_null = Some (fp_of_int fp 0)"
| "to_double fp (A_bool b) = Some (fp_of_int fp (of_bool b))"
| "to_double fp (A_sint w) = Some (fp_of_int fp (sint w))"
| "to_double fp (A_uint w) = Some (fp_of_int fp (uint w))"
| "to_double fp (A_double d) = Some d"
| "to_double fp (A_string s) = None"
| "to_double fp A_function = None"

text \<open>
  \<open>convert\<close> for the integral types goes through \<open>int64_t\<close> and then casts: to \<open>bool\<close> by
  comparing with zero, to \<open>uint64_t\<close> by reinterpreting the bits.
\<close>

definition convert_bool :: "'d fpu \<Rightarrow> 'd view \<Rightarrow> bool option" where
  "convert_bool fp v = map_option (\<lambda>w. w \<noteq> 0) (to_int64 fp v)"

definition convert_uint :: "'d fpu \<Rightarrow> 'd view \<Rightarrow> u64 option" where
  "convert_uint fp v = to_int64 fp v"

definition convert_int :: "'d fpu \<Rightarrow> 'd view \<Rightarrow> int option" where
  "convert_int fp v = map_option sint (to_int64 fp v)"

definition find_attribute :: "'d attribute_pack \<Rightarrow> string \<Rightarrow> 'd view option" where
  "find_attribute pack name = map_of (concat pack) name"

subsection \<open>Filters\<close>

datatype 'd scalar =
    S_bool bool
  | S_uint u64
  | S_int u64
  | S_double 'd
  | S_string string

datatype filter_result = Accept | Reject

type_synonym severity = "32 word"

datatype 'd filter =
    Null_filter
  | Empty_filter
  | Severity_filter severity
  | Exists_filter string
  | Not_exists_filter string
  | Equals_filter string "'d scalar"
  | Not_equals_filter string "'d scalar"
  | Greater_filter string "'d scalar"
  | Less_filter string "'d scalar"
  | Greater_or_equal_filter string "'d scalar"
  | Less_or_equal_filter string "'d scalar"
  | Or_filter "'d filter" "'d filter"
  | And_filter "'d filter" "'d filter"
  | Xor_filter "'d filter" "'d filter"
  | Traced_filter

datatype filter_error =
    Null_apply
  | Null_representation
  | Function_not_supported
  | Representation_not_array
  | Representation_empty
  | Operator_not_string
  | Unknown_single string
  | Invalid_unary string
  | Operand_not_string string
  | Operands_not_arrays string
  | Invalid_operator string
  | Wrong_arity string
  | Invalid_filter_info
  | Dynamic_error dynamic_error

subsubsection \<open>Comparisons of an attribute with the operand\<close>

text \<open>
  The condition \<open>convertible && result OP attribute_value\<close> of the six comparison
  filters. \<open>test\<close> dispatches on the operand's type, as the template argument does.
\<close>

definition test ::
  "'d fpu \<Rightarrow> (bool \<Rightarrow> bool \<Rightarrow> bool) \<Rightarrow> (u64 \<Rightarrow> u64 \<Rightarrow> bool) \<Rightarrow> (int \<Rightarrow> int \<Rightarrow> bool) \<Rightarrow>
   ('d \<Rightarrow> 'd \<Rightarrow> bool) \<Rightarrow> (string \<Rightarrow> string \<Rightarrow> bool) \<Rightarrow> 'd view \<Rightarrow> 'd scalar \<Rightarrow> bool" where
  "test fp opb opu opi opd ops v s =
     (case s of
        S_bool b \<Rightarrow> (case convert_bool fp v of None \<Rightarrow> False | Some r \<Rightarrow> opb r b)
      | S_uint u \<Rightarrow> (case convert_uint fp v of None \<Rightarrow> False | Some r \<Rightarrow> opu r u)
      | S_int i \<Rightarrow> (case convert_int fp v of None \<Rightarrow> False | Some r \<Rightarrow> opi r (sint i))
      | S_double d \<Rightarrow> (case to_double fp v of None \<Rightarrow> False | Some r \<Rightarrow> opd r d)
      | S_string t \<Rightarrow> (case to_string_view v of None \<Rightarrow> False | Some r \<Rightarrow> ops r t))"

definition test_eq :: "'d fpu \<Rightarrow> 'd view \<Rightarrow> 'd scalar \<Rightarrow> bool" where
  "test_eq fp = test fp (=) (=) (=) (fp_eq fp) (=)"

definition test_gt :: "'d fpu \<Rightarrow> 'd view \<Rightarrow> 'd scalar \<Rightarrow> bool" where
  "test_gt fp = test fp (>) (>) (>) (\<lambda>a b. fp_lt fp b a) view_greater"

definition test_lt :: "'d fpu \<Rightarrow> 'd view \<Rightarrow> 'd scalar \<Rightarrow> bool" where
  "test_lt fp = test fp (<) (<) (<) (fp_lt fp) view_less"

definition test_ge :: "'d fpu \<Rightarrow> 'd view \<Rightarrow> 'd scalar \<Rightarrow> bool" where
  "test_ge fp = test fp (\<ge>) (\<ge>) (\<ge>) (\<lambda>a b. fp_le fp b a) view_greater_equal"

definition test_le :: "'d fpu \<Rightarrow> 'd view \<Rightarrow> 'd scalar \<Rightarrow> bool" where
  "test_le fp = test fp (\<le>) (\<le>) (\<le>) (fp_le fp) view_less_equal"

definition verdict :: "bool \<Rightarrow> filter_result" where
  "verdict b = (if b then Accept else Reject)"

subsubsection \<open>Applying a filter\<close>

fun apply_filter ::
  "'d fpu \<Rightarrow> bool \<Rightarrow> 'd filter \<Rightarrow> severity \<Rightarrow> 'd attribute_pack \<Rightarrow>
   (filter_error, filter_result) result" where
  "apply_filter fp verbose Null_filter sev pack = Inl Null_apply"
| "apply_filter fp verbose Empty_filter sev pack = Inr Accept"
| "apply_filter fp verbose (Severity_filter ref_severity) sev pack =
     Inr (verdict (sint sev \<ge> sint ref_severity))"
| "apply_filter fp verbose (Exists_filter name) sev pack =
     Inr (if find_attribute pack name \<noteq> None then Accept else Reject)"
| "apply_filter fp verbose (Not_exists_filter name) sev pack =
     Inr (if find_attribute pack name \<noteq> None then Reject else Accept)"
| "apply_filter fp verbose (Equals_filter name v) sev pack =
     (case find_attribute pack name of
        None \<Rightarrow> Inr Reject
      | Some a \<Rightarrow> Inr (if test_eq fp a v then Accept else Reject))"
| "apply_filter fp verbose (Not_equals_filter name v) sev pack =
     (case find_attribute pack name of
        None \<Rightarrow> Inr Accept
      | Some a \<Rightarrow> Inr (if test_eq fp a v then Reject else Accept))"
| "apply_filter fp verbose (Greater_filter name v) sev pack =
     (case find_attribute pack name of
        None \<Rightarrow> Inr Reject
      | Some a \<Rightarrow> Inr (if test_gt fp a v then Accept else Reject))"
| "apply_filter fp verbose (Less_filter name v) sev pack =
     (case find_attribute pack name of
        None \<Rightarrow> Inr Reject
      | Some a \<Rightarrow> Inr (if test_lt fp a v then Accept else Reject))"
| "apply_filter fp verbose (Greater_or_equal_filter name v) sev pack =
     (case find_attribute pack name of
        None \<Rightarrow> Inr Reject
      | Some a \<Rightarrow> Inr (if test_ge fp a v then Accept else Reject))"
| "apply_filter fp verbose (Less_or_equal_filter name v) sev pack =
     (case find_attribute pack name of
        None \<Rightarrow> Inr Reject
      | Some a \<Rightarrow> Inr (if test_le fp a v then Accept else Reject))"
| "apply_filter fp verbose (Or_filter f1 f2) sev pack =
     bindE (apply_filter fp verbose f1 sev pack) (\<lambda>r1.
       if r1 = Accept then Inr Accept
       else bindE (apply_filter fp verbose f2 sev pack) (\<lambda>r2.
         Inr (if r2 = Accept then Accept else Reject)))"
| "apply_filter fp verbose (And_filter f1 f2) sev pack =
     bindE (apply_filter fp verbose f1 sev pack) (\<lambda>r1.
       if r1 = Accept then
         bindE (apply_filter fp verbose f2 sev pack) (\<lambda>r2.
           Inr (if r2 = Accept then Accept else Reject))
       else Inr Reject)"
| "apply_filter fp verbose (Xor_filter f1 f2) sev pack =
     bindE (apply_filter fp verbose f1 sev pack) (\<lambda>r1.
       bindE (apply_filter fp verbose f2 sev pack) (\<lambda>r2.
         Inr (if r1 \<noteq> r2 then Accept else Reject)))"
| "apply_filter fp verbose Traced_filter sev pack = Inr (if verbose then Accept else Reject)"

subsubsection \<open>Representation\<close>

fun dyn_of_scalar :: "'d scalar \<Rightarrow> 'd dynamic" where
  "dyn_of_scalar (S_bool b) = D_bool b"
| "dyn_of_scalar (S_uint u) = D_uint u"
| "dyn_of_scalar (S_int i) = D_int i"
| "dyn_of_scalar (S_double d) = D_double d"
| "dyn_of_scalar (S_string s) = D_string s"

definition binary_repr :: "string \<Rightarrow> 'd dynamic \<Rightarrow> 'd dynamic \<Rightarrow> 'd dynamic" where
  "binary_repr op a b = D_array [D_string op, a, b]"

fun representation ::
  "(int \<Rightarrow> 'd dynamic) \<Rightarrow> 'd filter \<Rightarrow> (filter_error, 'd dynamic) result" where
  "representation dyn_of_int Null_filter = Inl Null_representation"
| "representation dyn_of_int Empty_filter = Inr (D_array [D_string ''empty''])"
| "representation dyn_of_int (Severity_filter ref_severity) =
     Inr (D_array [D_string ''severity'', dyn_of_int (sint ref_severity)])"
| "representation dyn_of_int (Exists_filter name) = Inr (D_array [D_string ''e'', D_string name])"
| "representation dyn_of_int (Not_exists_filter name) =
     Inr (D_array [D_string ''!e'', D_string name])"
| "representation dyn_of_int (Equals_filter name v) =
     Inr (binary_repr ''=='' (D_string name) (dyn_of_scalar v))"
| "representation dyn_of_int (Not_equals_filter name v) =
     Inr (binary_repr ''!='' (D_string name) (dyn_of_scalar v))"
| "representation dyn_of_int (Greater_filter name v) =
     Inr (binary_repr ''>'' (D_string name) (dyn_of_scalar v))"
| "representation dyn_of_int (Less_filter name v) =
     Inr (binary_repr ''<'' (D_string name) (dyn_of_scalar v))"
| "representation dyn_of_int (Greater_or_equal_filter name v) =
     Inr (binary_repr ''>='' (D_string name) (dyn_of_scalar v))"
| "representation dyn_of_int (Less_or_equal_filter name v) =
     Inr (binary_repr ''<='' (D_string name) (dyn_of_scalar v))"
| "representation dyn_of_int (Or_filter f1 f2) =
     bindE (representation dyn_of_int f1) (\<lambda>a.
       bindE (representation dyn_of_int f2) (\<lambda>b. Inr (binary_repr ''||'' a b)))"
| "representation dyn_of_int (And_filter f1 f2) =
     bindE (representation dyn_of_int f1) (\<lambda>a.
       bindE (representation dyn_of_int f2) (\<lambda>b. Inr (binary_repr ''&&'' a b)))"
| "representation dyn_of_int (Xor_filter f1 f2) =
     bindE (representation dyn_of_int f1) (\<lambda>a.
       bindE (representation dyn_of_int f2) (\<lambda>b. Inr (binary_repr ''xor'' a b)))"
| "representation dyn_of_int Traced_filter = Inr (D_array [D_string ''traced''])"

subsubsection \<open>Construction from a dynamic value\<close>

text \<open>
  \<open>filter_creation_visitor_t\<close>: a comparison filter for the alternatives it accepts, an
  error for null, arrays and objects.
\<close>

fun filter_creation_visitor ::
  "(string \<Rightarrow> 'd scalar \<Rightarrow> 'd filter) \<Rightarrow> string \<Rightarrow> 'd dynamic \<Rightarrow> (filter_error, 'd filter) result"
where
  "filter_creation_visitor mk name (D_bool b) = Inr (mk name (S_bool b))"
| "filter_creation_visitor mk name (D_uint u) = Inr (mk name (S_uint u))"
| "filter_creation_visitor mk name (D_int i) = Inr (mk name (S_int i))"
| "filter_creation_visitor mk name (D_double d) = Inr (mk name (S_double d))"
| "filter_creation_visitor mk name (D_string s) = Inr (mk name (S_string s))"
| "filter_creation_visitor mk name _ = Inl Function_not_supported"

definition unary_operator_factory ::
  "string \<Rightarrow> 'd dynamic \<Rightarrow> (filter_error, 'd filter) result" where
  "unary_operator_factory op operand =
     (case operand of
        D_string name \<Rightarrow>
          if op = ''e'' then Inr (Exists_filter name)
          else if op = ''!e'' then Inr (Not_exists_filter name)
          else Inl (Invalid_unary op)
      | D_uint u \<Rightarrow>
          if op = ''severity'' then Inr (Severity_filter (ucast u))
          else Inl (Invalid_unary op)
      | _ \<Rightarrow> Inl (Invalid_unary op))"

definition string_operand_factory ::
  "string \<Rightarrow> 'd dynamic \<Rightarrow> 'd dynamic \<Rightarrow> (filter_error, 'd filter) result" where
  "string_operand_factory op operand1 operand2 =
     (case operand1 of
        D_string name \<Rightarrow>
          if op = ''=='' then filter_creation_visitor Equals_filter name operand2
          else if op = ''!='' then filter_creation_visitor Not_equals_filter name operand2
          else if op = ''>'' then filter_creation_visitor Greater_filter name operand2
          else if op = ''<'' then filter_creation_visitor Less_filter name operand2
          else if op = ''>='' then filter_creation_visitor Greater_or_equal_filter name operand2
          else if op = ''<='' then filter_creation_visitor Less_or_equal_filter name operand2
          else Inl (Invalid_operator op)
      | _ \<Rightarrow> Inl (Operand_not_string op))"

text \<open>
  \<open>filter_operand_factory\<close> constructs both operands by the constructor it is part of,
  here the argument \<open>mk\<close>.
\<close>

definition both ::
  "('d dynamic \<Rightarrow> (filter_error, 'd filter) result) \<Rightarrow> ('d filter \<Rightarrow> 'd filter \<Rightarrow> 'd filter) \<Rightarrow>
   'd dynamic \<Rightarrow> 'd dynamic \<Rightarrow> (filter_error, 'd filter) result" where
  "both mk c operand1 operand2 =
     bindE (mk operand1) (\<lambda>f1. bindE (mk operand2) (\<lambda>f2. Inr (c f1 f2)))"

definition filter_operand_factory ::
  "('d dynamic \<Rightarrow> (filter_error, 'd filter) result) \<Rightarrow> string \<Rightarrow> 'd dynamic \<Rightarrow> 'd dynamic \<Rightarrow>
   (filter_error, 'd filter) result" where
  "filter_operand_factory mk op operand1 operand2 =
     (if \<not> is_array operand1 \<or> \<not> is_array operand2 then Inl (Operands_not_arrays op)
      else if op = ''||'' then both mk Or_filter operand1 operand2
      else if op = ''&&'' then both mk And_filter operand1 operand2
      else if op = ''xor'' then both mk Xor_filter operand1 operand2
      else Inl (Invalid_operator op))"

definition string_ops :: "string list" where
  "string_ops = [''=='', ''!='', ''>'', ''<'', ''>='', ''<='', ''e'', ''!e'']"

definition binary_operator_factory ::
  "('d dynamic \<Rightarrow> (filter_error, 'd filter) result) \<Rightarrow> string \<Rightarrow> 'd dynamic \<Rightarrow> 'd dynamic \<Rightarrow>
   (filter_error, 'd filter) result" where
  "binary_operator_factory mk op operand1 operand2 =
     (if op \<in> set string_ops then string_operand_factory op operand1 operand2
      else filter_operand_factory mk op operand1 operand2)"

lemma binary_operator_factory_cong [fundef_cong]:
  assumes "op = op'" "a = a'" "b = b'" "mk a' = mk' a'" "mk b' = mk' b'"
  shows "binary_operator_factory mk op a b = binary_operator_factory mk' op' a' b'"
  using assms
  by (simp add: binary_operator_factory_def filter_operand_factory_def both_def)

definition single_factory :: "string \<Rightarrow> (filter_error, 'd filter) result" where
  "single_factory op =
     (if op = ''empty'' then Inr Empty_filter
      else if op = ''traced'' then Inr Traced_filter
      else Inl (Unknown_single op))"

function filter_of :: "'d dynamic \<Rightarrow> (filter_error, 'd filter) result" where
  "filter_of (D_array xs) =
     (case xs of
        [] \<Rightarrow> Inl Representation_empty
      | D_string op # args \<Rightarrow>
          (case args of
             [] \<Rightarrow> single_factory op
           | [operand1] \<Rightarrow> unary_operator_factory op operand1
           | [operand1, operand2] \<Rightarrow> binary_operator_factory filter_of op operand1 operand2
           | _ \<Rightarrow> Inl (Wrong_arity op))
      | _ \<Rightarrow> Inl Operator_not_string)"
| "filter_of D_null = Inl Representation_not_array"
| "filter_of (D_bool b) = Inl Representation_not_array"
| "filter_of (D_uint u) = Inl Representation_not_array"
| "filter_of (D_int i) = Inl Representation_not_array"
| "filter_of (D_double d) = Inl Representation_not_array"
| "filter_of (D_string s) = Inl Representation_not_array"
| "filter_of (D_object m) = Inl Representation_not_array"
  by pat_completeness auto
termination by (relation "measure size") auto

subsection \<open>Filter info\<close>

datatype disposition = Local | Cluster

record 'd filter_info =
  fi_filter :: "'d filter"
  deadline :: u64
  fi_id :: u64
  disposition :: disposition
  logger_name :: string

text \<open>\<open>static_cast\<close> of a \<open>uint64_t\<close> to the enumeration keeps the low 32 bits.\<close>

definition disposition_of :: "u64 \<Rightarrow> (filter_error, disposition) result" where
  "disposition_of u =
     (let n = (ucast u :: 32 word) in
      if n = 0 then Inr Local else if n = 1 then Inr Cluster else Inl Invalid_filter_info)"

definition uint_of_disposition :: "disposition \<Rightarrow> u64" where
  "uint_of_disposition d = (case d of Local \<Rightarrow> 0 | Cluster \<Rightarrow> 1)"

definition required_keys :: "string list" where
  "required_keys = [''filter'', ''deadline'', ''id'', ''logger_name'', ''disposition'']"

definition obj_at :: "string \<Rightarrow> (string \<times> 'd dynamic) list \<Rightarrow> 'd dynamic" where
  "obj_at k obj = (case um_find k obj of Some v \<Rightarrow> v | None \<Rightarrow> D_null)"

definition filter_info_of :: "'d dynamic \<Rightarrow> (filter_error, 'd filter_info) result" where
  "filter_info_of v =
     (case v of
        D_object obj \<Rightarrow>
          if \<exists>key \<in> set required_keys. um_find key obj = None then Inl Invalid_filter_info
          else
            bindE (filter_of (obj_at ''filter'' obj)) (\<lambda>f.
            bindE (lift_error Dynamic_error (as_uint (obj_at ''deadline'' obj))) (\<lambda>dl.
            bindE (lift_error Dynamic_error (as_uint (obj_at ''id'' obj))) (\<lambda>i.
            bindE (lift_error Dynamic_error (as_uint (obj_at ''disposition'' obj))) (\<lambda>dp.
            bindE (disposition_of dp) (\<lambda>d.
            bindE (lift_error Dynamic_error (as_string (obj_at ''logger_name'' obj))) (\<lambda>n.
              Inr \<lparr>fi_filter = f, deadline = dl, fi_id = i, disposition = d, logger_name = n\<rparr>))))))
      | _ \<Rightarrow> Inl Invalid_filter_info)"

definition info_representation ::
  "(int \<Rightarrow> 'd dynamic) \<Rightarrow> 'd filter_info \<Rightarrow> (filter_error, 'd dynamic) result" where
  "info_representation dyn_of_int info =
     bindE (representation dyn_of_int (fi_filter info)) (\<lambda>r.
       Inr (D_object
         [(''filter'', r), (''deadline'', D_uint (deadline info)), (''id'', D_uint (fi_id info)),
          (''logger_name'', D_string (logger_name info)),
          (''disposition'', D_uint (uint_of_disposition (disposition info)))]))"

subsection \<open>Well-formed filters\<close>

text \<open>No null filter inside: what every constructor but the default one produces.\<close>

fun wf_filter :: "'d filter \<Rightarrow> bool" where
  "wf_filter Null_filter = False"
| "wf_filter (Or_filter f1 f2) = (wf_filter f1 \<and> wf_filter f2)"
| "wf_filter (And_filter f1 f2) = (wf_filter f1 \<and> wf_filter f2)"
| "wf_filter (Xor_filter f1 f2) = (wf_filter f1 \<and> wf_filter f2)"
| "wf_filter _ = True"

fun severities :: "'d filter \<Rightarrow> severity list" where
  "severities (Severity_filter s) = [s]"
| "severities (Or_filter f1 f2) = severities f1 @ severities f2"
| "severities (And_filter f1 f2) = severities f1 @ severities f2"
| "severities (Xor_filter f1 f2) = severities f1 @ severities f2"
| "severities _ = []"

text \<open>The meaning of a filter as a predicate.\<close>

fun accepts :: "'d fpu \<Rightarrow> bool \<Rightarrow> 'd filter \<Rightarrow> severity \<Rightarrow> 'd attribute_pack \<Rightarrow> bool" where
  "accepts fp vb Null_filter sev pack = False"
| "accepts fp vb Empty_filter sev pack = True"
| "accepts fp vb (Severity_filter r) sev pack = (sint r \<le> sint sev)"
| "accepts fp vb (Exists_filter n) sev pack = (find_attribute pack n \<noteq> None)"
| "accepts fp vb (Not_exists_filter n) sev pack = (find_attribute pack n = None)"
| "accepts fp vb (Equals_filter n v) sev pack =
     (\<exists>a. find_attribute pack n = Some a \<and> test_eq fp a v)"
| "accepts fp vb (Not_equals_filter n v) sev pack = 
     (\<not> (\<exists>a. find_attribute pack n = Some a \<and> test_eq fp a v))"
| "accepts fp vb (Greater_filter n v) sev pack =
     (\<exists>a. find_attribute pack n = Some a \<and> test_gt fp a v)"
| "accepts fp vb (Less_filter n v) sev pack =
     (\<exists>a. find_attribute pack n = Some a \<and> test_lt fp a v)"
| "accepts fp vb (Greater_or_equal_filter n v) sev pack =
     (\<exists>a. find_attribute pack n = Some a \<and> test_ge fp a v)"
| "accepts fp vb (Less_or_equal_filter n v) sev pack =
     (\<exists>a. find_attribute pack n = Some a \<and> test_le fp a v)"
| "accepts fp vb (Or_filter f1 f2) sev pack =
     (accepts fp vb f1 sev pack \<or> accepts fp vb f2 sev pack)"
| "accepts fp vb (And_filter f1 f2) sev pack =
     (accepts fp vb f1 sev pack \<and> accepts fp vb f2 sev pack)"
| "accepts fp vb (Xor_filter f1 f2) sev pack =
     (accepts fp vb f1 sev pack \<noteq> accepts fp vb f2 sev pack)"
| "accepts fp vb Traced_filter sev pack = vb"

subsection \<open>Application\<close>

lemma verdict_conv [simp]: "verdict b = Accept \<longleftrightarrow> b" "verdict b = Reject \<longleftrightarrow> \<not> b"
  by (simp_all add: verdict_def)

lemma filter_result_neq: "r \<noteq> Accept \<longleftrightarrow> r = Reject"
  by (cases r) auto

lemma apply_filter_accepts:
  "wf_filter f \<Longrightarrow> apply_filter fp vb f sev pack = Inr (verdict (accepts fp vb f sev pack))"
  by (induction f) (auto simp: verdict_def split: option.split)

lemma apply_filter_null: "apply_filter fp vb f sev pack = Inl e \<Longrightarrow> e = Null_apply"
  by (induction f) (auto simp: bindE_Inl_conv split: if_splits option.splits)

subsection \<open>Construction\<close>

lemma filter_creation_visitor_Inr:
  "filter_creation_visitor mk name v = Inr f \<Longrightarrow> \<exists>s. f = mk name s \<and> dyn_of_scalar s = v"
  by (cases v) force+

lemma filter_creation_visitor_scalar [simp]:
  "filter_creation_visitor mk name (dyn_of_scalar s) = Inr (mk name s)"
  by (cases s) auto

lemma single_factory_wf: "single_factory op = Inr f \<Longrightarrow> wf_filter f"
  by (auto simp: single_factory_def split: if_splits)

lemma unary_operator_factory_wf: "unary_operator_factory op v = Inr f \<Longrightarrow> wf_filter f"
  by (auto simp: unary_operator_factory_def split: dynamic.splits if_splits)

lemma string_operand_factory_wf: "string_operand_factory op a b = Inr f \<Longrightarrow> wf_filter f"
  by (auto simp: string_operand_factory_def dest!: filter_creation_visitor_Inr
      split: dynamic.splits if_splits)

lemma binary_operator_factory_wf:
  assumes "binary_operator_factory mk op a b = Inr f"
    and "\<And>g. mk a = Inr g \<Longrightarrow> wf_filter g" and "\<And>g. mk b = Inr g \<Longrightarrow> wf_filter g"
  shows "wf_filter f"
  using assms
  by (auto simp: binary_operator_factory_def filter_operand_factory_def both_def bindE_Inr_conv
      dest: string_operand_factory_wf split: if_splits)

lemma filter_of_wf: "filter_of d = Inr f \<Longrightarrow> wf_filter f"
proof (induction d arbitrary: f rule: filter_of.induct)
  case (1 xs)
  show ?case
  proof (cases xs)
    case (Cons v args)
    then obtain op where v: "v = D_string op"
      using "1.prems" by (auto split: dynamic.splits)
    consider "args = []" | a where "args = [a]" | a b where "args = [a, b]"
      using "1.prems" Cons v by (auto split: list.splits)
    then show ?thesis
    proof cases
      case 1
      then show ?thesis using "1.prems" Cons v by (auto dest: single_factory_wf)
    next
      case (2 a)
      then show ?thesis using "1.prems" Cons v by (auto dest: unary_operator_factory_wf)
    next
      case (3 a b)
      show ?thesis
      proof (rule binary_operator_factory_wf)
        show "binary_operator_factory filter_of op a b = Inr f"
          using "1.prems" Cons v 3 by simp
      qed (use "1.IH" Cons v 3 in auto)
    qed
  qed (use "1.prems" in simp)
qed auto

subsection \<open>Round trip\<close>

lemma representation_wf: "wf_filter f \<Longrightarrow> \<exists>xs. representation di f = Inr (D_array xs)"
  by (induction f) (auto simp: binary_repr_def)

lemma representation_null: "\<not> wf_filter f \<Longrightarrow> representation di f = Inl Null_representation"
proof (induction f)
  case (Or_filter f1 f2)
  then show ?case using representation_wf [of f1 di] by (cases "wf_filter f1") auto
next
  case (And_filter f1 f2)
  then show ?case using representation_wf [of f1 di] by (cases "wf_filter f1") auto
next
  case (Xor_filter f1 f2)
  then show ?case using representation_wf [of f1 di] by (cases "wf_filter f1") auto
qed auto

text \<open>The core renders an \<open>int\<close> severity so that it is read back as the same severity.\<close>

definition severity_readable :: "(int \<Rightarrow> 'd dynamic) \<Rightarrow> severity \<Rightarrow> bool" where
  "severity_readable di s \<longleftrightarrow>
     (case di (sint s) of D_uint u \<Rightarrow> (ucast u :: severity) = s | _ \<Rightarrow> False)"

lemma filter_of_severity:
  "filter_of (D_array [D_string ''severity'', di (sint s)]) = Inr (Severity_filter s) \<longleftrightarrow>
   severity_readable di s"
  by (auto simp: unary_operator_factory_def severity_readable_def split: dynamic.split)

lemma filter_of_combination:
  "filter_of (binary_repr ''||'' (D_array xs) (D_array ys)) = both filter_of Or_filter (D_array xs) (D_array ys)"
  "filter_of (binary_repr ''&&'' (D_array xs) (D_array ys)) = both filter_of And_filter (D_array xs) (D_array ys)"
  "filter_of (binary_repr ''xor'' (D_array xs) (D_array ys)) = both filter_of Xor_filter (D_array xs) (D_array ys)"
  by (simp_all add: binary_repr_def binary_operator_factory_def filter_operand_factory_def
      string_ops_def)

lemma both_Inr:
  "both mk c a b = Inr g \<longleftrightarrow> (\<exists>f1 f2. mk a = Inr f1 \<and> mk b = Inr f2 \<and> g = c f1 f2)"
  by (auto simp: both_def bindE_Inr_conv)

lemma filter_of_comparison:
  "filter_of (binary_repr ''=='' (D_string n) (dyn_of_scalar v)) = Inr (Equals_filter n v)"
  "filter_of (binary_repr ''!='' (D_string n) (dyn_of_scalar v)) = Inr (Not_equals_filter n v)"
  "filter_of (binary_repr ''>'' (D_string n) (dyn_of_scalar v)) = Inr (Greater_filter n v)"
  "filter_of (binary_repr ''<'' (D_string n) (dyn_of_scalar v)) = Inr (Less_filter n v)"
  "filter_of (binary_repr ''>='' (D_string n) (dyn_of_scalar v)) = Inr (Greater_or_equal_filter n v)"
  "filter_of (binary_repr ''<='' (D_string n) (dyn_of_scalar v)) = Inr (Less_or_equal_filter n v)"
  by (simp_all add: binary_repr_def binary_operator_factory_def string_operand_factory_def
      string_ops_def)

lemma representation_bind:
  assumes "bindE (representation di f1) (\<lambda>a. bindE (representation di f2) (\<lambda>b. Inr (binary_repr op a b))) = Inr r"
  obtains xs ys where "representation di f1 = Inr (D_array xs)"
    "representation di f2 = Inr (D_array ys)" "r = binary_repr op (D_array xs) (D_array ys)"
  using assms representation_wf [of f1 di] representation_wf [of f2 di]
    representation_null [of f1 di] representation_null [of f2 di]
  by (cases "wf_filter f1"; cases "wf_filter f2") auto

lemma filter_of_representation:
  "representation di f = Inr r \<Longrightarrow>
   filter_of r = Inr f \<longleftrightarrow> list_all (severity_readable di) (severities f)"
proof (induction f arbitrary: r)
  case (Severity_filter s)
  then show ?case using filter_of_severity [of di s] by auto
next
  case (Or_filter f1 f2)
  from Or_filter.prems show ?case
    unfolding representation.simps
    by (rule representation_bind) (simp add: filter_of_combination both_Inr Or_filter.IH del: filter_of.simps)
next
  case (And_filter f1 f2)
  from And_filter.prems show ?case
    unfolding representation.simps
    by (rule representation_bind) (simp add: filter_of_combination both_Inr And_filter.IH del: filter_of.simps)
next
  case (Xor_filter f1 f2)
  from Xor_filter.prems show ?case
    unfolding representation.simps
    by (rule representation_bind) (simp add: filter_of_combination both_Inr Xor_filter.IH del: filter_of.simps)
next
  case (Equals_filter n v)
  then show ?case using filter_of_comparison(1) [of n v] by auto
next
  case (Not_equals_filter n v)
  then show ?case using filter_of_comparison(2) [of n v] by auto
next
  case (Greater_filter n v)
  then show ?case using filter_of_comparison(3) [of n v] by auto
next
  case (Less_filter n v)
  then show ?case using filter_of_comparison(4) [of n v] by auto
next
  case (Greater_or_equal_filter n v)
  then show ?case using filter_of_comparison(5) [of n v] by auto
next
  case (Less_or_equal_filter n v)
  then show ?case using filter_of_comparison(6) [of n v] by auto
qed (auto simp: single_factory_def unary_operator_factory_def)

lemma disposition_of_uint [simp]: "disposition_of (uint_of_disposition d) = Inr d"
  by (cases d) (simp_all add: disposition_of_def uint_of_disposition_def)

lemma filter_info_of_object:
  "filter_info_of (D_object
     [(''filter'', r), (''deadline'', D_uint dl), (''id'', D_uint i), (''logger_name'', D_string n),
      (''disposition'', D_uint (uint_of_disposition d))]) =
   bindE (filter_of r) (\<lambda>f.
     Inr \<lparr>fi_filter = f, deadline = dl, fi_id = i, disposition = d, logger_name = n\<rparr>)"
  by (simp add: filter_info_of_def required_keys_def obj_at_def)

subsection \<open>The order on strings\<close>

lemma schar_inj: "schar a = schar b \<Longrightarrow> a = b"
proof -
  assume eq: "schar a = schar b"
  have "of_char c < (256 :: int)" "(0 :: int) \<le> of_char c" for c
    using char_of_take_bit_eq [of 8] by (simp_all add: of_char_def take_bit_int_less_exp)
  with eq have "of_char a = (of_char b :: int)"
    unfolding schar_def Let_def by (smt (verit))
  then show "a = b" by simp
qed

lemma lexicographical_compare_prefix:
  assumes "\<And>a. \<not> cmp a a" and "strict_prefix xs ys"
  shows "lexicographical_compare cmp xs ys"
proof -
  obtain zs where ys: "ys = xs @ zs" and "zs \<noteq> []"
    using assms(2) by (auto elim: strict_prefixE')
  have "lexicographical_compare cmp xs (xs @ zs)"
    using assms(1) \<open>zs \<noteq> []\<close> by (induction xs) auto
  with ys show ?thesis by simp
qed

lemma view_greater_less:
  "\<not> prefix xs ys \<Longrightarrow> \<not> prefix ys xs \<Longrightarrow> view_greater xs ys = view_less ys xs"
  unfolding view_greater_def view_less_def
proof (induction xs arbitrary: ys)
  case (Cons x xs)
  then obtain y zs where ys: "ys = y # zs" by (cases ys) auto
  show ?case
  proof (cases "x = y")
    case True
    with Cons ys show ?thesis by simp
  next
    case False
    then have "schar x \<noteq> schar y" by (auto dest: schar_inj)
    then show ?thesis using ys by auto
  qed
qed simp

lemma view_greater_irrefl: "\<not> view_greater xs xs" "\<not> view_less xs xs"
proof -
  have "\<not> lexicographical_compare cmp xs xs" if "\<And>a. \<not> cmp a a" for cmp :: "char \<Rightarrow> char \<Rightarrow> bool"
    using that by (induction xs) auto
  then show "\<not> view_greater xs xs" "\<not> view_less xs xs"
    by (simp_all add: view_greater_def view_less_def)
qed

subsection \<open>Properties\<close>

text \<open>
  Every filter that \<open>filter_t(const dynamic_t&)\<close> constructs can be applied
  without an exception, and its verdict is the one of its meaning as a predicate:
  \<open>||\<close>, \<open>&&\<close> and \<open>xor\<close> are disjunction, conjunction and exclusive disjunction of the
  operands despite short-circuit evaluation, \<open>!e\<close> and \<open>!=\<close> are the complements of
  \<open>e\<close> and \<open>==\<close>, and a comparison accepts only when the attribute exists, converts and
  compares.
\<close>

theorem filter_semantics:
  assumes "filter_of d = Inr f"
  shows "apply_filter fp vb f sev pack = Inr (if accepts fp vb f sev pack then Accept else Reject)"
  using apply_filter_accepts [OF filter_of_wf [OF assms]] by (simp add: verdict_def)

theorem filter_semantics_witness:
  "apply_filter int_fpu False (Or_filter (Severity_filter 3) (Not_exists_filter ''source'')) 2
     [[(''source'', A_string ''core'')]] = Inr Reject"
proof -
  have "filter_of (D_array [D_string ''||'', D_array [D_string ''severity'', D_uint 3],
      D_array [D_string ''!e'', D_string ''source'']]) =
      Inr (Or_filter (Severity_filter 3) (Not_exists_filter ''source'') :: int filter)"
    by (simp add: binary_operator_factory_def filter_operand_factory_def both_def string_ops_def
        unary_operator_factory_def)
  from filter_semantics [OF this, of int_fpu False 2 "[[(''source'', A_string ''core'')]]"]
  show ?thesis by (simp add: find_attribute_def)
qed

text \<open>
  C28: printing and parsing a filter. Every filter without a null filter inside has a
  representation, and constructing a filter from it gives the same filter back exactly
  when every severity threshold in it is read back: the constructor takes unsigned
  numbers only, while the representation is built from an \<open>int\<close>.
\<close>

theorem filter_roundtrip:
  assumes "wf_filter f"
  shows "\<exists>r. representation dyn_of_int f = Inr r \<and>
             (filter_of r = Inr f \<longleftrightarrow> (\<forall>s \<in> set (severities f). severity_readable dyn_of_int s))"
  using representation_wf [OF assms, of dyn_of_int] filter_of_representation [of dyn_of_int f]
  by (auto simp: list_all_iff)

theorem filter_roundtrip_witness:
  "\<exists>r. representation (\<lambda>i. D_int (of_int i))
          (And_filter (Less_filter ''age'' (S_int 5)) Traced_filter :: int filter) = Inr r \<and>
       filter_of r = Inr (And_filter (Less_filter ''age'' (S_int 5)) Traced_filter)"
  using filter_roundtrip [of "And_filter (Less_filter ''age'' (S_int 5)) Traced_filter :: int filter"
      "\<lambda>i. D_int (of_int i)"]
  by simp

text \<open>
  What \<open>set_filter\<close> stores in the cluster is what a node
  reads back. If the filter is read back from its representation, then the
  \<open>filter_info_t\<close> constructed from the representation of a filter info is equal to it,
  with the lifetime, id, disposition and logger name unchanged.
\<close>

theorem filter_info_roundtrip:
  assumes "info_representation dyn_of_int info = Inr r"
    and "\<forall>s \<in> set (severities (fi_filter info)). severity_readable dyn_of_int s"
  shows "filter_info_of r = Inr info"
proof -
  obtain q where q: "representation dyn_of_int (fi_filter info) = Inr q"
    using assms(1) by (auto simp: info_representation_def bindE_Inr_conv)
  then have "filter_of q = Inr (fi_filter info)"
    using filter_of_representation [OF q] assms(2) by (simp add: list_all_iff)
  then show ?thesis
    using assms(1) q by (auto simp: info_representation_def filter_info_of_object)
qed

theorem filter_info_roundtrip_witness:
  "filter_info_of (D_object [(''filter'', D_array [D_string ''e'', D_string ''x'']),
     (''deadline'', D_uint 100), (''id'', D_uint 7), (''logger_name'', D_string ''app''),
     (''disposition'', D_uint 1)] :: int dynamic) =
   Inr \<lparr>fi_filter = Exists_filter ''x'', deadline = 100, fi_id = 7, disposition = Cluster,
        logger_name = ''app''\<rparr>"
  by (rule filter_info_roundtrip [of "\<lambda>i. D_int (of_int i)"])
    (simp_all add: info_representation_def uint_of_disposition_def)

text \<open>
  The order the file defines on attribute strings is not an order. When one
  string is a proper prefix of the other, \<open>operator<\<close> and \<open>operator>\<close> both hold from the
  shorter to the longer one, so \<open>["<=", a, s]\<close> rejects an attribute that is a proper
  prefix of \<open>s\<close> and \<open>[">", a, s]\<close> accepts it; on all other pairs of strings \<open>operator>\<close> is
  the converse of \<open>operator<\<close>.
\<close>

theorem view_order_prefix:
  "view_greater xs ys \<longleftrightarrow>
     (if prefix xs ys \<or> prefix ys xs then strict_prefix xs ys else view_less ys xs)"
proof -
  have up: "view_greater xs ys" if "strict_prefix xs ys" for xs ys
    using that unfolding view_greater_def by (intro lexicographical_compare_prefix) auto
  have down: "\<not> view_greater (xs @ zs) xs" for xs zs
    unfolding view_greater_def by (induction xs) (cases zs; simp)+
  show ?thesis
  proof (cases "prefix xs ys \<or> prefix ys xs")
    case True
    then consider "strict_prefix xs ys" | "xs = ys" | "strict_prefix ys xs"
      by (auto simp: strict_prefix_def)
    then show ?thesis
    proof cases
      case 3
      then obtain zs where "xs = ys @ zs" by (auto simp: strict_prefix_def prefix_def)
      with 3 down [of ys zs] show ?thesis by (auto simp: strict_prefix_def)
    qed (auto simp: up view_greater_irrefl)
  qed (simp add: view_greater_less)
qed

end
