(* ===== verification/Metafilter.thy ===== *)
theory Metafilter
  imports Log_Filter
begin

section \<open>Metafilters\<close>

text \<open>
  Model of \<open>logging/src/logging/metafilter.cpp\<close>: a bunch of filters with deadlines, joined
  by disjunction, and the counters of accepted and rejected records. The counters are
  64-bit metrics; the two \<open>overall_count\<close> metrics are registered under one name
  (\<open>logging.<name>.sum.count\<close>), so they are one counter. \<open>std::time\<close> is an argument,
  one per call. Iterators into the vector are indices, and the loop of \<open>cleanup\<close> is a
  recursion on them. \<open>apply\<close> releases its shared lock before it calls \<open>cleanup\<close>:
  \<open>mf_scan\<close> is the part under the lock.
\<close>

subsection \<open>State\<close>

record processed =
  cnt :: u64
  count_since_change :: u64

record 'd metafilter =
  mf_name :: string
  mf_filters :: "'d filter_info list"
  accepted :: processed
  rejected :: processed
  overall_count :: u64

text \<open>
  Counters live in the metrics hub under the metafilter's name; \<open>hub\<close> gives the value
  a counter has when the metafilter is constructed.
\<close>

definition new_metafilter :: "(string \<Rightarrow> u64) \<Rightarrow> string \<Rightarrow> 'd metafilter" where
  "new_metafilter hub name =
     \<lparr>mf_name = name, mf_filters = [],
      accepted = \<lparr>cnt = hub (''logging.'' @ name @ ''.accepted.count''),
                  count_since_change = hub (''logging.'' @ name @ ''.accepted.count_since_change'')\<rparr>,
      rejected = \<lparr>cnt = hub (''logging.'' @ name @ ''.rejected.count''),
                  count_since_change = hub (''logging.'' @ name @ ''.rejected.count_since_change'')\<rparr>,
      overall_count = hub (''logging.'' @ name @ ''.sum.count'')\<rparr>"

subsection \<open>Operations\<close>

definition p_increment :: "processed \<Rightarrow> processed" where
  "p_increment p = p\<lparr>cnt := cnt p + 1, count_since_change := count_since_change p + 1\<rparr>"

definition p_on_changed :: "processed \<Rightarrow> processed" where
  "p_on_changed p = p\<lparr>count_since_change := 0\<rparr>"

definition mf_on_changed :: "'d metafilter \<Rightarrow> 'd metafilter" where
  "mf_on_changed m = m\<lparr>accepted := p_on_changed (accepted m), rejected := p_on_changed (rejected m)\<rparr>"

definition add_filter :: "'d filter_info \<Rightarrow> 'd metafilter \<Rightarrow> 'd metafilter" where
  "add_filter info m =
     (case find (\<lambda>i. fi_id i = fi_id info) (mf_filters m) of
        None \<Rightarrow> mf_on_changed (m\<lparr>mf_filters := mf_filters m @ [info]\<rparr>)
      | Some _ \<Rightarrow> m)"

text \<open>\<open>remove_filter\<close> by id, which erases the iterator \<open>find_if\<close> returns, and by iterator.\<close>

definition remove_at :: "nat \<Rightarrow> 'd metafilter \<Rightarrow> 'd metafilter" where
  "remove_at i m = (mf_on_changed m)\<lparr>mf_filters := take i (mf_filters m) @ drop (Suc i) (mf_filters m)\<rparr>"

fun find_index :: "('a \<Rightarrow> bool) \<Rightarrow> 'a list \<Rightarrow> nat" where
  "find_index p [] = 0"
| "find_index p (x # xs) = (if p x then 0 else Suc (find_index p xs))"

definition remove_filter :: "u64 \<Rightarrow> 'd metafilter \<Rightarrow> bool \<times> 'd metafilter" where
  "remove_filter i m =
     (let it = find_index (\<lambda>info. fi_id info = i) (mf_filters m) in
      if it = length (mf_filters m) then (False, m) else (True, remove_at it m))"

definition mf_empty :: "'d metafilter \<Rightarrow> bool" where
  "mf_empty m \<longleftrightarrow> mf_filters m = []"

definition expired :: "u64 \<Rightarrow> 'd filter_info \<Rightarrow> bool" where
  "expired now info \<longleftrightarrow> now > deadline info"

function cleanup_from :: "u64 \<Rightarrow> nat \<Rightarrow> 'd metafilter \<Rightarrow> 'd metafilter" where
  "cleanup_from now i m =
     (if i < length (mf_filters m) then
        if expired now (mf_filters m ! i) then cleanup_from now i (remove_at i m)
        else cleanup_from now (Suc i) m
      else m)"
  by pat_completeness auto
termination
  by (relation "measure (\<lambda>(now, i, m). length (mf_filters m) - i)") (auto simp: remove_at_def)

definition mf_cleanup :: "u64 \<Rightarrow> 'd metafilter \<Rightarrow> 'd metafilter" where
  "mf_cleanup now m = cleanup_from now 0 m"

fun scan_loop ::
  "('d filter \<Rightarrow> (filter_error, filter_result) result) \<Rightarrow> u64 \<Rightarrow> 'd filter_info list \<Rightarrow>
   bool \<Rightarrow> filter_result \<Rightarrow> (filter_error, bool \<times> filter_result) result" where
  "scan_loop ap now [] need_cleanup res = Inr (need_cleanup, res)"
| "scan_loop ap now (info # infos) need_cleanup res =
     (if expired now info then scan_loop ap now infos True res
      else if res = Reject then
        bindE (ap (fi_filter info)) (\<lambda>r.
          scan_loop ap now infos need_cleanup (if r = Accept then Accept else res))
      else scan_loop ap now infos need_cleanup res)"

definition mf_scan ::
  "'d fpu \<Rightarrow> bool \<Rightarrow> u64 \<Rightarrow> severity \<Rightarrow> 'd attribute_pack \<Rightarrow> 'd metafilter \<Rightarrow>
   (filter_error, bool \<times> filter_result) result" where
  "mf_scan fp vb now sev pack m =
     scan_loop (\<lambda>f. apply_filter fp vb f sev pack) now (mf_filters m) False Reject"

definition mf_count :: "filter_result \<Rightarrow> 'd metafilter \<Rightarrow> 'd metafilter" where
  "mf_count r m =
     (if r = Reject then m\<lparr>rejected := p_increment (rejected m), overall_count := overall_count m + 1\<rparr>
      else m\<lparr>accepted := p_increment (accepted m), overall_count := overall_count m + 1\<rparr>)"

definition mf_apply ::
  "'d fpu \<Rightarrow> bool \<Rightarrow> u64 \<Rightarrow> u64 \<Rightarrow> severity \<Rightarrow> 'd attribute_pack \<Rightarrow> 'd metafilter \<Rightarrow>
   (filter_error, filter_result \<times> 'd metafilter) result" where
  "mf_apply fp vb now now' sev pack m =
     bindE (mf_scan fp vb now sev pack m) (\<lambda>(need_cleanup, r).
       let m' = (if need_cleanup then mf_cleanup now' m else m) in
       Inr (r, mf_count r m'))"

definition mf_each :: "('d filter_info \<Rightarrow> 'a) \<Rightarrow> 'd metafilter \<Rightarrow> 'a list" where
  "mf_each fn m = map fn (mf_filters m)"

subsection \<open>Invariant\<close>

text \<open>Filter ids are unique in a metafilter, and no filter is a null filter.\<close>

definition mf_inv :: "'d metafilter \<Rightarrow> bool" where
  "mf_inv m \<longleftrightarrow>
     distinct (map fi_id (mf_filters m)) \<and> (\<forall>info \<in> set (mf_filters m). wf_filter (fi_filter info))"

lemma mf_on_changed_frame [frame_simps]:
  "mf_filters (mf_on_changed m) = mf_filters m"
  "mf_name (mf_on_changed m) = mf_name m"
  "overall_count (mf_on_changed m) = overall_count m"
  by (simp_all add: mf_on_changed_def)

lemma remove_at_frame [frame_simps]:
  "mf_filters (remove_at i m) = take i (mf_filters m) @ drop (Suc i) (mf_filters m)"
  "mf_name (remove_at i m) = mf_name m"
  "overall_count (remove_at i m) = overall_count m"
  "cnt (accepted (remove_at i m)) = cnt (accepted m)"
  "cnt (rejected (remove_at i m)) = cnt (rejected m)"
  by (simp_all add: remove_at_def mf_on_changed_def p_on_changed_def)

lemma mf_count_frame [frame_simps]:
  "mf_filters (mf_count r m) = mf_filters m" "mf_name (mf_count r m) = mf_name m"
  by (simp_all add: mf_count_def)

lemma find_index_le: "find_index p xs \<le> length xs"
  by (induction xs) auto

lemma find_index_length: "find_index p xs = length xs \<longleftrightarrow> \<not> list_ex p xs"
  by (induction xs) auto

lemma remove_find_index:
  "take (find_index p xs) xs @ drop (Suc (find_index p xs)) xs = erase_first p xs"
  by (induction xs) auto

subsection \<open>Removal and cleanup\<close>

lemma remove_filter_filters:
  assumes "distinct (map fi_id (mf_filters m))"
  shows "mf_filters (snd (remove_filter i m)) = filter (\<lambda>info. fi_id info \<noteq> i) (mf_filters m)"
    and "fst (remove_filter i m) \<longleftrightarrow> i \<in> fi_id ` set (mf_filters m)"
proof -
  let ?p = "\<lambda>info. fi_id info = i"
  have ex: "list_ex ?p (mf_filters m) \<longleftrightarrow> i \<in> fi_id ` set (mf_filters m)"
    by (auto simp: list_ex_iff)
  then show "fst (remove_filter i m) \<longleftrightarrow> i \<in> fi_id ` set (mf_filters m)"
    by (simp add: remove_filter_def Let_def find_index_length)
  show "mf_filters (snd (remove_filter i m)) = filter (\<lambda>info. fi_id info \<noteq> i) (mf_filters m)"
    using assms ex erase_first_none [of ?p "mf_filters m"]
    by (auto simp: remove_filter_def Let_def find_index_length frame_simps remove_find_index
        map_erase_first_distinct)
qed

declare cleanup_from.simps [simp del]

lemma cleanup_from_filters:
  "mf_filters (cleanup_from now i m) =
   take i (mf_filters m) @ filter (\<lambda>info. \<not> expired now info) (drop i (mf_filters m))"
proof (induction now i m rule: cleanup_from.induct)
  case (1 now i m)
  show ?case
  proof (cases "i < length (mf_filters m)")
    case True
    then have drop: "drop i (mf_filters m) = mf_filters m ! i # drop (Suc i) (mf_filters m)"
      by (simp add: Cons_nth_drop_Suc)
    show ?thesis
    proof (cases "expired now (mf_filters m ! i)")
      case True
      with \<open>i < _\<close> "1.IH"(1) show ?thesis
        by (simp add: cleanup_from.simps [of now i m] frame_simps drop min_def)
    next
      case False
      with \<open>i < _\<close> "1.IH"(2) show ?thesis
        by (simp add: cleanup_from.simps [of now i m] drop take_Suc_conv_app_nth)
    qed
  next
    case False
    then show ?thesis by (simp add: cleanup_from.simps [of now i m])
  qed
qed

lemma cleanup_from_frame [frame_simps]:
  "mf_name (cleanup_from now i m) = mf_name m"
  "overall_count (cleanup_from now i m) = overall_count m"
  "cnt (accepted (cleanup_from now i m)) = cnt (accepted m)"
  "cnt (rejected (cleanup_from now i m)) = cnt (rejected m)"
  by (induction now i m rule: cleanup_from.induct)
    (auto simp: cleanup_from.simps [of _ _ m for m] frame_simps)

lemma mf_cleanup_filters:
  "mf_filters (mf_cleanup now m) = filter (\<lambda>info. \<not> expired now info) (mf_filters m)"
  by (simp add: mf_cleanup_def cleanup_from_filters)

lemma mf_cleanup_frame [frame_simps]:
  "mf_name (mf_cleanup now m) = mf_name m"
  "overall_count (mf_cleanup now m) = overall_count m"
  "cnt (accepted (mf_cleanup now m)) = cnt (accepted m)"
  "cnt (rejected (mf_cleanup now m)) = cnt (rejected m)"
  by (simp_all add: mf_cleanup_def frame_simps)

lemma cleanup_from_none:
  "\<forall>info \<in> set (drop i (mf_filters m)). \<not> expired now info \<Longrightarrow> cleanup_from now i m = m"
proof (induction now i m rule: cleanup_from.induct)
  case (1 now i m)
  show ?case
  proof (cases "i < length (mf_filters m)")
    case True
    then have "drop i (mf_filters m) = mf_filters m ! i # drop (Suc i) (mf_filters m)"
      by (simp add: Cons_nth_drop_Suc)
    with True 1 show ?thesis by (simp add: cleanup_from.simps [of now i m])
  qed (simp add: cleanup_from.simps [of now i m])
qed

lemma mf_cleanup_none:
  "\<forall>info \<in> set (mf_filters m). \<not> expired now info \<Longrightarrow> mf_cleanup now m = m"
  by (simp add: mf_cleanup_def cleanup_from_none)

subsection \<open>The invariant is kept\<close>

lemma mf_filters_new [simp]: "mf_filters (new_metafilter hub name) = []"
  by (simp add: new_metafilter_def)

lemma mf_inv_new [inv_intros]: "mf_inv (new_metafilter hub name)"
  by (simp add: mf_inv_def new_metafilter_def)

lemma add_filter_filters:
  "mf_filters (add_filter info m) =
     (if fi_id info \<in> fi_id ` set (mf_filters m) then mf_filters m else mf_filters m @ [info])"
  using find_key_None [of fi_id "fi_id info" "mf_filters m"]
  by (auto simp: add_filter_def frame_simps split: option.split)

lemma add_filter_name [frame_simps]: "mf_name (add_filter info m) = mf_name m"
  by (simp add: add_filter_def frame_simps split: option.split)

lemma mf_inv_add [inv_intros]:
  "mf_inv m \<Longrightarrow> wf_filter (fi_filter info) \<Longrightarrow> mf_inv (add_filter info m)"
  by (auto simp: mf_inv_def add_filter_filters)

lemma mf_inv_remove [inv_intros]: "mf_inv m \<Longrightarrow> mf_inv (snd (remove_filter i m))"
  by (simp add: mf_inv_def remove_filter_filters)

lemma mf_inv_cleanup [inv_intros]: "mf_inv m \<Longrightarrow> mf_inv (mf_cleanup now m)"
  by (simp add: mf_inv_def mf_cleanup_filters)

lemma mf_inv_count [inv_intros]: "mf_inv m \<Longrightarrow> mf_inv (mf_count r m)"
  by (simp add: mf_inv_def frame_simps)

subsection \<open>Applying\<close>

definition live_accepts ::
  "'d fpu \<Rightarrow> bool \<Rightarrow> u64 \<Rightarrow> severity \<Rightarrow> 'd attribute_pack \<Rightarrow> 'd filter_info \<Rightarrow> bool" where
  "live_accepts fp vb now sev pack info \<longleftrightarrow>
     \<not> expired now info \<and> accepts fp vb (fi_filter info) sev pack"

lemma scan_loop_result:
  "\<forall>info \<in> set infos. wf_filter (fi_filter info) \<Longrightarrow>
   scan_loop (\<lambda>f. apply_filter fp vb f sev pack) now infos need_cleanup res =
   Inr (need_cleanup \<or> list_ex (expired now) infos,
        if res = Accept \<or> list_ex (live_accepts fp vb now sev pack) infos then Accept else Reject)"
proof (induction infos arbitrary: need_cleanup res)
  case Nil
  then show ?case by (cases res) auto
next
  case (Cons info infos)
  then show ?case
    by (cases res) (simp_all add: apply_filter_accepts live_accepts_def)
qed

lemma mf_scan_result:
  "mf_inv m \<Longrightarrow>
   mf_scan fp vb now sev pack m =
   Inr (list_ex (expired now) (mf_filters m),
        verdict (list_ex (live_accepts fp vb now sev pack) (mf_filters m)))"
  by (simp add: mf_scan_def scan_loop_result mf_inv_def verdict_def)

lemma mf_apply_result:
  assumes "mf_inv m"
  shows "mf_apply fp vb now now' sev pack m =
         (let r = verdict (list_ex (live_accepts fp vb now sev pack) (mf_filters m)) in
          Inr (r, mf_count r (if list_ex (expired now) (mf_filters m) then mf_cleanup now' m else m)))"
  using assms by (simp add: mf_apply_def mf_scan_result Let_def)

lemma mf_inv_apply [inv_intros]:
  "mf_inv m \<Longrightarrow> mf_apply fp vb now now' sev pack m = Inr (r, m') \<Longrightarrow> mf_inv m'"
  by (auto simp: mf_apply_result Let_def inv_intros)

text \<open>
  The clock does not run backwards between the scan and the cleanup: what had expired
  then has expired now.
\<close>

lemma expired_mono: "now \<le> now' \<Longrightarrow> expired now info \<Longrightarrow> expired now' info"
  by (simp add: expired_def)

lemma mf_apply_filters:
  assumes "mf_inv m" and "now \<le> now'" and "mf_apply fp vb now now' sev pack m = Inr (r, m')"
  shows "mf_filters m' =
         (if list_ex (expired now) (mf_filters m)
          then filter (\<lambda>info. \<not> expired now' info) (mf_filters m) else mf_filters m)"
    and "\<forall>info \<in> set (mf_filters m'). \<not> expired now info"
proof -
  show filters: "mf_filters m' =
         (if list_ex (expired now) (mf_filters m)
          then filter (\<lambda>info. \<not> expired now' info) (mf_filters m) else mf_filters m)"
    using assms(1,3) by (auto simp: mf_apply_result Let_def frame_simps mf_cleanup_filters)
  then show "\<forall>info \<in> set (mf_filters m'). \<not> expired now info"
    using expired_mono [OF assms(2)] by (auto simp: list_ex_iff)
qed

lemma mf_apply_counts:
  assumes "mf_inv m" and "mf_apply fp vb now now' sev pack m = Inr (r, m')"
  shows "overall_count m' = overall_count m + 1"
    and "cnt (accepted m') = cnt (accepted m) + (if r = Accept then 1 else 0)"
    and "cnt (rejected m') = cnt (rejected m) + (if r = Reject then 1 else 0)"
  using assms by (auto simp: mf_apply_result Let_def mf_count_def p_increment_def frame_simps)

subsection \<open>Properties\<close>

text \<open>
  A metafilter is the disjunction of its live filters. On a well-formed metafilter
  \<open>apply\<close> never throws and accepts a record exactly when some filter whose deadline has
  not passed accepts it; no filter expired at the time of the call survives it and, the
  clock being monotonic, only filters expired by the time of the cleanup are dropped;
  exactly one of the two counters and the sum are incremented.
\<close>

theorem metafilter_apply:
  assumes "mf_inv m" and "now \<le> now'"
  shows "\<exists>r m'. mf_apply fp vb now now' sev pack m = Inr (r, m') \<and> mf_inv m' \<and>
           (r = Accept \<longleftrightarrow> (\<exists>info \<in> set (mf_filters m). now \<le> deadline info \<and>
                             accepts fp vb (fi_filter info) sev pack)) \<and>
           set (mf_filters m') \<subseteq> {info \<in> set (mf_filters m). now \<le> deadline info} \<and>
           {info \<in> set (mf_filters m). now' \<le> deadline info} \<subseteq> set (mf_filters m') \<and>
           overall_count m' = overall_count m + 1 \<and>
           cnt (accepted m') + cnt (rejected m') = cnt (accepted m) + cnt (rejected m) + 1"
proof -
  obtain r m' where ap: "mf_apply fp vb now now' sev pack m = Inr (r, m')"
    using mf_apply_result [OF assms(1)] by (metis surj_pair)
  have "r = Accept \<longleftrightarrow> (\<exists>info \<in> set (mf_filters m). live_accepts fp vb now sev pack info)"
    using ap mf_apply_result [OF assms(1), of fp vb now now' sev pack]
    by (auto simp: Let_def list_ex_iff)
  moreover have "cnt (accepted m') + cnt (rejected m') = cnt (accepted m) + cnt (rejected m) + 1"
    using mf_apply_counts [OF assms(1) ap] by (cases r) simp_all
  ultimately show ?thesis
    using ap mf_inv_apply [OF assms(1) ap] mf_apply_filters [OF assms ap] mf_apply_counts(1) [OF assms(1) ap]
    by (auto simp: live_accepts_def expired_def not_less split: if_splits)
qed

definition sample_metafilter :: "int metafilter" where
  "sample_metafilter =
     add_filter \<lparr>fi_filter = Exists_filter ''a'', deadline = 5, fi_id = 1, disposition = Local,
                 logger_name = ''app''\<rparr>
       (add_filter \<lparr>fi_filter = Empty_filter, deadline = 9, fi_id = 2, disposition = Local,
                    logger_name = ''app''\<rparr> (new_metafilter (\<lambda>_. 0) ''app''))"

lemma mf_inv_sample: "mf_inv sample_metafilter"
  by (simp add: sample_metafilter_def inv_intros)

theorem metafilter_apply_witness:
  "\<exists>r m'. mf_apply int_fpu False 6 7 1 [] sample_metafilter = Inr (r, m') \<and> r = Accept \<and>
          set (mf_filters m') \<subseteq> {info \<in> set (mf_filters sample_metafilter). 6 \<le> deadline info}"
proof -
  have "(6 :: u64) \<le> 7" by simp
  from metafilter_apply [OF mf_inv_sample this, of int_fpu False 1 "[]"] show ?thesis
    by (auto simp: sample_metafilter_def add_filter_filters new_metafilter_def)
qed

text \<open>
  The iterator loop of \<open>cleanup\<close>, which erases while it walks the vector, visits
  every filter: it keeps exactly the filters whose deadline has not passed, in their
  order, keeps the invariant, and resets the since-change counters only if it removed
  a filter (otherwise the metafilter is unchanged).
\<close>

theorem metafilter_cleanup:
  "mf_filters (mf_cleanup now m) = filter (\<lambda>info. now \<le> deadline info) (mf_filters m) \<and>
   (mf_inv m \<longrightarrow> mf_inv (mf_cleanup now m)) \<and>
   (mf_filters (mf_cleanup now m) = mf_filters m \<longrightarrow> mf_cleanup now m = m)"
proof -
  have "mf_cleanup now m = m" if "mf_filters (mf_cleanup now m) = mf_filters m"
    using that by (intro mf_cleanup_none) (simp add: mf_cleanup_filters filter_id_conv)
  then show ?thesis
    by (auto simp: mf_cleanup_filters expired_def not_less intro: mf_inv_cleanup)
qed

theorem metafilter_cleanup_witness:
  "mf_filters (mf_cleanup 6 sample_metafilter) = [hd (mf_filters sample_metafilter)] \<and>
   mf_inv (mf_cleanup 6 sample_metafilter)"
  using metafilter_cleanup [of 6 sample_metafilter] mf_inv_sample
  by (simp add: sample_metafilter_def add_filter_filters new_metafilter_def)

text \<open>
  Adding and removing by id. Adding a filter whose id is present changes
  nothing, otherwise it is appended and both since-change counters are reset; removing
  an id reports whether it was there, takes out that filter and nothing else; removing
  what was just added restores the filter list.
\<close>

theorem metafilter_membership:
  assumes "mf_inv m"
  shows "(if fi_id info \<in> fi_id ` set (mf_filters m) then add_filter info m = m
          else mf_filters (add_filter info m) = mf_filters m @ [info] \<and>
               count_since_change (accepted (add_filter info m)) = 0 \<and>
               count_since_change (rejected (add_filter info m)) = 0 \<and>
               mf_filters (snd (remove_filter (fi_id info) (add_filter info m))) = mf_filters m) \<and>
         (fst (remove_filter i m) \<longleftrightarrow> i \<in> fi_id ` set (mf_filters m)) \<and>
         mf_filters (snd (remove_filter i m)) = filter (\<lambda>info. fi_id info \<noteq> i) (mf_filters m) \<and>
         mf_inv (snd (remove_filter i m))"
proof (cases "fi_id info \<in> fi_id ` set (mf_filters m)")
  case True
  then have "find (\<lambda>i. fi_id i = fi_id info) (mf_filters m) \<noteq> None"
    by (simp add: find_key_None)
  then show ?thesis
    using True assms remove_filter_filters [of m i] mf_inv_remove [OF assms, of i]
    by (auto simp: add_filter_def mf_inv_def)
next
  case False
  then have "find (\<lambda>i. fi_id i = fi_id info) (mf_filters m) = None"
    and "filter (\<lambda>j. fi_id j \<noteq> fi_id info) (mf_filters m) = mf_filters m"
    by (simp add: find_key_None) (rule filter_True, metis False imageI)
  moreover have "distinct (map fi_id (mf_filters (add_filter info m)))"
    using False assms by (simp add: add_filter_filters mf_inv_def)
  ultimately show ?thesis
    using False assms remove_filter_filters [of m i] mf_inv_remove [OF assms, of i]
      remove_filter_filters [of "add_filter info m" "fi_id info"]
    by (simp add: add_filter_filters mf_inv_def)
      (simp add: add_filter_def mf_on_changed_def p_on_changed_def)
qed

theorem metafilter_membership_witness:
  "fst (remove_filter 2 sample_metafilter) \<and> \<not> fst (remove_filter 3 sample_metafilter)"
  using metafilter_membership [OF mf_inv_sample, of undefined 2]
    metafilter_membership [OF mf_inv_sample, of undefined 3]
  by (simp add: sample_metafilter_def add_filter_filters new_metafilter_def)

end
