(* ===== verification/Logging_Service.thy ===== *)
theory Logging_Service
  imports Metafilter
begin

section \<open>The logging service\<close>

text \<open>
  Model of \<open>logging/src/logging_v2.cpp\<close>. Metafilters are shared objects: the radix tree
  and the closure installed as the core's log filter hold references to them, so the
  model keeps them in a heap and the tree maps logger names to references.

  The radix tree is a library the service calls; its operations are a parameter
  (\<open>rtree\<close>) and \<open>rtree_ok\<close> states what the library documents: finite maps from
  strings with iteration, insertion, erasure and the longest key that is a prefix of
  a name. The unicorn client is asynchronous: a call appends a command to \<open>outbox\<close>, and
  every callback is an operation that takes the outcome of the future. The clock and
  the random generator are arguments. The service's locks make each operation atomic.
\<close>

subsection \<open>The radix tree\<close>

record ('t, 'v) rtree =
  rt_empty :: 't
  rt_entries :: "'t \<Rightarrow> (string \<times> 'v) list"
  rt_put :: "string \<Rightarrow> 'v \<Rightarrow> 't \<Rightarrow> 't"
  rt_erase :: "string \<Rightarrow> 't \<Rightarrow> 't"
  rt_longest_match :: "string \<Rightarrow> 't \<Rightarrow> (string \<times> 'v) option"

definition rt_find :: "('t, 'v, 'z) rtree_scheme \<Rightarrow> string \<Rightarrow> 't \<Rightarrow> 'v option" where
  "rt_find rt k t = map_of (rt_entries rt t) k"

definition rtree_ok :: "('t, 'v, 'z) rtree_scheme \<Rightarrow> bool" where
  "rtree_ok rt \<longleftrightarrow>
     rt_entries rt (rt_empty rt) = [] \<and>
     (\<forall>t. distinct (map fst (rt_entries rt t))) \<and>
     (\<forall>t k v. rt_find rt k (rt_put rt k v t) = Some v) \<and>
     (\<forall>t k k' v. k' \<noteq> k \<longrightarrow> rt_find rt k' (rt_put rt k v t) = rt_find rt k' t) \<and>
     (\<forall>t k k'. rt_find rt k' (rt_erase rt k t) = (if k' = k then None else rt_find rt k' t)) \<and>
     (\<forall>t n k v. rt_longest_match rt n t = Some (k, v) \<longleftrightarrow>
        rt_find rt k t = Some v \<and> prefix k n \<and>
        (\<forall>k' v'. rt_find rt k' t = Some v' \<and> prefix k' n \<longrightarrow> length k' \<le> length k))"

subsection \<open>State\<close>

type_synonym ref = nat

datatype 'a outcome = Ok 'a | Err_no_node | Err_node_exists | Err_other

datatype 'd command =
    U_create string "'d dynamic option"
  | U_del string
  | U_subscribe string
  | U_children_subscribe string
  | Arm_retry_timer
  | Arm_cleanup_timer
  | Log severity string "'d attribute_pack"
  | Write_id u64
  | Write_bool bool
  | Abort

record ('t, 'd) logging_impl =
  tree :: 't
  heap :: "(ref, 'd metafilter) umap"
  next_ref :: ref
  core_ref :: ref
  default_ref :: ref
  scopes :: "u64 list"
  scope_counter :: u64
  filter_unicorn_path :: string
  outbox :: "'d command list"

record ('t, 'd) logging_env =
  radix :: "('t, ref) rtree"
  fpu_of :: "'d fpu"
  hub_of :: "string \<Rightarrow> u64"
  dyn_of_int_of :: "int \<Rightarrow> 'd dynamic"
  show_id :: "u64 \<Rightarrow> string"

definition default_key :: string where
  "default_key = ''default''"

definition core_key :: string where
  "core_key = ''core''"

definition emit_cmd :: "'d command \<Rightarrow> ('t, 'd) logging_impl \<Rightarrow> ('t, 'd) logging_impl" where
  "emit_cmd c s = s\<lparr>outbox := outbox s @ [c]\<rparr>"

subsection \<open>Finding and creating metafilters\<close>

definition get_metafilter ::
  "('t, 'd) logging_env \<Rightarrow> string \<Rightarrow> ('t, 'd) logging_impl \<Rightarrow> ref \<times> ('t, 'd) logging_impl" where
  "get_metafilter env name s =
     (case rt_find (radix env) name (tree s) of
        Some r \<Rightarrow> (r, s)
      | None \<Rightarrow>
          let r = next_ref s in
          (r, s\<lparr>tree := rt_put (radix env) name r (tree s),
                heap := um_insert r (new_metafilter (hub_of env) name) (heap s),
                next_ref := Suc r\<rparr>))"

definition get_default_metafilter ::
  "('t, 'd) logging_env \<Rightarrow> ('t, 'd) logging_impl \<Rightarrow> ref \<times> ('t, 'd) logging_impl" where
  "get_default_metafilter env s = get_metafilter env default_key s"

definition get_core_metafilter ::
  "('t, 'd) logging_env \<Rightarrow> ('t, 'd) logging_impl \<Rightarrow> ref \<times> ('t, 'd) logging_impl" where
  "get_core_metafilter env s = get_metafilter env core_key s"

definition find_metafilter ::
  "('t, 'd) logging_env \<Rightarrow> string \<Rightarrow> ('t, 'd) logging_impl \<Rightarrow> ref \<times> ('t, 'd) logging_impl" where
  "find_metafilter env name s =
     (case rt_longest_match (radix env) name (tree s) of
        None \<Rightarrow> get_default_metafilter env s
      | Some (_, r) \<Rightarrow>
          (case um_find r (heap s) of
             None \<Rightarrow> get_default_metafilter env s
           | Some m \<Rightarrow> if mf_empty m then get_default_metafilter env s else (r, s)))"

text \<open>An update of the object behind a reference.\<close>

definition with_metafilter ::
  "ref \<Rightarrow> ('d metafilter \<Rightarrow> 'd metafilter) \<Rightarrow> ('t, 'd) logging_impl \<Rightarrow> ('t, 'd) logging_impl" where
  "with_metafilter r g s =
     (case um_find r (heap s) of
        None \<Rightarrow> s
      | Some m \<Rightarrow> s\<lparr>heap := um_insert r (g m) (heap s)\<rparr>)"

definition apply_metafilter ::
  "('t, 'd) logging_env \<Rightarrow> bool \<Rightarrow> u64 \<Rightarrow> u64 \<Rightarrow> ref \<Rightarrow> severity \<Rightarrow> 'd attribute_pack \<Rightarrow>
   ('t, 'd) logging_impl \<Rightarrow> (filter_error, filter_result \<times> ('t, 'd) logging_impl) result" where
  "apply_metafilter env vb now now' r sev pack s =
     (case um_find r (heap s) of
        None \<Rightarrow> Inr (Reject, s)
      | Some m \<Rightarrow>
          bindE (mf_apply (fpu_of env) vb now now' sev pack m) (\<lambda>(res, m').
            Inr (res, s\<lparr>heap := um_insert r m' (heap s)\<rparr>)))"

subsection \<open>Emitting records\<close>

definition emit_ack ::
  "('t, 'd) logging_env \<Rightarrow> bool \<Rightarrow> u64 \<Rightarrow> u64 \<Rightarrow> ref \<Rightarrow> string \<Rightarrow> severity \<Rightarrow> string \<Rightarrow>
   (string \<times> 'd view) list \<Rightarrow> ('t, 'd) logging_impl \<Rightarrow>
   (filter_error, bool \<times> ('t, 'd) logging_impl) result" where
  "emit_ack env vb now now' r backend sev message attributes s =
     (let pack = [attributes @ [(''source'', A_string backend)]] in
      bindE (apply_metafilter env vb now now' r sev pack s) (\<lambda>(res, s').
        if res = Reject then Inr (False, s')
        else Inr (True, emit_cmd (Log sev message pack) s')))"

definition handle_emit_ack ::
  "('t, 'd) logging_env \<Rightarrow> bool \<Rightarrow> u64 \<Rightarrow> u64 \<Rightarrow> severity \<Rightarrow> string \<Rightarrow> string \<Rightarrow>
   (string \<times> 'd view) list \<Rightarrow> ('t, 'd) logging_impl \<Rightarrow>
   (filter_error, bool \<times> ('t, 'd) logging_impl) result" where
  "handle_emit_ack env vb now now' sev backend message attributes s =
     (let (r, s') = find_metafilter env backend s in
      emit_ack env vb now now' r backend sev message attributes s')"

definition handle_emit ::
  "('t, 'd) logging_env \<Rightarrow> bool \<Rightarrow> u64 \<Rightarrow> u64 \<Rightarrow> severity \<Rightarrow> string \<Rightarrow> string \<Rightarrow>
   (string \<times> 'd view) list \<Rightarrow> ('t, 'd) logging_impl \<Rightarrow>
   (filter_error, ('t, 'd) logging_impl) result" where
  "handle_emit env vb now now' sev backend message attributes s =
     bindE (handle_emit_ack env vb now now' sev backend message attributes s) (\<lambda>(_, s'). Inr s')"

text \<open>The handler of \<open>get\<close>: a named logger keeps the reference it found.\<close>

record named_logging =
  nl_backend :: string
  nl_filter :: ref

definition handle_get ::
  "('t, 'd) logging_env \<Rightarrow> string \<Rightarrow> ('t, 'd) logging_impl \<Rightarrow>
   named_logging \<times> ('t, 'd) logging_impl" where
  "handle_get env name s =
     (let (r, s') = find_metafilter env name s in (\<lparr>nl_backend = name, nl_filter = r\<rparr>, s'))"

definition named_emit_ack ::
  "('t, 'd) logging_env \<Rightarrow> bool \<Rightarrow> u64 \<Rightarrow> u64 \<Rightarrow> named_logging \<Rightarrow> severity \<Rightarrow> string \<Rightarrow>
   (string \<times> 'd view) list \<Rightarrow> ('t, 'd) logging_impl \<Rightarrow>
   (filter_error, bool \<times> ('t, 'd) logging_impl) result" where
  "named_emit_ack env vb now now' nl sev message attributes s =
     emit_ack env vb now now' (nl_filter nl) (nl_backend nl) sev message attributes s"

text \<open>The closure the service installs as the filter of the core's own logger.\<close>

definition core_filter ::
  "('t, 'd) logging_env \<Rightarrow> bool \<Rightarrow> u64 \<Rightarrow> u64 \<Rightarrow> severity \<Rightarrow> 'd attribute_pack \<Rightarrow>
   ('t, 'd) logging_impl \<Rightarrow> (filter_error, bool \<times> ('t, 'd) logging_impl) result" where
  "core_filter env vb now now' sev pack s =
     (let r = (case um_find (core_ref s) (heap s) of
                 Some m \<Rightarrow> if mf_empty m then default_ref s else core_ref s
               | None \<Rightarrow> default_ref s) in
      bindE (apply_metafilter env vb now now' r sev pack s) (\<lambda>(res, s').
        Inr (res = Accept, s')))"

subsection \<open>Cleanup\<close>

text \<open>
  Every metafilter of the tree is cleaned up at its own reading \<open>clk\<close> of the clock; the
  empty ones, but for the one of the core, are then erased from the tree.
\<close>

fun cleanup_loop ::
  "(ref \<Rightarrow> u64) \<Rightarrow> (string \<times> ref) list \<Rightarrow> (ref, 'd metafilter) umap \<Rightarrow>
   string list \<times> (ref, 'd metafilter) umap" where
  "cleanup_loop clk [] h = ([], h)"
| "cleanup_loop clk ((name, r) # es) h =
     (case um_find r h of
        None \<Rightarrow> cleanup_loop clk es h
      | Some m \<Rightarrow>
          let m' = mf_cleanup (clk r) m;
              (empties, h') = cleanup_loop clk es (um_insert r m' h) in
          (if mf_empty m' \<and> name \<noteq> core_key then name # empties else empties, h'))"

definition svc_cleanup ::
  "('t, 'd) logging_env \<Rightarrow> (ref \<Rightarrow> u64) \<Rightarrow> bool \<Rightarrow> ('t, 'd) logging_impl \<Rightarrow> ('t, 'd) logging_impl" where
  "svc_cleanup env clk ec s =
     (if ec then s
      else
        let (empties, h) = cleanup_loop clk (rt_entries (radix env) (tree s)) (heap s) in
        emit_cmd Arm_cleanup_timer
          (s\<lparr>heap := h, tree := fold (rt_erase (radix env)) empties (tree s)\<rparr>))"

subsection \<open>Setting, removing and listing filters\<close>

definition filter_path :: "('t, 'd) logging_env \<Rightarrow> u64 \<Rightarrow> ('t, 'd) logging_impl \<Rightarrow> string" where
  "filter_path env i s = filter_unicorn_path s @ ''/'' @ show_id env i"

definition remove_from_unicorn :: "string \<Rightarrow> ('t, 'd) logging_impl \<Rightarrow> ('t, 'd) logging_impl" where
  "remove_from_unicorn path s = emit_cmd (U_del path) s"

fun remove_loop ::
  "u64 \<Rightarrow> (string \<times> ref) list \<Rightarrow> (ref, 'd metafilter) umap \<Rightarrow> bool \<times> (ref, 'd metafilter) umap" where
  "remove_loop i [] h = (False, h)"
| "remove_loop i ((name, r) # es) h =
     (case um_find r h of
        None \<Rightarrow> remove_loop i es h
      | Some m \<Rightarrow>
          (case remove_filter i m of
             (True, m') \<Rightarrow> (True, um_insert r m' h)
           | (False, _) \<Rightarrow> remove_loop i es h))"

definition remove_local_filter ::
  "('t, 'd) logging_env \<Rightarrow> u64 \<Rightarrow> ('t, 'd) logging_impl \<Rightarrow> bool \<times> ('t, 'd) logging_impl" where
  "remove_local_filter env i s =
     (let (b, h) = remove_loop i (rt_entries (radix env) (tree s)) (heap s) in (b, s\<lparr>heap := h\<rparr>))"

definition list_loggers :: "('t, 'd) logging_env \<Rightarrow> ('t, 'd) logging_impl \<Rightarrow> string list" where
  "list_loggers env s = map fst (rt_entries (radix env) (tree s))"

text \<open>The filters in the order \<open>list_filters\<close> visits them, and the tuples it answers.\<close>

definition list_infos :: "('t, 'd) logging_env \<Rightarrow> ('t, 'd) logging_impl \<Rightarrow> 'd filter_info list" where
  "list_infos env s =
     concat (map (\<lambda>(name, r). case um_find r (heap s) of None \<Rightarrow> [] | Some m \<Rightarrow> mf_each id m)
       (rt_entries (radix env) (tree s)))"

definition list_tuple ::
  "(int \<Rightarrow> 'd dynamic) \<Rightarrow> 'd filter_info \<Rightarrow>
   (filter_error, string \<times> 'd dynamic \<times> u64 \<times> u64 \<times> disposition) result" where
  "list_tuple dyn_of_int info =
     bindE (representation dyn_of_int (fi_filter info)) (\<lambda>r.
       Inr (logger_name info, r, fi_id info, deadline info, disposition info))"

definition list_filters ::
  "('t, 'd) logging_env \<Rightarrow> ('t, 'd) logging_impl \<Rightarrow>
   (filter_error, (string \<times> 'd dynamic \<times> u64 \<times> u64 \<times> disposition) list) result" where
  "list_filters env s = mapE (list_tuple (dyn_of_int_of env)) (list_infos env s)"

text \<open>
  \<open>set_filter\<close>, with the id the generator returned. A local filter is added at once; a
  cluster filter is created in unicorn and comes back by the subscription.
\<close>

definition set_filter ::
  "('t, 'd) logging_env \<Rightarrow> u64 \<Rightarrow> u64 \<Rightarrow> string \<Rightarrow> 'd filter \<Rightarrow> u64 \<Rightarrow> disposition \<Rightarrow>
   ('t, 'd) logging_impl \<Rightarrow> (filter_error, ('t, 'd) logging_impl) result" where
  "set_filter env now gid name f ttl disp s =
     (let info = \<lparr>fi_filter = f, deadline = now + ttl, fi_id = gid, disposition = disp,
                  logger_name = name\<rparr> in
      case disp of
        Local \<Rightarrow>
          let (r, s') = get_metafilter env name s in
          Inr (emit_cmd (Write_id gid) (with_metafilter r (add_filter info) s'))
      | Cluster \<Rightarrow>
          bindE (info_representation (dyn_of_int_of env) info) (\<lambda>v.
            Inr (emit_cmd (U_create (filter_path env gid s) (Some v))
              (s\<lparr>scope_counter := scope_counter s + 1,
                 scopes := List.insert (scope_counter s) (scopes s)\<rparr>))))"

definition set_filter_created ::
  "u64 \<Rightarrow> u64 \<Rightarrow> bool outcome \<Rightarrow> ('t, 'd) logging_impl \<Rightarrow> ('t, 'd) logging_impl" where
  "set_filter_created gid scope_id res s =
     (let s' = emit_cmd (case res of Ok _ \<Rightarrow> Write_id gid | _ \<Rightarrow> Abort) s in
      s'\<lparr>scopes := removeAll scope_id (scopes s')\<rparr>)"

definition svc_remove_filter ::
  "('t, 'd) logging_env \<Rightarrow> u64 \<Rightarrow> ('t, 'd) logging_impl \<Rightarrow> ('t, 'd) logging_impl" where
  "svc_remove_filter env i s = emit_cmd (U_del (filter_path env i s)) s"

definition remove_filter_done ::
  "('t, 'd) logging_env \<Rightarrow> u64 \<Rightarrow> unit outcome \<Rightarrow> ('t, 'd) logging_impl \<Rightarrow> ('t, 'd) logging_impl" where
  "remove_filter_done env i res s =
     (case res of
        Ok _ \<Rightarrow> emit_cmd (Write_bool True) (snd (remove_local_filter env i s))
      | Err_no_node \<Rightarrow> (let (b, s') = remove_local_filter env i s in emit_cmd (Write_bool b) s')
      | _ \<Rightarrow> emit_cmd Abort s)"

subsection \<open>Loading filters from unicorn\<close>

text \<open>\<open>std::stoull\<close> in base ten: leading white space, an optional sign, a run of digits.\<close>

datatype stoull_error = Invalid_argument | Out_of_range

definition is_space :: "char \<Rightarrow> bool" where
  "is_space c \<longleftrightarrow> (let n = (of_char c :: nat) in n = 32 \<or> 9 \<le> n \<and> n \<le> 13)"

definition is_digit :: "char \<Rightarrow> bool" where
  "is_digit c \<longleftrightarrow> (let n = (of_char c :: nat) in 48 \<le> n \<and> n \<le> 57)"

definition digits_value :: "string \<Rightarrow> nat" where
  "digits_value ds = foldl (\<lambda>n c. 10 * n + (of_char c - 48)) 0 ds"

definition stoull :: "string \<Rightarrow> (stoull_error, u64) result" where
  "stoull str =
     (let t = dropWhile is_space str;
          neg = (t \<noteq> [] \<and> hd t = CHR ''-'');
          u = (if t \<noteq> [] \<and> (hd t = CHR ''-'' \<or> hd t = CHR ''+'') then tl t else t);
          ds = takeWhile is_digit u in
      if ds = [] then Inl Invalid_argument
      else if digits_value ds \<ge> 2 ^ 64 then Inl Out_of_range
      else Inr (if neg then - of_nat (digits_value ds) else of_nat (digits_value ds)))"

definition on_filter_gone ::
  "('t, 'd) logging_env \<Rightarrow> u64 \<Rightarrow> ('t, 'd) logging_impl \<Rightarrow> ('t, 'd) logging_impl" where
  "on_filter_gone env fid s =
     (let s' = snd (remove_local_filter env fid s) in s'\<lparr>scopes := removeAll fid (scopes s')\<rparr>)"

definition on_filter ::
  "('t, 'd) logging_env \<Rightarrow> u64 \<Rightarrow> u64 \<Rightarrow> 'd dynamic option outcome \<Rightarrow> ('t, 'd) logging_impl \<Rightarrow>
   ('t, 'd) logging_impl" where
  "on_filter env now fid res s =
     (case res of
        Ok None \<Rightarrow> on_filter_gone env fid s
      | Ok (Some v) \<Rightarrow>
          (case filter_info_of v of
             Inl e \<Rightarrow> remove_from_unicorn (filter_path env fid s) s
           | Inr info \<Rightarrow>
               if deadline info < now then remove_from_unicorn (filter_path env fid s) s
               else
                 let (r, s') = get_metafilter env (logger_name info) s in
                 with_metafilter r (add_filter info) s')
      | _ \<Rightarrow> on_filter_gone env fid s)"

definition subscribe_filter ::
  "('t, 'd) logging_env \<Rightarrow> string \<Rightarrow> ('t, 'd) logging_impl \<Rightarrow> ('t, 'd) logging_impl" where
  "subscribe_filter env id_str s =
     (case stoull id_str of
        Inl e \<Rightarrow> remove_from_unicorn (filter_unicorn_path s @ ''/'' @ id_str) s
      | Inr fid \<Rightarrow>
          if fid \<in> set (scopes s) then s
          else emit_cmd (U_subscribe (filter_path env fid s)) (s\<lparr>scopes := fid # scopes s\<rparr>))"

definition on_filter_list ::
  "('t, 'd) logging_env \<Rightarrow> string list outcome \<Rightarrow> ('t, 'd) logging_impl \<Rightarrow> ('t, 'd) logging_impl" where
  "on_filter_list env res s =
     (case res of
        Ok filter_ids \<Rightarrow> fold (subscribe_filter env) filter_ids s
      | _ \<Rightarrow> emit_cmd Arm_retry_timer s)"

definition on_create :: "bool outcome \<Rightarrow> ('t, 'd) logging_impl \<Rightarrow> ('t, 'd) logging_impl" where
  "on_create res s =
     (case res of
        Ok _ \<Rightarrow> emit_cmd (U_children_subscribe (filter_unicorn_path s)) s
      | Err_node_exists \<Rightarrow> emit_cmd (U_children_subscribe (filter_unicorn_path s)) s
      | _ \<Rightarrow> emit_cmd Arm_retry_timer s)"

definition load_filters :: "('t, 'd) logging_impl \<Rightarrow> ('t, 'd) logging_impl" where
  "load_filters s = emit_cmd (U_create (filter_unicorn_path s) None) (s\<lparr>scopes := []\<rparr>)"

subsection \<open>Construction\<close>

definition default_info_conf :: "u64 \<Rightarrow> 'd dynamic \<Rightarrow> 'd dynamic" where
  "default_info_conf gid conf =
     D_object [(''deadline'', D_uint 9223372036854775807), (''logger_name'', D_string default_key),
               (''disposition'', D_uint (uint_of_disposition Local)), (''id'', D_uint gid),
               (''filter'', conf)]"

fun add_defaults ::
  "ref \<Rightarrow> (u64 \<times> 'd dynamic) list \<Rightarrow> ('t, 'd) logging_impl \<Rightarrow>
   (filter_error, ('t, 'd) logging_impl) result" where
  "add_defaults r [] s = Inr s"
| "add_defaults r ((gid, conf) # cs) s =
     bindE (filter_info_of (default_info_conf gid conf)) (\<lambda>info.
       add_defaults r cs (with_metafilter r (add_filter info) s))"

text \<open>
  The constructor: \<open>confs\<close> are the configured default filters with the ids drawn for them,
  \<open>sc\<close> the initial value of the scope counter, which the constructor leaves as it is.
\<close>

definition new_impl ::
  "('t, 'd) logging_env \<Rightarrow> (ref \<Rightarrow> u64) \<Rightarrow> string option \<Rightarrow> u64 \<Rightarrow> (u64 \<times> 'd dynamic) list \<Rightarrow>
   (filter_error, ('t, 'd) logging_impl) result" where
  "new_impl env clk path_arg sc confs =
     (let s0 = \<lparr>tree = rt_empty (radix env), heap = [], next_ref = 0, core_ref = 0, default_ref = 0,
                scopes = [], scope_counter = sc,
                filter_unicorn_path = (case path_arg of None \<Rightarrow> ''/cocaine/logging_v2/filters'' | Some p \<Rightarrow> p),
                outbox = []\<rparr>;
          (d, s1) = get_default_metafilter env s0 in
      bindE (add_defaults d confs s1) (\<lambda>s2.
        let (c, s3) = get_core_metafilter env s2 in
        Inr (load_filters (svc_cleanup env clk False (s3\<lparr>core_ref := c, default_ref := d\<rparr>)))))"

subsection \<open>Steps\<close>

text \<open>
  One step of the service: a request handler, a completion of an asynchronous call, a
  timer, or a record offered to the core's filter. The arguments a step does not
  control (clock, random ids, outcomes) are free.
\<close>

inductive svc_step ::
  "('t, 'd) logging_env \<Rightarrow> ('t, 'd) logging_impl \<Rightarrow> ('t, 'd) logging_impl \<Rightarrow> bool" for env where
  st_emit_ack: "handle_emit_ack env vb now now' sev backend msg attrs s = Inr (b, s') \<Longrightarrow> svc_step env s s'"
| st_emit: "handle_emit env vb now now' sev backend msg attrs s = Inr s' \<Longrightarrow> svc_step env s s'"
| st_get: "handle_get env name s = (nl, s') \<Longrightarrow> svc_step env s s'"
| st_named: "named_emit_ack env vb now now' nl sev msg attrs s = Inr (b, s') \<Longrightarrow> svc_step env s s'"
| st_core: "core_filter env vb now now' sev pack s = Inr (b, s') \<Longrightarrow> svc_step env s s'"
| st_set: "wf_filter f \<Longrightarrow> set_filter env now gid name f ttl disp s = Inr s' \<Longrightarrow> svc_step env s s'"
| st_set_created: "svc_step env s (set_filter_created gid scope_id res s)"
| st_remove: "svc_step env s (svc_remove_filter env i s)"
| st_remove_done: "svc_step env s (remove_filter_done env i ures s)"
| st_filter: "svc_step env s (on_filter env now fid vres s)"
| st_filter_list: "svc_step env s (on_filter_list env lres s)"
| st_create: "svc_step env s (on_create res s)"
| st_load: "svc_step env s (load_filters s)"
| st_cleanup: "svc_step env s (svc_cleanup env clk ec s)"

inductive svc_reachable :: "('t, 'd) logging_env \<Rightarrow> ('t, 'd) logging_impl \<Rightarrow> bool" for env where
  sr_init: "new_impl env clk path_arg sc confs = Inr s \<Longrightarrow> svc_reachable env s"
| sr_step: "svc_reachable env s \<Longrightarrow> svc_step env s s' \<Longrightarrow> svc_reachable env s'"

subsection \<open>The contract of a group of filters\<close>

text \<open>
  What the service relies on in a metafilter, independently of how it stores its
  filters: a set of filters addressed by id, from which cleanup drops the expired ones.
\<close>

locale filter_group =
  fixes g_add :: "'d filter_info \<Rightarrow> 'm \<Rightarrow> 'm"
    and g_remove :: "u64 \<Rightarrow> 'm \<Rightarrow> bool \<times> 'm"
    and g_clean :: "u64 \<Rightarrow> 'm \<Rightarrow> 'm"
    and g_infos :: "'m \<Rightarrow> 'd filter_info list"
    and g_inv :: "'m \<Rightarrow> bool"
  assumes inv_add: "g_inv m \<Longrightarrow> wf_filter (fi_filter info) \<Longrightarrow> g_inv (g_add info m)"
    and inv_remove: "g_inv m \<Longrightarrow> g_inv (snd (g_remove i m))"
    and inv_clean: "g_inv m \<Longrightarrow> g_inv (g_clean now m)"
    and infos_add: "g_inv m \<Longrightarrow> set (g_infos (g_add info m)) =
      (if fi_id info \<in> fi_id ` set (g_infos m) then set (g_infos m) else insert info (set (g_infos m)))"
    and infos_remove: "g_inv m \<Longrightarrow> set (g_infos (snd (g_remove i m))) = {j \<in> set (g_infos m). fi_id j \<noteq> i}"
    and found_remove: "g_inv m \<Longrightarrow> fst (g_remove i m) \<longleftrightarrow> i \<in> fi_id ` set (g_infos m)"
    and infos_clean: "set (g_infos (g_clean now m)) = {j \<in> set (g_infos m). now \<le> deadline j}"
begin

text \<open>The life of a filter: listed once added, kept by cleanup until its deadline, gone once removed.\<close>

lemma add_listed:
  "g_inv m \<Longrightarrow> fi_id info \<notin> fi_id ` set (g_infos m) \<Longrightarrow> info \<in> set (g_infos (g_add info m))"
  by (simp add: infos_add)

lemma add_id_known: "g_inv m \<Longrightarrow> fi_id info \<in> fi_id ` set (g_infos (g_add info m))"
  by (simp add: infos_add)

lemma clean_live:
  "info \<in> set (g_infos m) \<Longrightarrow> now \<le> deadline info \<Longrightarrow> info \<in> set (g_infos (g_clean now m))"
  by (simp add: infos_clean)

lemma removed: "g_inv m \<Longrightarrow> i \<notin> fi_id ` set (g_infos (snd (g_remove i m)))"
  by (auto simp: infos_remove)

lemma lifecycle:
  assumes "g_inv m" and "wf_filter (fi_filter info)" and "fi_id info \<notin> fi_id ` set (g_infos m)"
    and "now \<le> deadline info"
  shows "info \<in> set (g_infos (g_clean now (g_add info m)))"
    and "fst (g_remove (fi_id info) (g_clean now (g_add info m)))"
    and "fi_id info \<notin> fi_id ` set (g_infos (snd (g_remove (fi_id info) (g_clean now (g_add info m)))))"
proof -
  show live: "info \<in> set (g_infos (g_clean now (g_add info m)))"
    using assms by (intro clean_live add_listed) auto
  have inv: "g_inv (g_clean now (g_add info m))"
    using assms by (intro inv_clean inv_add)
  with live show "fst (g_remove (fi_id info) (g_clean now (g_add info m)))"
    by (simp add: found_remove)
  show "fi_id info \<notin> fi_id ` set (g_infos (snd (g_remove (fi_id info) (g_clean now (g_add info m)))))"
    using inv by (rule removed)
qed

end

interpretation mf: filter_group add_filter remove_filter mf_cleanup mf_filters mf_inv
  by unfold_locales
    (auto simp: inv_intros add_filter_filters remove_filter_filters mf_inv_def mf_cleanup_filters
      expired_def not_less)

subsection \<open>Facts about the radix tree\<close>

lemma rt_find_put:
  "rtree_ok rt \<Longrightarrow> rt_find rt k' (rt_put rt k v t) = (if k' = k then Some v else rt_find rt k' t)"
  by (auto simp: rtree_ok_def)

lemma rt_find_erase:
  "rtree_ok rt \<Longrightarrow> rt_find rt k' (rt_erase rt k t) = (if k' = k then None else rt_find rt k' t)"
  by (auto simp: rtree_ok_def)

lemma rt_find_empty: "rtree_ok rt \<Longrightarrow> rt_find rt k (rt_empty rt) = None"
  by (simp add: rtree_ok_def rt_find_def)

lemma rt_entries_iff: "rtree_ok rt \<Longrightarrow> (k, v) \<in> set (rt_entries rt t) \<longleftrightarrow> rt_find rt k t = Some v"
  by (simp add: rtree_ok_def rt_find_def map_of_eq_Some_iff)

lemma rt_longest_match_Some:
  "rtree_ok rt \<Longrightarrow> rt_longest_match rt n t = Some (k, v) \<longleftrightarrow>
     rt_find rt k t = Some v \<and> prefix k n \<and>
     (\<forall>k' v'. rt_find rt k' t = Some v' \<and> prefix k' n \<longrightarrow> length k' \<le> length k)"
  by (simp add: rtree_ok_def)

lemma rt_find_fold_erase:
  "rtree_ok rt \<Longrightarrow>
   rt_find rt k (fold (rt_erase rt) ks t) = (if k \<in> set ks then None else rt_find rt k t)"
  by (induction ks arbitrary: t) (auto simp: rt_find_erase)

subsection \<open>The service invariant\<close>

text \<open>
  Every name of the tree refers to a metafilter of that name; every metafilter of the
  heap, also one only a closure or a named logger still refers to, keeps its own
  invariant; the core's metafilter stays in the tree and the default metafilter the
  core filter captured exists.
\<close>

definition heap_ok :: "('t, 'd) logging_env \<Rightarrow> ('t, 'd) logging_impl \<Rightarrow> bool" where
  "heap_ok env s \<longleftrightarrow>
     (\<forall>n r. rt_find (radix env) n (tree s) = Some r \<longrightarrow>
        (\<exists>m. um_find r (heap s) = Some m \<and> mf_name m = n)) \<and>
     (\<forall>r m. um_find r (heap s) = Some m \<longrightarrow> r < next_ref s \<and> mf_inv m)"

definition svc_inv :: "('t, 'd) logging_env \<Rightarrow> ('t, 'd) logging_impl \<Rightarrow> bool" where
  "svc_inv env s \<longleftrightarrow>
     heap_ok env s \<and>
     rt_find (radix env) core_key (tree s) = Some (core_ref s) \<and>
     um_find (default_ref s) (heap s) \<noteq> None"

lemma heap_okD:
  assumes "heap_ok env s"
  shows "rt_find (radix env) n (tree s) = Some r \<Longrightarrow> \<exists>m. um_find r (heap s) = Some m \<and> mf_name m = n"
    and "um_find r (heap s) = Some m \<Longrightarrow> r < next_ref s"
    and "um_find r (heap s) = Some m \<Longrightarrow> mf_inv m"
  using assms by (auto simp: heap_ok_def)

lemma emit_cmd_frame [simp]:
  "tree (emit_cmd c s) = tree s" "heap (emit_cmd c s) = heap s" "next_ref (emit_cmd c s) = next_ref s"
  "core_ref (emit_cmd c s) = core_ref s" "default_ref (emit_cmd c s) = default_ref s"
  "scopes (emit_cmd c s) = scopes s" "filter_unicorn_path (emit_cmd c s) = filter_unicorn_path s"
  "outbox (emit_cmd c s) = outbox s @ [c]"
  by (simp_all add: emit_cmd_def)

lemma svc_inv_frame:
  assumes "tree s' = tree s" "heap s' = heap s" "next_ref s' = next_ref s"
    "core_ref s' = core_ref s" "default_ref s' = default_ref s"
  shows "svc_inv env s' \<longleftrightarrow> svc_inv env s"
  using assms by (simp add: svc_inv_def heap_ok_def)

lemma svc_inv_emit_cmd [simp]: "svc_inv env (emit_cmd c s) \<longleftrightarrow> svc_inv env s"
  by (rule svc_inv_frame) simp_all

lemma svc_inv_scopes [simp]: "svc_inv env (s\<lparr>scopes := x\<rparr>) \<longleftrightarrow> svc_inv env s"
  by (rule svc_inv_frame) simp_all

text \<open>A heap that differs only in the contents of metafilters.\<close>

definition mf_evolves :: "'d metafilter \<Rightarrow> 'd metafilter \<Rightarrow> bool" where
  "mf_evolves m m' \<longleftrightarrow> mf_name m' = mf_name m \<and> (mf_inv m \<longrightarrow> mf_inv m')"

definition heap_evolves :: "(ref, 'd metafilter) umap \<Rightarrow> (ref, 'd metafilter) umap \<Rightarrow> bool" where
  "heap_evolves h h' \<longleftrightarrow> (\<forall>r. rel_option mf_evolves (um_find r h) (um_find r h'))"

lemma mf_evolves_refl [simp]: "mf_evolves m m"
  by (simp add: mf_evolves_def)

lemma mf_evolves_trans: "mf_evolves a b \<Longrightarrow> mf_evolves b c \<Longrightarrow> mf_evolves a c"
  by (simp add: mf_evolves_def)

lemma heap_evolves_refl [simp]: "heap_evolves h h"
  by (simp add: heap_evolves_def option.rel_refl)

lemma heap_evolves_trans: "heap_evolves a b \<Longrightarrow> heap_evolves b c \<Longrightarrow> heap_evolves a c"
  unfolding heap_evolves_def
  by (smt (verit, ccfv_threshold) mf_evolves_trans option.rel_cases option.rel_inject(2) option.rel_distinct)

lemma heap_evolves_insert:
  "um_find r h = Some m \<Longrightarrow> mf_evolves m m' \<Longrightarrow> heap_evolves h (um_insert r m' h)"
  by (simp add: heap_evolves_def option.rel_refl)

lemma heap_evolvesD:
  assumes "heap_evolves h h'"
  shows "um_find r h = Some m \<Longrightarrow> \<exists>m'. um_find r h' = Some m' \<and> mf_evolves m m'"
    and "um_find r h' = Some m' \<Longrightarrow> \<exists>m. um_find r h = Some m \<and> mf_evolves m m'"
  using assms unfolding heap_evolves_def
  by (metis option.rel_inject(2) option.exhaust option.rel_distinct)+

lemma heap_ok_heap:
  assumes "heap_ok env s" and "heap_evolves (heap s) h"
  shows "heap_ok env (s\<lparr>heap := h\<rparr>)"
  unfolding heap_ok_def
proof (intro conjI allI impI)
  fix n r assume "rt_find (radix env) n (tree (s\<lparr>heap := h\<rparr>)) = Some r"
  then obtain m where "um_find r (heap s) = Some m" "mf_name m = n"
    using heap_okD(1) [OF assms(1)] by auto
  with heap_evolvesD(1) [OF assms(2)]
  show "\<exists>m. um_find r (heap (s\<lparr>heap := h\<rparr>)) = Some m \<and> mf_name m = n"
    by (fastforce simp: mf_evolves_def)
next
  fix r m' assume "um_find r (heap (s\<lparr>heap := h\<rparr>)) = Some m'"
  then obtain m where "um_find r (heap s) = Some m" "mf_evolves m m'"
    using heap_evolvesD(2) [OF assms(2)] by auto
  with heap_okD(2,3) [OF assms(1)] show "r < next_ref (s\<lparr>heap := h\<rparr>)" "mf_inv m'"
    by (auto simp: mf_evolves_def)
qed

lemma svc_inv_heap:
  assumes "svc_inv env s" and "heap_evolves (heap s) h"
  shows "svc_inv env (s\<lparr>heap := h\<rparr>)"
  using assms heap_ok_heap [of env s h] heap_evolvesD(1) [OF assms(2)]
  by (fastforce simp: svc_inv_def)

lemma mf_evolves_ops:
  "wf_filter (fi_filter info) \<Longrightarrow> mf_evolves m (add_filter info m)"
  "mf_evolves m (snd (remove_filter i m))"
  "mf_evolves m (mf_cleanup now m)"
  "mf_inv m \<Longrightarrow> mf_apply fp vb now now' sev pack m = Inr (res, m') \<Longrightarrow> mf_evolves m m'"
proof -
  show "wf_filter (fi_filter info) \<Longrightarrow> mf_evolves m (add_filter info m)"
    by (simp add: mf_evolves_def mf.inv_add frame_simps)
  show "mf_evolves m (snd (remove_filter i m))"
    using mf.inv_remove [of m i]
    by (auto simp: mf_evolves_def remove_filter_def Let_def frame_simps)
  show "mf_evolves m (mf_cleanup now m)"
    by (auto simp: mf_evolves_def mf.inv_clean frame_simps)
  show "mf_inv m \<Longrightarrow> mf_apply fp vb now now' sev pack m = Inr (res, m') \<Longrightarrow> mf_evolves m m'"
    using mf_inv_apply [of m fp vb now now' sev pack res m']
    by (auto simp: mf_evolves_def mf_apply_result Let_def frame_simps)
qed

subsection \<open>Every operation keeps the service invariant\<close>

lemma get_metafilter_props:
  assumes "rtree_ok (radix env)" and "heap_ok env s" and "get_metafilter env name s = (r, s')"
  shows "heap_ok env s'" and "rt_find (radix env) name (tree s') = Some r"
    and "core_ref s' = core_ref s" and "default_ref s' = default_ref s"
    and "um_find r' (heap s) = Some m \<Longrightarrow> um_find r' (heap s') = Some m"
    and "rt_find (radix env) n (tree s) = Some r' \<Longrightarrow> rt_find (radix env) n (tree s') = Some r'"
    and "outbox s' = outbox s"
proof -
  have fresh: "um_find (next_ref s) (heap s) = None"
    using heap_okD(2) [OF assms(2)] by (metis less_irrefl not_None_eq)
  show "core_ref s' = core_ref s" "default_ref s' = default_ref s" "outbox s' = outbox s"
    using assms(3) by (auto simp: get_metafilter_def Let_def split: option.splits)
  show "rt_find (radix env) name (tree s') = Some r"
    using assms(1,3) by (auto simp: get_metafilter_def Let_def rt_find_put split: option.splits)
  show "rt_find (radix env) n (tree s) = Some r' \<Longrightarrow> rt_find (radix env) n (tree s') = Some r'"
    using assms(1,3) by (auto simp: get_metafilter_def Let_def rt_find_put split: option.splits)
  show "um_find r' (heap s) = Some m \<Longrightarrow> um_find r' (heap s') = Some m"
    using assms(3) fresh by (auto simp: get_metafilter_def Let_def split: option.splits)
  show "heap_ok env s'"
  proof (cases "rt_find (radix env) name (tree s)")
    case (Some r')
    with assms show ?thesis by (simp add: get_metafilter_def)
  next
    case None
    have new: "mf_name (new_metafilter (hub_of env) name) = name"
      "mf_inv (new_metafilter (hub_of env) name)"
      by (simp_all add: new_metafilter_def mf_inv_def)
    have s': "s' = s\<lparr>tree := rt_put (radix env) name (next_ref s) (tree s),
        heap := um_insert (next_ref s) (new_metafilter (hub_of env) name) (heap s),
        next_ref := Suc (next_ref s)\<rparr>"
      using None assms(3) by (auto simp: get_metafilter_def Let_def)
    show ?thesis
      unfolding heap_ok_def s'
      using fresh new heap_okD [OF assms(2)]
      by (auto simp: rt_find_put [OF assms(1)] less_Suc_eq split: if_splits)
  qed
qed

lemma svc_inv_get:
  assumes "rtree_ok (radix env)" and "svc_inv env s" and "get_metafilter env name s = (r, s')"
  shows "svc_inv env s'"
proof -
  have ok: "heap_ok env s" using assms(2) by (simp add: svc_inv_def)
  obtain m where "um_find (default_ref s) (heap s) = Some m"
    using assms(2) by (auto simp: svc_inv_def)
  then show ?thesis
    using get_metafilter_props(1-4) [OF assms(1) ok assms(3)]
      get_metafilter_props(5) [OF assms(1) ok assms(3), of "default_ref s" m]
      get_metafilter_props(6) [OF assms(1) ok assms(3), of core_key "core_ref s"] assms(2)
    by (simp add: svc_inv_def)
qed

lemma find_metafilter_cases:
  "find_metafilter env name s = (r, s') \<Longrightarrow>
     s' = s \<or> get_metafilter env default_key s = (r, s')"
  by (auto simp: find_metafilter_def get_default_metafilter_def split: option.splits if_splits)

lemma svc_inv_find:
  "rtree_ok (radix env) \<Longrightarrow> svc_inv env s \<Longrightarrow> find_metafilter env name s = (r, s') \<Longrightarrow> svc_inv env s'"
  by (metis find_metafilter_cases svc_inv_get)

lemma svc_inv_with:
  assumes "svc_inv env s" and "\<And>m. mf_evolves m (g m)"
  shows "svc_inv env (with_metafilter r g s)"
  using assms by (auto simp: with_metafilter_def intro: svc_inv_heap heap_evolves_insert split: option.split)

lemma svc_inv_apply:
  assumes "svc_inv env s" and "apply_metafilter env vb now now' r sev pack s = Inr (res, s')"
  shows "svc_inv env s'"
proof (cases "um_find r (heap s)")
  case None
  with assms show ?thesis by (simp add: apply_metafilter_def)
next
  case (Some m)
  then have inv: "mf_inv m" using assms(1) by (auto simp: svc_inv_def dest: heap_okD(3))
  obtain m' where ap: "mf_apply (fpu_of env) vb now now' sev pack m = Inr (res, m')"
    and s': "s' = s\<lparr>heap := um_insert r m' (heap s)\<rparr>"
    using assms(2) Some by (auto simp: apply_metafilter_def bindE_Inr_conv)
  show ?thesis
    unfolding s'
    by (rule svc_inv_heap [OF assms(1) heap_evolves_insert [OF Some mf_evolves_ops(4) [OF inv ap]]])
qed

lemma svc_inv_emit_ack:
  assumes "svc_inv env s" and "emit_ack env vb now now' r backend sev msg attrs s = Inr (b, s')"
  shows "svc_inv env s'"
proof -
  obtain res t where t: "apply_metafilter env vb now now' r sev
      [attrs @ [(''source'', A_string backend)]] s = Inr (res, t)"
    and s': "s' = t \<or> (\<exists>c. s' = emit_cmd c t)"
    using assms(2) by (fastforce simp: emit_ack_def bindE_Inr_conv Let_def split: if_splits)
  from svc_inv_apply [OF assms(1) t] s' show ?thesis by auto
qed

lemma remove_loop_evolves: "heap_evolves h (snd (remove_loop i es h))"
proof (induction i es h rule: remove_loop.induct)
  case (2 i name r es h)
  show ?case
  proof (cases "um_find r h")
    case None
    with 2 show ?thesis by simp
  next
    case (Some m)
    obtain b m' where rm: "remove_filter i m = (b, m')" by force
    then have "mf_evolves m m'" using mf_evolves_ops(2) [of m i] by simp
    with Some rm 2 show ?thesis
      by (cases b) (simp_all add: heap_evolves_insert)
  qed
qed simp

lemma svc_inv_remove_local: "svc_inv env s \<Longrightarrow> svc_inv env (snd (remove_local_filter env i s))"
  using remove_loop_evolves [of "heap s" i "rt_entries (radix env) (tree s)"]
  by (simp add: remove_local_filter_def case_prod_beta svc_inv_heap)

lemma filter_info_of_wf: "filter_info_of v = Inr info \<Longrightarrow> wf_filter (fi_filter info)"
  by (auto simp: filter_info_of_def bindE_Inr_conv dest: filter_of_wf split: dynamic.splits if_splits)

lemma svc_inv_add:
  assumes "rtree_ok (radix env)" "svc_inv env s" "wf_filter (fi_filter info)"
    and "get_metafilter env name s = (r, s')"
  shows "svc_inv env (with_metafilter r (add_filter info) s')"
  using svc_inv_get [OF assms(1,2,4)] mf_evolves_ops(1) [OF assms(3)] by (rule svc_inv_with)

lemma svc_inv_set_filter:
  assumes "rtree_ok (radix env)" "svc_inv env s" "wf_filter f"
    and "set_filter env now gid name f ttl disp s = Inr s'"
  shows "svc_inv env s'"
proof (cases disp)
  case Local
  obtain r t where "get_metafilter env name s = (r, t)" by force
  with assms Local svc_inv_add [OF assms(1,2) _ this] show ?thesis
    by (auto simp: set_filter_def Let_def)
next
  case Cluster
  then have "tree s' = tree s" "heap s' = heap s" "next_ref s' = next_ref s"
    "core_ref s' = core_ref s" "default_ref s' = default_ref s"
    using assms(4) by (auto simp: set_filter_def Let_def bindE_Inr_conv)
  with assms(2) show ?thesis using svc_inv_frame by blast
qed

lemma svc_inv_on_filter:
  assumes "rtree_ok (radix env)" "svc_inv env s"
  shows "svc_inv env (on_filter env now fid res s)"
proof -
  have gone: "svc_inv env (on_filter_gone env fid s)"
    using svc_inv_remove_local [OF assms(2)] by (simp add: on_filter_gone_def Let_def)
  have "svc_inv env (on_filter env now fid (Ok (Some v)) s)" for v
  proof (cases "filter_info_of v")
    case (Inl e)
    with assms(2) show ?thesis by (simp add: on_filter_def remove_from_unicorn_def)
  next
    case (Inr info)
    obtain r t where "get_metafilter env (logger_name info) s = (r, t)" by force
    from svc_inv_add [OF assms filter_info_of_wf [OF Inr] this] this Inr assms(2) show ?thesis
      by (simp add: on_filter_def remove_from_unicorn_def)
  qed
  with gone show ?thesis
    by (auto simp: on_filter_def split: outcome.split option.split)
qed

lemma svc_inv_on_filter_list: "svc_inv env s \<Longrightarrow> svc_inv env (on_filter_list env res s)"
proof -
  have "svc_inv env (subscribe_filter env x t)" if "svc_inv env t" for x t
    using that by (auto simp: subscribe_filter_def remove_from_unicorn_def split: sum.split)
  then have "svc_inv env (fold (subscribe_filter env) xs t)" if "svc_inv env t" for xs t
    using that by (induction xs arbitrary: t) auto
  then show "svc_inv env s \<Longrightarrow> svc_inv env (on_filter_list env res s)"
    by (auto simp: on_filter_list_def split: outcome.split)
qed

subsection \<open>Cleanup of the whole tree\<close>

lemma mf_cleanup_idem [simp]: "mf_cleanup now (mf_cleanup now m) = mf_cleanup now m"
  by (rule mf_cleanup_none) (simp add: mf_cleanup_filters)

lemma cleanup_loop_heap:
  "um_find r (snd (cleanup_loop clk es h)) =
   map_option (\<lambda>m. if r \<in> snd ` set es then mf_cleanup (clk r) m else m) (um_find r h)"
proof (induction clk es h rule: cleanup_loop.induct)
  case (2 clk name r' es h)
  then show ?case
    by (cases "um_find r' h"; cases "um_find r h") (auto simp: Let_def case_prod_beta)
qed (simp add: option.map_ident)

lemma cleanup_loop_empties:
  "n \<in> set (fst (cleanup_loop clk es h)) \<longleftrightarrow>
   n \<noteq> core_key \<and>
   (\<exists>r m. (n, r) \<in> set es \<and> um_find r h = Some m \<and> mf_empty (mf_cleanup (clk r) m))"
proof (induction clk es h rule: cleanup_loop.induct)
  case (2 clk name r' es h)
  show ?case
  proof (cases "um_find r' h")
    case None
    with 2 show ?thesis by auto
  next
    case (Some m)
    have "(\<exists>m'. um_find r (um_insert r' (mf_cleanup (clk r') m) h) = Some m' \<and>
              mf_empty (mf_cleanup (clk r) m')) \<longleftrightarrow>
          (\<exists>m'. um_find r h = Some m' \<and> mf_empty (mf_cleanup (clk r) m'))" for r
      using Some by (cases "r = r'") auto
    then have "(\<exists>r m'. (n, r) \<in> set es \<and> um_find r (um_insert r' (mf_cleanup (clk r') m) h) = Some m' \<and>
              mf_empty (mf_cleanup (clk r) m')) \<longleftrightarrow>
          (\<exists>r m'. (n, r) \<in> set es \<and> um_find r h = Some m' \<and> mf_empty (mf_cleanup (clk r) m'))"
      by blast
    with 2 Some show ?thesis by (auto simp: Let_def case_prod_beta)
  qed
qed simp

lemma heap_evolves_cleanup: "heap_evolves h (snd (cleanup_loop clk es h))"
  unfolding heap_evolves_def
proof
  fix r
  show "rel_option mf_evolves (um_find r h) (um_find r (snd (cleanup_loop clk es h)))"
    by (cases "um_find r h") (simp_all add: cleanup_loop_heap mf_evolves_ops(3))
qed

lemma svc_cleanup_state:
  assumes "rtree_ok (radix env)"
  shows "rt_find (radix env) n (tree (svc_cleanup env clk False s)) =
           (if n \<in> set (fst (cleanup_loop clk (rt_entries (radix env) (tree s)) (heap s))) then None
            else rt_find (radix env) n (tree s))"
    and "heap (svc_cleanup env clk False s) =
           snd (cleanup_loop clk (rt_entries (radix env) (tree s)) (heap s))"
  by (simp_all add: svc_cleanup_def case_prod_beta Let_def rt_find_fold_erase [OF assms])

lemma svc_inv_cleanup:
  assumes "rtree_ok (radix env)" and "svc_inv env s"
  shows "svc_inv env (svc_cleanup env clk ec s)"
proof (cases ec)
  case False
  let ?h = "snd (cleanup_loop clk (rt_entries (radix env) (tree s)) (heap s))"
  have inv: "svc_inv env (s\<lparr>heap := ?h\<rparr>)"
    by (rule svc_inv_heap [OF assms(2) heap_evolves_cleanup])
  have "core_key \<notin> set (fst (cleanup_loop clk (rt_entries (radix env) (tree s)) (heap s)))"
    by (simp add: cleanup_loop_empties)
  then show ?thesis
    using inv False
    by (simp add: svc_cleanup_def case_prod_beta Let_def svc_inv_def heap_ok_def
        rt_find_fold_erase [OF assms(1)])
qed (use assms in \<open>simp add: svc_cleanup_def\<close>)

subsection \<open>Reachable states\<close>

lemma add_defaults_heap_ok:
  "heap_ok env s \<Longrightarrow> add_defaults r cs s = Inr s' \<Longrightarrow>
   heap_ok env s' \<and> tree s' = tree s \<and> (um_find r' (heap s) \<noteq> None \<longrightarrow> um_find r' (heap s') \<noteq> None)"
proof (induction r cs s rule: add_defaults.induct)
  case (2 r gid conf cs s)
  then obtain info where info: "filter_info_of (default_info_conf gid conf) = Inr info"
    and rest: "add_defaults r cs (with_metafilter r (add_filter info) s) = Inr s'"
    by (auto simp: bindE_Inr_conv)
  have "heap_evolves (heap s) (heap (with_metafilter r (add_filter info) s))"
    using mf_evolves_ops(1) [OF filter_info_of_wf [OF info]]
    by (auto simp: with_metafilter_def heap_evolves_insert split: option.split)
  moreover have t: "with_metafilter r (add_filter info) s =
      s\<lparr>heap := heap (with_metafilter r (add_filter info) s)\<rparr>"
    by (simp add: with_metafilter_def split: option.split)
  ultimately have "heap_ok env (with_metafilter r (add_filter info) s)"
    using heap_ok_heap [OF 2(2)] by metis
  moreover have "tree (with_metafilter r (add_filter info) s) = tree s"
    by (subst t) simp
  moreover have "um_find r' (heap s) \<noteq> None \<Longrightarrow>
      um_find r' (heap (with_metafilter r (add_filter info) s)) \<noteq> None"
    by (auto simp: with_metafilter_def split: option.split)
  ultimately show ?case using 2(1) [OF info _ rest] by auto
qed auto

lemma svc_inv_init:
  assumes ok: "rtree_ok (radix env)" and "new_impl env clk path_arg sc confs = Inr s"
  shows "svc_inv env s"
proof -
  define p where "p = (case path_arg of None \<Rightarrow> ''/cocaine/logging_v2/filters'' | Some p \<Rightarrow> p)"
  define s0 where "s0 = (\<lparr>tree = rt_empty (radix env), heap = [], next_ref = 0, core_ref = 0,
    default_ref = 0, scopes = [], scope_counter = sc, filter_unicorn_path = p, outbox = []\<rparr>
    :: ('a, 'b) logging_impl)"
  obtain d s1 where s1: "get_metafilter env default_key s0 = (d, s1)" by force
  obtain s2 where s2: "add_defaults d confs s1 = Inr s2"
    using assms(2) s1 by (auto simp: new_impl_def get_default_metafilter_def s0_def p_def bindE_Inr_conv)
  obtain c s3 where s3: "get_metafilter env core_key s2 = (c, s3)" by force
  have s: "s = load_filters (svc_cleanup env clk False (s3\<lparr>core_ref := c, default_ref := d\<rparr>))"
    using assms(2) s1 s2 s3
    by (simp add: new_impl_def get_default_metafilter_def get_core_metafilter_def s0_def p_def)
  have ok0: "heap_ok env s0"
    by (simp add: heap_ok_def s0_def rt_find_empty [OF ok])
  note ok1 = get_metafilter_props [OF ok ok0 s1]
  obtain m where "um_find d (heap s1) = Some m"
    using heap_okD(1) [OF ok1(1) ok1(2)] by auto
  with add_defaults_heap_ok [OF ok1(1) s2, of d] have ok2: "heap_ok env s2" and "um_find d (heap s2) \<noteq> None"
    by auto
  then obtain m' where d2: "um_find d (heap s2) = Some m'" by auto
  note ok3 = get_metafilter_props [OF ok ok2 s3]
  have "svc_inv env (s3\<lparr>core_ref := c, default_ref := d\<rparr>)"
    using ok3(1,2) ok3(5) [OF d2] by (simp add: svc_inv_def heap_ok_def)
  then show ?thesis
    using svc_inv_cleanup [OF ok] by (simp add: s load_filters_def)
qed

lemma svc_inv_step:
  assumes ok: "rtree_ok (radix env)" and "svc_step env s s'" and inv: "svc_inv env s"
  shows "svc_inv env s'"
  using assms(2)
proof cases
  case (st_emit_ack vb now now' sev backend msg attrs b)
  obtain r t where t: "find_metafilter env backend s = (r, t)" by force
  with st_emit_ack have "emit_ack env vb now now' r backend sev msg attrs t = Inr (b, s')"
    by (simp add: handle_emit_ack_def)
  from svc_inv_emit_ack [OF svc_inv_find [OF ok inv t] this] show ?thesis .
next
  case (st_emit vb now now' sev backend msg attrs)
  obtain r t where t: "find_metafilter env backend s = (r, t)" by force
  with st_emit obtain b where "emit_ack env vb now now' r backend sev msg attrs t = Inr (b, s')"
    by (auto simp: handle_emit_def handle_emit_ack_def bindE_Inr_conv)
  from svc_inv_emit_ack [OF svc_inv_find [OF ok inv t] this] show ?thesis .
next
  case (st_get name nl)
  then show ?thesis
    using svc_inv_find [OF ok inv, of name] by (auto simp: handle_get_def split: prod.splits)
next
  case (st_core vb now now' sev pack b)
  then show ?thesis
    using svc_inv_apply [OF inv] by (auto simp: core_filter_def Let_def bindE_Inr_conv)
next
  case (st_remove_done i ures)
  then show ?thesis
    using svc_inv_remove_local [OF inv, of i] inv
    by (auto simp: remove_filter_done_def case_prod_beta split: outcome.split)
qed (use inv svc_inv_emit_ack [OF inv] svc_inv_set_filter [OF ok inv] svc_inv_on_filter [OF ok inv]
      svc_inv_on_filter_list [OF inv] svc_inv_cleanup [OF ok inv] in
    \<open>auto simp: named_emit_ack_def set_filter_created_def svc_remove_filter_def Let_def
      on_create_def load_filters_def split: outcome.split\<close>)

lemma svc_reachable_inv:
  assumes "rtree_ok (radix env)" and "svc_reachable env s"
  shows "svc_inv env s"
  using assms(2)
proof induction
  case (sr_init clk path_arg sc confs s)
  then show ?case by (rule svc_inv_init [OF assms(1)])
next
  case (sr_step s s')
  then show ?case using svc_inv_step [OF assms(1)] by blast
qed

subsection \<open>A concrete radix tree\<close>

text \<open>An association list that satisfies the laws, for evaluation on concrete inputs.\<close>

definition alist_longest :: "string \<Rightarrow> (string \<times> 'v) list \<Rightarrow> (string \<times> 'v) option" where
  "alist_longest n t =
     (case find (\<lambda>k. map_of t k \<noteq> None) (rev (prefixes n)) of
        None \<Rightarrow> None
      | Some k \<Rightarrow> map_option (Pair k) (map_of t k))"

definition alist_rtree :: "((string \<times> 'v) list, 'v) rtree" where
  "alist_rtree =
     \<lparr>rt_empty = [], rt_entries = AList.clearjunk, rt_put = AList.update, rt_erase = AList.delete,
      rt_longest_match = alist_longest\<rparr>"

lemma find_rev_prefixes:
  "find p (rev (prefixes n)) = Some k \<longleftrightarrow>
   p k \<and> prefix k n \<and> (\<forall>k'. p k' \<and> prefix k' n \<longrightarrow> length k' \<le> length k)"
proof (induction n rule: rev_induct)
  case Nil
  then show ?case by auto
next
  case (snoc x xs)
  have pre: "prefix k' (xs @ [x]) \<longleftrightarrow> prefix k' xs \<or> k' = xs @ [x]" for k'
    by (auto simp: prefix_snoc)
  have len: "prefix k' xs \<Longrightarrow> length k' \<le> length xs" for k'
    by (rule prefix_length_le)
  show ?case
  proof (cases "p (xs @ [x])")
    case True
    then have "find p (rev (prefixes (xs @ [x]))) = Some (xs @ [x])"
      by (simp add: prefixes_snoc)
    moreover have "prefix k xs \<Longrightarrow> \<not> Suc (length xs) \<le> length k"
      using len [of k] by simp
    ultimately show ?thesis
      using True pre le_SucI [OF len] by auto
  next
    case False
    then have "find p (rev (prefixes (xs @ [x]))) = find p (rev (prefixes xs))"
      by (simp add: prefixes_snoc)
    then show ?thesis using snoc False pre by auto
  qed
qed

lemma alist_longest_Some:
  "alist_longest n t = Some (k, v) \<longleftrightarrow>
   map_of t k = Some v \<and> prefix k n \<and>
   (\<forall>k' v'. map_of t k' = Some v' \<and> prefix k' n \<longrightarrow> length k' \<le> length k)"
proof -
  let ?f = "find (\<lambda>k. map_of t k \<noteq> None) (rev (prefixes n))"
  have "alist_longest n t = Some (k, v) \<longleftrightarrow> ?f = Some k \<and> map_of t k = Some v"
    unfolding alist_longest_def by (cases ?f) auto
  then show ?thesis
    unfolding find_rev_prefixes by auto
qed

lemma rtree_ok_alist: "rtree_ok alist_rtree"
  by (simp add: rtree_ok_def rt_find_def alist_rtree_def map_of_clearjunk update_conv' delete_conv'
      alist_longest_Some)

definition sample_env :: "((string \<times> ref) list, int) logging_env" where
  "sample_env = \<lparr>radix = alist_rtree, fpu_of = int_fpu, hub_of = (\<lambda>_. 0),
                 dyn_of_int_of = (\<lambda>i. D_int (of_int i)), show_id = (\<lambda>_. ''id'')\<rparr>"

definition sample_service :: "((string \<times> ref) list, int) logging_impl" where
  "sample_service =
     (case new_impl sample_env (\<lambda>_. 10) None 0 [(1, D_array [D_string ''empty''])] of
        Inr s \<Rightarrow> s | Inl e \<Rightarrow> undefined)"

lemmas service_eval =
  new_impl_def get_default_metafilter_def get_core_metafilter_def get_metafilter_def sample_env_def
  alist_rtree_def rt_find_def default_info_conf_def filter_info_of_object with_metafilter_def
  add_filter_def svc_cleanup_def load_filters_def emit_cmd_def default_key_def core_key_def
  um_insert_def um_find_def mf_cleanup_def cleanup_from.simps mf_empty_def single_factory_def
  filter_info_of_def required_keys_def obj_at_def uint_of_disposition_def disposition_of_def
  new_metafilter_def mf_on_changed_def p_on_changed_def expired_def

lemma sample_service_init:
  "new_impl sample_env (\<lambda>_. 10) None 0 [(1, D_array [D_string ''empty''])] = Inr sample_service"
  by (simp add: sample_service_def service_eval)

subsection \<open>Emission\<close>

lemma emit_ack_result:
  assumes "svc_inv env s" and "um_find r (heap s) = Some m"
    and "pack = [attrs @ [(''source'', A_string backend)]]"
  shows "\<exists>s'. emit_ack env vb now now' r backend sev msg attrs s =
           Inr (list_ex (live_accepts (fpu_of env) vb now sev pack) (mf_filters m), s') \<and>
         outbox s' = outbox s @
           (if list_ex (live_accepts (fpu_of env) vb now sev pack) (mf_filters m)
            then [Log sev msg pack] else [])"
proof -
  have "mf_inv m" using assms(1,2) by (auto simp: svc_inv_def dest: heap_okD(3))
  then show ?thesis
    using assms(2,3) by (simp add: emit_ack_def apply_metafilter_def mf_apply_result Let_def)
qed

lemma find_metafilter_ref:
  assumes "rtree_ok (radix env)" and "svc_inv env s" and "find_metafilter env name s = (r, s')"
  shows "\<exists>m. um_find r (heap s') = Some m" and "outbox s' = outbox s"
proof -
  have ok: "heap_ok env s" using assms(2) by (simp add: svc_inv_def)
  have "(\<exists>m. um_find r (heap s') = Some m) \<and> outbox s' = outbox s"
  proof (cases "get_metafilter env default_key s = (r, s')")
    case True
    from get_metafilter_props [OF assms(1) ok True] show ?thesis
      using heap_okD(1) by blast
  next
    case False
    then show ?thesis
      using assms(3)
      by (auto simp: find_metafilter_def get_default_metafilter_def split: option.splits if_splits)
  qed
  then show "\<exists>m. um_find r (heap s') = Some m" "outbox s' = outbox s" by auto
qed

subsection \<open>Listing and removing\<close>

lemma list_infos_iff:
  assumes "rtree_ok (radix env)"
  shows "info \<in> set (list_infos env s) \<longleftrightarrow>
         (\<exists>n r m. rt_find (radix env) n (tree s) = Some r \<and> um_find r (heap s) = Some m \<and>
                  info \<in> set (mf_filters m))"
  by (force simp: list_infos_def mf_each_def rt_entries_iff [OF assms, symmetric] split: option.splits)

lemma list_filters_total:
  assumes "rtree_ok (radix env)" and "svc_inv env s"
  shows "\<exists>ts. list_filters env s = Inr ts \<and>
    list_all2 (\<lambda>info (n, r, i, dl, dp). representation (dyn_of_int_of env) (fi_filter info) = Inr r \<and>
      n = logger_name info \<and> i = fi_id info \<and> dl = deadline info \<and> dp = disposition info)
      (list_infos env s) ts"
  unfolding list_filters_def
proof (rule mapE_total)
  fix info assume "info \<in> set (list_infos env s)"
  then obtain r m where "um_find r (heap s) = Some m" "info \<in> set (mf_filters m)"
    using list_infos_iff [OF assms(1)] by blast
  moreover from this have "mf_inv m" using assms(2) heap_okD(3) by (auto simp: svc_inv_def)
  ultimately have "wf_filter (fi_filter info)" by (auto simp: mf_inv_def)
  from representation_wf [OF this, of "dyn_of_int_of env"]
  show "\<exists>y. list_tuple (dyn_of_int_of env) info = Inr y \<and>
      (case y of (n, r, i, dl, dp) \<Rightarrow> representation (dyn_of_int_of env) (fi_filter info) = Inr r \<and>
        n = logger_name info \<and> i = fi_id info \<and> dl = deadline info \<and> dp = disposition info)"
    by (auto simp: list_tuple_def)
qed

lemma remove_loop_result:
  assumes "\<forall>r m. um_find r h = Some m \<longrightarrow> mf_inv m"
  shows "fst (remove_loop i es h) \<longleftrightarrow>
         (\<exists>n r m. (n, r) \<in> set es \<and> um_find r h = Some m \<and> i \<in> fi_id ` set (mf_filters m))"
  using assms
proof (induction i es h rule: remove_loop.induct)
  case (2 i name r es h)
  show ?case
  proof (cases "um_find r h")
    case None
    with 2 show ?thesis by auto
  next
    case (Some m)
    then have "mf_inv m" using 2(3) by blast
    obtain b m' where rm: "remove_filter i m = (b, m')" by force
    then have b: "b \<longleftrightarrow> i \<in> fi_id ` set (mf_filters m)"
      using mf.found_remove [OF \<open>mf_inv m\<close>, of i] by simp
    show ?thesis
    proof (cases b)
      case True
      then show ?thesis using Some rm b by auto
    next
      case False
      then have "fst (remove_loop i ((name, r) # es) h) = fst (remove_loop i es h)"
        using Some rm by simp
      also have "\<dots> \<longleftrightarrow> (\<exists>n r m. (n, r) \<in> set es \<and> um_find r h = Some m \<and>
          i \<in> fi_id ` set (mf_filters m))"
        using 2(2) [OF Some rm [symmetric] _ 2(3)] False by simp
      finally show ?thesis using False b Some by auto
    qed
  qed
qed simp

text \<open>If one metafilter of the list has the id, the loop takes the filter out of that one.\<close>

lemma remove_loop_unique:
  assumes "um_find r h = Some m" and "(n, r) \<in> set es" and "i \<in> fi_id ` set (mf_filters m)"
    and "\<forall>r m. um_find r h = Some m \<longrightarrow> mf_inv m"
    and "\<forall>n' r' m'. (n', r') \<in> set es \<and> um_find r' h = Some m' \<and> i \<in> fi_id ` set (mf_filters m') \<longrightarrow> r' = r"
  shows "snd (remove_loop i es h) = um_insert r (snd (remove_filter i m)) h"
  using assms
proof (induction i es h rule: remove_loop.induct)
  case (2 i name r' es h)
  show ?case
  proof (cases "r' = r")
    case True
    then obtain m' where "remove_filter i m = (True, m')"
      using mf.found_remove [of m i] 2 by (metis prod.collapse)
    with True 2(3) show ?thesis by simp
  next
    case False
    then have es: "(n, r) \<in> set es" using 2(4) by auto
    show ?thesis
    proof (cases "um_find r' h")
      case None
      with 2(1) [OF None 2(3) es 2(5,6)] 2(7) show ?thesis by auto
    next
      case (Some k)
      then have "i \<notin> fi_id ` set (mf_filters k)" using 2(7) False by auto
      moreover have "mf_inv k" using Some 2(6) by blast
      ultimately obtain k' where rm: "remove_filter i k = (False, k')"
        using mf.found_remove [of k i] by (metis prod.collapse)
      with 2(2) [OF Some rm [symmetric] _ 2(3) es 2(5,6)] 2(7) Some show ?thesis by auto
    qed
  qed
qed simp

lemma reachable_sample: "svc_reachable sample_env sample_service"
  using sample_service_init by (rule sr_init)

lemma rtree_ok_sample: "rtree_ok (radix sample_env)"
  by (simp add: sample_env_def rtree_ok_alist)

lemma sample_service_state:
  "rt_find (radix sample_env) ''default'' (tree sample_service) = Some 0"
  "um_find 0 (heap sample_service) =
     Some \<lparr>mf_name = ''default'', mf_filters = [\<lparr>fi_filter = Empty_filter, deadline = 9223372036854775807,
             fi_id = 1, disposition = Local, logger_name = ''default''\<rparr>],
           accepted = \<lparr>cnt = 0, count_since_change = 0\<rparr>,
           rejected = \<lparr>cnt = 0, count_since_change = 0\<rparr>, overall_count = 0\<rparr>"
  by (simp_all add: sample_service_def service_eval)

subsection \<open>Properties\<close>

text \<open>
  C14: over every interleaving of requests, completions of unicorn calls, timers
  and records of the core, every logger name in the tree refers to an existing
  metafilter of that name whose filter ids are distinct and which holds no null filter,
  and the core's metafilter is never erased from the tree.
\<close>

theorem service_invariant:
  assumes "rtree_ok (radix env)" and "svc_reachable env s"
  shows "(\<forall>(n, r) \<in> set (rt_entries (radix env) (tree s)). \<exists>m. um_find r (heap s) = Some m \<and>
            mf_name m = n \<and> distinct (map fi_id (mf_filters m)) \<and>
            (\<forall>info \<in> set (mf_filters m). wf_filter (fi_filter info))) \<and>
         rt_find (radix env) core_key (tree s) = Some (core_ref s)"
  using svc_reachable_inv [OF assms]
  by (fastforce simp: svc_inv_def heap_ok_def mf_inv_def rt_entries_iff [OF assms(1)])

theorem service_invariant_witness:
  "rt_find (radix sample_env) core_key (tree sample_service) = Some (core_ref sample_service)"
  using service_invariant [OF rtree_ok_sample reachable_sample] by blast

text \<open>
  C17: in every reachable state, offering a record with \<open>emit_ack\<close> returns (no
  filter throws), the answer says whether some live filter of the metafilter it was
  routed to accepts the record extended by its source, and the record is written to the
  log exactly when the answer is true.
\<close>

theorem emit_ack_total:
  assumes "rtree_ok (radix env)" and "svc_reachable env s"
    and "find_metafilter env backend s = (r, t)"
    and "pack = [attrs @ [(''source'', A_string backend)]]"
  shows "\<exists>m b s'. um_find r (heap t) = Some m \<and>
           handle_emit_ack env vb now now' sev backend msg attrs s = Inr (b, s') \<and>
           (b \<longleftrightarrow> (\<exists>info \<in> set (mf_filters m). now \<le> deadline info \<and>
                     accepts (fpu_of env) vb (fi_filter info) sev pack)) \<and>
           outbox s' = outbox s @ (if b then [Log sev msg pack] else [])"
proof -
  have inv: "svc_inv env s" by (rule svc_reachable_inv [OF assms(1,2)])
  obtain m where m: "um_find r (heap t) = Some m"
    using find_metafilter_ref(1) [OF assms(1) inv assms(3)] by blast
  have "live_accepts (fpu_of env) vb now sev pack info \<longleftrightarrow>
      now \<le> deadline info \<and> accepts (fpu_of env) vb (fi_filter info) sev pack" for info
    by (simp add: live_accepts_def expired_def not_less)
  with emit_ack_result [OF svc_inv_find [OF assms(1) inv assms(3)] m assms(4), of vb now now' sev msg]
    m assms(3) find_metafilter_ref(2) [OF assms(1) inv assms(3)]
  show ?thesis by (auto simp: handle_emit_ack_def list_ex_iff)
qed

theorem emit_ack_total_witness:
  "\<exists>s'. handle_emit_ack sample_env False 11 11 0 ''app/x'' ''hello'' [] sample_service = Inr (True, s')"
proof -
  have "find_metafilter sample_env ''app/x'' sample_service = (0, sample_service)"
    by (simp add: sample_service_def service_eval find_metafilter_def alist_longest_def)
  from emit_ack_total [OF rtree_ok_sample reachable_sample this refl, of False 11 11 0 "''hello''" "[]"]
  show ?thesis by (auto simp: sample_service_state)
qed

text \<open>
  Where a record goes. The metafilter used for a logger name is that of the longest key
  that is a prefix of the name, provided it has filters; otherwise it is the one of
  \<open>default\<close>, never that of a shorter matching key.
\<close>

theorem find_metafilter_routing:
  assumes "rtree_ok (radix env)" and "svc_reachable env s"
    and "find_metafilter env name s = (r, t)"
  shows "(\<exists>k m. rt_find (radix env) k (tree s) = Some r \<and> prefix k name \<and>
            um_find r (heap s) = Some m \<and> mf_filters m \<noteq> [] \<and> t = s \<and>
            (\<forall>k' r'. rt_find (radix env) k' (tree s) = Some r' \<and> prefix k' name \<longrightarrow> length k' \<le> length k)) \<or>
         rt_find (radix env) default_key (tree t) = Some r"
proof -
  have ok: "heap_ok env s"
    using svc_reachable_inv [OF assms(1,2)] by (simp add: svc_inv_def)
  have dflt: "rt_find (radix env) default_key (tree t) = Some r"
    if "get_default_metafilter env s = (r, t)"
    using that get_metafilter_props(2) [OF assms(1) ok] by (simp add: get_default_metafilter_def)
  show ?thesis
  proof (cases "rt_longest_match (radix env) name (tree s)")
    case None
    with assms(3) dflt show ?thesis by (simp add: find_metafilter_def)
  next
    case (Some kr)
    obtain k r' where kr: "kr = (k, r')" by force
    with Some have match: "rt_find (radix env) k (tree s) = Some r'" "prefix k name"
      "\<forall>k' v'. rt_find (radix env) k' (tree s) = Some v' \<and> prefix k' name \<longrightarrow> length k' \<le> length k"
      using rt_longest_match_Some [OF assms(1)] by blast+
    obtain m where m: "um_find r' (heap s) = Some m"
      using heap_okD(1) [OF ok match(1)] by blast
    show ?thesis
    proof (cases "mf_empty m")
      case True
      with Some kr m assms(3) dflt show ?thesis by (simp add: find_metafilter_def)
    next
      case False
      with Some kr m assms(3) have "r' = r" "t = s" by (simp_all add: find_metafilter_def)
      with match m False show ?thesis by (auto simp: mf_empty_def)
    qed
  qed
qed

theorem find_metafilter_routing_witness:
  "rt_find (radix sample_env) default_key (tree sample_service) = Some 0"
proof -
  have find: "find_metafilter sample_env ''core/x'' sample_service = (0, sample_service)"
    by (simp add: sample_service_def service_eval find_metafilter_def alist_longest_def)
  show ?thesis
    using find_metafilter_routing [OF rtree_ok_sample reachable_sample find] sample_service_state(1)
    by (auto simp: default_key_def)
qed

text \<open>
  The periodic cleanup. Afterwards no filter listed by the service has a
  deadline before the time its metafilter was cleaned up, every filter still alive is
  still listed, and a logger name stays in the tree exactly when it is the core's or
  still has a live filter.
\<close>

theorem service_cleanup:
  assumes "rtree_ok (radix env)" and "svc_reachable env s" and "s' = svc_cleanup env clk False s"
  shows "(rt_find (radix env) n (tree s') = Some r \<longleftrightarrow>
           rt_find (radix env) n (tree s) = Some r \<and>
           (n = core_key \<or>
            (\<exists>m. um_find r (heap s) = Some m \<and> (\<exists>info \<in> set (mf_filters m). clk r \<le> deadline info)))) \<and>
         (rt_find (radix env) n (tree s') = Some r \<longrightarrow>
           (\<exists>m m'. um_find r (heap s) = Some m \<and> um_find r (heap s') = Some m' \<and>
                   mf_filters m' = filter (\<lambda>info. clk r \<le> deadline info) (mf_filters m)))"
proof (intro conjI impI)
  have ok: "heap_ok env s"
    using svc_reachable_inv [OF assms(1,2)] by (simp add: svc_inv_def)
  have nonempty: "\<not> mf_empty (mf_cleanup now m) \<longleftrightarrow> (\<exists>info \<in> set (mf_filters m). now \<le> deadline info)"
    for now and m :: "'b metafilter"
    by (auto simp: mf_empty_def mf_cleanup_filters expired_def filter_empty_conv not_less)
  show iff: "rt_find (radix env) n (tree s') = Some r \<longleftrightarrow>
           rt_find (radix env) n (tree s) = Some r \<and>
           (n = core_key \<or>
            (\<exists>m. um_find r (heap s) = Some m \<and> (\<exists>info \<in> set (mf_filters m). clk r \<le> deadline info)))"
    unfolding assms(3) svc_cleanup_state(1) [OF assms(1)] cleanup_loop_empties
      rt_entries_iff [OF assms(1)]
    using heap_okD(1) [OF ok, of n] nonempty
    by (cases "rt_find (radix env) n (tree s)") (simp, metis option.inject option.distinct(1))
  assume "rt_find (radix env) n (tree s') = Some r"
  with iff have find: "rt_find (radix env) n (tree s) = Some r" by blast
  then obtain m where m: "um_find r (heap s) = Some m" using heap_okD(1) [OF ok] by blast
  moreover have "r \<in> snd ` set (rt_entries (radix env) (tree s))"
    using find rt_entries_iff [OF assms(1)] by force
  ultimately show "\<exists>m m'. um_find r (heap s) = Some m \<and> um_find r (heap s') = Some m' \<and>
                   mf_filters m' = filter (\<lambda>info. clk r \<le> deadline info) (mf_filters m)"
    by (simp add: assms(3) svc_cleanup_state(2) [OF assms(1)] cleanup_loop_heap mf_cleanup_filters
        expired_def not_less)
qed

theorem service_cleanup_witness:
  "rt_find (radix sample_env) ''default'' (tree (svc_cleanup sample_env (\<lambda>_. 20) False sample_service)) = Some 0"
  using service_cleanup [OF rtree_ok_sample reachable_sample refl, of "''default''" "\<lambda>_. 20" 0]
  by (simp add: sample_service_state)

lemma set_filter_local_state:
  assumes "rtree_ok (radix env)" and "svc_inv env s" and "wf_filter f"
    and "set_filter env now gid name f ttl Local s = Inr s'"
    and "gid \<notin> fi_id ` set (list_infos env s)"
  shows "\<exists>r m. rt_find (radix env) name (tree s') = Some r \<and> um_find r (heap s') = Some m \<and>
           \<lparr>fi_filter = f, deadline = now + ttl, fi_id = gid, disposition = Local, logger_name = name\<rparr>
             \<in> set (mf_filters m)"
    and "\<forall>n' r' m'. rt_find (radix env) n' (tree s') = Some r' \<and> um_find r' (heap s') = Some m' \<and>
           gid \<in> fi_id ` set (mf_filters m') \<longrightarrow> n' = name"
proof -
  let ?info = "\<lparr>fi_filter = f, deadline = now + ttl, fi_id = gid, disposition = Local, logger_name = name\<rparr>"
  have ok: "heap_ok env s" using assms(2) by (simp add: svc_inv_def)
  obtain r t where t: "get_metafilter env name s = (r, t)" by force
  note props = get_metafilter_props [OF assms(1) ok t]
  obtain m where m: "um_find r (heap t) = Some m" "mf_name m = name" "mf_inv m"
    using heap_okD [OF props(1)] props(2) by metis
  have s': "s' = emit_cmd (Write_id gid) (t\<lparr>heap := um_insert r (add_filter ?info m) (heap t)\<rparr>)"
    using assms(4) t m(1) by (simp add: set_filter_def Let_def with_metafilter_def)
  have old: "gid \<notin> fi_id ` set (mf_filters m')"
    if "rt_find (radix env) n' (tree t) = Some r'" "um_find r' (heap t) = Some m'" for n' r' m'
  proof (cases "rt_find (radix env) n' (tree s)")
    case (Some r'')
    with props(6) [OF Some] that(1) have "r'' = r'" by simp
    moreover obtain m'' where "um_find r' (heap s) = Some m''"
      using heap_okD(1) [OF ok Some] \<open>r'' = r'\<close> by blast
    ultimately show ?thesis
      using Some that(2) props(5) [of r' m''] assms(5) list_infos_iff [OF assms(1), of _ s]
      by fastforce
  next
    case None
    then have "mf_filters m' = []"
      using that t
      by (auto simp: get_metafilter_def Let_def rt_find_put [OF assms(1)] new_metafilter_def
          split: option.splits if_splits)
    then show ?thesis by simp
  qed
  then have "gid \<notin> fi_id ` set (mf_filters m)" using props(2) m(1) by blast
  then have "?info \<in> set (mf_filters (add_filter ?info m))"
    using mf.add_listed [OF m(3), of ?info] by simp
  then show "\<exists>r m. rt_find (radix env) name (tree s') = Some r \<and> um_find r (heap s') = Some m \<and>
           ?info \<in> set (mf_filters m)"
    using props(2) by (simp add: s')
  show "\<forall>n' r' m'. rt_find (radix env) n' (tree s') = Some r' \<and> um_find r' (heap s') = Some m' \<and>
           gid \<in> fi_id ` set (mf_filters m') \<longrightarrow> n' = name"
  proof (intro allI impI, elim conjE)
    fix n' r' m' assume n': "rt_find (radix env) n' (tree s') = Some r'"
      and m': "um_find r' (heap s') = Some m'" and "gid \<in> fi_id ` set (mf_filters m')"
    then have "r' = r" using old [of n' r' m'] by (auto simp: s' split: if_splits)
    then show "n' = name"
      using n' m heap_okD(1) [OF props(1), of n' r] by (simp add: s')
  qed
qed

text \<open>
  The life of a local filter. A filter set for a logger under an unused id is
  listed at once with the deadline \<open>now + ttl\<close> (modulo \<open>2 ^ 64\<close>); when unicorn answers
  a later removal of that id with "no node", the filter is no longer listed under any
  logger and the client is told that it was removed.
\<close>

theorem set_remove_filter:
  assumes "rtree_ok (radix env)" and "svc_reachable env s" and "wf_filter f"
    and "set_filter env now gid name f ttl Local s = Inr s'"
    and "gid \<notin> fi_id ` set (list_infos env s)"
  shows "\<lparr>fi_filter = f, deadline = now + ttl, fi_id = gid, disposition = Local, logger_name = name\<rparr>
           \<in> set (list_infos env s') \<and>
         gid \<notin> fi_id ` set (list_infos env (remove_filter_done env gid Err_no_node s')) \<and>
         last (outbox (remove_filter_done env gid Err_no_node s')) = Write_bool True"
proof -
  let ?es = "rt_entries (radix env) (tree s')"
  have inv: "svc_inv env s" by (rule svc_reachable_inv [OF assms(1,2)])
  have inv': "svc_inv env s'" by (rule svc_inv_set_filter [OF assms(1) inv assms(3,4)])
  then have ok: "heap_ok env s'" by (simp add: svc_inv_def)
  then have all: "\<forall>r m. um_find r (heap s') = Some m \<longrightarrow> mf_inv m" by (auto dest: heap_okD(3))
  obtain r m where r: "rt_find (radix env) name (tree s') = Some r" "um_find r (heap s') = Some m"
      "\<lparr>fi_filter = f, deadline = now + ttl, fi_id = gid, disposition = Local, logger_name = name\<rparr>
        \<in> set (mf_filters m)"
    and uniq: "\<And>n' r' m'. rt_find (radix env) n' (tree s') = Some r' \<Longrightarrow> um_find r' (heap s') = Some m' \<Longrightarrow>
      gid \<in> fi_id ` set (mf_filters m') \<Longrightarrow> n' = name"
    using set_filter_local_state [OF assms(1) inv assms(3,4,5)] by metis
  then have mem: "gid \<in> fi_id ` set (mf_filters m)" by force
  have es: "(name, r) \<in> set ?es" using r(1) rt_entries_iff [OF assms(1)] by blast
  have "snd (remove_loop gid ?es (heap s')) = um_insert r (snd (remove_filter gid m)) (heap s')"
    using remove_loop_unique [OF r(2) es mem all] uniq r(1) rt_entries_iff [OF assms(1)]
    by (metis option.inject)
  then have rem: "remove_local_filter env gid s' =
      (True, s'\<lparr>heap := um_insert r (snd (remove_filter gid m)) (heap s')\<rparr>)"
    using remove_loop_result [OF all, of gid ?es] es r(2) mem
    by (auto simp: remove_local_filter_def case_prod_beta)
  have gone: "gid \<notin> fi_id ` set (mf_filters (snd (remove_filter gid m)))"
    using mf.removed all r(2) by blast
  have "gid \<notin> fi_id ` set (list_infos env (remove_filter_done env gid Err_no_node s'))"
  proof
    assume "gid \<in> fi_id ` set (list_infos env (remove_filter_done env gid Err_no_node s'))"
    then obtain n' r' m' where n': "rt_find (radix env) n' (tree s') = Some r'"
      and m': "um_find r' (um_insert r (snd (remove_filter gid m)) (heap s')) = Some m'"
      and "gid \<in> fi_id ` set (mf_filters m')"
      using list_infos_iff [OF assms(1), of _ "remove_filter_done env gid Err_no_node s'"]
      by (auto simp: remove_filter_done_def rem)
    then show False
      using uniq [of n' r' m'] r(1) gone by (auto split: if_splits)
  qed
  moreover have "\<lparr>fi_filter = f, deadline = now + ttl, fi_id = gid, disposition = Local, logger_name = name\<rparr>
           \<in> set (list_infos env s')"
    using r list_infos_iff [OF assms(1)] by blast
  ultimately show ?thesis by (simp add: remove_filter_done_def rem)
qed

theorem set_remove_filter_witness:
  "\<exists>s'. set_filter sample_env 10 7 ''app'' Traced_filter 5 Local sample_service = Inr s' \<and>
        last (outbox (remove_filter_done sample_env 7 Err_no_node s')) = Write_bool True"
proof -
  obtain s' where s': "set_filter sample_env 10 7 ''app'' Traced_filter 5 Local sample_service = Inr s'"
    by (simp add: set_filter_def Let_def case_prod_beta)
  have "7 \<notin> fi_id ` set (list_infos sample_env sample_service)"
    by (simp add: sample_service_def service_eval list_infos_def mf_each_def)
  from set_remove_filter [OF rtree_ok_sample reachable_sample _ s' this] s' show ?thesis by auto
qed

lemma new_impl_no_defaults:
  assumes ok: "rtree_ok (radix env)" and "new_impl env clk path_arg sc [] = Inr s"
  shows "core_ref s = 1" and "default_ref s = 0" and "next_ref s = 2"
    and "rt_find (radix env) n (tree s) = (if n = core_key then Some 1 else None)"
    and "\<exists>m. um_find 0 (heap s) = Some m \<and> mf_filters m = []"
    and "\<exists>m. um_find 1 (heap s) = Some m \<and> mf_filters m = []"
proof -
  let ?rt = "radix env" and ?d = "new_metafilter (hub_of env) default_key"
    and ?c = "new_metafilter (hub_of env) core_key"
  define t where "t = rt_put ?rt core_key 1 (rt_put ?rt default_key 0 (rt_empty ?rt))"
  define h :: "(ref, 'b metafilter) umap" where "h = um_insert 1 ?c (um_insert 0 ?d [])"
  have keys: "core_key \<noteq> default_key" by (simp add: core_key_def default_key_def)
  have find: "rt_find ?rt n t =
      (if n = core_key then Some 1 else if n = default_key then Some 0 else None)" for n
    by (simp add: t_def rt_find_put [OF ok] rt_find_empty [OF ok])
  define s3 :: "('a, 'b) logging_impl" where
    "s3 = \<lparr>tree = t, heap = h, next_ref = 2, core_ref = 1, default_ref = 0, scopes = [],
      scope_counter = sc, filter_unicorn_path =
        (case path_arg of None \<Rightarrow> ''/cocaine/logging_v2/filters'' | Some p \<Rightarrow> p), outbox = []\<rparr>"
  have s3: "tree s3 = t" "heap s3 = h" "next_ref s3 = 2" "core_ref s3 = 1" "default_ref s3 = 0"
    by (simp_all add: s3_def)
  have s: "s = load_filters (svc_cleanup env clk False s3)"
    using assms(2) keys
    by (simp add: new_impl_def get_default_metafilter_def get_core_metafilter_def get_metafilter_def
        rt_find_put [OF ok] rt_find_empty [OF ok] Let_def t_def h_def s3_def numeral_2_eq_2)
  have heap: "um_find 0 h = Some ?d" "um_find (Suc 0) h = Some ?c" by (simp_all add: h_def)
  have none: "mf_cleanup now (new_metafilter (hub_of env) nm :: 'b metafilter) =
      new_metafilter (hub_of env) nm" for now nm
    by (rule mf_cleanup_none) (simp add: new_metafilter_def)
  have empties: "n \<in> set (fst (cleanup_loop clk (rt_entries ?rt t) h)) \<longleftrightarrow> n = default_key" for n
    unfolding cleanup_loop_empties rt_entries_iff [OF ok] find
    using keys heap by (auto simp: none mf_empty_def)
  show "rt_find ?rt n (tree s) = (if n = core_key then Some 1 else None)"
    using keys by (simp add: s load_filters_def svc_cleanup_state(1) [OF ok] s3 empties find)
  show "core_ref s = 1" "default_ref s = 0" "next_ref s = 2"
    using s3 by (simp_all add: s load_filters_def svc_cleanup_def case_prod_beta Let_def)
  show "\<exists>m. um_find 0 (heap s) = Some m \<and> mf_filters m = []"
    "\<exists>m. um_find 1 (heap s) = Some m \<and> mf_filters m = []"
    by (simp_all add: s load_filters_def svc_cleanup_state(2) [OF ok] s3 cleanup_loop_heap heap none)
qed

text \<open>
  The metafilter of \<open>default\<close> that the core's log filter captured can be
  detached from the tree. With no default filters configured, the first cleanup erases
  the empty metafilter; a filter that accepts everything, set for \<open>default\<close> afterwards,
  goes to a new metafilter, is listed by the service, and yet the core's log filter
  keeps rejecting every record.
\<close>

theorem default_filter_detached:
  assumes "rtree_ok (radix env)" and "new_impl env clk path_arg sc [] = Inr s"
    and "set_filter env now gid ''default'' Empty_filter ttl Local s = Inr s'"
  shows "\<lparr>fi_filter = Empty_filter, deadline = now + ttl, fi_id = gid, disposition = Local,
          logger_name = ''default''\<rparr> \<in> set (list_infos env s') \<and>
         (\<exists>s''. core_filter env vb now' now'' sev pack s' = Inr (False, s''))"
proof
  note init = new_impl_no_defaults [OF assms(1,2)]
  have inv: "svc_inv env s" by (rule svc_inv_init [OF assms(1,2)])
  have "info \<notin> set (list_infos env s)" for info
    using init(4,6) by (auto simp: list_infos_iff [OF assms(1)])
  then show "\<lparr>fi_filter = Empty_filter, deadline = now + ttl, fi_id = gid, disposition = Local,
          logger_name = ''default''\<rparr> \<in> set (list_infos env s')"
    using set_filter_local_state(1) [OF assms(1) inv _ assms(3)] list_infos_iff [OF assms(1)]
    by fastforce
  obtain m0 m1 where m: "um_find 0 (heap s) = Some m0" "mf_filters m0 = []"
    "um_find 1 (heap s) = Some m1" "mf_filters m1 = []"
    using init(5,6) by blast
  have "mf_inv m0" by (simp add: mf_inv_def m)
  have "''default'' \<noteq> core_key" by (simp add: core_key_def)
  then have s': "core_ref s' = 1" "default_ref s' = 0" "um_find 0 (heap s') = Some m0"
    "um_find 1 (heap s') = Some m1"
    using assms(3) init(1-4) m
    by (auto simp: set_filter_def Let_def get_metafilter_def with_metafilter_def)
  show "\<exists>s''. core_filter env vb now' now'' sev pack s' = Inr (False, s'')"
    using s' m \<open>mf_inv m0\<close>
    by (simp add: core_filter_def Let_def mf_empty_def apply_metafilter_def mf_apply_result)
qed

theorem default_filter_detached_witness:
  "\<exists>s s'. new_impl sample_env (\<lambda>_. 10) None 0 [] = Inr s \<and>
     set_filter sample_env 20 7 ''default'' Empty_filter 60 Local s = Inr s' \<and>
     (\<exists>s''. core_filter sample_env False 21 21 9 [] s' = Inr (False, s''))"
proof -
  obtain s where s: "new_impl sample_env (\<lambda>_. 10) None 0 [] = Inr s"
    by (simp add: new_impl_def case_prod_beta Let_def)
  obtain s' where s': "set_filter sample_env 20 7 ''default'' Empty_filter 60 Local s = Inr s'"
    by (simp add: set_filter_def Let_def case_prod_beta)
  from default_filter_detached [OF rtree_ok_sample s s', of False 21 21 9 "[]"] s s' show ?thesis
    by blast
qed

end
