(* ===== verification/Slave_Channel.thy ===== *)
theory Slave_Channel
  imports Prelude "HOL-Library.Word"
begin

text \<open>
  The plumbing of one request inside a worker slave of the node service
  (\<^verbatim>\<open>src/node\<close>): the two-sided channel of \<^verbatim>\<open>slave/channel.cpp\<close>, the
  client-to-worker dispatch of \<^verbatim>\<open>dispatch/client.cpp\<close>, the worker-to-client
  dispatch of \<^verbatim>\<open>dispatch/worker.cpp\<close>, the error codes of \<^verbatim>\<open>slave/error.cpp\<close> and
  the line splitter of \<^verbatim>\<open>util/splitter.hpp\<close> with the crash-log ring it feeds.
  Callbacks are returned as values: a channel operation says whether the close
  callback is run, a dispatch operation says with which error code its
  callback is run.  Whether a call on a network stream throws is an argument
  of the operation that makes it.
\<close>

unbundle bit_operations_syntax

section \<open>Error codes\<close>

text \<open>
  A \<^verbatim>\<open>std::error_code\<close> is a category with an \<^verbatim>\<open>int\<close> value; it converts to
  \<^verbatim>\<open>true\<close> when the value is not zero, and two codes are equal when both parts
  are.
\<close>

datatype category =
    Slave_category
  | Overseer_category
  | System_category
  | Foreign_category string

type_synonym error_code = "category \<times> int"

definition no_error :: error_code where
  "no_error = (System_category, 0)"

definition is_error :: "error_code \<Rightarrow> bool" where
  "is_error ec \<longleftrightarrow> snd ec \<noteq> 0"

datatype slave_errors =
    Spawn_timeout
  | Locator_not_found
  | Empty_locator_endpoints
  | Activate_timeout
  | Unknown_activate_error
  | Seal_timeout
  | Teminate_timeout
  | Heartbeat_timeout
  | Invalid_state
  | Conrol_ipc_error
  | Overseer_shutdowning
  | Committed_suicide
  | Slave_idle
  | Slave_is_sealing

primrec slave_error_value :: "slave_errors \<Rightarrow> int" where
  "slave_error_value Spawn_timeout = 1"
| "slave_error_value Locator_not_found = 2"
| "slave_error_value Empty_locator_endpoints = 3"
| "slave_error_value Activate_timeout = 4"
| "slave_error_value Unknown_activate_error = 5"
| "slave_error_value Seal_timeout = 6"
| "slave_error_value Teminate_timeout = 7"
| "slave_error_value Heartbeat_timeout = 8"
| "slave_error_value Invalid_state = 9"
| "slave_error_value Conrol_ipc_error = 10"
| "slave_error_value Overseer_shutdowning = 11"
| "slave_error_value Committed_suicide = 12"
| "slave_error_value Slave_idle = 13"
| "slave_error_value Slave_is_sealing = 14"

definition make_error_code :: "slave_errors \<Rightarrow> error_code" where
  "make_error_code e = (Slave_category, slave_error_value e)"

definition slave_message :: "int \<Rightarrow> string" where
  "slave_message v =
     (if v = 1 then ''timed out while spawning''
      else if v = 2 then ''locator not found''
      else if v = 3 then ''locator endpoints set is empty''
      else if v = 4 then ''timed out while activating''
      else if v = 5 then ''unknown activate error''
      else if v = 6 then ''timed out while sealing''
      else if v = 7 then ''timed out while terminating''
      else if v = 8 then ''timed out while waiting for heartbeat''
      else if v = 9 then ''invalid state''
      else if v = 10 then ''unexpected control IPC error''
      else if v = 11 then ''overseer is shutting down''
      else if v = 12 then ''slave has committed suicide''
      else if v = 13 then ''slave is idle''
      else if v = 14 then ''slave is sealing''
      else ''unexpected slave error'')"

datatype overseer_errors = Queue_is_full | Pool_is_full

definition overseer_error_code :: "overseer_errors \<Rightarrow> error_code" where
  "overseer_error_code e = (Overseer_category, (case e of Queue_is_full \<Rightarrow> 1 | Pool_is_full \<Rightarrow> 2))"

definition overseer_message :: "int \<Rightarrow> string" where
  "overseer_message v =
     (if v = 1 then ''queue is full'' else if v = 2 then ''pool is full''
      else ''unexpected overseer error'')"

lemma is_error_make_error_code [simp]: "is_error (make_error_code e)"
  by (cases e) (simp_all add: is_error_def make_error_code_def)

lemma is_error_no_error [simp]: "\<not> is_error no_error"
  by (simp add: is_error_def no_error_def)

lemma slave_error_value_inj [simp]: "slave_error_value e = slave_error_value e' \<longleftrightarrow> e = e'"
  by (cases e; cases e') simp_all

lemma make_error_code_inj [simp]: "make_error_code e = make_error_code e' \<longleftrightarrow> e = e'"
  by (simp add: make_error_code_def)

section \<open>Channels\<close>

text \<open>
  The open sides are the bits of an \<^verbatim>\<open>int\<close>: \<^verbatim>\<open>tx\<close> is 1, \<^verbatim>\<open>rx\<close> is 2.  The two
  pointers keep the dispatches alive while the channel is open.
\<close>

type_synonym side = "32 word"

definition side_none :: side where "side_none = 0"
definition side_tx :: side where "side_tx = 1"
definition side_rx :: side where "side_rx = 2"
definition side_both :: side where "side_both = side_tx OR side_rx"

record channel =
  ch_id :: nat
  ch_birthstamp :: int
  ch_state :: side
  ch_watched :: bool
  ch_into_worker :: bool
  ch_from_worker :: bool

definition new_channel :: "nat \<Rightarrow> int \<Rightarrow> channel" where
  "new_channel i birth = \<lparr>ch_id = i, ch_birthstamp = birth, ch_state = side_both,
     ch_watched = False, ch_into_worker = False, ch_from_worker = False\<rparr>"

definition ch_closed :: "channel \<Rightarrow> bool" where
  "ch_closed c \<longleftrightarrow> ch_state c = side_none"

definition send_closed :: "channel \<Rightarrow> bool" where
  "send_closed c \<longleftrightarrow> ch_state c AND side_tx = side_tx"

definition recv_closed :: "channel \<Rightarrow> bool" where
  "recv_closed c \<longleftrightarrow> ch_state c AND side_rx = side_rx"

definition maybe_notify :: "channel \<Rightarrow> channel \<times> bool" where
  "maybe_notify c =
     (if ch_closed c \<and> ch_watched c
      then (c\<lparr>ch_into_worker := False, ch_from_worker := False\<rparr>, True)
      else (c, False))"

definition close_send :: "channel \<Rightarrow> channel \<times> bool" where
  "close_send c = maybe_notify (c\<lparr>ch_state := ch_state c AND NOT side_tx\<rparr>)"

definition close_recv :: "channel \<Rightarrow> channel \<times> bool" where
  "close_recv c = maybe_notify (c\<lparr>ch_state := ch_state c AND NOT side_rx\<rparr>)"

definition close_both :: "channel \<Rightarrow> channel \<times> bool" where
  "close_both c = maybe_notify (c\<lparr>ch_state := ch_state c AND NOT (side_tx OR side_rx)\<rparr>)"

definition watch :: "channel \<Rightarrow> channel \<times> bool" where
  "watch c = maybe_notify (c\<lparr>ch_watched := True\<rparr>)"

section \<open>The dispatches of a request\<close>

datatype stream_msg =
    Chunk string
  | Error error_code string
  | Choke

datatype client_state = C_open | C_bound | C_closed

record client_dispatch =
  cd_state :: client_state
  cd_ec :: error_code
  cd_sent :: "stream_msg list"

definition new_client_dispatch :: client_dispatch where
  "new_client_dispatch = \<lparr>cd_state = C_open, cd_ec = no_error, cd_sent = []\<rparr>"

text \<open>
  Attaching a dispatch that is already bound violates the assertion of
  \<^verbatim>\<open>attach\<close>; the result is \<^const>\<open>None\<close> then.  Otherwise the second component
  is the error code the close callback is run with, if it is run.
\<close>

definition client_attach :: "client_dispatch \<Rightarrow> (client_dispatch \<times> error_code option) option" where
  "client_attach c =
     (case cd_state c of
        C_open \<Rightarrow> Some (c\<lparr>cd_state := C_bound\<rparr>, None)
      | C_closed \<Rightarrow> Some (c, Some (cd_ec c))
      | C_bound \<Rightarrow> None)"

definition client_finalize :: "client_dispatch \<Rightarrow> client_dispatch \<times> error_code option" where
  "client_finalize c =
     (case cd_state c of
        C_open \<Rightarrow> (c\<lparr>cd_state := C_closed\<rparr>, None)
      | C_bound \<Rightarrow> (c\<lparr>cd_state := C_closed\<rparr>, Some (cd_ec c))
      | C_closed \<Rightarrow> (c, None))"

definition client_send :: "stream_msg \<Rightarrow> client_dispatch \<Rightarrow> client_dispatch" where
  "client_send x c = c\<lparr>cd_sent := cd_sent c @ [x]\<rparr>"

definition client_discard :: "bool \<Rightarrow> string \<Rightarrow> error_code \<Rightarrow> client_dispatch \<Rightarrow> client_dispatch \<times> error_code option" where
  "client_discard ok msg ec c =
     (if is_error ec
      then let c = c\<lparr>cd_ec := ec\<rparr>;
               c = (if ok then client_send (Error ec msg) c else c)
           in client_finalize c
      else (c, None))"

text \<open>
  When the stream throws in \<^verbatim>\<open>abort\<close> or \<^verbatim>\<open>close\<close>, the exception leaves the
  method before \<^verbatim>\<open>finalize\<close>: the state is unchanged.
\<close>

definition client_write :: "bool \<Rightarrow> string \<Rightarrow> client_dispatch \<Rightarrow> client_dispatch \<times> error_code option" where
  "client_write ok x c = ((if ok then client_send (Chunk x) c else c), None)"

definition client_abort :: "bool \<Rightarrow> error_code \<Rightarrow> string \<Rightarrow> client_dispatch \<Rightarrow> client_dispatch \<times> error_code option" where
  "client_abort ok ec reason c =
     (if ok then client_finalize (client_send (Error ec reason) c) else (c, None))"

definition client_close :: "bool \<Rightarrow> client_dispatch \<Rightarrow> client_dispatch \<times> error_code option" where
  "client_close ok c = (if ok then client_finalize (client_send Choke c) else (c, None))"

datatype worker_state = W_open | W_closed

record worker_dispatch =
  wd_state :: worker_state
  wd_sent :: "stream_msg list"

definition new_worker_dispatch :: worker_dispatch where
  "new_worker_dispatch = \<lparr>wd_state = W_open, wd_sent = []\<rparr>"

definition connection_aborted :: error_code where
  "connection_aborted = (System_category, 103)"

definition worker_finalize :: "error_code \<Rightarrow> worker_dispatch \<Rightarrow> worker_dispatch \<times> error_code option" where
  "worker_finalize ec w =
     (if wd_state w = W_closed then (w, None) else (w\<lparr>wd_state := W_closed\<rparr>, Some ec))"

definition worker_send :: "stream_msg \<Rightarrow> worker_dispatch \<Rightarrow> worker_dispatch" where
  "worker_send x w = w\<lparr>wd_sent := wd_sent w @ [x]\<rparr>"

definition worker_chunk :: "bool \<Rightarrow> string \<Rightarrow> worker_dispatch \<Rightarrow> worker_dispatch \<times> error_code option" where
  "worker_chunk ok x w =
     (if wd_state w = W_closed then (w, None)
      else if ok then (worker_send (Chunk x) w, None)
      else worker_finalize connection_aborted w)"

definition worker_error :: "bool \<Rightarrow> error_code \<Rightarrow> string \<Rightarrow> worker_dispatch \<Rightarrow> worker_dispatch \<times> error_code option" where
  "worker_error ok ec reason w =
     (if wd_state w = W_closed then (w, None)
      else if ok then worker_finalize no_error (worker_send (Error ec reason) w)
      else worker_finalize connection_aborted w)"

definition worker_choke :: "bool \<Rightarrow> worker_dispatch \<Rightarrow> worker_dispatch \<times> error_code option" where
  "worker_choke ok w =
     (if wd_state w = W_closed then (w, None)
      else if ok then worker_finalize no_error (worker_send Choke w)
      else worker_finalize connection_aborted w)"

definition worker_discard :: "bool \<Rightarrow> error_code \<Rightarrow> worker_dispatch \<Rightarrow> worker_dispatch \<times> error_code option" where
  "worker_discard ok ec w =
     (if is_error ec
      then if wd_state w = W_closed then (w, None)
           else worker_finalize no_error
                  (if ok then worker_send (Error ec ''slave has been discarded'') w else w)
      else (w, None))"

section \<open>Output splitting and the crash-log ring\<close>

record splitter =
  sp_sep :: char
  sp_unparsed :: string

definition new_splitter :: splitter where
  "new_splitter = \<lparr>sp_sep = CHR 0x0A, sp_unparsed = []\<rparr>"

text \<open>\<^verbatim>\<open>std::string::find\<close> of a character: the position or \<^verbatim>\<open>npos\<close>.\<close>

fun str_find :: "char \<Rightarrow> string \<Rightarrow> nat option" where
  "str_find c [] = None"
| "str_find c (x # xs) = (if x = c then Some 0 else map_option Suc (str_find c xs))"

definition splitter_next :: "splitter \<Rightarrow> string option \<times> splitter" where
  "splitter_next s =
     (case str_find (sp_sep s) (sp_unparsed s) of
        None \<Rightarrow> (None, s)
      | Some pos \<Rightarrow> (Some (take pos (sp_unparsed s)), s\<lparr>sp_unparsed := drop (pos + 1) (sp_unparsed s)\<rparr>))"

definition splitter_empty :: "splitter \<Rightarrow> bool" where
  "splitter_empty s \<longleftrightarrow> sp_unparsed s = []"

definition splitter_consume :: "string \<Rightarrow> splitter \<Rightarrow> splitter" where
  "splitter_consume x s = s\<lparr>sp_unparsed := sp_unparsed s @ x\<rparr>"

text \<open>\<^verbatim>\<open>boost::circular_buffer::push_back\<close>: the oldest element makes room; a ring of capacity 0 stays empty.\<close>

definition ring_push :: "nat \<Rightarrow> 'a list \<Rightarrow> 'a \<Rightarrow> 'a list" where
  "ring_push n xs x = (if n = 0 then xs else if length xs < n then xs @ [x] else tl xs @ [x])"

lemma str_find_Some_length: "str_find c xs = Some p \<Longrightarrow> p < length xs"
  by (induction xs arbitrary: p) (auto split: if_splits)

lemma str_find_None: "str_find c xs = None \<longleftrightarrow> c \<notin> set xs"
  by (induction xs) auto

text \<open>The \<^verbatim>\<open>while\<close> loop of \<^verbatim>\<open>machine_t::output\<close>.\<close>

function output_loop :: "nat \<Rightarrow> splitter \<Rightarrow> string list \<Rightarrow> splitter \<times> string list" where
  "output_loop n s ls =
     (case splitter_next s of
        (None, s') \<Rightarrow> (s', ls)
      | (Some line, s') \<Rightarrow> output_loop n s' (ring_push n ls line))"
  by pat_completeness auto
termination
  by (relation "measure (\<lambda>(n, s, ls). length (sp_unparsed s))")
     (auto simp: splitter_next_def split: option.splits dest!: str_find_Some_length)

declare output_loop.simps [simp del]

definition slave_output :: "nat \<Rightarrow> string \<Rightarrow> splitter \<times> string list \<Rightarrow> splitter \<times> string list" where
  "slave_output n x sl = output_loop n (splitter_consume x (fst sl)) (snd sl)"

section \<open>Sides of a channel\<close>

text \<open>The reading of the bit set: which side is still open.\<close>

definition tx_open :: "channel \<Rightarrow> bool" where
  "tx_open c \<longleftrightarrow> bit (ch_state c) 0"

definition rx_open :: "channel \<Rightarrow> bool" where
  "rx_open c \<longleftrightarrow> bit (ch_state c) 1"

definition ch_ok :: "channel \<Rightarrow> bool" where
  "ch_ok c \<longleftrightarrow> ch_state c \<in> {side_none, side_tx, side_rx, side_both}"

lemmas side_defs = side_none_def side_tx_def side_rx_def side_both_def

lemma ch_ok_cases:
  assumes "ch_ok c"
  obtains "ch_state c = 0" | "ch_state c = 1" | "ch_state c = 2" | "ch_state c = 3"
  using assms by (auto simp: ch_ok_def side_defs)

lemma ch_ok_new [simp]: "ch_ok (new_channel i b)"
  by (simp add: ch_ok_def new_channel_def)

lemma ch_ok_closed: "ch_ok c \<Longrightarrow> ch_closed c \<longleftrightarrow> \<not> tx_open c \<and> \<not> rx_open c"
  by (elim ch_ok_cases) (simp_all add: ch_closed_def tx_open_def rx_open_def side_defs bit_iff_odd)

lemma maybe_notify_simps [simp]:
  "ch_state (fst (maybe_notify c)) = ch_state c"
  "ch_watched (fst (maybe_notify c)) = ch_watched c"
  "ch_id (fst (maybe_notify c)) = ch_id c"
  "snd (maybe_notify c) \<longleftrightarrow> ch_closed c \<and> ch_watched c"
  by (simp_all add: maybe_notify_def)

lemma ch_frames [frame_simps]:
  "ch_watched (fst (close_send c)) = ch_watched c" "ch_id (fst (close_send c)) = ch_id c"
  "ch_watched (fst (close_recv c)) = ch_watched c" "ch_id (fst (close_recv c)) = ch_id c"
  "ch_watched (fst (close_both c)) = ch_watched c" "ch_id (fst (close_both c)) = ch_id c"
  "ch_watched (fst (watch c))" "ch_id (fst (watch c)) = ch_id c"
  by (simp_all add: close_send_def close_recv_def close_both_def watch_def)

lemma ch_notified [simp]:
  "snd (close_send c) \<longleftrightarrow> ch_closed (fst (close_send c)) \<and> ch_watched c"
  "snd (close_recv c) \<longleftrightarrow> ch_closed (fst (close_recv c)) \<and> ch_watched c"
  "snd (close_both c) \<longleftrightarrow> ch_closed (fst (close_both c)) \<and> ch_watched c"
  "snd (watch c) \<longleftrightarrow> ch_closed c"
  by (simp_all add: close_send_def close_recv_def close_both_def watch_def ch_closed_def)

lemma close_send_sides:
  "ch_ok c \<Longrightarrow> ch_ok (fst (close_send c)) \<and> \<not> tx_open (fst (close_send c)) \<and>
     rx_open (fst (close_send c)) = rx_open c"
  by (elim ch_ok_cases) (simp_all add: close_send_def ch_ok_def tx_open_def rx_open_def side_defs bit_iff_odd)

lemma close_recv_sides:
  "ch_ok c \<Longrightarrow> ch_ok (fst (close_recv c)) \<and> tx_open (fst (close_recv c)) = tx_open c \<and>
     \<not> rx_open (fst (close_recv c))"
  by (elim ch_ok_cases) (simp_all add: close_recv_def ch_ok_def tx_open_def rx_open_def side_defs bit_iff_odd)

lemma close_both_sides:
  "ch_ok c \<Longrightarrow> ch_ok (fst (close_both c)) \<and> \<not> tx_open (fst (close_both c)) \<and> \<not> rx_open (fst (close_both c))"
  by (elim ch_ok_cases) (simp_all add: close_both_def ch_ok_def tx_open_def rx_open_def side_defs bit_iff_odd)

lemma watch_sides:
  "ch_ok c \<Longrightarrow> ch_ok (fst (watch c)) \<and> tx_open (fst (watch c)) = tx_open c \<and> rx_open (fst (watch c)) = rx_open c"
  by (simp add: watch_def ch_ok_def tx_open_def rx_open_def)

lemma close_both_closed [simp]: "ch_ok c \<Longrightarrow> ch_closed (fst (close_both c))"
  using close_both_sides [of c] by (simp add: ch_ok_closed)

text \<open>A run of closes, as the dispatches and the shutdown issue them.\<close>

datatype close_op = Op_send | Op_recv | Op_both

fun close_step :: "close_op \<Rightarrow> channel \<Rightarrow> channel \<times> bool" where
  "close_step Op_send = close_send"
| "close_step Op_recv = close_recv"
| "close_step Op_both = close_both"

fun close_run :: "close_op list \<Rightarrow> channel \<Rightarrow> channel \<times> bool list" where
  "close_run [] c = (c, [])"
| "close_run (x # xs) c =
     (let (c', b) = close_step x c; (c'', bs) = close_run xs c' in (c'', b # bs))"

definition closes_tx :: "close_op \<Rightarrow> bool" where "closes_tx x \<longleftrightarrow> x \<noteq> Op_recv"
definition closes_rx :: "close_op \<Rightarrow> bool" where "closes_rx x \<longleftrightarrow> x \<noteq> Op_send"

lemma close_step_sides:
  "ch_ok c \<Longrightarrow> ch_ok (fst (close_step x c)) \<and>
     tx_open (fst (close_step x c)) = (tx_open c \<and> \<not> closes_tx x) \<and>
     rx_open (fst (close_step x c)) = (rx_open c \<and> \<not> closes_rx x)"
  by (cases x) (simp_all add: close_send_sides close_recv_sides close_both_sides closes_tx_def closes_rx_def)

lemma close_step_notified [simp]:
  "snd (close_step x c) \<longleftrightarrow> ch_closed (fst (close_step x c)) \<and> ch_watched c"
  by (cases x) simp_all

lemma close_step_watched [simp]: "ch_watched (fst (close_step x c)) = ch_watched c"
  by (cases x) (simp_all add: frame_simps)

lemma close_run_notifications:
  assumes "ch_ok c" "ch_watched c" "i < length xs"
  shows "snd (close_run xs c) ! i \<longleftrightarrow>
           (\<not> tx_open c \<or> list_ex closes_tx (take (Suc i) xs)) \<and>
           (\<not> rx_open c \<or> list_ex closes_rx (take (Suc i) xs))"
  using assms
proof (induction xs arbitrary: c i)
  case (Cons x xs)
  let ?c = "fst (close_step x c)"
  have ok: "ch_ok ?c" "ch_watched ?c"
    using Cons.prems close_step_sides [of c x] by simp_all
  note sides = close_step_sides [OF Cons.prems(1), of x]
  show ?case
  proof (cases i)
    case 0
    then show ?thesis
      using Cons.prems(2) sides by (auto simp: Let_def case_prod_beta ch_ok_closed)
  next
    case (Suc j)
    then have "j < length xs" using Cons.prems(3) by simp
    with Cons.IH [OF ok this] Suc sides show ?thesis
      by (auto simp: Let_def case_prod_beta)
  qed
qed simp

lemma length_close_run [simp]: "length (snd (close_run xs c)) = length xs"
  by (induction xs arbitrary: c) (simp_all add: Let_def case_prod_beta)

text \<open>
  On a fresh channel that is being watched, the close callback runs at a close
  operation exactly when by then both sides have been closed, by whatever
  sequence of one-sided and two-sided closes; it never runs while one side is
  open, and it runs again at every later close.
\<close>

theorem channel_close_notifies:
  "snd (close_run xs (fst (watch (new_channel n birth)))) =
     map (\<lambda>i. list_ex closes_tx (take (Suc i) xs) \<and> list_ex closes_rx (take (Suc i) xs)) [0..<length xs]"
proof (rule nth_equalityI)
  fix i assume "i < length (snd (close_run xs (fst (watch (new_channel n birth)))))"
  then have i: "i < length xs" by simp
  have new: "tx_open (new_channel n birth)" "rx_open (new_channel n birth)"
    by (simp_all add: tx_open_def rx_open_def new_channel_def side_defs bit_iff_odd)
  have ok: "ch_ok (fst (watch (new_channel n birth)))" "tx_open (fst (watch (new_channel n birth)))"
      "rx_open (fst (watch (new_channel n birth)))"
    using watch_sides [OF ch_ok_new, of n birth] new by simp_all
  show "snd (close_run xs (fst (watch (new_channel n birth)))) ! i =
      map (\<lambda>i. list_ex closes_tx (take (Suc i) xs) \<and> list_ex closes_rx (take (Suc i) xs)) [0..<length xs] ! i"
    using close_run_notifications [OF ok(1) ch_frames(7) i] ok i by simp
qed simp

text \<open>
  The observers \<^verbatim>\<open>send_closed\<close> and \<^verbatim>\<open>recv_closed\<close>, which the statistics count as
  closed sides, hold exactly while the side is open.
\<close>

theorem closed_observers_inverted:
  "ch_ok c \<Longrightarrow> send_closed c = tx_open c \<and> recv_closed c = rx_open c"
  by (elim ch_ok_cases)
     (simp_all add: send_closed_def recv_closed_def tx_open_def rx_open_def side_defs bit_iff_odd)

section \<open>Protocol of the dispatches\<close>

text \<open>Messages of the worker for one request, with whether the client stream accepts the forwarded call.\<close>

datatype worker_event =
    WE_chunk bool string
  | WE_error bool error_code string
  | WE_choke bool
  | WE_discard bool error_code

fun worker_step :: "worker_event \<Rightarrow> worker_dispatch \<Rightarrow> worker_dispatch \<times> error_code option" where
  "worker_step (WE_chunk ok x) w = worker_chunk ok x w"
| "worker_step (WE_error ok ec reason) w = worker_error ok ec reason w"
| "worker_step (WE_choke ok) w = worker_choke ok w"
| "worker_step (WE_discard ok ec) w = worker_discard ok ec w"

fun worker_run :: "worker_event list \<Rightarrow> worker_dispatch \<Rightarrow> worker_dispatch \<times> error_code list" where
  "worker_run [] w = (w, [])"
| "worker_run (e # es) w =
     (let (w', cb) = worker_step e w; (w'', cbs) = worker_run es w'
      in (w'', (case cb of None \<Rightarrow> cbs | Some ec \<Rightarrow> ec # cbs)))"

definition is_chunk :: "stream_msg \<Rightarrow> bool" where
  "is_chunk x \<longleftrightarrow> (case x of Chunk _ \<Rightarrow> True | _ \<Rightarrow> False)"

text \<open>Chunks, then at most one closing message, which is the last.\<close>

definition stream_ok :: "stream_msg list \<Rightarrow> bool" where
  "stream_ok xs \<longleftrightarrow> list_all is_chunk (butlast xs)"

definition wd_ok :: "worker_dispatch \<Rightarrow> bool" where
  "wd_ok w \<longleftrightarrow> stream_ok (wd_sent w) \<and> (wd_state w = W_open \<longrightarrow> list_all is_chunk (wd_sent w))"

lemma list_all_butlast: "list_all p xs \<Longrightarrow> list_all p (butlast xs)"
  by (induction xs) auto

lemma wd_ok_new [simp]: "wd_ok new_worker_dispatch"
  by (simp add: wd_ok_def stream_ok_def new_worker_dispatch_def)

lemmas worker_defs = worker_chunk_def worker_error_def worker_choke_def worker_discard_def
  worker_finalize_def worker_send_def

lemma worker_step_ok: "wd_ok w \<Longrightarrow> wd_ok (fst (worker_step e w))"
  by (cases e; cases "wd_state w")
     (auto simp: worker_defs wd_ok_def stream_ok_def is_chunk_def list_all_butlast)

lemma worker_step_callback:
  "snd (worker_step e w) \<noteq> None \<longleftrightarrow> wd_state w = W_open \<and> wd_state (fst (worker_step e w)) = W_closed"
  by (cases e; cases "wd_state w") (auto simp: worker_defs)

lemma worker_step_closed: "wd_state w = W_closed \<Longrightarrow> worker_step e w = (w, None)"
  by (cases e) (auto simp: worker_defs)

lemma worker_run_closed: "wd_state w = W_closed \<Longrightarrow> worker_run es w = (w, [])"
  by (induction es) (simp_all add: worker_step_closed)

lemma worker_run_ok:
  "wd_ok w \<Longrightarrow> wd_state w = W_open \<Longrightarrow>
     wd_ok (fst (worker_run es w)) \<and>
     length (snd (worker_run es w)) = (if wd_state (fst (worker_run es w)) = W_closed then 1 else 0)"
proof (induction es arbitrary: w)
  case (Cons e es)
  show ?case
  proof (cases "wd_state (fst (worker_step e w))")
    case W_open
    moreover have "snd (worker_step e w) = None"
      using worker_step_callback [of e w] W_open by (metis worker_state.distinct(1))
    ultimately show ?thesis
      using Cons worker_step_ok [of w e] by (simp add: Let_def case_prod_beta)
  next
    case W_closed
    moreover obtain ec where "snd (worker_step e w) = Some ec"
      using worker_step_callback [of e w] W_closed Cons.prems by auto
    ultimately show ?thesis
      using Cons.prems worker_step_ok [of w e] worker_run_closed [of "fst (worker_step e w)" es]
      by (simp add: Let_def case_prod_beta)
  qed
qed simp

text \<open>
  Whatever a worker sends for a request, and however the client stream fails,
  what reaches the client is a sequence of chunks followed by at most one
  closing message with nothing after it, and the channel is told of the end
  exactly once when the dispatch is closed and never before.
\<close>

theorem worker_stream_protocol:
  "stream_ok (wd_sent (fst (worker_run es new_worker_dispatch))) \<and>
   length (snd (worker_run es new_worker_dispatch)) =
     (if wd_state (fst (worker_run es new_worker_dispatch)) = W_closed then 1 else 0)"
  using worker_run_ok [OF wd_ok_new, of es] by (simp add: wd_ok_def new_worker_dispatch_def)

datatype client_event =
    CE_write bool string
  | CE_abort bool error_code string
  | CE_close bool
  | CE_discard bool string error_code

fun client_step :: "client_event \<Rightarrow> client_dispatch \<Rightarrow> client_dispatch \<times> error_code option" where
  "client_step (CE_write ok x) c = client_write ok x c"
| "client_step (CE_abort ok ec reason) c = client_abort ok ec reason c"
| "client_step (CE_close ok) c = client_close ok c"
| "client_step (CE_discard ok msg ec) c = client_discard ok msg ec c"

fun client_run :: "client_event list \<Rightarrow> client_dispatch \<Rightarrow> client_dispatch \<times> error_code list" where
  "client_run [] c = (c, [])"
| "client_run (e # es) c =
     (let (c', cb) = client_step e c; (c'', cbs) = client_run es c'
      in (c'', (case cb of None \<Rightarrow> cbs | Some ec \<Rightarrow> ec # cbs)))"

lemmas client_defs = client_write_def client_abort_def client_close_def client_discard_def
  client_finalize_def client_send_def Let_def

lemma client_step_state:
  "cd_state c = C_closed \<Longrightarrow> cd_state (fst (client_step e c)) = C_closed \<and> snd (client_step e c) = None"
  "cd_state c = C_open \<Longrightarrow> cd_state (fst (client_step e c)) \<noteq> C_bound \<and> snd (client_step e c) = None"
  "cd_state c = C_bound \<Longrightarrow>
     (cd_state (fst (client_step e c)) = C_bound \<and> snd (client_step e c) = None) \<or>
     (cd_state (fst (client_step e c)) = C_closed \<and> snd (client_step e c) \<noteq> None)"
  by (cases e; simp add: client_defs)+

lemma client_run_closed:
  "cd_state c = C_closed \<Longrightarrow> cd_state (fst (client_run es c)) = C_closed \<and> snd (client_run es c) = []"
  by (induction es arbitrary: c) (simp_all add: Let_def case_prod_beta client_step_state)

lemma client_run_open:
  "cd_state c \<noteq> C_bound \<Longrightarrow> cd_state (fst (client_run es c)) \<noteq> C_bound \<and> snd (client_run es c) = []"
proof (induction es arbitrary: c)
  case (Cons e es)
  have "cd_state (fst (client_step e c)) \<noteq> C_bound \<and> snd (client_step e c) = None"
    using Cons.prems client_step_state(1,2) [of c e] by (cases "cd_state c") auto
  with Cons.IH show ?case by (simp add: Let_def case_prod_beta)
qed simp

lemma client_run_bound:
  "cd_state c = C_bound \<Longrightarrow>
     cd_state (fst (client_run es c)) \<noteq> C_open \<and>
     length (snd (client_run es c)) = (if cd_state (fst (client_run es c)) = C_closed then 1 else 0)"
proof (induction es arbitrary: c)
  case (Cons e es)
  consider "cd_state (fst (client_step e c)) = C_bound" "snd (client_step e c) = None"
    | ec where "cd_state (fst (client_step e c)) = C_closed" "snd (client_step e c) = Some ec"
    using client_step_state(3) [OF Cons.prems, of e] by (metis not_None_eq)
  then show ?case
    by cases (use Cons.IH client_run_closed [of "fst (client_step e c)" es] in
        \<open>simp_all add: Let_def case_prod_beta\<close>)
qed simp

text \<open>
  The close callback of a client dispatch is run exactly once when the dispatch
  ends up closed and never otherwise, however messages, errors and
  disconnections fall before and after the dispatch is attached to a slave; and
  attaching a dispatch that has not been attached before never trips the
  assertion.
\<close>

theorem client_callback_once:
  "\<exists>c cb. client_attach (fst (client_run es new_client_dispatch)) = Some (c, cb) \<and>
     snd (client_run es new_client_dispatch) = [] \<and>
     cd_state (fst (client_run es' c)) \<noteq> C_open \<and>
     length (case cb of None \<Rightarrow> snd (client_run es' c) | Some ec \<Rightarrow> ec # snd (client_run es' c)) =
       (if cd_state (fst (client_run es' c)) = C_closed then 1 else 0)"
proof -
  let ?d = "fst (client_run es new_client_dispatch)"
  have d: "cd_state ?d \<noteq> C_bound" "snd (client_run es new_client_dispatch) = []"
    using client_run_open [of new_client_dispatch es] by (simp_all add: new_client_dispatch_def)
  show ?thesis
  proof (cases "cd_state ?d")
    case C_open
    then show ?thesis
      using d client_run_bound [of "?d\<lparr>cd_state := C_bound\<rparr>" es'] by (simp add: client_attach_def)
  next
    case C_closed
    then show ?thesis
      using d client_run_closed [of ?d es'] by (simp add: client_attach_def)
  qed (use d in simp)
qed

section \<open>Crash-log lines\<close>

text \<open>Reference: the complete lines of a string and the unfinished rest.\<close>

fun split_lines :: "char \<Rightarrow> string \<Rightarrow> string list \<times> string" where
  "split_lines c [] = ([], [])"
| "split_lines c (x # xs) =
     (let (ls, r) = split_lines c xs
      in if x = c then ([] # ls, r)
         else case ls of [] \<Rightarrow> ([], x # r) | l # ls' \<Rightarrow> ((x # l) # ls', r))"

definition last_n :: "nat \<Rightarrow> 'a list \<Rightarrow> 'a list" where
  "last_n n xs = drop (length xs - n) xs"

lemma ring_push_last_n: "ring_push n (last_n n xs) x = last_n n (xs @ [x])"
  by (auto simp: ring_push_def last_n_def Suc_diff_le drop_Suc tl_drop)

lemma split_lines_find:
  "split_lines c xs = (case str_find c xs of
     None \<Rightarrow> ([], xs)
   | Some p \<Rightarrow> let (ls, r) = split_lines c (drop (Suc p) xs) in (take p xs # ls, r))"
  by (induction xs) (auto simp: Let_def split: option.splits prod.splits list.splits)

lemma split_lines_append:
  "split_lines c (xs @ ys) =
     (let (ls, r) = split_lines c xs; (ls', r') = split_lines c (r @ ys) in (ls @ ls', r'))"
proof (induction xs)
  case (Cons x xs)
  then show ?case
    by (cases "split_lines c xs"; cases "fst (split_lines c xs)"; cases "x = c")
       (auto simp: Let_def split: prod.splits list.splits)
qed (simp add: Let_def)

lemma split_lines_roundtrip:
  "concat (map (\<lambda>l. l @ [c]) (fst (split_lines c xs))) @ snd (split_lines c xs) = xs"
  by (induction xs) (auto simp: Let_def split: prod.splits list.splits)

lemma split_lines_no_sep:
  "c \<notin> set (snd (split_lines c xs)) \<and> (\<forall>l \<in> set (fst (split_lines c xs)). c \<notin> set l)"
  by (induction xs) (auto simp: Let_def split: prod.splits list.splits)

lemma output_loop_split:
  "output_loop n s (last_n n ls) =
     (s\<lparr>sp_unparsed := snd (split_lines (sp_sep s) (sp_unparsed s))\<rparr>,
      last_n n (ls @ fst (split_lines (sp_sep s) (sp_unparsed s))))"
proof (induction "length (sp_unparsed s)" arbitrary: s ls rule: less_induct)
  case less
  show ?case
  proof (cases "str_find (sp_sep s) (sp_unparsed s)")
    case None
    then show ?thesis
      by (subst output_loop.simps) (simp add: splitter_next_def split_lines_find [of _ "sp_unparsed s"])
  next
    case (Some p)
    let ?s = "s\<lparr>sp_unparsed := drop (Suc p) (sp_unparsed s)\<rparr>"
    have "length (sp_unparsed ?s) < length (sp_unparsed s)"
      using str_find_Some_length [OF Some] by simp
    from less [OF this, of "ls @ [take p (sp_unparsed s)]"] show ?thesis
      using Some
      by (subst output_loop.simps)
         (simp add: splitter_next_def ring_push_last_n split_lines_find [of _ "sp_unparsed s"]
           Let_def case_prod_beta)
  qed
qed

lemma slave_output_chunks:
  "foldl (\<lambda>sl x. slave_output n x sl) (s, last_n n ls) xs =
     (s\<lparr>sp_unparsed := snd (split_lines (sp_sep s) (sp_unparsed s @ concat xs))\<rparr>,
      last_n n (ls @ fst (split_lines (sp_sep s) (sp_unparsed s @ concat xs))))"
  if "sp_sep s \<notin> set (sp_unparsed s)"
  using that
proof (induction xs arbitrary: s ls)
  case Nil
  then have "str_find (sp_sep s) (sp_unparsed s) = None"
    by (simp add: str_find_None)
  then show ?case by (simp add: split_lines_find [of _ "sp_unparsed s"])
next
  case (Cons x xs)
  let ?sp = "split_lines (sp_sep s) (sp_unparsed s @ x)"
  let ?s = "s\<lparr>sp_unparsed := snd ?sp\<rparr>"
  have "sp_sep ?s \<notin> set (sp_unparsed ?s)" using split_lines_no_sep by simp
  note IH = Cons.IH [OF this, of "ls @ fst ?sp"]
  show ?case
    using IH split_lines_append [of "sp_sep s" "sp_unparsed s @ x" "concat xs"]
    by (simp add: slave_output_def splitter_consume_def output_loop_split Let_def case_prod_beta)
qed

text \<open>
  However a worker's output is cut into chunks, after all of it the ring holds
  the last \<open>n\<close> complete lines of the whole output and the splitter holds the
  unfinished one; no line contains a newline, and lines and rest together give
  the output back.
\<close>

theorem crashlog_lines:
  "\<exists>ls rest. foldl (\<lambda>sl x. slave_output n x sl) (new_splitter, []) chunks =
       (new_splitter\<lparr>sp_unparsed := rest\<rparr>, last_n n ls) \<and>
     concat (map (\<lambda>l. l @ [CHR 0x0A]) ls) @ rest = concat chunks \<and>
     CHR 0x0A \<notin> set rest \<and> list_all (\<lambda>l. CHR 0x0A \<notin> set l) ls"
proof -
  have "foldl (\<lambda>sl x. slave_output n x sl) (new_splitter, []) chunks =
      (new_splitter\<lparr>sp_unparsed := snd (split_lines (CHR 0x0A) (concat chunks))\<rparr>,
       last_n n (fst (split_lines (CHR 0x0A) (concat chunks))))"
    using slave_output_chunks [of new_splitter n "[]" chunks]
    by (simp add: new_splitter_def last_n_def)
  then show ?thesis
    using split_lines_roundtrip [of "CHR 0x0A" "concat chunks"]
      split_lines_no_sep [of "CHR 0x0A" "concat chunks"]
    by (force simp: list_all_iff)
qed

end
