(* ===== verification/Slave_Machine.thy ===== *)
theory Slave_Machine
  imports Slave_Channel
begin

text \<open>
  The worker slave of the node service: \<^verbatim>\<open>slave/machine.cpp\<close>, the state objects
  of \<^verbatim>\<open>slave/state/*.cpp\<close>, the control channel of \<^verbatim>\<open>slave/control.cpp\<close> and the
  isolate callbacks of \<^verbatim>\<open>slave/spawn_handle.cpp\<close>.

  One record holds the machine with the data of its state objects, because a
  machine creates at most one object of each kind that stays in use.  Deferred
  work is explicit: closures posted to the event loop wait in \<open>m_posted\<close> and
  run from its head; a timer that has expired but whose handler has not run yet
  is counted in \<open>dt_fired\<close>, and cancelling does not take such a handler back,
  as with \<^verbatim>\<open>asio::deadline_timer\<close>.  Calls that leave the program (messages to the
  worker, the storage, the isolate, the engine's handlers) are recorded in
  \<open>m_log\<close>; their outcomes are fields of the environment record.  An access
  through a moved-from or null pointer sets \<open>m_fault\<close>.
\<close>

section \<open>Data\<close>

record profile =
  pr_concurrency :: nat
  pr_crashlog_limit :: nat
  pr_grow_threshold :: nat
  pr_pool_limit :: nat
  pr_queue_limit :: nat
  pr_request_timeout :: int

record manifest =
  mf_name :: string
  mf_executable :: string
  mf_endpoint :: string
  mf_environment :: "(string, string) umap"

record token =
  tk_type :: string
  tk_body :: string

record event =
  ev_name :: string
  ev_timeout_header :: "int option"
  ev_birthstamp :: int
  ev_deadline :: "int option"

record load =
  ld_event :: event
  ld_dispatch :: client_dispatch

record dtimer =
  dt_armed :: bool
  dt_fired :: nat

definition new_timer :: dtimer where
  "new_timer = \<lparr>dt_armed = False, dt_fired = 0\<rparr>"

text \<open>\<^verbatim>\<open>expires_from_now\<close> followed by \<^verbatim>\<open>async_wait\<close>; \<^verbatim>\<open>cancel\<close> with the number of waits it cancelled.\<close>

definition t_arm :: "dtimer \<Rightarrow> dtimer" where
  "t_arm t = t\<lparr>dt_armed := True\<rparr>"

definition t_cancel :: "dtimer \<Rightarrow> dtimer \<times> nat" where
  "t_cancel t = (t\<lparr>dt_armed := False\<rparr>, if dt_armed t then 1 else 0)"

definition t_live :: "dtimer \<Rightarrow> bool" where
  "t_live t \<longleftrightarrow> dt_armed t \<or> 0 < dt_fired t"

record control =
  ct_closed :: bool
  ct_timer :: dtimer

definition new_control :: control where
  "new_control = \<lparr>ct_closed = False, ct_timer = new_timer\<rparr>"

record conv =
  cv_channel :: channel
  cv_client :: client_dispatch
  cv_worker :: worker_dispatch
  cv_timer :: dtimer

datatype state =
    Null
  | Preparation
  | Spawning
  | Handshaking
  | Active
  | Sealing
  | Terminating
  | Inactive error_code

datatype isolate_result =
    Isolate_unavailable error_code
  | Isolate_throws error_code
  | Isolate_spawned

record env =
  e_send_ok :: bool
  e_fork_ok :: bool
  e_invoke_ok :: bool
  e_tx_ok :: bool
  e_rx_ok :: bool
  e_auth_ok :: bool
  e_locator :: "string list option"
  e_isolate :: isolate_result
  e_protocol :: string
  e_now :: int
  e_session_error :: error_code
  e_timeout_error :: error_code
  e_timeout_message :: string

datatype post =
    P_start
  | P_prep_terminate error_code
  | P_refresh token error_code
  | P_shutdown error_code
  | P_close_both nat
  | P_cleanup error_code

datatype effect =
    E_token
  | E_spawn string "(string, string) umap" "(string, string) umap"
  | E_terminate error_code
  | E_invoke nat string
  | E_handler nat
  | E_dump "string list"
  | E_cleanup error_code
  | E_detach

record machine =
  m_id :: string
  m_profile :: profile
  m_manifest :: manifest
  m_closed :: bool
  m_shutdowned :: bool
  m_output :: "splitter \<times> string list"
  m_state :: state
  m_counter :: nat
  m_channels :: "nat list"
  m_timers :: "nat list"
  m_convs :: "(nat, conv) umap"
  m_ctls :: "control list"
  sp_timer :: dtimer
  sp_control :: "nat option"
  sp_handshaking :: bool
  sp_handle :: bool
  hs_timer :: dtimer
  ac_control :: "nat option"
  se_timer :: dtimer
  se_control :: "nat option"
  te_timer :: dtimer
  te_control :: "nat option"
  m_token :: bool
  m_posted :: "post list"
  m_log :: "effect list"
  m_fault :: bool

definition new_machine :: "string \<Rightarrow> manifest \<Rightarrow> profile \<Rightarrow> machine" where
  "new_machine i mf pr =
     \<lparr>m_id = i, m_profile = pr, m_manifest = mf, m_closed = False, m_shutdowned = False,
      m_output = (new_splitter, []), m_state = Null, m_counter = 1, m_channels = [], m_timers = [],
      m_convs = [], m_ctls = [], sp_timer = new_timer, sp_control = None, sp_handshaking = False,
      sp_handle = False, hs_timer = new_timer, ac_control = None, se_timer = new_timer,
      se_control = None, te_timer = new_timer, te_control = None, m_token = False, m_posted = [],
      m_log = [], m_fault = False\<rparr>"

definition post_m :: "post \<Rightarrow> machine \<Rightarrow> machine" where
  "post_m p m = m\<lparr>m_posted := m_posted m @ [p]\<rparr>"

definition eff :: "effect \<Rightarrow> machine \<Rightarrow> machine" where
  "eff x m = m\<lparr>m_log := m_log m @ [x]\<rparr>"

definition fault :: "machine \<Rightarrow> machine" where
  "fault m = m\<lparr>m_fault := True\<rparr>"

definition migrate :: "state \<Rightarrow> machine \<Rightarrow> machine" where
  "migrate s m = m\<lparr>m_state := s\<rparr>"

section \<open>Observers of the states\<close>

definition inactive_name :: "error_code \<Rightarrow> string" where
  "inactive_name ec =
     (if snd ec = 0 \<or> snd ec = slave_error_value Committed_suicide then ''closed'' else ''broken'')"

fun state_name :: "state \<Rightarrow> string" where
  "state_name Null = ''null''"
| "state_name Preparation = ''preparation''"
| "state_name Spawning = ''spawning''"
| "state_name Handshaking = ''handshaking''"
| "state_name Active = ''active''"
| "state_name Sealing = ''sealing''"
| "state_name Terminating = ''terminating''"
| "state_name (Inactive ec) = inactive_name ec"

definition state_active :: "state \<Rightarrow> bool" where "state_active s \<longleftrightarrow> s = Active"
definition state_sealing :: "state \<Rightarrow> bool" where "state_sealing s \<longleftrightarrow> s = Sealing"
definition state_terminating :: "state \<Rightarrow> bool" where "state_terminating s \<longleftrightarrow> s = Terminating"

definition machine_active :: "machine \<Rightarrow> bool" where
  "machine_active m \<longleftrightarrow> state_active (m_state m)"

definition machine_load :: "machine \<Rightarrow> nat" where
  "machine_load m = length (m_channels m)"

definition slave_channels :: "machine \<Rightarrow> channel list" where
  "slave_channels m = map cv_channel (List.map_filter (\<lambda>i. um_find i (m_convs m)) (m_channels m))"

record slave_stats =
  st_state :: string
  st_tx :: nat
  st_rx :: nat
  st_load :: nat
  st_total :: nat
  st_age :: "int option"

definition machine_stats :: "machine \<Rightarrow> slave_stats" where
  "machine_stats m =
     (let cs = slave_channels m
      in \<lparr>st_state = state_name (m_state m),
          st_tx = length (filter send_closed cs),
          st_rx = length (filter recv_closed cs),
          st_load = length (m_channels m),
          st_total = m_counter m - 1,
          st_age = (if cs = [] then None else Some (Min (ch_birthstamp ` set cs)))\<rparr>)"

section \<open>Shutting down\<close>

fun state_cancel :: "state \<Rightarrow> machine \<Rightarrow> machine" where
  "state_cancel Spawning m = m\<lparr>sp_timer := fst (t_cancel (sp_timer m))\<rparr>"
| "state_cancel Handshaking m = m\<lparr>hs_timer := fst (t_cancel (hs_timer m))\<rparr>"
| "state_cancel Sealing m = m\<lparr>se_timer := fst (t_cancel (se_timer m))\<rparr>"
| "state_cancel Terminating m = m\<lparr>te_timer := fst (t_cancel (te_timer m))\<rparr>"
| "state_cancel _ m = m"

definition dump :: "machine \<Rightarrow> machine" where
  "dump m =
     (let (s, ls) = m_output m;
          d = ls @ (if splitter_empty s then [] else [sp_unparsed s])
      in if d = [] then m else eff (E_dump d) m)"

text \<open>Erasing a timer from the map destroys it, which cancels its wait.\<close>

definition erase_timers :: "nat list \<Rightarrow> machine \<Rightarrow> machine" where
  "erase_timers ids m =
     m\<lparr>m_timers := filter (\<lambda>i. i \<notin> set ids) (m_timers m),
       m_convs := map (\<lambda>(k, v). (k, if k \<in> set ids \<and> k \<in> set (m_timers m)
         then v\<lparr>cv_timer := fst (t_cancel (cv_timer v))\<rparr> else v)) (m_convs m)\<rparr>"

definition drop_sessions :: "machine \<Rightarrow> machine" where
  "drop_sessions m = (fold (\<lambda>i. post_m (P_close_both i)) (m_channels m) m)\<lparr>m_channels := []\<rparr>"

definition shutdown :: "error_code \<Rightarrow> machine \<Rightarrow> machine" where
  "shutdown ec m =
     (if m_shutdowned m then m
      else
        let m = m\<lparr>m_shutdowned := True\<rparr>;
            state = m_state m;
            m = state_cancel state m;
            ec = (if state_terminating state then no_error else ec);
            m = migrate (Inactive ec) m;
            m = (if is_error ec \<and> ec \<noteq> make_error_code Overseer_shutdowning then dump m else m);
            m = erase_timers (m_timers m) m;
            m = drop_sessions m
        in if m_closed m then m else post_m (P_cleanup ec) m)"

section \<open>Control channel\<close>

definition upd_control :: "nat \<Rightarrow> (control \<Rightarrow> control) \<Rightarrow> machine \<Rightarrow> machine" where
  "upd_control i f m = (if i < length (m_ctls m) then m\<lparr>m_ctls := (m_ctls m)[i := f (m_ctls m ! i)]\<rparr> else m)"

definition control_start :: "nat \<Rightarrow> machine \<Rightarrow> machine" where
  "control_start i = upd_control i (\<lambda>c. c\<lparr>ct_timer := t_arm (ct_timer c)\<rparr>)"

definition control_terminate :: "env \<Rightarrow> nat option \<Rightarrow> error_code \<Rightarrow> machine \<Rightarrow> machine" where
  "control_terminate e p ec m =
     (case p of
        None \<Rightarrow> fault m
      | Some i \<Rightarrow> if e_send_ok e then eff (E_terminate ec) m
                 else shutdown (make_error_code Conrol_ipc_error) m)"

definition control_cancel :: "nat \<Rightarrow> machine \<Rightarrow> machine" where
  "control_cancel i = upd_control i (\<lambda>c. c\<lparr>ct_closed := True, ct_timer := fst (t_cancel (ct_timer c))\<rparr>)"

definition control_discard :: "nat \<Rightarrow> error_code \<Rightarrow> machine \<Rightarrow> machine" where
  "control_discard i ec m =
     (if is_error ec \<and> \<not> ct_closed (m_ctls m ! i)
      then shutdown (make_error_code Conrol_ipc_error) m else m)"

definition on_heartbeat :: "nat \<Rightarrow> machine \<Rightarrow> machine" where
  "on_heartbeat i m =
     (if ct_closed (m_ctls m ! i) then m
      else upd_control i (\<lambda>c. c\<lparr>ct_timer := t_arm (ct_timer c)\<rparr>) m)"

definition control_on_terminate :: "machine \<Rightarrow> machine" where
  "control_on_terminate m = shutdown (make_error_code Committed_suicide) m"

definition control_on_timeout :: "machine \<Rightarrow> machine" where
  "control_on_timeout m = shutdown (make_error_code Heartbeat_timeout) m"

section \<open>Terminating and sealing\<close>

definition terminate_start :: "env \<Rightarrow> error_code \<Rightarrow> machine \<Rightarrow> machine" where
  "terminate_start e ec m =
     control_terminate e (te_control m) ec (m\<lparr>te_timer := t_arm (te_timer m)\<rparr>)"

definition active_terminate :: "env \<Rightarrow> error_code \<Rightarrow> machine \<Rightarrow> machine" where
  "active_terminate e ec m =
     (let m = m\<lparr>te_control := ac_control m, ac_control := None\<rparr>
      in terminate_start e ec (migrate Terminating m))"

definition seal_terminate :: "env \<Rightarrow> error_code \<Rightarrow> machine \<Rightarrow> machine" where
  "seal_terminate e ec m =
     (let m = state_cancel Sealing m;
          m = m\<lparr>te_control := se_control m, se_control := None\<rparr>
      in terminate_start e ec (migrate Terminating m))"

definition state_terminate :: "env \<Rightarrow> error_code \<Rightarrow> machine \<Rightarrow> machine" where
  "state_terminate e ec m =
     (case m_state m of
        Null \<Rightarrow> fault m
      | Preparation \<Rightarrow> shutdown ec m
      | Spawning \<Rightarrow> shutdown ec (state_cancel Spawning m)
      | Handshaking \<Rightarrow> shutdown ec (state_cancel Handshaking m)
      | Active \<Rightarrow> active_terminate e ec m
      | Sealing \<Rightarrow> seal_terminate e ec m
      | Terminating \<Rightarrow> shutdown ec (state_cancel Terminating m)
      | Inactive _ \<Rightarrow> m)"

definition machine_terminate :: "env \<Rightarrow> error_code \<Rightarrow> machine \<Rightarrow> machine" where
  "machine_terminate e ec m =
     (if m_closed m then m else state_terminate e ec (m\<lparr>m_closed := True\<rparr>))"

definition seal_start :: "env \<Rightarrow> machine \<Rightarrow> machine" where
  "seal_start e m =
     (if m_channels m = [] then seal_terminate e (make_error_code Slave_is_sealing) m
      else m\<lparr>se_timer := t_arm (se_timer m)\<rparr>)"

definition active_seal :: "env \<Rightarrow> machine \<Rightarrow> machine" where
  "active_seal e m =
     (let m = m\<lparr>se_control := ac_control m, ac_control := None\<rparr>
      in seal_start e (migrate Sealing m))"

definition machine_seal :: "env \<Rightarrow> machine \<Rightarrow> (error_code, machine) result" where
  "machine_seal e m =
     (case m_state m of
        Active \<Rightarrow> Inr (active_seal e m)
      | _ \<Rightarrow> Inl (make_error_code Invalid_state))"

definition seal_on_timeout :: "env \<Rightarrow> machine \<Rightarrow> machine" where
  "seal_on_timeout e m = seal_terminate e (make_error_code Seal_timeout) m"

definition terminate_on_timeout :: "machine \<Rightarrow> machine" where
  "terminate_on_timeout m = shutdown (make_error_code Teminate_timeout) m"

section \<open>Preparation, spawning and handshaking\<close>

definition start :: "machine \<Rightarrow> machine" where
  "start m = post_m P_start (migrate Preparation m)"

definition preparation_start :: "env \<Rightarrow> machine \<Rightarrow> machine" where
  "preparation_start e m =
     (if e_auth_ok e then eff E_token (m\<lparr>m_token := True\<rparr>)
      else post_m (P_prep_terminate (make_error_code Unknown_activate_error)) m)"

definition preparation_token :: "token \<Rightarrow> error_code \<Rightarrow> machine \<Rightarrow> machine" where
  "preparation_token tk ec m = post_m (P_refresh tk ec) (m\<lparr>m_token := False\<rparr>)"

fun join_comma :: "string list \<Rightarrow> string" where
  "join_comma [] = []"
| "join_comma [x] = x"
| "join_comma (x # xs) = x @ '','' @ join_comma xs"

definition spawn_args :: "env \<Rightarrow> string list \<Rightarrow> machine \<Rightarrow> (string, string) umap" where
  "spawn_args e endpoints m =
     [(''--uuid'', m_id m), (''--app'', mf_name (m_manifest m)),
      (''--endpoint'', mf_endpoint (m_manifest m)), (''--locator'', join_comma endpoints),
      (''--protocol'', e_protocol e)]"

definition spawn_env :: "token \<Rightarrow> machine \<Rightarrow> (string, string) umap" where
  "spawn_env tk m =
     (let env = mf_environment (m_manifest m)
      in if tk_type tk \<noteq> []
         then um_insert ''COCAINE_APP_TOKEN_BODY'' (tk_body tk)
                (um_insert ''COCAINE_APP_TOKEN_TYPE'' (tk_type tk) env)
         else env)"

definition spawn :: "env \<Rightarrow> token \<Rightarrow> machine \<Rightarrow> machine" where
  "spawn e tk m =
     (case e_locator e of
        None \<Rightarrow> shutdown (make_error_code Locator_not_found) m
      | Some [] \<Rightarrow> shutdown (make_error_code Empty_locator_endpoints) m
      | Some endpoints \<Rightarrow>
          (case e_isolate e of
             Isolate_unavailable ec \<Rightarrow> post_m (P_shutdown ec) m
           | Isolate_throws ec \<Rightarrow> post_m (P_shutdown ec) (m\<lparr>sp_timer := t_arm (sp_timer m)\<rparr>)
           | Isolate_spawned \<Rightarrow>
               eff (E_spawn (mf_executable (m_manifest m)) (spawn_args e endpoints m) (spawn_env tk m))
                 (m\<lparr>sp_timer := t_arm (sp_timer m), sp_handle := True\<rparr>)))"

definition on_refresh :: "env \<Rightarrow> token \<Rightarrow> error_code \<Rightarrow> machine \<Rightarrow> machine" where
  "on_refresh e tk ec m =
     (if is_error ec then shutdown ec m else spawn e tk (migrate Spawning m))"

definition add_control :: "machine \<Rightarrow> nat \<times> machine" where
  "add_control m = (length (m_ctls m), m\<lparr>m_ctls := m_ctls m @ [new_control]\<rparr>)"

text \<open>The constructor of \<^verbatim>\<open>active_t\<close> starts the heartbeat timer.\<close>

definition handshaking_to_active :: "nat \<Rightarrow> machine \<Rightarrow> machine" where
  "handshaking_to_active i m = migrate Active (control_start i (m\<lparr>ac_control := Some i\<rparr>))"

definition handshaking_activate :: "machine \<Rightarrow> nat option \<times> machine" where
  "handshaking_activate m =
     (let (t, cancelled) = t_cancel (hs_timer m);
          m = m\<lparr>hs_timer := t\<rparr>
      in if cancelled = 0 then (None, m)
         else let (i, m) = add_control m in (Some i, handshaking_to_active i m))"

definition spawn_activate :: "machine \<Rightarrow> nat option \<times> machine" where
  "spawn_activate m =
     (if sp_handshaking m then handshaking_activate m
      else let (i, m) = add_control m in (Some i, m\<lparr>sp_control := Some i\<rparr>))"

definition machine_activate :: "machine \<Rightarrow> (error_code, nat option \<times> machine) result" where
  "machine_activate m =
     (case m_state m of
        Spawning \<Rightarrow> Inr (spawn_activate m)
      | Handshaking \<Rightarrow> Inr (handshaking_activate m)
      | _ \<Rightarrow> Inl (make_error_code Invalid_state))"

definition handshaking_start :: "machine \<Rightarrow> machine" where
  "handshaking_start m = m\<lparr>hs_timer := t_arm (hs_timer m)\<rparr>"

text \<open>
  Neither \<^verbatim>\<open>migrate\<close> nor \<^verbatim>\<open>activate\<close> throws by itself: the handlers of \<^verbatim>\<open>spawn.cpp:198\<close> and \<^verbatim>\<open>handshaking.cpp:69\<close> are for
  allocations and timers of \<^verbatim>\<open>asio\<close> that fail, which are not modelled.
\<close>

definition on_spawn :: "machine \<Rightarrow> machine" where
  "on_spawn m =
     (let (t, cancelled) = t_cancel (sp_timer m);
          m = m\<lparr>sp_timer := t\<rparr>
      in if cancelled = 0 then m
         else let m = migrate Handshaking (m\<lparr>sp_handshaking := True\<rparr>)
              in case sp_control m of
                   Some i \<Rightarrow> handshaking_to_active i (m\<lparr>sp_control := None\<rparr>)
                 | None \<Rightarrow> handshaking_start m)"

definition spawn_on_timeout :: "machine \<Rightarrow> machine" where
  "spawn_on_timeout m = shutdown (make_error_code Spawn_timeout) m"

definition handshaking_on_timeout :: "machine \<Rightarrow> machine" where
  "handshaking_on_timeout m = shutdown (make_error_code Activate_timeout) m"

section \<open>Isolate callbacks\<close>

definition handle_on_ready :: "machine \<Rightarrow> machine" where
  "handle_on_ready m = (if sp_handle m then (on_spawn m)\<lparr>sp_handle := False\<rparr> else fault m)"

definition handle_on_terminate :: "error_code \<Rightarrow> machine \<Rightarrow> machine" where
  "handle_on_terminate ec m = shutdown ec (m\<lparr>sp_handle := False\<rparr>)"

definition machine_output :: "string \<Rightarrow> machine \<Rightarrow> machine" where
  "machine_output x m = m\<lparr>m_output := slave_output (pr_crashlog_limit (m_profile m)) x (m_output m)\<rparr>"

section \<open>Requests\<close>

definition revoke :: "env \<Rightarrow> nat \<Rightarrow> machine \<Rightarrow> machine" where
  "revoke e i m =
     (let m = m\<lparr>m_channels := filter (\<lambda>j. j \<noteq> i) (m_channels m)\<rparr>;
          m = erase_timers [i] m;
          m = (if state_sealing (m_state m) \<and> m_channels m = []
               then state_terminate e (make_error_code Slave_is_sealing) m else m)
      in eff (E_handler i) m)"

definition upd_conv :: "nat \<Rightarrow> (conv \<Rightarrow> conv) \<Rightarrow> machine \<Rightarrow> machine" where
  "upd_conv i f m = m\<lparr>m_convs := map (\<lambda>(k, v). (k, if k = i then f v else v)) (m_convs m)\<rparr>"

text \<open>An operation on the channel of a request; its close callback is \<^verbatim>\<open>revoke\<close>.\<close>

definition on_channel :: "env \<Rightarrow> nat \<Rightarrow> (channel \<Rightarrow> channel \<times> bool) \<Rightarrow> machine \<Rightarrow> machine" where
  "on_channel e i f m =
     (case um_find i (m_convs m) of
        None \<Rightarrow> m
      | Some v \<Rightarrow>
          let (c, notified) = f (cv_channel v);
              m = upd_conv i (\<lambda>v. v\<lparr>cv_channel := c\<rparr>) m
          in if notified then revoke e i m else m)"

text \<open>The callbacks \<^verbatim>\<open>inject\<close> gives to the two dispatches.\<close>

definition worker_callback :: "env \<Rightarrow> nat \<Rightarrow> error_code \<Rightarrow> machine \<Rightarrow> machine" where
  "worker_callback e i ec m = (if is_error ec then on_channel e i close_both m else on_channel e i close_recv m)"

definition client_callback :: "env \<Rightarrow> nat \<Rightarrow> error_code \<Rightarrow> machine \<Rightarrow> machine" where
  "client_callback e i ec m = (if is_error ec then on_channel e i close_both m else on_channel e i close_send m)"

definition on_worker :: "env \<Rightarrow> nat \<Rightarrow> (worker_dispatch \<Rightarrow> worker_dispatch \<times> error_code option) \<Rightarrow> machine \<Rightarrow> machine" where
  "on_worker e i f m =
     (case um_find i (m_convs m) of
        None \<Rightarrow> m
      | Some v \<Rightarrow>
          let (w, cb) = f (cv_worker v);
              m = upd_conv i (\<lambda>v. v\<lparr>cv_worker := w\<rparr>) m
          in case cb of None \<Rightarrow> m | Some ec \<Rightarrow> worker_callback e i ec m)"

definition on_client :: "env \<Rightarrow> nat \<Rightarrow> (client_dispatch \<Rightarrow> client_dispatch \<times> error_code option) \<Rightarrow> machine \<Rightarrow> machine" where
  "on_client e i f m =
     (case um_find i (m_convs m) of
        None \<Rightarrow> m
      | Some v \<Rightarrow>
          let (c, cb) = f (cv_client v);
              m = upd_conv i (\<lambda>v. v\<lparr>cv_client := c\<rparr>) m
          in case cb of None \<Rightarrow> m | Some ec \<Rightarrow> client_callback e i ec m)"

definition request_discard :: "env \<Rightarrow> nat \<Rightarrow> machine \<Rightarrow> machine" where
  "request_discard e i m =
     (let m = on_client e i (client_discard (e_tx_ok e) (e_timeout_message e) (e_timeout_error e)) m
      in on_worker e i (worker_discard (e_rx_ok e) (e_timeout_error e)) m)"

definition request_timeout_of :: "profile \<Rightarrow> event \<Rightarrow> int" where
  "request_timeout_of pr ev =
     (case ev_timeout_header ev of Some t \<Rightarrow> t | None \<Rightarrow> pr_request_timeout pr)"

definition inject_admit :: "env \<Rightarrow> load \<Rightarrow> nat \<Rightarrow> machine \<Rightarrow> machine" where
  "inject_admit e ld i m =
     (let ev = ld_event ld;
          c = (new_channel i (ev_birthstamp ev))\<lparr>ch_into_worker := True, ch_from_worker := True\<rparr>;
          v = \<lparr>cv_channel = c, cv_client = ld_dispatch ld, cv_worker = new_worker_dispatch, cv_timer = new_timer\<rparr>
      in m\<lparr>m_convs := um_insert i v (m_convs m), m_channels := m_channels m @ [i]\<rparr>)"

definition inject_timer :: "env \<Rightarrow> load \<Rightarrow> nat \<Rightarrow> machine \<Rightarrow> machine" where
  "inject_timer e ld i m =
     (let ev = ld_event ld;
          duration = ev_birthstamp ev + request_timeout_of (m_profile m) ev - e_now e
      in if duration \<le> 0 then request_discard e i m
         else upd_conv i (\<lambda>v. v\<lparr>cv_timer := t_arm (cv_timer v)\<rparr>)
                (m\<lparr>m_timers := m_timers m @ [i]\<rparr>))"

definition inject_attach :: "env \<Rightarrow> nat \<Rightarrow> machine \<Rightarrow> machine" where
  "inject_attach e i m =
     (case um_find i (m_convs m) of
        None \<Rightarrow> m
      | Some v \<Rightarrow>
          (case client_attach (cv_client v) of
             None \<Rightarrow> fault m
           | Some (c, cb) \<Rightarrow>
               let m = upd_conv i (\<lambda>v. v\<lparr>cv_client := c\<rparr>) m
               in case cb of None \<Rightarrow> m | Some ec \<Rightarrow> client_callback e i ec m))"

definition inject :: "env \<Rightarrow> load \<Rightarrow> machine \<Rightarrow> (error_code, nat) result \<times> machine" where
  "inject e ld m =
     (let i = m_counter m + 1;
          m = m\<lparr>m_counter := i\<rparr>
      in case m_state m of
           Active \<Rightarrow>
             if \<not> e_fork_ok e \<or> \<not> e_invoke_ok e then (Inl (e_session_error e), m)
             else
               let m = eff (E_invoke i (ev_name (ld_event ld))) m;
                   m = inject_admit e ld i m;
                   m = inject_timer e ld i m;
                   m = inject_attach e i m;
                   m = on_channel e i watch m
               in (Inr i, m)
         | _ \<Rightarrow> (Inl (make_error_code Invalid_state), m))"

section \<open>Destructors\<close>

definition spawn_dtor :: "machine \<Rightarrow> machine" where
  "spawn_dtor m =
     (case sp_control m of
        None \<Rightarrow> m
      | Some i \<Rightarrow> eff E_detach (control_cancel i (m\<lparr>sp_control := None\<rparr>)))"

definition active_dtor :: "machine \<Rightarrow> machine" where
  "active_dtor m =
     (case ac_control m of
        None \<Rightarrow> m
      | Some i \<Rightarrow> eff E_detach (control_cancel i (m\<lparr>ac_control := None\<rparr>)))"

definition terminate_dtor :: "machine \<Rightarrow> machine" where
  "terminate_dtor m =
     (case te_control m of
        None \<Rightarrow> fault m
      | Some i \<Rightarrow> eff E_detach (control_cancel i (m\<lparr>te_control := None\<rparr>)))"

section \<open>Steps\<close>

text \<open>
  What can happen to a machine: the event loop runs the closure at the head of
  its queue, a collaborator calls in, a timer expires, the handler of an expired
  timer runs, a message for a request arrives from either side, or a state
  object that is no longer referenced is destroyed.
\<close>

fun run_post :: "env \<Rightarrow> post \<Rightarrow> machine \<Rightarrow> machine" where
  "run_post e P_start m = preparation_start e m"
| "run_post e (P_prep_terminate ec) m = shutdown ec m"
| "run_post e (P_refresh tk ec) m = on_refresh e tk ec m"
| "run_post e (P_shutdown ec) m = shutdown ec m"
| "run_post e (P_close_both i) m = on_channel e i close_both m"
| "run_post e (P_cleanup ec) m = eff (E_cleanup ec) m"

datatype timer_id =
    T_spawn
  | T_handshake
  | T_seal
  | T_terminate
  | T_heartbeat nat
  | T_request nat

datatype holder = H_spawn | H_active | H_terminate

datatype slave_event =
    Run
  | Token token error_code
  | Ready
  | Isolate_terminated error_code
  | Data string
  | Activate
  | Inject load
  | Seal
  | Terminate error_code
  | Heartbeat nat
  | Control_terminate nat
  | Control_discard nat error_code
  | Expire timer_id
  | Fire timer_id
  | Worker nat worker_event
  | Client nat client_event
  | Destroy holder

definition t_expire :: "dtimer \<Rightarrow> dtimer" where
  "t_expire t = (if dt_armed t then t\<lparr>dt_armed := False, dt_fired := dt_fired t + 1\<rparr> else t)"

definition t_take :: "dtimer \<Rightarrow> dtimer" where
  "t_take t = t\<lparr>dt_fired := dt_fired t - 1\<rparr>"

fun get_timer :: "timer_id \<Rightarrow> machine \<Rightarrow> dtimer" where
  "get_timer T_spawn m = sp_timer m"
| "get_timer T_handshake m = hs_timer m"
| "get_timer T_seal m = se_timer m"
| "get_timer T_terminate m = te_timer m"
| "get_timer (T_heartbeat i) m = (if i < length (m_ctls m) then ct_timer (m_ctls m ! i) else new_timer)"
| "get_timer (T_request i) m = (case um_find i (m_convs m) of Some v \<Rightarrow> cv_timer v | None \<Rightarrow> new_timer)"

fun upd_timer :: "timer_id \<Rightarrow> (dtimer \<Rightarrow> dtimer) \<Rightarrow> machine \<Rightarrow> machine" where
  "upd_timer T_spawn f m = m\<lparr>sp_timer := f (sp_timer m)\<rparr>"
| "upd_timer T_handshake f m = m\<lparr>hs_timer := f (hs_timer m)\<rparr>"
| "upd_timer T_seal f m = m\<lparr>se_timer := f (se_timer m)\<rparr>"
| "upd_timer T_terminate f m = m\<lparr>te_timer := f (te_timer m)\<rparr>"
| "upd_timer (T_heartbeat i) f m = upd_control i (\<lambda>c. c\<lparr>ct_timer := f (ct_timer c)\<rparr>) m"
| "upd_timer (T_request i) f m = upd_conv i (\<lambda>v. v\<lparr>cv_timer := f (cv_timer v)\<rparr>) m"

fun on_timeout :: "env \<Rightarrow> timer_id \<Rightarrow> machine \<Rightarrow> machine" where
  "on_timeout e T_spawn m = spawn_on_timeout m"
| "on_timeout e T_handshake m = handshaking_on_timeout m"
| "on_timeout e T_seal m = seal_on_timeout e m"
| "on_timeout e T_terminate m = terminate_on_timeout m"
| "on_timeout e (T_heartbeat i) m = control_on_timeout m"
| "on_timeout e (T_request i) m = request_discard e i m"

fun destroy :: "holder \<Rightarrow> machine \<Rightarrow> machine option" where
  "destroy H_spawn m =
     (if m_state m \<noteq> Spawning \<and> \<not> t_live (sp_timer m) \<and> \<not> sp_handle m then Some (spawn_dtor m) else None)"
| "destroy H_active m = (if m_state m \<noteq> Active then Some (active_dtor m) else None)"
| "destroy H_terminate m =
     (if m_state m \<noteq> Terminating \<and> \<not> t_live (te_timer m) \<and> te_control m \<noteq> None
      then Some (terminate_dtor m) else None)"

fun slave_event_step :: "env \<Rightarrow> slave_event \<Rightarrow> machine \<Rightarrow> machine option" where
  "slave_event_step e Run m =
     (case m_posted m of [] \<Rightarrow> None | p # ps \<Rightarrow> Some (run_post e p (m\<lparr>m_posted := ps\<rparr>)))"
| "slave_event_step e (Token tk ec) m = (if m_token m then Some (preparation_token tk ec m) else None)"
| "slave_event_step e Ready m = (if sp_handle m then Some (handle_on_ready m) else None)"
| "slave_event_step e (Isolate_terminated ec) m = Some (handle_on_terminate ec m)"
| "slave_event_step e (Data x) m = Some (machine_output x m)"
| "slave_event_step e Activate m = (case machine_activate m of Inl _ \<Rightarrow> Some m | Inr (_, m') \<Rightarrow> Some m')"
| "slave_event_step e (Inject ld) m =
     (if cd_state (ld_dispatch ld) \<noteq> C_bound then Some (snd (inject e ld m)) else None)"
| "slave_event_step e Seal m = (case machine_seal e m of Inl _ \<Rightarrow> Some m | Inr m' \<Rightarrow> Some m')"
| "slave_event_step e (Terminate ec) m = Some (machine_terminate e ec m)"
| "slave_event_step e (Heartbeat i) m = (if i < length (m_ctls m) then Some (on_heartbeat i m) else None)"
| "slave_event_step e (Control_terminate i) m =
     (if i < length (m_ctls m) then Some (control_on_terminate m) else None)"
| "slave_event_step e (Control_discard i ec) m =
     (if i < length (m_ctls m) then Some (control_discard i ec m) else None)"
| "slave_event_step e (Expire t) m =
     (if dt_armed (get_timer t m) then Some (upd_timer t t_expire m) else None)"
| "slave_event_step e (Fire t) m =
     (if 0 < dt_fired (get_timer t m) then Some (on_timeout e t (upd_timer t t_take m)) else None)"
| "slave_event_step e (Worker i x) m = Some (on_worker e i (worker_step x) m)"
| "slave_event_step e (Client i x) m = Some (on_client e i (client_step x) m)"
| "slave_event_step e (Destroy h) m = destroy h m"

definition slave_step :: "env \<Rightarrow> slave_event \<Rightarrow> machine \<Rightarrow> machine option" where
  "slave_step e ev m = (if m_fault m then None else slave_event_step e ev m)"

fun slave_run :: "(env \<times> slave_event) list \<Rightarrow> machine \<Rightarrow> machine option" where
  "slave_run [] m = Some m"
| "slave_run ((e, ev) # es) m = (case slave_step e ev m of None \<Rightarrow> None | Some m' \<Rightarrow> slave_run es m')"

inductive slave_reachable :: "machine \<Rightarrow> bool" where
  slave_init: "slave_reachable (start (new_machine i mf pr))"
| slave_next: "slave_reachable m \<Longrightarrow> slave_step e ev m = Some m' \<Longrightarrow> slave_reachable m'"

section \<open>How often the cleanup handler is scheduled\<close>

fun is_cleanup_post :: "post \<Rightarrow> bool" where
  "is_cleanup_post (P_cleanup _) = True"
| "is_cleanup_post _ = False"

fun is_cleanup_effect :: "effect \<Rightarrow> bool" where
  "is_cleanup_effect (E_cleanup _) = True"
| "is_cleanup_effect _ = False"

text \<open>Cleanup calls made so far and those waiting in the event loop.\<close>

definition cleanups :: "machine \<Rightarrow> nat" where
  "cleanups m = length (filter is_cleanup_post (m_posted m)) + length (filter is_cleanup_effect (m_log m))"

definition budget :: "machine \<Rightarrow> nat" where
  "budget m = cleanups m + (if m_shutdowned m \<or> m_closed m then 0 else 1)"

text \<open>The relation every operation respects: no operation gains budget or reopens the machine.\<close>

definition settles :: "machine \<Rightarrow> machine \<Rightarrow> bool" where
  "settles m m' \<longleftrightarrow> budget m' \<le> budget m \<and> (m_closed m \<longrightarrow> m_closed m') \<and>
     (m_shutdowned m \<longrightarrow> m_shutdowned m')"

definition adm :: "machine \<Rightarrow> bool \<times> bool \<times> nat" where
  "adm m = (m_closed m, m_shutdowned m, cleanups m)"

lemma settles_refl [simp]: "settles m m"
  by (simp add: settles_def)

lemma settles_trans: "settles m m' \<Longrightarrow> settles m' m'' \<Longrightarrow> settles m m''"
  by (auto simp: settles_def)

lemma settles_adm: "adm m' = adm m \<Longrightarrow> settles m m'"
  by (simp add: settles_def adm_def budget_def)

lemma settles_cong: "adm a = adm a' \<Longrightarrow> adm b = adm b' \<Longrightarrow> settles a b \<longleftrightarrow> settles a' b'"
  by (simp add: settles_def adm_def budget_def)

lemmas adm_defs = adm_def cleanups_def post_m_def eff_def fault_def migrate_def upd_conv_def
  erase_timers_def upd_control_def

lemma adm_basic [simp]:
  "adm (fault m) = adm m" "adm (migrate s m) = adm m"
  "adm (upd_conv i g m) = adm m" "adm (erase_timers ids m) = adm m" "adm (upd_control i h m) = adm m"
  "\<not> is_cleanup_post p \<Longrightarrow> adm (post_m p m) = adm m"
  "\<not> is_cleanup_effect x \<Longrightarrow> adm (eff x m) = adm m"
  by (simp_all add: adm_defs)

lemma adm_fields [simp]:
  "adm (m\<lparr>m_state := a1\<rparr>) = adm m" "adm (m\<lparr>m_counter := a2\<rparr>) = adm m" "adm (m\<lparr>m_channels := a3\<rparr>) = adm m"
  "adm (m\<lparr>m_timers := a4\<rparr>) = adm m" "adm (m\<lparr>m_convs := a5\<rparr>) = adm m" "adm (m\<lparr>m_ctls := a6\<rparr>) = adm m"
  "adm (m\<lparr>sp_timer := a7\<rparr>) = adm m" "adm (m\<lparr>hs_timer := a7\<rparr>) = adm m" "adm (m\<lparr>se_timer := a7\<rparr>) = adm m"
  "adm (m\<lparr>te_timer := a7\<rparr>) = adm m" "adm (m\<lparr>sp_control := a8\<rparr>) = adm m" "adm (m\<lparr>ac_control := a8\<rparr>) = adm m"
  "adm (m\<lparr>se_control := a8\<rparr>) = adm m" "adm (m\<lparr>te_control := a8\<rparr>) = adm m" "adm (m\<lparr>sp_handshaking := b\<rparr>) = adm m"
  "adm (m\<lparr>sp_handle := b\<rparr>) = adm m" "adm (m\<lparr>m_token := b\<rparr>) = adm m" "adm (m\<lparr>m_output := a9\<rparr>) = adm m"
  by (simp_all add: adm_defs)

lemma adm_state_cancel [simp]: "adm (state_cancel s m) = adm m"
  by (cases s) simp_all

lemma adm_dump [simp]: "adm (dump m) = adm m"
  by (simp add: dump_def Let_def case_prod_beta)

lemma adm_fold_post: "adm (fold (\<lambda>i. post_m (P_close_both i)) is m) = adm m"
  by (induction "is" arbitrary: m) simp_all

lemma adm_drop_sessions [simp]: "adm (drop_sessions m) = adm m"
  by (simp add: drop_sessions_def adm_fold_post)

lemma shutdown_shutdowned [simp]: "m_shutdowned (shutdown ec m)"
proof (cases "m_shutdowned m")
  case False
  let ?m = "m\<lparr>m_shutdowned := True\<rparr>"
  have "\<And>a. adm a = adm ?m \<Longrightarrow> m_shutdowned a \<and> m_shutdowned (post_m p a)" for p
    by (simp add: adm_def post_m_def)
  then show ?thesis using False by (simp add: shutdown_def Let_def)
qed (simp add: shutdown_def)

lemma settles_shutdown: "settles m (shutdown ec m)"
proof (cases "m_shutdowned m")
  case False
  let ?m = "m\<lparr>m_shutdowned := True\<rparr>"
  have "settles m a \<and> (\<not> m_closed a \<longrightarrow> settles m (post_m (P_cleanup ec') a))"
    if "adm a = adm ?m" for a ec'
    using that False by (auto simp: settles_def budget_def adm_def cleanups_def post_m_def)
  then show ?thesis using False by (auto simp: shutdown_def Let_def)
qed (simp add: shutdown_def)

lemma settles_shutdown_via: "adm m' = adm m \<Longrightarrow> settles m (shutdown ec m')"
  using settles_cong [of m m' "shutdown ec m'" "shutdown ec m'"] settles_shutdown by simp

lemma settles_eff_via: "\<not> is_cleanup_effect x \<Longrightarrow> settles m m' \<Longrightarrow> settles m (eff x m')"
  using settles_cong [of m m "eff x m'" m'] by simp

lemma settles_control_terminate: "adm m' = adm m \<Longrightarrow> settles m (control_terminate e p ec m')"
  by (auto simp: control_terminate_def split: option.splits intro: settles_adm settles_shutdown_via)

lemma settles_seal_terminate: "adm m' = adm m \<Longrightarrow> settles m (seal_terminate e ec m')"
  by (simp add: seal_terminate_def terminate_start_def Let_def settles_control_terminate)

lemma settles_active_terminate: "adm m' = adm m \<Longrightarrow> settles m (active_terminate e ec m')"
  by (simp add: active_terminate_def terminate_start_def Let_def settles_control_terminate)

lemma settles_state_terminate: "adm m' = adm m \<Longrightarrow> settles m (state_terminate e ec m')"
  by (auto simp: state_terminate_def split: state.splits
      intro: settles_adm settles_shutdown_via settles_seal_terminate settles_active_terminate)

lemma settles_machine_terminate: "settles m (machine_terminate e ec m)"
proof -
  have "settles m (m\<lparr>m_closed := True\<rparr>)"
    by (auto simp: settles_def budget_def cleanups_def)
  then show ?thesis
    using settles_trans settles_state_terminate by (fastforce simp: machine_terminate_def)
qed

lemma settles_revoke: "adm m' = adm m \<Longrightarrow> settles m (revoke e i m')"
  unfolding revoke_def Let_def
  by (intro settles_eff_via) (auto intro: settles_adm settles_state_terminate)

lemma settles_on_channel: "adm m' = adm m \<Longrightarrow> settles m (on_channel e i f m')"
  by (auto simp: on_channel_def Let_def split: option.splits prod.splits intro: settles_adm settles_revoke)

lemma settles_callbacks:
  "adm m' = adm m \<Longrightarrow> settles m (worker_callback e i ec m')"
  "adm m' = adm m \<Longrightarrow> settles m (client_callback e i ec m')"
  by (simp_all add: worker_callback_def client_callback_def settles_on_channel)

lemma settles_on_worker: "adm m' = adm m \<Longrightarrow> settles m (on_worker e i f m')"
  by (auto simp: on_worker_def Let_def split: option.splits prod.splits intro: settles_adm settles_callbacks)

lemma settles_on_client: "adm m' = adm m \<Longrightarrow> settles m (on_client e i f m')"
  by (auto simp: on_client_def Let_def split: option.splits prod.splits intro: settles_adm settles_callbacks)

lemma settles_request_discard: "adm m' = adm m \<Longrightarrow> settles m (request_discard e i m')"
  unfolding request_discard_def Let_def
  by (rule settles_trans [OF settles_on_client settles_on_worker]) simp_all

lemma settles_inject: "settles m (snd (inject e ld m))"
proof (cases "m_state m = Active \<and> e_fork_ok e \<and> e_invoke_ok e")
  case True
  define i where "i = m_counter m + 1"
  define a where "a = inject_admit e ld i (eff (E_invoke i (ev_name (ld_event ld))) (m\<lparr>m_counter := i\<rparr>))"
  define b where "b = inject_timer e ld i a"
  define c where "c = inject_attach e i b"
  have "adm a = adm m" by (simp add: a_def inject_admit_def Let_def)
  then have "settles m b"
    by (auto simp: b_def inject_timer_def Let_def intro: settles_adm settles_request_discard)
  moreover have "settles b c"
    by (auto simp: c_def inject_attach_def Let_def split: option.splits intro: settles_adm settles_callbacks)
  moreover have "settles c (on_channel e i watch c)" by (simp add: settles_on_channel)
  moreover have "snd (inject e ld m) = on_channel e i watch c"
    using True by (simp add: inject_def Let_def a_def b_def c_def i_def)
  ultimately show ?thesis by (metis settles_trans)
qed (auto simp: inject_def Let_def split: state.splits intro: settles_adm)

lemma settles_add_control: "adm (snd (add_control m)) = adm m"
  by (simp add: add_control_def)

lemma adm_activation [simp]:
  "adm (handshaking_to_active i m) = adm m"
  "adm (snd (handshaking_activate m)) = adm m"
  "adm (snd (spawn_activate m)) = adm m"
  by (simp_all add: handshaking_to_active_def control_start_def handshaking_activate_def
      spawn_activate_def add_control_def t_cancel_def Let_def)

lemma adm_on_spawn [simp]: "adm (on_spawn m) = adm m"
  by (simp add: on_spawn_def t_cancel_def Let_def handshaking_start_def split: option.splits)

lemma settles_spawn: "adm m' = adm m \<Longrightarrow> settles m (spawn e tk m')"
  by (auto simp: spawn_def split: option.splits list.splits isolate_result.splits
      intro: settles_adm settles_shutdown_via)

lemma settles_run_post:
  assumes "m_posted m = p # ps"
  shows "settles m (run_post e p (m\<lparr>m_posted := ps\<rparr>))"
proof (cases "is_cleanup_post p")
  case True
  then show ?thesis using assms
    by (cases p) (auto simp: settles_def budget_def cleanups_def eff_def)
next
  case False
  then have adm: "adm (m\<lparr>m_posted := ps\<rparr>) = adm m"
    using assms by (simp add: adm_def cleanups_def)
  with False show ?thesis
    by (cases p) (auto simp: preparation_start_def on_refresh_def
        intro: settles_adm settles_shutdown_via settles_spawn settles_on_channel)
qed

lemma adm_upd_timer [simp]: "adm (upd_timer t f m) = adm m"
  by (cases t) simp_all

lemma settles_on_timeout: "adm m' = adm m \<Longrightarrow> settles m (on_timeout e t m')"
  by (cases t) (simp_all add: spawn_on_timeout_def handshaking_on_timeout_def seal_on_timeout_def
      terminate_on_timeout_def control_on_timeout_def settles_shutdown_via settles_seal_terminate
      settles_request_discard)

lemma settles_seal: "machine_seal e m = Inr m' \<Longrightarrow> settles m m'"
  by (auto simp: machine_seal_def active_seal_def seal_start_def Let_def settles_adm
      settles_seal_terminate split: state.splits)

lemma adm_destroy: "destroy h m = Some m' \<Longrightarrow> adm m' = adm m"
  by (cases h) (auto simp: spawn_dtor_def active_dtor_def terminate_dtor_def control_cancel_def
      split: option.splits if_splits)

lemma settles_activate: "machine_activate m = Inr r \<Longrightarrow> settles m (snd r)"
  by (auto simp: machine_activate_def split: state.splits intro: settles_adm)

theorem settles_step: "slave_step e ev m = Some m' \<Longrightarrow> settles m m'"
proof (cases ev)
  case Activate
  then show "slave_step e ev m = Some m' \<Longrightarrow> settles m m'"
    using settles_activate [of m] by (auto simp: slave_step_def split: sum.splits if_splits)
qed (auto simp: slave_step_def preparation_token_def handle_on_ready_def handle_on_terminate_def
    machine_output_def on_heartbeat_def control_on_terminate_def control_discard_def
    settles_inject settles_machine_terminate
    split: if_splits list.splits sum.splits
    intro: settles_adm settles_run_post settles_shutdown_via settles_seal settles_on_timeout
      settles_on_worker settles_on_client adm_destroy)

lemma settles_run: "slave_run es m = Some m' \<Longrightarrow> settles m m'"
proof (induction es arbitrary: m)
  case (Cons x es)
  then show ?case
    by (cases x) (auto split: option.splits dest: settles_step intro: settles_trans)
qed simp

lemma reachable_budget: "slave_reachable m \<Longrightarrow> budget m \<le> 1"
proof (induction rule: slave_reachable.induct)
  case (slave_init i mf pr)
  then show ?case
    by (simp add: start_def new_machine_def budget_def cleanups_def post_m_def migrate_def)
next
  case (slave_next m e ev m')
  then show ?case using settles_step [of e ev m m'] by (simp add: settles_def)
qed

text \<open>
  C7:
  Whatever happens to a slave and in whatever order, the engine's cleanup
  handler is scheduled at most once over its whole life; and once the slave has
  been terminated from outside before it was shut down, it is never scheduled
  at all.
\<close>

theorem cleanup_at_most_once:
  assumes "slave_reachable m" and "slave_run es m = Some m'"
  shows "cleanups m' \<le> 1 \<and> (m_closed m \<and> \<not> m_shutdowned m \<and> cleanups m = 0 \<longrightarrow> cleanups m' = 0)"
  using reachable_budget [OF assms(1)] settles_run [OF assms(2)]
  by (auto simp: settles_def budget_def split: if_splits)

section \<open>The life of a slave\<close>

fun is_prep_post :: "post \<Rightarrow> bool" where
  "is_prep_post P_start = True"
| "is_prep_post (P_prep_terminate _) = True"
| "is_prep_post (P_refresh _ _) = True"
| "is_prep_post _ = False"

fun is_shutdown_post :: "post \<Rightarrow> bool" where
  "is_shutdown_post (P_shutdown _) = True"
| "is_shutdown_post _ = False"

definition preps :: "machine \<Rightarrow> nat" where
  "preps m = (if m_token m then 1 else 0) + length (filter is_prep_post (m_posted m))"

definition pending_shutdown :: "machine \<Rightarrow> bool" where
  "pending_shutdown m \<longleftrightarrow> list_ex is_shutdown_post (m_posted m)"

text \<open>A control channel that is open, and one whose heartbeat watchdog runs.\<close>

definition ctl_open :: "machine \<Rightarrow> nat \<Rightarrow> bool" where
  "ctl_open m i \<longleftrightarrow> i < length (m_ctls m) \<and> \<not> ct_closed (m_ctls m ! i)"

definition ctl_beating :: "machine \<Rightarrow> nat \<Rightarrow> bool" where
  "ctl_beating m i \<longleftrightarrow> ctl_open m i \<and> t_live (ct_timer (m_ctls m ! i))"

text \<open>
  What guards each state of a slave that has not been shut down: the pending
  token work, the timer of the state or the shutdown already posted, and the
  heartbeat of the control channel the active state owns.
\<close>

fun guarded :: "state \<Rightarrow> machine \<Rightarrow> bool" where
  "guarded Null m = False"
| "guarded Preparation m \<longleftrightarrow> preps m = 1"
| "guarded Spawning m \<longleftrightarrow> t_live (sp_timer m) \<or> pending_shutdown m"
| "guarded Handshaking m \<longleftrightarrow> t_live (hs_timer m)"
| "guarded Active m \<longleftrightarrow> (case ac_control m of None \<Rightarrow> False | Some i \<Rightarrow> ctl_beating m i)"
| "guarded Sealing m \<longleftrightarrow> t_live (se_timer m)"
| "guarded Terminating m \<longleftrightarrow> t_live (te_timer m)"
| "guarded (Inactive _) m = False"

text \<open>Pending work and ownership of the control channel agree with the state.\<close>

definition owned :: "machine \<Rightarrow> bool" where
  "owned m \<longleftrightarrow>
     (m_state m \<noteq> Preparation \<longrightarrow> preps m = 0) \<and>
     (dt_armed (sp_timer m) \<longrightarrow> m_state m = Spawning) \<and>
     (dt_armed (hs_timer m) \<longrightarrow> m_state m = Handshaking) \<and>
     (dt_armed (se_timer m) \<longrightarrow> m_state m = Sealing) \<and>
     (dt_armed (te_timer m) \<longrightarrow> m_state m = Terminating) \<and>
     (0 < dt_fired (se_timer m) \<longrightarrow> m_state m = Sealing \<or> m_state m = Terminating) \<and>
     (m_state m = Preparation \<or> m_state m = Spawning \<longrightarrow> \<not> sp_handshaking m) \<and>
     (case sp_control m of None \<Rightarrow> True | Some i \<Rightarrow> m_state m = Spawning \<and> ctl_open m i) \<and>
     (ac_control m \<noteq> None \<longleftrightarrow> m_state m = Active) \<and>
     (se_control m \<noteq> None \<longleftrightarrow> m_state m = Sealing) \<and>
     (te_control m \<noteq> None \<longleftrightarrow> m_state m = Terminating)"

definition life_ok :: "machine \<Rightarrow> bool" where
  "life_ok m \<longleftrightarrow> (\<not> m_fault m \<and> \<not> m_shutdowned m \<longrightarrow> guarded (m_state m) m \<and> owned m)"

text \<open>The fields these depend on.\<close>

definition life :: "machine \<Rightarrow> _" where
  "life m = ((m_state m, m_shutdowned m, m_fault m, m_ctls m),
     (sp_timer m, sp_control m, sp_handshaking m, sp_handle m), (hs_timer m, ac_control m),
     (se_timer m, se_control m, te_timer m, te_control m), (preps m, pending_shutdown m))"

lemma life_ok_cong:
  assumes "life m' = life m"
  shows "life_ok m' \<longleftrightarrow> life_ok m"
proof -
  have eqs: "m_state m' = m_state m" "m_shutdowned m' = m_shutdowned m" "m_fault m' = m_fault m"
    "m_ctls m' = m_ctls m" "sp_timer m' = sp_timer m" "sp_control m' = sp_control m"
    "sp_handshaking m' = sp_handshaking m" "hs_timer m' = hs_timer m" "ac_control m' = ac_control m"
    "se_timer m' = se_timer m" "se_control m' = se_control m" "te_timer m' = te_timer m"
    "te_control m' = te_control m" "preps m' = preps m" "pending_shutdown m' = pending_shutdown m"
    using assms by (simp_all add: life_def)
  then have "ctl_open m' = ctl_open m" "ctl_beating m' = ctl_beating m"
    by (simp_all add: ctl_open_def ctl_beating_def fun_eq_iff)
  with eqs show ?thesis
    by (cases "m_state m") (simp_all add: life_ok_def owned_def cong: option.case_cong)
qed

lemma life_ok_shutdowned [simp]: "m_shutdowned m \<Longrightarrow> life_ok m"
  by (simp add: life_ok_def)

lemma life_ok_fault [simp]: "m_fault m \<Longrightarrow> life_ok m"
  by (simp add: life_ok_def)

lemmas life_defs = life_def preps_def pending_shutdown_def upd_conv_def erase_timers_def eff_def

lemma life_frames [simp]:
  "life (upd_conv i f m) = life m" "life (erase_timers ids m) = life m" "life (eff x m) = life m"
  "life (m\<lparr>m_counter := a\<rparr>) = life m" "life (m\<lparr>m_channels := b\<rparr>) = life m"
  "life (m\<lparr>m_timers := b\<rparr>) = life m" "life (m\<lparr>m_convs := c\<rparr>) = life m"
  "life (m\<lparr>m_output := d\<rparr>) = life m" "life (m\<lparr>m_closed := g\<rparr>) = life m"
  by (simp_all add: life_defs)

lemma life_run_post:
  "m_posted m = p # ps \<Longrightarrow> \<not> is_prep_post p \<Longrightarrow> \<not> is_shutdown_post p \<Longrightarrow> life (m\<lparr>m_posted := ps\<rparr>) = life m"
  by (simp add: life_defs)

fun rank :: "state \<Rightarrow> nat" where
  "rank Null = 0"
| "rank Preparation = 1"
| "rank Spawning = 2"
| "rank Handshaking = 3"
| "rank Active = 4"
| "rank Sealing = 5"
| "rank Terminating = 6"
| "rank (Inactive _) = 7"

lemma rank_le_7 [simp]: "rank s \<le> 7"
  by (cases s) simp_all

definition adv :: "machine \<Rightarrow> machine \<Rightarrow> bool" where
  "adv m m' \<longleftrightarrow> life_ok m' \<and> rank (m_state m) \<le> rank (m_state m')"

lemma adv_trans: "adv m m' \<Longrightarrow> adv m' m'' \<Longrightarrow> adv m m''"
  by (simp add: adv_def)

lemma adv_life_ok: "adv m m' \<Longrightarrow> life_ok m'"
  by (simp add: adv_def)

lemma adv_cong: "life m' = life m \<Longrightarrow> adv a m' \<longleftrightarrow> adv a m"
  using life_ok_cong [of m' m] by (simp add: adv_def life_def)

lemma adv_frames [simp]:
  "adv a (upd_conv i f m) = adv a m" "adv a (erase_timers ids m) = adv a m" "adv a (eff x m) = adv a m"
  "adv a (m\<lparr>m_channels := b\<rparr>) = adv a m" "adv a (m\<lparr>m_closed := g\<rparr>) = adv a m"
  by (rule adv_cong, simp)+

lemma adv_fault: "rank (m_state m) \<le> rank (m_state m') \<Longrightarrow> adv m (fault m')"
  by (simp add: adv_def fault_def)

lemma adv_frame: "life_ok m \<Longrightarrow> life m' = life m \<Longrightarrow> adv m m'"
  using life_ok_cong [of m' m] by (simp add: adv_def life_def)

lemma state_posts [simp]:
  "m_state (post_m p m) = m_state m" "m_state (eff x m) = m_state m"
  "m_state (erase_timers ids m) = m_state m" "m_state (dump m) = m_state m"
  "m_state (drop_sessions m) = m_state m" "m_state (state_cancel s m) = m_state m"
  "m_state (migrate s m) = s"
proof -
  have "m_state (fold (\<lambda>i. post_m (P_close_both i)) is m) = m_state m" for "is"
    by (induction "is" arbitrary: m) (simp_all add: post_m_def)
  then show "m_state (drop_sessions m) = m_state m" by (simp add: drop_sessions_def)
  show "m_state (state_cancel s m) = m_state m" by (cases s) simp_all
qed (simp_all add: post_m_def eff_def erase_timers_def dump_def migrate_def Let_def case_prod_beta)

lemma shutdown_state:
  "m_state (shutdown ec m) =
     (if m_shutdowned m then m_state m
      else Inactive (if state_terminating (m_state m) then no_error else ec))"
  by (simp add: shutdown_def Let_def)

lemma adv_shutdown: "rank (m_state m) \<le> rank (m_state m') \<Longrightarrow> adv m (shutdown ec m')"
  by (simp add: adv_def shutdown_state)

lemmas timer_defs = t_arm_def t_cancel_def t_live_def t_expire_def t_take_def new_timer_def

lemma owned_cong:
  assumes "life m' = life m"
  shows "owned m' \<longleftrightarrow> owned m"
proof -
  have "ctl_open m' = ctl_open m"
    using assms by (simp add: life_def ctl_open_def fun_eq_iff)
  then show ?thesis
    using assms by (simp add: life_def owned_def cong: option.case_cong)
qed

lemma life_ok_owned: "life_ok m \<Longrightarrow> \<not> m_fault m \<Longrightarrow> \<not> m_shutdowned m \<Longrightarrow> owned m"
  by (simp add: life_ok_def)

lemma life_more_frames [simp]:
  "preps (m\<lparr>sp_timer := t1\<rparr>) = preps m" "preps (m\<lparr>hs_timer := t1\<rparr>) = preps m"
  "preps (m\<lparr>se_timer := t1\<rparr>) = preps m" "preps (m\<lparr>te_timer := t1\<rparr>) = preps m"
  "preps (m\<lparr>sp_control := c1\<rparr>) = preps m" "preps (m\<lparr>ac_control := c1\<rparr>) = preps m"
  "preps (m\<lparr>se_control := c1\<rparr>) = preps m" "preps (m\<lparr>te_control := c1\<rparr>) = preps m"
  "preps (m\<lparr>m_state := s\<rparr>) = preps m" "preps (m\<lparr>m_ctls := cs\<rparr>) = preps m"
  "preps (m\<lparr>sp_handshaking := b\<rparr>) = preps m" "preps (m\<lparr>sp_handle := b\<rparr>) = preps m"
  "preps (m\<lparr>m_log := l\<rparr>) = preps m"
  "pending_shutdown (m\<lparr>sp_timer := t1\<rparr>) = pending_shutdown m" "pending_shutdown (m\<lparr>m_ctls := cs\<rparr>) = pending_shutdown m"
  "pending_shutdown (m\<lparr>sp_control := c1\<rparr>) = pending_shutdown m"
  "pending_shutdown (m\<lparr>m_state := s\<rparr>) = pending_shutdown m" "pending_shutdown (m\<lparr>sp_handle := b\<rparr>) = pending_shutdown m"
  "ctl_open (m\<lparr>sp_timer := t1\<rparr>) = ctl_open m" "ctl_open (m\<lparr>hs_timer := t1\<rparr>) = ctl_open m"
  "ctl_open (m\<lparr>se_timer := t1\<rparr>) = ctl_open m" "ctl_open (m\<lparr>te_timer := t1\<rparr>) = ctl_open m"
  "ctl_open (m\<lparr>sp_control := c1\<rparr>) = ctl_open m" "ctl_open (m\<lparr>ac_control := c1\<rparr>) = ctl_open m"
  "ctl_open (m\<lparr>se_control := c1\<rparr>) = ctl_open m" "ctl_open (m\<lparr>te_control := c1\<rparr>) = ctl_open m"
  "ctl_open (m\<lparr>m_state := s\<rparr>) = ctl_open m" "ctl_open (m\<lparr>sp_handshaking := b\<rparr>) = ctl_open m"
  "ctl_open (m\<lparr>sp_handle := b\<rparr>) = ctl_open m" "ctl_open (m\<lparr>m_log := l\<rparr>) = ctl_open m"
  "ctl_open (m\<lparr>m_token := b\<rparr>) = ctl_open m" "ctl_open (m\<lparr>m_posted := ps\<rparr>) = ctl_open m"
  by (simp_all add: preps_def pending_shutdown_def ctl_open_def fun_eq_iff)

lemma seal_terminate_adv:
  assumes "m_state m = Sealing" and "\<not> m_fault m \<Longrightarrow> \<not> m_shutdowned m \<Longrightarrow> owned m"
  shows "adv m (seal_terminate e ec m)"
proof -
  define a where "a = (migrate Terminating ((state_cancel Sealing m)\<lparr>te_control := se_control m, se_control := None\<rparr>))
      \<lparr>te_timer := t_arm (te_timer m)\<rparr>"
  have step: "seal_terminate e ec m = control_terminate e (se_control m) ec a"
    by (simp add: seal_terminate_def terminate_start_def a_def migrate_def Let_def)
  have rank: "rank (m_state m) \<le> rank (m_state a)" using assms(1) by (simp add: a_def)
  have "life_ok a" if "se_control m \<noteq> None"
    using that assms by (fastforce simp: life_ok_def a_def owned_def timer_defs migrate_def split: option.splits)
  then have "adv m a" if "se_control m \<noteq> None" using that rank by (simp add: adv_def)
  then show ?thesis
    unfolding step control_terminate_def
    using rank by (auto simp: adv_shutdown adv_fault split: option.splits)
qed

lemma active_terminate_adv:
  assumes "m_state m = Active" and "life_ok m"
  shows "adv m (active_terminate e ec m)"
proof -
  define a where "a = (migrate Terminating (m\<lparr>te_control := ac_control m, ac_control := None\<rparr>))
      \<lparr>te_timer := t_arm (te_timer m)\<rparr>"
  have step: "active_terminate e ec m = control_terminate e (ac_control m) ec a"
    by (simp add: active_terminate_def terminate_start_def a_def migrate_def Let_def)
  have rank: "rank (m_state m) \<le> rank (m_state a)" using assms(1) by (simp add: a_def)
  have "life_ok a" if "ac_control m \<noteq> None"
    using that assms by (auto simp: life_ok_def a_def owned_def timer_defs migrate_def split: option.splits)
  then have "adv m a" if "ac_control m \<noteq> None" using that rank by (simp add: adv_def)
  then show ?thesis
    unfolding step control_terminate_def
    using rank by (auto simp: adv_shutdown adv_fault split: option.splits)
qed

lemma state_terminate_adv:
  assumes "life_ok m"
  shows "adv m (state_terminate e ec m)"
proof (cases "m_state m")
  case Null
  then show ?thesis by (simp add: state_terminate_def adv_def fault_def)
next
  case Sealing
  then show ?thesis
    using assms life_ok_owned by (simp add: state_terminate_def seal_terminate_adv)
qed (use assms in \<open>simp_all add: state_terminate_def adv_shutdown active_terminate_adv adv_frame\<close>)

lemma machine_terminate_adv: "life_ok m \<Longrightarrow> adv m (machine_terminate e ec m)"
proof -
  assume ok: "life_ok m"
  let ?m = "m\<lparr>m_closed := True\<rparr>"
  have "adv m ?m" using ok by (simp add: adv_frame)
  moreover from this have "adv ?m (state_terminate e ec ?m)"
    by (simp add: adv_life_ok state_terminate_adv)
  ultimately show ?thesis
    using ok adv_trans [of m ?m "state_terminate e ec ?m"] by (simp add: machine_terminate_def adv_frame)
qed

lemma revoke_adv: "life_ok m \<Longrightarrow> adv m (revoke e i m)"
proof -
  assume ok: "life_ok m"
  let ?a = "erase_timers [i] (m\<lparr>m_channels := filter (\<lambda>j. j \<noteq> i) (m_channels m)\<rparr>)"
  have a: "adv m ?a" using ok by (simp add: adv_frame)
  then have "adv m (state_terminate e ec ?a)" for ec
    using adv_trans [OF a state_terminate_adv] adv_life_ok by simp
  with a show ?thesis by (simp add: revoke_def Let_def)
qed

lemma adv_after_conv:
  assumes "life_ok m" "\<And>m'. life_ok m' \<Longrightarrow> adv m' (op m')"
  shows "adv m (op (upd_conv i g m))"
proof (rule adv_trans)
  show "adv m (upd_conv i g m)" using assms(1) by (simp only: adv_frame life_frames)
  then show "adv (upd_conv i g m) (op (upd_conv i g m))" by (rule assms(2) [OF adv_life_ok])
qed

lemma on_channel_adv: "life_ok m \<Longrightarrow> adv m (on_channel e i f m)"
  by (auto simp: on_channel_def Let_def adv_frame split: option.splits prod.splits
      intro: adv_after_conv revoke_adv)

lemma callbacks_adv:
  "life_ok m \<Longrightarrow> adv m (worker_callback e i ec m)" "life_ok m \<Longrightarrow> adv m (client_callback e i ec m)"
  by (simp_all add: worker_callback_def client_callback_def on_channel_adv)

lemma on_worker_adv: "life_ok m \<Longrightarrow> adv m (on_worker e i f m)"
  by (auto simp: on_worker_def Let_def adv_frame split: option.splits prod.splits
      intro!: adv_after_conv callbacks_adv)

lemma on_client_adv: "life_ok m \<Longrightarrow> adv m (on_client e i f m)"
  by (auto simp: on_client_def Let_def adv_frame split: option.splits prod.splits
      intro!: adv_after_conv callbacks_adv)

lemma request_discard_adv: "life_ok m \<Longrightarrow> adv m (request_discard e i m)"
  unfolding request_discard_def Let_def
  using on_client_adv on_worker_adv adv_trans adv_life_ok by blast

lemma inject_attach_adv: "life_ok m \<Longrightarrow> adv m (inject_attach e i m)"
  by (auto simp: inject_attach_def Let_def adv_frame adv_fault split: option.splits
      intro: adv_after_conv callbacks_adv)

lemma inject_adv:
  assumes "life_ok m"
  shows "adv m (snd (inject e ld m))"
proof (cases "m_state m = Active \<and> e_fork_ok e \<and> e_invoke_ok e")
  case True
  define i where "i = m_counter m + 1"
  define a where "a = inject_admit e ld i (eff (E_invoke i (ev_name (ld_event ld))) (m\<lparr>m_counter := i\<rparr>))"
  have a: "adv m a" using assms by (simp add: a_def inject_admit_def Let_def adv_frame)
  have b: "adv a (inject_timer e ld i a)"
    using adv_life_ok [OF a] by (auto simp: inject_timer_def Let_def adv_frame request_discard_adv)
  note c = inject_attach_adv [OF adv_life_ok [OF b], of e i]
  have "snd (inject e ld m) = on_channel e i watch (inject_attach e i (inject_timer e ld i a))"
    using True by (simp add: inject_def Let_def a_def i_def)
  then show ?thesis
    using adv_trans [OF a adv_trans [OF b adv_trans [OF c on_channel_adv [OF adv_life_ok [OF c]]]]] by simp
qed (use assms in \<open>auto simp: inject_def Let_def adv_frame split: state.splits\<close>)

lemma active_seal_adv:
  assumes "life_ok m" "m_state m = Active"
  shows "adv m (active_seal e m)"
proof -
  define a where "a = migrate Sealing (m\<lparr>se_control := ac_control m, ac_control := None\<rparr>)"
  have a: "m_state a = Sealing" "m_fault a = m_fault m" "m_shutdowned a = m_shutdowned m"
    by (simp_all add: a_def migrate_def)
  have owned: "owned a" if "\<not> m_fault m" "\<not> m_shutdowned m"
    using that assms by (auto simp: life_ok_def a_def owned_def migrate_def split: option.splits)
  have "adv a (seal_terminate e ec a)" for ec
    by (rule seal_terminate_adv) (use owned a in simp_all)
  then have "adv m (seal_terminate e ec a)" for ec
    using assms(2) a by (fastforce simp: adv_def)
  moreover have "adv m (a\<lparr>se_timer := t_arm (se_timer a)\<rparr>)"
    using owned a assms(2) by (auto simp: adv_def life_ok_def owned_def timer_defs cong: option.case_cong)
  ultimately show ?thesis
    by (simp add: active_seal_def seal_start_def a_def Let_def)
qed

lemma machine_seal_adv: "life_ok m \<Longrightarrow> machine_seal e m = Inr m' \<Longrightarrow> adv m m'"
  by (auto simp: machine_seal_def active_seal_adv split: state.splits)

text \<open>
  Operations that belong to one state move the machine forward unless it has
  been shut down before.
\<close>

definition fwd :: "machine \<Rightarrow> machine \<Rightarrow> bool" where
  "fwd m m' \<longleftrightarrow> life_ok m' \<and> (\<not> m_shutdowned m \<longrightarrow> rank (m_state m) \<le> rank (m_state m'))"

lemma adv_fwd: "adv m m' \<Longrightarrow> fwd m m'"
  by (simp add: adv_def fwd_def)

lemma fwd_shutdown: "(\<not> m_shutdowned m \<Longrightarrow> rank (m_state m) \<le> rank (m_state m')) \<Longrightarrow> fwd m (shutdown ec m')"
  by (simp add: fwd_def shutdown_state)

lemma ctl_open_nth_append [simp]:
  "ctl_open (m\<lparr>m_ctls := m_ctls m @ cs\<rparr>) i \<longleftrightarrow>
     ctl_open m i \<or> (length (m_ctls m) \<le> i \<and> i < length (m_ctls m) + length cs \<and> \<not> ct_closed (cs ! (i - length (m_ctls m))))"
  by (auto simp: ctl_open_def nth_append)

lemma to_active_beating:
  "ctl_open m i \<Longrightarrow> ctl_beating (handshaking_to_active i m) i"
  by (simp add: ctl_beating_def ctl_open_def handshaking_to_active_def control_start_def upd_control_def
      migrate_def timer_defs)

lemma to_active_fields [simp]:
  "m_state (handshaking_to_active i m) = Active" "m_shutdowned (handshaking_to_active i m) = m_shutdowned m"
  "m_fault (handshaking_to_active i m) = m_fault m" "ac_control (handshaking_to_active i m) = Some i"
  "sp_timer (handshaking_to_active i m) = sp_timer m" "hs_timer (handshaking_to_active i m) = hs_timer m"
  "se_timer (handshaking_to_active i m) = se_timer m" "te_timer (handshaking_to_active i m) = te_timer m"
  "sp_control (handshaking_to_active i m) = sp_control m" "se_control (handshaking_to_active i m) = se_control m"
  "te_control (handshaking_to_active i m) = te_control m" "sp_handshaking (handshaking_to_active i m) = sp_handshaking m"
  "preps (handshaking_to_active i m) = preps m"
  by (simp_all add: handshaking_to_active_def control_start_def upd_control_def migrate_def)

lemma handshaking_activate_fwd:
  assumes "life_ok m" "\<not> m_fault m" "m_state m = Handshaking"
  shows "fwd m (snd (handshaking_activate m))"
proof (cases "m_shutdowned m")
  case True
  then show ?thesis by (auto simp: fwd_def handshaking_activate_def add_control_def Let_def t_cancel_def)
next
  case False
  have own: "owned m" "t_live (hs_timer m)" using assms False by (simp_all add: life_ok_def)
  show ?thesis
  proof (cases "dt_armed (hs_timer m)")
    case True
    let ?a = "m\<lparr>hs_timer := fst (t_cancel (hs_timer m)), m_ctls := m_ctls m @ [new_control]\<rparr>"
    have "ctl_open ?a (length (m_ctls m))" by (simp add: ctl_open_def new_control_def)
    then show ?thesis
      using own assms True to_active_beating [of ?a "length (m_ctls m)"]
      by (auto simp: fwd_def life_ok_def handshaking_activate_def add_control_def Let_def t_cancel_def
          owned_def split: option.splits)
  next
    case False
    then show ?thesis
      using own assms
      by (auto simp: fwd_def life_ok_def handshaking_activate_def Let_def t_cancel_def owned_def t_live_def
          split: option.splits)
  qed
qed

lemma ctl_open_cong: "m_ctls m' = m_ctls m \<Longrightarrow> ctl_open m' = ctl_open m"
  by (simp add: ctl_open_def fun_eq_iff)

lemma spawn_activate_fwd:
  assumes "life_ok m" "\<not> m_fault m" "m_state m = Spawning"
  shows "fwd m (snd (spawn_activate m))"
proof (cases "m_shutdowned m")
  case True
  then show ?thesis
    by (auto simp: fwd_def spawn_activate_def handshaking_activate_def add_control_def Let_def t_cancel_def)
next
  case False
  then have "guarded Spawning m" "owned m" using assms by (simp_all add: life_ok_def)
  then show ?thesis
    using assms
    by (simp add: fwd_def life_ok_def spawn_activate_def add_control_def Let_def owned_def new_control_def)
qed

lemma machine_activate_fwd:
  "life_ok m \<Longrightarrow> \<not> m_fault m \<Longrightarrow> machine_activate m = Inr r \<Longrightarrow> fwd m (snd r)"
  by (auto simp: machine_activate_def split: state.splits
      intro: spawn_activate_fwd handshaking_activate_fwd)

lemma on_spawn_fwd:
  assumes "life_ok m" "\<not> m_fault m"
  shows "fwd m (on_spawn m)"
proof (cases "m_shutdowned m")
  case True
  then show ?thesis
    by (auto simp: fwd_def on_spawn_def Let_def t_cancel_def handshaking_start_def migrate_def split: option.splits)
next
  case False
  then have own: "guarded (m_state m) m" "owned m" using assms by (simp_all add: life_ok_def)
  show ?thesis
  proof (cases "dt_armed (sp_timer m)")
    case armed: True
    then have st: "m_state m = Spawning" using own by (simp add: owned_def)
    define a where "a = (m\<lparr>sp_timer := fst (t_cancel (sp_timer m)), sp_handshaking := True, m_state := Handshaking\<rparr>)"
    have on_spawn: "on_spawn m = (case sp_control m of
        Some i \<Rightarrow> handshaking_to_active i (a\<lparr>sp_control := None\<rparr>) | None \<Rightarrow> handshaking_start a)"
      using armed by (simp add: on_spawn_def a_def Let_def t_cancel_def migrate_def split: option.split)
    show ?thesis
    proof (cases "sp_control m")
      case None
      then show ?thesis
        using own st armed unfolding on_spawn
        by (auto simp: fwd_def life_ok_def a_def handshaking_start_def owned_def timer_defs)
    next
      case (Some i)
      then have "ctl_open (a\<lparr>sp_control := None\<rparr>) i" using own by (simp add: owned_def a_def)
      then show ?thesis
        using own st armed Some to_active_beating unfolding on_spawn
        by (auto simp: fwd_def life_ok_def a_def owned_def timer_defs)
    qed
  next
    case unarmed: False
    then show ?thesis
      using own by (cases "m_state m") (auto simp: fwd_def life_ok_def on_spawn_def Let_def t_cancel_def
          owned_def t_live_def ctl_beating_def ctl_open_def split: option.splits)
  qed
qed

lemma spawn_fwd:
  assumes "\<not> m_fault m" "\<not> m_shutdowned m \<Longrightarrow> owned m \<and> m_state m = Spawning"
  shows "fwd m (spawn e tk m)"
proof (cases "m_shutdowned m")
  case True
  then show ?thesis
    using settles_spawn [of m m e tk] by (auto simp: fwd_def settles_def)
next
  case False
  then have "owned m" "m_state m = Spawning" using assms(2) by simp_all
  then show ?thesis
    by (auto simp: spawn_def owned_def fwd_def life_ok_def eff_def post_m_def timer_defs preps_def
        pending_shutdown_def shutdown_state ctl_open_def
        split: option.splits list.splits isolate_result.splits)
qed

lemma on_refresh_fwd:
  assumes "life_ok m" "\<not> m_fault m" "m_posted m = P_refresh tk ec # ps"
  shows "fwd m (on_refresh e tk ec (m\<lparr>m_posted := ps\<rparr>))"
proof -
  let ?m = "migrate Spawning (m\<lparr>m_posted := ps\<rparr>)"
  have m: "m_fault ?m = m_fault m" "m_shutdowned ?m = m_shutdowned m" by (simp_all add: migrate_def)
  have own: "owned ?m \<and> m_state m = Preparation" if "\<not> m_shutdowned m"
  proof -
    from that have own: "owned m" "guarded (m_state m) m" using assms by (simp_all add: life_ok_def)
    then have "m_state m = Preparation" "preps m = 1" using assms(3) by (auto simp: owned_def preps_def)
    then show ?thesis
      using own assms(3) by (auto simp: owned_def preps_def migrate_def split: option.splits if_splits)
  qed
  have "fwd ?m (spawn e tk ?m)" by (rule spawn_fwd) (use own m assms(2) in simp_all)
  then have "fwd m (spawn e tk ?m)" using own m by (force simp: fwd_def)
  then show ?thesis by (simp add: on_refresh_def fwd_shutdown)
qed

lemma preparation_start_fwd:
  assumes "life_ok m" "\<not> m_fault m" "m_posted m = P_start # ps"
  shows "fwd m (preparation_start e (m\<lparr>m_posted := ps\<rparr>))"
proof (cases "m_shutdowned m")
  case True
  then show ?thesis by (auto simp: fwd_def preparation_start_def eff_def post_m_def)
next
  case False
  then have own: "owned m" "guarded (m_state m) m" using assms by (simp_all add: life_ok_def)
  then have "m_state m = Preparation" "preps m = 1" using assms(3) by (auto simp: owned_def preps_def)
  then show ?thesis
    using own assms(3)
    by (auto simp: fwd_def life_ok_def preparation_start_def eff_def post_m_def owned_def preps_def
        split: option.splits if_splits)
qed

lemma run_post_fwd:
  assumes "life_ok m" "\<not> m_fault m" "m_posted m = p # ps"
  shows "fwd m (run_post e p (m\<lparr>m_posted := ps\<rparr>))"
proof (cases p)
  case (P_close_both i)
  then have life: "life (m\<lparr>m_posted := ps\<rparr>) = life m" using assms(3) life_run_post by simp
  then have "adv m (m\<lparr>m_posted := ps\<rparr>)" using assms(1) by (simp add: adv_frame)
  then have "adv m (on_channel e i close_both (m\<lparr>m_posted := ps\<rparr>))"
    using adv_trans on_channel_adv adv_life_ok by blast
  then show ?thesis using P_close_both by (simp add: adv_fwd)
next
  case (P_cleanup ec)
  then have "life (m\<lparr>m_posted := ps\<rparr>) = life m" using assms(3) life_run_post by simp
  then show ?thesis using P_cleanup assms(1) by (simp add: adv_fwd adv_frame)
qed (use assms preparation_start_fwd on_refresh_fwd in \<open>simp_all add: fwd_shutdown\<close>)

lemma upd_control_frames [simp]:
  "m_state (upd_control i f m) = m_state m" "m_shutdowned (upd_control i f m) = m_shutdowned m"
  "m_fault (upd_control i f m) = m_fault m" "sp_timer (upd_control i f m) = sp_timer m"
  "hs_timer (upd_control i f m) = hs_timer m" "se_timer (upd_control i f m) = se_timer m"
  "te_timer (upd_control i f m) = te_timer m" "sp_control (upd_control i f m) = sp_control m"
  "ac_control (upd_control i f m) = ac_control m" "se_control (upd_control i f m) = se_control m"
  "te_control (upd_control i f m) = te_control m" "sp_handshaking (upd_control i f m) = sp_handshaking m"
  "preps (upd_control i f m) = preps m" "pending_shutdown (upd_control i f m) = pending_shutdown m"
  by (simp_all add: upd_control_def)

lemma upd_control_ctls:
  assumes "\<And>c. ct_closed (f c) = ct_closed c"
  shows "ctl_open (upd_control i f m) = ctl_open m"
    and "(\<And>c. t_live (ct_timer c) \<Longrightarrow> t_live (ct_timer (f c))) \<Longrightarrow>
           ctl_beating m j \<Longrightarrow> ctl_beating (upd_control i f m) j"
  using assms by (auto simp: ctl_open_def ctl_beating_def upd_control_def fun_eq_iff nth_list_update)

lemma upd_control_adv:
  assumes "life_ok m" "\<And>c. ct_closed (f c) = ct_closed c"
    "\<And>c. t_live (ct_timer c) \<Longrightarrow> t_live (ct_timer (f c))"
  shows "adv m (upd_control i f m)"
proof -
  have "guarded (m_state m) (upd_control i f m)" if "guarded (m_state m) m"
    using that upd_control_ctls [of f, OF assms(2)] assms(3)
    by (cases "m_state m") (auto split: option.splits)
  then show ?thesis
    using assms(1) upd_control_ctls(1) [of f, OF assms(2)]
    by (auto simp: adv_def life_ok_def owned_def cong: option.case_cong)
qed

lemma expire_fwd:
  assumes "life_ok m" "\<not> m_fault m"
  shows "fwd m (upd_timer t t_expire m)"
proof (cases t)
  case (T_heartbeat i)
  have "t_live (t_expire x)" if "t_live x" for x using that by (auto simp: timer_defs)
  then show ?thesis
    using T_heartbeat upd_control_adv [OF assms(1), of "\<lambda>c. c\<lparr>ct_timer := t_expire (ct_timer c)\<rparr>" i]
    by (simp add: adv_fwd)
next
  case (T_request i)
  then show ?thesis using assms by (simp add: adv_fwd adv_frame)
qed (use assms in \<open>cases "m_state m"; force simp: fwd_def life_ok_def owned_def timer_defs ctl_beating_def
    ctl_open_def split: option.splits\<close>)+

lemma take_seal_owned:
  assumes "life_ok m" "\<not> m_fault m" "\<not> m_shutdowned m"
  shows "owned (m\<lparr>se_timer := t_take (se_timer m)\<rparr>)"
  using assms by (auto simp: life_ok_def owned_def timer_defs split: option.splits)

lemma seal_timeout_fwd:
  assumes "life_ok m" "\<not> m_fault m" "0 < dt_fired (se_timer m)"
  shows "fwd m (seal_on_timeout e (m\<lparr>se_timer := t_take (se_timer m)\<rparr>))"
proof -
  let ?m = "m\<lparr>se_timer := t_take (se_timer m)\<rparr>"
  consider "m_shutdowned m" | "\<not> m_shutdowned m" "m_state m = Sealing"
    | "\<not> m_shutdowned m" "m_state m = Terminating" "se_control m = None"
    using assms by (auto simp: life_ok_def owned_def)
  then show ?thesis
  proof cases
    case 1
    then show ?thesis
      using settles_seal_terminate [of ?m m] by (auto simp: fwd_def seal_on_timeout_def settles_def)
  next
    case 2
    then have "adv ?m (seal_on_timeout e ?m)"
      using seal_terminate_adv take_seal_owned [OF assms(1,2)] by (simp add: seal_on_timeout_def)
    then show ?thesis by (simp add: adv_def fwd_def)
  next
    case 3
    then show ?thesis
      by (simp add: fwd_def seal_on_timeout_def seal_terminate_def terminate_start_def control_terminate_def
          fault_def migrate_def Let_def)
  qed
qed

lemma fire_fwd:
  assumes "life_ok m" "\<not> m_fault m" "0 < dt_fired (get_timer t m)"
  shows "fwd m (on_timeout e t (upd_timer t t_take m))"
proof (cases t)
  case T_seal
  then show ?thesis using assms seal_timeout_fwd by simp
next
  case (T_request i)
  have "adv m (request_discard e i (upd_conv i g m))" for g
    using assms(1) by (rule adv_after_conv) (rule request_discard_adv)
  then show ?thesis using T_request by (simp add: adv_fwd)
qed (simp_all add: spawn_on_timeout_def handshaking_on_timeout_def terminate_on_timeout_def
      control_on_timeout_def fwd_shutdown)

lemma destroy_fwd:
  assumes "life_ok m" "\<not> m_fault m" "destroy h m = Some m'"
  shows "fwd m m'"
proof (cases "m_shutdowned m")
  case True
  then have "m_shutdowned m'" using adm_destroy [OF assms(3)] by (simp add: adm_def)
  then show ?thesis using True by (simp add: fwd_def)
next
  case False
  then have "owned m" using assms life_ok_owned by simp
  then have "m' = m"
    using assms(3) by (cases h) (auto simp: owned_def spawn_dtor_def active_dtor_def split: if_splits option.splits)
  then show ?thesis using assms(1) by (simp add: fwd_def)
qed

lemma ready_fwd:
  assumes "life_ok m" "\<not> m_fault m"
  shows "fwd m ((on_spawn m)\<lparr>sp_handle := False\<rparr>)"
proof -
  have "life_ok (a\<lparr>sp_handle := False\<rparr>) \<longleftrightarrow> life_ok a" for a
    by (cases "m_state a") (auto simp: life_ok_def owned_def preps_def pending_shutdown_def ctl_beating_def
        ctl_open_def split: option.splits)
  then show ?thesis using on_spawn_fwd [OF assms] by (simp add: fwd_def)
qed

lemma token_fwd:
  assumes "life_ok m" "m_token m"
  shows "fwd m (preparation_token tk ec m)"
  using assms by (cases "m_state m") (auto simp: fwd_def life_ok_def preparation_token_def post_m_def owned_def
      preps_def pending_shutdown_def ctl_beating_def ctl_open_def split: option.splits)

theorem slave_step_fwd: "life_ok m \<Longrightarrow> slave_step e ev m = Some m' \<Longrightarrow> fwd m m'"
proof (cases ev)
  case Activate
  assume "life_ok m" "slave_step e ev m = Some m'"
  then show "fwd m m'"
    using Activate machine_activate_fwd [of m]
    by (auto simp: slave_step_def adv_fwd adv_frame split: sum.splits if_splits)
next
  case Seal
  assume "life_ok m" "slave_step e ev m = Some m'"
  then show "fwd m m'"
    using Seal machine_seal_adv [of m e] by (auto simp: slave_step_def adv_fwd adv_frame split: sum.splits if_splits)
next
  case (Heartbeat i)
  assume "life_ok m" "slave_step e ev m = Some m'"
  then show "fwd m m'"
    using Heartbeat upd_control_adv [of m "\<lambda>c. c\<lparr>ct_timer := t_arm (ct_timer c)\<rparr>" i]
    by (auto simp: slave_step_def on_heartbeat_def adv_fwd adv_frame timer_defs split: if_splits)
qed (auto simp: slave_step_def handle_on_ready_def handle_on_terminate_def machine_output_def
    control_on_terminate_def control_discard_def run_post_fwd token_fwd ready_fwd fwd_shutdown
    adv_fwd adv_frame inject_adv machine_terminate_adv expire_fwd fire_fwd on_worker_adv on_client_adv
    split: if_splits list.splits dest: destroy_fwd)

lemma reachable_life_ok: "slave_reachable m \<Longrightarrow> life_ok m"
proof (induction rule: slave_reachable.induct)
  case (slave_init i mf pr)
  then show ?case
    by (simp add: start_def new_machine_def life_ok_def owned_def post_m_def migrate_def preps_def new_timer_def)
next
  case (slave_next m e ev m')
  then show ?case using slave_step_fwd by (simp add: fwd_def)
qed

text \<open>
  C1:
  A slave that has not been shut down is never left without something that will
  move it on: while preparing exactly one token request, answer or failure is
  pending; while spawning the spawn timer runs or its shutdown is posted; while
  handshaking, sealing or terminating the timer of that state runs; while active
  the heartbeat timer of its open control channel runs.
\<close>

theorem slave_watchdog:
  assumes "slave_reachable m" and "\<not> m_fault m" and "\<not> m_shutdowned m"
  shows "guarded (m_state m) m"
  using reachable_life_ok [OF assms(1)] assms(2,3) by (simp add: life_ok_def)

text \<open>
  Until it is shut down, a slave only moves forward through null, preparation,
  spawning, handshaking, active, sealing, terminating and inactive, whatever
  happens to it, late timer handlers and late callbacks included.
\<close>

theorem slave_forward_only:
  assumes "slave_reachable m" and "slave_step e ev m = Some m'" and "\<not> m_shutdowned m"
  shows "rank (m_state m) \<le> rank (m_state m')"
  using slave_step_fwd [OF reachable_life_ok [OF assms(1)] assms(2)] assms(3) by (simp add: fwd_def)

section \<open>Accounting of requests\<close>

definition chans :: "machine \<Rightarrow> (nat, channel) umap" where
  "chans m = map (\<lambda>(k, v). (k, cv_channel v)) (m_convs m)"

text \<open>
  Every admitted request is in the load, or its handler has been called, or its
  close is posted; what is in the load has an open side.  The requests in \<open>X\<close>
  are being admitted or revoked.
\<close>

definition accounted :: "machine \<Rightarrow> nat \<Rightarrow> bool" where
  "accounted m k \<longleftrightarrow> k \<in> set (m_channels m) \<or> E_handler k \<in> set (m_log m) \<or> P_close_both k \<in> set (m_posted m)"

definition req_inv :: "nat set \<Rightarrow> machine \<Rightarrow> bool" where
  "req_inv X m \<longleftrightarrow>
     distinct (um_keys (chans m)) \<and> distinct (m_channels m) \<and>
     set (m_channels m) \<subseteq> set (um_keys (chans m)) \<and>
     (\<forall>k \<in> set (um_keys (chans m)). k \<le> m_counter m) \<and>
     (\<forall>(k, c) \<in> set (chans m). ch_ok c \<and>
        (k \<notin> X \<longrightarrow> accounted m k \<and> ch_watched c \<and> (k \<in> set (m_channels m) \<longrightarrow> \<not> ch_closed c)))"

definition seal_inv :: "machine \<Rightarrow> bool" where
  "seal_inv m \<longleftrightarrow> m_fault m \<or> m_state m \<noteq> Sealing \<or> m_channels m \<noteq> []"

definition keeps :: "machine \<Rightarrow> machine \<Rightarrow> bool" where
  "keeps m m' \<longleftrightarrow> chans m' = chans m \<and> m_channels m' = m_channels m \<and> m_counter m' = m_counter m \<and>
     (\<forall>k. P_close_both k \<in> set (m_posted m) \<longrightarrow> P_close_both k \<in> set (m_posted m')) \<and>
     (\<forall>k. E_handler k \<in> set (m_log m) \<longrightarrow> E_handler k \<in> set (m_log m'))"

lemma keeps_req_inv: "keeps m m' \<Longrightarrow> req_inv X m \<Longrightarrow> req_inv X m'"
  by (auto simp: keeps_def req_inv_def accounted_def)

lemma keeps_refl [simp]: "keeps m m"
  by (simp add: keeps_def)

lemma keeps_trans: "keeps m m' \<Longrightarrow> keeps m' m'' \<Longrightarrow> keeps m m''"
  by (simp add: keeps_def)

lemma chans_frames [simp]:
  "(\<And>v. cv_channel (f v) = cv_channel v) \<Longrightarrow> chans (upd_conv i f m) = chans m"
  "chans (erase_timers ids m) = chans m"
  by (auto simp: chans_def upd_conv_def erase_timers_def)

lemma chans_more_frames [simp]:
  "chans (eff x m) = chans m" "chans (post_m p m) = chans m" "chans (m\<lparr>m_channels := cs\<rparr>) = chans m"
  "chans (m\<lparr>m_posted := ps\<rparr>) = chans m" "chans (m\<lparr>m_counter := n\<rparr>) = chans m"
  "chans (m\<lparr>m_timers := cs\<rparr>) = chans m" "chans (m\<lparr>m_log := lg\<rparr>) = chans m"
  by (simp_all add: chans_def eff_def post_m_def)

lemma chans_upd_channel:
  "chans (upd_conv i (\<lambda>v. v\<lparr>cv_channel := c\<rparr>) m) = map (\<lambda>(k, x). (k, if k = i then c else x)) (chans m)"
  by (auto simp: chans_def upd_conv_def)

lemma chans_find: "um_find i (chans m) = map_option cv_channel (um_find i (m_convs m))"
proof -
  have "um_find i (map (\<lambda>(k, v). (k, cv_channel v)) vs) = map_option cv_channel (um_find i vs)" for vs
    by (induction vs) (auto split: prod.splits)
  then show ?thesis by (simp add: chans_def)
qed

lemmas keep_defs = keeps_def eff_def post_m_def fault_def migrate_def upd_control_def chans_def

lemma keeps_eff [simp]: "keeps m (eff x m') = keeps m m'" if "\<And>k. x \<noteq> E_handler k"
  using that by (auto simp: keep_defs)

lemma keeps_basic [simp]:
  "keeps m (eff x m)" "keeps m (post_m p m)" "keeps m (fault m)" "keeps m (migrate s m)" "keeps m (upd_control i f m)"
  "keeps m (m\<lparr>sp_timer := t1\<rparr>)" "keeps m (m\<lparr>hs_timer := t1\<rparr>)" "keeps m (m\<lparr>se_timer := t1\<rparr>)"
  "keeps m (m\<lparr>te_timer := t1\<rparr>)" "keeps m (m\<lparr>sp_handle := b\<rparr>)" "keeps m (m\<lparr>m_closed := b\<rparr>)"
  "keeps m (m\<lparr>m_token := b\<rparr>)" "keeps m (m\<lparr>m_output := out\<rparr>)"
  by (simp_all add: keep_defs)

lemma keeps_state_cancel [simp]: "keeps m (state_cancel s m)"
  by (cases s) simp_all

lemma fold_post_fields:
  "chans (fold (\<lambda>i. post_m (P_close_both i)) is m) = chans m"
  "m_counter (fold (\<lambda>i. post_m (P_close_both i)) is m) = m_counter m"
  "m_log (fold (\<lambda>i. post_m (P_close_both i)) is m) = m_log m"
  "m_posted (fold (\<lambda>i. post_m (P_close_both i)) is m) = m_posted m @ map P_close_both is"
  by (induction "is" arbitrary: m) (simp_all add: post_m_def chans_def)

lemma drop_sessions_req_inv: "req_inv X m \<Longrightarrow> req_inv X (drop_sessions m)"
  by (auto simp: drop_sessions_def req_inv_def accounted_def fold_post_fields)

lemma erase_timers_keeps [simp]: "keeps m (erase_timers ids m)"
  by (simp add: keeps_def) (simp add: erase_timers_def)

lemma dump_keeps [simp]: "keeps m (dump m)"
  by (simp add: dump_def Let_def case_prod_beta)

lemma req_inv_basic [inv_intros]:
  "req_inv X m \<Longrightarrow> req_inv X (post_m p m)" "req_inv X m \<Longrightarrow> req_inv X (erase_timers ids m)"
  "req_inv X m \<Longrightarrow> req_inv X (dump m)" "req_inv X m \<Longrightarrow> req_inv X (migrate s m)"
  "req_inv X m \<Longrightarrow> req_inv X (state_cancel s m)" "req_inv X m \<Longrightarrow> req_inv X (eff x m)"
  "req_inv X m \<Longrightarrow> req_inv X (fault m)" "req_inv X m \<Longrightarrow> req_inv X (upd_control i f m)"
  by (erule keeps_req_inv [rotated]; simp)+

lemma req_inv_fields [simp]:
  "req_inv X (m\<lparr>m_shutdowned := b\<rparr>) = req_inv X m" "req_inv X (m\<lparr>m_closed := b\<rparr>) = req_inv X m"
  "req_inv X (m\<lparr>sp_timer := t\<rparr>) = req_inv X m" "req_inv X (m\<lparr>hs_timer := t\<rparr>) = req_inv X m"
  "req_inv X (m\<lparr>se_timer := t\<rparr>) = req_inv X m" "req_inv X (m\<lparr>te_timer := t\<rparr>) = req_inv X m"
  "req_inv X (m\<lparr>sp_control := c\<rparr>) = req_inv X m" "req_inv X (m\<lparr>ac_control := c\<rparr>) = req_inv X m"
  "req_inv X (m\<lparr>se_control := c\<rparr>) = req_inv X m" "req_inv X (m\<lparr>te_control := c\<rparr>) = req_inv X m"
  "req_inv X (m\<lparr>sp_handle := b\<rparr>) = req_inv X m" "req_inv X (m\<lparr>sp_handshaking := b\<rparr>) = req_inv X m"
  "req_inv X (m\<lparr>m_token := b\<rparr>) = req_inv X m" "req_inv X (m\<lparr>m_output := out\<rparr>) = req_inv X m"
  "req_inv X (m\<lparr>m_ctls := cs\<rparr>) = req_inv X m" "req_inv X (m\<lparr>m_timers := ts\<rparr>) = req_inv X m"
  by (simp_all add: req_inv_def accounted_def chans_def)

lemma shutdown_req_inv [inv_intros]: "req_inv X m \<Longrightarrow> req_inv X (shutdown ec m)"
  by (simp add: shutdown_def Let_def inv_intros drop_sessions_req_inv)

lemma terminate_start_req_inv [inv_intros]: "req_inv X m \<Longrightarrow> req_inv X (terminate_start e ec m)"
  by (auto simp: terminate_start_def control_terminate_def inv_intros split: option.splits)

lemma state_terminate_req_inv [inv_intros]: "req_inv X m \<Longrightarrow> req_inv X (state_terminate e ec m)"
  by (auto simp: state_terminate_def active_terminate_def seal_terminate_def Let_def inv_intros
      split: state.splits)

lemma chans_shutdown [simp]: "chans (shutdown ec m) = chans m"
proof -
  have eqs: "chans (post_m p a) = chans a" "chans (dump a) = chans a" "chans (migrate s a) = chans a"
      "chans (state_cancel s a) = chans a" "chans (drop_sessions a) = chans a" for p a s
    using keeps_basic(2) [of a p] dump_keeps [of a] keeps_basic(4) [of a s] keeps_state_cancel [of a s]
    by (simp_all add: keeps_def drop_sessions_def fold_post_fields)
  then show ?thesis by (simp add: shutdown_def Let_def) (simp add: chans_def)
qed

lemma channels_frames [simp]:
  "m_channels (post_m p m) = m_channels m" "m_channels (eff x m) = m_channels m"
  "m_channels (migrate s m) = m_channels m" "m_channels (state_cancel s m) = m_channels m"
  "m_channels (fault m) = m_channels m" "m_channels (drop_sessions m) = []"
  "m_channels (erase_timers ids m) = m_channels m" "m_channels (upd_conv i f m) = m_channels m"
  "m_channels (upd_control i g m) = m_channels m"
  by (cases s; simp add: post_m_def eff_def migrate_def fault_def drop_sessions_def erase_timers_def upd_conv_def
      upd_control_def)+

lemma channels_shutdown [simp]:
  "m_channels (shutdown ec m) = (if m_shutdowned m then m_channels m else [])"
  by (simp add: shutdown_def Let_def)

lemma control_terminate_shrinks:
  "chans (control_terminate e p ec m) = chans m"
  "x \<in> set (m_channels (control_terminate e p ec m)) \<Longrightarrow> x \<in> set (m_channels m)"
  by (auto simp: control_terminate_def split: option.splits if_splits) (auto simp: keep_defs)

lemma state_terminate_shrinks:
  "chans (state_terminate e ec m) = chans m"
  "x \<in> set (m_channels (state_terminate e ec m)) \<Longrightarrow> x \<in> set (m_channels m)"
  by (auto simp: state_terminate_def active_terminate_def seal_terminate_def terminate_start_def Let_def
      control_terminate_shrinks(1) split: state.splits if_splits dest!: control_terminate_shrinks(2))
     (auto simp: keep_defs)

lemma req_inv_mono: "X \<subseteq> Y \<Longrightarrow> req_inv X m \<Longrightarrow> req_inv Y m"
  unfolding req_inv_def by blast

lemma erase_channel_req_inv:
  "req_inv X m \<Longrightarrow> req_inv (insert i X) (m\<lparr>m_channels := filter (\<lambda>j. j \<noteq> i) (m_channels m)\<rparr>)"
  by (auto simp: req_inv_def accounted_def chans_def)

lemma handled_req_inv:
  assumes "req_inv (insert i X) m" "i \<notin> set (m_channels m)" "\<forall>c. (i, c) \<in> set (chans m) \<longrightarrow> ch_watched c"
  shows "req_inv (X - {i}) (eff (E_handler i) m)"
  using assms by (auto simp: req_inv_def accounted_def) (auto simp: eff_def)

lemma revoke_req_inv:
  assumes "req_inv X m" "\<forall>c. (i, c) \<in> set (chans m) \<longrightarrow> ch_watched c"
  shows "req_inv (X - {i}) (revoke e i m)"
proof -
  define a where "a = erase_timers [i] (m\<lparr>m_channels := filter (\<lambda>j. j \<noteq> i) (m_channels m)\<rparr>)"
  define b where "b = (if state_sealing (m_state a) \<and> m_channels a = []
      then state_terminate e (make_error_code Slave_is_sealing) a else a)"
  have a: "req_inv (insert i X) a" "chans a = chans m" "i \<notin> set (m_channels a)"
    using erase_channel_req_inv [OF assms(1)] by (simp_all add: a_def inv_intros)
  then have "req_inv (insert i X) b" "chans b = chans m" "i \<notin> set (m_channels b)"
    by (auto simp: b_def inv_intros state_terminate_shrinks(1) dest: state_terminate_shrinks(2))
  then have "req_inv (X - {i}) (eff (E_handler i) b)"
    using assms(2) by (simp add: handled_req_inv)
  then show ?thesis unfolding revoke_def Let_def a_def [symmetric] b_def [symmetric] .
qed

lemma upd_channel_req_inv:
  assumes "req_inv X m" "ch_ok c" "i \<notin> X \<Longrightarrow> ch_watched c \<and> \<not> ch_closed c"
  shows "req_inv X (upd_conv i (\<lambda>v. v\<lparr>cv_channel := c\<rparr>) m)"
proof -
  let ?g = "\<lambda>(k, x). (k, if k = i then c else x)"
  have keys: "um_keys (map ?g xs) = um_keys xs" for xs by (induction xs) (auto simp: um_keys_def)
  have "accounted (upd_conv i (\<lambda>v. v\<lparr>cv_channel := c\<rparr>) m) k = accounted m k" for k
    by (simp add: accounted_def) (simp add: upd_conv_def)
  moreover have "m_counter (upd_conv i (\<lambda>v. v\<lparr>cv_channel := c\<rparr>) m) = m_counter m"
    by (simp add: upd_conv_def)
  ultimately show ?thesis
    using assms by (auto simp: req_inv_def chans_upd_channel keys split: if_splits)
qed

lemma chans_upd_watched:
  "ch_watched c \<Longrightarrow> \<forall>c'. (i, c') \<in> set (chans (upd_conv i (\<lambda>v. v\<lparr>cv_channel := c\<rparr>) m)) \<longrightarrow> ch_watched c'"
  by (auto simp: chans_upd_channel)

lemma on_channel_close_req_inv [inv_intros]:
  assumes "req_inv X m"
  shows "req_inv X (on_channel e i (close_step x) m)"
proof (cases "um_find i (m_convs m)")
  case (Some v)
  let ?c = "fst (close_step x (cv_channel v))"
  let ?m = "upd_conv i (\<lambda>v. v\<lparr>cv_channel := ?c\<rparr>) m"
  have ch: "(i, cv_channel v) \<in> set (chans m)"
    using Some um_find_SomeD [of i "chans m"] by (simp add: chans_find)
  then have ok: "ch_ok ?c" "i \<notin> X \<Longrightarrow> ch_watched ?c"
    using assms close_step_sides [of "cv_channel v" x] by (auto simp: req_inv_def)
  show ?thesis
  proof (cases "snd (close_step x (cv_channel v))")
    case True
    have "req_inv (insert i X) ?m"
      using req_inv_mono [OF _ assms, of "insert i X"] ok(1) by (intro upd_channel_req_inv) auto
    then have "req_inv (insert i X - {i}) (revoke e i ?m)"
      using True by (intro revoke_req_inv chans_upd_watched) simp_all
    then have "req_inv X (revoke e i ?m)" by (rule req_inv_mono [rotated]) blast
    then show ?thesis using True Some by (simp add: on_channel_def Let_def case_prod_beta)
  next
    case False
    then have "req_inv X ?m" using assms ok by (intro upd_channel_req_inv) auto
    then show ?thesis using False Some by (auto simp: on_channel_def Let_def case_prod_beta)
  qed
qed (simp add: on_channel_def assms)

lemma req_inv_absent:
  assumes "req_inv {i} m" "i \<notin> set (um_keys (chans m))"
  shows "req_inv {} m"
proof -
  have "k \<noteq> i" if "(k, c) \<in> set (chans m)" for k c
    using assms(2) that by (force simp: um_keys_def)
  then show ?thesis using assms(1) unfolding req_inv_def by fast
qed

lemma on_channel_watch_req_inv:
  assumes "req_inv {i} m" "accounted m i"
  shows "req_inv {} (on_channel e i watch m)"
proof (cases "um_find i (m_convs m)")
  case None
  then have "i \<notin> set (um_keys (chans m))"
    using um_find_None_iff [of i "chans m"] by (simp add: chans_find)
  then have "req_inv {} m" using assms by (simp add: req_inv_absent)
  then show ?thesis using None by (simp add: on_channel_def)
next
  case (Some v)
  let ?c = "fst (watch (cv_channel v))"
  let ?m = "upd_conv i (\<lambda>v. v\<lparr>cv_channel := ?c\<rparr>) m"
  have "(i, cv_channel v) \<in> set (chans m)"
    using Some um_find_SomeD [of i "chans m"] by (simp add: chans_find)
  then have "ch_ok (cv_channel v)" using assms(1) by (auto simp: req_inv_def)
  note c = conjunct1 [OF watch_sides [OF this]]
  have w: "ch_watched ?c" by (simp add: frame_simps)
  have closed: "ch_closed ?c = ch_closed (cv_channel v)" by (simp add: ch_closed_def watch_def)
  have m: "req_inv {i} ?m" using assms(1) c by (intro upd_channel_req_inv) auto
  show ?thesis
  proof (cases "ch_closed (cv_channel v)")
    case True
    have "req_inv ({i} - {i}) (revoke e i ?m)"
      using m w by (intro revoke_req_inv chans_upd_watched) simp_all
    then show ?thesis using True Some by (simp add: on_channel_def Let_def case_prod_beta)
  next
    case False
    have "accounted ?m i" using assms(2) by (simp add: accounted_def) (simp add: upd_conv_def)
    then have "req_inv {} ?m"
      using m w closed False unfolding req_inv_def by (auto simp: chans_upd_channel)
    then show ?thesis using False Some by (simp add: on_channel_def Let_def case_prod_beta)
  qed
qed

lemmas on_channel_closes_req_inv [inv_intros] =
  on_channel_close_req_inv [where x = Op_send, simplified]
  on_channel_close_req_inv [where x = Op_recv, simplified]
  on_channel_close_req_inv [where x = Op_both, simplified]

lemma callbacks_req_inv [inv_intros]:
  "req_inv X m \<Longrightarrow> req_inv X (worker_callback e i ec m)"
  "req_inv X m \<Longrightarrow> req_inv X (client_callback e i ec m)"
  by (simp_all add: worker_callback_def client_callback_def inv_intros)

lemma upd_conv_keeps: "(\<And>v. cv_channel (f v) = cv_channel v) \<Longrightarrow> keeps m (upd_conv i f m)"
  by (simp add: keeps_def) (simp add: upd_conv_def)

lemma upd_conv_req_inv: "(\<And>v. cv_channel (f v) = cv_channel v) \<Longrightarrow> req_inv X m \<Longrightarrow> req_inv X (upd_conv i f m)"
  using keeps_req_inv upd_conv_keeps by blast

lemma on_dispatch_req_inv [inv_intros]:
  "req_inv X m \<Longrightarrow> req_inv X (on_worker e i f m)"
  "req_inv X m \<Longrightarrow> req_inv X (on_client e i g m)"
  "req_inv X m \<Longrightarrow> req_inv X (inject_attach e i m)"
  by (auto simp: on_worker_def on_client_def inject_attach_def Let_def inv_intros upd_conv_req_inv
      split: option.splits prod.splits)

lemma request_discard_req_inv [inv_intros]: "req_inv X m \<Longrightarrow> req_inv X (request_discard e i m)"
  by (simp add: request_discard_def Let_def inv_intros)

text \<open>A request that is not watched yet is never revoked.\<close>

definition admitted :: "nat \<Rightarrow> machine \<Rightarrow> bool" where
  "admitted i m \<longleftrightarrow> i \<in> set (m_channels m) \<and> (\<forall>v. um_find i (m_convs m) = Some v \<longrightarrow> \<not> ch_watched (cv_channel v))"

lemma um_find_map_snd: "um_find k (map (\<lambda>(k, v). (k, g k v)) m) = map_option (g k) (um_find k m)"
  by (induction m) auto

lemma upd_conv_find [simp]:
  "um_find k (m_convs (upd_conv i f m)) = map_option (\<lambda>v. if k = i then f v else v) (um_find k (m_convs m))"
  using um_find_map_snd [of k "\<lambda>k v. if k = i then f v else v" "m_convs m"] by (simp add: upd_conv_def)

lemma admitted_upd: "(\<And>v. cv_channel (f v) = cv_channel v) \<Longrightarrow> admitted i m \<Longrightarrow> admitted i (upd_conv j f m)"
  by (auto simp: admitted_def)

lemma admitted_close: "admitted i m \<Longrightarrow> admitted i (on_channel e i (close_step x) m)"
  by (auto simp: admitted_def on_channel_def Let_def case_prod_beta split: option.splits)

lemma admitted_callbacks:
  "admitted i m \<Longrightarrow> admitted i (worker_callback e i ec m)" "admitted i m \<Longrightarrow> admitted i (client_callback e i ec m)"
  using admitted_close [of i m e Op_send] admitted_close [of i m e Op_recv] admitted_close [of i m e Op_both]
  by (simp_all add: worker_callback_def client_callback_def)

lemma admitted_dispatch:
  "admitted i m \<Longrightarrow> admitted i (on_worker e i f m)" "admitted i m \<Longrightarrow> admitted i (on_client e i g m)"
  "admitted i m \<Longrightarrow> admitted i (inject_attach e i m)"
  by (auto simp: on_worker_def on_client_def inject_attach_def Let_def admitted_callbacks admitted_upd
      split: option.splits prod.splits) (auto simp: admitted_def fault_def)

lemma admit_req_inv:
  assumes "req_inv {} m" "i = m_counter m + 1"
  shows "req_inv {i} (inject_admit e ld i (m\<lparr>m_counter := i\<rparr>)) \<and> admitted i (inject_admit e ld i (m\<lparr>m_counter := i\<rparr>))"
proof -
  have fresh: "i \<notin> set (um_keys (chans m))" "i \<notin> set (m_channels m)"
    using assms by (fastforce simp: req_inv_def)+
  have keys: "um_keys (chans m) = um_keys (m_convs m)" by (auto simp: chans_def um_keys_def)
  define c where "c = (new_channel i (ev_birthstamp (ld_event ld)))\<lparr>ch_into_worker := True, ch_from_worker := True\<rparr>"
  have c: "ch_ok c" "\<not> ch_watched c" by (simp_all add: c_def ch_ok_def new_channel_def)
  have "chans (inject_admit e ld i (m\<lparr>m_counter := i\<rparr>)) = chans m @ [(i, c)]"
    using fresh keys by (simp add: inject_admit_def Let_def um_insert_fresh c_def) (simp add: chans_def)
  then show ?thesis
    using assms fresh c
    by (auto simp: req_inv_def accounted_def inject_admit_def admitted_def Let_def um_keys_def c_def)
qed

lemma inject_timer_req_inv:
  "req_inv X m \<Longrightarrow> req_inv X (inject_timer e ld i m)" "admitted i m \<Longrightarrow> admitted i (inject_timer e ld i m)"
  by (simp_all add: inject_timer_def Let_def inv_intros upd_conv_req_inv admitted_upd request_discard_def
      admitted_dispatch) (auto simp: admitted_def)

lemma eff_counter: "m_counter (eff x m) = m_counter m" "eff x (m\<lparr>m_counter := n\<rparr>) = (eff x m)\<lparr>m_counter := n\<rparr>"
  by (cases m, simp add: eff_def)+

lemma inject_req_inv:
  assumes "req_inv {} m"
  shows "req_inv {} (snd (inject e ld m))"
proof (cases "m_state m = Active \<and> e_fork_ok e \<and> e_invoke_ok e")
  case True
  define i where "i = m_counter m + 1"
  let ?m = "eff (E_invoke i (ev_name (ld_event ld))) m"
  define a where "a = inject_admit e ld i (?m\<lparr>m_counter := i\<rparr>)"
  have "req_inv {i} a \<and> admitted i a"
    unfolding a_def by (rule admit_req_inv) (use assms in \<open>simp_all add: inv_intros i_def eff_counter\<close>)
  then have "req_inv {i} (inject_attach e i (inject_timer e ld i a))"
      "admitted i (inject_attach e i (inject_timer e ld i a))"
    by (simp_all add: inv_intros inject_timer_req_inv admitted_dispatch)
  then have "req_inv {} (on_channel e i watch (inject_attach e i (inject_timer e ld i a)))"
    by (intro on_channel_watch_req_inv) (simp_all add: admitted_def accounted_def)
  then show ?thesis using True by (simp add: inject_def Let_def a_def i_def eff_counter)
next
  case False
  have "req_inv {} (m\<lparr>m_counter := m_counter m + 1\<rparr>)"
    using assms by (fastforce simp: req_inv_def accounted_def)
  then show ?thesis using False by (auto simp: inject_def Let_def split: state.splits)
qed

lemma run_post_req_inv:
  assumes "req_inv {} m" "m_posted m = p # ps"
  shows "req_inv {} (run_post e p (m\<lparr>m_posted := ps\<rparr>))"
proof (cases "\<exists>i. p = P_close_both i")
  case True
  then obtain i where p: "p = P_close_both i" by blast
  let ?m = "m\<lparr>m_posted := ps\<rparr>"
  have "req_inv {i} ?m" using assms p by (auto simp: req_inv_def accounted_def)
  then have inv: "req_inv {i} (on_channel e i close_both ?m)" by (rule inv_intros)
  show ?thesis
  proof (cases "um_find i (m_convs m)")
    case None
    then have "i \<notin> set (um_keys (chans m))"
      using um_find_None_iff [of i "chans m"] by (simp add: chans_find)
    then have "req_inv {} ?m" using \<open>req_inv {i} ?m\<close> by (simp add: req_inv_absent)
    then show ?thesis using p None by (simp add: on_channel_def)
  next
    case (Some v)
    then have "(i, cv_channel v) \<in> set (chans m)"
      using um_find_SomeD [of i "chans m"] by (simp add: chans_find)
    then have v: "ch_ok (cv_channel v)" "ch_watched (cv_channel v)"
      using assms(1) by (auto simp: req_inv_def)
    let ?c = "fst (close_both (cv_channel v))"
    let ?m' = "upd_conv i (\<lambda>v. v\<lparr>cv_channel := ?c\<rparr>) ?m"
    have "req_inv {i} ?m'"
      using \<open>req_inv {i} ?m\<close> v by (intro upd_channel_req_inv) (auto simp: close_both_sides)
    then have "req_inv ({i} - {i}) (revoke e i ?m')"
      using v by (intro revoke_req_inv chans_upd_watched) (simp_all add: frame_simps)
    then show ?thesis using p Some v by (simp add: on_channel_def Let_def case_prod_beta)
  qed
next
  case False
  then have "req_inv {} (m\<lparr>m_posted := ps\<rparr>)" using assms by (auto simp: req_inv_def accounted_def)
  with False show ?thesis
    by (cases p) (auto simp: preparation_start_def on_refresh_def spawn_def inv_intros
        split: option.splits list.splits isolate_result.splits)
qed

lemma on_timeout_req_inv [inv_intros]: "req_inv X m \<Longrightarrow> req_inv X (on_timeout e t m)"
  by (cases t) (simp_all add: spawn_on_timeout_def handshaking_on_timeout_def seal_on_timeout_def
      terminate_on_timeout_def control_on_timeout_def seal_terminate_def Let_def inv_intros)

lemma upd_timer_req_inv [inv_intros]: "req_inv X m \<Longrightarrow> req_inv X (upd_timer t f m)"
  by (cases t) (simp_all add: inv_intros upd_conv_req_inv)

lemma activation_req_inv [inv_intros]:
  "req_inv X m \<Longrightarrow> req_inv X (handshaking_to_active i m)"
  "req_inv X m \<Longrightarrow> req_inv X (snd (handshaking_activate m))"
  "req_inv X m \<Longrightarrow> req_inv X (snd (spawn_activate m))"
  "req_inv X m \<Longrightarrow> req_inv X (on_spawn m)"
  by (auto simp: handshaking_to_active_def control_start_def handshaking_activate_def spawn_activate_def
      add_control_def on_spawn_def handshaking_start_def Let_def case_prod_beta inv_intros split: option.splits)

lemma machine_terminate_req_inv [inv_intros]: "req_inv X m \<Longrightarrow> req_inv X (machine_terminate e ec m)"
  by (simp add: machine_terminate_def inv_intros)

lemma machine_seal_req_inv: "req_inv X m \<Longrightarrow> machine_seal e m = Inr m' \<Longrightarrow> req_inv X m'"
  by (auto simp: machine_seal_def active_seal_def seal_start_def seal_terminate_def Let_def inv_intros
      split: state.splits)

lemma machine_activate_req_inv: "req_inv X m \<Longrightarrow> machine_activate m = Inr r \<Longrightarrow> req_inv X (snd r)"
  by (auto simp: machine_activate_def inv_intros split: state.splits)

lemma destroy_req_inv: "req_inv X m \<Longrightarrow> destroy h m = Some m' \<Longrightarrow> req_inv X m'"
  by (cases h) (auto simp: spawn_dtor_def active_dtor_def terminate_dtor_def control_cancel_def inv_intros
      split: option.splits if_splits)

theorem slave_step_req_inv: "req_inv {} m \<Longrightarrow> slave_step e ev m = Some m' \<Longrightarrow> req_inv {} m'"
proof (cases ev)
  case Activate
  assume "req_inv {} m" "slave_step e ev m = Some m'"
  then show "req_inv {} m'"
    using Activate machine_activate_req_inv [of "{}" m] by (auto simp: slave_step_def split: sum.splits if_splits)
next
  case Seal
  assume "req_inv {} m" "slave_step e ev m = Some m'"
  then show "req_inv {} m'"
    using Seal machine_seal_req_inv [of "{}" m e] by (auto simp: slave_step_def split: sum.splits if_splits)
qed (auto simp: slave_step_def preparation_token_def handle_on_ready_def handle_on_terminate_def
    machine_output_def control_on_terminate_def control_discard_def on_heartbeat_def inject_req_inv
    run_post_req_inv inv_intros split: if_splits list.splits dest: destroy_req_inv)

lemma reachable_req_inv: "slave_reachable m \<Longrightarrow> req_inv {} m"
proof (induction rule: slave_reachable.induct)
  case (slave_init i mf pr)
  then show ?case
    by (simp add: start_def new_machine_def req_inv_def chans_def um_keys_def post_m_def migrate_def)
next
  case (slave_next m e ev m')
  then show ?case using slave_step_req_inv by blast
qed

text \<open>
  C4:
  No request given to a slave is lost: in every reachable state each admitted
  request counts in the slave's load and has a side open, or its completion
  handler has been called, or the close that will call it waits in the event
  loop; and the load counts no request twice.
\<close>

theorem slave_requests_accounted:
  assumes "slave_reachable m" and "um_find k (m_convs m) = Some v"
  shows "(k \<in> set (m_channels m) \<and> \<not> ch_closed (cv_channel v) \<or> E_handler k \<in> set (m_log m) \<or>
            P_close_both k \<in> set (m_posted m)) \<and>
         machine_load m = card (set (m_channels m))"
proof -
  have "(k, cv_channel v) \<in> set (chans m)"
    using assms(2) um_find_SomeD [of k "chans m"] by (simp add: chans_find)
  then show ?thesis
    using reachable_req_inv [OF assms(1)]
    by (auto simp: req_inv_def accounted_def machine_load_def distinct_card)
qed

section \<open>Admission\<close>

lemmas channel_defs = close_send_def close_recv_def close_both_def watch_def maybe_notify_def ch_closed_def
  new_channel_def side_defs

lemma upd_conv_conv: "upd_conv i f (upd_conv i g m) = upd_conv i (\<lambda>v. f (g v)) m"
  by (cases m) (auto simp: upd_conv_def)

lemma revoke_active:
  assumes "m_state m \<noteq> Sealing"
  shows "m_state (revoke e i m) = m_state m"
    "m_channels (revoke e i m) = filter (\<lambda>j. j \<noteq> i) (m_channels m)"
    "m_log (revoke e i m) = m_log m @ [E_handler i]"
  using assms by (simp_all add: revoke_def Let_def state_sealing_def) (simp add: eff_def erase_timers_def)

lemma upd_conv_state [simp]: "m_state (upd_conv i f m) = m_state m" "m_fault (upd_conv i f m) = m_fault m"
  by (simp_all add: upd_conv_def)

lemma upd_conv_log [simp]: "m_log (upd_conv i f m) = m_log m"
  by (simp add: upd_conv_def)

text \<open>A request under admission: its data, and what the callbacks leave alone.\<close>

definition pend :: "machine \<Rightarrow> nat \<Rightarrow> conv \<Rightarrow> machine \<Rightarrow> bool" where
  "pend a i v m \<longleftrightarrow> um_find i (m_convs m) = Some v \<and> \<not> ch_watched (cv_channel v) \<and>
     m_state m = m_state a \<and> m_channels m = m_channels a \<and> m_log m = m_log a"

lemma pend_close: "pend a i v m \<Longrightarrow> pend a i (v\<lparr>cv_channel := fst (close_step x (cv_channel v))\<rparr>) (on_channel e i (close_step x) m)"
  by (auto simp: pend_def on_channel_def Let_def case_prod_beta)

lemma pend_upd: "pend a i v m \<Longrightarrow> (\<And>v. cv_channel (f v) = cv_channel v) \<Longrightarrow> pend a i (f v) (upd_conv i f m)"
  by (simp add: pend_def)

definition worker_op :: "error_code \<Rightarrow> close_op" where
  "worker_op ec = (if is_error ec then Op_both else Op_recv)"

definition client_op :: "error_code \<Rightarrow> close_op" where
  "client_op ec = (if is_error ec then Op_both else Op_send)"

lemma callback_ops:
  "worker_callback e i ec m = on_channel e i (close_step (worker_op ec)) m"
  "client_callback e i ec m = on_channel e i (close_step (client_op ec)) m"
  by (simp_all add: worker_callback_def client_callback_def worker_op_def client_op_def)

definition after_close :: "(error_code \<Rightarrow> close_op) \<Rightarrow> error_code option \<Rightarrow> conv \<Rightarrow> conv" where
  "after_close f cb v = (case cb of None \<Rightarrow> v | Some ec \<Rightarrow> v\<lparr>cv_channel := fst (close_step (f ec) (cv_channel v))\<rparr>)"

lemma pend_worker:
  "pend a i v m \<Longrightarrow> pend a i (after_close worker_op (snd (f (cv_worker v))) (v\<lparr>cv_worker := fst (f (cv_worker v))\<rparr>)) (on_worker e i f m)"
  using pend_close [OF pend_upd [of a i v m "\<lambda>v'. v'\<lparr>cv_worker := fst (f (cv_worker v))\<rparr>"]]
    pend_upd [of a i v m "\<lambda>v'. v'\<lparr>cv_worker := fst (f (cv_worker v))\<rparr>"]
  by (auto simp: on_worker_def Let_def case_prod_beta callback_ops after_close_def pend_def [of a i v m] split: option.splits)

lemma pend_client:
  "pend a i v m \<Longrightarrow> pend a i (after_close client_op (snd (f (cv_client v))) (v\<lparr>cv_client := fst (f (cv_client v))\<rparr>)) (on_client e i f m)"
  using pend_close [OF pend_upd [of a i v m "\<lambda>v'. v'\<lparr>cv_client := fst (f (cv_client v))\<rparr>"]]
    pend_upd [of a i v m "\<lambda>v'. v'\<lparr>cv_client := fst (f (cv_client v))\<rparr>"]
  by (auto simp: on_client_def Let_def case_prod_beta callback_ops after_close_def pend_def [of a i v m] split: option.splits)

lemma pend_attach:
  "pend a i v m \<Longrightarrow> client_attach (cv_client v) = Some (c, cb) \<Longrightarrow>
     pend a i (after_close client_op cb (v\<lparr>cv_client := c\<rparr>)) (inject_attach e i m)"
  using pend_close [OF pend_upd [of a i v m "\<lambda>v'. v'\<lparr>cv_client := c\<rparr>"]]
    pend_upd [of a i v m "\<lambda>v'. v'\<lparr>cv_client := c\<rparr>"]
  by (auto simp: inject_attach_def Let_def callback_ops after_close_def pend_def [of a i v m] split: option.splits)

lemma pend_watch:
  assumes "pend a i v m" "m_state a \<noteq> Sealing"
  shows "m_state (on_channel e i watch m) = m_state a"
    "m_channels (on_channel e i watch m) =
       (if ch_closed (cv_channel v) then filter (\<lambda>j. j \<noteq> i) (m_channels a) else m_channels a)"
    "m_log (on_channel e i watch m) = m_log a @ (if ch_closed (cv_channel v) then [E_handler i] else [])"
  using assms by (auto simp: pend_def on_channel_def Let_def case_prod_beta revoke_active)

text \<open>
  The request is refused at once when its deadline has passed or when its client
  disconnected while it was queued.
\<close>

definition expired_at :: "env \<Rightarrow> profile \<Rightarrow> event \<Rightarrow> bool" where
  "expired_at e pr ev \<longleftrightarrow> ev_birthstamp ev + request_timeout_of pr ev - e_now e \<le> 0"

definition client_gone :: "client_dispatch \<Rightarrow> bool" where
  "client_gone c \<longleftrightarrow> cd_state c = C_closed \<and> is_error (cd_ec c)"

lemma discard_then_attach:
  assumes "cd_state c \<noteq> C_bound" "is_error ec"
  shows "snd (client_discard ok msg ec c) = None \<and>
    (\<exists>c'. client_attach (fst (client_discard ok msg ec c)) = Some (c', Some ec))"
  using assms by (cases "cd_state c") (auto simp: client_defs client_attach_def)

lemma fresh_channel:
  fixes c :: channel
  assumes "ch_state c = side_both"
  shows "ch_ok c \<and> \<not> ch_closed c \<and> \<not> ch_closed (fst (close_send c))"
  using assms by (simp add: ch_ok_def channel_defs)

lemma pend_expired:
  assumes "pend a i v a" "ch_state (cv_channel v) = side_both" "cd_state (cv_client v) \<noteq> C_bound"
    "wd_state (cv_worker v) = W_open" "is_error (e_timeout_error e)"
  shows "\<exists>v'. pend a i v' (inject_attach e i (request_discard e i a)) \<and> ch_closed (cv_channel v')"
proof -
  let ?f = "client_discard (e_tx_ok e) (e_timeout_message e) (e_timeout_error e)"
  let ?g = "worker_discard (e_rx_ok e) (e_timeout_error e)"
  let ?v = "v\<lparr>cv_client := fst (?f (cv_client v))\<rparr>"
  obtain c where c: "snd (?f (cv_client v)) = None" "client_attach (fst (?f (cv_client v))) = Some (c, Some (e_timeout_error e))"
    using discard_then_attach [OF assms(3,5)] by blast
  have "pend a i ?v (on_client e i ?f a)"
    using pend_client [OF assms(1), of ?f] c(1) by (simp add: after_close_def)
  have g: "snd (?g (cv_worker v)) = Some no_error" using assms(4,5) by (simp add: worker_defs)
  from pend_worker [OF \<open>pend a i ?v (on_client e i ?f a)\<close>, of ?g e]
  have "pend a i (?v\<lparr>cv_worker := fst (?g (cv_worker v)), cv_channel := fst (close_recv (cv_channel v))\<rparr>) (request_discard e i a)"
    using g by (simp add: after_close_def worker_op_def request_discard_def)
  note attach = pend_attach [OF this, of c "Some (e_timeout_error e)" e]
  have "ch_ok (cv_channel v)" using assms(2) fresh_channel by blast
  then have "ch_closed (fst (close_both (fst (close_recv (cv_channel v)))))"
    using close_recv_sides by simp
  then show ?thesis
    using attach c(2) assms(5) by (intro exI conjI) (auto simp: after_close_def client_op_def)
qed

lemma pend_in_time:
  assumes "pend a i v b" "ch_state (cv_channel v) = side_both" "cd_state (cv_client v) \<noteq> C_bound"
  shows "\<exists>v'. pend a i v' (inject_attach e i b) \<and> ch_closed (cv_channel v') = client_gone (cv_client v)"
proof (cases "cd_state (cv_client v)")
  case C_open
  then have "client_attach (cv_client v) = Some (cv_client v\<lparr>cd_state := C_bound\<rparr>, None)"
    by (simp add: client_attach_def)
  from pend_attach [OF assms(1) this, of e] C_open fresh_channel [OF assms(2)] show ?thesis
    by (intro exI conjI) (auto simp: after_close_def client_gone_def)
next
  case C_closed
  then have "client_attach (cv_client v) = Some (cv_client v, Some (cd_ec (cv_client v)))"
    by (simp add: client_attach_def)
  note pend = pend_attach [OF assms(1) this, of e]
  have "ch_closed (cv_channel (after_close client_op (Some (cd_ec (cv_client v))) v)) = client_gone (cv_client v)"
    using fresh_channel [OF assms(2)] C_closed by (simp add: after_close_def client_gone_def client_op_def)
  with pend show ?thesis by auto
qed (use assms in simp)

text \<open>
  An active slave whose session takes the invocation answers a fresh channel
  number and stays active; the request joins the load exactly when its deadline
  lies ahead and its client is still there, and otherwise the slave's load is
  unchanged and the completion handler has been called exactly once.
\<close>

theorem inject_outcome:
  assumes "slave_reachable m" and "m_state m = Active" and "e_fork_ok e" and "e_invoke_ok e"
    and "cd_state (ld_dispatch ld) \<noteq> C_bound" and "is_error (e_timeout_error e)"
  shows "let i = m_counter m + 1;
             m' = snd (inject e ld m);
             refused = (expired_at e (m_profile m) (ld_event ld) \<or> client_gone (ld_dispatch ld))
         in fst (inject e ld m) = Inr i \<and> m_state m' = Active \<and>
            m_channels m' = m_channels m @ (if refused then [] else [i]) \<and>
            m_log m' = m_log m @ E_invoke i (ev_name (ld_event ld)) # (if refused then [E_handler i] else [])"
proof -
  define i where "i = m_counter m + 1"
  define a where "a = inject_admit e ld i (eff (E_invoke i (ev_name (ld_event ld))) (m\<lparr>m_counter := i\<rparr>))"
  define c where "c = (new_channel i (ev_birthstamp (ld_event ld)))\<lparr>ch_into_worker := True, ch_from_worker := True\<rparr>"
  define v where "v = \<lparr>cv_channel = c, cv_client = ld_dispatch ld, cv_worker = new_worker_dispatch, cv_timer = new_timer\<rparr>"
  let ?ex = "expired_at e (m_profile m) (ld_event ld)"
  let ?gone = "client_gone (ld_dispatch ld)"
  have fresh: "i \<notin> set (m_channels m)"
    using reachable_req_inv [OF assms(1)] by (fastforce simp: req_inv_def i_def)
  have a: "m_state a = Active" "m_channels a = m_channels m @ [i]" "m_profile a = m_profile m"
      "m_log a = m_log m @ [E_invoke i (ev_name (ld_event ld))]" "um_find i (m_convs a) = Some v"
    using assms(2) by (simp_all add: a_def inject_admit_def eff_def Let_def v_def c_def)
  have v: "ch_state (cv_channel v) = side_both" "cd_state (cv_client v) \<noteq> C_bound" "wd_state (cv_worker v) = W_open"
      "cv_client v = ld_dispatch ld" "\<not> ch_watched (cv_channel v)"
    using assms(5) by (simp_all add: v_def c_def new_channel_def new_worker_dispatch_def)
  define b where "b = inject_timer e ld i a"
  have "\<exists>v'. pend a i v' (inject_attach e i b) \<and> ch_closed (cv_channel v') = (?ex \<or> ?gone)"
  proof (cases ?ex)
    case True
    then have "b = request_discard e i a" by (simp add: b_def inject_timer_def expired_at_def a Let_def)
    then show ?thesis using pend_expired [of a i v e] a v assms(6) True by (auto simp: pend_def)
  next
    case False
    have "pend a i (v\<lparr>cv_timer := t_arm (cv_timer v)\<rparr>) b"
      using False a v by (simp add: b_def inject_timer_def expired_at_def Let_def pend_def)
    from pend_in_time [OF this, of e] False v show ?thesis by simp
  qed
  then obtain v' where v': "pend a i v' (inject_attach e i b)" "ch_closed (cv_channel v') = (?ex \<or> ?gone)" by blast
  have "inject e ld m = (Inr i, on_channel e i watch (inject_attach e i b))"
    using assms(2-4) by (simp add: inject_def Let_def i_def a_def b_def)
  then show ?thesis
    using pend_watch [OF v'(1), of e] v'(2) a fresh unfolding i_def [symmetric] Let_def
    by (auto simp: filter_id_conv)
qed

section \<open>Sealing\<close>

lemma state_terminate_leaves: "m_state (state_terminate e ec m) \<noteq> Sealing"
  by (auto simp: state_terminate_def active_terminate_def seal_terminate_def terminate_start_def
      control_terminate_def shutdown_state Let_def fault_def migrate_def eff_def split: state.splits option.splits)

lemma seal_terminate_leaves: "m_state (seal_terminate e ec m) \<noteq> Sealing"
  by (auto simp: seal_terminate_def terminate_start_def control_terminate_def shutdown_state Let_def fault_def
      migrate_def eff_def split: option.splits)

lemma seal_inv_shutdown [inv_intros]: "seal_inv m \<Longrightarrow> seal_inv (shutdown ec m)"
  by (cases "m_shutdowned m") (simp_all add: shutdown_def [of ec m] seal_inv_def shutdown_state [of ec m, unfolded shutdown_def] Let_def)

lemma seal_inv_revoke [inv_intros]: "seal_inv (revoke e i m)"
  using state_terminate_leaves by (simp add: revoke_def seal_inv_def Let_def state_sealing_def)

lemma seal_inv_frames [simp]:
  "seal_inv (upd_conv i f m) = seal_inv m" "seal_inv (upd_control i g m) = seal_inv m"
  "seal_inv (eff x m) = seal_inv m" "seal_inv (post_m p m) = seal_inv m" "seal_inv (fault m)"
  "seal_inv (m\<lparr>m_counter := a\<rparr>) = seal_inv m" "seal_inv (m\<lparr>m_timers := b\<rparr>) = seal_inv m"
  "seal_inv (m\<lparr>m_posted := c\<rparr>) = seal_inv m" "seal_inv (m\<lparr>m_token := d\<rparr>) = seal_inv m"
  "seal_inv (m\<lparr>sp_handle := d\<rparr>) = seal_inv m" "seal_inv (m\<lparr>m_output := out\<rparr>) = seal_inv m"
  "seal_inv (m\<lparr>sp_timer := t\<rparr>) = seal_inv m" "seal_inv (m\<lparr>hs_timer := t\<rparr>) = seal_inv m"
  "seal_inv (m\<lparr>se_timer := t\<rparr>) = seal_inv m" "seal_inv (m\<lparr>te_timer := t\<rparr>) = seal_inv m"
  "seal_inv (m\<lparr>sp_control := h\<rparr>) = seal_inv m" "seal_inv (m\<lparr>ac_control := h\<rparr>) = seal_inv m"
  "seal_inv (m\<lparr>te_control := h\<rparr>) = seal_inv m" "seal_inv (m\<lparr>m_ctls := k\<rparr>) = seal_inv m"
  by (simp_all add: seal_inv_def) (simp_all add: eff_def post_m_def fault_def)

lemma seal_inv_migrate [simp]: "s \<noteq> Sealing \<Longrightarrow> seal_inv (migrate s m)"
  by (simp add: seal_inv_def)

lemma seal_inv_on_channel [inv_intros]: "seal_inv m \<Longrightarrow> seal_inv (on_channel e i f m)"
  by (auto simp: on_channel_def Let_def inv_intros split: option.splits prod.splits)

lemma seal_inv_requests [inv_intros]:
  "seal_inv m \<Longrightarrow> seal_inv (on_worker e i f m)" "seal_inv m \<Longrightarrow> seal_inv (on_client e i g m)"
  "seal_inv m \<Longrightarrow> seal_inv (inject_attach e i m)"
  by (auto simp: on_worker_def on_client_def inject_attach_def worker_callback_def client_callback_def
      Let_def inv_intros split: option.splits prod.splits)

lemma seal_inv_request_discard [inv_intros]: "seal_inv m \<Longrightarrow> seal_inv (request_discard e i m)"
  by (simp add: request_discard_def Let_def inv_intros)

lemma seal_inv_inject [inv_intros]: "seal_inv m \<Longrightarrow> seal_inv (snd (inject e ld m))"
proof -
  have "seal_inv (inject_admit e ld i m)" for i m
    by (simp add: inject_admit_def seal_inv_def Let_def)
  moreover have "seal_inv a \<Longrightarrow> seal_inv (inject_timer e ld i a)" for i a
    by (simp add: inject_timer_def Let_def inv_intros)
  ultimately show "seal_inv m \<Longrightarrow> seal_inv (snd (inject e ld m))"
    by (auto simp: inject_def Let_def inv_intros split: state.splits)
qed

lemma seal_inv_terminate [inv_intros]: "seal_inv (state_terminate e ec m)" "seal_inv (seal_terminate e ec m)"
  by (simp_all add: seal_inv_def state_terminate_leaves seal_terminate_leaves)

lemma seal_inv_start: "m_state m = Sealing \<Longrightarrow> seal_inv (seal_start e m)"
  by (simp add: seal_start_def inv_intros) (simp add: seal_inv_def)

lemma seal_inv_machine [inv_intros]:
  "seal_inv m \<Longrightarrow> seal_inv (machine_terminate e ec m)" "machine_seal e m = Inr m' \<Longrightarrow> seal_inv m'"
  by (auto simp: machine_terminate_def machine_seal_def active_seal_def Let_def inv_intros
      seal_inv_start split: state.splits)

lemma seal_inv_spawn [inv_intros]: "seal_inv m \<Longrightarrow> seal_inv (spawn e tk m)"
  by (auto simp: spawn_def inv_intros split: option.splits list.splits isolate_result.splits)

lemma seal_inv_activation [inv_intros]:
  "seal_inv (handshaking_to_active i m)"
  "seal_inv m \<Longrightarrow> seal_inv (snd (handshaking_activate m))"
  "seal_inv m \<Longrightarrow> seal_inv (snd (spawn_activate m))"
  "seal_inv m \<Longrightarrow> seal_inv (on_spawn m)"
  by (auto simp: handshaking_to_active_def handshaking_activate_def spawn_activate_def
      add_control_def on_spawn_def handshaking_start_def Let_def case_prod_beta split: option.splits)

lemma machine_activate_seal_inv: "seal_inv m \<Longrightarrow> machine_activate m = Inr r \<Longrightarrow> seal_inv (snd r)"
  by (auto simp: machine_activate_def inv_intros split: state.splits)

lemma run_post_seal_inv: "seal_inv m \<Longrightarrow> seal_inv (run_post e p m)"
  by (cases p) (simp_all add: preparation_start_def on_refresh_def inv_intros)

lemma destroy_seal_inv: "seal_inv m \<Longrightarrow> destroy h m = Some m' \<Longrightarrow> seal_inv m'"
  by (cases h) (auto simp: spawn_dtor_def active_dtor_def terminate_dtor_def control_cancel_def
      split: option.splits if_splits)

lemma timer_seal_inv [inv_intros]:
  "seal_inv m \<Longrightarrow> seal_inv (upd_timer t f m)" "seal_inv m \<Longrightarrow> seal_inv (on_timeout e t m)"
  by (cases t; simp add: spawn_on_timeout_def handshaking_on_timeout_def seal_on_timeout_def
      terminate_on_timeout_def control_on_timeout_def inv_intros)+

theorem slave_step_seal_inv: "seal_inv m \<Longrightarrow> slave_step e ev m = Some m' \<Longrightarrow> seal_inv m'"
proof (cases ev)
  case Activate
  assume "seal_inv m" "slave_step e ev m = Some m'"
  then show "seal_inv m'"
    using Activate machine_activate_seal_inv [of m] by (auto simp: slave_step_def split: sum.splits if_splits)
qed (auto simp: slave_step_def preparation_token_def handle_on_ready_def handle_on_terminate_def
    machine_output_def control_on_terminate_def control_discard_def on_heartbeat_def
    run_post_seal_inv inv_intros split: if_splits list.splits sum.splits dest: destroy_seal_inv)

lemma reachable_seal_inv: "slave_reachable m \<Longrightarrow> seal_inv m"
proof (induction rule: slave_reachable.induct)
  case (slave_init i mf pr)
  then show ?case by (simp add: start_def)
next
  case (slave_next m e ev m')
  then show ?case using slave_step_seal_inv by blast
qed

text \<open>
  A sealing slave always still carries a request, and revoking the last one
  tells the worker to terminate with the reason that the slave is sealing,
  arms the termination timer and leaves the slave terminating.
\<close>

theorem sealing_drains:
  assumes "slave_reachable m" and "\<not> m_fault m" and "\<not> m_shutdowned m" and "m_state m = Sealing" and "e_send_ok e"
  shows "m_channels m \<noteq> [] \<and>
    (m_channels m = [i] \<longrightarrow>
       m_state (revoke e i m) = Terminating \<and> m_channels (revoke e i m) = [] \<and>
       dt_armed (te_timer (revoke e i m)) \<and> \<not> dt_armed (se_timer (revoke e i m)) \<and>
       m_log (revoke e i m) = m_log m @ [E_terminate (make_error_code Slave_is_sealing), E_handler i])"
proof -
  obtain j where "se_control m = Some j"
    using life_ok_owned [OF reachable_life_ok [OF assms(1)] assms(2,3)] assms(4) by (auto simp: owned_def)
  moreover have "m_channels m \<noteq> []"
    using reachable_seal_inv [OF assms(1)] assms(2,4) by (simp add: seal_inv_def)
  ultimately show ?thesis
    using assms(4,5)
    by (simp add: revoke_def state_sealing_def state_terminate_def seal_terminate_def terminate_start_def
        control_terminate_def Let_def migrate_def eff_def erase_timers_def timer_defs)
qed

section \<open>The inactive state\<close>

text \<open>A slave that has been shut down and has no token answer and no expired seal timer on the way.\<close>

definition settled :: "machine \<Rightarrow> bool" where
  "settled m \<longleftrightarrow> m_shutdowned m \<and> rank (m_state m) = 7 \<and> preps m = 0 \<and>
     dt_fired (se_timer m) = 0 \<and> \<not> dt_armed (se_timer m) \<and> \<not> dt_armed (sp_timer m)"

lemma rank_7: "rank s = 7 \<longleftrightarrow> (\<exists>ec. s = Inactive ec)"
  by (cases s) simp_all

lemma settled_cong: "life m' = life m \<Longrightarrow> settled m' = settled m"
  by (simp add: settled_def life_def)

lemma settled_frames [simp]:
  "settled (m\<lparr>sp_handle := b\<rparr>) = settled m" "settled (m\<lparr>m_closed := b\<rparr>) = settled m"
  "settled (m\<lparr>m_output := out\<rparr>) = settled m" "settled (m\<lparr>m_counter := n\<rparr>) = settled m"
  "settled (upd_control i f m) = settled m" "settled (eff x m) = settled m"
  by (simp_all add: settled_def preps_def eff_def upd_control_def)

lemma shutdown_again [simp]: "m_shutdowned m \<Longrightarrow> shutdown ec m = m"
  by (simp add: shutdown_def)

text \<open>Outside the sealing state requests do not touch the life cycle.\<close>

lemma revoke_life: "m_state m \<noteq> Sealing \<Longrightarrow> life (revoke e i m) = life m"
  by (simp add: revoke_def Let_def state_sealing_def)

lemma on_channel_life: "m_state m \<noteq> Sealing \<Longrightarrow> life (on_channel e i f m) = life m"
  by (auto simp: on_channel_def Let_def revoke_life split: option.splits prod.splits)

lemma dispatch_life:
  "m_state m \<noteq> Sealing \<Longrightarrow> life (on_worker e i f m) = life m"
  "m_state m \<noteq> Sealing \<Longrightarrow> life (on_client e i g m) = life m"
  by (auto simp: on_worker_def on_client_def worker_callback_def client_callback_def Let_def on_channel_life
      split: option.splits prod.splits)

lemma life_state: "life m' = life m \<Longrightarrow> m_state m' = m_state m"
  by (simp add: life_def)

lemma request_discard_life: "m_state m \<noteq> Sealing \<Longrightarrow> life (request_discard e i m) = life m"
  unfolding request_discard_def Let_def by (metis dispatch_life life_state)

lemma settled_run_post:
  assumes "settled m" "m_posted m = p # ps"
  shows "settled (run_post e p (m\<lparr>m_posted := ps\<rparr>)) \<and> m_state (run_post e p (m\<lparr>m_posted := ps\<rparr>)) = m_state m"
proof -
  let ?m = "m\<lparr>m_posted := ps\<rparr>"
  have m: "settled ?m" "m_shutdowned ?m" "\<not> is_prep_post p" "m_state ?m \<noteq> Sealing"
    using assms by (auto simp: settled_def preps_def rank_7 split: if_splits)
  then show ?thesis
    using settled_cong [OF on_channel_life [OF m(4)]] life_state [OF on_channel_life [OF m(4)]]
    by (cases p) auto
qed

lemma settled_timer:
  assumes "settled m"
  shows "dt_armed (get_timer t m) \<Longrightarrow> settled (upd_timer t t_expire m) \<and> m_state (upd_timer t t_expire m) = m_state m"
    and "0 < dt_fired (get_timer t m) \<Longrightarrow> settled (on_timeout e t (upd_timer t t_take m)) \<and>
           m_state (on_timeout e t (upd_timer t t_take m)) = m_state m"
proof -
  have m: "m_shutdowned m" "m_state m \<noteq> Sealing" "dt_fired (se_timer m) = 0" "\<not> dt_armed (se_timer m)"
    using assms by (auto simp: settled_def rank_7)
  show "dt_armed (get_timer t m) \<Longrightarrow> settled (upd_timer t t_expire m) \<and> m_state (upd_timer t t_expire m) = m_state m"
    using assms by (cases t) (auto simp: settled_cong [OF life_frames(1)], auto simp: settled_def timer_defs)
  have "settled (request_discard e i (upd_conv i f m)) \<and> m_state (request_discard e i (upd_conv i f m)) = m_state m" for i f
    using request_discard_life [of "upd_conv i f m" e i] assms m settled_cong life_state by (metis life_frames(1))
  then show "0 < dt_fired (get_timer t m) \<Longrightarrow> settled (on_timeout e t (upd_timer t t_take m)) \<and>
      m_state (on_timeout e t (upd_timer t t_take m)) = m_state m"
    using assms m by (cases t) (auto simp: spawn_on_timeout_def handshaking_on_timeout_def terminate_on_timeout_def
        control_on_timeout_def settled_def timer_defs)
qed

lemma settled_destroy: "settled m \<Longrightarrow> destroy h m = Some m' \<Longrightarrow> settled m' \<and> m_state m' = m_state m"
  by (cases h) (auto simp: spawn_dtor_def active_dtor_def terminate_dtor_def control_cancel_def settled_def
      preps_def eff_def upd_control_def split: option.splits if_splits)

lemma settled_ready: "settled m \<Longrightarrow> settled (on_spawn m) \<and> m_state (on_spawn m) = m_state m"
  by (auto simp: settled_def on_spawn_def t_cancel_def Let_def)

lemma settled_step:
  assumes "settled m" "slave_step e ev m = Some m'"
  shows "settled m' \<and> m_state m' = m_state m"
proof -
  have m: "m_shutdowned m" "m_state m \<noteq> Sealing" "m_state m \<noteq> Active" "m_state m \<noteq> Spawning"
      "m_state m \<noteq> Handshaking" "m_state m \<noteq> Null" "m_state m \<noteq> Terminating" "\<not> m_token m"
    using assms(1) by (auto simp: settled_def rank_7 preps_def)
  note req = settled_cong [OF dispatch_life(1) [OF m(2)]] life_state [OF dispatch_life(1) [OF m(2)]]
    settled_cong [OF dispatch_life(2) [OF m(2)]] life_state [OF dispatch_life(2) [OF m(2)]]
  show ?thesis
    using assms m
    by (cases ev)
       (auto simp: slave_step_def handle_on_ready_def handle_on_terminate_def machine_output_def inject_def
          machine_terminate_def state_terminate_def machine_seal_def machine_activate_def on_heartbeat_def
          control_on_terminate_def control_discard_def Let_def settled_run_post settled_timer settled_ready req
          split: if_splits list.splits sum.splits state.splits dest: settled_destroy)
qed

lemma settled_run: "settled m \<Longrightarrow> slave_run es m = Some m' \<Longrightarrow> m_state m' = m_state m"
proof (induction es arbitrary: m)
  case (Cons x es)
  then show ?case
    by (cases x) (use settled_step in \<open>fastforce split: option.splits\<close>)
qed simp

lemma state_cancel_timers:
  "dt_armed (sp_timer (state_cancel s m)) \<longleftrightarrow> dt_armed (sp_timer m) \<and> s \<noteq> Spawning"
  "dt_armed (se_timer (state_cancel s m)) \<longleftrightarrow> dt_armed (se_timer m) \<and> s \<noteq> Sealing"
  "dt_fired (se_timer (state_cancel s m)) = dt_fired (se_timer m)"
  "preps (state_cancel s m) = preps m"
  by (cases s; simp add: t_cancel_def)+

lemma shutdown_frames:
  assumes "\<not> m_shutdowned m"
  shows "sp_timer (shutdown ec m) = sp_timer (state_cancel (m_state m) m)"
    "se_timer (shutdown ec m) = se_timer (state_cancel (m_state m) m)"
    "preps (shutdown ec m) = preps m"
proof -
  have fold: "sp_timer (fold (\<lambda>i. post_m (P_close_both i)) is a) = sp_timer a \<and>
      se_timer (fold (\<lambda>i. post_m (P_close_both i)) is a) = se_timer a \<and>
      preps (fold (\<lambda>i. post_m (P_close_both i)) is a) = preps a" for "is" a
    by (induction "is" arbitrary: a) (simp_all add: post_m_def preps_def)
  have cancel: "state_cancel s (a\<lparr>m_shutdowned := True\<rparr>) = (state_cancel s a)\<lparr>m_shutdowned := True\<rparr>" for s a
    by (cases s; cases a) simp_all
  note defs = shutdown_def Let_def dump_def eff_def erase_timers_def drop_sessions_def migrate_def case_prod_beta
  show "sp_timer (shutdown ec m) = sp_timer (state_cancel (m_state m) m)"
    "se_timer (shutdown ec m) = se_timer (state_cancel (m_state m) m)"
    using assms fold by (simp_all add: defs cancel post_m_def [of "P_cleanup _"])
  show "preps (shutdown ec m) = preps m"
    using assms fold state_cancel_timers(4) [of "m_state m" m]
    by (simp add: defs cancel post_m_def [of "P_cleanup _"]) (simp add: preps_def)
qed

text \<open>
  Shutting down a slave that is past its preparation and has no expired seal
  timer on the way is final: whatever happens afterwards, its state stays the
  inactive one, so it is never active, sealed or spawned again.
\<close>

theorem inactive_is_final:
  assumes "slave_reachable m" and "\<not> m_fault m" and "\<not> m_shutdowned m"
    and "m_state m \<noteq> Preparation" and "dt_fired (se_timer m) = 0"
    and "slave_run es (shutdown ec m) = Some m'"
  shows "m_state m' = Inactive (if m_state m = Terminating then no_error else ec)"
proof -
  have "owned m" using life_ok_owned [OF reachable_life_ok [OF assms(1)] assms(2,3)] .
  then have "settled (shutdown ec m)"
    using assms(3-5) by (auto simp: settled_def shutdown_state shutdown_frames state_cancel_timers owned_def)
  then show ?thesis
    using settled_run [OF _ assms(6)] assms(3) by (simp add: shutdown_state state_terminating_def)
qed

section \<open>Concrete runs\<close>

definition sample_profile :: profile where
  "sample_profile = \<lparr>pr_concurrency = 10, pr_crashlog_limit = 50, pr_grow_threshold = 5, pr_pool_limit = 10,
     pr_queue_limit = 100, pr_request_timeout = 1000\<rparr>"

definition sample_manifest :: manifest where
  "sample_manifest = \<lparr>mf_name = ''app'', mf_executable = ''run'', mf_endpoint = ''sock'', mf_environment = []\<rparr>"

definition slave_env :: env where
  "slave_env = \<lparr>e_send_ok = True, e_fork_ok = True, e_invoke_ok = True, e_tx_ok = True, e_rx_ok = True,
     e_auth_ok = True, e_locator = Some [''host:10053''], e_isolate = Isolate_spawned, e_protocol = ''1'',
     e_now = 0, e_session_error = (System_category, 32), e_timeout_error = (Foreign_category ''dispatch'', 4),
     e_timeout_message = ''timeout''\<rparr>"

definition sample_token :: token where
  "sample_token = \<lparr>tk_type = [], tk_body = []\<rparr>"

definition sample_load :: load where
  "sample_load = \<lparr>ld_event = \<lparr>ev_name = ''ping'', ev_timeout_header = None, ev_birthstamp = 0, ev_deadline = None\<rparr>,
     ld_dispatch = new_client_dispatch\<rparr>"

definition sample_start :: machine where
  "sample_start = start (new_machine ''id'' sample_manifest sample_profile)"

definition events :: "slave_event list \<Rightarrow> (env \<times> slave_event) list" where
  "events = map (\<lambda>ev. (slave_env, ev))"

definition to_active :: "slave_event list" where
  "to_active = [Run, Token sample_token no_error, Run, Ready, Activate]"

definition sample_active :: machine where
  "sample_active = the (slave_run (events to_active) sample_start)"

definition sample_sealing :: machine where
  "sample_sealing = the (slave_run (events (to_active @ [Inject sample_load, Seal])) sample_start)"

lemma slave_run_reachable: "slave_run es m = Some m' \<Longrightarrow> slave_reachable m \<Longrightarrow> slave_reachable m'"
proof (induction es arbitrary: m)
  case (Cons x es)
  then show ?case by (cases x) (auto split: option.splits intro: slave_next)
qed simp

lemma sample_start_reachable: "slave_reachable sample_start"
  unfolding sample_start_def by (rule slave_init)

lemma sample_active_run: "slave_run (events to_active) sample_start = Some sample_active"
proof -
  have "\<not> Option.is_none (slave_run (events to_active) sample_start)" by code_simp
  then show ?thesis by (auto simp: sample_active_def Option.is_none_def)
qed

lemma sample_sealing_run:
  "slave_run (events (to_active @ [Inject sample_load, Seal])) sample_start = Some sample_sealing"
proof -
  have "\<not> Option.is_none (slave_run (events (to_active @ [Inject sample_load, Seal])) sample_start)" by code_simp
  then show ?thesis by (auto simp: sample_sealing_def Option.is_none_def)
qed

lemmas sample_reachable =
  slave_run_reachable [OF sample_active_run sample_start_reachable]
  slave_run_reachable [OF sample_sealing_run sample_start_reachable]

lemma sample_sealing_facts:
  "\<not> m_fault sample_sealing \<and> \<not> m_shutdowned sample_sealing \<and> m_state sample_sealing = Sealing \<and>
   m_channels sample_sealing = [2]"
  by code_simp

lemma sample_active_facts:
  "\<not> m_fault sample_active \<and> \<not> m_shutdowned sample_active \<and> m_state sample_active = Active \<and>
   dt_fired (se_timer sample_active) = 0"
  by code_simp

theorem cleanup_at_most_once_witness:
  "\<exists>m'. slave_run (events [Control_terminate 0, Control_discard 0 (System_category, 104), Run]) sample_active = Some m' \<and>
     cleanups m' \<le> 1"
proof -
  have "\<not> Option.is_none (slave_run (events [Control_terminate 0, Control_discard 0 (System_category, 104), Run]) sample_active)"
    by code_simp
  then obtain m' where
    run: "slave_run (events [Control_terminate 0, Control_discard 0 (System_category, 104), Run]) sample_active = Some m'"
    by (auto simp: Option.is_none_def)
  with cleanup_at_most_once [OF sample_reachable(1) run] show ?thesis by auto
qed

theorem slave_watchdog_witness: "guarded Sealing sample_sealing \<and> guarded Active sample_active"
  using slave_watchdog [OF sample_reachable(2)] slave_watchdog [OF sample_reachable(1)]
    sample_sealing_facts sample_active_facts by simp

theorem slave_forward_only_witness:
  "\<exists>m'. slave_step slave_env Seal sample_active = Some m' \<and> rank Active \<le> rank (m_state m')"
proof -
  have "\<not> Option.is_none (slave_step slave_env Seal sample_active)" by code_simp
  then obtain m' where step: "slave_step slave_env Seal sample_active = Some m'"
    by (auto simp: Option.is_none_def)
  from slave_forward_only [OF sample_reachable(1) step] sample_active_facts step show ?thesis by auto
qed

theorem slave_requests_accounted_witness:
  "\<exists>v. um_find 2 (m_convs sample_sealing) = Some v \<and>
     (2 \<in> set (m_channels sample_sealing) \<and> \<not> ch_closed (cv_channel v) \<or> E_handler 2 \<in> set (m_log sample_sealing) \<or>
        P_close_both 2 \<in> set (m_posted sample_sealing)) \<and>
     machine_load sample_sealing = card (set (m_channels sample_sealing))"
proof -
  have "\<not> Option.is_none (um_find 2 (m_convs sample_sealing))" by code_simp
  then obtain v where "um_find 2 (m_convs sample_sealing) = Some v" by (auto simp: Option.is_none_def)
  with slave_requests_accounted [OF sample_reachable(2) this] show ?thesis by blast
qed

theorem sealing_drains_witness:
  "m_channels sample_sealing = [2] \<and> m_state (revoke slave_env 2 sample_sealing) = Terminating"
  using sealing_drains [OF sample_reachable(2), of slave_env 2] sample_sealing_facts
  by (simp add: slave_env_def)

theorem inactive_is_final_witness:
  "\<exists>m'. slave_run (events [Isolate_terminated no_error, Activate, Data ''x''])
          (shutdown (make_error_code Committed_suicide) sample_active) = Some m' \<and>
        m_state m' = Inactive (make_error_code Committed_suicide)"
proof -
  have "\<not> Option.is_none (slave_run (events [Isolate_terminated no_error, Activate, Data ''x''])
          (shutdown (make_error_code Committed_suicide) sample_active))" by code_simp
  then obtain m' where run: "slave_run (events [Isolate_terminated no_error, Activate, Data ''x''])
      (shutdown (make_error_code Committed_suicide) sample_active) = Some m'"
    by (auto simp: Option.is_none_def)
  with inactive_is_final [OF sample_reachable(1) _ _ _ _ run] sample_active_facts show ?thesis by auto
qed

definition resurrection :: "slave_event list" where
  "resurrection = [Run, Terminate (make_error_code Overseer_shutdowning), Token sample_token no_error, Run, Ready,
     Expire T_handshake, Fire T_handshake]"

definition spawned_workers :: "machine \<Rightarrow> nat" where
  "spawned_workers m = length (filter (\<lambda>x. case x of E_spawn _ _ _ \<Rightarrow> True | _ \<Rightarrow> False) (m_log m))"

text \<open>
  A run in which shutting down is not final: a slave terminated while its token
  request is under way is shut down, yet the late token answer still spawns a
  worker; the machine then sits in handshaking, and the handshake timeout has no
  effect because the one shutdown has been spent.
\<close>

theorem late_token_resurrects:
  "map_option (\<lambda>m. (m_shutdowned m, m_state m, spawned_workers m, t_live (hs_timer m))) (slave_run (events resurrection) sample_start) =
     Some (True, Handshaking, 1, False)"
  by code_simp

text \<open>
  A run that reaches a moved-from pointer: the seal timer expires, but before
  its handler runs the last request is closed and the sealing state hands its
  control channel over; the handler then terminates a second time.
\<close>

theorem seal_timer_race:
  "map_option m_fault (slave_run (events (to_active @ [Inject sample_load, Seal, Expire T_seal,
     Client 2 (CE_discard True [] (System_category, 104)), Fire T_seal])) sample_start) = Some True"
  by code_simp

text \<open>A request that times out has its completion handler called twice.\<close>

theorem timeout_notifies_twice:
  "map_option (\<lambda>m. count_list (m_log m) (E_handler 2)) (slave_run (events (to_active @ [Inject sample_load,
     Expire (T_request 2), Fire (T_request 2)])) sample_start) = Some 2"
  by code_simp

theorem inject_outcome_witness:
  "fst (inject slave_env sample_load sample_active) = Inr (m_counter sample_active + 1) \<and>
   m_channels (snd (inject slave_env sample_load sample_active)) = m_channels sample_active @ [m_counter sample_active + 1]"
proof -
  have "\<not> expired_at slave_env (m_profile sample_active) (ld_event sample_load)" "\<not> client_gone (ld_dispatch sample_load)"
    by code_simp+
  then show ?thesis
    using inject_outcome [OF sample_reachable(1), of slave_env sample_load] sample_active_facts
    by (simp add: Let_def slave_env_def sample_load_def new_client_dispatch_def is_error_def)
qed

end
