(* ===== verification/Node_Engine.thy ===== *)
theory Node_Engine
  imports Slave_Machine
begin

text \<open>
  The engine of an application (\<^verbatim>\<open>src/node/src/node/engine.cpp\<close>, with the
  \<^verbatim>\<open>slave_t\<close> wrapper of \<^verbatim>\<open>slave.cpp\<close> and the destructor of \<^verbatim>\<open>overseer.cpp\<close>):
  the queue of pending events, the pool of slaves, balancing of events over
  slaves, growing and shrinking of the pool, and the back-off after crashes.

  The slaves are the machines of the slave theory.  Closures posted to the loop
  are \<open>en_posted\<close>.  Slave identifiers are taken from \<open>en_ids\<close>, the source of
  unique identifiers.  A slave that leaves the pool is destroyed, which
  terminates its machine; the machine itself lives on in its own callbacks and
  is kept in \<open>en_gone\<close>.  \<^verbatim>\<open>std::size_t\<close> arithmetic wraps at 64 bits and the sum of
  loads is accumulated in an \<^verbatim>\<open>int\<close> of 32 bits, as \<^verbatim>\<open>boost::accumulate\<close> does with
  the start value 0.  The ceiling of a quotient of doubles is written as the
  exact ceiling, which it is below \<open>2 ^ 53\<close>.
\<close>

section \<open>Slaves\<close>

record slave =
  sl_machine :: machine
  sl_ec :: error_code

definition new_slave :: "string \<Rightarrow> manifest \<Rightarrow> profile \<Rightarrow> slave" where
  "new_slave i mf pr = \<lparr>sl_machine = start (new_machine i mf pr), sl_ec = make_error_code Overseer_shutdowning\<rparr>"

definition slave_active :: "slave \<Rightarrow> bool" where
  "slave_active s = machine_active (sl_machine s)"

definition slave_load :: "slave \<Rightarrow> nat" where
  "slave_load s = machine_load (sl_machine s)"

definition slave_terminate :: "error_code \<Rightarrow> slave \<Rightarrow> slave" where
  "slave_terminate ec s = s\<lparr>sl_ec := ec\<rparr>"

definition slave_inject :: "env \<Rightarrow> load \<Rightarrow> slave \<Rightarrow> (error_code, nat) result \<times> slave" where
  "slave_inject e ld s = (let (r, m) = inject e ld (sl_machine s) in (r, s\<lparr>sl_machine := m\<rparr>))"

definition slave_seal :: "env \<Rightarrow> slave \<Rightarrow> (error_code, slave) result" where
  "slave_seal e s = bindE (machine_seal e (sl_machine s)) (\<lambda>m. Inr (s\<lparr>sl_machine := m\<rparr>))"

text \<open>The destructor: what remains of the slave is its terminated machine.\<close>

definition slave_dtor :: "env \<Rightarrow> slave \<Rightarrow> machine" where
  "slave_dtor e s = machine_terminate e (sl_ec s) (sl_machine s)"

section \<open>Data\<close>

datatype engine_post = Rebalance_events | Rebalance_slaves

datatype engine_effect =
    Accepted event
  | Assigned string event
  | Dropped event
  | Observed_spawned
  | Observed_despawned string

type_synonym pool = "(string, slave) umap"

record engine =
  en_profile :: profile
  en_manifest :: manifest
  en_stopped :: bool
  en_pool :: pool
  en_gone :: "machine list"
  en_ids :: "nat \<Rightarrow> string"
  en_next_id :: nat
  en_pool_target :: int
  en_timer :: bool
  en_last_failed :: int
  en_last_timeout :: int
  en_queue :: "load list"
  en_accepted :: nat
  en_rejected :: nat
  en_spawned :: nat
  en_crashed :: nat
  en_posted :: "engine_post list"
  en_log :: "engine_effect list"

definition new_engine :: "manifest \<Rightarrow> profile \<Rightarrow> (nat \<Rightarrow> string) \<Rightarrow> engine" where
  "new_engine mf pr ids =
     \<lparr>en_profile = pr, en_manifest = mf, en_stopped = False, en_pool = [], en_gone = [], en_ids = ids,
      en_next_id = 0, en_pool_target = 0, en_timer = False, en_last_failed = 0, en_last_timeout = 1,
      en_queue = [], en_accepted = 0, en_rejected = 0, en_spawned = 0, en_crashed = 0, en_posted = [],
      en_log = []\<rparr>"

datatype engine_error =
    Code error_code
  | Division_by_zero

definition post_e :: "engine_post \<Rightarrow> engine \<Rightarrow> engine" where
  "post_e p en = en\<lparr>en_posted := en_posted en @ [p]\<rparr>"

definition log_e :: "engine_effect \<Rightarrow> engine \<Rightarrow> engine" where
  "log_e x en = en\<lparr>en_log := en_log en @ [x]\<rparr>"

text \<open>
  A machine of the pool has changed: every call of a completion handler posts a
  rebalancing of events.
\<close>

definition handler_calls :: "machine \<Rightarrow> machine \<Rightarrow> nat" where
  "handler_calls m m' =
     length (filter (\<lambda>x. case x of E_handler _ \<Rightarrow> True | _ \<Rightarrow> False) (drop (length (m_log m)) (m_log m')))"

definition put_slave :: "string \<Rightarrow> slave \<Rightarrow> slave \<Rightarrow> engine \<Rightarrow> engine" where
  "put_slave k s s' en =
     en\<lparr>en_pool := map (\<lambda>(k', x). (k', if k' = k then s' else x)) (en_pool en),
        en_posted := en_posted en @ replicate (handler_calls (sl_machine s) (sl_machine s')) Rebalance_events\<rparr>"

section \<open>Selection and arithmetic\<close>

definition active_workers :: "pool \<Rightarrow> nat" where
  "active_workers p = length (filter (\<lambda>(k, s). slave_active s) p)"

definition pooled_workers_ids :: "pool \<Rightarrow> string list" where
  "pooled_workers_ids p = um_keys p"

text \<open>\<^verbatim>\<open>boost::min_element\<close>: the first of the least.\<close>

fun min_element :: "('a \<Rightarrow> nat) \<Rightarrow> 'a list \<Rightarrow> 'a option" where
  "min_element f [] = None"
| "min_element f (x # xs) =
     (case min_element f xs of None \<Rightarrow> Some x | Some y \<Rightarrow> if f y < f x then Some y else Some x)"

definition select_by :: "(slave \<Rightarrow> bool) \<Rightarrow> pool \<Rightarrow> (string \<times> slave) option" where
  "select_by p pool = min_element (\<lambda>(k, s). slave_load s) (filter (\<lambda>(k, s). p s) pool)"

definition eligible :: "profile \<Rightarrow> slave \<Rightarrow> bool" where
  "eligible pr s \<longleftrightarrow> slave_active s \<and> slave_load s < pr_concurrency pr"

definition select_slave :: "profile \<Rightarrow> pool \<Rightarrow> (string \<times> slave) option" where
  "select_slave pr = select_by (eligible pr)"

definition int32 :: "int \<Rightarrow> int" where
  "int32 x = (x + 2 ^ 31) mod 2 ^ 32 - 2 ^ 31"

definition pool_pressure :: "pool \<Rightarrow> int" where
  "pool_pressure p = (fold (\<lambda>(k, s) acc. int32 (acc + int (slave_load s))) p 0) mod 2 ^ 64"

definition size_sub :: "int \<Rightarrow> int \<Rightarrow> int" where
  "size_sub a b = (a - b) mod 2 ^ 64"

definition size_mul :: "int \<Rightarrow> int \<Rightarrow> int" where
  "size_mul a b = (a * b) mod 2 ^ 64"

definition clamp :: "int \<Rightarrow> int \<Rightarrow> int \<Rightarrow> int" where
  "clamp x lo hi = max lo (min x hi)"

definition ceil_div :: "int \<Rightarrow> int \<Rightarrow> int" where
  "ceil_div a b = (a + b - 1) div b"

section \<open>Events\<close>

definition event_expired :: "env \<Rightarrow> profile \<Rightarrow> event \<Rightarrow> bool" where
  "event_expired e pr ev \<longleftrightarrow>
     ev_birthstamp ev + request_timeout_of pr ev < e_now e \<or>
     (case ev_deadline ev of None \<Rightarrow> False | Some d \<Rightarrow> d < e_now e)"

definition assign :: "env \<Rightarrow> string \<times> slave \<Rightarrow> load \<Rightarrow> engine \<Rightarrow> (error_code, engine) result \<times> engine" where
  "assign e ks ld en =
     (let (k, s) = ks; ev = ld_event ld
      in if event_expired e (en_profile en) ev
         then let en' = log_e (Dropped ev) en in (Inr en', en')
         else
           let (r, s') = slave_inject e ld s;
               en' = put_slave k s s' en
           in case r of
                Inl ec \<Rightarrow> (Inl ec, en')
              | Inr _ \<Rightarrow> let en'' = log_e (Assigned k ev) en' in (Inr en'', en''))"

fun events_loop :: "env \<Rightarrow> load list \<Rightarrow> engine \<Rightarrow> engine" where
  "events_loop e [] en = en\<lparr>en_queue := []\<rparr>"
| "events_loop e (ld # q) en =
     (case select_slave (en_profile en) (en_pool en) of
        None \<Rightarrow> en\<lparr>en_queue := ld # q\<rparr>
      | Some ks \<Rightarrow>
          (case assign e ks ld en of
             (Inr en', _) \<Rightarrow> events_loop e q en'
           | (Inl ec, en') \<Rightarrow> post_e Rebalance_slaves (en'\<lparr>en_queue := ld # q\<rparr>)))"

definition rebalance_events :: "env \<Rightarrow> engine \<Rightarrow> engine" where
  "rebalance_events e en = (if en_pool en = [] then en else events_loop e (en_queue en) en)"

section \<open>Population\<close>

definition spawn_slave :: "engine \<Rightarrow> (engine_error, engine) result" where
  "spawn_slave en =
     (if pr_pool_limit (en_profile en) \<le> length (en_pool en)
      then Inl (Code (overseer_error_code Pool_is_full))
      else
        let k = en_ids en (en_next_id en);
            s = new_slave k (en_manifest en) (en_profile en)
        in Inr (en\<lparr>en_pool := (if k \<in> set (um_keys (en_pool en)) then en_pool en else en_pool en @ [(k, s)]),
                   en_next_id := en_next_id en + 1, en_spawned := en_spawned en + 1\<rparr>))"

text \<open>The loop \<^verbatim>\<open>while(pool.size() < target) spawn(pool)\<close>; the first argument bounds the iterations.\<close>

fun spawn_loop :: "nat \<Rightarrow> int \<Rightarrow> engine \<Rightarrow> (engine_error, engine) result" where
  "spawn_loop 0 target en = Inr en"
| "spawn_loop (Suc n) target en =
     (if int (length (en_pool en)) < target
      then bindE (spawn_slave en) (spawn_loop n target)
      else Inr en)"

fun seal_loop :: "env \<Rightarrow> nat \<Rightarrow> engine \<Rightarrow> engine" where
  "seal_loop e 0 en = en"
| "seal_loop e (Suc n) en =
     (case select_by slave_active (en_pool en) of
        None \<Rightarrow> en
      | Some (k, s) \<Rightarrow>
          (case slave_seal e s of
             Inl _ \<Rightarrow> seal_loop e n en
           | Inr s' \<Rightarrow> seal_loop e n (put_slave k s s' en)))"

definition automatic_target :: "engine \<Rightarrow> (engine_error, int) result" where
  "automatic_target en =
     (let pr = en_profile en; load = int (length (en_queue en))
      in if 0 < pr_queue_limit pr
         then if pr_grow_threshold pr = 0 then Inl Division_by_zero
              else Inr (load div int (pr_grow_threshold pr))
         else
           let pressure = pool_pressure (en_pool en);
               vacant = size_sub (size_mul (int (length (en_pool en))) (int (pr_concurrency pr))) pressure;
               lack = (if load < vacant then 0 else ceil_div (load - vacant) (int (pr_concurrency pr)))
           in Inr (int (length (en_pool en)) + lack))"

definition population_target :: "engine \<Rightarrow> (engine_error, int) result" where
  "population_target en =
     bindE (if 0 < en_pool_target en then Inr (en_pool_target en) else automatic_target en)
       (\<lambda>target. Inr (clamp target 1 (int (pr_pool_limit (en_profile en)))))"

definition rebalance_slaves :: "env \<Rightarrow> engine \<Rightarrow> (engine_error, engine) result" where
  "rebalance_slaves e en =
     (if en_stopped en then Inr en
      else bindE (population_target en) (\<lambda>target.
        if en_timer en then Inr en
        else if 0 < en_pool_target en
        then if target \<le> int (length (en_pool en))
             then Inr (seal_loop e (active_workers (en_pool en) - nat target) en)
             else spawn_loop (nat target - length (en_pool en)) target en
        else if pr_pool_limit (en_profile en) \<le> length (en_pool en) then Inr en
        else spawn_loop (nat target - length (en_pool en)) target en))"

definition control_population :: "env \<Rightarrow> int \<Rightarrow> engine \<Rightarrow> (engine_error, engine) result" where
  "control_population e count en = rebalance_slaves e (en\<lparr>en_pool_target := max 0 count\<rparr>)"

section \<open>Requests, handshakes and deaths\<close>

definition queue_admits :: "engine \<Rightarrow> bool" where
  "queue_admits en =
     (let pr = en_profile en; size = int (length (en_queue en))
      in if 0 < pr_queue_limit pr then size < int (pr_queue_limit pr)
         else size < size_sub (size_mul (int (pr_pool_limit pr)) (int (pr_concurrency pr)))
                       (pool_pressure (en_pool en)))"

definition enqueue_failed :: "env \<Rightarrow> engine_error \<Rightarrow> engine \<Rightarrow> engine_error \<times> engine" where
  "enqueue_failed e err en =
     (let en = rebalance_events e (en\<lparr>en_rejected := en_rejected en + 1\<rparr>)
      in case rebalance_slaves e en of Inl err' \<Rightarrow> (err', en) | Inr en' \<Rightarrow> (err, en'))"

definition enqueue :: "env \<Rightarrow> event \<Rightarrow> engine \<Rightarrow> (engine_error, engine) result \<times> engine" where
  "enqueue e ev en =
     (if queue_admits en
      then
        let ld = \<lparr>ld_event = ev, ld_dispatch = new_client_dispatch\<rparr>;
            en = en\<lparr>en_queue := en_queue en @ [ld], en_accepted := en_accepted en + 1\<rparr>;
            en = rebalance_events e (log_e (Accepted ev) en)
        in case rebalance_slaves e en of
             Inr en' \<Rightarrow> (Inr en', en')
           | Inl Division_by_zero \<Rightarrow> (Inl Division_by_zero, en)
           | Inl err \<Rightarrow> (let (err', en') = enqueue_failed e err en in (Inl err', en'))
      else
        let (err, en') = enqueue_failed e (Code (overseer_error_code Queue_is_full)) en
        in (Inl err, en'))"

datatype despawn_policy = Graceful | Force

definition remove_slave :: "env \<Rightarrow> string \<Rightarrow> slave \<Rightarrow> engine \<Rightarrow> engine" where
  "remove_slave e k s en =
     (let m = slave_dtor e s
      in en\<lparr>en_pool := um_erase k (en_pool en), en_gone := en_gone en @ [m],
            en_posted := en_posted en @ replicate (handler_calls (sl_machine s) m) Rebalance_events\<rparr>)"

definition despawn :: "env \<Rightarrow> string \<Rightarrow> despawn_policy \<Rightarrow> engine \<Rightarrow> (engine_error, engine) result" where
  "despawn e k policy en =
     (case um_find k (en_pool en) of
        None \<Rightarrow> Inr en
      | Some s \<Rightarrow>
          (case policy of
             Graceful \<Rightarrow>
               (case slave_seal e s of Inl ec \<Rightarrow> Inl (Code ec) | Inr s' \<Rightarrow> Inr (put_slave k s s' en))
           | Force \<Rightarrow>
               Inr (log_e (Observed_despawned k) (post_e Rebalance_slaves (remove_slave e k s en)))))"

definition on_handshake :: "string \<Rightarrow> engine \<Rightarrow> nat option \<times> engine" where
  "on_handshake k en =
     (case um_find k (en_pool en) of
        None \<Rightarrow> (None, en)
      | Some s \<Rightarrow>
          (case machine_activate (sl_machine s) of
             Inl _ \<Rightarrow> (None, en)
           | Inr (control, m) \<Rightarrow>
               let en = put_slave k s (s\<lparr>sl_machine := m\<rparr>) en
               in case control of
                    None \<Rightarrow> (None, en)
                  | Some c \<Rightarrow> (Some c, log_e Observed_spawned (post_e Rebalance_events en))))"

definition backoff :: "int \<Rightarrow> engine \<Rightarrow> engine" where
  "backoff now en =
     (let en = (if en_timer en then en
                else en\<lparr>en_timer := True,
                        en_last_timeout := (if now - en_last_failed en < 32 * 1000
                          then min (en_last_timeout en * 2) 32 else 1)\<rparr>)
      in en\<lparr>en_last_failed := now\<rparr>)"

definition on_slave_death :: "env \<Rightarrow> error_code \<Rightarrow> string \<Rightarrow> engine \<Rightarrow> engine" where
  "on_slave_death e ec k en =
     (let en = (if is_error ec then (backoff (e_now e) en)\<lparr>en_crashed := en_crashed en + 1\<rparr> else en);
          en = (case um_find k (en_pool en) of
                  None \<Rightarrow> en
                | Some s \<Rightarrow> remove_slave e k (slave_terminate ec s) en)
      in post_e Rebalance_slaves (log_e (Observed_despawned k) en))"

definition on_spawn_rate_timeout :: "env \<Rightarrow> engine \<Rightarrow> (engine_error, engine) result" where
  "on_spawn_rate_timeout e en = rebalance_slaves e (en\<lparr>en_timer := False\<rparr>)"

definition clear_pool :: "env \<Rightarrow> engine \<Rightarrow> engine" where
  "clear_pool e en = fold (\<lambda>(k, s). remove_slave e k s) (en_pool en) en"

definition overseer_dtor :: "env \<Rightarrow> engine \<Rightarrow> (engine_error, engine) result" where
  "overseer_dtor e en =
     bindE (control_population e 0 (en\<lparr>en_stopped := True\<rparr>)) (\<lambda>en. Inr ((clear_pool e en)\<lparr>en_timer := False\<rparr>))"

section \<open>Steps\<close>

text \<open>
  The events a slave of the pool receives without the engine: all but those the
  engine itself issues.
\<close>

fun external_event :: "slave_event \<Rightarrow> bool" where
  "external_event Activate = False"
| "external_event (Inject _) = False"
| "external_event Seal = False"
| "external_event (Terminate _) = False"
| "external_event _ = True"

datatype engine_event =
    Enqueue event
  | Control_population int
  | Despawn string despawn_policy
  | Handshake string
  | Run_posted
  | Spawn_rate_timeout
  | Slave_event string slave_event
  | Gone_event nat slave_event
  | Queued_client nat client_event
  | Stop

text \<open>The codes of the cleanup handler calls a machine has just made.\<close>

definition cleanup_calls :: "machine \<Rightarrow> machine \<Rightarrow> error_code list" where
  "cleanup_calls m m' = List.map_filter (\<lambda>x. case x of E_cleanup ec \<Rightarrow> Some ec | _ \<Rightarrow> None)
     (drop (length (m_log m)) (m_log m'))"

definition on_slave_event :: "env \<Rightarrow> string \<Rightarrow> slave_event \<Rightarrow> engine \<Rightarrow> engine option" where
  "on_slave_event e k ev en =
     (case um_find k (en_pool en) of
        None \<Rightarrow> None
      | Some s \<Rightarrow>
          if external_event ev
          then map_option (\<lambda>m. fold (\<lambda>ec. on_slave_death e ec k) (cleanup_calls (sl_machine s) m)
                 (put_slave k s (s\<lparr>sl_machine := m\<rparr>) en)) (slave_step e ev (sl_machine s))
          else None)"

definition on_gone_event :: "env \<Rightarrow> nat \<Rightarrow> slave_event \<Rightarrow> engine \<Rightarrow> engine option" where
  "on_gone_event e i ev en =
     (if i < length (en_gone en) \<and> external_event ev
      then map_option (\<lambda>m. fold (\<lambda>ec. on_slave_death e ec (m_id m)) (cleanup_calls (en_gone en ! i) m)
             (en\<lparr>en_gone := (en_gone en)[i := m],
                 en_posted := en_posted en @ replicate (handler_calls (en_gone en ! i) m) Rebalance_events\<rparr>))
           (slave_step e ev (en_gone en ! i))
      else None)"

definition on_queued_client :: "nat \<Rightarrow> client_event \<Rightarrow> engine \<Rightarrow> engine option" where
  "on_queued_client i ce en =
     (if i < length (en_queue en)
      then let ld = en_queue en ! i
           in Some (en\<lparr>en_queue := (en_queue en)[i := ld\<lparr>ld_dispatch := fst (client_step ce (ld_dispatch ld))\<rparr>]\<rparr>)
      else None)"

definition ok_result :: "('e, 'a) result \<Rightarrow> 'a option" where
  "ok_result r = (case r of Inl _ \<Rightarrow> None | Inr a \<Rightarrow> Some a)"

text \<open>An exception that leaves the engine unchanged is a step to the same state; a division by zero has no next state.\<close>

fun engine_step :: "env \<Rightarrow> engine_event \<Rightarrow> engine \<Rightarrow> engine option" where
  "engine_step e (Enqueue ev) en =
     (case enqueue e ev en of (Inl Division_by_zero, _) \<Rightarrow> None | (_, en') \<Rightarrow> Some en')"
| "engine_step e (Control_population n) en = ok_result (control_population e n en)"
| "engine_step e (Despawn k policy) en = (case despawn e k policy en of Inl _ \<Rightarrow> Some en | Inr en' \<Rightarrow> Some en')"
| "engine_step e (Handshake k) en = Some (snd (on_handshake k en))"
| "engine_step e Run_posted en =
     (case en_posted en of
        [] \<Rightarrow> None
      | Rebalance_events # ps \<Rightarrow> Some (rebalance_events e (en\<lparr>en_posted := ps\<rparr>))
      | Rebalance_slaves # ps \<Rightarrow> ok_result (rebalance_slaves e (en\<lparr>en_posted := ps\<rparr>)))"
| "engine_step e Spawn_rate_timeout en = (if en_timer en then ok_result (on_spawn_rate_timeout e en) else None)"
| "engine_step e (Slave_event k ev) en = on_slave_event e k ev en"
| "engine_step e (Gone_event i ev) en = on_gone_event e i ev en"
| "engine_step e (Queued_client i ce) en = on_queued_client i ce en"
| "engine_step e Stop en = ok_result (overseer_dtor e en)"

inductive engine_reachable :: "manifest \<Rightarrow> profile \<Rightarrow> (nat \<Rightarrow> string) \<Rightarrow> engine \<Rightarrow> bool"
  for mf pr ids where
  engine_init: "engine_reachable mf pr ids (new_engine mf pr ids)"
| engine_next: "engine_reachable mf pr ids en \<Longrightarrow> engine_step e ev en = Some en' \<Longrightarrow> engine_reachable mf pr ids en'"

section \<open>What the engine relies on of a slave\<close>

text \<open>
  The contract of a slave towards its engine: taking a request adds at most one
  to the load, sealing an active slave succeeds and leaves it inactive, and
  nothing else a slave does raises its load.
\<close>

locale slave_contract =
  fixes active :: "'s \<Rightarrow> bool"
    and load :: "'s \<Rightarrow> nat"
    and inj :: "'l \<Rightarrow> 's \<Rightarrow> 'r \<times> 's"
    and seal :: "'s \<Rightarrow> ('e, 's) result"
  assumes inj_load: "load (snd (inj l s)) \<le> Suc (load s)"
    and seal_ok: "active s \<Longrightarrow> is_ok (seal s)"
    and seal_stops: "seal s = Inr s' \<Longrightarrow> \<not> active s' \<and> load s' \<le> load s"
begin

definition total :: "('k, 's) umap \<Rightarrow> nat" where
  "total p = sum_list (map (load \<circ> snd) p)"

definition count_active :: "('k, 's) umap \<Rightarrow> nat" where
  "count_active p = length (filter (active \<circ> snd) p)"

definition put :: "'k \<Rightarrow> 's \<Rightarrow> ('k, 's) umap \<Rightarrow> ('k, 's) umap" where
  "put k s p = map (\<lambda>(k', x). (k', if k' = k then s else x)) p"

lemma keys_put [simp]: "um_keys (put k s p) = um_keys p"
  by (auto simp: put_def um_keys_def)

lemma put_absent: "k \<notin> set (um_keys p) \<Longrightarrow> put k s p = p"
  by (induction p) (auto simp: put_def um_keys_def)

lemma total_put:
  "distinct (um_keys p) \<Longrightarrow> um_find k p = Some s \<Longrightarrow> total (put k s' p) + load s = total p + load s'"
proof (induction p)
  case (Cons x p)
  show ?case
  proof (cases "fst x = k")
    case True
    then have "put k s' p = p" using Cons.prems by (intro put_absent) (auto simp: um_keys_def)
    then show ?thesis using True Cons.prems by (cases x) (auto simp: put_def total_def)
  next
    case False
    then show ?thesis using Cons by (cases x) (auto simp: put_def total_def um_keys_def)
  qed
qed simp

lemma count_active_put:
  "distinct (um_keys p) \<Longrightarrow> um_find k p = Some s \<Longrightarrow>
     count_active (put k s' p) + (if active s then 1 else 0) = count_active p + (if active s' then 1 else 0)"
proof (induction p)
  case (Cons x p)
  show ?case
  proof (cases "fst x = k")
    case True
    then have "put k s' p = p" using Cons.prems by (intro put_absent) (auto simp: um_keys_def)
    then show ?thesis using True Cons.prems by (cases x) (auto simp: put_def count_active_def)
  next
    case False
    then show ?thesis using Cons by (cases x) (auto simp: put_def count_active_def um_keys_def split: if_splits)
  qed
qed simp

text \<open>Assigning a request keeps every load within the concurrency and adds at most one to the total.\<close>

lemma inj_capacity:
  assumes "distinct (um_keys p)" "um_find k p = Some s" "load s < n" "\<forall>(k, s) \<in> set p. load s \<le> n"
  shows "(\<forall>(k, s) \<in> set (put k (snd (inj l s)) p). load s \<le> n) \<and> total (put k (snd (inj l s)) p) \<le> Suc (total p)"
proof -
  have "load (snd (inj l s)) \<le> n" using inj_load [of l s] assms(3) by linarith
  then have "\<forall>(k, s) \<in> set (put k (snd (inj l s)) p). load s \<le> n"
    using assms(4) by (auto simp: put_def split: prod.splits)
  moreover have "total (put k (snd (inj l s)) p) \<le> Suc (total p)"
    using total_put [OF assms(1,2), of "snd (inj l s)"] inj_load [of l s] by linarith
  ultimately show ?thesis by blast
qed

text \<open>Replacing a slave by one with no more load.\<close>

lemma put_capacity:
  assumes "distinct (um_keys p)" "um_find k p = Some s" "load s' \<le> load s" "\<forall>(k, s) \<in> set p. load s \<le> n"
  shows "(\<forall>(k, s) \<in> set (put k s' p). load s \<le> n) \<and> total (put k s' p) \<le> total p"
proof -
  have "load s' \<le> n" using assms(3,4) um_find_SomeD [OF assms(2)] by (auto simp: split_beta)
  then have "\<forall>(k, s) \<in> set (put k s' p). load s \<le> n"
    using assms(4) by (auto simp: put_def split: prod.splits)
  then show ?thesis using total_put [OF assms(1,2), of s'] assms(3) by linarith
qed

text \<open>Sealing an active slave takes exactly one from the active ones.\<close>

lemma seal_one:
  assumes "distinct (um_keys p)" "um_find k p = Some s" "active s"
  shows "\<exists>s'. seal s = Inr s' \<and> Suc (count_active (put k s' p)) = count_active p"
proof -
  obtain s' where "seal s = Inr s'" using seal_ok [OF assms(3)] by (auto simp: is_ok_conv)
  then show ?thesis
    using count_active_put [OF assms(1,2), of s'] seal_stops assms(3) by auto
qed

end

section \<open>Loads of a machine\<close>

lemma load_shutdown: "length (m_channels (shutdown ec m)) \<le> length (m_channels m)"
  by simp

lemma load_control_terminate: "length (m_channels (control_terminate e p ec m)) \<le> length (m_channels m)"
  by (simp add: control_terminate_def split: option.splits)

lemma load_terminate:
  "length (m_channels (state_terminate e ec m)) \<le> length (m_channels m)"
  "length (m_channels (seal_terminate e ec m)) \<le> length (m_channels m)"
  using load_control_terminate
  by (auto simp: state_terminate_def active_terminate_def seal_terminate_def terminate_start_def Let_def
      split: state.splits intro: order_trans [OF load_control_terminate])

lemma load_machine_terminate: "length (m_channels (machine_terminate e ec m)) \<le> length (m_channels m)"
  using load_terminate(1) [of e ec "m\<lparr>m_closed := True\<rparr>"] by (simp add: machine_terminate_def)

lemma load_revoke: "length (m_channels (revoke e i m)) \<le> length (m_channels m)"
proof -
  let ?a = "erase_timers [i] (m\<lparr>m_channels := filter (\<lambda>j. j \<noteq> i) (m_channels m)\<rparr>)"
  have "length (m_channels (state_terminate e (make_error_code Slave_is_sealing) ?a)) \<le> length (m_channels ?a)"
    by (rule load_terminate)
  then show ?thesis
    by (auto simp: revoke_def Let_def intro: order_trans [OF _ length_filter_le])
qed

lemma load_on_channel: "length (m_channels (on_channel e i f m)) \<le> length (m_channels m)"
  using load_revoke [of e i "upd_conv i _ m"]
  by (auto simp: on_channel_def Let_def split: option.splits prod.splits)

lemma load_dispatch:
  "length (m_channels (on_worker e i f m)) \<le> length (m_channels m)"
  "length (m_channels (on_client e i g m)) \<le> length (m_channels m)"
  "length (m_channels (inject_attach e i m)) \<le> length (m_channels m)"
  using load_on_channel [of e i _ "upd_conv i _ m"]
  by (auto simp: on_worker_def on_client_def inject_attach_def worker_callback_def client_callback_def Let_def
      split: option.splits prod.splits)

lemma load_request_discard: "length (m_channels (request_discard e i m)) \<le> length (m_channels m)"
  unfolding request_discard_def Let_def by (rule order_trans [OF load_dispatch(1) load_dispatch(2)])

lemma load_inject: "length (m_channels (snd (inject e ld m))) \<le> Suc (length (m_channels m))"
proof (cases "m_state m = Active \<and> e_fork_ok e \<and> e_invoke_ok e")
  case True
  define i where "i = m_counter m + 1"
  define a where "a = inject_admit e ld i (eff (E_invoke i (ev_name (ld_event ld))) (m\<lparr>m_counter := i\<rparr>))"
  have "length (m_channels (inject_timer e ld i a)) \<le> length (m_channels a)"
    by (simp add: inject_timer_def Let_def load_request_discard)
  then have "length (m_channels (on_channel e i watch (inject_attach e i (inject_timer e ld i a)))) \<le> length (m_channels a)"
    by (meson load_on_channel load_dispatch(3) order_trans)
  moreover have "length (m_channels a) = Suc (length (m_channels m))"
    by (simp add: a_def inject_admit_def Let_def)
  moreover have "snd (inject e ld m) = on_channel e i watch (inject_attach e i (inject_timer e ld i a))"
    using True by (simp add: inject_def Let_def a_def i_def)
  ultimately show ?thesis by simp
qed (auto simp: inject_def Let_def split: state.splits)

lemma seal_outcome:
  "machine_seal e m = Inr m' \<Longrightarrow> m_state m' \<noteq> Active \<and> length (m_channels m') \<le> length (m_channels m)"
proof -
  let ?ec = "make_error_code Slave_is_sealing"
  have "m_state (seal_terminate e ?ec a) \<noteq> Active" for a
    by (auto simp: seal_terminate_def terminate_start_def control_terminate_def shutdown_state Let_def fault_def
        migrate_def eff_def split: option.splits)
  moreover have "length (m_channels (seal_terminate e ?ec (migrate Sealing (m\<lparr>se_control := c, ac_control := None\<rparr>)))) \<le> length (m_channels m)" for c
    using load_terminate(2) [of e ?ec "migrate Sealing (m\<lparr>se_control := c, ac_control := None\<rparr>)"] by simp
  ultimately show "machine_seal e m = Inr m' \<Longrightarrow> m_state m' \<noteq> Active \<and> length (m_channels m') \<le> length (m_channels m)"
    by (auto simp: machine_seal_def active_seal_def seal_start_def Let_def split: state.splits if_splits)
qed

lemma load_spawn: "length (m_channels (spawn e tk m)) \<le> length (m_channels m)"
  by (auto simp: spawn_def split: option.splits list.splits isolate_result.splits)

lemma load_run_post: "length (m_channels (run_post e p m)) \<le> length (m_channels m)"
  using load_spawn [of e _ "migrate Spawning m"]
  by (cases p) (auto simp: preparation_start_def on_refresh_def load_on_channel)

lemma load_timer:
  "m_channels (upd_timer t f m) = m_channels m"
  "length (m_channels (on_timeout e t m)) \<le> length (m_channels m)"
  by (cases t; simp add: spawn_on_timeout_def handshaking_on_timeout_def seal_on_timeout_def load_terminate
      terminate_on_timeout_def control_on_timeout_def load_request_discard)+

lemma load_activation:
  "m_channels (handshaking_to_active i m) = m_channels m"
  "m_channels (snd (handshaking_activate m)) = m_channels m"
  "m_channels (snd (spawn_activate m)) = m_channels m"
  "m_channels (on_spawn m) = m_channels m"
  by (auto simp: handshaking_to_active_def control_start_def handshaking_activate_def spawn_activate_def
      add_control_def on_spawn_def handshaking_start_def Let_def case_prod_beta split: option.splits)

lemma load_activate: "machine_activate m = Inr (c, m') \<Longrightarrow> m_channels m' = m_channels m"
  using load_activation(2,3) [of m] by (auto simp: machine_activate_def split: state.splits)

lemma load_destroy: "destroy h m = Some m' \<Longrightarrow> m_channels m' = m_channels m"
  by (cases h) (auto simp: spawn_dtor_def active_dtor_def terminate_dtor_def control_cancel_def
      split: option.splits if_splits)

lemma load_step:
  assumes "external_event ev" "slave_step e ev m = Some m'"
  shows "length (m_channels m') \<le> length (m_channels m)"
  using assms load_run_post [of e _ "m\<lparr>m_posted := _\<rparr>"] load_timer(2) [of e _ "upd_timer _ _ m"]
  by (cases ev)
     (auto simp: slave_step_def preparation_token_def handle_on_ready_def handle_on_terminate_def machine_output_def
       control_on_terminate_def control_discard_def on_heartbeat_def load_activation load_dispatch load_timer(1)
       split: if_splits list.splits dest: load_destroy)

section \<open>The slaves meet the contract\<close>

lemma machine_seal_active: "machine_active m \<Longrightarrow> is_ok (machine_seal e m)"
  by (simp add: machine_active_def state_active_def machine_seal_def)

interpretation sc: slave_contract slave_active slave_load "slave_inject e" "slave_seal e" for e
proof
  fix l s
  show "slave_load (snd (slave_inject e l s)) \<le> Suc (slave_load s)"
    using load_inject [of e l "sl_machine s"]
    by (simp add: slave_inject_def slave_load_def machine_load_def case_prod_beta)
next
  fix s
  assume "slave_active s"
  then show "is_ok (slave_seal e s)"
    using machine_seal_active [of "sl_machine s" e] by (auto simp: slave_active_def slave_seal_def is_ok_conv)
next
  fix s s'
  assume "slave_seal e s = Inr s'"
  then show "\<not> slave_active s' \<and> slave_load s' \<le> slave_load s"
    using seal_outcome
    by (auto simp: slave_seal_def bindE_Inr_conv slave_active_def machine_active_def state_active_def
        slave_load_def machine_load_def)
qed

definition total_load :: "pool \<Rightarrow> nat" where
  "total_load p = sum_list (map (slave_load \<circ> snd) p)"

lemma total_load_sc: "total_load = sc.total"
  by (simp add: fun_eq_iff total_load_def sc.total_def)

lemma active_workers_sc: "active_workers = sc.count_active"
  by (simp add: fun_eq_iff active_workers_def sc.count_active_def comp_def case_prod_beta')

lemma put_slave_pool: "en_pool (put_slave k s s' en) = sc.put k s' (en_pool en)"
  by (simp add: put_slave_def sc.put_def)

section \<open>Selection\<close>

lemma min_element_None [simp]: "min_element f xs = None \<longleftrightarrow> xs = []"
  by (cases xs) (auto split: option.splits)

lemma min_element_Some: "min_element f xs = Some x \<Longrightarrow> x \<in> set xs \<and> (\<forall>y \<in> set xs. f x \<le> f y)"
proof (induction xs arbitrary: x)
  case (Cons a xs)
  show ?case
  proof (cases "min_element f xs")
    case None
    then show ?thesis using Cons.prems by simp
  next
    case (Some y)
    then show ?thesis using Cons by (auto split: if_splits intro: order_trans)
  qed
qed simp

lemma select_by_Some:
  assumes "distinct (um_keys p)" "select_by q p = Some (k, s)"
  shows "um_find k p = Some s \<and> q s \<and> (\<forall>k' s'. um_find k' p = Some s' \<and> q s' \<longrightarrow> slave_load s \<le> slave_load s')"
proof -
  have "(k, s) \<in> set p" "q s" "\<forall>(k', s') \<in> set p. q s' \<longrightarrow> slave_load s \<le> slave_load s'"
    using min_element_Some [OF assms(2) [unfolded select_by_def]] by auto
  then show ?thesis using assms(1) by (auto simp: um_find_in_set dest: um_find_SomeD)
qed

lemma select_by_None: "select_by q p = None \<longleftrightarrow> (\<forall>(k, s) \<in> set p. \<not> q s)"
  by (auto simp: select_by_def filter_empty_conv)

text \<open>
  The slave chosen for an event is one of the pool that is active and below the
  concurrency limit and has the least load among those; none is chosen exactly
  when there is no such slave.
\<close>

theorem select_slave_least_loaded:
  assumes "distinct (um_keys p)"
  shows "case select_slave pr p of
           None \<Rightarrow> \<forall>k s. um_find k p = Some s \<longrightarrow> \<not> eligible pr s
         | Some (k, s) \<Rightarrow> um_find k p = Some s \<and> eligible pr s \<and>
             (\<forall>k' s'. um_find k' p = Some s' \<and> eligible pr s' \<longrightarrow> slave_load s \<le> slave_load s')"
proof (cases "select_slave pr p")
  case None
  then show ?thesis
    using select_by_None [of "eligible pr" p] by (auto simp: select_slave_def dest: um_find_SomeD)
next
  case (Some ks)
  then show ?thesis
    using select_by_Some [OF assms, of "eligible pr"] by (cases ks) (auto simp: select_slave_def)
qed

section \<open>Arithmetic of the pool\<close>

lemma int32_id: "- (2 ^ 31) \<le> x \<Longrightarrow> x < 2 ^ 31 \<Longrightarrow> int32 x = x"
  by (simp add: int32_def)

lemma pressure_fold:
  "0 \<le> acc \<Longrightarrow> acc + int (total_load p) < 2 ^ 31 \<Longrightarrow>
     fold (\<lambda>(k, s) acc. int32 (acc + int (slave_load s))) p acc = acc + int (total_load p)"
proof (induction p arbitrary: acc)
  case (Cons x p)
  then have "int32 (acc + int (slave_load (snd x))) = acc + int (slave_load (snd x))"
    by (intro int32_id) (auto simp: total_load_def)
  then show ?case using Cons by (simp add: total_load_def case_prod_beta add.assoc)
qed (simp add: total_load_def)

lemma pool_pressure_exact: "total_load p < 2 ^ 31 \<Longrightarrow> pool_pressure p = int (total_load p)"
  using pressure_fold [of 0 p] by (simp add: pool_pressure_def)

lemma size_sub_exact: "0 \<le> b \<Longrightarrow> b \<le> a \<Longrightarrow> a < 2 ^ 64 \<Longrightarrow> size_sub a b = a - b"
  by (simp add: size_sub_def)

definition profile_ok :: "profile \<Rightarrow> bool" where
  "profile_ok pr \<longleftrightarrow> 1 \<le> pr_pool_limit pr \<and> 1 \<le> pr_concurrency pr \<and> 1 \<le> pr_grow_threshold pr \<and>
     pr_pool_limit pr * pr_concurrency pr < 2 ^ 31"

lemma total_load_le: "\<forall>(k, s) \<in> set p. slave_load s \<le> c \<Longrightarrow> total_load p \<le> length p * c"
proof (induction p)
  case (Cons x p)
  then have "slave_load (snd x) \<le> c" "total_load p \<le> length p * c" by (auto simp: split_beta)
  then show ?case by (simp add: total_load_def)
qed (simp add: total_load_def)

section \<open>The engine invariant\<close>

definition timeouts :: "int set" where
  "timeouts = {1, 2, 4, 8, 16, 32}"

text \<open>The pool is within its limit, every slave within the concurrency, identifiers are used once.\<close>

definition pool_ok :: "engine \<Rightarrow> bool" where
  "pool_ok en \<longleftrightarrow>
     distinct (um_keys (en_pool en)) \<and>
     length (en_pool en) \<le> pr_pool_limit (en_profile en) \<and>
     (\<forall>(k, s) \<in> set (en_pool en). slave_load s \<le> pr_concurrency (en_profile en)) \<and>
     set (um_keys (en_pool en)) \<subseteq> en_ids en ` {..<en_next_id en}"

text \<open>
  With a queue limit the queue is within it; without one, queue and load
  together are within what a full pool can process at once.
\<close>

definition queue_ok :: "engine \<Rightarrow> bool" where
  "queue_ok en \<longleftrightarrow>
     (if 0 < pr_queue_limit (en_profile en)
      then length (en_queue en) \<le> pr_queue_limit (en_profile en)
      else length (en_queue en) + total_load (en_pool en) \<le>
             pr_pool_limit (en_profile en) * pr_concurrency (en_profile en)) \<and>
     list_all (\<lambda>ld. cd_state (ld_dispatch ld) \<noteq> C_bound) (en_queue en)"

definition engine_ok :: "engine \<Rightarrow> bool" where
  "engine_ok en \<longleftrightarrow> pool_ok en \<and> queue_ok en \<and> 0 \<le> en_pool_target en \<and> en_last_timeout en \<in> timeouts"

definition same_config :: "engine \<Rightarrow> engine \<Rightarrow> bool" where
  "same_config en en' \<longleftrightarrow> en_profile en' = en_profile en \<and> en_ids en' = en_ids en \<and> en_manifest en' = en_manifest en"

lemma pool_ok_capacity:
  "pool_ok en \<Longrightarrow> total_load (en_pool en) \<le> length (en_pool en) * pr_concurrency (en_profile en)"
  "pool_ok en \<Longrightarrow> total_load (en_pool en) \<le> pr_pool_limit (en_profile en) * pr_concurrency (en_profile en)"
proof -
  assume ok: "pool_ok en"
  show le: "total_load (en_pool en) \<le> length (en_pool en) * pr_concurrency (en_profile en)"
    using ok by (intro total_load_le) (simp add: pool_ok_def)
  have "length (en_pool en) * pr_concurrency (en_profile en) \<le> pr_pool_limit (en_profile en) * pr_concurrency (en_profile en)"
    using ok by (simp add: pool_ok_def)
  with le show "total_load (en_pool en) \<le> pr_pool_limit (en_profile en) * pr_concurrency (en_profile en)"
    by (rule order_trans)
qed

lemma pressure_exact:
  "pool_ok en \<Longrightarrow> profile_ok (en_profile en) \<Longrightarrow> pool_pressure (en_pool en) = int (total_load (en_pool en))"
  using pool_ok_capacity(2) [of en] by (intro pool_pressure_exact) (auto simp: profile_ok_def)

text \<open>Replacing a slave by one with no more load.\<close>

lemma put_slave_ok:
  assumes "engine_ok en" "um_find k (en_pool en) = Some s" "slave_load s' \<le> slave_load s"
  shows "engine_ok (put_slave k s s' en)"
proof -
  have d: "distinct (um_keys (en_pool en))" using assms(1) by (simp add: engine_ok_def pool_ok_def)
  have "(\<forall>(k, s) \<in> set (sc.put k s' (en_pool en)). slave_load s \<le> pr_concurrency (en_profile en)) \<and>
      sc.total (sc.put k s' (en_pool en)) \<le> sc.total (en_pool en)"
    using assms(1) by (intro sc.put_capacity [OF d assms(2,3)]) (simp add: engine_ok_def pool_ok_def)
  moreover have "length (sc.put k s' (en_pool en)) = length (en_pool en)"
    by (simp add: sc.put_def)
  ultimately show ?thesis
    using assms(1)
    by (auto simp: engine_ok_def pool_ok_def queue_ok_def put_slave_def sc.put_def [symmetric] total_load_sc
        split: if_splits)
qed

lemma load_inject_fails: "inject e ld m = (Inl ec, m') \<Longrightarrow> m_channels m' = m_channels m"
  by (auto simp: inject_def Let_def split: state.splits if_splits)

lemma slave_inject_fails: "slave_inject e ld s = (Inl ec, s') \<Longrightarrow> slave_load s' = slave_load s"
  using load_inject_fails [of e ld "sl_machine s"]
  by (auto simp: slave_inject_def slave_load_def machine_load_def split: prod.splits)

lemma engine_ok_tail:
  "engine_ok (en\<lparr>en_queue := ld # q\<rparr>) \<Longrightarrow> engine_ok (en\<lparr>en_queue := q\<rparr>)"
  by (auto simp: engine_ok_def pool_ok_def queue_ok_def split: if_splits)

lemma engine_ok_frames [simp]:
  "engine_ok (log_e x en) = engine_ok en" "engine_ok (post_e p en) = engine_ok en"
  "engine_ok (en\<lparr>en_posted := ps\<rparr>) = engine_ok en" "engine_ok (en\<lparr>en_accepted := n\<rparr>) = engine_ok en"
  "engine_ok (en\<lparr>en_rejected := n\<rparr>) = engine_ok en" "engine_ok (en\<lparr>en_crashed := n\<rparr>) = engine_ok en"
  "engine_ok (en\<lparr>en_timer := b\<rparr>) = engine_ok en" "engine_ok (en\<lparr>en_last_failed := t\<rparr>) = engine_ok en"
  "engine_ok (en\<lparr>en_stopped := b\<rparr>) = engine_ok en" "engine_ok (en\<lparr>en_gone := g\<rparr>) = engine_ok en"
  by (simp_all add: engine_ok_def pool_ok_def queue_ok_def log_e_def post_e_def)

lemma queue_update_commutes:
  "(log_e x en)\<lparr>en_queue := q\<rparr> = log_e x (en\<lparr>en_queue := q\<rparr>)"
  "(put_slave k s s' en)\<lparr>en_queue := q\<rparr> = put_slave k s s' (en\<lparr>en_queue := q\<rparr>)"
  by (cases en; simp add: log_e_def put_slave_def)+

lemma inject_ok:
  assumes "engine_ok (en\<lparr>en_queue := ld # q\<rparr>)" "select_slave (en_profile en) (en_pool en) = Some (k, s)"
  shows "engine_ok (put_slave k s (snd (slave_inject e ld s)) (en\<lparr>en_queue := q\<rparr>))"
proof -
  have d: "distinct (um_keys (en_pool en))" using assms(1) by (simp add: engine_ok_def pool_ok_def)
  have sel: "um_find k (en_pool en) = Some s" "slave_load s < pr_concurrency (en_profile en)"
    using select_by_Some [OF d assms(2) [unfolded select_slave_def]] by (simp_all add: eligible_def)
  let ?s = "snd (slave_inject e ld s)"
  have cap: "(\<forall>(k, s) \<in> set (sc.put k ?s (en_pool en)). slave_load s \<le> pr_concurrency (en_profile en)) \<and>
      sc.total (sc.put k ?s (en_pool en)) \<le> Suc (sc.total (en_pool en))"
    using assms(1) by (intro sc.inj_capacity [OF d sel]) (simp add: engine_ok_def pool_ok_def)
  have "length (sc.put k ?s (en_pool en)) = length (en_pool en)"
    by (simp add: sc.put_def)
  with cap show ?thesis
    using assms(1)
    by (auto simp: engine_ok_def pool_ok_def queue_ok_def put_slave_def sc.put_def [symmetric] total_load_sc
        split: if_splits)
qed

lemma config_frames [simp]:
  "en_profile (log_e x en) = en_profile en" "en_profile (put_slave k s s' en) = en_profile en"
  "en_profile (post_e p en) = en_profile en"
  by (simp_all add: log_e_def put_slave_def post_e_def)

lemma events_loop_ok: "engine_ok (en\<lparr>en_queue := q\<rparr>) \<Longrightarrow> engine_ok (events_loop e q en)"
proof (induction q arbitrary: en)
  case (Cons ld q)
  show ?case
  proof (cases "select_slave (en_profile en) (en_pool en)")
    case None
    then show ?thesis using Cons.prems by simp
  next
    case (Some ks)
    obtain k s where ks: "ks = (k, s)" by force
    have "distinct (um_keys (en_pool en))" using Cons.prems by (simp add: engine_ok_def pool_ok_def)
    then have find: "um_find k (en_pool en) = Some s"
      using select_by_Some Some ks by (auto simp: select_slave_def)
    show ?thesis
    proof (cases "event_expired e (en_profile en) (ld_event ld)")
      case True
      have "engine_ok ((log_e (Dropped (ld_event ld)) en)\<lparr>en_queue := q\<rparr>)"
        using engine_ok_tail [OF Cons.prems] by (simp add: queue_update_commutes)
      then show ?thesis using Cons.IH Some ks True by (simp add: assign_def Let_def)
    next
      case False
      obtain r s' where inj: "slave_inject e ld s = (r, s')" by force
      show ?thesis
      proof (cases r)
        case (Inl ec)
        have "engine_ok (put_slave k s s' (en\<lparr>en_queue := ld # q\<rparr>))"
          using Cons.prems find slave_inject_fails [OF inj [unfolded Inl]] by (intro put_slave_ok) simp_all
        then show ?thesis using Some ks False inj Inl by (simp add: assign_def Let_def queue_update_commutes)
      next
        case (Inr i)
        have "engine_ok ((log_e (Assigned k (ld_event ld)) (put_slave k s s' en))\<lparr>en_queue := q\<rparr>)"
          using inject_ok [OF Cons.prems Some [unfolded ks], of e] inj by (simp add: queue_update_commutes)
        then show ?thesis using Cons.IH Some ks False inj Inr by (simp add: assign_def Let_def)
      qed
    qed
  qed
qed simp

lemma rebalance_events_ok: "engine_ok en \<Longrightarrow> engine_ok (rebalance_events e en)"
  by (simp add: rebalance_events_def events_loop_ok)

lemma new_slave_load [simp]: "slave_load (new_slave k mf pr) = 0"
  by (simp add: slave_load_def machine_load_def new_slave_def start_def new_machine_def)

lemma total_load_snoc [simp]: "total_load (p @ [(k, s)]) = total_load p + slave_load s"
  by (simp add: total_load_def)

lemma um_keys_snoc [simp]: "um_keys (p @ [(k, s)]) = um_keys p @ [k]"
  by (simp add: um_keys_def)

definition fresh_id :: "engine \<Rightarrow> bool" where
  "fresh_id en \<longleftrightarrow> en_ids en (en_next_id en) \<notin> set (um_keys (en_pool en))"

lemma fresh_id_ok: "pool_ok en \<Longrightarrow> inj (en_ids en) \<Longrightarrow> fresh_id en"
  by (auto simp: fresh_id_def pool_ok_def dest: injD)

lemma spawn_slave_ok:
  assumes "engine_ok en" "inj (en_ids en)" "length (en_pool en) < pr_pool_limit (en_profile en)"
  shows "\<exists>en'. spawn_slave en = Inr en' \<and> engine_ok en' \<and> same_config en en' \<and>
    length (en_pool en') = Suc (length (en_pool en)) \<and> en_queue en' = en_queue en \<and> en_log en' = en_log en"
proof -
  have "fresh_id en" using assms(1,2) fresh_id_ok by (simp add: engine_ok_def)
  moreover have "set (um_keys (en_pool en)) \<subseteq> en_ids en ` {..<Suc (en_next_id en)}"
    using assms(1) by (auto simp: engine_ok_def pool_ok_def lessThan_Suc)
  ultimately show ?thesis
    using assms
    by (auto simp: spawn_slave_def fresh_id_def Let_def engine_ok_def pool_ok_def queue_ok_def same_config_def)
qed

lemma spawn_loop_ok:
  assumes "engine_ok en" "inj (en_ids en)" "target \<le> int (pr_pool_limit (en_profile en))"
    "nat target - length (en_pool en) \<le> n"
  shows "\<exists>en'. spawn_loop n target en = Inr en' \<and> engine_ok en' \<and> same_config en en' \<and>
    length (en_pool en') = max (length (en_pool en)) (nat target) \<and> en_queue en' = en_queue en \<and> en_log en' = en_log en"
  using assms
proof (induction n arbitrary: en)
  case 0
  then show ?case by (auto simp: same_config_def max_def)
next
  case (Suc n)
  show ?case
  proof (cases "int (length (en_pool en)) < target")
    case True
    then have "length (en_pool en) < pr_pool_limit (en_profile en)" using Suc.prems(3) by linarith
    then obtain en' where en': "spawn_slave en = Inr en'" "engine_ok en'" "same_config en en'"
        "length (en_pool en') = Suc (length (en_pool en))" "en_queue en' = en_queue en" "en_log en' = en_log en"
      using spawn_slave_ok Suc.prems(1,2) by blast
    then have "\<exists>en''. spawn_loop n target en' = Inr en'' \<and> engine_ok en'' \<and> same_config en' en'' \<and>
        length (en_pool en'') = max (length (en_pool en')) (nat target) \<and> en_queue en'' = en_queue en' \<and> en_log en'' = en_log en'"
      using Suc.prems by (intro Suc.IH) (auto simp: same_config_def)
    then show ?thesis using en' True by (auto simp: same_config_def)
  next
    case False
    then show ?thesis using Suc.prems by (auto simp: same_config_def max_def)
  qed
qed

lemma sealed_load: "slave_seal e s = Inr s' \<Longrightarrow> slave_load s' \<le> slave_load s"
  using sc.seal_stops by blast

lemma seal_loop_ok:
  assumes "engine_ok en"
  shows "engine_ok (seal_loop e n en) \<and> same_config en (seal_loop e n en) \<and>
    length (en_pool (seal_loop e n en)) = length (en_pool en) \<and>
    active_workers (en_pool (seal_loop e n en)) = active_workers (en_pool en) - n \<and>
    en_queue (seal_loop e n en) = en_queue en \<and> en_log (seal_loop e n en) = en_log en"
  using assms
proof (induction n arbitrary: en)
  case 0
  then show ?case by (simp add: same_config_def)
next
  case (Suc n)
  have d: "distinct (um_keys (en_pool en))" using Suc.prems by (simp add: engine_ok_def pool_ok_def)
  show ?case
  proof (cases "select_by slave_active (en_pool en)")
    case None
    then have "active_workers (en_pool en) = 0"
      by (auto simp: select_by_None active_workers_def filter_empty_conv)
    then show ?thesis using None Suc.prems by (simp add: same_config_def)
  next
    case (Some ks)
    obtain k s where ks: "ks = (k, s)" by force
    have sel: "um_find k (en_pool en) = Some s" "slave_active s"
      using select_by_Some [OF d] Some ks by auto
    obtain s' where s': "slave_seal e s = Inr s'"
        "Suc (sc.count_active (sc.put k s' (en_pool en))) = sc.count_active (en_pool en)"
      using sc.seal_one [OF d sel] by blast
    let ?en = "put_slave k s s' en"
    have ok: "engine_ok ?en" using put_slave_ok [OF Suc.prems sel(1) sealed_load [OF s'(1)]] .
    have act: "active_workers (en_pool ?en) = active_workers (en_pool en) - 1"
      using s'(2) by (simp add: active_workers_sc put_slave_pool)
    have frames: "length (en_pool ?en) = length (en_pool en)" "en_queue ?en = en_queue en" "en_log ?en = en_log en"
        "same_config en ?en"
      by (simp_all add: put_slave_def same_config_def)
    have "seal_loop e (Suc n) en = seal_loop e n ?en" using Some ks s'(1) by simp
    then show ?thesis using Suc.IH [OF ok] act frames by (auto simp: same_config_def)
  qed
qed

lemma population_target_range:
  assumes "profile_ok (en_profile en)"
  shows "\<exists>t. population_target en = Inr t \<and> 1 \<le> t \<and> t \<le> int (pr_pool_limit (en_profile en))"
  using assms
  by (auto simp: population_target_def automatic_target_def clamp_def profile_ok_def Let_def)

lemma rebalance_slaves_spec:
  assumes "engine_ok en" "profile_ok (en_profile en)" "inj (en_ids en)"
  shows "\<exists>target en'. population_target en = Inr target \<and> 1 \<le> target \<and> target \<le> int (pr_pool_limit (en_profile en)) \<and>
    rebalance_slaves e en = Inr en' \<and> engine_ok en' \<and> same_config en en' \<and>
    en_queue en' = en_queue en \<and> en_log en' = en_log en \<and>
    length (en_pool en') = (if en_stopped en \<or> en_timer en then length (en_pool en)
       else max (length (en_pool en)) (nat target)) \<and>
    (\<not> en_stopped en \<and> \<not> en_timer en \<and> 0 < en_pool_target en \<and> nat target \<le> length (en_pool en) \<longrightarrow>
       active_workers (en_pool en') = min (active_workers (en_pool en)) (nat target))"
proof -
  obtain t where t: "population_target en = Inr t" "1 \<le> t" "t \<le> int (pr_pool_limit (en_profile en))"
    using population_target_range [OF assms(2)] by blast
  have size: "length (en_pool en) \<le> pr_pool_limit (en_profile en)"
    using assms(1) by (simp add: engine_ok_def pool_ok_def)
  obtain sp where sp: "spawn_loop (nat t - length (en_pool en)) t en = Inr sp" "engine_ok sp" "same_config en sp"
      "length (en_pool sp) = max (length (en_pool en)) (nat t)" "en_queue sp = en_queue en" "en_log sp = en_log en"
    using spawn_loop_ok [OF assms(1,3) t(3) order_refl] by blast
  note seal = seal_loop_ok [OF assms(1), of e "active_workers (en_pool en) - nat t"]
  consider "en_stopped en \<or> en_timer en" | "\<not> en_stopped en" "\<not> en_timer en" "0 < en_pool_target en" "t \<le> int (length (en_pool en))"
    | "\<not> en_stopped en" "\<not> en_timer en" "0 < en_pool_target en" "\<not> t \<le> int (length (en_pool en))"
    | "\<not> en_stopped en" "\<not> en_timer en" "\<not> 0 < en_pool_target en" by blast
  then show ?thesis
  proof cases
    case 1
    then show ?thesis using t assms(1) by (auto simp: rebalance_slaves_def same_config_def)
  next
    case 2
    then have "rebalance_slaves e en = Inr (seal_loop e (active_workers (en_pool en) - nat t) en)"
      using t by (simp add: rebalance_slaves_def)
    then show ?thesis using seal t 2 by (auto simp: max_def min_def)
  next
    case 3
    then have "rebalance_slaves e en = Inr sp" using t sp by (simp add: rebalance_slaves_def)
    then show ?thesis using sp t 3 by auto
  next
    case 4
    show ?thesis
    proof (cases "pr_pool_limit (en_profile en) \<le> length (en_pool en)")
      case True
      then have "rebalance_slaves e en = Inr en" using t 4 by (simp add: rebalance_slaves_def)
      then show ?thesis using t 4 True size assms(1) by (auto simp: same_config_def max_def)
    next
      case False
      then have "rebalance_slaves e en = Inr sp" using t 4 sp by (simp add: rebalance_slaves_def)
      then show ?thesis using sp t 4 by auto
    qed
  qed
qed

lemma rebalance_slaves_ok:
  assumes "engine_ok en" "profile_ok (en_profile en)" "inj (en_ids en)"
  shows "\<exists>en'. rebalance_slaves e en = Inr en' \<and> engine_ok en' \<and> same_config en en' \<and>
    en_queue en' = en_queue en \<and> en_log en' = en_log en"
  using rebalance_slaves_spec [OF assms, of e] by blast

lemma same_config_refl [simp]: "same_config en en"
  by (simp add: same_config_def)

lemma same_config_trans: "same_config a b \<Longrightarrow> same_config b c \<Longrightarrow> same_config a c"
  by (simp add: same_config_def)

lemma assign_config:
  assumes "assign e ks ld en = (r, en')"
  shows "same_config en en'" and "r = Inr en'' \<Longrightarrow> same_config en en''"
  using assms
  by (auto simp: assign_def Let_def same_config_def put_slave_def log_e_def split: prod.splits if_splits sum.splits)

lemma same_config_fields [simp]:
  "same_config en (en'\<lparr>en_queue := q\<rparr>) = same_config en en'" "same_config en (post_e p en') = same_config en en'"
  "same_config en (log_e x en') = same_config en en'" "same_config en (put_slave k s s' en') = same_config en en'"
  by (simp_all add: same_config_def post_e_def log_e_def put_slave_def)

lemma events_loop_config: "same_config en (events_loop e q en)"
proof (induction q arbitrary: en)
  case (Cons ld q)
  show ?case
  proof (cases "select_slave (en_profile en) (en_pool en)")
    case (Some ks)
    obtain r en' where a: "assign e ks ld en = (r, en')" by force
    show ?thesis
    proof (cases r)
      case (Inr en'')
      then show ?thesis
        using Some a same_config_trans [OF assign_config(2) [OF a Inr] Cons [of en'']] by simp
    qed (use Some a assign_config(1) [OF a] in simp)
  qed simp
qed simp

lemma rebalance_events_config: "same_config en (rebalance_events e en)"
  by (simp add: rebalance_events_def events_loop_config)

lemma push_ok:
  assumes "engine_ok en" "profile_ok (en_profile en)" "queue_admits en" "cd_state (ld_dispatch ld) \<noteq> C_bound"
  shows "engine_ok (en\<lparr>en_queue := en_queue en @ [ld], en_accepted := n\<rparr>)"
proof (cases "0 < pr_queue_limit (en_profile en)")
  case True
  then show ?thesis
    using assms by (auto simp: queue_admits_def engine_ok_def pool_ok_def queue_ok_def Let_def)
next
  case False
  let ?cap = "pr_pool_limit (en_profile en) * pr_concurrency (en_profile en)"
  have pool: "pool_ok en" using assms(1) by (simp add: engine_ok_def)
  have le: "total_load (en_pool en) \<le> ?cap" using pool_ok_capacity(2) [OF pool] .
  have "?cap < 2 ^ 31" using assms(2) by (simp add: profile_ok_def)
  then have "int ?cap < int (2 ^ 31)" by (simp only: of_nat_less_iff)
  then have cap: "int ?cap < 2 ^ 31" by simp
  have "size_mul (int (pr_pool_limit (en_profile en))) (int (pr_concurrency (en_profile en))) = int ?cap"
    using cap by (simp add: size_mul_def)
  moreover have "size_sub (int ?cap) (int (total_load (en_pool en))) = int ?cap - int (total_load (en_pool en))"
    by (rule size_sub_exact) (use cap le in \<open>simp_all only: of_nat_le_iff of_nat_0_le_iff, simp\<close>)
  ultimately have "int (length (en_queue en)) + int (total_load (en_pool en)) < int ?cap"
    using assms(3) False pressure_exact [OF pool assms(2)] by (simp add: queue_admits_def Let_def)
  then have "length (en_queue en) + total_load (en_pool en) < ?cap"
    by (simp only: of_nat_add [symmetric] of_nat_less_iff)
  then show ?thesis
    using assms(1,4) False by (auto simp: engine_ok_def pool_ok_def queue_ok_def)
qed

lemma enqueue_failed_ok:
  assumes "engine_ok en" "profile_ok (en_profile en)" "inj (en_ids en)"
  shows "engine_ok (snd (enqueue_failed e err en)) \<and> same_config en (snd (enqueue_failed e err en)) \<and>
    fst (enqueue_failed e err en) = err"
proof -
  let ?en = "rebalance_events e (en\<lparr>en_rejected := en_rejected en + 1\<rparr>)"
  have ok: "engine_ok ?en" "same_config en ?en"
    using assms(1) rebalance_events_config [of "en\<lparr>en_rejected := en_rejected en + 1\<rparr>" e]
    by (auto simp: rebalance_events_ok same_config_def)
  then obtain en' where "rebalance_slaves e ?en = Inr en'" "engine_ok en'" "same_config ?en en'"
    using rebalance_slaves_ok [of ?en e] assms by (auto simp: same_config_def)
  then show ?thesis
    using ok(2) same_config_trans by (auto simp: enqueue_failed_def Let_def)
qed

lemma enqueue_ok:
  assumes "engine_ok en" "profile_ok (en_profile en)" "inj (en_ids en)"
  shows "engine_ok (snd (enqueue e ev en)) \<and> same_config en (snd (enqueue e ev en)) \<and>
    fst (enqueue e ev en) = (if queue_admits en then Inr (snd (enqueue e ev en))
      else Inl (Code (overseer_error_code Queue_is_full)))"
proof (cases "queue_admits en")
  case True
  let ?en = "en\<lparr>en_queue := en_queue en @ [\<lparr>ld_event = ev, ld_dispatch = new_client_dispatch\<rparr>],
      en_accepted := en_accepted en + 1\<rparr>"
  let ?en' = "rebalance_events e (log_e (Accepted ev) ?en)"
  have "engine_ok ?en"
    using push_ok [OF assms(1,2) True] by (simp add: new_client_dispatch_def)
  then have ok: "engine_ok ?en'"
    by (simp add: rebalance_events_ok del: engine_ok_frames(4))
  have cfg: "same_config en ?en'"
    using rebalance_events_config [of "log_e (Accepted ev) ?en" e] by (simp add: same_config_def log_e_def)
  have "profile_ok (en_profile ?en')" "inj (en_ids ?en')" using cfg assms(2,3) by (simp_all add: same_config_def)
  from rebalance_slaves_ok [OF ok this, of e] obtain en' where
    "rebalance_slaves e ?en' = Inr en'" "engine_ok en'" "same_config ?en' en'" by blast
  then show ?thesis
    using True same_config_trans [OF cfg] by (auto simp: enqueue_def Let_def)
next
  case False
  then show ?thesis
    using enqueue_failed_ok [OF assms, of e "Code (overseer_error_code Queue_is_full)"]
    by (simp add: enqueue_def case_prod_beta)
qed

lemma total_load_erase: "total_load (um_erase k p) \<le> total_load p"
  by (induction p) (auto simp: total_load_def um_erase_def)

lemma remove_slave_ok: "engine_ok en \<Longrightarrow> engine_ok (remove_slave e k s en)"
proof -
  assume ok: "engine_ok en"
  let ?p = "um_erase k (en_pool en)"
  have "length ?p \<le> length (en_pool en)" "set ?p \<subseteq> set (en_pool en)" "set (um_keys ?p) \<subseteq> set (um_keys (en_pool en))"
    by (auto simp: set_um_erase um_keys_erase) (simp add: um_erase_def AList.delete_eq)
  then show ?thesis
    using ok total_load_erase [of k "en_pool en"]
    by (fastforce simp: engine_ok_def pool_ok_def queue_ok_def remove_slave_def Let_def)
qed

lemma backoff_ok: "engine_ok en \<Longrightarrow> engine_ok (backoff now en)"
  by (auto simp: engine_ok_def pool_ok_def queue_ok_def backoff_def Let_def timeouts_def)

lemma on_slave_death_ok: "engine_ok en \<Longrightarrow> engine_ok (on_slave_death e ec k en)"
  by (auto simp: on_slave_death_def Let_def backoff_ok remove_slave_ok split: option.splits)

lemma fold_death_ok: "engine_ok en \<Longrightarrow> engine_ok (fold (\<lambda>ec. on_slave_death e ec k) ecs en)"
  by (induction ecs arbitrary: en) (simp_all add: on_slave_death_ok)

lemma on_slave_event_ok:
  assumes "engine_ok en" "on_slave_event e k ev en = Some en'"
  shows "engine_ok en'"
proof -
  obtain s m where s: "um_find k (en_pool en) = Some s" "external_event ev" "slave_step e ev (sl_machine s) = Some m"
      "en' = fold (\<lambda>ec. on_slave_death e ec k) (cleanup_calls (sl_machine s) m) (put_slave k s (s\<lparr>sl_machine := m\<rparr>) en)"
    using assms(2) by (auto simp: on_slave_event_def split: option.splits if_splits)
  have "slave_load (s\<lparr>sl_machine := m\<rparr>) \<le> slave_load s"
    using load_step [OF s(2,3)] by (simp add: slave_load_def machine_load_def)
  then show ?thesis using put_slave_ok [OF assms(1) s(1)] s(4) fold_death_ok by simp
qed

lemma on_gone_event_ok: "engine_ok en \<Longrightarrow> on_gone_event e i ev en = Some en' \<Longrightarrow> engine_ok en'"
  by (auto simp: on_gone_event_def fold_death_ok split: if_splits)

lemma on_handshake_ok: "engine_ok en \<Longrightarrow> engine_ok (snd (on_handshake k en))"
  by (auto simp: on_handshake_def Let_def slave_load_def machine_load_def split: option.splits sum.splits
      dest: load_activate intro!: put_slave_ok)

lemma despawn_ok: "engine_ok en \<Longrightarrow> despawn e k policy en = Inr en' \<Longrightarrow> engine_ok en'"
  by (auto simp: despawn_def remove_slave_ok sealed_load put_slave_ok
      split: option.splits sum.splits despawn_policy.splits)

lemma on_queued_client_ok:
  assumes "engine_ok en" "on_queued_client i ce en = Some en'"
  shows "engine_ok en'"
proof -
  have "cd_state (fst (client_step ce c)) \<noteq> C_bound" if "cd_state c \<noteq> C_bound" for c
    using that client_step_state(1,2) [of c ce] by (cases "cd_state c") auto
  then show ?thesis
    using assms
    by (cases "i < length (en_queue en)")
       (auto simp: on_queued_client_def Let_def engine_ok_def pool_ok_def queue_ok_def list_all_length nth_list_update
         split: if_splits)
qed

lemma clear_pool_ok: "engine_ok en \<Longrightarrow> engine_ok (clear_pool e en)"
proof -
  have "engine_ok (fold (\<lambda>(k, s). remove_slave e k s) p en)" if "engine_ok en" for p en
    using that by (induction p arbitrary: en) (auto simp: remove_slave_ok)
  then show "engine_ok en \<Longrightarrow> engine_ok (clear_pool e en)" by (simp add: clear_pool_def)
qed

lemma remove_slave_config [simp]: "same_config en (remove_slave e k s en') = same_config en en'"
  by (simp add: same_config_def remove_slave_def Let_def)

lemma on_slave_death_config: "same_config en (on_slave_death e ec k en)"
  by (auto simp: on_slave_death_def Let_def split: option.splits) (auto simp: same_config_def backoff_def Let_def)

lemma fold_death_config: "same_config a en \<Longrightarrow> same_config a (fold (\<lambda>ec. on_slave_death e ec k) ecs en)"
proof (induction ecs arbitrary: en)
  case (Cons ec ecs)
  show ?case using Cons.IH [OF same_config_trans [OF Cons.prems on_slave_death_config]] by simp
qed simp

lemma slave_events_config:
  "on_slave_event e k ev en = Some en' \<Longrightarrow> same_config en en'"
  "on_gone_event e i ev en = Some en' \<Longrightarrow> same_config en en'"
  by (auto simp: on_slave_event_def on_gone_event_def split: option.splits if_splits intro!: fold_death_config)
     (simp add: same_config_def)

lemma handshake_config: "same_config en (snd (on_handshake k en))"
  by (auto simp: on_handshake_def Let_def split: option.splits sum.splits)

lemma despawn_config: "despawn e k policy en = Inr en' \<Longrightarrow> same_config en en'"
  by (auto simp: despawn_def split: option.splits sum.splits despawn_policy.splits)

lemma queued_client_config: "on_queued_client i ce en = Some en' \<Longrightarrow> same_config en en'"
  by (auto simp: on_queued_client_def Let_def split: if_splits)

lemma clear_pool_config: "same_config en (clear_pool e en)"
proof -
  have "same_config en (fold (\<lambda>(k, s). remove_slave e k s) p en')" if "same_config en en'" for p en'
    using that by (induction p arbitrary: en') auto
  then show ?thesis by (simp add: clear_pool_def)
qed

lemma rebalance_via:
  assumes "engine_ok en" "profile_ok (en_profile en)" "inj (en_ids en)" "rebalance_slaves e en = Inr en'"
  shows "engine_ok en' \<and> same_config en en'"
  using rebalance_slaves_ok [OF assms(1-3), of e] assms(4) by auto

theorem engine_step_ok:
  assumes "engine_ok en" "profile_ok (en_profile en)" "inj (en_ids en)" "engine_step e ev en = Some en'"
  shows "engine_ok en' \<and> same_config en en'"
proof (cases ev)
  case (Enqueue x)
  then have "en' = snd (enqueue e x en)"
    using assms(4) by (auto split: prod.splits sum.splits engine_error.splits)
  then show ?thesis using enqueue_ok [OF assms(1-3), of e x] by blast
next
  case (Control_population n)
  let ?en = "en\<lparr>en_pool_target := max 0 n\<rparr>"
  have en: "engine_ok ?en" "same_config en ?en"
    using assms(1) by (auto simp: engine_ok_def pool_ok_def queue_ok_def same_config_def)
  have "rebalance_slaves e ?en = Inr en'"
    using Control_population assms(4) by (simp add: control_population_def ok_result_def split: sum.splits)
  then show ?thesis using rebalance_via [OF en(1), of e en'] assms(2,3) en(2) same_config_trans by auto
next
  case (Despawn k policy)
  then show ?thesis
    using assms despawn_ok despawn_config by (auto split: sum.splits)
next
  case (Handshake k)
  then show ?thesis using assms on_handshake_ok handshake_config by auto
next
  case Run_posted
  show ?thesis
  proof (cases "en_posted en")
    case (Cons p ps)
    let ?en = "en\<lparr>en_posted := ps\<rparr>"
    have en: "engine_ok ?en" "same_config en ?en" using assms(1) by (simp_all add: same_config_def)
    show ?thesis
    proof (cases p)
      case Rebalance_events
      then show ?thesis
        using Run_posted Cons assms(4) rebalance_events_ok [OF en(1)] same_config_trans [OF en(2) rebalance_events_config]
        by auto
    next
      case Rebalance_slaves
      then have "rebalance_slaves e ?en = Inr en'"
        using Run_posted Cons assms(4) by (auto simp: ok_result_def split: sum.splits)
      then show ?thesis
        using rebalance_via [OF en(1), of e en'] assms(2,3) en(2) same_config_trans by auto
    qed
  qed (use Run_posted assms(4) in simp)
next
  case Spawn_rate_timeout
  let ?en = "en\<lparr>en_timer := False\<rparr>"
  have en: "engine_ok ?en" "same_config en ?en" using assms(1) by (simp_all add: same_config_def)
  have "rebalance_slaves e ?en = Inr en'"
    using Spawn_rate_timeout assms(4)
    by (simp add: ok_result_def on_spawn_rate_timeout_def split: if_splits sum.splits)
  then show ?thesis using rebalance_via [OF en(1), of e en'] assms(2,3) en(2) same_config_trans by auto
next
  case (Slave_event k x)
  then show ?thesis using assms on_slave_event_ok slave_events_config(1) by auto
next
  case (Gone_event i x)
  then show ?thesis using assms on_gone_event_ok slave_events_config(2) by auto
next
  case (Queued_client i ce)
  then show ?thesis using assms on_queued_client_ok queued_client_config by auto
next
  case Stop
  let ?en = "en\<lparr>en_stopped := True, en_pool_target := max 0 0\<rparr>"
  have en: "engine_ok ?en" "same_config en ?en"
    using assms(1) by (auto simp: engine_ok_def pool_ok_def queue_ok_def same_config_def)
  obtain a where a: "rebalance_slaves e ?en = Inr a" "en' = (clear_pool e a)\<lparr>en_timer := False\<rparr>"
    using Stop assms(4)
    by (auto simp: overseer_dtor_def control_population_def ok_result_def bindE_Inr_conv split: sum.splits)
  have "engine_ok a" "same_config en a"
    using rebalance_via [OF en(1), of e a] assms(2,3) en(2) a(1) same_config_trans by auto
  then show ?thesis
    using a(2) clear_pool_ok [of a e] same_config_trans [OF _ clear_pool_config, of en a e] by (simp add: same_config_def)
qed

lemma reachable_engine_ok:
  assumes "engine_reachable mf pr ids en" "profile_ok pr" "inj ids"
  shows "engine_ok en \<and> en_profile en = pr \<and> en_ids en = ids"
  using assms(1)
proof (induction rule: engine_reachable.induct)
  case engine_init
  then show ?case
    by (simp add: new_engine_def engine_ok_def pool_ok_def queue_ok_def um_keys_def total_load_def timeouts_def)
next
  case (engine_next en e ev en')
  then show ?case using engine_step_ok [of en e ev en'] assms(2,3) by (auto simp: same_config_def)
qed

section \<open>Properties of the engine\<close>

text \<open>
  C3:
  Over every interleaving of requests, deaths, handshakes, timers and despawns,
  the pool never holds more slaves than its limit, no slave carries more
  requests than the concurrency, and the queue stays within its limit; without
  a queue limit, queued and running requests together never exceed what a full
  pool can run.
\<close>

theorem engine_capacity:
  assumes "engine_reachable mf pr ids en" and "profile_ok pr" and "inj ids"
  shows "length (en_pool en) \<le> pr_pool_limit pr \<and>
    (\<forall>k s. um_find k (en_pool en) = Some s \<longrightarrow> slave_load s \<le> pr_concurrency pr) \<and>
    (if 0 < pr_queue_limit pr then length (en_queue en) \<le> pr_queue_limit pr
     else length (en_queue en) + total_load (en_pool en) \<le> pr_pool_limit pr * pr_concurrency pr)"
  using reachable_engine_ok [OF assms]
  by (auto simp: engine_ok_def pool_ok_def queue_ok_def dest: um_find_SomeD split: if_splits)

text \<open>Events in the order they were accepted, and in the order they left the queue.\<close>

definition accepted_events :: "engine \<Rightarrow> event list" where
  "accepted_events en = List.map_filter (\<lambda>x. case x of Accepted ev \<Rightarrow> Some ev | _ \<Rightarrow> None) (en_log en)"

definition taken_events :: "engine \<Rightarrow> event list" where
  "taken_events en = List.map_filter
     (\<lambda>x. case x of Assigned _ ev \<Rightarrow> Some ev | Dropped ev \<Rightarrow> Some ev | _ \<Rightarrow> None) (en_log en)"

definition fifo :: "engine \<Rightarrow> bool" where
  "fifo en \<longleftrightarrow> accepted_events en = taken_events en @ map ld_event (en_queue en)"

lemma map_filter_snoc [simp]:
  "List.map_filter f (xs @ [x]) = List.map_filter f xs @ (case f x of None \<Rightarrow> [] | Some y \<Rightarrow> [y])"
  by (induction xs) (auto simp: List.map_filter_simps split: option.splits)

lemma fifo_log:
  "accepted_events (log_e x en) = accepted_events en @ (case x of Accepted ev \<Rightarrow> [ev] | _ \<Rightarrow> [])"
  "taken_events (log_e x en) =
     taken_events en @ (case x of Assigned _ ev \<Rightarrow> [ev] | Dropped ev \<Rightarrow> [ev] | _ \<Rightarrow> [])"
  by (cases x; simp add: accepted_events_def taken_events_def log_e_def)+

lemma fifo_cong: "en_log en' = en_log en \<Longrightarrow> map ld_event (en_queue en') = map ld_event (en_queue en) \<Longrightarrow> fifo en' = fifo en"
  by (simp add: fifo_def accepted_events_def taken_events_def)

lemma fifo_frames [simp]:
  "fifo (post_e p en) = fifo en" "fifo (put_slave k s s' en) = fifo en" "fifo (remove_slave e k s en) = fifo en"
  "fifo (backoff t en) = fifo en" "fifo (en\<lparr>en_crashed := n\<rparr>) = fifo en" "fifo (en\<lparr>en_rejected := n\<rparr>) = fifo en"
  "fifo (en\<lparr>en_posted := ps\<rparr>) = fifo en" "fifo (en\<lparr>en_timer := b\<rparr>) = fifo en" "fifo (en\<lparr>en_pool_target := z\<rparr>) = fifo en"
  "fifo (en\<lparr>en_gone := g\<rparr>) = fifo en" "fifo (en\<lparr>en_stopped := b\<rparr>) = fifo en"
  "fifo (log_e (Observed_despawned k) en) = fifo en" "fifo (log_e Observed_spawned en) = fifo en"
  by (simp_all add: fifo_def fifo_log)
     (simp_all add: accepted_events_def taken_events_def post_e_def put_slave_def remove_slave_def backoff_def log_e_def Let_def)

lemma fifo_take:
  "fifo (en\<lparr>en_queue := ld # q\<rparr>) \<Longrightarrow> x \<in> {Dropped (ld_event ld), Assigned k (ld_event ld)} \<Longrightarrow>
     fifo ((log_e x en)\<lparr>en_queue := q\<rparr>)"
  by (auto simp: fifo_def fifo_log queue_update_commutes) (auto simp: accepted_events_def taken_events_def log_e_def)

lemma fifo_queue_frames:
  "fifo ((post_e p en)\<lparr>en_queue := q\<rparr>) = fifo (en\<lparr>en_queue := q\<rparr>)"
  "fifo ((put_slave k s s' en)\<lparr>en_queue := q\<rparr>) = fifo (en\<lparr>en_queue := q\<rparr>)"
  by (simp_all add: fifo_def accepted_events_def taken_events_def post_e_def put_slave_def)

lemma events_loop_fifo: "fifo (en\<lparr>en_queue := q\<rparr>) \<Longrightarrow> fifo (events_loop e q en)"
proof (induction q arbitrary: en)
  case (Cons ld q)
  have put: "fifo ((put_slave k s s' en)\<lparr>en_queue := ld # q\<rparr>)" for k s s'
    using Cons.prems by (simp add: fifo_queue_frames)
  show ?case
  proof (cases "select_slave (en_profile en) (en_pool en)")
    case (Some ks)
    obtain k s where ks: "ks = (k, s)" by force
    obtain r s' where inj: "slave_inject e ld s = (r, s')" by force
    have "fifo ((log_e (Dropped (ld_event ld)) en)\<lparr>en_queue := q\<rparr>)"
      using fifo_take [OF Cons.prems] by blast
    moreover have "fifo ((log_e (Assigned k (ld_event ld)) (put_slave k s s' en))\<lparr>en_queue := q\<rparr>)"
      using fifo_take [OF put] by blast
    ultimately show ?thesis
      using Some ks inj Cons.IH put by (cases r) (simp_all add: assign_def Let_def)
  qed (use Cons.prems in simp)
qed simp

lemma rebalance_events_fifo: "fifo en \<Longrightarrow> fifo (rebalance_events e en)"
  by (simp add: rebalance_events_def events_loop_fifo)

lemma rebalance_slaves_fifo:
  assumes "engine_ok en" "profile_ok (en_profile en)" "inj (en_ids en)" "rebalance_slaves e en = Inr en'"
  shows "fifo en' = fifo en"
  using rebalance_slaves_ok [OF assms(1-3), of e] assms(4) fifo_cong [of en' en] by auto

lemma fold_death_fifo: "fifo (fold (\<lambda>ec. on_slave_death e ec k) ecs en) = fifo en"
proof (induction ecs arbitrary: en)
  case (Cons ec ecs)
  have "fifo (on_slave_death e ec k en) = fifo en"
    by (auto simp: on_slave_death_def Let_def split: option.splits)
  then show ?case using Cons by simp
qed simp

lemma clear_pool_fifo: "fifo (clear_pool e en) = fifo en"
proof -
  have "fifo (fold (\<lambda>(k, s). remove_slave e k s) p a) = fifo a" for p a
    by (induction p arbitrary: a) (simp_all add: case_prod_beta)
  then show ?thesis by (simp add: clear_pool_def)
qed

lemma enqueue_fifo:
  assumes "engine_ok en" "profile_ok (en_profile en)" "inj (en_ids en)" "fifo en"
  shows "fifo (snd (enqueue e ev en))"
proof -
  define a where "a = (if queue_admits en
    then log_e (Accepted ev) (en\<lparr>en_queue := en_queue en @ [\<lparr>ld_event = ev, ld_dispatch = new_client_dispatch\<rparr>],
           en_accepted := en_accepted en + 1\<rparr>)
    else en\<lparr>en_rejected := en_rejected en + 1\<rparr>)"
  have a: "engine_ok a" "same_config en a"
    using assms(1) push_ok [OF assms(1,2)]
    by (auto simp: a_def new_client_dispatch_def simp del: engine_ok_frames(4)) (auto simp: same_config_def)
  have "fifo a"
    using assms(4) by (auto simp: a_def fifo_def fifo_log) (auto simp: accepted_events_def taken_events_def log_e_def)
  then have b: "fifo (rebalance_events e a)" "engine_ok (rebalance_events e a)" "same_config en (rebalance_events e a)"
    using a rebalance_events_fifo rebalance_events_ok same_config_trans [OF _ rebalance_events_config] by auto
  then have "profile_ok (en_profile (rebalance_events e a))" "inj (en_ids (rebalance_events e a))"
    using assms(2,3) by (simp_all add: same_config_def)
  from rebalance_slaves_ok [OF b(2) this, of e] obtain c where c: "rebalance_slaves e (rebalance_events e a) = Inr c"
      "en_queue c = en_queue (rebalance_events e a)" "en_log c = en_log (rebalance_events e a)"
    by blast
  have "snd (enqueue e ev en) = c"
    using c(1) by (auto simp: enqueue_def enqueue_failed_def a_def Let_def)
  then show ?thesis using b(1) c(2,3) fifo_cong [of c "rebalance_events e a"] by simp
qed

lemma engine_step_fifo:
  assumes "engine_ok en" "profile_ok (en_profile en)" "inj (en_ids en)" "fifo en" "engine_step e ev en = Some en'"
  shows "fifo en'"
proof (cases ev)
  case (Enqueue x)
  then have "en' = snd (enqueue e x en)"
    using assms(5) by (auto split: prod.splits sum.splits engine_error.splits)
  then show ?thesis using enqueue_fifo [OF assms(1-4)] by simp
next
  case (Control_population n)
  let ?en = "en\<lparr>en_pool_target := max 0 n\<rparr>"
  have "engine_ok ?en" using assms(1) by (auto simp: engine_ok_def pool_ok_def queue_ok_def)
  moreover have "rebalance_slaves e ?en = Inr en'"
    using Control_population assms(5) by (simp add: control_population_def ok_result_def split: sum.splits)
  ultimately show ?thesis using rebalance_slaves_fifo [of ?en e en'] assms(2-4) by simp
next
  case (Despawn k policy)
  then show ?thesis
    using assms(4,5) by (auto simp: despawn_def split: option.splits sum.splits despawn_policy.splits)
next
  case (Handshake k)
  then show ?thesis
    using assms(4,5) by (auto simp: on_handshake_def Let_def split: option.splits sum.splits)
next
  case Run_posted
  show ?thesis
  proof (cases "en_posted en")
    case (Cons p ps)
    show ?thesis
    proof (cases p)
      case Rebalance_events
      then show ?thesis using Run_posted Cons assms(4,5) rebalance_events_fifo [of "en\<lparr>en_posted := ps\<rparr>" e] by auto
    next
      case Rebalance_slaves
      then have "rebalance_slaves e (en\<lparr>en_posted := ps\<rparr>) = Inr en'"
        using Run_posted Cons assms(5) by (auto simp: ok_result_def split: sum.splits)
      then show ?thesis using rebalance_slaves_fifo [of "en\<lparr>en_posted := ps\<rparr>" e en'] assms(1-4) by simp
    qed
  qed (use Run_posted assms(5) in simp)
next
  case Spawn_rate_timeout
  have "rebalance_slaves e (en\<lparr>en_timer := False\<rparr>) = Inr en'"
    using Spawn_rate_timeout assms(5)
    by (simp add: ok_result_def on_spawn_rate_timeout_def split: if_splits sum.splits)
  then show ?thesis using rebalance_slaves_fifo [of "en\<lparr>en_timer := False\<rparr>" e en'] assms(1-4) by simp
next
  case (Slave_event k x)
  then show ?thesis
    using assms(4,5) by (auto simp: on_slave_event_def fold_death_fifo split: option.splits if_splits)
next
  case (Gone_event i x)
  then show ?thesis
    using assms(4,5) fold_death_fifo fifo_frames by (auto simp: on_gone_event_def fold_death_fifo split: if_splits)
next
  case (Queued_client i ce)
  have "map ld_event ((en_queue en)[i := (en_queue en ! i)\<lparr>ld_dispatch := d\<rparr>]) = map ld_event (en_queue en)"
    if "i < length (en_queue en)" for d
    using that by (auto simp: map_update nth_list_update intro!: nth_equalityI)
  then show ?thesis
    using Queued_client assms(4,5) fifo_cong [of en' en]
    by (auto simp: on_queued_client_def Let_def split: if_splits)
next
  case Stop
  let ?en = "en\<lparr>en_stopped := True, en_pool_target := max 0 0\<rparr>"
  have en: "engine_ok ?en" using assms(1) by (auto simp: engine_ok_def pool_ok_def queue_ok_def)
  obtain a where a: "rebalance_slaves e ?en = Inr a" "en' = (clear_pool e a)\<lparr>en_timer := False\<rparr>"
    using Stop assms(5)
    by (auto simp: overseer_dtor_def control_population_def ok_result_def bindE_Inr_conv split: sum.splits)
  then show ?thesis using rebalance_slaves_fifo [OF en _ _ a(1)] assms(2-4) by (simp add: clear_pool_fifo)
qed

text \<open>
  C2:
  No accepted event is lost, duplicated or overtaken: in every reachable state
  the events the engine has accepted are, in order, those it has handed to a
  slave or dropped as expired followed by those still in the queue.
\<close>

theorem engine_fifo:
  assumes "engine_reachable mf pr ids en" and "profile_ok pr" and "inj ids"
  shows "accepted_events en = taken_events en @ map ld_event (en_queue en)"
proof -
  have "fifo en" using assms(1)
  proof (induction rule: engine_reachable.induct)
    case engine_init
    then show ?case by (simp add: new_engine_def fifo_def accepted_events_def taken_events_def List.map_filter_simps)
  next
    case (engine_next en e ev en')
    then show ?case
      using engine_step_fifo [of en e ev en'] reachable_engine_ok [OF engine_next(1) assms(2,3)] assms(2,3) by auto
  qed
  then show ?thesis by (simp add: fifo_def)
qed

lemma inject_accepts:
  assumes "slave_active s" "e_fork_ok e" "e_invoke_ok e"
  shows "\<exists>i s'. slave_inject e ld s = (Inr i, s')"
  using assms by (auto simp: slave_active_def machine_active_def state_active_def slave_inject_def inject_def Let_def)

lemma events_loop_greedy:
  fixes q :: "load list" and en :: engine
  assumes "engine_ok (en\<lparr>en_queue := q\<rparr>)" "e_fork_ok e" "e_invoke_ok e"
  shows "en_queue (events_loop e q en) = [] \<or>
    select_slave (en_profile (events_loop e q en)) (en_pool (events_loop e q en)) = None"
  using assms(1)
proof (induction q arbitrary: en)
  case (Cons ld q)
  show ?case
  proof (cases "select_slave (en_profile en) (en_pool en)")
    case (Some ks)
    obtain k s where ks: "ks = (k, s)" by force
    have "distinct (um_keys (en_pool en))" using Cons.prems by (simp add: engine_ok_def pool_ok_def)
    then have "eligible (en_profile en) s"
      using select_by_Some [of "en_pool en" "eligible (en_profile en)" k s] Some ks by (simp add: select_slave_def)
    then have "slave_active s" by (simp add: eligible_def)
    then obtain i s' where inj: "slave_inject e ld s = (Inr i, s')"
      using inject_accepts assms(2,3) by blast
    have "engine_ok ((log_e (Dropped (ld_event ld)) en)\<lparr>en_queue := q\<rparr>)"
      using engine_ok_tail [OF Cons.prems] by (simp add: queue_update_commutes)
    moreover have "engine_ok ((log_e (Assigned k (ld_event ld)) (put_slave k s s' en))\<lparr>en_queue := q\<rparr>)"
      using inject_ok [OF Cons.prems Some [unfolded ks], of e] inj by (simp add: queue_update_commutes)
    ultimately show ?thesis
      using Some ks inj Cons.IH by (simp add: assign_def Let_def)
  qed simp
qed simp

lemma events_loop_exit:
  "(\<exists>taken. q = taken @ en_queue (events_loop e q en)) \<and>
   (en_queue (events_loop e q en) = [] \<or>
    select_slave (en_profile (events_loop e q en)) (en_pool (events_loop e q en)) = None \<or>
    (\<exists>ps. en_posted (events_loop e q en) = ps @ [Rebalance_slaves]))"
proof (induction q arbitrary: en)
  case (Cons ld q)
  show ?case
  proof (cases "select_slave (en_profile en) (en_pool en)")
    case (Some ks)
    obtain r en1 where a: "assign e ks ld en = (r, en1)" by fastforce
    show ?thesis
    proof (cases r)
      case (Inr en')
      with Cons.IH [of en'] Some a show ?thesis by (auto intro: exI [of _ "ld # taken" for taken])
    qed (use Some a in \<open>simp add: post_e_def\<close>)
  qed simp
qed simp

text \<open>
  C18:
  Balancing the queue takes events from its front and stops in one of three cases
  only: the queue is empty; no active slave is below its concurrency; or a session
  refused the event it was given, because the worker's stream could not be opened or
  written to, and then the event is still in the queue and a rebalancing of the slaves is
  scheduled. If sessions take what they are given, no event waits while a slave is free.
\<close>

theorem rebalance_events_greedy:
  assumes "engine_reachable mf pr ids en" and "profile_ok pr" and "inj ids"
  shows "(\<exists>taken. en_queue en = taken @ en_queue (rebalance_events e en)) \<and>
    (en_queue (rebalance_events e en) = [] \<or>
     (\<forall>k s. um_find k (en_pool (rebalance_events e en)) = Some s \<longrightarrow> \<not> eligible pr s) \<or>
     \<not> (e_fork_ok e \<and> e_invoke_ok e) \<and> (\<exists>ps. en_posted (rebalance_events e en) = ps @ [Rebalance_slaves]))"
proof -
  have en: "engine_ok en" "en_profile en = pr" using reachable_engine_ok [OF assms(1-3)] by simp_all
  have pr: "en_profile (rebalance_events e en) = pr"
    using rebalance_events_config [of en e] en(2) by (simp add: same_config_def)
  have none: "\<forall>k s. um_find k (en_pool (rebalance_events e en)) = Some s \<longrightarrow> \<not> eligible pr s"
    if "select_slave pr (en_pool (rebalance_events e en)) = None"
    using that select_by_None [of "eligible pr" "en_pool (rebalance_events e en)"]
    by (auto simp: select_slave_def dest!: um_find_SomeD)
  show ?thesis
  proof (cases "en_pool en = []")
    case True
    then show ?thesis by (simp add: rebalance_events_def um_find_def)
  next
    case False
    then have loop: "rebalance_events e en = events_loop e (en_queue en) en" by (simp add: rebalance_events_def)
    from events_loop_greedy [of "en_queue en" en e] events_loop_exit [of "en_queue en" e en] en(1) none pr
    show ?thesis unfolding loop by auto
  qed
qed

text \<open>
  C15:
  Rebalancing never fails; its target lies between one and the pool limit, also
  when a population of zero was asked for.  Unless the engine is stopped or
  backing off, the pool is grown to the target, and when a manual target is
  below the pool's size exactly that many slaves stay active; otherwise the
  pool keeps its size.
\<close>

theorem rebalance_slaves_population:
  assumes "engine_reachable mf pr ids en" and "profile_ok pr" and "inj ids"
  shows "\<exists>target en'. population_target en = Inr target \<and> 1 \<le> target \<and> target \<le> int (pr_pool_limit pr) \<and>
    rebalance_slaves e en = Inr en' \<and>
    length (en_pool en') = (if en_stopped en \<or> en_timer en then length (en_pool en)
       else max (length (en_pool en)) (nat target)) \<and>
    (\<not> en_stopped en \<and> \<not> en_timer en \<and> 0 < en_pool_target en \<and> nat target \<le> length (en_pool en) \<longrightarrow>
       active_workers (en_pool en') = min (active_workers (en_pool en)) (nat target))"
  using rebalance_slaves_spec [of en e] reachable_engine_ok [OF assms] assms(2,3) by blast

text \<open>
  A request is accepted exactly when the queue is below its limit or, without a
  queue limit, when queued and running requests are fewer than a full pool can
  run; the unsigned arithmetic of that test never wraps.  Otherwise the caller
  gets the queue-is-full error and the rejection is counted.
\<close>

theorem enqueue_admission:
  assumes "engine_reachable mf pr ids en" and "profile_ok pr" and "inj ids"
  shows "fst (enqueue e ev en) =
    (if (if 0 < pr_queue_limit pr then length (en_queue en) < pr_queue_limit pr
         else length (en_queue en) + total_load (en_pool en) < pr_pool_limit pr * pr_concurrency pr)
     then Inr (snd (enqueue e ev en)) else Inl (Code (overseer_error_code Queue_is_full)))"
proof -
  have en: "engine_ok en" "en_profile en = pr" "en_ids en = ids"
    using reachable_engine_ok [OF assms] by simp_all
  let ?cap = "pr_pool_limit pr * pr_concurrency pr"
  have pool: "pool_ok en" using en(1) by (simp add: engine_ok_def)
  have le: "total_load (en_pool en) \<le> ?cap" using pool_ok_capacity(2) [OF pool] en(2) by simp
  have "?cap < 2 ^ 31" using assms(2) by (simp add: profile_ok_def)
  then have "int ?cap < int (2 ^ 31)" by (simp only: of_nat_less_iff)
  then have cap: "int ?cap < 2 ^ 31" by simp
  then have "size_mul (int (pr_pool_limit pr)) (int (pr_concurrency pr)) = int ?cap" by (simp add: size_mul_def)
  moreover have "size_sub (int ?cap) (int (total_load (en_pool en))) = int ?cap - int (total_load (en_pool en))"
    by (rule size_sub_exact) (use cap le in \<open>simp_all only: of_nat_le_iff of_nat_0_le_iff, simp\<close>)
  moreover have "(int n < int ?cap - int t) = (n + t < ?cap)" for n t
    by (simp only: less_diff_eq of_nat_add [symmetric] of_nat_less_iff)
  moreover have "pool_pressure (en_pool en) = int (total_load (en_pool en))"
    using pressure_exact [OF pool] assms(2) en(2) by simp
  ultimately have "queue_admits en = (if 0 < pr_queue_limit pr then length (en_queue en) < pr_queue_limit pr
         else length (en_queue en) + total_load (en_pool en) < ?cap)"
    unfolding queue_admits_def Let_def en(2) by (simp only: of_nat_less_iff)
  then show ?thesis using enqueue_ok [OF en(1), of e ev] en assms(2,3) by simp
qed

text \<open>
  The delay before the pool is rebalanced after a crash is one of 1, 2, 4, 8, 16
  and 32 seconds: it doubles up to 32 for crashes less than 32 seconds apart,
  starts over at 1 otherwise, and is untouched while a delay is running; the
  dead slave leaves the pool, and until the delay is over rebalancing changes
  nothing.
\<close>

theorem crash_backoff:
  assumes "engine_reachable mf pr ids en" and "profile_ok pr" and "inj ids" and "is_error ec"
  shows "let en' = on_slave_death e ec k en
         in en_timer en' \<and> um_find k (en_pool en') = None \<and> en_crashed en' = en_crashed en + 1 \<and>
            en_last_timeout en' \<in> timeouts \<and>
            en_last_timeout en' =
              (if en_timer en then en_last_timeout en
               else if e_now e - en_last_failed en < 32000 then min (2 * en_last_timeout en) 32 else 1) \<and>
            rebalance_slaves e' en' = Inr en'"
proof -
  let ?en' = "on_slave_death e ec k en"
  have en: "engine_ok en" "en_profile en = pr" "en_ids en = ids"
    using reachable_engine_ok [OF assms(1-3)] by simp_all
  have f: "en_timer ?en'" "um_find k (en_pool ?en') = None" "en_crashed ?en' = en_crashed en + 1"
      "en_last_timeout ?en' = (if en_timer en then en_last_timeout en
         else if e_now e - en_last_failed en < 32000 then min (2 * en_last_timeout en) 32 else 1)"
    using assms(4)
    by (auto simp: on_slave_death_def Let_def post_e_def log_e_def remove_slave_def backoff_def mult.commute
        split: option.splits)
  have "engine_ok ?en'" using on_slave_death_ok [OF en(1)] .
  then have "en_last_timeout ?en' \<in> timeouts" by (simp add: engine_ok_def)
  moreover obtain t where "population_target ?en' = Inr t"
    using population_target_range [of ?en'] on_slave_death_config [of en e ec k] en(2) assms(2)
    by (auto simp: same_config_def)
  then have "rebalance_slaves e' ?en' = Inr ?en'"
    using f(1) by (simp add: rebalance_slaves_def)
  ultimately show ?thesis using f by (simp add: Let_def)
qed

section \<open>A concrete engine\<close>

definition sample_ids :: "nat \<Rightarrow> string" where
  "sample_ids n = CHR ''s'' # replicate n (CHR ''.'')"

fun engine_run :: "engine_event list \<Rightarrow> engine \<Rightarrow> engine option" where
  "engine_run [] en = Some en"
| "engine_run (ev # evs) en = (case engine_step slave_env ev en of None \<Rightarrow> None | Some en' \<Rightarrow> engine_run evs en')"

definition sample_event :: event where
  "sample_event = \<lparr>ev_name = ''ping'', ev_timeout_header = None, ev_birthstamp = 0, ev_deadline = None\<rparr>"

text \<open>One request makes the engine spawn a slave; the slave comes up, and a second request arrives.\<close>

definition sample_history :: "engine_event list" where
  "sample_history = Enqueue sample_event #
     map (Slave_event (sample_ids 0)) [Run, Token sample_token no_error, Run, Ready] @
     [Handshake (sample_ids 0), Enqueue sample_event]"

definition sample_new_engine :: engine where
  "sample_new_engine = new_engine sample_manifest sample_profile sample_ids"

definition sample_engine :: engine where
  "sample_engine = the (engine_run sample_history sample_new_engine)"

lemma sample_ids_inj: "inj sample_ids"
  by (rule injI) (simp add: sample_ids_def)

lemma sample_profile_ok: "profile_ok sample_profile"
  by (simp add: profile_ok_def sample_profile_def)

lemma engine_run_reachable:
  "engine_reachable mf pr ids en \<Longrightarrow> engine_run evs en = Some en' \<Longrightarrow> engine_reachable mf pr ids en'"
  by (induction evs arbitrary: en) (auto split: option.splits intro: engine_next)

lemma sample_engine_run: "engine_run sample_history sample_new_engine = Some sample_engine"
proof -
  have "\<not> Option.is_none (engine_run sample_history sample_new_engine)" by code_simp
  then show ?thesis by (auto simp: sample_engine_def Option.is_none_def)
qed

lemma sample_engine_reachable: "engine_reachable sample_manifest sample_profile sample_ids sample_engine"
  using engine_run_reachable [OF _ sample_engine_run] engine_init
  by (simp add: sample_new_engine_def)

lemmas sample_engine_facts = sample_engine_reachable sample_profile_ok sample_ids_inj

theorem select_slave_least_loaded_witness:
  "\<exists>k s. select_slave sample_profile (en_pool sample_engine) = Some (k, s) \<and>
     um_find k (en_pool sample_engine) = Some s \<and> eligible sample_profile s"
proof -
  have "distinct (um_keys (en_pool sample_engine))" by code_simp
  note sel = select_slave_least_loaded [OF this, of sample_profile]
  have "\<not> Option.is_none (select_slave sample_profile (en_pool sample_engine))" by code_simp
  then obtain k s where "select_slave sample_profile (en_pool sample_engine) = Some (k, s)"
    by (auto simp: Option.is_none_def)
  with sel show ?thesis by auto
qed

theorem engine_capacity_witness:
  "length (en_pool sample_engine) \<le> 10 \<and> total_load (en_pool sample_engine) = 2 \<and> length (en_queue sample_engine) \<le> 100"
proof -
  have "total_load (en_pool sample_engine) = 2" by code_simp
  with engine_capacity [OF sample_engine_facts] show ?thesis by (simp add: sample_profile_def)
qed

theorem engine_fifo_witness:
  "accepted_events sample_engine = [sample_event, sample_event] \<and>
   accepted_events sample_engine = taken_events sample_engine @ map ld_event (en_queue sample_engine)"
proof -
  have "accepted_events sample_engine = [sample_event, sample_event]" by code_simp
  with engine_fifo [OF sample_engine_facts] show ?thesis by simp
qed

theorem rebalance_events_greedy_witness:
  "en_queue (rebalance_events slave_env sample_engine) = [] \<or>
   (\<forall>k s. um_find k (en_pool (rebalance_events slave_env sample_engine)) = Some s \<longrightarrow> \<not> eligible sample_profile s)"
proof -
  have "e_fork_ok slave_env" "e_invoke_ok slave_env" by (simp_all add: slave_env_def)
  then show ?thesis using rebalance_events_greedy [OF sample_engine_facts] by blast
qed

theorem rebalance_slaves_population_witness:
  "\<exists>target en'. population_target sample_engine = Inr target \<and> 1 \<le> target \<and>
     rebalance_slaves slave_env sample_engine = Inr en'"
  using rebalance_slaves_population [OF sample_engine_facts, of slave_env] by blast

theorem enqueue_admission_witness:
  "fst (enqueue slave_env sample_event sample_engine) = Inr (snd (enqueue slave_env sample_event sample_engine))"
proof -
  have "length (en_queue sample_engine) < 100" by code_simp
  with enqueue_admission [OF sample_engine_facts, of slave_env sample_event] show ?thesis
    by (simp add: sample_profile_def)
qed

theorem crash_backoff_witness:
  "en_timer (on_slave_death slave_env (make_error_code Heartbeat_timeout) (sample_ids 0) sample_engine) \<and>
   um_find (sample_ids 0) (en_pool (on_slave_death slave_env (make_error_code Heartbeat_timeout) (sample_ids 0) sample_engine)) = None"
  using crash_backoff [OF sample_engine_facts is_error_make_error_code, of slave_env Heartbeat_timeout "sample_ids 0"]
  by (simp add: Let_def)

end
