(* ===== verification/Node_Config.thy ===== *)
theory Node_Config
  imports Node_Engine Dynamic
begin

text \<open>
  The configuration of an application: documents kept in a cache in front of a
  storage (\<^verbatim>\<open>cached.hpp\<close>), the manifest (\<^verbatim>\<open>manifest.cpp\<close>) and the profile
  (\<^verbatim>\<open>profile.cpp\<close>) with its validation, and the step from an accepted profile
  to the precondition of the engine.

  The conversions of \<^verbatim>\<open>dynamic_t\<close> and the floating point unit belong to the
  core and the machine; they come as a record \<open>conv\<close>.
\<close>

section \<open>Documents behind a cache\<close>

datatype config_error =
    Bad_conversion
  | Error_t string
  | Storage_error error_code
  | Division_fault

datatype source = Cache | Storage

record 'a storage_access =
  st_cache_open :: "(error_code, unit) result"
  st_cache_get :: "string \<Rightarrow> string \<Rightarrow> (error_code, 'a) result"
  st_core_get :: "string \<Rightarrow> string \<Rightarrow> (error_code, 'a) result"

record 'a cached =
  ca_object :: 'a
  ca_source :: source
  ca_put :: "(string \<times> string \<times> 'a) option"

definition download :: "'a storage_access \<Rightarrow> string \<Rightarrow> string \<Rightarrow> (config_error, 'a cached) result" where
  "download st collection name =
     (case st_core_get st collection name of
        Inl ec \<Rightarrow> Inl (Storage_error ec)
      | Inr x \<Rightarrow> Inr \<lparr>ca_object = x, ca_source = Storage, ca_put = None\<rparr>)"

definition cached :: "'a storage_access \<Rightarrow> string \<Rightarrow> string \<Rightarrow> (config_error, 'a cached) result" where
  "cached st collection name =
     (case st_cache_open st of
        Inl _ \<Rightarrow> download st collection name
      | Inr _ \<Rightarrow>
          (case st_cache_get st collection name of
             Inl _ \<Rightarrow>
               bindE (download st collection name)
                 (\<lambda>c. Inr (c\<lparr>ca_put := Some (collection, name, ca_object c)\<rparr>))
           | Inr x \<Rightarrow> Inr \<lparr>ca_object = x, ca_source = Cache, ca_put = None\<rparr>))"

section \<open>Fields of a document\<close>

record 'd conv = "'d fpu" +
  cv_to_double :: "'d dynamic \<Rightarrow> (dynamic_error, 'd) result"
  cv_to_uint64 :: "'d dynamic \<Rightarrow> (dynamic_error, u64) result"
  cv_to_string_map :: "'d dynamic \<Rightarrow> (dynamic_error, (string, string) umap) result"
  cv_thousand_times :: "'d \<Rightarrow> 'd"

fun as_bool :: "'d dynamic \<Rightarrow> (dynamic_error, bool) result" where
  "as_bool (D_bool b) = Inr b"
| "as_bool _ = Inl Bad_get"

fun as_object :: "'d dynamic \<Rightarrow> (dynamic_error, (string, 'd dynamic) umap) result" where
  "as_object (D_object m) = Inr m"
| "as_object _ = Inl Bad_get"

definition at_default :: "(string, 'd dynamic) umap \<Rightarrow> string \<Rightarrow> 'd dynamic \<Rightarrow> 'd dynamic" where
  "at_default m k d = (case um_find k m of None \<Rightarrow> d | Some v \<Rightarrow> v)"

definition conversion :: "(dynamic_error, 'a) result \<Rightarrow> (config_error, 'a) result" where
  "conversion r = lift_error (\<lambda>_. Bad_conversion) r"

section \<open>The manifest\<close>

definition endpoint_of :: "string \<Rightarrow> string \<Rightarrow> string \<Rightarrow> string" where
  "endpoint_of runtime name pid = runtime @ ''/'' @ name @ ''.'' @ pid"

definition parse_manifest ::
  "('d, 'z) conv_scheme \<Rightarrow> string \<Rightarrow> string \<Rightarrow> string \<Rightarrow> 'd dynamic \<Rightarrow> (config_error, manifest) result" where
  "parse_manifest cv runtime pid name doc =
     bindE (conversion (as_object doc)) (\<lambda>m.
     bindE (lift_error (\<lambda>_. Error_t ''environment should be a map of string -> string'')
              (cv_to_string_map cv (at_default m ''environment'' (D_object [])))) (\<lambda>environment.
     (case um_find ''slave'' m of
        None \<Rightarrow> Inl (Error_t ''runnable object has not been specified'')
      | Some v \<Rightarrow>
          bindE (conversion (as_string v)) (\<lambda>executable.
            Inr \<lparr>mf_name = name, mf_executable = executable,
                 mf_endpoint = endpoint_of runtime name pid, mf_environment = environment\<rparr>))))"

section \<open>The profile\<close>

record 'd profile_config =
  pf_name :: string
  pf_log_output :: bool
  pf_spawn :: u64
  pf_handshake :: u64
  pf_heartbeat :: u64
  pf_seal :: u64
  pf_terminate :: u64
  pf_idle :: u64
  pf_concurrency :: u64
  pf_crashlog_limit :: u64
  pf_pool_limit :: u64
  pf_queue_limit :: u64
  pf_grow_threshold :: u64
  pf_isolate_type :: string
  pf_isolate_args :: "'d dynamic"
  pf_object :: "(string, 'd dynamic) umap"

definition timeout_field ::
  "('d, 'z) conv_scheme \<Rightarrow> (string, 'd dynamic) umap \<Rightarrow> string \<Rightarrow> int \<Rightarrow> (config_error, u64) result" where
  "timeout_field cv m k seconds =
     bindE (conversion (cv_to_double cv (at_default m k (D_double (fp_of_int cv seconds)))))
       (\<lambda>d. Inr (fp_trunc cv (cv_thousand_times cv d)))"

definition limit_field ::
  "('d, 'z) conv_scheme \<Rightarrow> (string, 'd dynamic) umap \<Rightarrow> string \<Rightarrow> u64 \<Rightarrow> (config_error, u64) result" where
  "limit_field cv m k d = conversion (cv_to_uint64 cv (at_default m k (D_int d)))"

text \<open>\<^verbatim>\<open>queue_limit / pool_limit / 2\<close>, computed before the pool limit is validated.\<close>

definition default_threshold :: "u64 \<Rightarrow> u64 \<Rightarrow> (config_error, u64) result" where
  "default_threshold queue_limit pool_limit =
     (if pool_limit = 0 then Inl Division_fault
      else Inr (max 1 (queue_limit div pool_limit div 2)))"

text \<open>The three settings read from the document on every call.\<close>

definition publish_on :: "'d profile_config \<Rightarrow> (config_error, 32 word) result" where
  "publish_on p = bindE (conversion (as_uint (at_default (pf_object p) ''publish-on'' (D_uint 0)))) (\<lambda>u. Inr (ucast u))"

definition unpublish_under :: "'d profile_config \<Rightarrow> (config_error, 32 word) result" where
  "unpublish_under p =
     bindE (conversion (as_uint (at_default (pf_object p) ''unpublish-under'' (D_uint 0)))) (\<lambda>u. Inr (ucast u))"

definition request_timeout :: "('d, 'z) conv_scheme \<Rightarrow> 'd profile_config \<Rightarrow> (config_error, u64) result" where
  "request_timeout cv p = timeout_field cv (pf_object p) ''request-timeout'' 86400"

definition validate :: "'d profile_config \<Rightarrow> (config_error, 'd profile_config) result" where
  "validate p =
     (if pf_heartbeat p = 0 then Inl (Error_t ''slave heartbeat timeout must be positive'')
      else if pf_pool_limit p = 0 then Inl (Error_t ''engine pool limit must be positive'')
      else if pf_concurrency p = 0 then Inl (Error_t ''engine concurrency must be positive'')
      else bindE (publish_on p) (\<lambda>on.
        if pf_pool_limit p < ucast on
        then Inl (Error_t ''publish threshold must not be greater than pool limit'')
        else bindE (unpublish_under p) (\<lambda>under.
          if on < under
          then Inl (Error_t ''publish threshold must not be less than unpublish one'')
          else Inr p)))"

definition parse_profile ::
  "('d, 'z) conv_scheme \<Rightarrow> string \<Rightarrow> 'd dynamic \<Rightarrow> (config_error, 'd profile_config) result" where
  "parse_profile cv name doc =
     bindE (conversion (as_object doc)) (\<lambda>m.
     bindE (conversion (as_bool (at_default m ''log-output'' (D_bool False)))) (\<lambda>log_output.
     bindE (timeout_field cv m ''spawn-timeout'' 1) (\<lambda>spawn.
     bindE (timeout_field cv m ''handshake-timeout'' 5) (\<lambda>handshake.
     bindE (timeout_field cv m ''heartbeat-timeout'' 30) (\<lambda>heartbeat.
     bindE (timeout_field cv m ''seal-timeout'' 60) (\<lambda>seal.
     bindE (timeout_field cv m ''terminate-timeout'' 10) (\<lambda>terminate.
     bindE (timeout_field cv m ''idle-timeout'' 600) (\<lambda>idle.
     bindE (limit_field cv m ''concurrency'' 10) (\<lambda>concurrency.
     bindE (limit_field cv m ''crashlog-limit'' 50) (\<lambda>crashlog_limit.
     bindE (limit_field cv m ''pool-limit'' 10) (\<lambda>pool_limit.
     bindE (limit_field cv m ''queue-limit'' 100) (\<lambda>queue_limit.
     bindE (default_threshold queue_limit pool_limit) (\<lambda>threshold.
     bindE (conversion (cv_to_uint64 cv (at_default m ''grow-threshold'' (D_uint threshold)))) (\<lambda>grow_threshold.
     bindE (conversion (as_object (at_default m ''isolate'' (D_object [])))) (\<lambda>isolate.
     bindE (conversion (as_string (at_default isolate ''type'' (D_string ''process'')))) (\<lambda>isolate_type.
       validate
         \<lparr>pf_name = name, pf_log_output = log_output, pf_spawn = spawn, pf_handshake = handshake,
          pf_heartbeat = heartbeat, pf_seal = seal, pf_terminate = terminate, pf_idle = idle,
          pf_concurrency = concurrency, pf_crashlog_limit = crashlog_limit, pf_pool_limit = pool_limit,
          pf_queue_limit = queue_limit, pf_grow_threshold = grow_threshold,
          pf_isolate_type = isolate_type,
          pf_isolate_args = at_default isolate ''args'' (D_object []), pf_object = m\<rparr>))))))))))))))))"

text \<open>The part of a profile the engine and its slaves work with; times are in milliseconds.\<close>

definition engine_profile :: "('d, 'z) conv_scheme \<Rightarrow> 'd profile_config \<Rightarrow> (config_error, profile) result" where
  "engine_profile cv p =
     bindE (request_timeout cv p) (\<lambda>t.
       Inr \<lparr>pr_concurrency = unat (pf_concurrency p), pr_crashlog_limit = unat (pf_crashlog_limit p),
            pr_grow_threshold = unat (pf_grow_threshold p), pr_pool_limit = unat (pf_pool_limit p),
            pr_queue_limit = unat (pf_queue_limit p), pr_request_timeout = uint t\<rparr>)"

section \<open>Documents\<close>

lemma download_ok [simp]:
  "download st c n = Inr x \<longleftrightarrow>
   (\<exists>v. st_core_get st c n = Inr v \<and> x = \<lparr>ca_object = v, ca_source = Storage, ca_put = None\<rparr>)"
  by (auto simp: download_def split: sum.splits)

lemma download_error [simp]:
  "download st c n = Inl err \<longleftrightarrow> (\<exists>ec. st_core_get st c n = Inl ec \<and> err = Storage_error ec)"
  by (auto simp: download_def split: sum.splits)

text \<open>
  A document is the cached one when the cache can be opened
  and holds it, otherwise the one of the core storage, and it is written back to
  the cache exactly when an open cache missed it. An error of the cache is never
  an error of the load: loading fails exactly when the cache does not deliver the
  document and the core storage fails, with the error of the core storage.
\<close>

theorem cached_document:
  "cached st c n =
     (let hit = (case st_cache_open st of Inl _ \<Rightarrow> None
                 | Inr _ \<Rightarrow> (case st_cache_get st c n of Inl _ \<Rightarrow> None | Inr v \<Rightarrow> Some v))
      in case (hit, st_core_get st c n) of
           (Some v, _) \<Rightarrow> Inr \<lparr>ca_object = v, ca_source = Cache, ca_put = None\<rparr>
         | (None, Inl ec) \<Rightarrow> Inl (Storage_error ec)
         | (None, Inr v) \<Rightarrow>
             Inr \<lparr>ca_object = v, ca_source = Storage,
                  ca_put = (if is_ok (st_cache_open st) then Some (c, n, v) else None)\<rparr>)"
  by (auto simp: cached_def download_def split: sum.splits)

section \<open>Validation\<close>

lemma validate_ok:
  "validate p = Inr q \<longleftrightarrow>
     q = p \<and> pf_heartbeat p \<noteq> 0 \<and> pf_pool_limit p \<noteq> 0 \<and> pf_concurrency p \<noteq> 0 \<and>
     (\<exists>on under. publish_on p = Inr on \<and> unpublish_under p = Inr under \<and>
        ucast on \<le> pf_pool_limit p \<and> under \<le> on)"
  by (auto simp: validate_def bindE_Inr_conv not_less)

lemma default_threshold_pos: "default_threshold q p = Inr t \<Longrightarrow> t \<noteq> 0"
  by (auto simp: default_threshold_def max_def split: if_splits)

text \<open>What the parsed fields are, for a document that is accepted.\<close>

lemma parse_profile_okD:
  assumes "parse_profile cv name doc = Inr p"
  obtains m threshold where
    "doc = D_object m" "pf_object p = m" "pf_name p = name" "validate p = Inr p"
    "limit_field cv m ''pool-limit'' 10 = Inr (pf_pool_limit p)"
    "limit_field cv m ''queue-limit'' 100 = Inr (pf_queue_limit p)"
    "default_threshold (pf_queue_limit p) (pf_pool_limit p) = Inr threshold"
    "cv_to_uint64 cv (at_default m ''grow-threshold'' (D_uint threshold)) = Inr (pf_grow_threshold p)"
proof -
  have conv: "conversion r = Inr x \<longleftrightarrow> r = Inr x" for r :: "(dynamic_error, 'x) result" and x
    by (cases r) (auto simp: conversion_def)
  obtain m where doc: "doc = D_object m"
    using assms by (cases doc) (auto simp: parse_profile_def conversion_def)
  show ?thesis
    using assms
    by (auto simp: parse_profile_def doc bindE_Inr_conv validate_ok conv limit_field_def intro!: that [of m])
qed

text \<open>
  The laws of the core's conversion that the thresholds rely on: an unsigned
  number converts to itself.
\<close>

definition uint_conversion :: "('d, 'z) conv_scheme \<Rightarrow> bool" where
  "uint_conversion cv \<longleftrightarrow> (\<forall>u. cv_to_uint64 cv (D_uint u) = Inr u)"

text \<open>
  C24: an accepted profile has a positive heartbeat timeout, pool
  limit and concurrency, and its publishing thresholds, at their 32 bits, satisfy
  unpublish \<open>\<le>\<close> publish \<open>\<le>\<close> pool limit. It satisfies the precondition of the engine's
  theorems exactly if its growth threshold is not zero and its capacity fits an
  \<^verbatim>\<open>int\<close>, neither of which the validation checks; a growth threshold that is left to the
  default is never zero.
\<close>

theorem accepted_profile:
  assumes "parse_profile cv name (D_object m) = Inr p"
    and "engine_profile cv p = Inr pr"
  shows "pf_heartbeat p \<noteq> 0 \<and> 0 < pr_pool_limit pr \<and> 0 < pr_concurrency pr \<and>
    (\<exists>on under. publish_on p = Inr on \<and> unpublish_under p = Inr under \<and>
       unat under \<le> unat on \<and> unat on \<le> pr_pool_limit pr) \<and>
    (profile_ok pr \<longleftrightarrow> pr_grow_threshold pr \<noteq> 0 \<and> pr_pool_limit pr * pr_concurrency pr < 2 ^ 31) \<and>
    (uint_conversion cv \<and> um_find ''grow-threshold'' m = None \<longrightarrow> pr_grow_threshold pr \<noteq> 0)"
proof -
  obtain threshold where p: "pf_object p = m" "validate p = Inr p"
    "default_threshold (pf_queue_limit p) (pf_pool_limit p) = Inr threshold"
    "cv_to_uint64 cv (at_default m ''grow-threshold'' (D_uint threshold)) = Inr (pf_grow_threshold p)"
    using assms(1) by (auto elim!: parse_profile_okD)
  have grow: "pf_grow_threshold p \<noteq> 0" if "uint_conversion cv" "um_find ''grow-threshold'' m = None"
    using p(3,4) that default_threshold_pos by (auto simp: at_default_def uint_conversion_def)
  have pos: "0 < unat w \<longleftrightarrow> w \<noteq> 0" for w :: u64 by (simp add: unat_gt_0)
  obtain on under where on: "publish_on p = Inr on" "unpublish_under p = Inr under"
    "ucast on \<le> pf_pool_limit p" "under \<le> on" and
    nz: "pf_heartbeat p \<noteq> 0" "pf_pool_limit p \<noteq> 0" "pf_concurrency p \<noteq> 0"
    using p(2) by (auto simp: validate_ok)
  have pr: "pr_pool_limit pr = unat (pf_pool_limit p)" "pr_concurrency pr = unat (pf_concurrency p)"
    "pr_grow_threshold pr = unat (pf_grow_threshold p)"
    using assms(2) by (auto simp: engine_profile_def bindE_Inr_conv)
  then have limits: "0 < pr_pool_limit pr" "0 < pr_concurrency pr" using nz by (simp_all add: pos)
  have "unat (ucast on :: u64) = unat on"
    by (simp add: unsigned_ucast_eq take_bit_nat_eq_self_iff) (rule order_less_trans [OF unsigned_less], simp)
  then have "unat on \<le> pr_pool_limit pr" using on(3) by (simp add: word_le_nat_alt pr)
  moreover have "unat under \<le> unat on" using on(4) by (simp add: word_le_nat_alt)
  moreover have "pr_grow_threshold pr \<noteq> 0" if "uint_conversion cv" "um_find ''grow-threshold'' m = None"
    using grow [OF that] pos [of "pf_grow_threshold p"] by (simp add: pr(3))
  moreover have "profile_ok pr \<longleftrightarrow> pr_grow_threshold pr \<noteq> 0 \<and> pr_pool_limit pr * pr_concurrency pr < 2 ^ 31"
    using limits by (auto simp: profile_ok_def)
  ultimately show ?thesis using on(1,2) nz(1) limits by blast
qed

text \<open>A conversion over integers in place of doubles, for evaluation.\<close>

fun int_to_uint64 :: "int dynamic \<Rightarrow> (dynamic_error, u64) result" where
  "int_to_uint64 (D_uint u) = Inr u"
| "int_to_uint64 (D_int u) = Inr u"
| "int_to_uint64 (D_double d) = Inr (of_int d)"
| "int_to_uint64 _ = Inl Bad_get"

fun int_to_double :: "int dynamic \<Rightarrow> (dynamic_error, int) result" where
  "int_to_double (D_uint u) = Inr (uint u)"
| "int_to_double (D_int u) = Inr (sint u)"
| "int_to_double (D_double d) = Inr d"
| "int_to_double _ = Inl Bad_get"

definition no_environment :: "int dynamic \<Rightarrow> (dynamic_error, (string, string) umap) result" where
  "no_environment v = (case v of D_object [] \<Rightarrow> Inr [] | _ \<Rightarrow> Inl Bad_get)"

definition int_conv :: "int conv" where
  "int_conv = \<lparr>fp_eq = (=), fp_lt = (<), fp_le = (\<le>), fp_of_int = (\<lambda>i. i), fp_trunc = of_int,
     cv_to_double = int_to_double, cv_to_uint64 = int_to_uint64,
     cv_to_string_map = no_environment, cv_thousand_times = (\<lambda>d. 1000 * d)\<rparr>"

definition sample_document :: "(string, int dynamic) umap" where
  "sample_document = [(''pool-limit'', D_uint 4), (''publish-on'', D_uint 2), (''unpublish-under'', D_uint 1)]"

definition the_ok :: "('e, 'a) result \<Rightarrow> 'a" where
  "the_ok r = (case r of Inr a \<Rightarrow> a)"

lemma the_ok_eq: "is_ok r \<Longrightarrow> r = Inr (the_ok r)"
  by (cases r) (auto simp: the_ok_def)

definition sample_profile_config :: "int profile_config" where
  "sample_profile_config = the_ok (parse_profile int_conv ''default'' (D_object sample_document))"

definition sample_engine_profile :: profile where
  "sample_engine_profile = the_ok (engine_profile int_conv sample_profile_config)"

lemma sample_profile_parsed:
  "parse_profile int_conv ''default'' (D_object sample_document) = Inr sample_profile_config"
  unfolding sample_profile_config_def by (rule the_ok_eq) code_simp

lemma sample_engine_parsed: "engine_profile int_conv sample_profile_config = Inr sample_engine_profile"
  unfolding sample_engine_profile_def by (rule the_ok_eq) code_simp

lemma int_uint_conversion: "uint_conversion int_conv"
  by (simp add: uint_conversion_def int_conv_def)

theorem accepted_profile_witness:
  "profile_ok sample_engine_profile \<and> publish_on sample_profile_config = Inr 2 \<and>
   (\<exists>on under. publish_on sample_profile_config = Inr on \<and> unpublish_under sample_profile_config = Inr under \<and>
      unat under \<le> unat on \<and> unat on \<le> pr_pool_limit sample_engine_profile)"
proof -
  have facts: "um_find ''grow-threshold'' sample_document = None" "publish_on sample_profile_config = Inr 2"
    by code_simp+
  have "pr_pool_limit sample_engine_profile = 4" "pr_concurrency sample_engine_profile = 10" by code_simp+
  then have "pr_pool_limit sample_engine_profile * pr_concurrency sample_engine_profile < 2 ^ 31" by simp
  with facts int_uint_conversion accepted_profile [OF sample_profile_parsed sample_engine_parsed]
  show ?thesis by blast
qed

lemma conversion_error: "conversion r \<noteq> Inl (Error_t msg)"
  by (cases r) (auto simp: conversion_def)

lemma field_errors:
  "timeout_field cv m k s \<noteq> Inl (Error_t msg)" "limit_field cv m k d \<noteq> Inl (Error_t msg)"
  "default_threshold q l \<noteq> Inl (Error_t msg)"
  by (auto simp: timeout_field_def limit_field_def default_threshold_def bindE_Inl_conv conversion_error)

text \<open>
  Two settings escape the validation. The diagnosis of a pool
  limit of zero can never be produced, for no document and no conversion, because
  the limit is divided by before it is checked: such a document faults. And a
  growth threshold of zero is accepted; the first balancing of the engine made
  from it divides by zero.
\<close>

theorem profile_gaps:
  "parse_profile cv name doc \<noteq> Inl (Error_t ''engine pool limit must be positive'') \<and>
   parse_profile int_conv name (D_object [(''pool-limit'', D_uint 0)]) = Inl Division_fault \<and>
   (\<exists>p pr. parse_profile int_conv name (D_object [(''grow-threshold'', D_uint 0)]) = Inr p \<and>
      engine_profile int_conv p = Inr pr \<and>
      control_population e 0 (new_engine mf pr ids) = Inl Division_by_zero)"
proof (intro conjI)
  show "parse_profile cv name doc \<noteq> Inl (Error_t ''engine pool limit must be positive'')"
    by (auto simp: parse_profile_def bindE_Inl_conv conversion_error field_errors validate_def
        default_threshold_def publish_on_def unpublish_under_def split: if_splits)
  show "parse_profile int_conv name (D_object [(''pool-limit'', D_uint 0)]) = Inl Division_fault"
    by (simp add: parse_profile_def conversion_def at_default_def timeout_field_def limit_field_def
        default_threshold_def int_conv_def)
  show "\<exists>p pr. parse_profile int_conv name (D_object [(''grow-threshold'', D_uint 0)]) = Inr p \<and>
      engine_profile int_conv p = Inr pr \<and>
      control_population e 0 (new_engine mf pr ids) = Inl Division_by_zero"
    by (simp add: parse_profile_def conversion_def at_default_def timeout_field_def limit_field_def
        default_threshold_def int_conv_def validate_def publish_on_def unpublish_under_def
        engine_profile_def request_timeout_def control_population_def rebalance_slaves_def
        population_target_def automatic_target_def new_engine_def)
qed

text \<open>
  A manifest is accepted exactly when the document is an
  object with an executable and, if given, an environment of strings; the
  endpoint is derived from the name and the process, and no other field of the
  document matters.
\<close>

theorem manifest_fields:
  "parse_manifest cv runtime pid name doc = Inr mf \<longleftrightarrow>
     (\<exists>m executable. doc = D_object m \<and> um_find ''slave'' m = Some (D_string executable) \<and>
        cv_to_string_map cv (at_default m ''environment'' (D_object [])) = Inr (mf_environment mf) \<and>
        mf = \<lparr>mf_name = name, mf_executable = executable,
              mf_endpoint = runtime @ ''/'' @ name @ ''.'' @ pid, mf_environment = mf_environment mf\<rparr>)"
proof -
  have str: "conversion (as_string v) = Inr s \<longleftrightarrow> v = D_string s" for v :: "'a dynamic" and s
    by (cases v) (auto simp: conversion_def)
  have obj: "conversion (as_object v) = Inr m \<longleftrightarrow> v = D_object m" for v :: "'a dynamic" and m
    by (cases v) (auto simp: conversion_def)
  have env: "lift_error h r = Inr x \<longleftrightarrow> r = Inr x" for h :: "dynamic_error \<Rightarrow> config_error" and r x
    by (cases r) auto
  show ?thesis
    by (cases mf) (auto simp: parse_manifest_def bindE_Inr_conv str obj env endpoint_of_def split: option.splits)
qed

end
