(* ===== verification/Node_App.thy ===== *)
theory Node_App
  imports Node_Config
begin

text \<open>
  An application (\<^verbatim>\<open>src/node/src/node/app.cpp\<close>): its three states, spooling by the
  isolate, publishing of its service with the context as workers come and go, and
  the destructor.

  The context (the registry of published services) and the unix actor of the
  workers belong to the core; they come as a record \<open>platform\<close> over an arbitrary
  type of context states.  Engines live in a store, because an overseer is
  shared: by the running state and by every control stream of the node service.
  The overseer's destructor runs when the last reference is released, and its
  engine stays in the store, since closures and slaves still refer to it.

  The observer an engine notifies holds a plain reference to the running state.
  A notification that arrives when that state is gone is recorded in
  \<open>wd_dangling\<close>: the code then uses a destroyed object.
\<close>

section \<open>Errors\<close>

datatype node_errors =
    Deadline_error
  | Resource_error
  | Timeout_error
  | Invalid_assignment
  | Already_started
  | Not_running
  | Uncaught_spool_error
  | Uncaught_publish_error

primrec node_error_value :: "node_errors \<Rightarrow> int" where
  "node_error_value Deadline_error = 1"
| "node_error_value Resource_error = 2"
| "node_error_value Timeout_error = 3"
| "node_error_value Invalid_assignment = 4"
| "node_error_value Already_started = 5"
| "node_error_value Not_running = 6"
| "node_error_value Uncaught_spool_error = 7"
| "node_error_value Uncaught_publish_error = 8"

definition node_error_code :: "node_errors \<Rightarrow> error_code" where
  "node_error_code e = (Foreign_category ''node category'', node_error_value e)"

lemma is_error_node_error_code [simp]: "is_error (node_error_code e)"
  by (cases e) (simp_all add: node_error_code_def is_error_def)

datatype exn =
    System_error error_code string
  | Std_exception string

section \<open>The world of an application\<close>

record 'c platform =
  px_insert :: "string \<Rightarrow> 'c \<Rightarrow> (exn, 'c) result"
  px_remove :: "string \<Rightarrow> 'c \<Rightarrow> (exn, 'c) result"
  px_locate :: "string \<Rightarrow> 'c \<Rightarrow> bool"
  px_listen :: "string \<Rightarrow> 'c \<Rightarrow> (exn, 'c) result"
  px_terminate :: "string \<Rightarrow> 'c \<Rightarrow> 'c"

record 'c world =
  wd_ctx :: 'c
  wd_engines :: "engine list"
  wd_refs :: "nat list"
  wd_dangling :: bool

definition make_overseer :: "manifest \<Rightarrow> profile \<Rightarrow> (nat \<Rightarrow> string) \<Rightarrow> 'c world \<Rightarrow> nat \<times> 'c world" where
  "make_overseer mf pr ids w =
     (length (wd_engines w),
      w\<lparr>wd_engines := wd_engines w @ [new_engine mf pr ids], wd_refs := wd_refs w @ [1]\<rparr>)"

definition acquire :: "nat \<Rightarrow> 'c world \<Rightarrow> 'c world" where
  "acquire i w = w\<lparr>wd_refs := (wd_refs w)[i := wd_refs w ! i + 1]\<rparr>"

text \<open>The destructor never throws: rebalancing of a stopped engine returns at once.\<close>

definition destroy_overseer :: "env \<Rightarrow> engine \<Rightarrow> engine" where
  "destroy_overseer e en = (case overseer_dtor e en of Inr en' \<Rightarrow> en' | Inl _ \<Rightarrow> en)"

definition release :: "env \<Rightarrow> nat \<Rightarrow> 'c world \<Rightarrow> 'c world" where
  "release e i w =
     (let n = wd_refs w ! i - 1; w = w\<lparr>wd_refs := (wd_refs w)[i := n]\<rparr>
      in if n = 0 then w\<lparr>wd_engines := (wd_engines w)[i := destroy_overseer e (wd_engines w ! i)]\<rparr> else w)"

section \<open>States\<close>

datatype app_state =
    Stopped error_code
  | Spooling bool
  | Running nat

datatype loop_task = Task_cancel error_code | Task_publish

datatype phase = Alive | Closing | Closed

record 'd app =
  ap_manifest :: manifest
  ap_profile :: "'d profile_config"
  ap_engine_profile :: profile
  ap_state :: app_state
  ap_loop :: "loop_task list"
  ap_callbacks :: "exn option list"
  ap_spool_cancels :: nat
  ap_completions :: nat
  ap_phase :: phase

fun stopped :: "app_state \<Rightarrow> bool" where
  "stopped (Stopped ec) = True"
| "stopped _ = False"

fun state_name :: "app_state \<Rightarrow> string" where
  "state_name (Stopped ec) = (if is_error ec then ''broken'' else ''stopped'')"
| "state_name (Spooling s) = ''spooling''"
| "state_name (Running i) = ''running''"

definition app_name :: "'d app \<Rightarrow> string" where
  "app_name a = mf_name (ap_manifest a)"

definition app_overseer :: "'d app \<Rightarrow> (exn, nat) result" where
  "app_overseer a = (case ap_state a of Running i \<Rightarrow> Inr i | _ \<Rightarrow> Inl (Std_exception ''invalid state''))"

section \<open>Publishing\<close>

definition unpublish :: "'c platform \<Rightarrow> string \<Rightarrow> 'c world \<Rightarrow> 'c world" where
  "unpublish px name w = (case px_remove px name (wd_ctx w) of Inl _ \<Rightarrow> w | Inr c \<Rightarrow> w\<lparr>wd_ctx := c\<rparr>)"

definition publish_service :: "'c platform \<Rightarrow> string \<Rightarrow> 'c world \<Rightarrow> (exn, 'c world) result" where
  "publish_service px name w = bindE (px_insert px name (wd_ctx w)) (\<lambda>c. Inr (w\<lparr>wd_ctx := c\<rparr>))"

definition workers :: "nat \<Rightarrow> 'c world \<Rightarrow> 32 word" where
  "workers i w = of_nat (active_workers (en_pool (wd_engines w ! i)))"

definition config_exn :: "config_error \<Rightarrow> exn" where
  "config_exn err = (case err of
     Storage_error ec \<Rightarrow> System_error ec '''' | Error_t m \<Rightarrow> Std_exception m | _ \<Rightarrow> Std_exception ''bad get'')"

definition maybe_publish :: "'c platform \<Rightarrow> 'd app \<Rightarrow> nat \<Rightarrow> 'c world \<Rightarrow> (exn, 'c world) result" where
  "maybe_publish px a i w =
     bindE (lift_error config_exn (publish_on (ap_profile a)))
       (\<lambda>on. if on \<le> workers i w then publish_service px (app_name a) w else Inr w)"

definition maybe_unpublish :: "'c platform \<Rightarrow> 'd app \<Rightarrow> nat \<Rightarrow> 'c world \<Rightarrow> (exn, 'c world) result" where
  "maybe_unpublish px a i w =
     bindE (lift_error config_exn (unpublish_under (ap_profile a)))
       (\<lambda>under. Inr (if workers i w < under then unpublish px (app_name a) w else w))"

text \<open>
  An exception of \<^verbatim>\<open>despawned\<close> would leave the observer; it cannot occur, since
  the threshold of a validated profile can be read.
\<close>

definition on_spawned :: "'c platform \<Rightarrow> 'd app \<Rightarrow> nat \<Rightarrow> 'c world \<Rightarrow> 'c world" where
  "on_spawned px a i w = (case maybe_publish px a i w of Inl _ \<Rightarrow> w | Inr w' \<Rightarrow> w')"

definition on_despawned :: "'c platform \<Rightarrow> 'd app \<Rightarrow> nat \<Rightarrow> 'c world \<Rightarrow> 'c world" where
  "on_despawned px a i w = (case maybe_unpublish px a i w of Inl _ \<Rightarrow> w | Inr w' \<Rightarrow> w')"

text \<open>
  Construction of the running state.  An exception destroys the overseer again;
  when it comes from publishing, the service of that name is removed first.
\<close>

definition running_ctor ::
  "'c platform \<Rightarrow> env \<Rightarrow> (nat \<Rightarrow> string) \<Rightarrow> 'd app \<Rightarrow> 'c world \<Rightarrow> (exn, nat) result \<times> 'c world" where
  "running_ctor px e ids a w =
     (let (i, w) = make_overseer (ap_manifest a) (ap_engine_profile a) ids w
      in case px_listen px (mf_endpoint (ap_manifest a)) (wd_ctx w) of
           Inl x \<Rightarrow> (Inl x, release e i w)
         | Inr c \<Rightarrow>
             let w = w\<lparr>wd_ctx := c\<rparr>
             in case maybe_publish px a i w of
                  Inr w' \<Rightarrow> (Inr i, w')
                | Inl x \<Rightarrow> (Inl x, release e i (unpublish px (app_name a) w)))"

definition running_dtor :: "'c platform \<Rightarrow> env \<Rightarrow> 'd app \<Rightarrow> nat \<Rightarrow> 'c world \<Rightarrow> 'c world" where
  "running_dtor px e a i w =
     (let w = unpublish px (app_name a) w
      in release e i (w\<lparr>wd_ctx := px_terminate px (mf_endpoint (ap_manifest a)) (wd_ctx w)\<rparr>))"

section \<open>Transitions\<close>

definition destroy_state :: "'c platform \<Rightarrow> env \<Rightarrow> 'd app \<times> 'c world \<Rightarrow> 'd app \<times> 'c world" where
  "destroy_state px e aw =
     (let (a, w) = aw
      in case ap_state a of
           Stopped ec \<Rightarrow> (a, w)
         | Spooling s \<Rightarrow> (if s then a\<lparr>ap_spool_cancels := ap_spool_cancels a + 1\<rparr> else a, w)
         | Running i \<Rightarrow> (a, running_dtor px e a i w))"

definition reset_state :: "'c platform \<Rightarrow> env \<Rightarrow> app_state \<Rightarrow> 'd app \<times> 'c world \<Rightarrow> 'd app \<times> 'c world" where
  "reset_state px e s aw = (let (a, w) = destroy_state px e aw in (a\<lparr>ap_state := s\<rparr>, w))"

definition cancel :: "'c platform \<Rightarrow> env \<Rightarrow> error_code \<Rightarrow> 'd app \<times> 'c world \<Rightarrow> 'd app \<times> 'c world" where
  "cancel px e ec aw = reset_state px e (Stopped ec) aw"

definition call_back :: "exn option \<Rightarrow> 'd app \<times> 'c world \<Rightarrow> 'd app \<times> 'c world" where
  "call_back r aw = (let (a, w) = aw in (a\<lparr>ap_callbacks := ap_callbacks a @ [r]\<rparr>, w))"

definition publish ::
  "'c platform \<Rightarrow> env \<Rightarrow> (nat \<Rightarrow> string) \<Rightarrow> 'd app \<times> 'c world \<Rightarrow> 'd app \<times> 'c world" where
  "publish px e ids aw =
     (let (a, w) = aw
      in case running_ctor px e ids a w of
           (Inr i, w') \<Rightarrow> call_back None (reset_state px e (Running i) (a, w'))
         | (Inl x, w') \<Rightarrow>
             let (ec, y) = (case x of
                   System_error ec m \<Rightarrow> (ec, x)
                 | Std_exception m \<Rightarrow>
                     (node_error_code Uncaught_publish_error, System_error (node_error_code Uncaught_publish_error) m));
                 aw' = call_back (Some y) (a, w')
             in if is_error ec then cancel px e ec aw' else aw')"

definition run_task ::
  "'c platform \<Rightarrow> env \<Rightarrow> (nat \<Rightarrow> string) \<Rightarrow> loop_task \<Rightarrow> 'd app \<times> 'c world \<Rightarrow> 'd app \<times> 'c world" where
  "run_task px e ids t aw = (case t of Task_cancel ec \<Rightarrow> cancel px e ec aw | Task_publish \<Rightarrow> publish px e ids aw)"

text \<open>\<^verbatim>\<open>loop->dispatch\<close>: at once on a thread of the loop, otherwise queued.\<close>

definition dispatch ::
  "'c platform \<Rightarrow> env \<Rightarrow> (nat \<Rightarrow> string) \<Rightarrow> bool \<Rightarrow> loop_task \<Rightarrow> 'd app \<times> 'c world \<Rightarrow> 'd app \<times> 'c world" where
  "dispatch px e ids in_loop t aw =
     (if in_loop then run_task px e ids t aw
      else let (a, w) = aw in (a\<lparr>ap_loop := ap_loop a @ [t]\<rparr>, w))"

definition complete :: "'d app \<times> 'c world \<Rightarrow> 'd app \<times> 'c world" where
  "complete aw = (let (a, w) = aw in (a\<lparr>ap_completions := ap_completions a + 1\<rparr>, w))"

definition on_abort ::
  "'c platform \<Rightarrow> env \<Rightarrow> (nat \<Rightarrow> string) \<Rightarrow> bool \<Rightarrow> error_code \<Rightarrow> string \<Rightarrow> 'd app \<times> 'c world \<Rightarrow> 'd app \<times> 'c world" where
  "on_abort px e ids in_loop ec reason aw =
     (if ap_phase (fst aw) = Closed then aw
      else call_back (Some (System_error ec reason)) (dispatch px e ids in_loop (Task_cancel ec) (complete aw)))"

definition on_ready ::
  "'c platform \<Rightarrow> env \<Rightarrow> (nat \<Rightarrow> string) \<Rightarrow> bool \<Rightarrow> 'd app \<times> 'c world \<Rightarrow> 'd app \<times> 'c world" where
  "on_ready px e ids in_loop aw =
     (if ap_phase (fst aw) = Closed then aw else dispatch px e ids in_loop Task_publish (complete aw))"

section \<open>Construction and destruction\<close>

datatype spool_result =
    Spool_started
  | Spool_throws exn
  | No_isolate exn

text \<open>
  Spooling; the handler is called from inside the constructor of the spooling
  state when the isolate throws, on a thread that does not run the loop.
\<close>

definition spool ::
  "'c platform \<Rightarrow> env \<Rightarrow> (nat \<Rightarrow> string) \<Rightarrow> spool_result \<Rightarrow> 'd app \<times> 'c world \<Rightarrow> (exn, 'd app \<times> 'c world) result" where
  "spool px e ids r aw =
     (if \<not> stopped (ap_state (fst aw)) then Inl (Std_exception ''invalid state'')
      else case r of
             No_isolate x \<Rightarrow> Inl x
           | Spool_started \<Rightarrow> Inr (reset_state px e (Spooling True) aw)
           | Spool_throws (System_error ec m) \<Rightarrow>
               Inr (reset_state px e (Spooling False) (on_abort px e ids False ec m aw))
           | Spool_throws (Std_exception m) \<Rightarrow>
               Inr (reset_state px e (Spooling False)
                 (on_abort px e ids False (node_error_code Uncaught_spool_error) m aw)))"

definition fresh_app :: "manifest \<Rightarrow> 'd profile_config \<Rightarrow> profile \<Rightarrow> 'd app" where
  "fresh_app mf pf pr =
     \<lparr>ap_manifest = mf, ap_profile = pf, ap_engine_profile = pr, ap_state = Stopped no_error, ap_loop = [],
      ap_callbacks = [], ap_spool_cancels = 0, ap_completions = 0, ap_phase = Alive\<rparr>"

definition new_app ::
  "'c platform \<Rightarrow> env \<Rightarrow> (nat \<Rightarrow> string) \<Rightarrow> (config_error, manifest) result \<Rightarrow>
   (config_error, 'd profile_config \<times> profile) result \<Rightarrow> (exn, unit) result \<Rightarrow> spool_result \<Rightarrow>
   'c world \<Rightarrow> (exn, 'd app \<times> 'c world) result" where
  "new_app px e ids mf pf isolate r w =
     bindE (lift_error config_exn mf) (\<lambda>mf.
     bindE (lift_error config_exn pf) (\<lambda>(pf, pr).
     bindE isolate (\<lambda>_.
       spool px e ids r (fresh_app mf pf pr, w))))"

text \<open>
  The destructor of an application: the state is cancelled, the loop runs what
  is queued until it is out of work, and the last state is destroyed; \<open>Stopped\<close>
  then stands for the state object that is no more.
\<close>

definition begin_destroy :: "'c platform \<Rightarrow> env \<Rightarrow> 'd app \<times> 'c world \<Rightarrow> 'd app \<times> 'c world" where
  "begin_destroy px e aw = (let (a, w) = cancel px e no_error aw in (a\<lparr>ap_phase := Closing\<rparr>, w))"

definition run_loop ::
  "'c platform \<Rightarrow> env \<Rightarrow> (nat \<Rightarrow> string) \<Rightarrow> 'd app \<times> 'c world \<Rightarrow> ('d app \<times> 'c world) option" where
  "run_loop px e ids aw =
     (case ap_loop (fst aw) of
        [] \<Rightarrow> None
      | t # ts \<Rightarrow> Some (run_task px e ids t ((fst aw)\<lparr>ap_loop := ts\<rparr>, snd aw)))"

definition end_destroy :: "'c platform \<Rightarrow> env \<Rightarrow> 'd app \<times> 'c world \<Rightarrow> 'd app \<times> 'c world" where
  "end_destroy px e aw =
     (let (a, w) = destroy_state px e aw in (a\<lparr>ap_state := Stopped no_error, ap_phase := Closed\<rparr>, w))"

text \<open>Joining the thread of the loop; the first argument bounds the handlers run.\<close>

primrec drain ::
  "nat \<Rightarrow> 'c platform \<Rightarrow> env \<Rightarrow> (nat \<Rightarrow> string) \<Rightarrow> 'd app \<times> 'c world \<Rightarrow> 'd app \<times> 'c world" where
  "drain 0 px e ids aw = aw"
| "drain (Suc n) px e ids aw = (case run_loop px e ids aw of None \<Rightarrow> aw | Some aw' \<Rightarrow> drain n px e ids aw')"

definition app_dtor ::
  "'c platform \<Rightarrow> env \<Rightarrow> (nat \<Rightarrow> string) \<Rightarrow> 'd app \<times> 'c world \<Rightarrow> 'd app \<times> 'c world" where
  "app_dtor px e ids aw =
     (let aw = begin_destroy px e aw
      in end_destroy px e (drain (length (ap_loop (fst aw))) px e ids aw))"

section \<open>Notifications of the engine\<close>

definition notify :: "'c platform \<Rightarrow> nat \<Rightarrow> engine_effect \<Rightarrow> 'd app \<times> 'c world \<Rightarrow> 'd app \<times> 'c world" where
  "notify px i x aw =
     (let (a, w) = aw; here = (ap_state a = Running i)
      in case x of
           Observed_spawned \<Rightarrow> (a, if here then on_spawned px a i w else w\<lparr>wd_dangling := True\<rparr>)
         | Observed_despawned k \<Rightarrow> (a, if here then on_despawned px a i w else w\<lparr>wd_dangling := True\<rparr>)
         | _ \<Rightarrow> (a, w))"

definition engine_acts ::
  "'c platform \<Rightarrow> env \<Rightarrow> nat \<Rightarrow> engine_event \<Rightarrow> 'd app \<times> 'c world \<Rightarrow> ('d app \<times> 'c world) option" where
  "engine_acts px e i ev aw =
     (let (a, w) = aw
      in if i < length (wd_engines w) \<and> ev \<noteq> Stop
         then case engine_step e ev (wd_engines w ! i) of
                None \<Rightarrow> None
              | Some en \<Rightarrow>
                  Some (fold (notify px i) (drop (length (en_log (wd_engines w ! i))) (en_log en))
                    (a, w\<lparr>wd_engines := (wd_engines w)[i := en]\<rparr>))
         else None)"

section \<open>Steps\<close>

datatype app_event =
    Isolate_abort bool error_code string
  | Isolate_ready bool
  | Run_loop
  | Engine_acts nat engine_event
  | Begin_destroy
  | End_destroy

fun app_step ::
  "'c platform \<Rightarrow> env \<Rightarrow> (nat \<Rightarrow> string) \<Rightarrow> app_event \<Rightarrow> 'd app \<times> 'c world \<Rightarrow> ('d app \<times> 'c world) option" where
  "app_step px e ids (Isolate_abort in_loop ec reason) aw = Some (on_abort px e ids in_loop ec reason aw)"
| "app_step px e ids (Isolate_ready in_loop) aw = Some (on_ready px e ids in_loop aw)"
| "app_step px e ids Run_loop aw = run_loop px e ids aw"
| "app_step px e ids (Engine_acts i ev) aw = engine_acts px e i ev aw"
| "app_step px e ids Begin_destroy aw = (if ap_phase (fst aw) = Alive then Some (begin_destroy px e aw) else None)"
| "app_step px e ids End_destroy aw =
     (if ap_phase (fst aw) = Closing \<and> ap_loop (fst aw) = [] then Some (end_destroy px e aw) else None)"

definition new_world :: "'c \<Rightarrow> 'c world" where
  "new_world c = \<lparr>wd_ctx = c, wd_engines = [], wd_refs = [], wd_dangling = False\<rparr>"

inductive app_reachable ::
  "'c platform \<Rightarrow> (nat \<Rightarrow> string) \<Rightarrow> manifest \<Rightarrow> 'd profile_config \<Rightarrow> profile \<Rightarrow> 'c \<Rightarrow> 'd app \<times> 'c world \<Rightarrow> bool"
  for px ids mf pf pr c where
  app_init: "new_app px e ids (Inr mf) (Inr (pf, pr)) (Inr ()) r (new_world c) = Inr aw \<Longrightarrow>
     app_reachable px ids mf pf pr c aw"
| app_next: "app_reachable px ids mf pf pr c aw \<Longrightarrow> app_step px e ids ev aw = Some aw' \<Longrightarrow>
     app_reachable px ids mf pf pr c aw'"

section \<open>The registry of services\<close>

text \<open>
  What is relied on of the context: inserting a service makes it locatable and
  is refused while the name is taken; removing makes it unlocatable and fails
  only when it was not there; neither touches other names, and the workers'
  actor touches no name.
\<close>

definition context_laws :: "'c platform \<Rightarrow> bool" where
  "context_laws px \<longleftrightarrow>
     (\<forall>n c c'. px_insert px n c = Inr c' \<longrightarrow>
        \<not> px_locate px n c \<and> px_locate px n c' \<and> (\<forall>m. m \<noteq> n \<longrightarrow> px_locate px m c' = px_locate px m c)) \<and>
     (\<forall>n c c'. px_remove px n c = Inr c' \<longrightarrow>
        \<not> px_locate px n c' \<and> (\<forall>m. m \<noteq> n \<longrightarrow> px_locate px m c' = px_locate px m c)) \<and>
     (\<forall>n c x. px_remove px n c = Inl x \<longrightarrow> \<not> px_locate px n c) \<and>
     (\<forall>p c c' m. px_listen px p c = Inr c' \<longrightarrow> px_locate px m c' = px_locate px m c) \<and>
     (\<forall>p c m. px_locate px m (px_terminate px p c) = px_locate px m c)"

definition published :: "'c platform \<Rightarrow> 'd app \<Rightarrow> 'c world \<Rightarrow> bool" where
  "published px a w = px_locate px (app_name a) (wd_ctx w)"

lemma release_frame [simp]:
  "wd_ctx (release e i w) = wd_ctx w" "wd_dangling (release e i w) = wd_dangling w"
  "length (wd_engines (release e i w)) = length (wd_engines w)"
  "length (wd_refs (release e i w)) = length (wd_refs w)"
  by (simp_all add: release_def Let_def)

lemma unpublish_frame [simp]:
  "wd_engines (unpublish px n w) = wd_engines w" "wd_refs (unpublish px n w) = wd_refs w"
  "wd_dangling (unpublish px n w) = wd_dangling w"
  by (simp_all add: unpublish_def split: sum.splits)

lemma context_lawsD:
  assumes "context_laws px"
  shows "px_insert px n c = Inr c' \<Longrightarrow> \<not> px_locate px n c"
    "px_insert px n c = Inr c' \<Longrightarrow> px_locate px m c' \<longleftrightarrow> m = n \<or> px_locate px m c"
    "px_remove px n c = Inr c' \<Longrightarrow> px_locate px m c' \<longleftrightarrow> m \<noteq> n \<and> px_locate px m c"
    "px_remove px n c = Inl x \<Longrightarrow> \<not> px_locate px n c"
    "px_listen px p c = Inr c' \<Longrightarrow> px_locate px m c' = px_locate px m c"
    "px_locate px m (px_terminate px p c) = px_locate px m c"
  using assms unfolding context_laws_def by metis+

lemma unpublish_locate:
  assumes "context_laws px"
  shows "px_locate px m (wd_ctx (unpublish px n w)) \<longleftrightarrow> m \<noteq> n \<and> px_locate px m (wd_ctx w)"
proof (cases "px_remove px n (wd_ctx w)")
  case (Inl x)
  with context_lawsD(4) [OF assms Inl] show ?thesis by (auto simp: unpublish_def)
next
  case (Inr c)
  with context_lawsD(3) [OF assms Inr] show ?thesis by (simp add: unpublish_def)
qed

lemma running_dtor_frame [simp]:
  "wd_dangling (running_dtor px e a i w) = wd_dangling w"
  by (simp add: running_dtor_def Let_def)

lemma running_dtor_locate:
  "context_laws px \<Longrightarrow>
   px_locate px m (wd_ctx (running_dtor px e a i w)) \<longleftrightarrow> m \<noteq> app_name a \<and> px_locate px m (wd_ctx w)"
  by (simp add: running_dtor_def Let_def unpublish_locate context_lawsD(6))

lemma publish_service_ok:
  assumes "context_laws px" and "publish_service px n w = Inr w'"
  shows "\<not> px_locate px n (wd_ctx w)" "px_locate px m (wd_ctx w') \<longleftrightarrow> m = n \<or> px_locate px m (wd_ctx w)"
    "wd_engines w' = wd_engines w" "wd_refs w' = wd_refs w" "wd_dangling w' = wd_dangling w"
proof -
  obtain c where c: "px_insert px n (wd_ctx w) = Inr c" "w' = w\<lparr>wd_ctx := c\<rparr>"
    using assms(2) by (auto simp: publish_service_def bindE_Inr_conv)
  show "\<not> px_locate px n (wd_ctx w)" "px_locate px m (wd_ctx w') \<longleftrightarrow> m = n \<or> px_locate px m (wd_ctx w)"
    using context_lawsD(1,2) [OF assms(1) c(1)] by (simp_all add: c(2))
  show "wd_engines w' = wd_engines w" "wd_refs w' = wd_refs w" "wd_dangling w' = wd_dangling w"
    by (simp_all add: c(2))
qed

lemma maybe_publish_ok:
  assumes "context_laws px" and "maybe_publish px a i w = Inr w'"
  shows "m \<noteq> app_name a \<Longrightarrow> px_locate px m (wd_ctx w') = px_locate px m (wd_ctx w)"
    "wd_engines w' = wd_engines w" "wd_refs w' = wd_refs w" "wd_dangling w' = wd_dangling w"
  using assms publish_service_ok [OF assms(1)]
  by (auto simp: maybe_publish_def bindE_Inr_conv split: if_splits)

lemma on_spawned_frame [simp]:
  "wd_engines (on_spawned px a i w) = wd_engines w" "wd_refs (on_spawned px a i w) = wd_refs w"
  "wd_dangling (on_spawned px a i w) = wd_dangling w"
  by (auto simp: on_spawned_def maybe_publish_def publish_service_def bindE_Inr_conv split: sum.splits if_splits)

lemma on_despawned_frame [simp]:
  "wd_engines (on_despawned px a i w) = wd_engines w" "wd_refs (on_despawned px a i w) = wd_refs w"
  "wd_dangling (on_despawned px a i w) = wd_dangling w"
  by (auto simp: on_despawned_def maybe_unpublish_def bindE_Inr_conv split: sum.splits if_splits)

text \<open>The configuration of an application never changes.\<close>

definition same_app :: "'d app \<Rightarrow> 'd app \<Rightarrow> bool" where
  "same_app a b \<longleftrightarrow> ap_manifest a = ap_manifest b \<and> ap_profile a = ap_profile b \<and>
     ap_engine_profile a = ap_engine_profile b"

lemma same_app_name: "same_app a b \<Longrightarrow> app_name a = app_name b"
  by (simp add: same_app_def app_name_def)

section \<open>Retired engines\<close>

text \<open>An engine whose overseer is destroyed: stopped, with no slave, and it stays so.\<close>

definition retired :: "engine \<Rightarrow> bool" where
  "retired en \<longleftrightarrow> en_stopped en \<and> en_pool en = []"

lemma retired_frames [simp]:
  "retired (post_e p en) = retired en" "retired (log_e x en) = retired en"
  "retired (en\<lparr>en_posted := ps\<rparr>) = retired en" "retired (en\<lparr>en_queue := q\<rparr>) = retired en"
  "retired (en\<lparr>en_timer := b\<rparr>) = retired en" "retired (en\<lparr>en_pool_target := n\<rparr>) = retired en"
  "retired (en\<lparr>en_rejected := n'\<rparr>) = retired en" "retired (en\<lparr>en_accepted := n'\<rparr>) = retired en"
  "retired (en\<lparr>en_crashed := n'\<rparr>) = retired en" "retired (en\<lparr>en_gone := g\<rparr>) = retired en"
  "retired (backoff now en) = retired en"
  by (simp_all add: retired_def post_e_def log_e_def backoff_def Let_def)

lemma retired_rebalance [simp]:
  "retired en \<Longrightarrow> rebalance_events e en = en" "retired en \<Longrightarrow> rebalance_slaves e en = Inr en"
  by (simp_all add: retired_def rebalance_events_def rebalance_slaves_def)

lemma retired_death [simp]: "retired en \<Longrightarrow> retired (on_slave_death e ec k en)"
  by (auto simp: on_slave_death_def Let_def retired_def backoff_def post_e_def log_e_def)

lemma retired_deaths: "retired en \<Longrightarrow> retired (fold (\<lambda>ec. on_slave_death e ec k) ecs en)"
  by (induction ecs arbitrary: en) auto

lemma retired_enqueue: "retired en \<Longrightarrow> retired (snd (enqueue e ev en))"
  by (simp add: enqueue_def enqueue_failed_def Let_def)

lemma retired_find: "retired en \<Longrightarrow> um_find k (en_pool en) = None"
  by (simp add: retired_def)

lemma remove_slave_frame [simp]:
  "en_pool (remove_slave e k s en) = um_erase k (en_pool en)" "en_stopped (remove_slave e k s en) = en_stopped en"
  by (simp_all add: remove_slave_def Let_def)

lemma pool_clear:
  "en_pool (fold (\<lambda>(k, s). remove_slave e k s) xs en) = fold (\<lambda>(k, s). um_erase k) xs (en_pool en)"
  by (induction xs arbitrary: en) (simp_all add: case_prod_beta)

lemma stopped_clear: "en_stopped (fold (\<lambda>(k, s). remove_slave e k s) xs en) = en_stopped en"
  by (induction xs arbitrary: en) (simp_all add: case_prod_beta)

lemma erase_all: "set (um_keys p) \<subseteq> set (um_keys xs) \<Longrightarrow> fold (\<lambda>(k, s). um_erase k) xs p = []"
proof (induction xs arbitrary: p)
  case Nil
  then show ?case by (simp add: um_keys_def)
next
  case (Cons x xs)
  have "set (um_keys (um_erase (fst x) p)) \<subseteq> set (um_keys xs)"
    using Cons.prems unfolding um_keys_erase by (auto simp: um_keys_def)
  with Cons.IH show ?case by (simp add: case_prod_beta)
qed

lemma overseer_dtor_retires:
  "\<exists>en'. overseer_dtor e en = Inr en' \<and> retired en'"
  by (simp add: overseer_dtor_def control_population_def rebalance_slaves_def clear_pool_def retired_def
      pool_clear stopped_clear erase_all)

lemma destroy_overseer_retired [simp]: "retired (destroy_overseer e en)"
  using overseer_dtor_retires [of e en] by (auto simp: destroy_overseer_def)

lemma retired_step:
  assumes "retired en" and "engine_step e ev en = Some en'"
  shows "retired en'"
proof (cases ev)
  case (Enqueue x)
  with assms retired_enqueue [OF assms(1), of e x] show ?thesis
    by (auto split: prod.splits sum.splits engine_error.splits)
next
  case (Despawn k p)
  with assms show ?thesis by (auto simp: despawn_def retired_find)
next
  case (Handshake k)
  with assms show ?thesis by (auto simp: on_handshake_def retired_find)
next
  case Run_posted
  with assms show ?thesis by (auto simp: ok_result_def split: list.splits engine_post.splits)
next
  case (Gone_event i x)
  with assms show ?thesis by (auto simp: on_gone_event_def retired_deaths split: if_splits)
next
  case Stop
  with assms overseer_dtor_retires [of e en] show ?thesis by (auto simp: ok_result_def)
qed (use assms in \<open>auto simp: control_population_def ok_result_def on_spawn_rate_timeout_def on_slave_event_def
       on_queued_client_def Let_def retired_find split: if_splits\<close>)

section \<open>References to overseers\<close>

text \<open>The reference counts are \<open>h\<close>; an overseer nobody refers to is destroyed.\<close>

definition overseers_ok :: "(nat \<Rightarrow> nat) \<Rightarrow> 'c world \<Rightarrow> bool" where
  "overseers_ok h w \<longleftrightarrow>
     length (wd_refs w) = length (wd_engines w) \<and> (\<forall>k. 0 < h k \<longrightarrow> k < length (wd_engines w)) \<and>
     (\<forall>k < length (wd_engines w). wd_refs w ! k = h k \<and> (h k = 0 \<longrightarrow> retired (wd_engines w ! k)))"

text \<open>The reference a state holds.\<close>

definition own :: "app_state \<Rightarrow> nat \<Rightarrow> nat" where
  "own s k = (if s = Running k then 1 else 0)"

lemma own_simps [simp]: "own (Stopped ec) k = 0" "own (Spooling b) k = 0"
  "own (Running i) k = (if k = i then 1 else 0)"
  by (simp_all add: own_def)

lemma overseers_ok_cong:
  "wd_refs w' = wd_refs w \<Longrightarrow> wd_engines w' = wd_engines w \<Longrightarrow> overseers_ok h w' = overseers_ok h w"
  by (simp add: overseers_ok_def)

lemma overseers_ok_make:
  "overseers_ok h w \<Longrightarrow> make_overseer mf pr ids w = (i, w') \<Longrightarrow> overseers_ok (\<lambda>k. own (Running i) k + h k) w'"
  by (fastforce simp: overseers_ok_def make_overseer_def nth_append less_Suc_eq)

lemma overseers_ok_release:
  assumes "overseers_ok (\<lambda>k. own (Running i) k + h k) w"
  shows "overseers_ok h (release e i w)"
proof -
  have i: "i < length (wd_engines w)" "length (wd_refs w) = length (wd_engines w)" "wd_refs w ! i = Suc (h i)"
    using assms by (auto simp: overseers_ok_def split: if_splits)
  then have "release e i w = w\<lparr>wd_refs := (wd_refs w)[i := h i],
      wd_engines := (if h i = 0 then (wd_engines w)[i := destroy_overseer e (wd_engines w ! i)] else wd_engines w)\<rparr>"
    by (simp add: release_def)
  with assms i show ?thesis
    by (auto simp: overseers_ok_def nth_list_update split: if_splits)
qed

lemma overseers_ok_engine:
  assumes "overseers_ok h w" and "engine_step e ev (wd_engines w ! i) = Some en"
  shows "overseers_ok h (w\<lparr>wd_engines := (wd_engines w)[i := en]\<rparr>)"
  using assms retired_step [OF _ assms(2)] by (auto simp: overseers_ok_def) (metis nth_list_update nth_list_update_neq)

section \<open>The invariant of an application\<close>

definition held :: "app_state \<Rightarrow> nat set" where
  "held s = (case s of Running i \<Rightarrow> {i} | _ \<Rightarrow> {})"

lemma held_simps [simp]: "held (Stopped ec) = {}" "held (Spooling b) = {}" "held (Running i) = {i}"
  by (simp_all add: held_def)

definition pending_publishes :: "'d app \<Rightarrow> nat" where
  "pending_publishes a = length (filter (\<lambda>t. t = Task_publish) (ap_loop a))"

lemma destroy_frame [simp]:
  "ap_manifest (fst (destroy_state px e aw)) = ap_manifest (fst aw)"
  "ap_profile (fst (destroy_state px e aw)) = ap_profile (fst aw)"
  "ap_engine_profile (fst (destroy_state px e aw)) = ap_engine_profile (fst aw)"
  "ap_state (fst (destroy_state px e aw)) = ap_state (fst aw)"
  "ap_loop (fst (destroy_state px e aw)) = ap_loop (fst aw)"
  "ap_callbacks (fst (destroy_state px e aw)) = ap_callbacks (fst aw)"
  "ap_completions (fst (destroy_state px e aw)) = ap_completions (fst aw)"
  "ap_phase (fst (destroy_state px e aw)) = ap_phase (fst aw)"
  "wd_dangling (snd (destroy_state px e aw)) = wd_dangling (snd aw)"
  by (simp_all add: destroy_state_def Let_def split: prod.splits app_state.splits)

lemma destroy_world:
  assumes "context_laws px" and "overseers_ok (\<lambda>k. own (ap_state a) k + g k) w"
  shows "overseers_ok g (snd (destroy_state px e (a, w)))"
    "published px a (snd (destroy_state px e (a, w))) \<longleftrightarrow> held (ap_state a) = {} \<and> published px a w"
proof (atomize (full), cases "ap_state a")
  case (Running i)
  let ?w = "unpublish px (app_name a) w"
  let ?v = "?w\<lparr>wd_ctx := px_terminate px (mf_endpoint (ap_manifest a)) (wd_ctx ?w)\<rparr>"
  have "overseers_ok g (release e i ?v)"
    using assms(2) Running overseers_ok_cong [of ?v w "\<lambda>k. own (Running i) k + g k"]
    by (intro overseers_ok_release) simp
  then show "overseers_ok g (snd (destroy_state px e (a, w))) \<and>
      (published px a (snd (destroy_state px e (a, w))) \<longleftrightarrow> held (ap_state a) = {} \<and> published px a w)"
    using Running running_dtor_locate [OF assms(1), of "app_name a" e a i w]
    by (simp add: destroy_state_def published_def running_dtor_def Let_def)
qed (use assms in \<open>simp_all add: destroy_state_def\<close>)

text \<open>
  The invariant: only a running application is published and only its overseer is
  alive; every completion of the spooling has been answered by one callback or
  waits as one queued publication; a destroyed application has nothing queued.
  \<open>g\<close> counts the references others hold, and services of other names are as in
  the context \<open>d\<close>.
\<close>

definition others :: "'c platform \<Rightarrow> 'd app \<Rightarrow> 'c \<Rightarrow> 'c \<Rightarrow> bool" where
  "others px b d c \<longleftrightarrow> (\<forall>m. m \<noteq> app_name b \<longrightarrow> px_locate px m c = px_locate px m d)"

definition app_ok :: "'c platform \<Rightarrow> 'd app \<Rightarrow> (nat \<Rightarrow> nat) \<Rightarrow> 'c \<Rightarrow> 'd app \<times> 'c world \<Rightarrow> bool" where
  "app_ok px b g d aw \<longleftrightarrow>
     same_app (fst aw) b \<and> others px b d (wd_ctx (snd aw)) \<and> overseers_ok (\<lambda>k. own (ap_state (fst aw)) k + g k) (snd aw) \<and>
     (published px b (snd aw) \<longrightarrow> held (ap_state (fst aw)) \<noteq> {}) \<and>
     (ap_phase (fst aw) = Closed \<longrightarrow> held (ap_state (fst aw)) = {} \<and> ap_loop (fst aw) = [])"

definition callbacks_ok :: "'d app \<Rightarrow> bool" where
  "callbacks_ok a \<longleftrightarrow> length (ap_callbacks a) + pending_publishes a = ap_completions a"

lemma published_cong: "same_app a b \<Longrightarrow> published px a w = published px b w"
  by (simp add: published_def same_app_name)

lemma destroy_others:
  assumes "context_laws px" and "same_app a b" and "others px b d (wd_ctx w)"
  shows "others px b d (wd_ctx (snd (destroy_state px e (a, w))))"
  using assms(3) same_app_name [OF assms(2)]
  by (cases "ap_state a") (simp_all add: destroy_state_def others_def running_dtor_locate assms(1))

lemma reset_ok:
  assumes "context_laws px" and "same_app a b" and "others px b d (wd_ctx w)"
    and "overseers_ok (\<lambda>k. own (ap_state a) k + (own s k + g k)) w"
    and "held (ap_state a) = {} \<and> published px b w \<longrightarrow> held s \<noteq> {}"
    and "ap_phase a \<noteq> Closed \<or> (held s = {} \<and> ap_loop a = [])"
  shows "app_ok px b g d (reset_state px e s (a, w))"
  using destroy_world(1,2) [OF assms(1,4), of e] destroy_others [OF assms(1-3), of e] assms(2,5,6)
    published_cong [OF assms(2), of px]
  by (auto simp: app_ok_def reset_state_def split_beta same_app_def)

lemma reset_frame [simp]:
  "ap_state (fst (reset_state px e s aw)) = s"
  "ap_loop (fst (reset_state px e s aw)) = ap_loop (fst aw)"
  "ap_callbacks (fst (reset_state px e s aw)) = ap_callbacks (fst aw)"
  "ap_completions (fst (reset_state px e s aw)) = ap_completions (fst aw)"
  "ap_phase (fst (reset_state px e s aw)) = ap_phase (fst aw)"
  "wd_dangling (snd (reset_state px e s aw)) = wd_dangling (snd aw)"
  by (simp_all add: reset_state_def split_beta)

lemma call_back_frame [simp]:
  "app_ok px b g d (call_back r aw) = app_ok px b g d aw" "snd (call_back r aw) = snd aw"
  "ap_state (fst (call_back r aw)) = ap_state (fst aw)" "ap_loop (fst (call_back r aw)) = ap_loop (fst aw)"
  "ap_phase (fst (call_back r aw)) = ap_phase (fst aw)"
  "ap_completions (fst (call_back r aw)) = ap_completions (fst aw)"
  "ap_callbacks (fst (call_back r aw)) = ap_callbacks (fst aw) @ [r]"
  "same_app (fst (call_back r aw)) b = same_app (fst aw) b"
  by (simp_all add: call_back_def split_beta app_ok_def same_app_def)

lemma cancel_ok:
  assumes "context_laws px" and "app_ok px b g d aw"
  shows "app_ok px b g d (cancel px e ec aw)"
proof (cases aw)
  case (Pair a w)
  with assms show ?thesis
    by (auto simp: cancel_def app_ok_def [of px b g d "(a, w)"] intro!: reset_ok)
qed

lemma running_ctor_ok:
  assumes laws: "context_laws px" and "overseers_ok h w" and "running_ctor px e ids a w = (r, w')"
  shows "case r of Inr i \<Rightarrow> overseers_ok (\<lambda>k. own (Running i) k + h k) w'
    | Inl x \<Rightarrow> overseers_ok h w' \<and> (published px a w' \<longrightarrow> published px a w)"
    "wd_dangling w' = wd_dangling w"
    "same_app a b \<Longrightarrow> others px b d (wd_ctx w) \<Longrightarrow> others px b d (wd_ctx w')"
proof -
  obtain i v where v: "make_overseer (ap_manifest a) (ap_engine_profile a) ids w = (i, v)" by fastforce
  have iv: "overseers_ok (\<lambda>k. own (Running i) k + h k) v" "wd_ctx v = wd_ctx w" "wd_dangling v = wd_dangling w"
    using overseers_ok_make [OF assms(2) v] v by (auto simp: make_overseer_def)
  have drop: "overseers_ok h (release e i u)" if "wd_refs u = wd_refs v" "wd_engines u = wd_engines v"
    for u :: "'a world"
    using overseers_ok_release [of i h u e] overseers_ok_cong [OF that] iv(1) by simp
  show "case r of Inr i \<Rightarrow> overseers_ok (\<lambda>k. own (Running i) k + h k) w'
    | Inl x \<Rightarrow> overseers_ok h w' \<and> (published px a w' \<longrightarrow> published px a w)"
  proof (cases "px_listen px (mf_endpoint (ap_manifest a)) (wd_ctx v)")
    case (Inl x)
    with assms(3) v have "r = Inl x" "w' = release e i v" by (auto simp: running_ctor_def)
    then show ?thesis using drop [of v] iv(2) by (simp add: published_def)
  next
    case (Inr c)
    let ?u = "v\<lparr>wd_ctx := c\<rparr>"
    show ?thesis
    proof (cases "maybe_publish px a i ?u")
      case Inl': (Inl x)
      with Inr assms(3) v have "r = Inl x" "w' = release e i (unpublish px (app_name a) ?u)"
        by (auto simp: running_ctor_def)
      then show ?thesis using drop unpublish_locate [OF laws, of "app_name a" "app_name a" ?u] by (simp add: published_def)
    next
      case Inr': (Inr u)
      with Inr assms(3) v have "r = Inr i" "w' = u" by (auto simp: running_ctor_def)
      then show ?thesis
        using iv(1) maybe_publish_ok(2,3) [OF laws Inr'] overseers_ok_cong [of u v] by simp
    qed
  qed
  show "wd_dangling w' = wd_dangling w"
    using assms(3) v iv(3)
    by (auto simp: running_ctor_def Let_def split: sum.splits dest: maybe_publish_ok(4) [OF laws])
  show "others px b d (wd_ctx w')" if "same_app a b" "others px b d (wd_ctx w)"
  proof -
    have keep: "px_locate px m (wd_ctx w') = px_locate px m (wd_ctx w)" if "m \<noteq> app_name a" for m
      using assms(3) v iv(2) that unpublish_locate [OF laws] context_lawsD(5) [OF laws]
      by (auto simp: running_ctor_def Let_def split: sum.splits dest: maybe_publish_ok(1) [OF laws])
    then show ?thesis using that same_app_name [of a b] by (simp add: others_def)
  qed
qed

lemma publish_ok:
  assumes "context_laws px" and "app_ok px b g d aw" and "ap_phase (fst aw) \<noteq> Closed"
  shows "app_ok px b g d (publish px e ids aw)"
proof -
  obtain a w where aw: "aw = (a, w)" by fastforce
  obtain r w' where r: "running_ctor px e ids a w = (r, w')" by fastforce
  have ok: "same_app a b" "overseers_ok (\<lambda>k. own (ap_state a) k + g k) w" "published px b w \<longrightarrow> held (ap_state a) \<noteq> {}"
    "ap_phase a \<noteq> Closed"
    using assms(2,3) by (auto simp: app_ok_def aw)
  have "others px b d (wd_ctx w)" using assms(2) by (simp add: app_ok_def aw)
  note ctor = running_ctor_ok(1) [OF assms(1) ok(2) r] running_ctor_ok(3) [OF assms(1) ok(2) r ok(1) this]
  show ?thesis
  proof (cases r)
    case (Inr i)
    have "app_ok px b g d (reset_state px e (Running i) (a, w'))"
      using ctor Inr ok by (intro reset_ok [OF assms(1)]) (auto simp: add.left_commute)
    then show ?thesis using r Inr aw by (simp add: publish_def)
  next
    case (Inl x)
    have "app_ok px b g d (a, w')"
      using ctor Inl ok published_cong [OF ok(1), of px] by (auto simp: app_ok_def)
    then have "app_ok px b g d (call_back y (a, w'))" "app_ok px b g d (cancel px e ec (call_back y (a, w')))" for y ec
      by (simp_all add: cancel_ok [OF assms(1)])
    then show ?thesis using r Inl aw
      by (simp add: publish_def Let_def split_beta split: exn.splits)
  qed
qed

lemma run_task_ok:
  "context_laws px \<Longrightarrow> app_ok px b g d aw \<Longrightarrow> ap_phase (fst aw) \<noteq> Closed \<Longrightarrow> app_ok px b g d (run_task px e ids t aw)"
  by (cases t) (simp_all add: run_task_def cancel_ok publish_ok)

lemma complete_frame [simp]:
  "app_ok px b g d (complete aw) = app_ok px b g d aw" "ap_phase (fst (complete aw)) = ap_phase (fst aw)"
  "ap_state (fst (complete aw)) = ap_state (fst aw)" "ap_loop (fst (complete aw)) = ap_loop (fst aw)"
  "ap_callbacks (fst (complete aw)) = ap_callbacks (fst aw)"
  "ap_completions (fst (complete aw)) = Suc (ap_completions (fst aw))" "snd (complete aw) = snd aw"
  by (simp_all add: complete_def split_beta app_ok_def same_app_def)

lemma dispatch_ok:
  "context_laws px \<Longrightarrow> app_ok px b g d aw \<Longrightarrow> ap_phase (fst aw) \<noteq> Closed \<Longrightarrow>
   app_ok px b g d (dispatch px e ids in_loop t aw)"
proof (cases in_loop)
  case False
  then show "app_ok px b g d aw \<Longrightarrow> ap_phase (fst aw) \<noteq> Closed \<Longrightarrow> ?thesis"
    by (auto simp: dispatch_def split_beta app_ok_def same_app_def)
qed (simp add: dispatch_def run_task_ok)

lemma run_loop_ok:
  assumes "context_laws px" and "app_ok px b g d aw" and "run_loop px e ids aw = Some aw'"
  shows "app_ok px b g d aw'"
proof -
  obtain t ts where t: "ap_loop (fst aw) = t # ts"
    "aw' = run_task px e ids t ((fst aw)\<lparr>ap_loop := ts\<rparr>, snd aw)"
    using assms(3) by (auto simp: run_loop_def split: list.splits)
  then have "ap_phase (fst aw) \<noteq> Closed" using assms(2) by (auto simp: app_ok_def)
  moreover have "app_ok px b g d ((fst aw)\<lparr>ap_loop := ts\<rparr>, snd aw)"
    using assms(2) calculation by (simp add: app_ok_def same_app_def)
  ultimately show ?thesis unfolding t(2) by (intro run_task_ok [OF assms(1)]) simp_all
qed

lemma destroy_closed_ok:
  assumes "context_laws px" and "app_ok px b g d aw" and "ap_loop (fst aw) = []"
  shows "app_ok px b g d (end_destroy px e aw)"
proof (cases aw)
  case (Pair a w)
  with assms have "same_app a b" "overseers_ok (\<lambda>k. own (ap_state a) k + g k) w"
    "published px b w \<longrightarrow> held (ap_state a) \<noteq> {}" "others px b d (wd_ctx w)" by (auto simp: app_ok_def)
  with destroy_world [OF assms(1) this(2), of e] destroy_others [OF assms(1) this(1,4), of e] published_cong [of a b px] assms(3) Pair
  show ?thesis by (auto simp: end_destroy_def split_beta app_ok_def same_app_def)
qed

lemma notify_frame [simp]: "fst (notify px i x aw) = fst aw"
  "wd_engines (snd (notify px i x aw)) = wd_engines (snd aw)"
  "wd_refs (snd (notify px i x aw)) = wd_refs (snd aw)"
  by (auto simp: notify_def Let_def split_beta split: engine_effect.splits)

lemma notifications_fst [simp]: "fst (fold (notify px i) xs aw) = fst aw"
  by (induction xs arbitrary: aw) auto

lemma on_spawned_others:
  "context_laws px \<Longrightarrow> m \<noteq> app_name a \<Longrightarrow>
   px_locate px m (wd_ctx (on_spawned px a i w)) = px_locate px m (wd_ctx w)"
  by (auto simp: on_spawned_def dest: maybe_publish_ok(1) split: sum.splits)

lemma on_despawned_others:
  "context_laws px \<Longrightarrow> m \<noteq> app_name a \<Longrightarrow>
   px_locate px m (wd_ctx (on_despawned px a i w)) = px_locate px m (wd_ctx w)"
  by (auto simp: on_despawned_def maybe_unpublish_def bindE_Inr_conv unpublish_locate split: sum.splits if_splits)

lemma notify_others:
  assumes "context_laws px" and "same_app (fst aw) b" and "others px b d (wd_ctx (snd aw))"
  shows "others px b d (wd_ctx (snd (notify px i x aw)))"
  using assms(3) same_app_name [OF assms(2)]
  by (cases x) (auto simp: notify_def Let_def split_beta others_def on_spawned_others on_despawned_others assms(1))

lemma notify_ok:
  assumes "context_laws px" and "app_ok px b g d aw"
  shows "app_ok px b g d (notify px i x aw)"
proof -
  have "published px b (snd (notify px i x aw)) \<longrightarrow> published px b (snd aw) \<or> ap_state (fst aw) = Running i"
    by (auto simp: notify_def Let_def split_beta published_def split: engine_effect.splits)
  moreover have "others px b d (wd_ctx (snd (notify px i x aw)))"
    using assms(2) by (intro notify_others [OF assms(1)]) (simp_all add: app_ok_def)
  moreover have "overseers_ok h (snd (notify px i x aw)) = overseers_ok h (snd aw)" for h
    by (rule overseers_ok_cong) simp_all
  ultimately show ?thesis using assms(2) by (auto simp: app_ok_def)
qed

lemma notifications_ok: "context_laws px \<Longrightarrow> app_ok px b g d aw \<Longrightarrow> app_ok px b g d (fold (notify px i) xs aw)"
  by (induction xs arbitrary: aw) (auto simp: notify_ok)

lemma app_step_ok:
  assumes "context_laws px" and "app_ok px b g d aw" and "app_step px e ids ev aw = Some aw'"
  shows "app_ok px b g d aw'"
proof (cases ev)
  case (Engine_acts i x)
  obtain a w where aw: "aw = (a, w)" by fastforce
  obtain en where en: "engine_step e x (wd_engines w ! i) = Some en"
    "aw' = fold (notify px i) (drop (length (en_log (wd_engines w ! i))) (en_log en))
       (a, w\<lparr>wd_engines := (wd_engines w)[i := en]\<rparr>)"
    using assms(3) Engine_acts aw by (auto simp: engine_acts_def split: if_splits option.splits)
  have "app_ok px b g d (a, w\<lparr>wd_engines := (wd_engines w)[i := en]\<rparr>)"
    using assms(2) overseers_ok_engine [OF _ en(1)] by (auto simp: app_ok_def aw published_def others_def)
  then show ?thesis using notifications_ok [OF assms(1)] en(2) by simp
next
  case Begin_destroy
  have "app_ok px b g d (cancel px e no_error aw)" by (rule cancel_ok [OF assms(1,2)])
  with Begin_destroy assms(3) show ?thesis
    by (auto simp: begin_destroy_def split_beta app_ok_def same_app_def split: if_splits)
qed (use assms in \<open>auto simp: on_abort_def on_ready_def dispatch_ok run_loop_ok destroy_closed_ok split: if_splits\<close>)

lemma reset_idle_ok:
  assumes "context_laws px" and "app_ok px b g d aw" and "held s = {}"
  shows "app_ok px b g d (reset_state px e s aw)"
proof (cases aw)
  case (Pair a w)
  have "own s k = 0" for k using assms(3) by (cases s) auto
  with Pair assms show ?thesis
    by (auto simp: app_ok_def [of px b g d "(a, w)"] intro!: reset_ok)
qed

lemma on_abort_ok:
  "context_laws px \<Longrightarrow> app_ok px b g d aw \<Longrightarrow> app_ok px b g d (on_abort px e ids in_loop ec m aw)"
  by (simp add: on_abort_def dispatch_ok)

lemma spool_ok:
  assumes "context_laws px" and "app_ok px b g d aw" and "spool px e ids r aw = Inr aw'"
  shows "app_ok px b g d aw'"
  using assms(3)
  by (auto simp: spool_def assms(1,2) reset_idle_ok on_abort_ok split: if_splits spool_result.splits exn.splits)

lemma reachable_app_ok:
  assumes "app_reachable px ids mf pf pr c aw" and "context_laws px" and "\<not> px_locate px (mf_name mf) c"
  shows "app_ok px (fresh_app mf pf pr) (\<lambda>_. 0) c aw"
  using assms(1)
proof (induction rule: app_reachable.induct)
  case (app_init e r aw)
  have "app_ok px (fresh_app mf pf pr) (\<lambda>_. 0) c (fresh_app mf pf pr, new_world c)"
    using assms(3) by (simp add: app_ok_def fresh_app_def new_world_def same_app_def overseers_ok_def
        published_def app_name_def others_def)
  then show ?case by (rule spool_ok [OF assms(2)]) (use app_init in \<open>simp add: new_app_def\<close>)
next
  case (app_next aw e ev aw')
  then show ?case using app_step_ok [OF assms(2)] by blast
qed

section \<open>Answers to the start request\<close>

lemma publish_frame [simp]:
  "ap_loop (fst (publish px e ids aw)) = ap_loop (fst aw)"
  "length (ap_callbacks (fst (publish px e ids aw))) = Suc (length (ap_callbacks (fst aw)))"
  "ap_completions (fst (publish px e ids aw)) = ap_completions (fst aw)"
  "ap_phase (fst (publish px e ids aw)) = ap_phase (fst aw)"
  by (auto simp: publish_def Let_def split_beta cancel_def split: prod.splits sum.splits)

lemma run_task_callbacks:
  "length (ap_callbacks (fst (run_task px e ids t aw))) =
     length (ap_callbacks (fst aw)) + (if t = Task_publish then 1 else 0)"
  "ap_loop (fst (run_task px e ids t aw)) = ap_loop (fst aw)"
  "ap_completions (fst (run_task px e ids t aw)) = ap_completions (fst aw)"
  "ap_phase (fst (run_task px e ids t aw)) = ap_phase (fst aw)"
  by (cases t; simp add: run_task_def cancel_def)+

lemma callbacks_ok_step:
  assumes "callbacks_ok (fst aw)" and "app_step px e ids ev aw = Some aw'"
  shows "callbacks_ok (fst aw')"
proof (cases ev)
  case (Engine_acts i x)
  with assms show ?thesis
    by (auto simp: engine_acts_def Let_def split_beta split: if_splits option.splits)
next
  case Run_loop
  with assms show ?thesis
    by (auto simp: run_loop_def callbacks_ok_def pending_publishes_def run_task_callbacks split: list.splits)
qed (use assms in \<open>auto simp: on_abort_def on_ready_def dispatch_def split_beta callbacks_ok_def
       pending_publishes_def run_task_callbacks begin_destroy_def end_destroy_def cancel_def split: if_splits\<close>)

lemma callbacks_ok_spool:
  assumes "callbacks_ok (fst aw)" and "spool px e ids r aw = Inr aw'"
  shows "callbacks_ok (fst aw')"
  using assms by (auto simp: spool_def on_abort_def dispatch_def split_beta callbacks_ok_def pending_publishes_def
      split: if_splits spool_result.splits exn.splits)

lemma reachable_callbacks_ok: "app_reachable px ids mf pf pr c aw \<Longrightarrow> callbacks_ok (fst aw)"
proof (induction rule: app_reachable.induct)
  case (app_init e r aw)
  have "callbacks_ok (fst (fresh_app mf pf pr, new_world c))"
    by (simp add: callbacks_ok_def fresh_app_def pending_publishes_def)
  then show ?case using callbacks_ok_spool app_init by (fastforce simp: new_app_def)
next
  case (app_next aw e ev aw')
  then show ?case using callbacks_ok_step by blast
qed

section \<open>Destruction\<close>

lemma run_loop_shrinks:
  "run_loop px e ids aw = Some aw' \<Longrightarrow>
   length (ap_loop (fst aw)) = Suc (length (ap_loop (fst aw'))) \<and> ap_phase (fst aw') = ap_phase (fst aw)"
  by (auto simp: run_loop_def run_task_callbacks split: list.splits)

lemma drain_reachable:
  assumes "app_reachable px ids mf pf pr c aw" and "length (ap_loop (fst aw)) \<le> n"
  shows "app_reachable px ids mf pf pr c (drain n px e ids aw) \<and>
    ap_loop (fst (drain n px e ids aw)) = [] \<and> ap_phase (fst (drain n px e ids aw)) = ap_phase (fst aw)"
  using assms
proof (induction n arbitrary: aw)
  case (Suc n)
  show ?case
  proof (cases "run_loop px e ids aw")
    case None
    with Suc.prems show ?thesis by (auto simp: run_loop_def split: list.splits)
  next
    case (Some aw')
    have "app_reachable px ids mf pf pr c aw'"
      using app_next [OF Suc.prems(1), of e Run_loop aw'] Some by simp
    with Suc.IH [of aw'] run_loop_shrinks [OF Some] Suc.prems(2) Some show ?thesis by simp
  qed
qed simp

lemma app_dtor_reachable:
  assumes "app_reachable px ids mf pf pr c aw" and "ap_phase (fst aw) = Alive"
  shows "app_reachable px ids mf pf pr c (app_dtor px e ids aw)"
    "ap_phase (fst (app_dtor px e ids aw)) = Closed"
proof -
  let ?b = "begin_destroy px e aw"
  let ?d = "drain (length (ap_loop (fst ?b))) px e ids ?b"
  have b: "app_reachable px ids mf pf pr c ?b" "ap_phase (fst ?b) = Closing"
    using app_next [OF assms(1), of e Begin_destroy ?b] assms(2) by (simp_all add: begin_destroy_def split_beta)
  have d: "app_reachable px ids mf pf pr c ?d" "ap_loop (fst ?d) = []" "ap_phase (fst ?d) = Closing"
    using drain_reachable [OF b(1) order_refl] b(2) by simp_all
  show "app_reachable px ids mf pf pr c (app_dtor px e ids aw)"
    using app_next [OF d(1), of e End_destroy] d(2,3) by (simp add: app_dtor_def Let_def)
  show "ap_phase (fst (app_dtor px e ids aw)) = Closed"
    by (simp add: app_dtor_def end_destroy_def Let_def split_beta)
qed

lemma app_ok_overseers:
  "app_ok px b (\<lambda>_. 0) d (a, w) \<Longrightarrow> k < length (wd_engines w) \<Longrightarrow> ap_state a = Running k \<or> retired (wd_engines w ! k)"
  by (auto simp: app_ok_def overseers_ok_def own_def split: if_splits)

section \<open>Properties\<close>

text \<open>
  C8: in every state an application can reach, by any interleaving of
  the isolate, the loop, the engines and the destructor, its service is published
  only while it is running, and every overseer but that of the running state has
  been destroyed: its engine is stopped and has no slave.
\<close>

theorem app_lifetime:
  assumes "app_reachable px ids mf pf pr c (a, w)"
    and "context_laws px" and "\<not> px_locate px (mf_name mf) c"
  shows "(px_locate px (mf_name mf) (wd_ctx w) \<longrightarrow> (\<exists>i. ap_state a = Running i \<and> ap_phase a \<noteq> Closed)) \<and>
    (\<forall>k < length (wd_engines w). ap_state a = Running k \<or> retired (wd_engines w ! k))"
proof -
  have ok: "app_ok px (fresh_app mf pf pr) (\<lambda>_. 0) c (a, w)" by (rule reachable_app_ok [OF assms])
  then have "px_locate px (mf_name mf) (wd_ctx w) \<longrightarrow> held (ap_state a) \<noteq> {}"
    by (simp add: app_ok_def published_def app_name_def fresh_app_def)
  moreover have "held s = {} \<or> (\<exists>i. s = Running i)" for s by (cases s) auto
  ultimately show ?thesis using ok app_ok_overseers [OF ok] by (auto simp: app_ok_def)
qed

text \<open>
  Every completion of the spooling that reaches the application
  is answered by exactly one call of the callback of the start request, or still
  has its publication queued; when the application is destroyed the queue is
  empty, so all are answered.
\<close>

theorem start_answered:
  assumes "app_reachable px ids mf pf pr c (a, w)"
  shows "length (ap_callbacks a) + pending_publishes a = ap_completions a \<and>
    (ap_phase a = Alive \<longrightarrow>
       length (ap_callbacks (fst (app_dtor px e ids (a, w)))) = ap_completions (fst (app_dtor px e ids (a, w))))"
proof -
  have "callbacks_ok a" using reachable_callbacks_ok [OF assms] by simp
  moreover have "length (ap_callbacks (fst (app_dtor px e ids (a, w)))) = ap_completions (fst (app_dtor px e ids (a, w)))"
    if "ap_phase a = Alive"
  proof -
    have "callbacks_ok (fst (app_dtor px e ids (a, w)))"
      using reachable_callbacks_ok [OF app_dtor_reachable(1) [OF assms]] that by simp
    moreover have "ap_loop (fst (app_dtor px e ids (a, w))) = []"
    proof -
      have "app_reachable px ids mf pf pr c (begin_destroy px e (a, w))"
        using app_next [OF assms, of e Begin_destroy] that by simp
      from drain_reachable [OF this order_refl] show ?thesis
        by (simp add: app_dtor_def end_destroy_def Let_def split_beta)
    qed
    ultimately show ?thesis by (simp add: callbacks_ok_def pending_publishes_def)
  qed
  ultimately show ?thesis by (simp add: callbacks_ok_def)
qed

text \<open>
  Destroying a live application, in whatever state it is and
  whatever is queued, leaves its service unpublished, every other service as it
  was, and every overseer the application ever made destroyed.
\<close>

theorem app_destruction:
  assumes "app_reachable px ids mf pf pr c (a, w)" and "ap_phase a = Alive"
    and "context_laws px" and "\<not> px_locate px (mf_name mf) c"
  shows "\<not> px_locate px (mf_name mf) (wd_ctx (snd (app_dtor px e ids (a, w)))) \<and>
    (\<forall>m. m \<noteq> mf_name mf \<longrightarrow>
       px_locate px m (wd_ctx (snd (app_dtor px e ids (a, w)))) = px_locate px m c) \<and>
    (\<forall>en \<in> set (wd_engines (snd (app_dtor px e ids (a, w)))). retired en)"
proof -
  let ?d = "app_dtor px e ids (a, w)"
  have closed: "app_reachable px ids mf pf pr c (fst ?d, snd ?d)" "ap_phase (fst ?d) = Closed"
    using app_dtor_reachable [OF assms(1)] assms(2) by simp_all
  have ok: "app_ok px (fresh_app mf pf pr) (\<lambda>_. 0) c (fst ?d, snd ?d)"
    by (rule reachable_app_ok [OF closed(1) assms(3,4)])
  then have idle: "held (ap_state (fst ?d)) = {}" using closed(2) by (simp add: app_ok_def)
  have "\<not> px_locate px (mf_name mf) (wd_ctx (snd ?d))"
    using ok idle by (auto simp: app_ok_def published_def app_name_def fresh_app_def)
  moreover have "retired (wd_engines (snd ?d) ! k)" if "k < length (wd_engines (snd ?d))" for k
    using app_ok_overseers [OF ok that] idle by auto
  moreover have "\<forall>m. m \<noteq> mf_name mf \<longrightarrow> px_locate px m (wd_ctx (snd ?d)) = px_locate px m c"
    using ok by (simp add: app_ok_def others_def app_name_def fresh_app_def)
  ultimately show ?thesis by (auto simp: in_set_conv_nth)
qed

section \<open>Publishing follows the workers\<close>

text \<open>A name that is free can be published.\<close>

definition insert_total :: "'c platform \<Rightarrow> bool" where
  "insert_total px \<longleftrightarrow> (\<forall>n c. \<not> px_locate px n c \<longrightarrow> is_ok (px_insert px n c))"

definition is_spawned :: "engine_effect \<Rightarrow> bool" where
  "is_spawned x = (case x of Observed_spawned \<Rightarrow> True | _ \<Rightarrow> False)"

definition is_despawned :: "engine_effect \<Rightarrow> bool" where
  "is_despawned x = (case x of Observed_despawned k \<Rightarrow> True | _ \<Rightarrow> False)"

definition next_published :: "32 word \<Rightarrow> 32 word \<Rightarrow> 32 word \<Rightarrow> engine_effect list \<Rightarrow> bool \<Rightarrow> bool" where
  "next_published on off n xs p \<longleftrightarrow>
     (if list_ex is_spawned xs \<and> on \<le> n then True
      else if list_ex is_despawned xs \<and> n < off then False else p)"

lemma on_spawned_published:
  assumes "context_laws px" and "insert_total px" and "publish_on (ap_profile a) = Inr on"
  shows "published px a (on_spawned px a i w) \<longleftrightarrow> on \<le> workers i w \<or> published px a w"
proof (cases "px_locate px (app_name a) (wd_ctx w)")
  case True
  then show ?thesis using assms(3) context_lawsD(1) [OF assms(1)]
    by (auto simp: on_spawned_def maybe_publish_def publish_service_def published_def bindE_Inr_conv
        split: sum.splits if_splits)
next
  case False
  with assms(2) obtain c where c: "px_insert px (app_name a) (wd_ctx w) = Inr c"
    by (auto simp: insert_total_def is_ok_conv)
  with False assms(3) context_lawsD(2) [OF assms(1) c] show ?thesis
    by (auto simp: on_spawned_def maybe_publish_def publish_service_def published_def)
qed

lemma on_despawned_published:
  assumes "context_laws px" and "unpublish_under (ap_profile a) = Inr off"
  shows "published px a (on_despawned px a i w) \<longleftrightarrow> \<not> workers i w < off \<and> published px a w"
  using assms(2) unpublish_locate [OF assms(1), of "app_name a" "app_name a" w]
  by (simp add: on_despawned_def maybe_unpublish_def published_def)

lemma notify_published:
  assumes "context_laws px" and "insert_total px" and "ap_state a = Running i"
    and "publish_on (ap_profile a) = Inr on" and "unpublish_under (ap_profile a) = Inr off" and "off \<le> on"
  shows "published px a (snd (notify px i x (a, w))) = next_published on off (workers i w) [x] (published px a w)"
  using on_spawned_published [OF assms(1,2,4), of i w] on_despawned_published [OF assms(1,5), of i w] assms(3)
  by (cases x) (auto simp: notify_def next_published_def is_spawned_def is_despawned_def)

lemma notifications_published:
  assumes "context_laws px" and "insert_total px" and "ap_state a = Running i"
    and "publish_on (ap_profile a) = Inr on" and "unpublish_under (ap_profile a) = Inr off" and "off \<le> on"
  shows "published px a (snd (fold (notify px i) xs (a, w))) =
    next_published on off (workers i w) xs (published px a w)"
proof (induction xs arbitrary: w)
  case (Cons x xs)
  let ?w = "snd (notify px i x (a, w))"
  have pair: "notify px i x (a, w) = (a, ?w)" by (metis fst_conv notify_frame(1) prod.collapse)
  have "workers i ?w = workers i w" by (simp add: workers_def)
  then have "published px a (snd (fold (notify px i) (x # xs) (a, w))) =
      next_published on off (workers i w) xs (next_published on off (workers i w) [x] (published px a w))"
    using Cons.IH [of ?w] pair notify_published [OF assms, of x w] by simp
  also have "\<dots> = next_published on off (workers i w) (x # xs) (published px a w)"
    using assms(6) by (auto simp: next_published_def)
  finally show ?case .
qed (simp add: next_published_def)

text \<open>
  C20: whatever a running engine does, the service of the
  application is published afterwards exactly as the thresholds say: it becomes
  published when a worker came and at least \<open>publish-on\<close> workers are active, it is
  withdrawn when a worker went and fewer than \<open>unpublish-under\<close> are, and otherwise
  it stays as it was.
\<close>

theorem publishing_hysteresis:
  assumes "context_laws px" and "insert_total px" and "ap_state a = Running i"
    and "publish_on (ap_profile a) = Inr on" and "unpublish_under (ap_profile a) = Inr off" and "off \<le> on"
    and "engine_acts px e i ev (a, w) = Some (a', w')"
  shows "a' = a \<and> published px a w' =
    next_published on off (workers i w')
      (drop (length (en_log (wd_engines w ! i))) (en_log (wd_engines w' ! i))) (published px a w)"
proof -
  obtain en where en: "i < length (wd_engines w)"
    "fold (notify px i) (drop (length (en_log (wd_engines w ! i))) (en_log en))
       (a, w\<lparr>wd_engines := (wd_engines w)[i := en]\<rparr>) = (a', w')"
    using assms(7) by (auto simp: engine_acts_def split: if_splits option.splits)
  let ?v = "w\<lparr>wd_engines := (wd_engines w)[i := en]\<rparr>"
  let ?xs = "drop (length (en_log (wd_engines w ! i))) (en_log en)"
  have "wd_engines (snd (fold (notify px i) ys p)) = wd_engines (snd p)" for ys p
    by (induction ys arbitrary: p) auto
  from this [of ?xs "(a, ?v)"] have "wd_engines w' = wd_engines ?v" by (simp add: en(2))
  moreover have "a' = a" using notifications_fst [of px i ?xs "(a, ?v)"] by (simp add: en(2))
  moreover have "published px a w' = next_published on off (workers i ?v) ?xs (published px a ?v)"
    using notifications_published [OF assms(1-6), of ?xs ?v] by (simp add: en(2))
  ultimately show ?thesis using en(1) by (simp add: workers_def published_def)
qed

text \<open>
  An application whose name is taken by another service of the
  context, and that publishes at once, removes that service: publication is
  refused, and the clean-up after the refusal removes the name.
\<close>

theorem publish_evicts:
  assumes "context_laws px" and "publish_on (ap_profile a) = Inr 0"
    and "px_locate px (app_name a) (wd_ctx w)" and "held (ap_state a) = {}"
    and "px_listen px (mf_endpoint (ap_manifest a)) (wd_ctx w) = Inr (wd_ctx w)"
  shows "\<not> px_locate px (app_name a) (wd_ctx (snd (publish px e ids (a, w)))) \<and>
    (ap_state (fst (publish px e ids (a, w))) = ap_state a \<or> stopped (ap_state (fst (publish px e ids (a, w)))))"
proof -
  obtain i v where v: "make_overseer (ap_manifest a) (ap_engine_profile a) ids w = (i, v)" by fastforce
  then have ctx: "wd_ctx v = wd_ctx w" by (auto simp: make_overseer_def)
  have "\<not> is_ok (px_insert px (app_name a) (wd_ctx w))"
    using assms(3) context_lawsD(1) [OF assms(1)] by (auto simp: is_ok_conv)
  then obtain x where x: "px_insert px (app_name a) (wd_ctx w) = Inl x"
    by (cases "px_insert px (app_name a) (wd_ctx w)") auto
  let ?u = "v\<lparr>wd_ctx := wd_ctx w\<rparr>"
  let ?w = "release e i (unpublish px (app_name a) ?u)"
  have run: "running_ctor px e ids a w = (Inl x, ?w)"
    using v x assms(2,5) ctx
    by (simp add: running_ctor_def maybe_publish_def publish_service_def)
  have gone: "\<not> px_locate px (app_name a) (wd_ctx ?w)"
    using unpublish_locate [OF assms(1), of "app_name a" "app_name a" ?u] by simp
  have idle: "snd (destroy_state px e (b, u)) = u" if "ap_state b = ap_state a" for b :: "'b app" and u
    using that assms(4) by (cases "ap_state a") (auto simp: destroy_state_def)
  show ?thesis
    using run gone idle
    by (auto simp: publish_def Let_def split_beta call_back_def cancel_def reset_state_def split: exn.splits)
qed

section \<open>A concrete application\<close>

definition list_platform :: "string list platform" where
  "list_platform =
     \<lparr>px_insert = (\<lambda>n c. if n \<in> set c then Inl (Std_exception ''service exists'') else Inr (n # c)),
      px_remove = (\<lambda>n c. if n \<in> set c then Inr (filter (\<lambda>m. m \<noteq> n) c) else Inl (Std_exception ''no service'')),
      px_locate = (\<lambda>n c. n \<in> set c), px_listen = (\<lambda>p c. Inr c), px_terminate = (\<lambda>p c. c)\<rparr>"

lemma list_platform_laws: "context_laws list_platform"
  by (auto simp: context_laws_def list_platform_def split: if_splits)

lemma list_platform_total: "insert_total list_platform"
  by (auto simp: insert_total_def list_platform_def)

definition app_document :: "(string, int dynamic) umap" where
  "app_document = [(''publish-on'', D_uint 1), (''unpublish-under'', D_uint 1)]"

definition app_profile :: "int profile_config" where
  "app_profile = the_ok (parse_profile int_conv ''default'' (D_object app_document))"

fun app_run ::
  "(env \<times> app_event) list \<Rightarrow> int app \<times> string list world \<Rightarrow> (int app \<times> string list world) option" where
  "app_run [] aw = Some aw"
| "app_run ((e, ev) # evs) aw =
     (case app_step list_platform e sample_ids ev aw of None \<Rightarrow> None | Some aw' \<Rightarrow> app_run evs aw')"

definition new_sample_app :: "int app \<times> string list world" where
  "new_sample_app =
     the_ok (new_app list_platform slave_env sample_ids (Inr sample_manifest) (Inr (app_profile, sample_profile))
       (Inr ()) Spool_started (new_world [''storage'']))"

text \<open>The application is spooled and published; one request makes it spawn a slave, which comes up.\<close>

definition sample_app_history :: "(env \<times> app_event) list" where
  "sample_app_history = map (Pair slave_env) (Isolate_ready True # map (Engine_acts 0)
     (Enqueue sample_event # map (Slave_event (sample_ids 0)) [Run, Token sample_token no_error, Run, Ready] @
      [Handshake (sample_ids 0)]))"

definition sample_app :: "int app \<times> string list world" where
  "sample_app = the (app_run sample_app_history new_sample_app)"

text \<open>
  Then the slave dies: its clean-up is posted to the loop.  Before the loop runs
  it, the application is destroyed by a request on another thread.
\<close>

definition sample_app_race :: "(env \<times> app_event) list" where
  "sample_app_race = map (Pair slave_env)
     [Engine_acts 0 (Slave_event (sample_ids 0) (Isolate_terminated (System_category, 9))),
      Begin_destroy, Engine_acts 0 (Gone_event 0 Run)]"

text \<open>Spooling completes and its publication is queued; the application is destroyed before the loop gets to it.\<close>

definition late_publication :: "(env \<times> app_event) list" where
  "late_publication = map (Pair slave_env) [Isolate_ready False, Begin_destroy, Run_loop]"

lemma app_run_reachable:
  "app_reachable list_platform sample_ids mf pf pr c aw \<Longrightarrow> app_run evs aw = Some aw' \<Longrightarrow>
   app_reachable list_platform sample_ids mf pf pr c aw'"
  by (induction evs aw rule: app_run.induct) (auto split: option.splits intro: app_next)

lemma new_sample_app_reachable:
  "app_reachable list_platform sample_ids sample_manifest app_profile sample_profile [''storage''] new_sample_app"
proof (rule app_init)
  show "new_app list_platform slave_env sample_ids (Inr sample_manifest) (Inr (app_profile, sample_profile))
       (Inr ()) Spool_started (new_world [''storage'']) = Inr new_sample_app"
    unfolding new_sample_app_def by (rule the_ok_eq) (simp add: new_app_def spool_def fresh_app_def)
qed

lemma sample_app_run: "app_run sample_app_history new_sample_app = Some sample_app"
proof -
  have "\<not> Option.is_none (app_run sample_app_history new_sample_app)" by code_simp
  then show ?thesis by (auto simp: sample_app_def Option.is_none_def)
qed

lemma sample_app_reachable:
  "app_reachable list_platform sample_ids sample_manifest app_profile sample_profile [''storage'']
     (fst sample_app, snd sample_app)"
  using app_run_reachable [OF new_sample_app_reachable sample_app_run] by simp

lemma sample_app_name_free: "\<not> px_locate list_platform (mf_name sample_manifest) [''storage'']"
  by (simp add: list_platform_def sample_manifest_def)

lemmas sample_app_facts = list_platform_laws sample_app_name_free

lemma sample_app_values:
  "ap_state (fst sample_app) = Running 0" "ap_phase (fst sample_app) = Alive"
  "wd_ctx (snd sample_app) = [''app'', ''storage'']" "ap_callbacks (fst sample_app) = [None]"
  "length (wd_engines (snd sample_app)) = 1"
  by code_simp+

theorem app_lifetime_witness:
  "px_locate list_platform ''app'' (wd_ctx (snd sample_app)) \<and>
   (\<exists>i. ap_state (fst sample_app) = Running i \<and> ap_phase (fst sample_app) \<noteq> Closed)"
proof -
  have "px_locate list_platform ''app'' (wd_ctx (snd sample_app))"
    by (simp add: sample_app_values list_platform_def)
  with app_lifetime [OF sample_app_reachable sample_app_facts] show ?thesis
    by (simp add: sample_manifest_def)
qed

theorem start_answered_witness:
  "length (ap_callbacks (fst sample_app)) = 1 \<and>
   length (ap_callbacks (fst (app_dtor list_platform slave_env sample_ids sample_app))) =
     ap_completions (fst (app_dtor list_platform slave_env sample_ids sample_app))"
  using start_answered [OF sample_app_reachable, of slave_env] sample_app_values by simp

theorem app_destruction_witness:
  "\<not> px_locate list_platform ''app'' (wd_ctx (snd (app_dtor list_platform slave_env sample_ids sample_app)))"
  using app_destruction [OF sample_app_reachable sample_app_values(2) sample_app_facts, of slave_env]
  by (simp add: sample_manifest_def)

text \<open>The death of the only worker withdraws the service.\<close>

definition sample_death :: engine_event where
  "sample_death = Slave_event (sample_ids 0) Run"

definition dying_app :: "int app \<times> string list world" where
  "dying_app = the (app_run (take 1 sample_app_race) sample_app)"

theorem publishing_hysteresis_witness:
  "\<exists>a' w'. engine_acts list_platform slave_env 0 sample_death (fst dying_app, snd dying_app) = Some (a', w') \<and>
     published list_platform (fst dying_app) (snd dying_app) \<and> \<not> published list_platform (fst dying_app) w'"
proof -
  let ?a = "fst dying_app" and ?w = "snd dying_app"
  have "\<not> Option.is_none (engine_acts list_platform slave_env 0 sample_death (?a, ?w))" by code_simp
  then obtain a' w' where r: "engine_acts list_platform slave_env 0 sample_death (?a, ?w) = Some (a', w')"
    by (auto simp: Option.is_none_def)
  have thr: "ap_state ?a = Running 0" "publish_on (ap_profile ?a) = Inr 1" "unpublish_under (ap_profile ?a) = Inr 1"
    "published list_platform ?a ?w"
    by code_simp+
  have "case engine_acts list_platform slave_env 0 sample_death (?a, ?w) of None \<Rightarrow> False
     | Some (b, v) \<Rightarrow> \<not> next_published 1 1 (workers 0 v)
         (drop (length (en_log (wd_engines ?w ! 0))) (en_log (wd_engines v ! 0))) True"
    by code_simp
  with publishing_hysteresis [OF list_platform_laws list_platform_total thr(1-3) order_refl r] r thr(4)
  show ?thesis by auto
qed

definition eager_document :: "(string, int dynamic) umap" where
  "eager_document = []"

definition eager_app :: "int app" where
  "eager_app = fresh_app (sample_manifest\<lparr>mf_name := ''storage''\<rparr>)
     (the_ok (parse_profile int_conv ''default'' (D_object eager_document))) sample_profile"

theorem publish_evicts_witness:
  "px_locate list_platform ''storage'' [''storage''] \<and>
   \<not> px_locate list_platform ''storage''
      (wd_ctx (snd (publish list_platform slave_env sample_ids (eager_app, new_world [''storage'']))))"
proof -
  have "publish_on (ap_profile eager_app) = Inr 0" "app_name eager_app = ''storage''"
    "ap_state eager_app = Stopped no_error" by code_simp+
  then show ?thesis
    using publish_evicts [OF list_platform_laws, of eager_app "new_world [''storage'']"]
    by (simp add: list_platform_def new_world_def)
qed

text \<open>
  Two interleavings of the destructor. A slave that died just before
  the application is destroyed has its clean-up run afterwards, and the engine
  then notifies an observer that refers to the destroyed running state. And a
  publication that was queued when the application was cancelled still turns the
  cancelled application into a running one, and answers the start request with
  success.
\<close>

theorem app_races:
  "(\<exists>aw. app_reachable list_platform sample_ids sample_manifest app_profile sample_profile [''storage''] aw \<and>
      wd_dangling (snd aw)) \<and>
   (\<exists>aw. app_reachable list_platform sample_ids sample_manifest app_profile sample_profile [''storage''] aw \<and>
      ap_phase (fst aw) = Closing \<and> ap_state (fst aw) = Running 0 \<and> ap_callbacks (fst aw) = [None])"
proof (intro conjI)
  have "case app_run sample_app_race sample_app of None \<Rightarrow> False | Some aw \<Rightarrow> wd_dangling (snd aw)"
    by code_simp
  then show "\<exists>aw. app_reachable list_platform sample_ids sample_manifest app_profile sample_profile [''storage''] aw \<and>
      wd_dangling (snd aw)"
    using app_run_reachable [OF sample_app_reachable, of sample_app_race]
    by (auto split: option.splits) blast
  have "case app_run late_publication new_sample_app of None \<Rightarrow> False | Some aw \<Rightarrow>
      ap_phase (fst aw) = Closing \<and> ap_state (fst aw) = Running 0 \<and> ap_callbacks (fst aw) = [None]"
    by code_simp
  then show "\<exists>aw. app_reachable list_platform sample_ids sample_manifest app_profile sample_profile [''storage''] aw \<and>
      ap_phase (fst aw) = Closing \<and> ap_state (fst aw) = Running 0 \<and> ap_callbacks (fst aw) = [None]"
    using app_run_reachable [OF new_sample_app_reachable, of late_publication]
    by (auto split: option.splits)
qed

end
