(* ===== verification/Node_Service.thy ===== *)
theory Node_Service
  imports Node_App "HOL-Library.List_Lexorder" "HOL-Library.Char_ord"
begin

text \<open>
  The node service (\<^verbatim>\<open>src/node/src/node.cpp\<close>): the ordered map of applications,
  starting and pausing them, the runlist, lookup of overseers, enqueueing of
  requests, and the control streams, which share an overseer with its
  application and can outlive it.

  What the outside delivers to a start (the documents, the isolate and the
  outcome of its spooling) is the record \<open>launch\<close>.  The authorization middleware
  and the logs around the handlers are not modelled.
\<close>

section \<open>Ordered maps\<close>

text \<open>\<^verbatim>\<open>std::map::insert\<close>: in key order, and without effect on a key that is present.\<close>

fun om_insert :: "'k::linorder \<Rightarrow> 'v \<Rightarrow> ('k, 'v) umap \<Rightarrow> ('k, 'v) umap" where
  "om_insert k v [] = [(k, v)]"
| "om_insert k v ((k', v') # m) =
     (if k < k' then (k, v) # (k', v') # m
      else if k = k' then (k', v') # m else (k', v') # om_insert k v m)"

text \<open>The element after a key: what the iterator returned by \<^verbatim>\<open>erase\<close> refers to.\<close>

fun om_after :: "'k \<Rightarrow> ('k, 'v) umap \<Rightarrow> ('k \<times> 'v) option" where
  "om_after k [] = None"
| "om_after k ((k', v') # m) =
     (if k = k' then (case m of [] \<Rightarrow> None | x # _ \<Rightarrow> Some x) else om_after k m)"

section \<open>State\<close>

record ('c, 'd) node =
  nd_apps :: "(string, 'd app) umap"
  nd_controls :: "nat option list"
  nd_signal :: bool
  nd_world :: "'c world"

record 'd launch =
  la_manifest :: "(config_error, manifest) result"
  la_profile :: "(config_error, 'd profile_config \<times> profile) result"
  la_isolate :: "(exn, unit) result"
  la_spool :: spool_result

datatype 'a outcome =
    Returned 'a
  | Threw exn
  | Undefined

section \<open>Applications\<close>

definition start_app ::
  "'c platform \<Rightarrow> env \<Rightarrow> (nat \<Rightarrow> string) \<Rightarrow> 'd launch \<Rightarrow> string \<Rightarrow> ('c, 'd) node \<Rightarrow> (exn, ('c, 'd) node) result" where
  "start_app px e ids la name nd =
     (case um_find name (nd_apps nd) of
        Some a \<Rightarrow>
          Inl (System_error (node_error_code Already_started)
            (''app '' @ [CHR 0x27] @ name @ [CHR 0x27] @ '' is '' @ state_name (ap_state a)))
      | None \<Rightarrow>
          bindE (new_app px e ids (la_manifest la) (la_profile la) (la_isolate la) (la_spool la) (nd_world nd))
            (\<lambda>(a, w). Inr (nd\<lparr>nd_apps := om_insert name a (nd_apps nd), nd_world := w\<rparr>)))"

text \<open>
  Pausing: \<^verbatim>\<open>apps.erase(it)->second\<close> destroys the application and reads the
  pointer of the next one, which is then released without effect; when the
  erased application was the last one, the past-the-end iterator is dereferenced.
\<close>

definition pause_app ::
  "'c platform \<Rightarrow> env \<Rightarrow> (nat \<Rightarrow> string) \<Rightarrow> string \<Rightarrow> ('c, 'd) node \<Rightarrow> ('c, 'd) node outcome" where
  "pause_app px e ids name nd =
     (case um_find name (nd_apps nd) of
        None \<Rightarrow>
          Threw (System_error (node_error_code Not_running)
            (''app '' @ [CHR 0x27] @ name @ [CHR 0x27] @ '' is not running''))
      | Some a \<Rightarrow>
          (case om_after name (nd_apps nd) of
             None \<Rightarrow> Undefined
           | Some _ \<Rightarrow>
               Returned (nd\<lparr>nd_apps := um_erase name (nd_apps nd),
                            nd_world := snd (app_dtor px e ids (a, nd_world nd))\<rparr>)))"

definition list_apps :: "('c, 'd) node \<Rightarrow> string list" where
  "list_apps nd = um_keys (nd_apps nd)"

definition not_running_text :: "string \<Rightarrow> string" where
  "not_running_text name = ''app '' @ [CHR 0x27] @ name @ [CHR 0x27] @ '' is not running''"

definition info_state :: "string \<Rightarrow> ('c, 'd) node \<Rightarrow> (exn, string) result" where
  "info_state name nd =
     (case um_find name (nd_apps nd) of
        None \<Rightarrow> Inl (Std_exception (not_running_text name))
      | Some a \<Rightarrow> Inr (state_name (ap_state a)))"

definition overseer :: "string \<Rightarrow> ('c, 'd) node \<Rightarrow> (exn, nat) result" where
  "overseer name nd =
     (case um_find name (nd_apps nd) of
        None \<Rightarrow> Inl (Std_exception (not_running_text name))
      | Some a \<Rightarrow> app_overseer a)"

section \<open>The runlist\<close>

text \<open>Exceptions of a start are logged and the application is listed as failed.\<close>

fun run_all ::
  "'c platform \<Rightarrow> env \<Rightarrow> (nat \<Rightarrow> string) \<Rightarrow> (string \<Rightarrow> string \<Rightarrow> 'd launch) \<Rightarrow> (string \<times> string) list \<Rightarrow>
   ('c, 'd) node \<Rightarrow> string list \<times> ('c, 'd) node" where
  "run_all px e ids launches [] nd = ([], nd)"
| "run_all px e ids launches ((app, prof) # runlist) nd =
     (case start_app px e ids (launches app prof) app nd of
        Inl _ \<Rightarrow> let (errored, nd) = run_all px e ids launches runlist nd in (app # errored, nd)
      | Inr nd \<Rightarrow> run_all px e ids launches runlist nd)"

definition new_node ::
  "'c platform \<Rightarrow> env \<Rightarrow> (nat \<Rightarrow> string) \<Rightarrow> (string \<Rightarrow> string \<Rightarrow> 'd launch) \<Rightarrow> (error_code, (string \<times> string) list) result \<Rightarrow>
   string \<Rightarrow> 'c world \<Rightarrow> string list \<times> ('c, 'd) node" where
  "new_node px e ids launches stored runname w =
     (let nd = \<lparr>nd_apps = [], nd_controls = [], nd_signal = True, nd_world = w\<rparr>
      in if runname = [] then ([], nd)
         else run_all px e ids launches (case stored of Inl _ \<Rightarrow> [] | Inr runlist \<Rightarrow> runlist) nd)"

fun clear_apps ::
  "'c platform \<Rightarrow> env \<Rightarrow> (nat \<Rightarrow> string) \<Rightarrow> (string, 'd app) umap \<Rightarrow> 'c world \<Rightarrow> 'c world" where
  "clear_apps px e ids [] w = w"
| "clear_apps px e ids ((k, a) # m) w = clear_apps px e ids m (snd (app_dtor px e ids (a, w)))"

definition on_context_shutdown ::
  "'c platform \<Rightarrow> env \<Rightarrow> (nat \<Rightarrow> string) \<Rightarrow> ('c, 'd) node \<Rightarrow> ('c, 'd) node" where
  "on_context_shutdown px e ids nd =
     nd\<lparr>nd_apps := [], nd_world := clear_apps px e ids (nd_apps nd) (nd_world nd), nd_signal := False\<rparr>"

section \<open>Requests\<close>

datatype enqueue_reply =
    Accepted_by nat
  | Error_sent error_code
  | Exception_thrown exn
  | Fault

definition put_engine :: "nat \<Rightarrow> engine \<Rightarrow> ('c, 'd) node \<Rightarrow> ('c, 'd) node" where
  "put_engine i en nd =
     nd\<lparr>nd_world := (nd_world nd)\<lparr>wd_engines := (wd_engines (nd_world nd))[i := en]\<rparr>\<rparr>"

text \<open>The lookup is outside the \<^verbatim>\<open>try\<close>: an application that is not running throws.\<close>

definition node_enqueue :: "env \<Rightarrow> string \<Rightarrow> event \<Rightarrow> ('c, 'd) node \<Rightarrow> enqueue_reply \<times> ('c, 'd) node" where
  "node_enqueue e name ev nd =
     (case um_find name (nd_apps nd) of
        None \<Rightarrow> (Error_sent (node_error_code Not_running), nd)
      | Some a \<Rightarrow>
          (case app_overseer a of
             Inl x \<Rightarrow> (Exception_thrown x, nd)
           | Inr i \<Rightarrow>
               (case enqueue e ev (wd_engines (nd_world nd) ! i) of
                  (Inr _, en) \<Rightarrow> (Accepted_by i, put_engine i en nd)
                | (Inl (Code ec), en) \<Rightarrow> (Error_sent ec, put_engine i en nd)
                | (Inl Division_by_zero, en) \<Rightarrow> (Fault, put_engine i en nd))))"

section \<open>Control streams\<close>

datatype control_event =
    Control_chunk int
  | Control_error
  | Control_choke
  | Control_lost

definition open_control :: "string \<Rightarrow> ('c, 'd) node \<Rightarrow> (exn, ('c, 'd) node) result" where
  "open_control name nd =
     bindE (overseer name nd)
       (\<lambda>i. Inr (nd\<lparr>nd_controls := nd_controls nd @ [Some i], nd_world := acquire i (nd_world nd)\<rparr>))"

definition controlled :: "nat \<Rightarrow> ('c, 'd) node \<Rightarrow> nat option" where
  "controlled k nd = (if k < length (nd_controls nd) then nd_controls nd ! k else None)"

fun control_count :: "control_event \<Rightarrow> int" where
  "control_count (Control_chunk n) = n"
| "control_count _ = 0"

definition on_control :: "env \<Rightarrow> nat \<Rightarrow> control_event \<Rightarrow> ('c, 'd) node \<Rightarrow> ('c, 'd) node option" where
  "on_control e k ce nd =
     (case controlled k nd of
        None \<Rightarrow> None
      | Some i \<Rightarrow>
          (case control_population e (control_count ce) (wd_engines (nd_world nd) ! i) of
             Inl _ \<Rightarrow> None
           | Inr en \<Rightarrow> Some (put_engine i en nd)))"

definition close_control :: "env \<Rightarrow> nat \<Rightarrow> ('c, 'd) node \<Rightarrow> ('c, 'd) node option" where
  "close_control e k nd =
     (case controlled k nd of
        None \<Rightarrow> None
      | Some i \<Rightarrow> Some (nd\<lparr>nd_controls := (nd_controls nd)[k := None], nd_world := release e i (nd_world nd)\<rparr>))"

section \<open>The published dispatch of an application\<close>

text \<open>
  The dispatch of the published service refers weakly to the proxy that the
  running state owns, so it reaches the overseer exactly while an application
  runs it.
\<close>

definition broken_pipe :: error_code where
  "broken_pipe = (System_category, 32)"

definition proxy_alive :: "nat \<Rightarrow> ('c, 'd) node \<Rightarrow> bool" where
  "proxy_alive i nd = list_ex (\<lambda>(k, a). ap_state a = Running i) (nd_apps nd)"

definition app_on_enqueue :: "env \<Rightarrow> nat \<Rightarrow> event \<Rightarrow> ('c, 'd) node \<Rightarrow> enqueue_reply \<times> ('c, 'd) node" where
  "app_on_enqueue e i ev nd =
     (if proxy_alive i nd
      then case enqueue e ev (wd_engines (nd_world nd) ! i) of
             (Inr _, en) \<Rightarrow> (Accepted_by i, put_engine i en nd)
           | (Inl (Code ec), en) \<Rightarrow> (Error_sent ec, put_engine i en nd)
           | (Inl Division_by_zero, en) \<Rightarrow> (Fault, put_engine i en nd)
      else (Error_sent broken_pipe, nd))"

definition app_on_control :: "env \<Rightarrow> nat \<Rightarrow> control_event \<Rightarrow> ('c, 'd) node \<Rightarrow> ('c, 'd) node option" where
  "app_on_control e i ce nd =
     (if proxy_alive i nd
      then case control_population e (control_count ce) (wd_engines (nd_world nd) ! i) of
             Inl _ \<Rightarrow> None
           | Inr en \<Rightarrow> Some (put_engine i en nd)
      else Some nd)"

section \<open>Steps\<close>

text \<open>
  The observer of an engine without a running application refers to a destroyed
  state: a notification is then recorded as dangling.
\<close>

definition is_observation :: "engine_effect \<Rightarrow> bool" where
  "is_observation x \<longleftrightarrow> is_spawned x \<or> is_despawned x"

definition runs :: "nat \<Rightarrow> 'd app \<Rightarrow> bool" where
  "runs i a \<longleftrightarrow> ap_state a = Running i"

definition node_engine_acts ::
  "'c platform \<Rightarrow> env \<Rightarrow> nat \<Rightarrow> engine_event \<Rightarrow> ('c, 'd) node \<Rightarrow> ('c, 'd) node option" where
  "node_engine_acts px e i ev nd =
     (let w = nd_world nd
      in case find (\<lambda>(k, a). runs i a) (nd_apps nd) of
           Some (k, a) \<Rightarrow> map_option (\<lambda>(a', w'). nd\<lparr>nd_world := w'\<rparr>) (engine_acts px e i ev (a, w))
         | None \<Rightarrow>
             if i < length (wd_engines w) \<and> ev \<noteq> Stop
             then map_option (\<lambda>en. nd\<lparr>nd_world := w\<lparr>wd_engines := (wd_engines w)[i := en],
                    wd_dangling := (wd_dangling w \<or>
                      list_ex is_observation (drop (length (en_log (wd_engines w ! i))) (en_log en)))\<rparr>\<rparr>)
                    (engine_step e ev (wd_engines w ! i))
             else None)"

definition put_app :: "string \<Rightarrow> 'd app \<Rightarrow> (string, 'd app) umap \<Rightarrow> (string, 'd app) umap" where
  "put_app k a m = map (\<lambda>(k', x). (k', if k' = k then a else x)) m"

fun node_app_event :: "app_event \<Rightarrow> bool" where
  "node_app_event (Isolate_abort in_loop ec reason) = True"
| "node_app_event (Isolate_ready in_loop) = True"
| "node_app_event Run_loop = True"
| "node_app_event _ = False"

definition node_app_acts ::
  "'c platform \<Rightarrow> env \<Rightarrow> (nat \<Rightarrow> string) \<Rightarrow> string \<Rightarrow> app_event \<Rightarrow> ('c, 'd) node \<Rightarrow> ('c, 'd) node option" where
  "node_app_acts px e ids name ev nd =
     (case um_find name (nd_apps nd) of
        None \<Rightarrow> None
      | Some a \<Rightarrow>
          if node_app_event ev
          then map_option (\<lambda>(a', w'). nd\<lparr>nd_apps := put_app name a' (nd_apps nd), nd_world := w'\<rparr>)
                 (app_step px e ids ev (a, nd_world nd))
          else None)"

datatype 'd node_event =
    Start string "'d launch"
  | Pause string
  | Request string event
  | Open_control string
  | Control nat control_event
  | Close_control nat
  | App_event string app_event
  | Engine_event nat engine_event
  | App_request nat event
  | App_control nat control_event
  | Shutdown

text \<open>An exception of an operation leaves the node as it is; undefined behaviour and faults have no next state.\<close>

fun node_step ::
  "'c platform \<Rightarrow> env \<Rightarrow> (nat \<Rightarrow> string) \<Rightarrow> 'd node_event \<Rightarrow> ('c, 'd) node \<Rightarrow> ('c, 'd) node option" where
  "node_step px e ids (Start name la) nd =
     (case start_app px e ids la name nd of Inl _ \<Rightarrow> Some nd | Inr nd' \<Rightarrow> Some nd')"
| "node_step px e ids (Pause name) nd =
     (case pause_app px e ids name nd of Returned nd' \<Rightarrow> Some nd' | Threw _ \<Rightarrow> Some nd | Undefined \<Rightarrow> None)"
| "node_step px e ids (Request name ev) nd =
     (case node_enqueue e name ev nd of (Fault, _) \<Rightarrow> None | (_, nd') \<Rightarrow> Some nd')"
| "node_step px e ids (Open_control name) nd =
     (case open_control name nd of Inl _ \<Rightarrow> Some nd | Inr nd' \<Rightarrow> Some nd')"
| "node_step px e ids (Control k ce) nd = on_control e k ce nd"
| "node_step px e ids (Close_control k) nd = close_control e k nd"
| "node_step px e ids (App_event name ev) nd = node_app_acts px e ids name ev nd"
| "node_step px e ids (Engine_event i ev) nd = node_engine_acts px e i ev nd"
| "node_step px e ids (App_request i ev) nd =
     (case app_on_enqueue e i ev nd of (Fault, _) \<Rightarrow> None | (_, nd') \<Rightarrow> Some nd')"
| "node_step px e ids (App_control i ce) nd = app_on_control e i ce nd"
| "node_step px e ids Shutdown nd = Some (on_context_shutdown px e ids nd)"

text \<open>
  Applications are started under names that are reserved for them; a manifest
  has the name it was loaded by.
\<close>

fun admissible :: "string set \<Rightarrow> 'd node_event \<Rightarrow> bool" where
  "admissible S (Start name la) \<longleftrightarrow> name \<in> S \<and> (\<forall>mf. la_manifest la = Inr mf \<longrightarrow> mf_name mf = name)"
| "admissible S _ \<longleftrightarrow> True"

definition empty_node :: "'c \<Rightarrow> ('c, 'd) node" where
  "empty_node c = \<lparr>nd_apps = [], nd_controls = [], nd_signal = True, nd_world = new_world c\<rparr>"

inductive node_reachable ::
  "'c platform \<Rightarrow> (nat \<Rightarrow> string) \<Rightarrow> string set \<Rightarrow> 'c \<Rightarrow> ('c, 'd) node \<Rightarrow> bool"
  for px ids S c where
  node_init: "node_reachable px ids S c (empty_node c)"
| node_next: "node_reachable px ids S c nd \<Longrightarrow> admissible S ev \<Longrightarrow> node_step px e ids ev nd = Some nd' \<Longrightarrow>
     node_reachable px ids S c nd'"

section \<open>Ordered maps: lemmas\<close>

lemma set_om_insert: "k \<notin> set (um_keys m) \<Longrightarrow> set (om_insert k v m) = insert (k, v) (set m)"
  by (induction k v m rule: om_insert.induct) (auto simp: um_keys_def)

lemma keys_om_insert: "set (um_keys (om_insert k v m)) = insert k (set (um_keys m))"
  by (induction k v m rule: om_insert.induct) (auto simp: um_keys_def)

lemma sorted_om_insert: "sorted_wrt (<) (um_keys m) \<Longrightarrow> sorted_wrt (<) (um_keys (om_insert k v m))"
proof (induction k v m rule: om_insert.induct)
  case (2 k v k' v' m)
  then show ?case using keys_om_insert [of k v m] by (auto simp: um_keys_def)
qed (simp add: um_keys_def)

lemma find_om_insert:
  assumes "sorted_wrt (<) (um_keys m)" and "k \<notin> set (um_keys m)"
  shows "um_find k' (om_insert k v m) = (if k' = k then Some v else um_find k' m)"
  using assms by (induction k v m rule: om_insert.induct) (auto simp: um_keys_def)

lemma sorted_distinct_keys: "sorted_wrt (<) (um_keys (m :: ('k::linorder, 'v) umap)) \<Longrightarrow> distinct (um_keys m)"
  by (simp add: strict_sorted_iff)

lemma sorted_um_erase: "sorted_wrt (<) (um_keys m) \<Longrightarrow> sorted_wrt (<) (um_keys (um_erase k m))"
  by (simp add: um_keys_erase sorted_wrt_filter)

lemma om_after_last:
  "sorted_wrt (<) (um_keys m) \<Longrightarrow> k \<in> set (um_keys m) \<Longrightarrow>
   om_after k m = None \<longleftrightarrow> (\<forall>k' \<in> set (um_keys m). k' \<le> (k :: 'k::linorder))"
proof (induction k m rule: om_after.induct)
  case (2 k k' v' m)
  then show ?case by (cases m) (auto simp: um_keys_def not_le intro: less_imp_le)
qed (simp add: um_keys_def)

section \<open>The invariant of the node\<close>

definition count_own :: "(string, 'd app) umap \<Rightarrow> nat \<Rightarrow> nat" where
  "count_own m i = sum_list (map (\<lambda>(k, a). own (ap_state a) i) m)"

lemma count_own_simps [simp]:
  "count_own [] i = 0" "count_own ((k, a) # m) i = own (ap_state a) i + count_own m i"
  "count_own (m @ m') i = count_own m i + count_own m' i"
  by (simp_all add: count_own_def)

definition references :: "('c, 'd) node \<Rightarrow> nat \<Rightarrow> nat" where
  "references nd i = count_own (nd_apps nd) i + count_list (nd_controls nd) (Some i)"

text \<open>
  The applications are ordered by name and alive; references to overseers are
  exactly those of running applications and open control streams; a reserved name
  is published only by its running application.
\<close>

definition node_ok :: "'c platform \<Rightarrow> string set \<Rightarrow> ('c, 'd) node \<Rightarrow> bool" where
  "node_ok px S nd \<longleftrightarrow>
     sorted_wrt (<) (um_keys (nd_apps nd)) \<and>
     (\<forall>(k, a) \<in> set (nd_apps nd). app_name a = k \<and> k \<in> S \<and> ap_phase a = Alive) \<and>
     overseers_ok (references nd) (nd_world nd) \<and>
     (\<forall>k \<in> S. px_locate px k (wd_ctx (nd_world nd)) \<longrightarrow>
        (\<exists>a. um_find k (nd_apps nd) = Some a \<and> held (ap_state a) \<noteq> {}))"

lemma find_split:
  assumes "um_find k m = Some a" and "distinct (um_keys m)"
  obtains xs ys where "m = xs @ (k, a) # ys" "k \<notin> set (um_keys (xs @ ys))"
    "\<And>b. put_app k b m = xs @ (k, b) # ys" "um_erase k m = xs @ ys"
proof -
  obtain xs ys where m: "m = xs @ (k, a) # ys"
    using um_find_SomeD [OF assms(1)] by (meson split_list)
  then have k: "k \<notin> set (um_keys (xs @ ys))" using assms(2) by (auto simp: um_keys_def)
  then have id: "map (\<lambda>(k', x). (k', if k' = k then b else x)) zs = zs" if "set zs \<subseteq> set (xs @ ys)"
    for b and zs
    using that by (intro map_idI) (force simp: um_keys_def)
  have keep: "filter (\<lambda>(k', _). k \<noteq> k') zs = zs" if "set zs \<subseteq> set (xs @ ys)" for zs
    using that k by (auto simp: filter_id_conv um_keys_def) force+
  show thesis
  proof (rule that [OF m k])
    show "put_app k b m = xs @ (k, b) # ys" for b
      by (simp add: put_app_def m id)
    show "um_erase k m = xs @ ys"
      using keep [of xs] keep [of ys] by (simp add: um_erase_def AList.delete_eq m)
  qed
qed

lemma references_app:
  assumes "sorted_wrt (<) (um_keys (nd_apps nd))" and "um_find k (nd_apps nd) = Some a"
  shows "\<exists>g. references nd = (\<lambda>i. own (ap_state a) i + g i) \<and>
    (\<forall>b v. references (nd\<lparr>nd_apps := put_app k b (nd_apps nd), nd_world := v\<rparr>) = (\<lambda>i. own (ap_state b) i + g i)) \<and>
    (\<forall>v. references (nd\<lparr>nd_apps := um_erase k (nd_apps nd), nd_world := v\<rparr>) = g)"
proof -
  obtain xs ys where split: "nd_apps nd = xs @ (k, a) # ys"
    "\<And>b. put_app k b (nd_apps nd) = xs @ (k, b) # ys" "um_erase k (nd_apps nd) = xs @ ys"
    using find_split [OF assms(2) sorted_distinct_keys [OF assms(1)]] by metis
  let ?g = "\<lambda>i. count_own (xs @ ys) i + count_list (nd_controls nd) (Some i)"
  show ?thesis
    by (rule exI [of _ ?g]) (simp add: references_def [abs_def] split(2,3), simp add: split(1) add.commute add.left_commute)
qed

lemma keys_put_app [simp]: "um_keys (put_app k a m) = um_keys m"
  by (simp add: put_app_def um_keys_def case_prod_beta comp_def)

lemma find_put_app: "um_find k' (put_app k b m) = (if k' = k then map_option (\<lambda>_. b) (um_find k m) else um_find k' m)"
  unfolding put_app_def by (induction m) auto

lemma node_ok_split:
  assumes "node_ok px S nd" and "um_find k (nd_apps nd) = Some a"
  shows "\<exists>g. app_ok px a g (wd_ctx (nd_world nd)) (a, nd_world nd) \<and> ap_phase a = Alive \<and>
    (\<forall>b v. references (nd\<lparr>nd_apps := put_app k b (nd_apps nd), nd_world := v\<rparr>) = (\<lambda>i. own (ap_state b) i + g i)) \<and>
    (\<forall>v. references (nd\<lparr>nd_apps := um_erase k (nd_apps nd), nd_world := v\<rparr>) = g)"
proof -
  have a: "app_name a = k" "k \<in> S" "ap_phase a = Alive"
    using assms um_find_SomeD [OF assms(2)] by (auto simp: node_ok_def)
  have sorted: "sorted_wrt (<) (um_keys (nd_apps nd))" using assms(1) by (simp add: node_ok_def)
  obtain g where g: "references nd = (\<lambda>i. own (ap_state a) i + g i)"
    "\<forall>b v. references (nd\<lparr>nd_apps := put_app k b (nd_apps nd), nd_world := v\<rparr>) = (\<lambda>i. own (ap_state b) i + g i)"
    "\<forall>v. references (nd\<lparr>nd_apps := um_erase k (nd_apps nd), nd_world := v\<rparr>) = g"
    using references_app [OF sorted assms(2)] by blast
  have "app_ok px a g (wd_ctx (nd_world nd)) (a, nd_world nd)"
    using assms a g(1) by (auto simp: node_ok_def app_ok_def same_app_def others_def published_def)
  with a(3) g(2,3) show ?thesis by blast
qed

lemma node_ok_put:
  assumes "node_ok px S nd" and "um_find k (nd_apps nd) = Some a"
    and "app_ok px a g (wd_ctx (nd_world nd)) (b, v)" and "ap_phase b = Alive"
    and "references (nd\<lparr>nd_apps := put_app k b (nd_apps nd), nd_world := v\<rparr>) = (\<lambda>i. own (ap_state b) i + g i)"
  shows "node_ok px S (nd\<lparr>nd_apps := put_app k b (nd_apps nd), nd_world := v\<rparr>)"
proof -
  let ?nd = "nd\<lparr>nd_apps := put_app k b (nd_apps nd), nd_world := v\<rparr>"
  have a: "app_name a = k" "k \<in> S" using assms(1) um_find_SomeD [OF assms(2)] by (auto simp: node_ok_def)
  have b: "app_name b = k" using assms(3) a(1) same_app_name by (fastforce simp: app_ok_def)
  have apps: "\<forall>(k', x) \<in> set (nd_apps ?nd). app_name x = k' \<and> k' \<in> S \<and> ap_phase x = Alive"
    using assms(1,4) a b by (auto simp: node_ok_def put_app_def)
  have loc: "\<exists>x. um_find k' (nd_apps ?nd) = Some x \<and> held (ap_state x) \<noteq> {}"
    if "k' \<in> S" "px_locate px k' (wd_ctx v)" for k'
  proof (cases "k' = k")
    case True
    then show ?thesis using that assms(2,3) a(1) by (simp add: find_put_app app_ok_def published_def)
  next
    case False
    then have "px_locate px k' (wd_ctx (nd_world nd))"
      using that assms(3) a(1) by (simp add: app_ok_def others_def)
    then show ?thesis using False that assms(1) by (auto simp: node_ok_def find_put_app)
  qed
  have refs: "overseers_ok (references ?nd) v" using assms(3,5) by (simp add: app_ok_def)
  show ?thesis
    using assms(1) apps loc refs by (simp add: node_ok_def)
qed

lemma node_ok_erase:
  assumes "node_ok px S nd" and "um_find k (nd_apps nd) = Some a"
    and "app_ok px a g (wd_ctx (nd_world nd)) (b, v)" and "held (ap_state b) = {}"
    and "references (nd\<lparr>nd_apps := um_erase k (nd_apps nd), nd_world := v\<rparr>) = g"
  shows "node_ok px S (nd\<lparr>nd_apps := um_erase k (nd_apps nd), nd_world := v\<rparr>)"
proof -
  have a: "app_name a = k" using assms(1) um_find_SomeD [OF assms(2)] by (auto simp: node_ok_def)
  have own: "own (ap_state b) i = 0" for i using assms(4) by (cases "ap_state b") auto
  have loc: "\<exists>x. um_find k' (um_erase k (nd_apps nd)) = Some x \<and> held (ap_state x) \<noteq> {}"
    if "k' \<in> S" "px_locate px k' (wd_ctx v)" for k'
  proof -
    have "k' \<noteq> k" using that assms(3,4) a by (auto simp: app_ok_def published_def)
    moreover from this have "px_locate px k' (wd_ctx (nd_world nd))"
      using that assms(3) a by (simp add: app_ok_def others_def)
    ultimately show ?thesis using that assms(1) by (auto simp: node_ok_def)
  qed
  have refs: "overseers_ok g v" using assms(3) own by (simp add: app_ok_def)
  show ?thesis
    using assms(1,5) loc refs sorted_um_erase by (auto simp: node_ok_def set_um_erase)
qed

lemma drain_ok:
  assumes "context_laws px" and "app_ok px b g d aw" and "length (ap_loop (fst aw)) \<le> n"
  shows "app_ok px b g d (drain n px e ids aw) \<and> ap_loop (fst (drain n px e ids aw)) = []"
  using assms(2,3)
proof (induction n arbitrary: aw)
  case (Suc n)
  show ?case
  proof (cases "run_loop px e ids aw")
    case None
    with Suc.prems show ?thesis by (auto simp: run_loop_def split: list.splits)
  next
    case (Some aw')
    with Suc.IH [OF run_loop_ok [OF assms(1) Suc.prems(1) Some]] run_loop_shrinks [OF Some] Suc.prems(2)
    show ?thesis by simp
  qed
qed simp

lemma app_dtor_ok:
  assumes "context_laws px" and "app_ok px b g d aw" and "ap_phase (fst aw) = Alive"
  shows "app_ok px b g d (app_dtor px e ids aw)" "held (ap_state (fst (app_dtor px e ids aw))) = {}"
proof -
  have "app_ok px b g d (begin_destroy px e aw)"
    using app_step_ok [OF assms(1,2), of e ids Begin_destroy] assms(3) by simp
  from drain_ok [OF assms(1) this order_refl]
  show "app_ok px b g d (app_dtor px e ids aw)"
    by (simp add: app_dtor_def Let_def destroy_closed_ok assms(1))
  show "held (ap_state (fst (app_dtor px e ids aw))) = {}"
    by (simp add: app_dtor_def Let_def end_destroy_def split_beta)
qed

lemma overseers_ok_put: "overseers_ok h w \<Longrightarrow> 0 < h i \<Longrightarrow> overseers_ok h (w\<lparr>wd_engines := (wd_engines w)[i := en]\<rparr>)"
  by (auto simp: overseers_ok_def) (metis less_not_refl nth_list_update_neq)

lemma overseers_ok_acquire:
  "overseers_ok h w \<Longrightarrow> 0 < h i \<Longrightarrow> overseers_ok (\<lambda>k. own (Running i) k + h k) (acquire i w)"
  by (auto simp: overseers_ok_def acquire_def nth_list_update)

lemma put_engine_ok:
  assumes "node_ok px S nd" and "0 < references nd i"
  shows "node_ok px S (put_engine i en nd)"
  using assms overseers_ok_put [of "references nd" "nd_world nd" i en]
  by (simp add: node_ok_def put_engine_def references_def [abs_def])

lemma references_running:
  assumes "node_ok px S nd" and "um_find k (nd_apps nd) = Some a" and "ap_state a = Running i"
  shows "0 < references nd i"
proof -
  have "(k, a) \<in> set (nd_apps nd)" by (rule um_find_SomeD [OF assms(2)])
  then obtain xs ys where "nd_apps nd = xs @ (k, a) # ys" by (meson split_list)
  then show ?thesis using assms(3) by (simp add: references_def)
qed

lemma references_controlled:
  assumes "controlled k nd = Some i"
  shows "0 < references nd i"
proof -
  have "Some i \<in> set (nd_controls nd)"
    using assms by (auto simp: controlled_def in_set_conv_nth split: if_splits)
  then have "count_list (nd_controls nd) (Some i) \<noteq> 0" by (simp add: count_list_0_iff)
  then show ?thesis by (simp add: references_def)
qed

lemma overseer_running:
  "overseer name nd = Inr i \<Longrightarrow> \<exists>a. um_find name (nd_apps nd) = Some a \<and> ap_state a = Running i"
  by (auto simp: overseer_def app_overseer_def split: option.splits app_state.splits)

lemma open_control_ok:
  assumes "node_ok px S nd" and "open_control name nd = Inr nd'"
  shows "node_ok px S nd'"
proof -
  obtain i where i: "overseer name nd = Inr i"
    "nd' = nd\<lparr>nd_controls := nd_controls nd @ [Some i], nd_world := acquire i (nd_world nd)\<rparr>"
    using assms(2) by (auto simp: open_control_def bindE_Inr_conv)
  then have pos: "0 < references nd i"
    using overseer_running references_running [OF assms(1)] by blast
  have "references nd' = (\<lambda>k. own (Running i) k + references nd k)"
    by (auto simp: i(2) references_def fun_eq_iff)
  then have "overseers_ok (references nd') (nd_world nd')"
    using overseers_ok_acquire [of "references nd" "nd_world nd" i] pos assms(1) by (simp add: node_ok_def i(2))
  moreover have "wd_ctx (nd_world nd') = wd_ctx (nd_world nd)" by (simp add: i(2) acquire_def)
  ultimately show ?thesis using assms(1) by (simp add: node_ok_def i(2))
qed

lemma count_list_close:
  "k < length xs \<Longrightarrow> xs ! k = Some i \<Longrightarrow>
   count_list xs (Some j) = (if j = i then 1 else 0) + count_list (xs[k := None]) (Some j)"
proof (induction xs arbitrary: k)
  case (Cons x xs)
  then show ?case by (cases k) auto
qed simp

lemma close_control_ok:
  assumes "node_ok px S nd" and "close_control e k nd = Some nd'"
  shows "node_ok px S nd'"
proof -
  obtain i where i: "controlled k nd = Some i"
    "nd' = nd\<lparr>nd_controls := (nd_controls nd)[k := None], nd_world := release e i (nd_world nd)\<rparr>"
    using assms(2) by (auto simp: close_control_def split: option.splits)
  have "references nd = (\<lambda>j. own (Running i) j + references nd' j)"
    using i(1) count_list_close [of k "nd_controls nd" i]
    by (auto simp: controlled_def references_def fun_eq_iff i(2) split: if_splits)
  then have "overseers_ok (references nd') (nd_world nd')"
    using overseers_ok_release [of i "references nd'" "nd_world nd" e] assms(1) by (simp add: node_ok_def i(2))
  then show ?thesis using assms(1) by (simp add: node_ok_def i(2))
qed

lemma spool_phase: "spool px e ids r aw = Inr aw' \<Longrightarrow> ap_phase (fst aw') = ap_phase (fst aw)"
  by (auto simp: spool_def on_abort_def dispatch_def split_beta split: if_splits spool_result.splits exn.splits)

lemma count_own_insert: "k \<notin> set (um_keys m) \<Longrightarrow> count_own (om_insert k a m) i = own (ap_state a) i + count_own m i"
  by (induction k a m rule: om_insert.induct) (auto simp: um_keys_def)

lemma start_app_ok:
  assumes laws: "context_laws px" and ok: "node_ok px S nd" and start: "start_app px e ids la name nd = Inr nd'"
    and adm: "admissible S (Start name la)"
  shows "node_ok px S nd'"
proof -
  obtain mf pf pr a w where mf: "la_manifest la = Inr mf" "um_find name (nd_apps nd) = None"
    and a: "spool px e ids (la_spool la) (fresh_app mf pf pr, nd_world nd) = Inr (a, w)"
      "nd' = nd\<lparr>nd_apps := om_insert name a (nd_apps nd), nd_world := w\<rparr>"
    using start
    by (cases "la_manifest la") (auto simp: start_app_def new_app_def bindE_Inr_conv split: option.splits)
  let ?b = "fresh_app mf pf pr"
  have name: "app_name ?b = name" "name \<in> S" "name \<notin> set (um_keys (nd_apps nd))"
    using adm mf um_find_None_iff by (force simp: fresh_app_def app_name_def)+
  have free: "\<not> px_locate px name (wd_ctx (nd_world nd))" using ok name(2) mf(2) by (auto simp: node_ok_def)
  then have "app_ok px ?b (references nd) (wd_ctx (nd_world nd)) (?b, nd_world nd)"
    using ok name(1) by (simp add: app_ok_def same_app_def others_def published_def node_ok_def fresh_app_def)
  then have a_ok: "app_ok px ?b (references nd) (wd_ctx (nd_world nd)) (a, w)"
    using spool_ok [OF laws _ a(1)] by simp
  have "ap_phase a = Alive" using spool_phase [OF a(1)] by (simp add: fresh_app_def)
  moreover have "app_name a = name" using a_ok same_app_name name(1) by (fastforce simp: app_ok_def)
  ultimately have apps: "\<forall>(k, x) \<in> set (nd_apps nd'). app_name x = k \<and> k \<in> S \<and> ap_phase x = Alive"
    using ok name(2,3) by (auto simp: a(2) node_ok_def set_om_insert)
  have refs: "overseers_ok (references nd') (nd_world nd')"
    using a_ok count_own_insert [OF name(3)]
    by (simp add: app_ok_def a(2) references_def [abs_def] add.assoc)
  have sorted: "sorted_wrt (<) (um_keys (nd_apps nd))" using ok by (simp add: node_ok_def)
  have "\<exists>x. um_find k (nd_apps nd') = Some x \<and> held (ap_state x) \<noteq> {}"
    if "k \<in> S" "px_locate px k (wd_ctx w)" for k
  proof (cases "k = name")
    case True
    then show ?thesis using that a_ok name(1)
      by (simp add: a(2) find_om_insert [OF sorted name(3)] app_ok_def published_def)
  next
    case False
    then have "px_locate px k (wd_ctx (nd_world nd))" using that a_ok name(1) by (simp add: app_ok_def others_def)
    then show ?thesis using False that ok by (auto simp: a(2) find_om_insert [OF sorted name(3)] node_ok_def)
  qed
  then show ?thesis using apps refs sorted by (simp add: node_ok_def a(2) sorted_om_insert)
qed

lemma pause_app_ok:
  assumes "context_laws px" and "node_ok px S nd" and "pause_app px e ids name nd = Returned nd'"
  shows "node_ok px S nd'"
proof -
  obtain a where a: "um_find name (nd_apps nd) = Some a"
    "nd' = nd\<lparr>nd_apps := um_erase name (nd_apps nd), nd_world := snd (app_dtor px e ids (a, nd_world nd))\<rparr>"
    using assms(3) by (auto simp: pause_app_def split: option.splits)
  obtain g where g: "app_ok px a g (wd_ctx (nd_world nd)) (a, nd_world nd)" "ap_phase a = Alive"
    "\<forall>v. references (nd\<lparr>nd_apps := um_erase name (nd_apps nd), nd_world := v\<rparr>) = g"
    using node_ok_split [OF assms(2) a(1)] by blast
  let ?d = "app_dtor px e ids (a, nd_world nd)"
  have "app_ok px a g (wd_ctx (nd_world nd)) (fst ?d, snd ?d)" "held (ap_state (fst ?d)) = {}"
    using app_dtor_ok [OF assms(1) g(1)] g(2) by simp_all
  then show ?thesis unfolding a(2) using node_ok_erase [OF assms(2) a(1)] g(3) by blast
qed

lemma dispatch_phase [simp]: "ap_phase (fst (dispatch px e ids in_loop t aw)) = ap_phase (fst aw)"
  by (simp add: dispatch_def split_beta run_task_callbacks)

lemma app_event_phase:
  assumes "node_app_event ev" and "app_step px e ids ev aw = Some aw'"
  shows "ap_phase (fst aw') = ap_phase (fst aw)"
  using assms by (cases ev) (auto simp: on_abort_def on_ready_def dest: run_loop_shrinks split: if_splits)

lemma engine_acts_fst:
  assumes "engine_acts px e i ev aw = Some aw'"
  shows "fst aw' = fst aw"
  using assms by (auto simp: engine_acts_def Let_def split_beta split: if_splits option.splits)

lemma node_app_acts_ok:
  assumes "context_laws px" and "node_ok px S nd" and "node_app_acts px e ids name ev nd = Some nd'"
  shows "node_ok px S nd'"
proof -
  obtain a b v where a: "um_find name (nd_apps nd) = Some a" "node_app_event ev"
    "app_step px e ids ev (a, nd_world nd) = Some (b, v)"
    "nd' = nd\<lparr>nd_apps := put_app name b (nd_apps nd), nd_world := v\<rparr>"
    using assms(3) by (auto simp: node_app_acts_def split: option.splits if_splits)
  obtain g where g: "app_ok px a g (wd_ctx (nd_world nd)) (a, nd_world nd)" "ap_phase a = Alive"
    "\<forall>b v. references (nd\<lparr>nd_apps := put_app name b (nd_apps nd), nd_world := v\<rparr>) = (\<lambda>i. own (ap_state b) i + g i)"
    using node_ok_split [OF assms(2) a(1)] by blast
  show ?thesis unfolding a(4)
    using node_ok_put [OF assms(2) a(1) app_step_ok [OF assms(1) g(1) a(3)]] app_event_phase [OF a(2,3)] g(2,3)
    by simp
qed

lemma put_app_same: "um_find k m = Some a \<Longrightarrow> distinct (um_keys m) \<Longrightarrow> put_app k a m = m"
  by (metis find_split)

lemma node_engine_acts_ok:
  assumes "context_laws px" and "node_ok px S nd" and "node_engine_acts px e i ev nd = Some nd'"
  shows "node_ok px S nd'"
proof (cases "find (\<lambda>(k, a). runs i a) (nd_apps nd)")
  case None
  then obtain en where en: "engine_step e ev (wd_engines (nd_world nd) ! i) = Some en"
    "wd_engines (nd_world nd') = (wd_engines (nd_world nd))[i := en]" "wd_refs (nd_world nd') = wd_refs (nd_world nd)"
    "wd_ctx (nd_world nd') = wd_ctx (nd_world nd)" "nd_apps nd' = nd_apps nd" "nd_controls nd' = nd_controls nd"
    using assms(3) by (auto simp: node_engine_acts_def Let_def split: if_splits)
  then have "overseers_ok (references nd) (nd_world nd')"
    using overseers_ok_engine [OF _ en(1)] assms(2) overseers_ok_cong [of "nd_world nd'"
        "(nd_world nd)\<lparr>wd_engines := (wd_engines (nd_world nd))[i := en]\<rparr>"]
    by (simp add: node_ok_def)
  then show ?thesis using assms(2) en by (simp add: node_ok_def references_def [abs_def])
next
  case (Some ka)
  obtain k a where ka: "ka = (k, a)" by fastforce
  then have mem: "(k, a) \<in> set (nd_apps nd)" using Some by (metis find_Some_iff nth_mem)
  have dist: "distinct (um_keys (nd_apps nd))" using assms(2) sorted_distinct_keys by (auto simp: node_ok_def)
  have find: "um_find k (nd_apps nd) = Some a" by (rule um_find_in_set [OF dist mem])
  obtain b v where b: "engine_acts px e i ev (a, nd_world nd) = Some (b, v)" "nd' = nd\<lparr>nd_world := v\<rparr>"
    using assms(3) Some ka by (auto simp: node_engine_acts_def Let_def)
  have same: "b = a" using engine_acts_fst [OF b(1)] by simp
  obtain g where g: "app_ok px a g (wd_ctx (nd_world nd)) (a, nd_world nd)" "ap_phase a = Alive"
    "\<forall>b v. references (nd\<lparr>nd_apps := put_app k b (nd_apps nd), nd_world := v\<rparr>) = (\<lambda>i. own (ap_state b) i + g i)"
    using node_ok_split [OF assms(2) find] by blast
  have "app_ok px a g (wd_ctx (nd_world nd)) (a, v)"
    using app_step_ok [OF assms(1) g(1), of e undefined "Engine_acts i ev"] b(1) same by simp
  from node_ok_put [OF assms(2) find this g(2) g(3) [rule_format]] show ?thesis
    by (simp add: put_app_same [OF find dist] b(2))
qed

lemma clear_apps_ok:
  assumes "context_laws px"
  shows "node_ok px S nd \<Longrightarrow> nd_apps nd = m \<Longrightarrow>
    node_ok px S (nd\<lparr>nd_apps := [], nd_world := clear_apps px e ids m (nd_world nd)\<rparr>)"
proof (induction m arbitrary: nd)
  case Nil
  then show ?case by (cases nd) simp
next
  case (Cons ka m)
  obtain k a where ka: "ka = (k, a)" by fastforce
  have find: "um_find k (nd_apps nd) = Some a" using Cons.prems ka by simp
  obtain g where g: "app_ok px a g (wd_ctx (nd_world nd)) (a, nd_world nd)" "ap_phase a = Alive"
    "\<forall>v. references (nd\<lparr>nd_apps := um_erase k (nd_apps nd), nd_world := v\<rparr>) = g"
    using node_ok_split [OF Cons.prems(1) find] by blast
  let ?d = "app_dtor px e ids (a, nd_world nd)"
  have "app_ok px a g (wd_ctx (nd_world nd)) (fst ?d, snd ?d)" "held (ap_state (fst ?d)) = {}"
    using app_dtor_ok [OF assms g(1)] g(2) by simp_all
  then have ok: "node_ok px S (nd\<lparr>nd_apps := um_erase k (nd_apps nd), nd_world := snd ?d\<rparr>)"
    using node_ok_erase [OF Cons.prems(1) find] g(3) by blast
  have "distinct (um_keys (nd_apps nd))" using Cons.prems(1) sorted_distinct_keys by (auto simp: node_ok_def)
  then have "um_erase k (nd_apps nd) = m"
    using Cons.prems(2) ka by (auto simp: um_erase_def AList.delete_eq um_keys_def filter_id_conv) force
  with Cons.IH [OF ok] ka show ?case by simp
qed

lemma node_enqueue_ok:
  assumes "node_ok px S nd"
  shows "node_ok px S (snd (node_enqueue e name ev nd))"
proof (cases "um_find name (nd_apps nd)")
  case (Some a)
  then show ?thesis
    using assms references_running [OF assms Some] put_engine_ok [OF assms]
    by (cases "ap_state a")
      (auto simp: node_enqueue_def app_overseer_def split: prod.splits sum.splits engine_error.splits)
qed (simp add: node_enqueue_def assms)

lemma proxy_references:
  assumes "proxy_alive i nd"
  shows "0 < references nd i"
proof -
  obtain k a where "(k, a) \<in> set (nd_apps nd)" "ap_state a = Running i"
    using assms by (auto simp: proxy_alive_def list_ex_iff)
  then show ?thesis by (auto simp: references_def dest!: split_list)
qed

lemma node_step_ok:
  assumes "context_laws px" and "node_ok px S nd" and "admissible S ev" and "node_step px e ids ev nd = Some nd'"
  shows "node_ok px S nd'"
proof (cases ev)
  case (Start name la)
  with assms start_app_ok [OF assms(1,2)] show ?thesis by (auto split: sum.splits)
next
  case (Pause name)
  with assms pause_app_ok [OF assms(1,2)] show ?thesis by (auto split: outcome.splits)
next
  case (Request name x)
  have "nd' = snd (node_enqueue e name x nd)" using assms(4) Request by (auto split: prod.splits enqueue_reply.splits)
  then show ?thesis using node_enqueue_ok [OF assms(2)] by simp
next
  case (Open_control name)
  with assms open_control_ok [OF assms(2)] show ?thesis by (auto split: sum.splits)
next
  case (Control k ce)
  with assms(4) obtain i en where "controlled k nd = Some i" "nd' = put_engine i en nd"
    by (auto simp: on_control_def split: option.splits sum.splits)
  then show ?thesis using put_engine_ok [OF assms(2) references_controlled] by simp
next
  case (App_request i x)
  then show ?thesis
    using assms(2,4) put_engine_ok [OF assms(2) proxy_references]
    by (auto simp: app_on_enqueue_def split: if_splits prod.splits sum.splits engine_error.splits)
next
  case (App_control i ce)
  then show ?thesis
    using assms(2,4) put_engine_ok [OF assms(2) proxy_references]
    by (auto simp: app_on_control_def split: if_splits sum.splits)
next
  case Shutdown
  have "node_ok px S (x\<lparr>nd_signal := False\<rparr>) = node_ok px S x" for x :: "('a, 'b) node"
    by (simp add: node_ok_def references_def [abs_def])
  with Shutdown assms(4) clear_apps_ok [OF assms(1,2) refl, of e ids] show ?thesis
    by (auto simp: on_context_shutdown_def)
qed (use assms close_control_ok node_app_acts_ok node_engine_acts_ok in \<open>fastforce+\<close>)

lemma reachable_node_ok:
  assumes "node_reachable px ids S c nd" and "context_laws px" and "\<forall>k \<in> S. \<not> px_locate px k c"
  shows "node_ok px S nd"
  using assms(1)
proof (induction rule: node_reachable.induct)
  case node_init
  then show ?case using assms(3)
    by (simp add: node_ok_def empty_node_def new_world_def references_def [abs_def] overseers_ok_def um_keys_def)
next
  case (node_next nd ev e nd')
  then show ?case using node_step_ok [OF assms(2)] by blast
qed

section \<open>Properties of the node\<close>

text \<open>
  C5: over every history of requests, control streams, isolates,
  loops and engines, the applications are listed in strict order of their names;
  a name reserved for applications is published only while the application of
  that name is in the list and running; and an overseer that is not destroyed is
  that of a running application of the list, or is kept alive by an open control
  stream.
\<close>

theorem node_invariant:
  assumes "node_reachable px ids S c nd" and "context_laws px" and "\<forall>k \<in> S. \<not> px_locate px k c"
  shows "sorted_wrt (<) (list_apps nd) \<and>
    (\<forall>k \<in> S. px_locate px k (wd_ctx (nd_world nd)) \<longrightarrow>
       (\<exists>a i. um_find k (nd_apps nd) = Some a \<and> ap_state a = Running i)) \<and>
    (\<forall>i < length (wd_engines (nd_world nd)). \<not> retired (wd_engines (nd_world nd) ! i) \<longrightarrow>
       (\<exists>k a. um_find k (nd_apps nd) = Some a \<and> ap_state a = Running i) \<or> Some i \<in> set (nd_controls nd))"
proof (intro conjI)
  have ok: "node_ok px S nd" by (rule reachable_node_ok [OF assms])
  show "sorted_wrt (<) (list_apps nd)" using ok by (simp add: node_ok_def list_apps_def)
  have "held s = {} \<or> (\<exists>i. s = Running i)" for s by (cases s) auto
  then show "\<forall>k \<in> S. px_locate px k (wd_ctx (nd_world nd)) \<longrightarrow>
       (\<exists>a i. um_find k (nd_apps nd) = Some a \<and> ap_state a = Running i)"
    using ok unfolding node_ok_def by meson
  have dist: "distinct (um_keys (nd_apps nd))" using ok sorted_distinct_keys by (auto simp: node_ok_def)
  have "\<exists>k a. um_find k (nd_apps nd) = Some a \<and> ap_state a = Running i"
    if "count_own (nd_apps nd) i \<noteq> 0" for i
  proof -
    have "\<exists>(k, a) \<in> set (nd_apps nd). own (ap_state a) i \<noteq> 0"
      using that by (auto simp: count_own_def sum_list_eq_0_iff)
    then show ?thesis using um_find_in_set [OF dist] by (fastforce simp: own_def split: if_splits)
  qed
  moreover have "references nd i \<noteq> 0"
    if "i < length (wd_engines (nd_world nd))" "\<not> retired (wd_engines (nd_world nd) ! i)" for i
    using that ok by (auto simp: node_ok_def overseers_ok_def)
  then have "count_own (nd_apps nd) i \<noteq> 0 \<or> Some i \<in> set (nd_controls nd)"
    if "i < length (wd_engines (nd_world nd))" "\<not> retired (wd_engines (nd_world nd) ! i)" for i
    using that by (auto simp: references_def count_list_0_iff)
  ultimately show "\<forall>i < length (wd_engines (nd_world nd)). \<not> retired (wd_engines (nd_world nd) ! i) \<longrightarrow>
       (\<exists>k a. um_find k (nd_apps nd) = Some a \<and> ap_state a = Running i) \<or> Some i \<in> set (nd_controls nd)"
    by blast
qed

text \<open>
  Starting a name that is present is refused with
  \<open>already_started\<close> and pausing an absent one with \<open>not_running\<close>; a start that
  succeeds adds exactly that name to the list, and a pause that returns removes
  exactly it, so a start followed by a pause restores the list.
\<close>

theorem start_pause:
  assumes "node_reachable px ids S c nd" and "context_laws px" and "\<forall>k \<in> S. \<not> px_locate px k c"
  shows "(name \<in> set (list_apps nd) \<longrightarrow>
      (\<exists>m. start_app px e ids la name nd = Inl (System_error (node_error_code Already_started) m))) \<and>
    (name \<notin> set (list_apps nd) \<longrightarrow>
      (\<exists>m. pause_app px e ids name nd = Threw (System_error (node_error_code Not_running) m))) \<and>
    (\<forall>nd'. start_app px e ids la name nd = Inr nd' \<longrightarrow>
       set (list_apps nd') = insert name (set (list_apps nd)) \<and>
       (\<forall>nd''. pause_app px e' ids name nd' = Returned nd'' \<longrightarrow> list_apps nd'' = list_apps nd)) \<and>
    (\<forall>nd'. pause_app px e ids name nd = Returned nd' \<longrightarrow>
       list_apps nd' = filter (\<lambda>k. k \<noteq> name) (list_apps nd))"
proof (intro conjI impI allI)
  have ok: "node_ok px S nd" by (rule reachable_node_ok [OF assms])
  show "\<exists>m. start_app px e ids la name nd = Inl (System_error (node_error_code Already_started) m)"
    if present: "name \<in> set (list_apps nd)"
  proof -
    obtain a where "um_find name (nd_apps nd) = Some a"
      using present um_find_None_iff [of name "nd_apps nd"]
      by (cases "um_find name (nd_apps nd)") (auto simp: list_apps_def)
    then show ?thesis by (simp add: start_app_def)
  qed
  show "\<exists>m. pause_app px e ids name nd = Threw (System_error (node_error_code Not_running) m)"
    if "name \<notin> set (list_apps nd)"
    using that by (simp add: list_apps_def pause_app_def flip: um_find_None_iff)
  have pause: "list_apps n' = filter (\<lambda>k. k \<noteq> name) (list_apps n)"
    if "pause_app px e ids name n = Returned n'" for e n n'
    using that by (auto simp: pause_app_def list_apps_def um_keys_erase split: option.splits)
  then show "list_apps nd' = filter (\<lambda>k. k \<noteq> name) (list_apps nd)"
    if "pause_app px e ids name nd = Returned nd'" for nd' using that .
  fix nd' assume start: "start_app px e ids la name nd = Inr nd'"
  then obtain a where fresh: "name \<notin> set (um_keys (nd_apps nd))"
    and apps: "nd_apps nd' = om_insert name a (nd_apps nd)"
    by (auto simp: start_app_def bindE_Inr_conv um_find_None_iff split: option.splits)
  show "set (list_apps nd') = insert name (set (list_apps nd))"
    by (simp add: list_apps_def apps keys_om_insert)
  have "filter (\<lambda>k. k \<noteq> name) (um_keys (om_insert name a m)) = um_keys m"
    if "name \<notin> set (um_keys m)" for m
    using that by (induction name a m rule: om_insert.induct) (auto simp: um_keys_def filter_id_conv)
  then show "list_apps nd'' = list_apps nd" if "pause_app px e' ids name nd' = Returned nd''" for nd''
    using pause [OF that] fresh by (simp add: list_apps_def apps)
qed

text \<open>
  Pausing the application with the greatest name is
  undefined behaviour, and pausing any other is not: the code reads the element
  after the erased one instead of the erased one.
\<close>

theorem pause_last_undefined:
  assumes "node_reachable px ids S c nd" and "context_laws px" and "\<forall>k \<in> S. \<not> px_locate px k c"
    and "name \<in> set (list_apps nd)"
  shows "pause_app px e ids name nd = Undefined \<longleftrightarrow> (\<forall>k \<in> set (list_apps nd). k \<le> name)"
proof -
  have sorted: "sorted_wrt (<) (um_keys (nd_apps nd))"
    using reachable_node_ok [OF assms(1-3)] by (simp add: node_ok_def)
  obtain a where "um_find name (nd_apps nd) = Some a"
    using assms(4) um_find_None_iff [of name "nd_apps nd"]
    by (cases "um_find name (nd_apps nd)") (auto simp: list_apps_def)
  then show ?thesis
    using om_after_last [OF sorted, of name] assms(4) by (auto simp: pause_app_def list_apps_def split: option.splits)
qed

section \<open>A concrete node\<close>

definition sample_launch :: "string \<Rightarrow> int launch" where
  "sample_launch name = \<lparr>la_manifest = Inr (sample_manifest\<lparr>mf_name := name\<rparr>),
     la_profile = Inr (app_profile, sample_profile), la_isolate = Inr (), la_spool = Spool_started\<rparr>"

fun node_run :: "int node_event list \<Rightarrow> (string list, int) node \<Rightarrow> (string list, int) node option" where
  "node_run [] nd = Some nd"
| "node_run (ev # evs) nd =
     (case node_step list_platform slave_env sample_ids ev nd of None \<Rightarrow> None | Some nd' \<Rightarrow> node_run evs nd')"

definition two_apps :: "int node_event list" where
  "two_apps = [Start ''zoo'' (sample_launch ''zoo''), Start ''app'' (sample_launch ''app''),
     App_event ''app'' (Isolate_ready True), Request ''app'' sample_event]"

definition sample_node :: "(string list, int) node" where
  "sample_node = the (node_run two_apps (empty_node [''storage'']))"

text \<open>A control stream is opened, and then the application it controls is paused.\<close>

definition paused_node :: "(string list, int) node" where
  "paused_node = the (node_run [Open_control ''app'', Pause ''app''] sample_node)"

lemma node_run_reachable:
  "node_reachable list_platform sample_ids S c nd \<Longrightarrow> list_all (admissible S) evs \<Longrightarrow> node_run evs nd = Some nd' \<Longrightarrow>
   node_reachable list_platform sample_ids S c nd'"
  by (induction evs nd rule: node_run.induct) (auto split: option.splits intro: node_next)

definition app_names :: "string set" where
  "app_names = {''app'', ''zoo''}"

lemma sample_node_reachable: "node_reachable list_platform sample_ids app_names [''storage''] sample_node"
proof -
  have "\<not> Option.is_none (node_run two_apps (empty_node [''storage'']))" by code_simp
  then have "node_run two_apps (empty_node [''storage'']) = Some sample_node"
    by (auto simp: sample_node_def Option.is_none_def)
  moreover have "list_all (admissible app_names) two_apps"
    by (simp add: two_apps_def app_names_def sample_launch_def)
  ultimately show ?thesis using node_run_reachable [OF node_init] by blast
qed

lemma paused_node_reachable: "node_reachable list_platform sample_ids app_names [''storage''] paused_node"
proof -
  have "\<not> Option.is_none (node_run [Open_control ''app'', Pause ''app''] sample_node)" by code_simp
  then have "node_run [Open_control ''app'', Pause ''app''] sample_node = Some paused_node"
    by (auto simp: paused_node_def Option.is_none_def)
  then show ?thesis
    using node_run_reachable [OF sample_node_reachable, of "[Open_control ''app'', Pause ''app'']"] by simp
qed

lemma app_names_free: "\<forall>k \<in> app_names. \<not> px_locate list_platform k [''storage'']"
  by (simp add: app_names_def list_platform_def)

text \<open>The paused application's overseer, and its slave, live on in the control stream.\<close>

theorem node_invariant_witness:
  "list_apps paused_node = [''zoo''] \<and> length (en_pool (wd_engines (nd_world paused_node) ! 0)) = 1 \<and>
   Some 0 \<in> set (nd_controls paused_node)"
proof -
  have v: "list_apps paused_node = [''zoo'']" "length (en_pool (wd_engines (nd_world paused_node) ! 0)) = 1"
    "length (wd_engines (nd_world paused_node)) = 1"
    "list_all (\<lambda>(k, a). \<not> runs 0 a) (nd_apps paused_node)"
    by code_simp+
  then have "\<not> retired (wd_engines (nd_world paused_node) ! 0)" by (auto simp: retired_def)
  moreover have "\<not> (\<exists>k a. um_find k (nd_apps paused_node) = Some a \<and> ap_state a = Running 0)"
    using v(4) um_find_SomeD by (fastforce simp: list_all_iff runs_def)
  ultimately show ?thesis
    using node_invariant [OF paused_node_reachable list_platform_laws app_names_free] v(1-3) by auto
qed

theorem start_pause_witness:
  "(\<exists>m. start_app list_platform slave_env sample_ids (sample_launch ''app'') ''app'' sample_node =
     Inl (System_error (node_error_code Already_started) m)) \<and>
   (\<exists>m. pause_app list_platform slave_env sample_ids ''none'' sample_node =
     Threw (System_error (node_error_code Not_running) m))"
proof -
  have "list_apps sample_node = [''app'', ''zoo'']" by code_simp
  with start_pause [OF sample_node_reachable list_platform_laws app_names_free, of "''app''"]
    start_pause [OF sample_node_reachable list_platform_laws app_names_free, of "''none''"]
  show ?thesis by simp
qed

theorem pause_last_undefined_witness:
  "pause_app list_platform slave_env sample_ids ''zoo'' sample_node = Undefined"
proof -
  have "list_apps sample_node = [''app'', ''zoo'']" "''app'' \<le> ''zoo''" by code_simp+
  with pause_last_undefined [OF sample_node_reachable list_platform_laws app_names_free, of "''zoo''"]
  show ?thesis by simp
qed

end
