(* ===== verification/Chrono.thy ===== *)
theory Chrono
  imports Prelude
begin

text \<open>
  The chrono service (\<^verbatim>\<open>src/chrono/src/chrono.cpp\<close>): timers that notify a client
  once or repeatedly over a stream, with cancellation and restart.

  A deadline timer has a number of pending waits.  Setting its expiry again, or
  destroying it, completes them as aborted; when it expires they complete
  normally.  Completed handlers wait in \<open>cr_ready\<close> until the loop runs them, so a
  handler may run after its timer was cancelled, restarted or replaced.  Streams
  are numbered, and \<open>cr_log\<close> is what was written to them.  Arithmetic on doubles
  is the record \<open>clock\<close>, and \<^verbatim>\<open>std::rand\<close> is a sequence of numbers.
\<close>

section \<open>State\<close>

record 'd clock =
  ck_zero :: 'd
  ck_is_zero :: "'d \<Rightarrow> bool"
  ck_usec :: "'d \<Rightarrow> int"

record 'd timer =
  tm_interval :: 'd
  tm_stream :: nat
  tm_waits :: nat
  tm_delay :: int

text \<open>Both \<open>Sent_id\<close> and \<open>Tick\<close> are writes of the timer's number.\<close>

datatype stream_event = Sent_id int | Tick int | Closed_stream

record 'd chrono =
  cr_timers :: "(int, 'd timer) umap"
  cr_ready :: "(bool \<times> int) list"
  cr_intervals :: "'d list"
  cr_log :: "(nat \<times> stream_event) list"
  cr_draws :: nat

record io =
  io_write_ok :: bool
  io_close_ok :: bool

datatype chrono_error = Out_of_range | Write_failed

section \<open>Operations\<close>

definition send :: "nat \<Rightarrow> stream_event \<Rightarrow> 'd chrono \<Rightarrow> 'd chrono" where
  "send s x st = st\<lparr>cr_log := cr_log st @ [(s, x)]\<rparr>"

definition abort_waits :: "int \<Rightarrow> 'd timer \<Rightarrow> 'd chrono \<Rightarrow> 'd chrono" where
  "abort_waits tid t st = st\<lparr>cr_ready := cr_ready st @ replicate (tm_waits t) (True, tid)\<rparr>"

definition remove_timer :: "io \<Rightarrow> int \<Rightarrow> 'd chrono \<Rightarrow> 'd chrono" where
  "remove_timer e tid st =
     (case um_find tid (cr_timers st) of
        None \<Rightarrow> st
      | Some t \<Rightarrow>
          let st = (if io_close_ok e then send (tm_stream t) Closed_stream st else st)
          in abort_waits tid t (st\<lparr>cr_timers := um_erase tid (cr_timers st)\<rparr>))"

text \<open>\<^verbatim>\<open>do timer_id = rand() while (found)\<close>.\<close>

partial_function (option) draw_id :: "(nat \<Rightarrow> int) \<Rightarrow> int list \<Rightarrow> nat \<Rightarrow> (int \<times> nat) option" where
  "draw_id rnd used n = (if rnd n \<in> set used then draw_id rnd used (Suc n) else Some (rnd n, Suc n))"

definition set_timer_impl ::
  "'d clock \<Rightarrow> io \<Rightarrow> (nat \<Rightarrow> int) \<Rightarrow> 'd \<Rightarrow> 'd \<Rightarrow> bool \<Rightarrow> 'd chrono \<Rightarrow> ((chrono_error, nat) result \<times> 'd chrono) option" where
  "set_timer_impl ck e rnd first repeat send_id st =
     map_option (\<lambda>(tid, n).
       let s = length (cr_intervals st);
           t = \<lparr>tm_interval = repeat, tm_stream = s, tm_waits = 1, tm_delay = ck_usec ck first\<rparr>;
           st = st\<lparr>cr_timers := um_insert tid t (cr_timers st), cr_intervals := cr_intervals st @ [repeat],
                   cr_draws := n\<rparr>
       in if send_id
          then if io_write_ok e then (Inr s, send s (Sent_id tid) st)
               else (Inl Write_failed, remove_timer e tid st)
          else (Inr s, st))
     (draw_id rnd (um_keys (cr_timers st)) (cr_draws st))"

definition notify_after ::
  "'d clock \<Rightarrow> io \<Rightarrow> (nat \<Rightarrow> int) \<Rightarrow> 'd \<Rightarrow> bool \<Rightarrow> 'd chrono \<Rightarrow> ((chrono_error, nat) result \<times> 'd chrono) option" where
  "notify_after ck e rnd time send_id st = set_timer_impl ck e rnd time (ck_zero ck) send_id st"

definition notify_every ::
  "'d clock \<Rightarrow> io \<Rightarrow> (nat \<Rightarrow> int) \<Rightarrow> 'd \<Rightarrow> bool \<Rightarrow> 'd chrono \<Rightarrow> ((chrono_error, nat) result \<times> 'd chrono) option" where
  "notify_every ck e rnd time send_id st = set_timer_impl ck e rnd time time send_id st"

definition cancel_timer :: "io \<Rightarrow> int \<Rightarrow> 'd chrono \<Rightarrow> 'd chrono" where
  "cancel_timer e tid st = (case um_find tid (cr_timers st) of None \<Rightarrow> st | Some _ \<Rightarrow> remove_timer e tid st)"

definition restart :: "'d clock \<Rightarrow> int \<Rightarrow> 'd chrono \<Rightarrow> (chrono_error, 'd chrono) result" where
  "restart ck tid st =
     (case um_find tid (cr_timers st) of
        None \<Rightarrow> Inl Out_of_range
      | Some t \<Rightarrow>
          let st = abort_waits tid t st
          in Inr (st\<lparr>cr_timers := um_insert tid (t\<lparr>tm_waits := 1, tm_delay := ck_usec ck (tm_interval t)\<rparr>) (cr_timers st)\<rparr>))"

definition on_timer :: "'d clock \<Rightarrow> io \<Rightarrow> bool \<Rightarrow> int \<Rightarrow> 'd chrono \<Rightarrow> 'd chrono" where
  "on_timer ck e aborted tid st =
     (if aborted then st
      else case um_find tid (cr_timers st) of
             None \<Rightarrow> st
           | Some t \<Rightarrow>
               let st = (if io_write_ok e then send (tm_stream t) (Tick tid) st else remove_timer e tid st);
                   found = (um_find tid (cr_timers st) \<noteq> None)
               in if ck_is_zero ck (tm_interval t) \<and> found then remove_timer e tid st
                  else if \<not> ck_is_zero ck (tm_interval t) \<and> found
                  then (case restart ck tid st of Inl _ \<Rightarrow> st | Inr st' \<Rightarrow> st')
                  else st)"

section \<open>Steps\<close>

datatype 'd chrono_event =
    Notify_after 'd bool
  | Notify_every 'd bool
  | Cancel int
  | Restart int
  | Expire int
  | Run_handler

definition expire :: "int \<Rightarrow> 'd chrono \<Rightarrow> 'd chrono option" where
  "expire tid st =
     (case um_find tid (cr_timers st) of
        None \<Rightarrow> None
      | Some t \<Rightarrow>
          if tm_waits t = 0 then None
          else Some (st\<lparr>cr_timers := um_insert tid (t\<lparr>tm_waits := 0\<rparr>) (cr_timers st),
                        cr_ready := cr_ready st @ replicate (tm_waits t) (False, tid)\<rparr>))"

fun chrono_step :: "'d clock \<Rightarrow> io \<Rightarrow> (nat \<Rightarrow> int) \<Rightarrow> 'd chrono_event \<Rightarrow> 'd chrono \<Rightarrow> 'd chrono option" where
  "chrono_step ck e rnd (Notify_after d b) st = map_option snd (notify_after ck e rnd d b st)"
| "chrono_step ck e rnd (Notify_every d b) st = map_option snd (notify_every ck e rnd d b st)"
| "chrono_step ck e rnd (Cancel tid) st = Some (cancel_timer e tid st)"
| "chrono_step ck e rnd (Restart tid) st = Some (case restart ck tid st of Inl _ \<Rightarrow> st | Inr st' \<Rightarrow> st')"
| "chrono_step ck e rnd (Expire tid) st = expire tid st"
| "chrono_step ck e rnd Run_handler st =
     (case cr_ready st of
        [] \<Rightarrow> None
      | (aborted, tid) # rest \<Rightarrow> Some (on_timer ck e aborted tid (st\<lparr>cr_ready := rest\<rparr>)))"

definition new_chrono :: "'d chrono" where
  "new_chrono = \<lparr>cr_timers = [], cr_ready = [], cr_intervals = [], cr_log = [], cr_draws = 0\<rparr>"

inductive chrono_reachable :: "'d clock \<Rightarrow> (nat \<Rightarrow> int) \<Rightarrow> 'd chrono \<Rightarrow> bool" for ck rnd where
  chrono_init: "chrono_reachable ck rnd new_chrono"
| chrono_next: "chrono_reachable ck rnd st \<Longrightarrow> chrono_step ck e rnd ev st = Some st' \<Longrightarrow> chrono_reachable ck rnd st'"

section \<open>Fresh numbers\<close>

section \<open>Fresh numbers\<close>

declare draw_id.simps [code]

lemma draw_id_fresh:
  assumes "draw_id rnd used n = Some (tid, m)"
  shows "tid \<notin> set used"
proof -
  have "fst (tid, m) \<notin> set used"
    by (rule draw_id.raw_induct [of "\<lambda>rnd used n y. fst y \<notin> set used", OF _ assms])
      (auto split: if_splits)
  then show ?thesis by simp
qed

lemma draw_id_terminates: "rnd (n + k) \<notin> set used \<Longrightarrow> \<exists>r. draw_id rnd used n = Some r"
proof (induction k arbitrary: n)
  case 0
  then show ?case by (subst draw_id.simps) simp
next
  case (Suc k)
  then show ?case by (subst draw_id.simps) (auto simp del: draw_id.simps dest!: Suc.IH [of "Suc n"])
qed

section \<open>The invariant\<close>

text \<open>What was written to stream \<open>s\<close>.\<close>

definition stream :: "nat \<Rightarrow> (nat \<times> stream_event) list \<Rightarrow> stream_event list" where
  "stream s log = map snd (filter (\<lambda>x. fst x = s) log)"

lemma stream_snoc [simp]: "stream s (log @ [(s', x)]) = (if s = s' then stream s log @ [x] else stream s log)"
  by (simp add: stream_def)

lemma stream_Nil [simp]: "stream s [] = []"
  by (simp add: stream_def)

definition is_tick :: "stream_event \<Rightarrow> bool" where
  "is_tick x = (case x of Tick _ \<Rightarrow> True | _ \<Rightarrow> False)"

definition ticks :: "stream_event list \<Rightarrow> nat" where
  "ticks xs = length (filter is_tick xs)"

lemma ticks_simps [simp]: "ticks [] = 0" "ticks (xs @ [Tick i]) = Suc (ticks xs)" "ticks (xs @ [Sent_id i]) = ticks xs"
  "ticks (xs @ [Closed_stream]) = ticks xs"
  by (simp_all add: ticks_def is_tick_def)

text \<open>
  The stream of a timer that is set is not closed, and, unless the timer is
  periodic or in \<open>X\<close>, has no tick.
\<close>

definition live_ok :: "'d clock \<Rightarrow> int set \<Rightarrow> 'd chrono \<Rightarrow> int \<Rightarrow> 'd timer \<Rightarrow> bool" where
  "live_ok ck X st tid t \<longleftrightarrow>
     tm_stream t < length (cr_intervals st) \<and> cr_intervals st ! tm_stream t = tm_interval t \<and>
     Closed_stream \<notin> set (stream (tm_stream t) (cr_log st)) \<and>
     (tid \<notin> X \<longrightarrow> ck_is_zero ck (tm_interval t) \<longrightarrow> ticks (stream (tm_stream t) (cr_log st)) = 0)"

text \<open>Any stream: closed at most once and last, with at most one tick if the timer is not periodic.\<close>

definition stream_ok :: "bool \<Rightarrow> stream_event list \<Rightarrow> bool" where
  "stream_ok one_shot xs \<longleftrightarrow> Closed_stream \<notin> set (butlast xs) \<and> (one_shot \<longrightarrow> ticks xs \<le> 1)"

definition chrono_ok :: "'d clock \<Rightarrow> int set \<Rightarrow> 'd chrono \<Rightarrow> bool" where
  "chrono_ok ck X st \<longleftrightarrow>
     distinct (um_keys (cr_timers st)) \<and>
     (\<forall>i t. um_find i (cr_timers st) = Some t \<longrightarrow> live_ok ck X st i t) \<and>
     (\<forall>i t j u. um_find i (cr_timers st) = Some t \<longrightarrow> um_find j (cr_timers st) = Some u \<longrightarrow>
        tm_stream t = tm_stream u \<longrightarrow> i = j) \<and>
     (\<forall>s. stream_ok (s < length (cr_intervals st) \<and> ck_is_zero ck (cr_intervals st ! s)) (stream s (cr_log st))) \<and>
     (\<forall>s \<ge> length (cr_intervals st). stream s (cr_log st) = [])"

text \<open>Every timer outside \<open>X\<close> has a wait that is pending or has completed and will be handled.\<close>

definition awake :: "int set \<Rightarrow> 'd chrono \<Rightarrow> bool" where
  "awake X st \<longleftrightarrow>
     (\<forall>(tid, t) \<in> set (cr_timers st). tid \<notin> X \<longrightarrow> 0 < tm_waits t \<or> (False, tid) \<in> set (cr_ready st))"

lemma chrono_ok_ready [simp]: "chrono_ok ck X (st\<lparr>cr_ready := r\<rparr>) = chrono_ok ck X st"
  by (simp add: chrono_ok_def live_ok_def)

lemma chrono_live: "chrono_ok ck X st \<Longrightarrow> um_find i (cr_timers st) = Some t \<Longrightarrow> live_ok ck X st i t"
  by (auto simp: chrono_ok_def)

lemma chrono_inj:
  "chrono_ok ck X st \<Longrightarrow> um_find i (cr_timers st) = Some t \<Longrightarrow> um_find j (cr_timers st) = Some u \<Longrightarrow>
   tm_stream t = tm_stream u \<Longrightarrow> i = j"
  unfolding chrono_ok_def by meson

lemma chrono_okI:
  assumes "chrono_ok ck X st" and "\<And>i t. um_find i (cr_timers st) = Some t \<Longrightarrow> live_ok ck Y st i t"
  shows "chrono_ok ck Y st"
  using assms by (auto simp: chrono_ok_def)

lemma send_ok:
  assumes "chrono_ok ck {} st" and "um_find tid (cr_timers st) = Some t" and "x \<noteq> Closed_stream"
    and "is_tick x \<longrightarrow> X = {tid}"
  shows "chrono_ok ck X (send (tm_stream t) x st)"
proof -
  have t: "live_ok ck {} st tid t" using assms(1,2) by (auto simp: chrono_ok_def)
  have tick: "ticks (xs @ [x]) = ticks xs + (if is_tick x then 1 else 0)" for xs
    by (simp add: ticks_def)
  have "live_ok ck X (send (tm_stream t) x st) i u" if u: "um_find i (cr_timers st) = Some u" for i u
  proof (cases "tm_stream u = tm_stream t")
    case True
    then have "i = tid" "u = t" using assms(1,2) u by (force simp: chrono_ok_def)+
    then show ?thesis using t assms(3,4) tick by (auto simp: live_ok_def send_def)
  next
    case False
    moreover have "live_ok ck {} st i u" using assms(1) u by (auto simp: chrono_ok_def)
    ultimately show ?thesis by (auto simp: live_ok_def send_def)
  qed
  moreover have "stream_ok (s < length (cr_intervals st) \<and> ck_is_zero ck (cr_intervals st ! s))
      (stream s (cr_log st @ [(tm_stream t, x)]))" for s
  proof -
    have "stream_ok (s < length (cr_intervals st) \<and> ck_is_zero ck (cr_intervals st ! s)) (stream s (cr_log st))"
      using assms(1) by (simp add: chrono_ok_def)
    then show ?thesis using t tick by (auto simp: stream_ok_def live_ok_def butlast_append)
  qed
  ultimately show ?thesis using assms(1) t by (auto simp: chrono_ok_def send_def live_ok_def)
qed

lemma um_erase_find: "um_find i (um_erase tid m) = Some t \<longleftrightarrow> i \<noteq> tid \<and> um_find i m = Some t"
  by auto

lemma remove_ok:
  assumes "chrono_ok ck {tid} st"
  shows "chrono_ok ck {} (remove_timer e tid st)"
proof (cases "um_find tid (cr_timers st)")
  case None
  then have "live_ok ck {} st i u" if "um_find i (cr_timers st) = Some u" for i u
    using that chrono_live [OF assms that] by (cases "i = tid") (auto simp: live_ok_def)
  then show ?thesis using assms None by (auto simp: remove_timer_def chrono_ok_def)
next
  case (Some t)
  let ?log = "if io_close_ok e then cr_log st @ [(tm_stream t, Closed_stream)] else cr_log st"
  have st': "remove_timer e tid st =
      st\<lparr>cr_timers := um_erase tid (cr_timers st), cr_log := ?log, cr_ready := cr_ready st @ replicate (tm_waits t) (True, tid)\<rparr>"
    using Some by (simp add: remove_timer_def send_def abort_waits_def Let_def)
  have t: "live_ok ck {tid} st tid t" using assms Some by (auto simp: chrono_ok_def)
  have "live_ok ck {} (remove_timer e tid st) i u" if u: "um_find i (cr_timers st) = Some u" "i \<noteq> tid" for i u
  proof -
    have "tm_stream u \<noteq> tm_stream t" using assms Some u by (auto simp: chrono_ok_def)
    moreover have "live_ok ck {tid} st i u" using assms u by (auto simp: chrono_ok_def)
    ultimately show ?thesis using u(2) by (auto simp: live_ok_def st')
  qed
  moreover have "stream_ok (s < length (cr_intervals st) \<and> ck_is_zero ck (cr_intervals st ! s)) (stream s ?log)" for s
  proof -
    have "stream_ok (s < length (cr_intervals st) \<and> ck_is_zero ck (cr_intervals st ! s)) (stream s (cr_log st))"
      using assms by (simp add: chrono_ok_def)
    then show ?thesis using t by (auto simp: stream_ok_def live_ok_def butlast_append)
  qed
  moreover have "stream s ?log = []" if "length (cr_intervals st) \<le> s" for s
    using that assms t by (auto simp: chrono_ok_def live_ok_def)
  ultimately show ?thesis using assms by (auto simp: chrono_ok_def st')
qed

lemma chrono_ok_weaken: "chrono_ok ck {} st \<Longrightarrow> chrono_ok ck X st"
  by (auto simp: chrono_ok_def live_ok_def)

lemma update_ok:
  assumes "chrono_ok ck X st" and "um_find tid (cr_timers st) = Some t"
    and "tm_stream u = tm_stream t" and "tm_interval u = tm_interval t"
  shows "chrono_ok ck X (st\<lparr>cr_timers := um_insert tid u (cr_timers st)\<rparr>)"
  using assms by (auto simp: chrono_ok_def live_ok_def)

lemma restart_ok: "chrono_ok ck X st \<Longrightarrow> restart ck tid st = Inr st' \<Longrightarrow> chrono_ok ck X st'"
  using update_ok [of ck X "abort_waits tid t st" tid t for t]
  by (auto simp: restart_def abort_waits_def Let_def split: option.splits)

lemma periodic_ok:
  assumes "chrono_ok ck {tid} st" and "um_find tid (cr_timers st) = Some t" and "\<not> ck_is_zero ck (tm_interval t)"
  shows "chrono_ok ck {} st"
proof (rule chrono_okI [OF assms(1)])
  fix i u assume u: "um_find i (cr_timers st) = Some u"
  show "live_ok ck {} st i u"
    using chrono_live [OF assms(1) u] assms(2,3) u by (cases "i = tid") (auto simp: live_ok_def)
qed

lemma new_timer_ok:
  assumes "chrono_ok ck {} st" and "tid \<notin> set (um_keys (cr_timers st))"
    and "tm_stream t = length (cr_intervals st)" and "tm_interval t = repeat"
  shows "chrono_ok ck {} (st\<lparr>cr_timers := um_insert tid t (cr_timers st), cr_intervals := cr_intervals st @ [repeat],
    cr_draws := n\<rparr>)"
proof -
  let ?st = "st\<lparr>cr_timers := um_insert tid t (cr_timers st), cr_intervals := cr_intervals st @ [repeat], cr_draws := n\<rparr>"
  have new: "stream (length (cr_intervals st)) (cr_log st) = []" using assms(1) by (simp add: chrono_ok_def)
  have old: "tm_stream u < length (cr_intervals st)" if "um_find i (cr_timers st) = Some u" for i u
    using chrono_live [OF assms(1) that] by (simp add: live_ok_def)
  have live: "live_ok ck {} ?st i u" if "um_find i (um_insert tid t (cr_timers st)) = Some u" for i u
  proof (cases "i = tid")
    case True
    then show ?thesis using that assms(3,4) new by (auto simp: live_ok_def)
  next
    case False
    then have "live_ok ck {} st i u" using that chrono_live [OF assms(1)] by simp
    then show ?thesis by (auto simp: live_ok_def nth_append)
  qed
  have inj: "i = j"
    if "um_find i (um_insert tid t (cr_timers st)) = Some u" "um_find j (um_insert tid t (cr_timers st)) = Some v"
      "tm_stream u = tm_stream v" for i j u v
    using that assms(3) old [of i u] old [of j v] chrono_inj [OF assms(1), of i u j v] by (auto split: if_splits)
  have streams: "stream_ok (s < length (cr_intervals ?st) \<and> ck_is_zero ck (cr_intervals ?st ! s)) (stream s (cr_log st))" for s
  proof (cases "s = length (cr_intervals st)")
    case True
    then show ?thesis using new by (simp add: stream_ok_def)
  next
    case False
    then have "s < length (cr_intervals ?st) \<longleftrightarrow> s < length (cr_intervals st)" by auto
    then show ?thesis using assms(1) by (auto simp: chrono_ok_def nth_append cong: conj_cong)
  qed
  have rest: "distinct (um_keys (cr_timers st))" "\<forall>s \<ge> length (cr_intervals st). stream s (cr_log st) = []"
    using assms(1) by (simp_all add: chrono_ok_def)
  show ?thesis
    unfolding chrono_ok_def
  proof (intro conjI allI impI)
    show "live_ok ck {} ?st i u" if "um_find i (cr_timers ?st) = Some u" for i u
      by (rule live) (use that in \<open>simp del: um_find_insert\<close>)
    show "i = j" if "um_find i (cr_timers ?st) = Some u" "um_find j (cr_timers ?st) = Some v" "tm_stream u = tm_stream v"
      for i j u v by (rule inj [of i u j v]) (use that in \<open>simp_all del: um_find_insert\<close>)
    show "stream_ok (s < length (cr_intervals ?st) \<and> ck_is_zero ck (cr_intervals ?st ! s)) (stream s (cr_log ?st))" for s
      using streams [of s] by simp
  qed (use rest in simp_all)
qed

lemma set_timer_ok:
  assumes "chrono_ok ck {} st" and "set_timer_impl ck e rnd first repeat send_id st = Some (r, st')"
  shows "chrono_ok ck {} st'"
proof -
  obtain tid n where draw: "draw_id rnd (um_keys (cr_timers st)) (cr_draws st) = Some (tid, n)"
    using assms(2) by (auto simp: set_timer_impl_def)
  let ?t = "\<lparr>tm_interval = repeat, tm_stream = length (cr_intervals st), tm_waits = 1, tm_delay = ck_usec ck first\<rparr>"
  let ?st = "st\<lparr>cr_timers := um_insert tid ?t (cr_timers st), cr_intervals := cr_intervals st @ [repeat], cr_draws := n\<rparr>"
  have ok: "chrono_ok ck {} ?st" by (rule new_timer_ok [OF assms(1) draw_id_fresh [OF draw]]) simp_all
  then have "chrono_ok ck {} (send (tm_stream ?t) (Sent_id tid) ?st)"
    by (rule send_ok [where tid = tid]) (simp_all add: is_tick_def)
  moreover have "chrono_ok ck {} (remove_timer e tid ?st)"
    by (rule remove_ok [OF chrono_ok_weaken [OF ok]])
  ultimately show ?thesis using assms(2) draw ok by (auto simp: set_timer_impl_def Let_def split: if_splits)
qed

lemma on_timer_ok:
  assumes "chrono_ok ck {} st"
  shows "chrono_ok ck {} (on_timer ck e aborted tid st)"
proof (cases "aborted \<or> um_find tid (cr_timers st) = None")
  case True
  then show ?thesis using assms by (auto simp: on_timer_def)
next
  case False
  then obtain t where t: "um_find tid (cr_timers st) = Some t" and live: "\<not> aborted" by auto
  show ?thesis
  proof (cases "io_write_ok e")
    case False
    then have "um_find tid (cr_timers (remove_timer e tid st)) = None"
      using t by (simp add: remove_timer_def abort_waits_def send_def Let_def)
    then show ?thesis
      using t live False remove_ok [OF chrono_ok_weaken [OF assms]] by (simp add: on_timer_def Let_def)
  next
    case True
    let ?st = "send (tm_stream t) (Tick tid) st"
    have ok: "chrono_ok ck {tid} ?st" by (rule send_ok [OF assms t]) simp_all
    have t': "um_find tid (cr_timers ?st) = Some t" using t by (simp add: send_def)
    have "chrono_ok ck {} st'" if "\<not> ck_is_zero ck (tm_interval t)" "restart ck tid ?st = Inr st'" for st'
      using restart_ok [OF periodic_ok [OF ok t' that(1)] that(2)] .
    moreover have "chrono_ok ck {} ?st" if "\<not> ck_is_zero ck (tm_interval t)"
      by (rule periodic_ok [OF ok t' that])
    ultimately show ?thesis
      using t t' live True remove_ok [OF ok] by (auto simp: on_timer_def Let_def split: sum.splits)
  qed
qed

lemma chrono_step_ok:
  assumes "chrono_ok ck {} st" and "chrono_step ck e rnd ev st = Some st'"
  shows "chrono_ok ck {} st'"
proof (cases ev)
  case (Notify_after d b)
  then show ?thesis using assms set_timer_ok by (auto simp: notify_after_def)
next
  case (Notify_every d b)
  then show ?thesis using assms set_timer_ok by (auto simp: notify_every_def)
next
  case (Cancel tid)
  then show ?thesis using assms remove_ok [OF chrono_ok_weaken [OF assms(1)]]
    by (auto simp: cancel_timer_def split: option.splits)
next
  case (Restart tid)
  then show ?thesis using assms restart_ok [OF assms(1)] by (auto split: sum.splits)
next
  case (Expire tid)
  then obtain t where t: "um_find tid (cr_timers st) = Some t"
    "st' = st\<lparr>cr_timers := um_insert tid (t\<lparr>tm_waits := 0\<rparr>) (cr_timers st),
       cr_ready := cr_ready st @ replicate (tm_waits t) (False, tid)\<rparr>"
    using assms(2) by (auto simp: expire_def split: option.splits if_splits)
  have "chrono_ok ck {} (st\<lparr>cr_timers := um_insert tid (t\<lparr>tm_waits := 0\<rparr>) (cr_timers st)\<rparr>)"
    by (rule update_ok [OF assms(1) t(1)]) simp_all
  then show ?thesis unfolding t(2) by (simp only: chrono_ok_ready)
next
  case Run_handler
  then obtain b tid rest where "st' = on_timer ck e b tid (st\<lparr>cr_ready := rest\<rparr>)"
    using assms(2) by (auto split: list.splits)
  then show ?thesis using assms(1) by (simp add: on_timer_ok)
qed

lemma reachable_chrono_ok: "chrono_reachable ck rnd st \<Longrightarrow> chrono_ok ck {} st"
proof (induction rule: chrono_reachable.induct)
  case chrono_init
  then show ?case by (simp add: chrono_ok_def new_chrono_def um_keys_def stream_ok_def)
next
  case (chrono_next st e ev st')
  then show ?case using chrono_step_ok by blast
qed

section \<open>No timer is forgotten\<close>

lemma find_None_notin: "um_find k m = None \<Longrightarrow> (k, v) \<notin> set m"
  by (force simp: um_find_None_iff um_keys_def)

lemma awake_send [simp]: "awake X (send s x st) = awake X st"
  by (simp add: awake_def send_def)

lemma awake_remove: "awake {tid} st \<Longrightarrow> awake {} (remove_timer e tid st)"
proof (cases "um_find tid (cr_timers st)")
  case None
  assume "awake {tid} st"
  then show ?thesis using None find_None_notin [OF None] by (force simp: awake_def remove_timer_def)
qed (auto simp: awake_def remove_timer_def abort_waits_def send_def Let_def set_um_erase)

lemma awake_insert:
  assumes "distinct (um_keys (cr_timers st))" and "awake {tid} st" and "set (cr_ready st) \<subseteq> set (cr_ready st')"
    and "cr_timers st' = um_insert tid t (cr_timers st)" and "0 < tm_waits t \<or> (False, tid) \<in> set (cr_ready st')"
  shows "awake {} st'"
  using assms by (fastforce simp: awake_def set_um_insert)

lemma awake_restart:
  assumes "distinct (um_keys (cr_timers st))" and "awake {tid} st" and "restart ck tid st = Inr st'"
  shows "awake {} st'"
proof -
  obtain t where "cr_timers st' = um_insert tid (t\<lparr>tm_waits := 1, tm_delay := ck_usec ck (tm_interval t)\<rparr>) (cr_timers st)"
    "set (cr_ready st) \<subseteq> set (cr_ready st')"
    using assms(3) by (auto simp: restart_def abort_waits_def Let_def split: option.splits)
  then show ?thesis using awake_insert [OF assms(1,2)] by simp
qed

lemma awake_weaken: "awake {} st \<Longrightarrow> awake X st"
  by (auto simp: awake_def)

lemma on_timer_awake:
  assumes "distinct (um_keys (cr_timers st))" and "awake {tid} st" and "aborted \<Longrightarrow> awake {} st"
  shows "awake {} (on_timer ck e aborted tid st)"
proof (cases "aborted \<or> um_find tid (cr_timers st) = None")
  case True
  then show ?thesis using assms find_None_notin [of tid "cr_timers st"]
    by (cases aborted) (force simp: on_timer_def awake_def)+
next
  case False
  then obtain t where t: "um_find tid (cr_timers st) = Some t" and live: "\<not> aborted" by auto
  let ?st = "send (tm_stream t) (Tick tid) st"
  have gone: "um_find tid (cr_timers (remove_timer e tid st)) = None"
    using t by (simp add: remove_timer_def abort_waits_def send_def Let_def)
  have there: "um_find tid (cr_timers ?st) = Some t" "is_ok (restart ck tid ?st)"
    using t by (simp_all add: send_def restart_def Let_def)
  have dist: "distinct (um_keys (cr_timers ?st))" using assms(1) by (simp add: send_def)
  have wake: "awake {tid} ?st" using assms(2) by simp
  note st' = awake_restart [OF dist wake] awake_remove [OF wake]
  show ?thesis
    using t live gone there st' awake_remove [OF assms(2), of e]
    by (cases "restart ck tid ?st") (auto simp: on_timer_def Let_def)
qed

lemma set_timer_awake:
  assumes "distinct (um_keys (cr_timers st))" and "awake {} st"
    and "set_timer_impl ck e rnd first repeat send_id st = Some (r, st')"
  shows "awake {} st'"
proof -
  obtain tid n where draw: "draw_id rnd (um_keys (cr_timers st)) (cr_draws st) = Some (tid, n)"
    using assms(3) by (auto simp: set_timer_impl_def)
  let ?t = "\<lparr>tm_interval = repeat, tm_stream = length (cr_intervals st), tm_waits = 1, tm_delay = ck_usec ck first\<rparr>"
  let ?st = "st\<lparr>cr_timers := um_insert tid ?t (cr_timers st), cr_intervals := cr_intervals st @ [repeat], cr_draws := n\<rparr>"
  have ok: "awake {} ?st" using assms(1,2) by (auto simp: awake_def set_um_insert)
  then have "awake {} (remove_timer e tid ?st)" using awake_remove awake_weaken by blast
  then show ?thesis using assms(3) draw ok by (auto simp: set_timer_impl_def Let_def split: if_splits)
qed

lemma chrono_step_awake:
  assumes "distinct (um_keys (cr_timers st))" and "awake {} st" and "chrono_step ck e rnd ev st = Some st'"
  shows "awake {} st'"
proof (cases ev)
  case (Notify_after d b)
  then show ?thesis using assms set_timer_awake by (auto simp: notify_after_def)
next
  case (Notify_every d b)
  then show ?thesis using assms set_timer_awake by (auto simp: notify_every_def)
next
  case (Cancel tid)
  then show ?thesis using assms awake_remove [OF awake_weaken [OF assms(2)]]
    by (auto simp: cancel_timer_def split: option.splits)
next
  case (Restart tid)
  then show ?thesis using assms awake_restart [OF assms(1) awake_weaken [OF assms(2)]] by (auto split: sum.splits)
next
  case (Expire tid)
  then obtain t where "0 < tm_waits t"
    "st' = st\<lparr>cr_timers := um_insert tid (t\<lparr>tm_waits := 0\<rparr>) (cr_timers st),
       cr_ready := cr_ready st @ replicate (tm_waits t) (False, tid)\<rparr>"
    using assms(3) by (auto simp: expire_def split: option.splits if_splits)
  then show ?thesis using awake_insert [OF assms(1) awake_weaken [OF assms(2)], of st' tid "t\<lparr>tm_waits := 0\<rparr>"] by auto
next
  case Run_handler
  then obtain b tid rest where r: "cr_ready st = (b, tid) # rest" "st' = on_timer ck e b tid (st\<lparr>cr_ready := rest\<rparr>)"
    using assms(3) by (auto split: list.splits)
  show ?thesis unfolding r(2)
  proof (rule on_timer_awake)
    show "awake {tid} (st\<lparr>cr_ready := rest\<rparr>)" using assms(2) r(1) by (auto simp: awake_def)
    show "awake {} (st\<lparr>cr_ready := rest\<rparr>)" if b using assms(2) r(1) that by (auto simp: awake_def)
  qed (use assms(1) in simp)
qed

lemma reachable_awake: "chrono_reachable ck rnd st \<Longrightarrow> awake {} st"
proof (induction rule: chrono_reachable.induct)
  case chrono_init
  then show ?case by (simp add: awake_def new_chrono_def)
next
  case (chrono_next st e ev st')
  have "distinct (um_keys (cr_timers st))" using reachable_chrono_ok [OF chrono_next(1)] by (simp add: chrono_ok_def)
  then show ?case using chrono_step_awake chrono_next by blast
qed

section \<open>Properties\<close>

text \<open>
  C22: over every interleaving of requests, expiries and handlers,
  including handlers that run after their timer was cancelled, restarted or its
  number reused: a stream is closed at most once and nothing is written after it;
  a timer set with \<^verbatim>\<open>notify_after\<close> ticks at most once; and the stream of a timer that
  is still set is open and, for \<^verbatim>\<open>notify_after\<close>, has not ticked.
\<close>

theorem chrono_streams:
  assumes "chrono_reachable ck rnd st"
  shows "Closed_stream \<notin> set (butlast (stream s (cr_log st))) \<and>
    (s < length (cr_intervals st) \<and> ck_is_zero ck (cr_intervals st ! s) \<longrightarrow> ticks (stream s (cr_log st)) \<le> 1) \<and>
    (\<forall>tid t. um_find tid (cr_timers st) = Some t \<and> tm_stream t = s \<longrightarrow>
       Closed_stream \<notin> set (stream s (cr_log st)) \<and>
       (ck_is_zero ck (tm_interval t) \<longrightarrow> ticks (stream s (cr_log st)) = 0))"
proof -
  have ok: "chrono_ok ck {} st" by (rule reachable_chrono_ok [OF assms])
  then have "stream_ok (s < length (cr_intervals st) \<and> ck_is_zero ck (cr_intervals st ! s)) (stream s (cr_log st))"
    by (simp add: chrono_ok_def)
  then show ?thesis using chrono_live [OF ok] by (auto simp: stream_ok_def live_ok_def)
qed

text \<open>
  No timer is forgotten. A timer that is set has a wait that is
  pending or a completed handler in the loop; and when that handler runs, a timer
  set with \<^verbatim>\<open>notify_every\<close> is set again with its interval, and one set with
  \<^verbatim>\<open>notify_after\<close> is removed. Setting a timer returns whenever the random numbers
  eventually give one that is not in use.
\<close>

theorem chrono_progress:
  assumes "chrono_reachable ck rnd st" and "um_find tid (cr_timers st) = Some t" and "io_write_ok e"
  shows "(0 < tm_waits t \<or> (False, tid) \<in> set (cr_ready st)) \<and>
    um_find tid (cr_timers (on_timer ck e False tid st)) =
      (if ck_is_zero ck (tm_interval t) then None
       else Some (t\<lparr>tm_waits := 1, tm_delay := ck_usec ck (tm_interval t)\<rparr>)) \<and>
    (rnd (cr_draws st + k) \<notin> set (um_keys (cr_timers st)) \<longrightarrow>
       (\<exists>r. set_timer_impl ck e rnd d d' b st = Some r))"
proof (intro conjI impI)
  show "0 < tm_waits t \<or> (False, tid) \<in> set (cr_ready st)"
    using reachable_awake [OF assms(1)] um_find_SomeD [OF assms(2)] by (auto simp: awake_def)
  show "um_find tid (cr_timers (on_timer ck e False tid st)) =
      (if ck_is_zero ck (tm_interval t) then None
       else Some (t\<lparr>tm_waits := 1, tm_delay := ck_usec ck (tm_interval t)\<rparr>))"
    using assms(2,3)
    by (simp add: on_timer_def Let_def send_def remove_timer_def abort_waits_def restart_def)
  assume "rnd (cr_draws st + k) \<notin> set (um_keys (cr_timers st))"
  then obtain r where "draw_id rnd (um_keys (cr_timers st)) (cr_draws st) = Some r"
    using draw_id_terminates by blast
  then show "\<exists>r. set_timer_impl ck e rnd d d' b st = Some r" by (simp add: set_timer_impl_def)
qed

section \<open>A concrete service\<close>

definition int_clock :: "int clock" where
  "int_clock = \<lparr>ck_zero = 0, ck_is_zero = (\<lambda>d. d = 0), ck_usec = (\<lambda>d. d * 1000000)\<rparr>"

definition good_io :: io where
  "good_io = \<lparr>io_write_ok = True, io_close_ok = True\<rparr>"

fun chrono_run :: "int chrono_event list \<Rightarrow> int chrono \<Rightarrow> int chrono option" where
  "chrono_run [] st = Some st"
| "chrono_run (ev # evs) st = (case chrono_step int_clock good_io int ev st of None \<Rightarrow> None | Some st' \<Rightarrow> chrono_run evs st')"

lemma chrono_run_reachable:
  "chrono_reachable int_clock int st \<Longrightarrow> chrono_run evs st = Some st' \<Longrightarrow> chrono_reachable int_clock int st'"
  by (induction evs arbitrary: st) (auto split: option.splits intro: chrono_next)

text \<open>One timer of each kind; both expire and the handler of the first runs.\<close>

definition sample_requests :: "int chrono_event list" where
  "sample_requests = [Notify_after 5 True, Notify_every 2 False, Expire 0, Expire 1, Run_handler]"

definition sample_chrono :: "int chrono" where
  "sample_chrono = the (chrono_run sample_requests new_chrono)"

lemma sample_chrono_reachable: "chrono_reachable int_clock int sample_chrono"
proof -
  have "\<not> Option.is_none (chrono_run sample_requests new_chrono)" by code_simp
  then have "chrono_run sample_requests new_chrono = Some sample_chrono"
    by (auto simp: sample_chrono_def Option.is_none_def)
  then show ?thesis by (rule chrono_run_reachable [OF chrono_init])
qed

lemma sample_chrono_values:
  "stream 0 (cr_log sample_chrono) = [Sent_id 0, Tick 0, Closed_stream]"
  "0 < length (cr_intervals sample_chrono)" "ck_is_zero int_clock (cr_intervals sample_chrono ! 0)"
  by code_simp+

theorem chrono_streams_witness:
  "stream 0 (cr_log sample_chrono) = [Sent_id 0, Tick 0, Closed_stream] \<and>
   Closed_stream \<notin> set (butlast (stream 0 (cr_log sample_chrono))) \<and> ticks (stream 0 (cr_log sample_chrono)) \<le> 1"
  using chrono_streams [OF sample_chrono_reachable, of 0] sample_chrono_values by blast

theorem chrono_progress_witness:
  "\<exists>t. um_find 1 (cr_timers sample_chrono) = Some t \<and>
     um_find 1 (cr_timers (on_timer int_clock good_io False 1 sample_chrono)) =
       Some (t\<lparr>tm_waits := 1, tm_delay := 2000000\<rparr>)"
proof -
  have "case um_find 1 (cr_timers sample_chrono) of None \<Rightarrow> False | Some t \<Rightarrow> tm_interval t = 2" by code_simp
  then obtain t where t: "um_find 1 (cr_timers sample_chrono) = Some t" "tm_interval t = 2"
    by (auto split: option.splits)
  have "io_write_ok good_io" by (simp add: good_io_def)
  with chrono_progress [OF sample_chrono_reachable t(1)] t show ?thesis by (simp add: int_clock_def)
qed

end
