(* ===== verification/Unicorn_Auth.thy ===== *)
theory Unicorn_Auth
  imports Dynamic Slave_Channel
begin

text \<open>
  Authorization of the unicorn service
  (\<^verbatim>\<open>src/unicorn/src/authorization/unicorn.cpp\<close>): the access list of a prefix is a
  node of the same tree, looked up for every request; an unowned prefix is taken
  by the first identified client that modifies it.

  A request is a lookup followed, for an unowned prefix, by an upload; the
  answers of the backend are arguments.  Conversions of the core are the record
  \<open>acl_conv\<close>: \<^verbatim>\<open>lexical_cast\<close> of keys, and \<^verbatim>\<open>to<flags_t>\<close> of values.
\<close>

section \<open>Events and flags\<close>

datatype unicorn_event =
    Subscribe
  | Children_subscribe
  | Put
  | Get
  | Create
  | Del
  | Remove
  | Increment
  | Lock
  | Named_lock

abbreviation none_flags :: u64 where "none_flags \<equiv> 0"
abbreviation read_flags :: u64 where "read_flags \<equiv> 1"
abbreviation both_flags :: u64 where "both_flags \<equiv> 3"

text \<open>The flags an event requires; the event without a case is unreachable for the compiler.\<close>

fun operation_from :: "unicorn_event \<Rightarrow> u64 option" where
  "operation_from Create = Some both_flags"
| "operation_from Put = Some both_flags"
| "operation_from Remove = Some both_flags"
| "operation_from Del = Some both_flags"
| "operation_from Increment = Some both_flags"
| "operation_from Lock = Some both_flags"
| "operation_from Get = Some read_flags"
| "operation_from Subscribe = Some read_flags"
| "operation_from Children_subscribe = Some read_flags"
| "operation_from Named_lock = None"

definition is_modify :: "u64 \<Rightarrow> bool" where
  "is_modify flag \<longleftrightarrow> flag AND both_flags = both_flags"

section \<open>Access lists\<close>

record metainfo =
  mi_c_perms :: "(u64, u64) umap"
  mi_u_perms :: "(u64, u64) umap"

definition metainfo_empty :: "metainfo \<Rightarrow> bool" where
  "metainfo_empty m \<longleftrightarrow> mi_c_perms m = [] \<and> mi_u_perms m = []"

definition no_metainfo :: metainfo where
  "no_metainfo = \<lparr>mi_c_perms = [], mi_u_perms = []\<rparr>"

record 'd acl_conv =
  ac_lexical :: "string \<Rightarrow> u64 option"
  ac_flags :: "'d dynamic \<Rightarrow> (dynamic_error, u64) result"

datatype convert_error = Bad_cast | Bad_value

text \<open>\<^verbatim>\<open>map::insert\<close> keeps the first of two entries with the same key.\<close>

definition insert_new :: "'k \<Rightarrow> 'v \<Rightarrow> ('k, 'v) umap \<Rightarrow> ('k, 'v) umap" where
  "insert_new k v m = (case um_find k m of None \<Rightarrow> um_insert k v m | Some _ \<Rightarrow> m)"

fun convert_perms :: "('d, 'z) acl_conv_scheme \<Rightarrow> (string \<times> 'd dynamic) list \<Rightarrow> (u64, u64) umap \<Rightarrow>
    (convert_error, (u64, u64) umap) result" where
  "convert_perms ac [] m = Inr m"
| "convert_perms ac ((k, v) # xs) m =
     (case ac_lexical ac k of
        None \<Rightarrow> Inl Bad_cast
      | Some i \<Rightarrow> bindE (lift_error (\<lambda>_. Bad_value) (ac_flags ac v)) (\<lambda>f. convert_perms ac xs (insert_new i f m)))"

fun object_perms :: "('d, 'z) acl_conv_scheme \<Rightarrow> 'd dynamic \<Rightarrow> (convert_error, (u64, u64) umap) result" where
  "object_perms ac (D_object m) = convert_perms ac m []"
| "object_perms ac _ = Inl Bad_value"

fun convertible :: "'d dynamic \<Rightarrow> bool" where
  "convertible (D_array xs) \<longleftrightarrow> length xs = 2"
| "convertible _ \<longleftrightarrow> False"

fun to_metainfo :: "('d, 'z) acl_conv_scheme \<Rightarrow> 'd dynamic \<Rightarrow> (convert_error, metainfo) result" where
  "to_metainfo ac (D_array [c, u]) =
     bindE (object_perms ac c) (\<lambda>c. bindE (object_perms ac u) (\<lambda>u. Inr \<lparr>mi_c_perms = c, mi_u_perms = u\<rparr>))"
| "to_metainfo ac _ = Inl Bad_cast"

definition perm_of :: "(u64, u64) umap \<Rightarrow> u64 \<Rightarrow> u64" where
  "perm_of perms i = (case um_find i perms of None \<Rightarrow> none_flags | Some f \<Rightarrow> f)"

definition extract_permissions :: "u64 list \<Rightarrow> (u64, u64) umap \<Rightarrow> u64" where
  "extract_permissions subjects perms =
     (if subjects = [] then none_flags else fold (\<lambda>i acc. acc AND perm_of perms i) subjects both_flags)"

definition allowed :: "u64 \<Rightarrow> u64 list \<Rightarrow> u64 list \<Rightarrow> metainfo \<Rightarrow> bool" where
  "allowed flag cids uids m \<longleftrightarrow>
     (extract_permissions cids (mi_c_perms m) OR extract_permissions uids (mi_u_perms m)) AND flag = flag"

section \<open>Paths\<close>

definition slash :: char where
  "slash = CHR 0x2F"

text \<open>\<^verbatim>\<open>boost::split\<close> at slashes with adjacent separators merged.\<close>

function split_path :: "string \<Rightarrow> string list" where
  "split_path s =
     (let token = takeWhile (\<lambda>c. c \<noteq> slash) s; rest = dropWhile (\<lambda>c. c \<noteq> slash) s
      in if rest = [] then [token] else token # split_path (dropWhile (\<lambda>c. c = slash) rest))"
  by pat_completeness auto

termination
proof (relation "measure length")
  fix s token rest :: string
  assume "rest = dropWhile (\<lambda>c. c \<noteq> slash) s" "rest \<noteq> []"
  then have "hd rest = slash" "rest \<noteq> []" "length rest \<le> length s"
    using hd_dropWhile [of "\<lambda>c. c \<noteq> slash" s] by (auto simp: length_dropWhile_le)
  then have "length (dropWhile (\<lambda>c. c = slash) rest) < length s"
    using length_dropWhile_le [of "\<lambda>c. c = slash" "tl rest"] by (cases rest) auto
  then show "(dropWhile (\<lambda>c. c = slash) rest, s) \<in> measure length" by simp
qed simp

declare split_path.simps [simp del]

definition extract_prefix :: "string \<Rightarrow> string option" where
  "extract_prefix path =
     (let paths = split_path path in if paths = [] \<or> hd paths = [] then None else Some (hd paths))"

definition prefix_acls :: string where
  "prefix_acls = ''/.acls''"

definition make_path :: "string \<Rightarrow> string" where
  "make_path prefix = prefix_acls @ ''/'' @ prefix"

section \<open>Verification of a request\<close>

record 'd versioned =
  vv_exists :: bool
  vv_version :: int
  vv_value :: "'d dynamic"

datatype auth_error =
    Invalid_path
  | Invalid_acl_framing
  | Permissions_changed
  | Permission_denied
  | Backend_error error_code

datatype upload = Create_acl | Update_acl int

datatype decision =
    Answer "auth_error option"
  | Upload upload string metainfo
  | Uncaught
  | Unreachable

definition claim :: "u64 list \<Rightarrow> u64 list \<Rightarrow> metainfo \<Rightarrow> metainfo" where
  "claim cids uids m =
     \<lparr>mi_c_perms = fold (\<lambda>i. insert_new i both_flags) cids (mi_c_perms m),
      mi_u_perms = fold (\<lambda>i. insert_new i both_flags) uids (mi_u_perms m)\<rparr>"

definition upload_permissions :: "string \<Rightarrow> metainfo \<Rightarrow> 'd versioned \<Rightarrow> decision" where
  "upload_permissions prefix m v =
     Upload (if vv_exists v then Update_acl (vv_version v) else Create_acl) (make_path prefix) m"

definition lookup_permissions ::
  "('d, 'z) acl_conv_scheme \<Rightarrow> unicorn_event \<Rightarrow> string \<Rightarrow> u64 list \<Rightarrow> u64 list \<Rightarrow> 'd versioned \<Rightarrow> decision" where
  "lookup_permissions ac event prefix cids uids v =
     (if vv_exists v \<and> \<not> convertible (vv_value v) then Answer (Some Invalid_acl_framing)
      else case (if vv_exists v then to_metainfo ac (vv_value v) else Inr no_metainfo) of
             Inl _ \<Rightarrow> Uncaught
           | Inr m \<Rightarrow>
               (case operation_from event of
                  None \<Rightarrow> Unreachable
                | Some flag \<Rightarrow>
                    if metainfo_empty m
                    then if is_modify flag \<and> (cids \<noteq> [] \<or> uids \<noteq> [])
                         then upload_permissions prefix (claim cids uids m) v
                         else Answer None
                    else if allowed flag cids uids m then Answer None
                    else Answer (Some Permission_denied)))"

definition on_lookup ::
  "('d, 'z) acl_conv_scheme \<Rightarrow> unicorn_event \<Rightarrow> string \<Rightarrow> u64 list \<Rightarrow> u64 list \<Rightarrow>
   (error_code, 'd versioned) result \<Rightarrow> decision" where
  "on_lookup ac event prefix cids uids r =
     (case r of
        Inl ec \<Rightarrow> Answer (Some (Backend_error ec))
      | Inr v \<Rightarrow> lookup_permissions ac event prefix cids uids v)"

text \<open>The answer of the backend to \<^verbatim>\<open>create\<close> or \<^verbatim>\<open>put\<close>: whether the node was written.\<close>

definition on_upload :: "(error_code, bool) result \<Rightarrow> auth_error option" where
  "on_upload r = (case r of
     Inl ec \<Rightarrow> Some (Backend_error ec) | Inr True \<Rightarrow> None | Inr False \<Rightarrow> Some Permissions_changed)"

definition verify ::
  "('d, 'z) acl_conv_scheme \<Rightarrow> unicorn_event \<Rightarrow> string \<Rightarrow> u64 list \<Rightarrow> u64 list \<Rightarrow>
   (string \<Rightarrow> (error_code, 'd versioned) result) \<Rightarrow> decision" where
  "verify ac event path cids uids lookup =
     (if path = [] \<or> hd path \<noteq> slash then Answer (Some Invalid_path)
      else case extract_prefix (tl path) of
             None \<Rightarrow> Answer (Some Invalid_path)
           | Some prefix \<Rightarrow> on_lookup ac event prefix cids uids (lookup (make_path prefix)))"

section \<open>Paths: lemmas\<close>

lemma hd_split_path [simp]: "hd (split_path s) = takeWhile (\<lambda>c. c \<noteq> slash) s"
  by (subst split_path.simps) (simp add: Let_def)

lemma split_path_nonempty [simp]: "split_path s \<noteq> []"
  by (subst split_path.simps) (simp add: Let_def)

lemma extract_prefix_conv:
  "extract_prefix s = (let t = takeWhile (\<lambda>c. c \<noteq> slash) s in if t = [] then None else Some t)"
  by (simp add: extract_prefix_def Let_def)

text \<open>Nothing of a path but its first component matters, and the empty component is refused.\<close>

lemma extract_prefix_component:
  assumes "slash \<notin> set p" and "p \<noteq> []"
  shows "extract_prefix p = Some p" "extract_prefix (p @ slash # rest) = Some p" "extract_prefix (slash # rest) = None"
proof -
  have "takeWhile (\<lambda>c. c \<noteq> slash) (p @ slash # rest) = p" "takeWhile (\<lambda>c. c \<noteq> slash) p = p"
    using assms(1) by (induction p) auto
  then show "extract_prefix p = Some p" "extract_prefix (p @ slash # rest) = Some p"
    using assms(2) by (simp_all only: extract_prefix_conv Let_def if_False)
  show "extract_prefix (slash # rest) = None" by (simp add: extract_prefix_conv)
qed

section \<open>Permissions: lemmas\<close>

lemma bit_both: "bit both_flags b \<longleftrightarrow> b < 2"
proof -
  have "bit (mask 2 :: u64) b \<longleftrightarrow> b < 2" by (auto simp: bit_mask_iff)
  moreover have "mask 2 = both_flags" by (simp add: mask_eq_exp_minus_1)
  ultimately show ?thesis by metis
qed

lemma bit_read: "bit read_flags b \<longleftrightarrow> b = 0"
  by (simp add: bit_1_iff)

lemma bit_fold_perms:
  "bit (fold (\<lambda>i acc. acc AND perm_of perms i) xs acc) b \<longleftrightarrow> bit acc b \<and> (\<forall>i \<in> set xs. bit (perm_of perms i) b)"
  by (induction xs arbitrary: acc) (auto simp: bit_and_iff)

lemma bit_extract:
  "bit (extract_permissions xs perms) b \<longleftrightarrow> xs \<noteq> [] \<and> b < 2 \<and> (\<forall>i \<in> set xs. bit (perm_of perms i) b)"
  by (cases "xs = []") (simp_all only: extract_permissions_def bit_fold_perms bit_both if_True if_False bit_0_eq bot_apply, simp_all)

text \<open>Whether the subjects of an identity all hold the permission of bit \<open>b\<close>.\<close>

definition holds :: "u64 list \<Rightarrow> (u64, u64) umap \<Rightarrow> nat \<Rightarrow> bool" where
  "holds xs perms b \<longleftrightarrow> xs \<noteq> [] \<and> (\<forall>i \<in> set xs. bit (perm_of perms i) b)"

lemma allowed_iff:
  "allowed flag cids uids m \<longleftrightarrow>
     (\<forall>b. bit flag b \<longrightarrow> b < 2 \<and> (holds cids (mi_c_perms m) b \<or> holds uids (mi_u_perms m) b))"
proof -
  have "x AND flag = flag \<longleftrightarrow> (\<forall>b. bit flag b \<longrightarrow> bit x b)" for x :: u64
  proof
    assume "x AND flag = flag"
    then have "bit (x AND flag) b = bit flag b" for b by simp
    then show "\<forall>b. bit flag b \<longrightarrow> bit x b" unfolding bit_and_iff by blast
  next
    assume "\<forall>b. bit flag b \<longrightarrow> bit x b"
    then show "x AND flag = flag" by (intro bit_word_eqI) (auto simp: bit_and_iff)
  qed
  then show ?thesis by (auto simp: allowed_def bit_or_iff bit_extract holds_def)
qed

section \<open>Claims: lemmas\<close>

lemma perm_of_insert_new:
  "perm_of (insert_new i f m) j = (if j = i \<and> um_find i m = None then f else perm_of m j)"
  by (auto simp: perm_of_def insert_new_def split: option.splits)

lemma find_insert_new: "um_find j (insert_new i f m) = (if j = i \<and> um_find i m = None then Some f else um_find j m)"
  by (auto simp: insert_new_def split: option.splits)

lemma claimed_perms:
  "perm_of (fold (\<lambda>i. insert_new i both_flags) xs m) j =
     (if um_find j m = None \<and> j \<in> set xs then both_flags else perm_of m j)"
proof (induction xs arbitrary: m)
  case (Cons x xs)
  then show ?case by (auto simp: find_insert_new perm_of_insert_new)
qed simp

lemma perm_of_Nil [simp]: "perm_of [] j = none_flags"
  by (simp add: perm_of_def)

lemma holds_claimed:
  assumes "xs \<noteq> []" and "b < 2"
  shows "holds xs (fold (\<lambda>i. insert_new i both_flags) xs []) b"
  using assms bit_both [of b] by (auto simp: holds_def claimed_perms)

lemma not_holds_disjoint:
  assumes "set ys \<inter> set xs = {}"
  shows "\<not> holds ys (fold (\<lambda>i. insert_new i both_flags) xs []) b"
proof
  assume h: "holds ys (fold (\<lambda>i. insert_new i both_flags) xs []) b"
  then have "hd ys \<in> set ys" by (simp add: holds_def)
  with assms have "hd ys \<notin> set xs" by auto
  then have "perm_of (fold (\<lambda>i. insert_new i both_flags) xs []) (hd ys) = none_flags" by (simp add: claimed_perms)
  moreover have "bit (perm_of (fold (\<lambda>i. insert_new i both_flags) xs []) (hd ys)) b"
    using h \<open>hd ys \<in> set ys\<close> by (simp add: holds_def)
  ultimately show False by simp
qed

lemma operation_flag: "operation_from ev = Some flag \<Longrightarrow> flag = read_flags \<or> flag = both_flags"
  by (cases ev) auto

lemma is_modify_iff: "operation_from ev = Some flag \<Longrightarrow> is_modify flag \<longleftrightarrow> flag = both_flags"
  using operation_flag [of ev flag] by (auto simp: is_modify_def)

lemma operation_bits: "operation_from ev = Some flag \<Longrightarrow> bit flag b \<Longrightarrow> b < 2"
  using operation_flag [of ev flag] bit_both [of b] bit_read [of b] by auto

lemma flag_bit_0: "operation_from ev = Some flag \<Longrightarrow> bit flag 0"
  using operation_flag [of ev flag] bit_both [of 0] bit_read [of 0] by auto

section \<open>Properties\<close>

text \<open>The access list that a lookup found.\<close>

definition found_acl :: "('d, 'z) acl_conv_scheme \<Rightarrow> 'd versioned \<Rightarrow> metainfo \<Rightarrow> bool" where
  "found_acl ac v m \<longleftrightarrow>
     (if vv_exists v then convertible (vv_value v) \<and> to_metainfo ac (vv_value v) = Inr m else m = no_metainfo)"

lemma verify_found:
  assumes "extract_prefix p = Some prefix" and "lookup (make_path prefix) = Inr v" and "found_acl ac v m"
    and "operation_from event = Some flag"
  shows "verify ac event (slash # p) cids uids lookup =
    (if metainfo_empty m
     then if flag = both_flags \<and> (cids \<noteq> [] \<or> uids \<noteq> [])
          then upload_permissions prefix (claim cids uids m) v else Answer None
     else if allowed flag cids uids m then Answer None else Answer (Some Permission_denied))"
  using assms is_modify_iff [OF assms(4)]
  by (auto simp: verify_def on_lookup_def lookup_permissions_def found_acl_def)

text \<open>
  C19: on an owned prefix, a request is granted exactly when every
  permission its event needs is held by all client ids of the identity or by all
  its user ids, of which there must be some; otherwise it is denied. Only the
  first component of the path selects the access list.
\<close>

theorem acl_verify:
  assumes "slash \<notin> set prefix" and "prefix \<noteq> []" and "lookup (make_path prefix) = Inr v" and "found_acl ac v m"
    and "\<not> metainfo_empty m" and "operation_from event = Some flag" and "rest = [] \<or> hd rest = slash"
  shows "verify ac event (slash # prefix @ rest) cids uids lookup =
    (if \<forall>b. bit flag b \<longrightarrow> holds cids (mi_c_perms m) b \<or> holds uids (mi_u_perms m) b
     then Answer None else Answer (Some Permission_denied))"
proof -
  have "extract_prefix (prefix @ rest) = Some prefix"
    using extract_prefix_component(1,2) [OF assms(1,2)] assms(7) by (cases rest) auto
  note v = verify_found [where lookup = lookup, OF this assms(3,4,6), of cids uids]
  have "allowed flag cids uids m \<longleftrightarrow>
      (\<forall>b. bit flag b \<longrightarrow> holds cids (mi_c_perms m) b \<or> holds uids (mi_u_perms m) b)"
    using operation_bits [OF assms(6)] by (auto simp: allowed_iff)
  with v assms(5) show ?thesis by simp
qed

text \<open>
  The first identified client to modify an unowned prefix uploads an
  access list under which its own identity may do everything and an identity that
  shares no id with it may do nothing. The upload is conditional on the state that
  was looked up (a creation, or an update of that version), and of concurrent
  claims only the one whose upload took effect is granted.
\<close>

theorem acl_claim:
  assumes "extract_prefix p = Some prefix" and "lookup (make_path prefix) = Inr v" and "found_acl ac v m"
    and "metainfo_empty m" and "operation_from event = Some both_flags" and "cids \<noteq> [] \<or> uids \<noteq> []"
  shows "\<exists>m'. verify ac event (slash # p) cids uids lookup =
      Upload (if vv_exists v then Update_acl (vv_version v) else Create_acl) (make_path prefix) m' \<and>
    allowed both_flags cids uids m' \<and>
    (\<forall>ev flag cids' uids'. operation_from ev = Some flag \<and> set cids' \<inter> set cids = {} \<and> set uids' \<inter> set uids = {} \<longrightarrow>
       \<not> allowed flag cids' uids' m') \<and>
    (\<forall>r. on_upload r = None \<longleftrightarrow> r = Inr True)"
proof -
  let ?m = "claim cids uids m"
  have perms: "mi_c_perms ?m = fold (\<lambda>i. insert_new i both_flags) cids []"
    "mi_u_perms ?m = fold (\<lambda>i. insert_new i both_flags) uids []"
    using assms(4) by (simp_all add: claim_def metainfo_empty_def)
  have "allowed both_flags cids uids ?m"
    unfolding allowed_iff perms using assms(6) holds_claimed bit_both by blast
  moreover have "\<not> allowed flag cids' uids' ?m"
    if "operation_from ev = Some flag" "set cids' \<inter> set cids = {}" "set uids' \<inter> set uids = {}" for ev flag cids' uids'
    unfolding allowed_iff perms
    using flag_bit_0 [OF that(1)] not_holds_disjoint [OF that(2)] not_holds_disjoint [OF that(3)] by blast
  moreover have "on_upload r = None \<longleftrightarrow> r = Inr True" for r
    by (auto simp: on_upload_def split: sum.splits bool.splits)
  ultimately show ?thesis
    using verify_found [where lookup = lookup, OF assms(1-3,5), of cids uids] assms(4,6) by (auto simp: upload_permissions_def)
qed

text \<open>
  Four requests that get through or get lost. An anonymous client may
  modify an unowned prefix. A named lock has no case in the table of operations:
  verifying it runs into code the compiler takes as unreachable. An access list
  with a key that is not a number makes verification throw past its handler, so
  the request is never answered. And the access lists are themselves reached by
  paths, guarded only by the list of the prefix that holds them all.
\<close>

theorem acl_gaps:
  assumes "extract_prefix p = Some prefix"
  shows "(lookup (make_path prefix) = Inr v \<and> \<not> vv_exists v \<and> operation_from event = Some flag \<longrightarrow>
      verify ac event (slash # p) [] [] lookup = Answer None) \<and>
    (lookup (make_path prefix) = Inr v \<and> found_acl ac v m \<longrightarrow>
      verify ac Named_lock (slash # p) cids uids lookup = Unreachable) \<and>
    (lookup (make_path prefix) = Inr v \<and> vv_exists v \<and> vv_value v = D_array [D_object [(k, x)], u] \<and>
       ac_lexical ac k = None \<longrightarrow>
      verify ac event (slash # p) cids uids lookup = Uncaught) \<and>
    verify ac event (make_path name) cids uids lookup =
      on_lookup ac event ''.acls'' cids uids (lookup (make_path ''.acls''))"
proof (intro conjI impI)
  assume a: "lookup (make_path prefix) = Inr v \<and> \<not> vv_exists v \<and> operation_from event = Some flag"
  then have "found_acl ac v no_metainfo" by (simp add: found_acl_def)
  from verify_found [where lookup = lookup, OF assms _ this, of event flag "[]" "[]"] a
  show "verify ac event (slash # p) [] [] lookup = Answer None"
    by (simp add: metainfo_empty_def no_metainfo_def)
next
  assume "lookup (make_path prefix) = Inr v \<and> found_acl ac v m"
  then show "verify ac Named_lock (slash # p) cids uids lookup = Unreachable"
    using assms by (auto simp: verify_def on_lookup_def lookup_permissions_def found_acl_def)
next
  assume "lookup (make_path prefix) = Inr v \<and> vv_exists v \<and> vv_value v = D_array [D_object [(k, x)], u] \<and>
       ac_lexical ac k = None"
  then show "verify ac event (slash # p) cids uids lookup = Uncaught"
    using assms by (simp add: verify_def on_lookup_def lookup_permissions_def)
next
  have "extract_prefix (''.acls'' @ slash # name) = Some ''.acls''"
    by (rule extract_prefix_component(2)) (simp_all add: slash_def)
  then show "verify ac event (make_path name) cids uids lookup =
      on_lookup ac event ''.acls'' cids uids (lookup (make_path ''.acls''))"
    by (simp add: verify_def make_path_def prefix_acls_def slash_def)
qed

section \<open>A concrete access list\<close>

definition sample_acl_conv :: "int acl_conv" where
  "sample_acl_conv =
     \<lparr>ac_lexical = (\<lambda>s. if s = ''1'' then Some 1 else if s = ''2'' then Some 2 else None), ac_flags = as_uint\<rparr>"

definition owned :: "int versioned" where
  "owned = \<lparr>vv_exists = True, vv_version = 7,
     vv_value = D_array [D_object [(''1'', D_uint 3), (''2'', D_uint 1)], D_object []]\<rparr>"

definition unowned :: "int versioned" where
  "unowned = \<lparr>vv_exists = False, vv_version = -1, vv_value = D_null\<rparr>"

definition malformed :: "int versioned" where
  "malformed = \<lparr>vv_exists = True, vv_version = 1, vv_value = D_array [D_object [(''x'', D_uint 3)], D_object []]\<rparr>"

definition owned_acl :: metainfo where
  "owned_acl = \<lparr>mi_c_perms = [(1, 3), (2, 1)], mi_u_perms = []\<rparr>"

lemma found_owned: "found_acl sample_acl_conv owned owned_acl" "\<not> metainfo_empty owned_acl"
  by code_simp+

lemma found_unowned: "found_acl sample_acl_conv unowned no_metainfo"
  by (simp add: found_acl_def unowned_def)

lemma prefix_a: "extract_prefix ''a'' = Some ''a''"
  by (rule extract_prefix_component) (simp_all add: slash_def)

text \<open>The owner may write; the two ids together have only what both have.\<close>

theorem acl_verify_witness:
  "verify sample_acl_conv Put (slash # ''a'' @ ''/b'') [1] [] (\<lambda>_. Inr owned) = Answer None \<and>
   verify sample_acl_conv Put (slash # ''a'' @ ''/b'') [1, 2] [] (\<lambda>_. Inr owned) = Answer (Some Permission_denied)"
proof -
  have pre: "slash \<notin> set ''a''" "''a'' \<noteq> []" "operation_from Put = Some both_flags" "''/b'' = [] \<or> hd ''/b'' = slash"
    by (simp_all add: slash_def)
  note v = acl_verify [where lookup = "\<lambda>_. Inr owned", OF pre(1,2) refl found_owned pre(3,4)]
  have p: "perm_of (mi_c_perms owned_acl) 1 = both_flags" "perm_of (mi_c_perms owned_acl) 2 = read_flags" by code_simp+
  have "\<not> bit read_flags (1 :: nat)" "bit both_flags (1 :: nat)" using bit_read [of 1] bit_both [of 1] by auto
  then have "holds [1] (mi_c_perms owned_acl) b \<longleftrightarrow> bit both_flags b" "\<not> holds [1, 2] (mi_c_perms owned_acl) 1"
    "\<not> holds [] (mi_u_perms owned_acl) b" for b
    by (simp_all add: holds_def p)
  with \<open>bit both_flags 1\<close> have
    "\<forall>b. bit both_flags b \<longrightarrow> holds [1] (mi_c_perms owned_acl) b \<or> holds [] (mi_u_perms owned_acl) b"
    "\<not> (\<forall>b. bit both_flags b \<longrightarrow> holds [1, 2] (mi_c_perms owned_acl) b \<or> holds [] (mi_u_perms owned_acl) b)"
    by blast+
  then show ?thesis unfolding v using if_P if_not_P by metis
qed

theorem acl_claim_witness:
  "\<exists>m. verify sample_acl_conv Create (slash # ''a'') [1] [] (\<lambda>_. Inr unowned) = Upload Create_acl ''/.acls/a'' m \<and>
     allowed both_flags [1] [] m"
  using acl_claim [where lookup = "\<lambda>_. Inr unowned", OF prefix_a refl found_unowned, of Create "[1]" "[]"]
  by (auto simp: metainfo_empty_def no_metainfo_def unowned_def make_path_def prefix_acls_def)

theorem acl_gaps_witness:
  "verify sample_acl_conv Put (slash # ''a'') [] [] (\<lambda>_. Inr unowned) = Answer None \<and>
   verify sample_acl_conv Named_lock (slash # ''a'') [1] [] (\<lambda>_. Inr owned) = Unreachable \<and>
   verify sample_acl_conv Get (slash # ''a'') [1] [] (\<lambda>_. Inr malformed) = Uncaught"
proof -
  have "\<not> vv_exists unowned" "operation_from Put = Some both_flags" "vv_exists malformed"
    "vv_value malformed = D_array [D_object [(''x'', D_uint 3)], D_object []]" "ac_lexical sample_acl_conv ''x'' = None"
    by (simp_all add: unowned_def malformed_def sample_acl_conv_def)
  with acl_gaps [OF prefix_a, of "\<lambda>_. Inr unowned" unowned Put both_flags sample_acl_conv]
    acl_gaps [OF prefix_a, of "\<lambda>_. Inr owned" owned _ _ sample_acl_conv owned_acl "[1]" "[]"]
    acl_gaps [OF prefix_a, of "\<lambda>_. Inr malformed" malformed Get _ sample_acl_conv _ "[1]" "[]" "''x''" "D_uint 3" "D_object []"]
    found_owned(1)
  show ?thesis by simp
qed

end
