(* ===== verification/Unicat.thy ===== *)
theory Unicat
  imports Unicorn_Auth
begin

text \<open>
  The unicat service (\<^verbatim>\<open>src/unicat\<close>): granting and revoking permissions in the
  access lists of a set of entities.  For every entity the identity is verified,
  the list is read, altered and written back under the version that was read;
  the client is answered when the last of these operations has been released.

  The answers of the authorization and of the backends are arguments (\<open>backend\<close>);
  the unicorn backend's verification is that of the theory of unicorn's
  authorization.
\<close>

section \<open>Altering an access list\<close>

record alter_data =
  al_cids :: "u64 list"
  al_uids :: "u64 list"
  al_flags :: u64

definition set_perms :: "u64 list \<Rightarrow> u64 \<Rightarrow> (u64, u64) umap \<Rightarrow> (u64, u64) umap" where
  "set_perms to_set flags perms = fold (\<lambda>i p. um_insert i (perm_of p i OR flags) p) to_set perms"

definition unset_perms :: "u64 list \<Rightarrow> u64 \<Rightarrow> (u64, u64) umap \<Rightarrow> (u64, u64) umap" where
  "unset_perms to_unset flags perms =
     fold (\<lambda>i p. case um_find i p of None \<Rightarrow> p | Some f \<Rightarrow> um_insert i (f AND NOT flags) p) to_unset perms"

datatype alter_event = Grant | Revoke

fun alter :: "alter_event \<Rightarrow> alter_data \<Rightarrow> metainfo \<Rightarrow> metainfo" where
  "alter Grant d m =
     \<lparr>mi_c_perms = set_perms (al_cids d) (al_flags d) (mi_c_perms m),
      mi_u_perms = set_perms (al_uids d) (al_flags d) (mi_u_perms m)\<rparr>"
| "alter Revoke d m =
     \<lparr>mi_c_perms = unset_perms (al_cids d) (al_flags d) (mi_c_perms m),
      mi_u_perms = unset_perms (al_uids d) (al_flags d) (mi_u_perms m)\<rparr>"

section \<open>Entities\<close>

datatype scheme = Storage_scheme | Unicorn_scheme

definition scheme_from_string :: "string \<Rightarrow> scheme option" where
  "scheme_from_string s =
     (if s = ''storage'' then Some Storage_scheme else if s = ''unicorn'' then Some Unicorn_scheme else None)"

fun scheme_to_string :: "scheme \<Rightarrow> string" where
  "scheme_to_string Storage_scheme = ''storage''"
| "scheme_to_string Unicorn_scheme = ''unicorn''"

record url =
  ur_scheme :: scheme
  ur_service :: string
  ur_entity :: string

type_synonym entity = "string \<times> string option \<times> string"

definition service_of :: "string option \<Rightarrow> string" where
  "service_of s = (case s of None \<Rightarrow> ''core'' | Some n \<Rightarrow> if n = [] then ''core'' else n)"

text \<open>\<^verbatim>\<open>separated[scheme][service].push_back(entity)\<close>.\<close>

definition push_entity :: "string \<Rightarrow> string \<Rightarrow> (string, string list) umap \<Rightarrow> (string, string list) umap" where
  "push_entity service entity m =
     um_insert service ((case um_find service m of None \<Rightarrow> [] | Some es \<Rightarrow> es) @ [entity]) m"

type_synonym separated = "(scheme, (string, string list) umap) umap"

fun separate_by_scheme :: "entity list \<Rightarrow> separated \<Rightarrow> separated option" where
  "separate_by_scheme [] m = Some m"
| "separate_by_scheme ((sch, service, entity) # es) m =
     (case scheme_from_string sch of
        None \<Rightarrow> None
      | Some s \<Rightarrow>
          separate_by_scheme es
            (um_insert s (push_entity (service_of service) entity (case um_find s m of None \<Rightarrow> [] | Some x \<Rightarrow> x)) m))"

definition urls :: "separated \<Rightarrow> url list" where
  "urls m = concat (map (\<lambda>(s, services). concat (map (\<lambda>(name, es).
     map (\<lambda>e. \<lparr>ur_scheme = s, ur_service = name, ur_entity = e\<rparr>) es) services)) m)"

section \<open>One entity\<close>

text \<open>
  What the backend of a service answers: verification of read and of write
  access (nothing, when the verification throws past its handler), the access
  list with its version, and the write.  The write of the unicorn backend answers
  whether the version matched.
\<close>

record backend =
  bk_verify_read :: "string \<Rightarrow> error_code option"
  bk_verify_write :: "string \<Rightarrow> error_code option"
  bk_read :: "string \<Rightarrow> (string, metainfo \<times> int) result"
  bk_write :: "string \<Rightarrow> int \<Rightarrow> metainfo \<Rightarrow> (string, bool) result"

datatype opcode = Read_op | Write_op

datatype completion =
    Done url
  | Access_error url error_code opcode
  | Failed url string

text \<open>What is written back, and what completes the operation, once access has been verified.\<close>

definition on_read :: "backend \<Rightarrow> alter_event \<Rightarrow> alter_data \<Rightarrow> url \<Rightarrow> (int \<times> metainfo) option \<times> completion" where
  "on_read bk ev d u =
     (case bk_read bk (ur_entity u) of
        Inl x \<Rightarrow> (None, Failed u x)
      | Inr (m, version) \<Rightarrow>
          (Some (version, alter ev d m),
           case bk_write bk (ur_entity u) version (alter ev d m) of Inl x \<Rightarrow> Failed u x | Inr _ \<Rightarrow> Done u))"

text \<open>
  The nested handlers: the handler that stands for the write verification is
  passed to \<^verbatim>\<open>async_verify_read\<close>.  A verification that does not call back leaves
  the operation without a completion.
\<close>

definition alter_entity ::
  "backend \<Rightarrow> alter_event \<Rightarrow> alter_data \<Rightarrow> url \<Rightarrow> (int \<times> metainfo) option \<times> completion option" where
  "alter_entity bk ev d u =
     (case bk_verify_read bk (ur_entity u) of
        None \<Rightarrow> (None, None)
      | Some ec \<Rightarrow>
          if is_error ec then (None, Some (Access_error u ec Read_op))
          else case bk_verify_read bk (ur_entity u) of
                 None \<Rightarrow> (None, None)
               | Some ec \<Rightarrow>
                   if is_error ec then (None, Some (Access_error u ec Write_op))
                   else map_prod id Some (on_read bk ev d u))"

section \<open>The reply\<close>

datatype reply = Value | Error string

definition take_except_trace :: nat where
  "take_except_trace = 10"

text \<open>The message of an error code is that of its category, an argument.\<close>

fun completion_error :: "(error_code \<Rightarrow> string) \<Rightarrow> completion \<Rightarrow> string option" where
  "completion_error msg (Done u) = None"
| "completion_error msg (Failed u x) = Some x"
| "completion_error msg (Access_error u ec op) =
     (if is_error ec
      then Some ((case op of Read_op \<Rightarrow> ''read'' | Write_op \<Rightarrow> ''write'') @ '' permission denied for '' @
        scheme_to_string (ur_scheme u) @ '':'' @ ur_service u @ '':'' @ ur_entity u @
        '' with error '' @ msg ec)
      else None)"

fun join :: "string \<Rightarrow> string list \<Rightarrow> string" where
  "join sep [] = []"
| "join sep [x] = x"
| "join sep (x # y # xs) = x @ sep @ join sep (y # xs)"

definition finalize :: "(error_code \<Rightarrow> string) \<Rightarrow> completion list \<Rightarrow> reply" where
  "finalize msg cs =
     (let errors = List.map_filter (completion_error msg) cs
      in if errors = [] then Value else Error (join '', '' (take take_except_trace errors)))"

text \<open>
  The slot. The completion state answers when it is released, also when the
  entities cannot be separated; the handler of that exception answers again.
  The backends are arguments, so that a backend that cannot be made is not
  modelled; the order in which the schemes and services are visited is not either,
  since the completions of the operations arrive in any order.
\<close>

definition alter_slot ::
  "(error_code \<Rightarrow> string) \<Rightarrow> (url \<Rightarrow> backend) \<Rightarrow> alter_event \<Rightarrow> alter_data \<Rightarrow> entity list \<Rightarrow> reply list" where
  "alter_slot msg bks ev d es =
     (case separate_by_scheme es [] of
        None \<Rightarrow> [finalize msg [], Error ''uncaught error'']
      | Some m \<Rightarrow> [finalize msg (List.map_filter (\<lambda>u. snd (alter_entity (bks u) ev d u)) (urls m))])"

section \<open>The unicorn backend\<close>

definition make_acl_path :: "string \<Rightarrow> string" where
  "make_acl_path path = prefix_acls @ path"

definition unpack :: "('d, 'z) acl_conv_scheme \<Rightarrow> 'd versioned \<Rightarrow> (string, metainfo \<times> int) result" where
  "unpack ac v =
     (if vv_exists v \<and> convertible (vv_value v)
      then case to_metainfo ac (vv_value v) of
             Inl _ \<Rightarrow> Inl ''bad cast''
           | Inr m \<Rightarrow> Inr (m, vv_version v)
      else Inl ''invalid acl framing'')"

text \<open>The code a decision calls back with; an upload that was started calls back with its outcome.\<close>

definition answer_code :: "(auth_error \<Rightarrow> error_code) \<Rightarrow> (error_code, bool) result \<Rightarrow> decision \<Rightarrow> error_code option" where
  "answer_code ecs up dec =
     (case dec of
        Answer None \<Rightarrow> Some no_error
      | Answer (Some x) \<Rightarrow> Some (ecs x)
      | Upload _ _ _ \<Rightarrow> Some (case on_upload up of None \<Rightarrow> no_error | Some x \<Rightarrow> ecs x)
      | _ \<Rightarrow> None)"

definition unicorn_backend ::
  "('d, 'z) acl_conv_scheme \<Rightarrow> (auth_error \<Rightarrow> error_code) \<Rightarrow> (error_code, bool) result \<Rightarrow> u64 list \<Rightarrow> u64 list \<Rightarrow>
   (string \<Rightarrow> (error_code, 'd versioned) result) \<Rightarrow> (string \<Rightarrow> int \<Rightarrow> metainfo \<Rightarrow> (string, bool) result) \<Rightarrow> backend" where
  "unicorn_backend ac ecs up cids uids lookup put =
     \<lparr>bk_verify_read = (\<lambda>e. answer_code ecs up (verify ac Get e cids uids lookup)),
      bk_verify_write = (\<lambda>e. answer_code ecs up (verify ac Put e cids uids lookup)),
      bk_read = (\<lambda>e. case lookup (make_acl_path e) of Inl _ \<Rightarrow> Inl ''lookup failed'' | Inr v \<Rightarrow> unpack ac v),
      bk_write = (\<lambda>e version m. put (make_acl_path e) version m)\<rparr>"

section \<open>The storage backend\<close>

text \<open>
  The storage has no versions: the list is read as if the entity did not exist and
  written back unconditionally. Its authorization and its requests are arguments.
\<close>

definition not_existing_version :: int where
  "not_existing_version = -1"

definition acl_collection :: string where
  "acl_collection = ''.collection-acls''"

definition storage_backend ::
  "(string \<Rightarrow> string \<Rightarrow> error_code option) \<Rightarrow> (string \<Rightarrow> string \<Rightarrow> error_code option) \<Rightarrow>
   (string \<Rightarrow> string \<Rightarrow> (string, metainfo) result) \<Rightarrow> (string \<Rightarrow> string \<Rightarrow> metainfo \<Rightarrow> string list \<Rightarrow> (string, unit) result) \<Rightarrow>
   backend" where
  "storage_backend verify_read verify_write get put =
     \<lparr>bk_verify_read = verify_read acl_collection,
      bk_verify_write = verify_write acl_collection,
      bk_read = (\<lambda>e. map_sum id (\<lambda>m. (m, not_existing_version)) (get acl_collection e)),
      bk_write = (\<lambda>e version m. map_sum id (\<lambda>_. True) (put acl_collection e m [''storage-acls'']))\<rparr>"

section \<open>The cache of authorization handlers\<close>

text \<open>A handler that cannot be made is an exception and leaves the cache as it was.\<close>

definition get_or_insert :: "(string \<Rightarrow> 'a option) \<Rightarrow> string \<Rightarrow> (string, 'a) umap \<Rightarrow> ('a \<times> (string, 'a) umap) option" where
  "get_or_insert make_by_type name cache =
     (case um_find name cache of
        Some access \<Rightarrow> Some (access, cache)
      | None \<Rightarrow> map_option (\<lambda>access. (access, um_insert name access cache)) (make_by_type name))"

section \<open>Altering: lemmas\<close>

lemma perm_of_update [simp]: "perm_of (um_insert i f p) j = (if j = i then f else perm_of p j)"
  by (simp add: perm_of_def)

lemma set_perms_bit:
  "bit (perm_of (set_perms xs flags p) j) b \<longleftrightarrow> bit (perm_of p j) b \<or> j \<in> set xs \<and> bit flags b"
  unfolding set_perms_def by (induction xs arbitrary: p) (auto simp: bit_or_iff)

lemma bit_revoked: "bit (f AND NOT g) b \<longleftrightarrow> bit f b \<and> \<not> bit g (b :: nat)" for f g :: u64
  by (auto simp: bit_and_iff bit_not_iff dest: bit_imp_possible_bit)

lemma unset_perms_bit:
  "bit (perm_of (unset_perms xs flags p) j) b \<longleftrightarrow> bit (perm_of p j) b \<and> \<not> (j \<in> set xs \<and> bit flags b)"
proof -
  have step: "bit (perm_of (case um_find i p of None \<Rightarrow> p | Some f \<Rightarrow> um_insert i (f AND NOT flags) p) j) b \<longleftrightarrow>
      bit (perm_of p j) b \<and> \<not> (j = i \<and> bit flags b)" for i p
    using bit_revoked by (auto simp: perm_of_def split: option.splits)
  show ?thesis
    unfolding unset_perms_def by (induction xs arbitrary: p) (auto simp: step)
qed

lemma holds_mono:
  "(\<And>i. i \<in> set xs \<Longrightarrow> bit (perm_of p i) b \<Longrightarrow> bit (perm_of q i) b) \<Longrightarrow> holds xs p b \<Longrightarrow> holds xs q b"
  by (auto simp: holds_def)

text \<open>
  Granting adds exactly the given permissions of the given
  ids and revoking removes exactly them, bit by bit; so a grant never takes an
  access away from anybody, a revocation never gives one, and the ids that were
  granted the permissions hold them.
\<close>

theorem alter_permissions:
  "(bit (perm_of (mi_c_perms (alter Grant d m)) i) b \<longleftrightarrow>
      bit (perm_of (mi_c_perms m) i) b \<or> i \<in> set (al_cids d) \<and> bit (al_flags d) b) \<and>
   (bit (perm_of (mi_u_perms (alter Grant d m)) i) b \<longleftrightarrow>
      bit (perm_of (mi_u_perms m) i) b \<or> i \<in> set (al_uids d) \<and> bit (al_flags d) b) \<and>
   (bit (perm_of (mi_c_perms (alter Revoke d m)) i) b \<longleftrightarrow>
      bit (perm_of (mi_c_perms m) i) b \<and> \<not> (i \<in> set (al_cids d) \<and> bit (al_flags d) b)) \<and>
   (bit (perm_of (mi_u_perms (alter Revoke d m)) i) b \<longleftrightarrow>
      bit (perm_of (mi_u_perms m) i) b \<and> \<not> (i \<in> set (al_uids d) \<and> bit (al_flags d) b)) \<and>
   (allowed flag cids uids m \<longrightarrow> allowed flag cids uids (alter Grant d m)) \<and>
   (allowed flag cids uids (alter Revoke d m) \<longrightarrow> allowed flag cids uids m)"
proof -
  have "holds xs p b \<Longrightarrow> holds xs (set_perms ys f p) b" for xs ys f p b
    by (rule holds_mono [of xs p b]) (simp_all add: set_perms_bit)
  moreover have "holds xs (unset_perms ys f p) b \<Longrightarrow> holds xs p b" for xs ys f p b
    by (rule holds_mono [of xs "unset_perms ys f p" b]) (simp_all add: unset_perms_bit)
  ultimately show ?thesis
    by (auto simp: set_perms_bit unset_perms_bit allowed_iff)
qed

section \<open>Entities: lemmas\<close>

fun url_of :: "entity \<Rightarrow> url option" where
  "url_of (sch, service, entity) =
     map_option (\<lambda>s. \<lparr>ur_scheme = s, ur_service = service_of service, ur_entity = entity\<rparr>) (scheme_from_string sch)"

definition service_urls :: "scheme \<Rightarrow> (string, string list) umap \<Rightarrow> url list" where
  "service_urls s services = concat (map (\<lambda>(name, es).
     map (\<lambda>e. \<lparr>ur_scheme = s, ur_service = name, ur_entity = e\<rparr>) es) services)"

lemma urls_conv: "urls m = concat (map (\<lambda>(s, services). service_urls s services) m)"
  by (simp add: urls_def service_urls_def)

lemma count_concat_update:
  assumes "\<And>v. count_list (f k (g v)) u = count_list (f k v) u + n" and "count_list (f k d) u = 0"
  shows "count_list (concat (map (\<lambda>(k, v). f k v) (um_insert k (g (case um_find k m of None \<Rightarrow> d | Some v \<Rightarrow> v)) m))) u =
    count_list (concat (map (\<lambda>(k, v). f k v) m)) u + n"
  unfolding um_insert_def um_find_def
  by (induction m) (auto simp: assms)

lemma count_push:
  "count_list (service_urls s (push_entity name e services)) u =
   count_list (service_urls s services) u +
     (if u = \<lparr>ur_scheme = s, ur_service = name, ur_entity = e\<rparr> then 1 else 0)"
proof -
  let ?f = "\<lambda>name es. map (\<lambda>e. \<lparr>ur_scheme = s, ur_service = name, ur_entity = e\<rparr>) es"
  show ?thesis
    using count_concat_update [of ?f name "\<lambda>es. es @ [e]" u
        "if u = \<lparr>ur_scheme = s, ur_service = name, ur_entity = e\<rparr> then 1 else 0" "[]" services]
    by (auto simp: service_urls_def push_entity_def)
qed

lemma count_separate:
  "separate_by_scheme es m = Some m' \<Longrightarrow>
   count_list (urls m') u = count_list (urls m) u + count_list (map url_of es) (Some u)"
proof (induction es m rule: separate_by_scheme.induct)
  case (2 sch service entity es m)
  then obtain s where s: "scheme_from_string sch = Some s" by (auto split: option.splits)
  let ?url = "\<lparr>ur_scheme = s, ur_service = service_of service, ur_entity = entity\<rparr>"
  have "count_list (urls (um_insert s (push_entity (service_of service) entity
      (case um_find s m of None \<Rightarrow> [] | Some x \<Rightarrow> x)) m)) u = count_list (urls m) u + (if u = ?url then 1 else 0)"
    unfolding urls_conv
    by (rule count_concat_update [where f = service_urls and d = "[]" and g = "push_entity (service_of service) entity"])
      (simp_all add: count_push, simp add: service_urls_def)
  with 2 s show ?case by auto
qed (simp add: urls_def)

lemma separate_unknown:
  "separate_by_scheme es m = None \<longleftrightarrow> (\<exists>e \<in> set es. scheme_from_string (fst e) = None)"
  by (induction es m rule: separate_by_scheme.induct) (auto split: option.splits)

lemma map_filter_Nil: "List.map_filter f xs = [] \<longleftrightarrow> (\<forall>x \<in> set xs. f x = None)"
  by (induction xs) (auto simp: map_filter_simps split: option.splits)

lemma set_map_filter: "set (List.map_filter f xs) = {y. \<exists>x \<in> set xs. f x = Some y}"
  by (induction xs) (auto simp: map_filter_simps split: option.splits)

text \<open>
  When the schemes of all entities are known, every entity is
  altered exactly once, under its scheme and service, and the client gets exactly
  one reply, which reports success exactly when no operation that completed
  failed.
\<close>

theorem unicat_reply:
  assumes "\<forall>e \<in> set es. scheme_from_string (fst e) \<noteq> None"
  shows "\<exists>m. separate_by_scheme es [] = Some m \<and>
    (\<forall>u. count_list (urls m) u = count_list (map url_of es) (Some u)) \<and>
    length (alter_slot msg bks ev d es) = 1 \<and>
    (alter_slot msg bks ev d es = [Value] \<longleftrightarrow>
       (\<forall>u \<in> set (urls m). \<forall>c. snd (alter_entity (bks u) ev d u) = Some c \<longrightarrow> completion_error msg c = None))"
proof -
  obtain m where m: "separate_by_scheme es [] = Some m"
    using assms separate_unknown [of es "[]"] by (cases "separate_by_scheme es []") auto
  have "count_list (urls m) u = count_list (map url_of es) (Some u)" for u
    using count_separate [OF m] by (simp add: urls_def)
  moreover have "finalize msg cs = Value \<longleftrightarrow> (\<forall>c \<in> set cs. completion_error msg c = None)" for cs
    by (simp add: finalize_def Let_def map_filter_Nil)
  ultimately show ?thesis
    using m by (auto simp: alter_slot_def set_map_filter)
qed

lemma verify_get_read:
  assumes "extract_prefix p = Some prefix" and "lookup (make_path prefix) = Inr v" and "found_acl ac v m"
    and "\<not> metainfo_empty m" and "allowed read_flags cids uids m"
  shows "verify ac Get (slash # p) cids uids lookup = Answer None"
  using verify_found [where lookup = lookup, OF assms(1-3), of Get read_flags cids uids] assms(4,5) by simp

text \<open>
  C21: an identity that may only read a prefix can give itself any
  permission on it. The write access that the interface requires is never
  verified: the operation is the same whatever the verification of write access
  would say; it writes the altered list, and under that list the identity may
  modify the prefix.
\<close>

theorem unicat_escalation:
  assumes "slash \<notin> set prefix" and "prefix \<noteq> []" and "lookup (make_path prefix) = Inr v" and "vv_exists v"
    and "found_acl ac v m" and "\<not> metainfo_empty m" and "allowed read_flags cids uids m"
    and "ur_entity u = slash # prefix" and "al_cids d = cids" and "al_uids d = uids" and "al_flags d = both_flags"
  shows "alter_entity (bk\<lparr>bk_verify_write := f\<rparr>) ev d u = alter_entity bk ev d u \<and>
    fst (alter_entity (unicorn_backend ac ecs up cids uids lookup put) Grant d u) = Some (vv_version v, alter Grant d m) \<and>
    allowed both_flags cids uids (alter Grant d m)"
proof -
  have prefix: "extract_prefix prefix = Some prefix" by (rule extract_prefix_component(1) [OF assms(1,2)])
  have path: "make_acl_path (slash # prefix) = make_path prefix"
    by (simp add: make_acl_path_def make_path_def slash_def)
  have read: "verify ac Get (slash # prefix) cids uids lookup = Answer None"
    by (rule verify_get_read [where lookup = lookup, OF prefix assms(3,5-7)])
  have acl: "unpack ac v = Inr (m, vv_version v)" using assms(4,5) by (simp add: found_acl_def unpack_def)
  have "bit read_flags 0" by (rule iffD2 [OF bit_read refl])
  with assms(7) [unfolded allowed_iff] have "holds cids (mi_c_perms m) 0 \<or> holds uids (mi_u_perms m) 0" by blast
  then have "cids \<noteq> [] \<or> uids \<noteq> []" by (auto simp: holds_def)
  then have "holds cids (mi_c_perms (alter Grant d m)) b \<or> holds uids (mi_u_perms (alter Grant d m)) b" if "b < 2" for b
    using that assms(9-11) bit_both [of b] by (auto simp: holds_def set_perms_bit)
  then have "allowed both_flags cids uids (alter Grant d m)" using bit_both by (auto simp: allowed_iff)
  moreover have "fst (alter_entity (unicorn_backend ac ecs up cids uids lookup put) Grant d u) =
      Some (vv_version v, alter Grant d m)"
    using read acl path assms(3,8)
    by (simp add: alter_entity_def on_read_def unicorn_backend_def answer_code_def)
  moreover have "alter_entity (bk\<lparr>bk_verify_write := f\<rparr>) ev d u = alter_entity bk ev d u"
    by (simp add: alter_entity_def on_read_def split: option.splits sum.splits)
  ultimately show ?thesis by blast
qed

text \<open>
  Two requests that did nothing and report success. A
  write that lost against a concurrent one (its version did not match) completes
  as done. And a request with an unknown scheme is first answered with success, by
  the completion state that is released, and only then with the error.
\<close>

theorem unicat_false_success:
  "(bk_verify_read bk (ur_entity u) = Some no_error \<and> bk_read bk (ur_entity u) = Inr (m, version) \<and>
      bk_write bk (ur_entity u) version (alter ev d m) = Inr False \<longrightarrow>
      snd (alter_entity bk ev d u) = Some (Done u)) \<and>
   ((\<exists>e \<in> set es. scheme_from_string (fst e) = None) \<longrightarrow>
      (\<exists>text. alter_slot msg bks ev d es = [Value, Error text]))"
  using separate_unknown [of es "[]"]
  by (auto simp: alter_entity_def on_read_def alter_slot_def finalize_def map_filter_simps)

text \<open>The lists of a storage are overwritten whatever was written since they were read.\<close>

lemma storage_overwrites:
  assumes "verify_read acl_collection (ur_entity u) = Some no_error" and "get acl_collection (ur_entity u) = Inr m"
    and "put acl_collection (ur_entity u) (alter ev d m) [''storage-acls''] = Inr ()"
  shows "alter_entity (storage_backend verify_read verify_write get put) ev d u =
    (Some (not_existing_version, alter ev d m), Some (Done u))"
  using assms by (simp add: alter_entity_def on_read_def storage_backend_def)

lemma cached_handler:
  "get_or_insert mk name cache = Some (a, cache') \<Longrightarrow>
   um_find name cache' = Some a \<and> get_or_insert mk' name cache' = Some (a, cache') \<and>
   (n \<noteq> name \<longrightarrow> um_find n cache' = um_find n cache)"
  by (auto simp: get_or_insert_def split: option.splits)

section \<open>Concrete requests\<close>

text \<open>A client that may only read gets itself the right to write, and another loses both.\<close>

definition sample_alter :: "u64 \<Rightarrow> alter_data" where
  "sample_alter cid = \<lparr>al_cids = [cid], al_uids = [], al_flags = both_flags\<rparr>"

definition sample_url :: url where
  "sample_url = \<lparr>ur_scheme = Unicorn_scheme, ur_service = ''core'', ur_entity = slash # ''a''\<rparr>"

definition sample_backend :: "(string, bool) result \<Rightarrow> backend" where
  "sample_backend written =
     \<lparr>bk_verify_read = (\<lambda>_. Some no_error), bk_verify_write = (\<lambda>_. Some no_error),
      bk_read = (\<lambda>_. Inr (owned_acl, 7)), bk_write = (\<lambda>_ _ _. written)\<rparr>"

lemma sample_readable: "allowed read_flags [2] [] owned_acl" "\<not> allowed both_flags [2] [] owned_acl"
  by code_simp+

theorem alter_permissions_witness:
  "bit (perm_of (mi_c_perms (alter Grant (sample_alter 2) owned_acl)) 2) 1 \<and>
   \<not> bit (perm_of (mi_c_perms (alter Revoke (sample_alter 1) owned_acl)) 1) 1 \<and>
   allowed read_flags [2] [] (alter Grant (sample_alter 2) owned_acl)"
  using alter_permissions [of "sample_alter 2" owned_acl 2 1 read_flags "[2]" "[]"]
    alter_permissions [of "sample_alter 1" owned_acl 1 1 read_flags "[2]" "[]"] sample_readable bit_both [of 1]
  unfolding sample_alter_def by auto

theorem unicat_reply_witness:
  "alter_slot (\<lambda>_. []) (\<lambda>_. sample_backend (Inr True)) Grant (sample_alter 2)
     [(''unicorn'', None, ''/a''), (''storage'', Some ''c'', ''x'')] = [Value]"
proof -
  have c: "snd (alter_entity (sample_backend (Inr True)) Grant d u) = Some (Done u)" for d u
    by (simp add: alter_entity_def on_read_def sample_backend_def)
  have "\<forall>e \<in> set [(''unicorn'', None, ''/a''), (''storage'', Some ''c'', ''x'')]. scheme_from_string (fst e) \<noteq> None"
    by (simp add: scheme_from_string_def)
  from unicat_reply [OF this, of "\<lambda>_. []" "\<lambda>_. sample_backend (Inr True)" Grant "sample_alter 2"]
  show ?thesis by (auto simp: c)
qed

theorem unicat_escalation_witness:
  "\<not> allowed both_flags [2] [] owned_acl \<and>
   fst (alter_entity (unicorn_backend sample_acl_conv (\<lambda>_. no_error) (Inr True) [2] [] (\<lambda>_. Inr owned) (\<lambda>_ _ _. Inr True))
     Grant (sample_alter 2) sample_url) = Some (7, alter Grant (sample_alter 2) owned_acl) \<and>
   allowed both_flags [2] [] (alter Grant (sample_alter 2) owned_acl)"
proof -
  have "slash \<notin> set ''a''" "''a'' \<noteq> []" "vv_exists owned" "vv_version owned = 7"
    "ur_entity sample_url = slash # ''a''" "al_cids (sample_alter 2) = [2]" "al_uids (sample_alter 2) = []"
    "al_flags (sample_alter 2) = both_flags"
    by (simp_all add: slash_def owned_def sample_url_def sample_alter_def)
  with unicat_escalation [where lookup = "\<lambda>_. Inr owned" and prefix = "''a''" and v = owned and ac = sample_acl_conv
      and m = owned_acl and cids = "[2]" and uids = "[]" and u = sample_url and d = "sample_alter 2"
      and ecs = "\<lambda>_. no_error" and up = "Inr True" and put = "\<lambda>_ _ _. Inr True"]
    found_owned sample_readable
  show ?thesis by simp
qed

theorem unicat_false_success_witness:
  "snd (alter_entity (sample_backend (Inr False)) Revoke (sample_alter 1) sample_url) = Some (Done sample_url) \<and>
   (\<exists>x. alter_slot (\<lambda>_. []) (\<lambda>_. sample_backend (Inr False)) Revoke (sample_alter 1) [(''mongo'', None, ''/a'')] = [Value, Error x])"
  using unicat_false_success [of "sample_backend (Inr False)" sample_url owned_acl 7 Revoke "sample_alter 1"
      "[(''mongo'', None, ''/a'')]" "\<lambda>_. []" "\<lambda>_. sample_backend (Inr False)"]
  by (simp add: sample_backend_def scheme_from_string_def)

end
