(* ===== verification/Zk_Connection.thy ===== *)
theory Zk_Connection
  imports Unicorn_Auth "HOL-Library.Multiset"
begin

text \<open>
  The connection of the unicorn plugin to ZooKeeper
  (\<^verbatim>\<open>src/unicorn/src/zookeeper.cpp\<close>, \<^verbatim>\<open>zookeeper/connection.cpp\<close> and
  \<^verbatim>\<open>zookeeper/session.cpp\<close>): paths and sequence nodes, the table of watchers, the
  session and reconnection.

  The C client is not modelled.  Its return codes and event types are constructors
  named as in its interface; what its calls return is part of the arguments of an
  operation, as \<open>zk_env\<close>: whether the handle has become unrecoverable, whether
  each of the up to two attempts to create a handle gives a usable one, the client
  id of the first of them, and the return code of the call itself.  Ids of watchers
  are natural numbers: the 64-bit counter does not wrap in any feasible run.
\<close>

section \<open>Codes\<close>

datatype zoo_rc =
    ZOK
  | ZCONNECTIONLOSS
  | ZSESSIONEXPIRED
  | ZCLOSING
  | ZNONODE
  | ZNODEEXISTS
  | ZBADVERSION
  | Z_other int

datatype unicorn_error =
    Connection_loss
  | No_node
  | Node_exists
  | Version_not_allowed
  | Backend_internal_error
  | Child_not_allowed
  | Invalid_type
  | Invalid_value
  | Invalid_unicorn_path
  | Invalid_argument
  | Uncategorized

fun map_zoo_error :: "zoo_rc \<Rightarrow> unicorn_error" where
  "map_zoo_error ZCONNECTIONLOSS = Connection_loss"
| "map_zoo_error ZSESSIONEXPIRED = Connection_loss"
| "map_zoo_error ZCLOSING = Connection_loss"
| "map_zoo_error ZNONODE = No_node"
| "map_zoo_error ZNODEEXISTS = Node_exists"
| "map_zoo_error ZBADVERSION = Version_not_allowed"
| "map_zoo_error _ = Backend_internal_error"

datatype zoo_event =
    ZOO_CREATED_EVENT
  | ZOO_DELETED_EVENT
  | ZOO_CHANGED_EVENT
  | ZOO_CHILD_EVENT
  | ZOO_SESSION_EVENT
  | ZOO_NOTWATCHING_EVENT
  | ZOO_other_event

datatype zoo_state =
    ZOO_EXPIRED_SESSION_STATE
  | ZOO_AUTH_FAILED_STATE
  | ZOO_CONNECTING_STATE
  | ZOO_ASSOCIATING_STATE
  | ZOO_CONNECTED_STATE
  | ZOO_other_state

fun event_to_string :: "zoo_event \<Rightarrow> string" where
  "event_to_string ZOO_CREATED_EVENT = ''created''"
| "event_to_string ZOO_DELETED_EVENT = ''deleted''"
| "event_to_string ZOO_CHANGED_EVENT = ''changed''"
| "event_to_string ZOO_CHILD_EVENT = ''child''"
| "event_to_string ZOO_SESSION_EVENT = ''session''"
| "event_to_string ZOO_NOTWATCHING_EVENT = ''not watching''"
| "event_to_string ZOO_other_event = ''unknown''"

fun state_to_string :: "zoo_state \<Rightarrow> string" where
  "state_to_string ZOO_EXPIRED_SESSION_STATE = ''expired session''"
| "state_to_string ZOO_AUTH_FAILED_STATE = ''auth failed''"
| "state_to_string ZOO_CONNECTING_STATE = ''connecting''"
| "state_to_string ZOO_ASSOCIATING_STATE = ''associating''"
| "state_to_string ZOO_CONNECTED_STATE = ''connected''"
| "state_to_string ZOO_other_state = ''unknown''"

section \<open>Paths\<close>

definition slashes :: "string \<Rightarrow> nat list" where
  "slashes p = filter (\<lambda>i. p ! i = slash) [0..<length p]"

text \<open>The occurrence of a slash that \<^verbatim>\<open>find_nth\<close> finds counting \<open>d\<close> from the end.\<close>

definition path_parent :: "string \<Rightarrow> nat \<Rightarrow> (unicorn_error, string) result" where
  "path_parent p d =
     (if p = [] then Inl Uncategorized
      else if d = 0 then Inr p
      else let s = slashes p in
        if d \<le> length s then Inr (take (s ! (length s - d)) p) else Inl Uncategorized)"

definition is_digit :: "char \<Rightarrow> bool" where
  "is_digit c \<longleftrightarrow> c \<in> set ''0123456789''"

text \<open>\<^verbatim>\<open>std::string::npos\<close> is the greatest 64-bit number.\<close>

definition find_last_not_digit :: "string \<Rightarrow> u64" where
  "find_last_not_digit p =
     (case filter (\<lambda>i. \<not> is_digit (p ! i)) [0..<length p] of [] \<Rightarrow> -1 | is \<Rightarrow> of_nat (last is))"

definition is_valid_sequence_node :: "string \<Rightarrow> bool" where
  "is_valid_sequence_node p \<longleftrightarrow> of_nat (length p) - find_last_not_digit p - 1 = (10 :: u64)"

definition get_node_name :: "string \<Rightarrow> (unicorn_error, string) result" where
  "get_node_name p =
     (let s = slashes p in
      if s = [] \<or> last s = length p - 1 then Inl Invalid_unicorn_path else Inr (drop (last s + 1) p))"

section \<open>Configuration\<close>

type_synonym endpoint = "string \<times> nat"

text \<open>The decimal representation of a number is that of the standard library, an argument.\<close>

definition endpoint_to_string :: "(nat \<Rightarrow> string) \<Rightarrow> endpoint \<Rightarrow> (unicorn_error, string) result" where
  "endpoint_to_string dec e =
     (if fst e = [] \<or> snd e = 0 then Inl Uncategorized else Inr (fst e @ '':'' @ dec (snd e)))"

fun connection_string_from :: "(nat \<Rightarrow> string) \<Rightarrow> string \<Rightarrow> endpoint list \<Rightarrow> (unicorn_error, string) result" where
  "connection_string_from dec acc [] = Inr acc"
| "connection_string_from dec acc (e # es) =
     bindE (endpoint_to_string dec e)
       (\<lambda>s. connection_string_from dec ((if acc = [] then acc else acc @ '','') @ s) es)"

definition connection_string :: "(nat \<Rightarrow> string) \<Rightarrow> endpoint list \<Rightarrow> (unicorn_error, string) result" where
  "connection_string dec es = connection_string_from dec [] es"

section \<open>The connection\<close>

record 'w conn =
  cn_prefix :: string
  cn_session :: int
  cn_connected :: bool
  cn_next :: nat
  cn_watchers :: "(nat, 'w) umap"

definition session_valid :: "('w, 'z) conn_scheme \<Rightarrow> bool" where
  "session_valid c \<longleftrightarrow> cn_session c \<noteq> 0"

record zk_env =
  ze_unrecoverable :: bool
  ze_init1 :: bool
  ze_init2 :: bool
  ze_client :: int
  ze_rc :: zoo_rc

text \<open>
  \<^verbatim>\<open>cancel_watches\<close> empties the table; the watchers it held are called by the
  executor with an expired session, and are part of the result.
\<close>

definition cancel_watches :: "'w conn \<Rightarrow> (nat \<times> 'w) list \<times> 'w conn" where
  "cancel_watches c = (cn_watchers c, c\<lparr>cn_watchers := []\<rparr>)"

definition reconnect :: "zk_env \<Rightarrow> 'w conn \<Rightarrow> (unicorn_error, (nat \<times> 'w) list) result \<times> 'w conn" where
  "reconnect env c =
     (let (usable, c1) =
        (if ze_init1 env
         then (True, if session_valid c then c else c\<lparr>cn_session := ze_client env\<rparr>)
         else if session_valid c then (ze_init2 env, c\<lparr>cn_session := 0\<rparr>)
         else (False, c))
      in if usable then apfst Inr (cancel_watches (c1\<lparr>cn_connected := True\<rparr>))
         else (Inl Connection_loss, c1\<lparr>cn_connected := False\<rparr>))"

definition check_connectivity :: "zk_env \<Rightarrow> 'w conn \<Rightarrow> (unicorn_error, (nat \<times> 'w) list) result \<times> 'w conn" where
  "check_connectivity env c =
     (if \<not> cn_connected c \<or> ze_unrecoverable env then reconnect env c else (Inr [], c))"

definition format_path :: "'w conn \<Rightarrow> string \<Rightarrow> (unicorn_error, string) result" where
  "format_path c p = (if p = [] \<or> hd p \<noteq> slash then Inl Invalid_unicorn_path else Inr (cn_prefix c @ p))"

definition check_rc :: "zoo_rc \<Rightarrow> (unicorn_error, unit) result" where
  "check_rc rc = (if rc = ZOK then Inr () else Inl (map_zoo_error rc))"

text \<open>
  A command: the watchers cancelled on the way, and the path that is passed to the
  client library, or the exception.
\<close>

definition zoo_command :: "zk_env \<Rightarrow> string \<Rightarrow> 'w conn \<Rightarrow> (unicorn_error, string) result \<times> (nat \<times> 'w) list \<times> 'w conn" where
  "zoo_command env p c =
     (case check_connectivity env c of
        (Inl x, c1) \<Rightarrow> (Inl x, [], c1)
      | (Inr cancelled, c1) \<Rightarrow>
          (bindE (format_path c1 p) (\<lambda>pp. bindE (check_rc (ze_rc env)) (\<lambda>_. Inr pp)), cancelled, c1))"

definition zoo_watched_command ::
  "zk_env \<Rightarrow> string \<Rightarrow> 'w \<Rightarrow> 'w conn \<Rightarrow> (unicorn_error, string) result \<times> (nat \<times> 'w) list \<times> 'w conn" where
  "zoo_watched_command env p w c =
     zoo_command env p (c\<lparr>cn_next := cn_next c + 1, cn_watchers := um_insert (cn_next c) w (cn_watchers c)\<rparr>)"

text \<open>The call from the client library: the watcher is taken out of the table and called once.\<close>

definition watch_cb :: "nat \<Rightarrow> 'w conn \<Rightarrow> (nat \<times> 'w) list \<times> 'w conn" where
  "watch_cb i c =
     (case um_find i (cn_watchers c) of
        None \<Rightarrow> ([], c)
      | Some w \<Rightarrow> ([(i, w)], c\<lparr>cn_watchers := um_erase i (cn_watchers c)\<rparr>))"

definition trim_prefix :: "string \<Rightarrow> string" where
  "trim_prefix p = rev (dropWhile (\<lambda>c. c = slash) (rev p))"

text \<open>
  The creation of the nodes of the prefix, from the shortest: a call that fails for
  another reason than an existing node reconnects, and that may throw.
\<close>

fun create_prefix_from :: "(nat \<Rightarrow> zk_env) \<Rightarrow> nat \<Rightarrow> 'w conn \<Rightarrow> (unicorn_error, unit) result \<times> string list \<times> 'w conn" where
  "create_prefix_from envs 0 c = (Inr (), [], c)"
| "create_prefix_from envs (Suc i) c =
     (case path_parent (cn_prefix c) i of
        Inl x \<Rightarrow> (Inl x, [], c)
      | Inr p \<Rightarrow>
          (case (if ze_rc (envs i) = ZOK \<or> ze_rc (envs i) = ZNODEEXISTS then (Inr [], c) else reconnect (envs i) c) of
             (Inl x, c1) \<Rightarrow> (Inl x, [p], c1)
           | (Inr _, c1) \<Rightarrow>
               (case create_prefix_from envs i c1 of (r, ps, c2) \<Rightarrow> (r, p # ps, c2))))"

definition create_prefix :: "(nat \<Rightarrow> zk_env) \<Rightarrow> 'w conn \<Rightarrow> (unicorn_error, unit) result \<times> string list \<times> 'w conn" where
  "create_prefix envs c =
     (if cn_prefix c = [] then (Inr (), [], c)
      else create_prefix_from envs (length (slashes (cn_prefix c))) c)"

text \<open>The constructor: the paths it creates and the connection, or the exception.\<close>

definition new_connection ::
  "zk_env \<Rightarrow> (nat \<Rightarrow> zk_env) \<Rightarrow> string \<Rightarrow> (unicorn_error, string list \<times> 'w conn) result" where
  "new_connection env envs prefix =
     (if prefix \<noteq> [] \<and> hd prefix \<noteq> slash then Inl Invalid_argument
      else case reconnect env \<lparr>cn_prefix = trim_prefix prefix, cn_session = 0, cn_connected = False,
                               cn_next = 1, cn_watchers = []\<rparr> of
             (Inl x, _) \<Rightarrow> Inl x
           | (Inr _, c) \<Rightarrow>
               (case create_prefix envs c of (Inl x, _) \<Rightarrow> Inl x | (Inr _, ps, c1) \<Rightarrow> Inr (ps, c1)))"

section \<open>Paths: lemmas\<close>

definition slash_path :: "string list \<Rightarrow> string" where
  "slash_path cs = concat (map (\<lambda>c. slash # c) cs)"

definition components :: "string list \<Rightarrow> bool" where
  "components cs \<longleftrightarrow> (\<forall>c \<in> set cs. slash \<notin> set c)"

lemma filter_upt_append:
  "filter (\<lambda>i. P ((xs @ ys) ! i)) [0..<length (xs @ ys)] =
   filter (\<lambda>i. P (xs ! i)) [0..<length xs] @ map (\<lambda>i. i + length xs) (filter (\<lambda>i. P (ys ! i)) [0..<length ys])"
proof -
  have "[0..<length (xs @ ys)] = [0..<length xs] @ map (\<lambda>i. i + length xs) [0..<length ys]"
    using upt_add_eq_append [of 0 "length xs" "length ys"] by (simp add: map_add_upt add.commute)
  moreover have "filter (\<lambda>i. P ((xs @ ys) ! i)) [0..<length xs] = filter (\<lambda>i. P (xs ! i)) [0..<length xs]"
    by (rule filter_cong) (simp_all add: nth_append)
  ultimately show ?thesis by (simp add: filter_map comp_def nth_append)
qed

lemma slashes_none: "slash \<notin> set c \<Longrightarrow> slashes c = []"
  by (auto simp: slashes_def filter_empty_conv in_set_conv_nth)

lemma slashes_snoc: "slash \<notin> set c \<Longrightarrow> slashes (xs @ slash # c) = slashes xs @ [length xs]"
  using filter_upt_append [of "\<lambda>c. c = slash" "xs @ [slash]" c] filter_upt_append [of "\<lambda>c. c = slash" xs "[slash]"] slashes_none [of c]
  by (simp add: slashes_def)

lemma slash_path_snoc: "slash_path (cs @ [c]) = slash_path cs @ slash # c"
  by (simp add: slash_path_def)

lemma components_snoc [simp]: "components (cs @ [c]) \<longleftrightarrow> components cs \<and> slash \<notin> set c"
  by (auto simp: components_def)

lemma slashes_path: "components cs \<Longrightarrow> slashes (slash_path cs) = map (\<lambda>i. length (slash_path (take i cs))) [0..<length cs]"
proof (induction cs rule: rev_induct)
  case Nil
  show ?case by (simp add: slash_path_def slashes_def)
next
  case (snoc c cs)
  have "map (\<lambda>i. length (slash_path (take i (cs @ [c])))) [0..<length cs] = map (\<lambda>i. length (slash_path (take i cs))) [0..<length cs]"
    by simp
  with snoc show ?case by (simp add: slash_path_snoc slashes_snoc)
qed

lemma slash_path_take: "take (length (slash_path (take i cs))) (slash_path cs) = slash_path (take i cs)"
proof -
  have "slash_path cs = slash_path (take i cs) @ slash_path (drop i cs)"
    by (simp add: slash_path_def flip: concat_append map_append)
  then show ?thesis by (metis append_eq_conv_conj)
qed

lemma slash_path_empty [simp]: "slash_path cs = [] \<longleftrightarrow> cs = []"
  by (cases cs) (auto simp: slash_path_def)

lemma path_parent_components:
  assumes "components cs"
  shows "path_parent (slash_path cs) d =
    (if cs = [] \<or> d > length cs then Inl Uncategorized else Inr (slash_path (take (length cs - d) cs)))"
proof (cases "cs = [] \<or> d = 0 \<or> d > length cs")
  case False
  then have "[0..<length cs] ! (length cs - d) = length cs - d" by (subst nth_upt) auto
  with False show ?thesis
    by (simp add: path_parent_def slashes_path [OF assms] slash_path_take)
qed (auto simp: path_parent_def slashes_path [OF assms])

lemma node_name_component:
  assumes "components cs" and "slash \<notin> set c"
  shows "get_node_name (slash_path (cs @ [c])) = (if c = [] then Inl Invalid_unicorn_path else Inr c)"
  using assms by (auto simp: get_node_name_def slash_path_snoc slashes_snoc Let_def)

text \<open>The number of digits a name ends with.\<close>

definition trailing_digits :: "string \<Rightarrow> nat" where
  "trailing_digits p = length (takeWhile is_digit (rev p))"

lemma sequence_length:
  "of_nat (length p) - find_last_not_digit p - 1 = (of_nat (trailing_digits p) :: u64)"
proof (cases "\<forall>c \<in> set p. is_digit c")
  case True
  then have "takeWhile is_digit (rev p) = rev p" by (simp add: takeWhile_eq_all_conv)
  moreover have "filter (\<lambda>i. \<not> is_digit (p ! i)) [0..<length p] = []" using True by (simp add: filter_empty_conv)
  ultimately show ?thesis by (simp only: find_last_not_digit_def trailing_digits_def length_rev list.case diff_minus_eq_add) simp
next
  case False
  then obtain xs c ys where p: "p = xs @ c # ys" "\<not> is_digit c" "\<forall>c \<in> set ys. is_digit c"
    using split_list_last_prop [of p "\<lambda>c. \<not> is_digit c"] by auto
  let ?f = "\<lambda>p. filter (\<lambda>i. \<not> is_digit (p ! i)) [0..<length p]"
  have "?f ys = []" using p(3) by (simp add: filter_empty_conv)
  then have f: "?f p = ?f xs @ [length xs]"
    using p filter_upt_append [of "\<lambda>c. \<not> is_digit c" "xs @ [c]" ys] filter_upt_append [of "\<lambda>c. \<not> is_digit c" xs "[c]"]
    by simp
  then have "?f p \<noteq> []" "last (?f p) = length xs" by simp_all
  then have "find_last_not_digit p = of_nat (length xs)" by (auto simp: find_last_not_digit_def split: list.split)
  moreover have "trailing_digits p = length ys"
    using p takeWhile_append2 [of "rev ys" is_digit "c # rev xs"] by (simp add: trailing_digits_def)
  ultimately show ?thesis using p(1) by simp
qed

lemma valid_sequence_iff:
  assumes "length p < 2 ^ 64"
  shows "is_valid_sequence_node p \<longleftrightarrow> trailing_digits p = 10"
proof -
  have "trailing_digits p < 2 ^ 64"
    using assms length_takeWhile_le [of is_digit "rev p"] by (simp add: trailing_digits_def)
  then have "(of_nat (trailing_digits p) :: u64) = 10 \<longleftrightarrow> trailing_digits p = 10"
    using word_of_nat_eq_iff [of "trailing_digits p" 10, where 'a = 64] by (auto simp: take_bit_nat_eq_self)
  then show ?thesis by (simp add: is_valid_sequence_node_def sequence_length)
qed

section \<open>Watchers: lemmas\<close>

datatype 'w conn_op =
    Command zk_env string
  | Watched zk_env string 'w
  | Watch_event nat
  | Reconnect zk_env

text \<open>The watchers an operation calls, or hands to the executor that calls them.\<close>

fun conn_step :: "'w conn_op \<Rightarrow> 'w conn \<Rightarrow> (nat \<times> 'w) list \<times> 'w conn" where
  "conn_step (Command env p) c = snd (zoo_command env p c)"
| "conn_step (Watched env p w) c = snd (zoo_watched_command env p w c)"
| "conn_step (Watch_event i) c = watch_cb i c"
| "conn_step (Reconnect env) c = apfst (\<lambda>r. case r of Inl _ \<Rightarrow> [] | Inr ws \<Rightarrow> ws) (reconnect env c)"

fun conn_run :: "'w conn_op list \<Rightarrow> 'w conn \<Rightarrow> (nat \<times> 'w) list \<times> 'w conn" where
  "conn_run [] c = ([], c)"
| "conn_run (op # ops) c =
     (case conn_step op c of (ws, c1) \<Rightarrow> case conn_run ops c1 of (ws', c2) \<Rightarrow> (ws @ ws', c2))"

fun registered :: "'w conn_op list \<Rightarrow> 'w list" where
  "registered [] = []"
| "registered (Watched env p w # ops) = w # registered ops"
| "registered (_ # ops) = registered ops"

lemmas conn_defs = reconnect_def check_connectivity_def zoo_command_def zoo_watched_command_def cancel_watches_def

lemma reconnect_watchers:
  assumes "reconnect env c = (r, c')"
  shows "cn_next c' = cn_next c" "cn_prefix c' = cn_prefix c"
    "(case r of Inl _ \<Rightarrow> cn_watchers c' = cn_watchers c \<and> \<not> cn_connected c'
      | Inr ws \<Rightarrow> ws = cn_watchers c \<and> cn_watchers c' = [] \<and> cn_connected c')"
  using assms by (auto simp: conn_defs split: if_splits)

lemma command_watchers:
  assumes "zoo_command env p c = (r, ws, c')"
  shows "cn_next c' = cn_next c" "ws @ cn_watchers c' = cn_watchers c"
proof -
  obtain r c1 where rc: "reconnect env c = (r, c1)" by (cases "reconnect env c")
  show "cn_next c' = cn_next c" "ws @ cn_watchers c' = cn_watchers c"
    using assms rc reconnect_watchers [OF rc]
    by (auto simp: zoo_command_def check_connectivity_def split: if_splits sum.splits)
qed

text \<open>Only registered ids below the counter are in the table, each once.\<close>

definition conn_inv :: "'w conn \<Rightarrow> bool" where
  "conn_inv c \<longleftrightarrow> distinct (um_keys (cn_watchers c)) \<and> (\<forall>i \<in> set (um_keys (cn_watchers c)). i < cn_next c)"

lemma update_fresh: "k \<notin> fst ` set m \<Longrightarrow> AList.update k v m = m @ [(k, v)]"
  by (induction m) auto

lemma erase_found: "distinct (map fst m) \<Longrightarrow> map_of m k = Some v \<Longrightarrow> mset m = add_mset (k, v) (mset (AList.delete k m))"
  by (induction m) (auto simp: delete_id split: if_splits)

lemma register_watchers:
  "conn_inv c \<Longrightarrow> um_insert (cn_next c) w (cn_watchers c) = cn_watchers c @ [(cn_next c, w)]"
  unfolding um_insert_def by (rule update_fresh) (auto simp: conn_inv_def um_keys_def)

definition new_watchers :: "'w conn_op \<Rightarrow> 'w conn \<Rightarrow> (nat \<times> 'w) list" where
  "new_watchers op c = (case op of Watched env p w \<Rightarrow> [(cn_next c, w)] | _ \<Rightarrow> [])"

lemma conn_step_watchers:
  assumes "conn_inv c" and "conn_step op c = (ws, c')"
  shows "mset (ws @ cn_watchers c') = mset (cn_watchers c @ new_watchers op c)"
    "cn_next c' = cn_next c + length (new_watchers op c)"
proof -
  have "mset (ws @ cn_watchers c') = mset (cn_watchers c @ new_watchers op c) \<and>
      cn_next c' = cn_next c + length (new_watchers op c)"
  proof (cases op)
    case (Command env p)
    obtain r where cmd: "zoo_command env p c = (r, ws, c')" using Command assms(2) by (cases "zoo_command env p c") simp
    show ?thesis using Command command_watchers [OF cmd] by (simp add: new_watchers_def del: mset_append)
  next
    case (Watched env p w)
    let ?c = "c\<lparr>cn_next := cn_next c + 1, cn_watchers := um_insert (cn_next c) w (cn_watchers c)\<rparr>"
    obtain r where cmd: "zoo_command env p ?c = (r, ws, c')"
      using Watched assms(2) by (cases "zoo_command env p ?c") (simp add: zoo_watched_command_def)
    have "ws @ cn_watchers c' = cn_watchers c @ [(cn_next c, w)]" "cn_next c' = cn_next c + 1"
      using command_watchers [OF cmd] register_watchers [OF assms(1), of w] by simp_all
    then show ?thesis using Watched by (simp add: new_watchers_def del: mset_append)
  next
    case (Watch_event i)
    with assms show ?thesis
      by (auto simp: watch_cb_def new_watchers_def conn_inv_def um_keys_def um_find_def um_erase_def erase_found split: option.splits)
  next
    case (Reconnect env)
    obtain r where rc: "reconnect env c = (r, c')" "ws = (case r of Inl _ \<Rightarrow> [] | Inr ws \<Rightarrow> ws)"
      using Reconnect assms(2) by (cases "reconnect env c") auto
    then show ?thesis
      using Reconnect reconnect_watchers [OF rc(1)] by (auto simp: new_watchers_def split: sum.splits)
  qed
  then show "mset (ws @ cn_watchers c') = mset (cn_watchers c @ new_watchers op c)"
    "cn_next c' = cn_next c + length (new_watchers op c)" by simp_all
qed

lemma conn_step_inv:
  assumes "conn_inv c" and "conn_step op c = (ws, c')"
  shows "conn_inv c'"
proof -
  note step = conn_step_watchers [OF assms]
  have "mset (map fst (ws @ cn_watchers c')) = mset (map fst (cn_watchers c @ new_watchers op c))"
    using step(1) by (metis mset_map)
  moreover have "distinct (map fst (cn_watchers c @ new_watchers op c))"
    "\<forall>i \<in> set (map fst (cn_watchers c @ new_watchers op c)). i < cn_next c'"
    using assms(1) step(2) by (auto simp: conn_inv_def um_keys_def new_watchers_def split: conn_op.splits)
  ultimately have "distinct (map fst (ws @ cn_watchers c'))" "\<forall>i \<in> set (map fst (ws @ cn_watchers c')). i < cn_next c'"
    by (metis mset_eq_imp_distinct_iff, metis mset_eq_setD)
  then show ?thesis by (simp add: conn_inv_def um_keys_def)
qed

lemma conn_run_watchers:
  "conn_inv c \<Longrightarrow> conn_run ops c = (ws, c') \<Longrightarrow>
   mset (ws @ cn_watchers c') = mset (cn_watchers c @ zip [cn_next c..<cn_next c'] (registered ops)) \<and>
   cn_next c' = cn_next c + length (registered ops)"
proof (induction ops arbitrary: c ws)
  case (Cons op ops)
  obtain ws1 c1 ws2 where run: "conn_step op c = (ws1, c1)" "conn_run ops c1 = (ws2, c')" "ws = ws1 @ ws2"
    using Cons.prems(2) by (auto split: prod.splits)
  note step = conn_step_watchers [OF Cons.prems(1) run(1)]
  note ih = Cons.IH [OF conn_step_inv [OF Cons.prems(1) run(1)] run(2)]
  have "new_watchers op c @ zip [cn_next c1..<cn_next c'] (registered ops) =
      zip [cn_next c..<cn_next c'] (registered (op # ops)) \<and>
      cn_next c' = cn_next c + length (registered (op # ops))"
    using ih step(2) upt_conv_Cons [of "cn_next c" "cn_next c'"] by (cases op) (simp_all add: new_watchers_def del: upt_Suc)
  then show ?case using ih step(1) run(3) by (metis append.assoc mset_append union_commute)
qed simp

text \<open>
  Over every sequence of commands, watch events and reconnections, a
  watcher that was registered is either still in the table or has been called
  exactly once, by its event or by a reconnection; and a reconnection that
  succeeds leaves none in the table.
\<close>

theorem zk_watchers:
  assumes "cn_watchers c = []" and "conn_run ops c = (called, c')"
  shows "mset (called @ cn_watchers c') = mset (zip [cn_next c..<cn_next c'] (registered ops)) \<and>
    length (registered ops) = cn_next c' - cn_next c \<and>
    distinct (map fst called) \<and>
    (\<forall>env ws c2. reconnect env c' = (Inr ws, c2) \<longrightarrow> ws = cn_watchers c' \<and> cn_watchers c2 = [])"
proof -
  have inv: "conn_inv c" using assms(1) by (simp add: conn_inv_def um_keys_def)
  note run = conn_run_watchers [OF inv assms(2)]
  let ?z = "zip [cn_next c..<cn_next c'] (registered ops)"
  have "mset (map fst (called @ cn_watchers c')) = mset (map fst ?z)"
    using run assms(1) by (metis append_Nil mset_map)
  moreover have "map fst ?z = [cn_next c..<cn_next c']" using run by (simp add: map_fst_zip_take)
  ultimately have "distinct (map fst (called @ cn_watchers c'))" by (metis distinct_upt mset_eq_imp_distinct_iff)
  then show ?thesis using run assms(1) reconnect_watchers(3) by fastforce
qed

section \<open>The prefix: lemmas\<close>

lemma create_prefix_paths:
  assumes "components cs" and "cn_prefix c = slash_path cs" and "n \<le> length cs"
    and "\<forall>i < n. ze_rc (envs i) = ZOK \<or> ze_rc (envs i) = ZNODEEXISTS"
  shows "create_prefix_from envs n c = (Inr (), map (\<lambda>i. slash_path (take i cs)) [length cs + 1 - n..<length cs + 1], c)"
  using assms(3,4)
proof (induction n)
  case (Suc n)
  then have "path_parent (cn_prefix c) n = Inr (slash_path (take (length cs - n) cs))"
    using assms(1,2) by (auto simp: path_parent_components)
  moreover have "[length cs + 1 - Suc n..<length cs + 1] = (length cs - n) # [length cs + 1 - n..<length cs + 1]"
    using Suc.prems(1) upt_conv_Cons [of "length cs - n" "length cs + 1"] by (simp add: Suc_diff_le)
  ultimately show ?case using Suc by (simp del: upt_Suc)
qed simp

text \<open>
  A configured prefix is trimmed of trailing slashes, and the constructor
  creates its nodes from the shortest to the whole prefix, so that each is created
  after its parent; an existing node is no error. Paths handed to the client
  library are the requested paths behind this prefix.
\<close>

theorem zk_prefix:
  assumes "components cs" and "cs \<noteq> []" and "last cs \<noteq> []" and "ze_init1 env"
    and "\<forall>i. ze_rc (envs i) = ZOK \<or> ze_rc (envs i) = ZNODEEXISTS"
  shows "\<exists>c :: 'w conn. new_connection env envs (slash_path cs @ replicate n slash) =
      Inr (map (\<lambda>i. slash_path (take i cs)) [1..<length cs + 1], c) \<and>
    cn_watchers c = [] \<and>
    format_path c p = (if p = [] \<or> hd p \<noteq> slash then Inl Invalid_unicorn_path else Inr (slash_path cs @ p))"
proof -
  obtain ds d where cs: "cs = ds @ [d]" using assms(2) by (metis append_butlast_last_id)
  have d: "d \<noteq> []" "slash \<notin> set d" using assms(1,3) by (simp_all add: cs)
  then have "last d \<noteq> slash" by (metis last_in_set)
  with d have "last (slash_path cs) \<noteq> slash" by (simp add: cs slash_path_snoc)
  moreover have "slash_path cs \<noteq> []" using assms(2) by simp
  moreover have "dropWhile (\<lambda>c. c = slash) (replicate n slash @ y # ys) = y # ys" if "y \<noteq> slash" for y ys
    using that by (induction n) auto
  ultimately have trim: "trim_prefix (slash_path cs @ replicate n slash) = slash_path cs"
    by (cases "slash_path cs" rule: rev_cases) (auto simp: trim_prefix_def)
  have "hd (slash_path cs @ replicate n slash) = slash" using assms(2) by (cases cs) (auto simp: slash_path_def)
  moreover have "length (slashes (slash_path cs)) = length cs" by (simp add: slashes_path [OF assms(1)])
  moreover let ?c = "\<lparr>cn_prefix = slash_path cs, cn_session = ze_client env, cn_connected = True, cn_next = 1, cn_watchers = []\<rparr> :: 'w conn"
  have "create_prefix_from envs (length cs) ?c = (Inr (), map (\<lambda>i. slash_path (take i cs)) [1..<length cs + 1], ?c)"
    using create_prefix_paths [OF assms(1), of ?c "length cs" envs] assms(5) by (simp del: upt_Suc)
  ultimately have "new_connection env envs (slash_path cs @ replicate n slash) =
      Inr (map (\<lambda>i. slash_path (take i cs)) [1..<length cs + 1], ?c)"
    using assms(2,4) trim
    by (simp add: new_connection_def reconnect_def session_valid_def cancel_watches_def create_prefix_def del: upt_Suc)
  moreover have "cn_watchers ?c = []" "cn_prefix ?c = slash_path cs" by simp_all
  ultimately show ?thesis unfolding format_path_def by metis
qed

text \<open>
  A watched command registers its watcher before it checks the
  connection. If the handle has become unrecoverable, the successful reconnection
  cancels the watcher that was just registered, though the command itself is sent:
  a subscription is told that the session expired before it began. And if the
  command throws without a reconnection, the watcher stays in the table.
\<close>

theorem zk_watch_gaps:
  assumes "conn_inv c" and "p \<noteq> []" and "hd p = slash"
  shows "(ze_unrecoverable env \<and> ze_init1 env \<and> ze_rc env = ZOK \<longrightarrow>
      (\<exists>ws c'. zoo_watched_command env p w c = (Inr (cn_prefix c @ p), ws, c') \<and>
        (cn_next c, w) \<in> set ws \<and> cn_watchers c' = [])) \<and>
    (cn_connected c \<and> \<not> ze_unrecoverable env \<and> ze_rc env \<noteq> ZOK \<longrightarrow>
      (\<exists>x c'. zoo_watched_command env p w c = (Inl x, [], c') \<and> um_find (cn_next c) (cn_watchers c') = Some w))"
proof -
  have "um_find (cn_next c) (cn_watchers c @ [(cn_next c, w)]) = Some w"
    using um_find_insert [of "cn_next c" "cn_next c" w "cn_watchers c"] register_watchers [OF assms(1), of w] by simp
  then show ?thesis
    using assms by (auto simp: conn_defs session_valid_def format_path_def check_rc_def register_watchers)
qed

section \<open>Concrete connections\<close>

definition sample_env :: "bool \<Rightarrow> zoo_rc \<Rightarrow> zk_env" where
  "sample_env unrecoverable rc =
     \<lparr>ze_unrecoverable = unrecoverable, ze_init1 = True, ze_init2 = True, ze_client = 1, ze_rc = rc\<rparr>"

definition sample_conn :: "nat conn" where
  "sample_conn = \<lparr>cn_prefix = ''/p'', cn_session = 1, cn_connected = True, cn_next = 1, cn_watchers = []\<rparr>"

definition sample_conn_ops :: "nat conn_op list" where
  "sample_conn_ops =
     [Watched (sample_env False ZOK) ''/a'' 10, Watched (sample_env False ZOK) ''/b'' 20, Watch_event 1,
      Watched (sample_env True ZOK) ''/c'' 30, Watch_event 2, Watched (sample_env False ZCLOSING) ''/d'' 40]"

theorem zk_watchers_witness:
  "fst (conn_run sample_conn_ops sample_conn) = [(1, 10), (2, 20), (3, 30)] \<and>
   mset (fst (conn_run sample_conn_ops sample_conn) @ cn_watchers (snd (conn_run sample_conn_ops sample_conn))) =
     mset (zip [1..<5] [10, 20, 30, 40])"
proof -
  have "cn_watchers sample_conn = []" "registered sample_conn_ops = [10, 20, 30, 40]" "cn_next sample_conn = 1"
    "cn_next (snd (conn_run sample_conn_ops sample_conn)) = 5"
    "fst (conn_run sample_conn_ops sample_conn) = [(1, 10), (2, 20), (3, 30)]"
    by code_simp+
  then show ?thesis
    using zk_watchers [OF _ surjective_pairing, of sample_conn sample_conn_ops] by simp
qed

theorem zk_prefix_witness:
  "\<exists>c :: nat conn. new_connection (sample_env False ZOK) (\<lambda>_. sample_env False ZNODEEXISTS) ''/a/b//'' =
     Inr ([''/a'', ''/a/b''], c) \<and> format_path c ''/x'' = Inr ''/a/b/x''"
proof -
  have pre: "components [''a'', ''b'']" "ze_init1 (sample_env False ZOK)" "ze_rc (sample_env False ZNODEEXISTS) = ZNODEEXISTS"
    "slash_path [''a'', ''b''] @ replicate 2 slash = ''/a/b//''"
    "map (\<lambda>i. slash_path (take i [''a'', ''b''])) [1..<length [''a'', ''b''] + 1] = [''/a'', ''/a/b'']"
    "slash_path [''a'', ''b''] @ ''/x'' = ''/a/b/x''" "hd ''/x'' = slash"
    by code_simp+
  then show ?thesis
    using zk_prefix [of "[''a'', ''b'']" "sample_env False ZOK" "\<lambda>_. sample_env False ZNODEEXISTS" 2 "''/x''"]
    by fastforce
qed

theorem zk_watch_gaps_witness:
  "\<exists>ws c'. zoo_watched_command (sample_env True ZOK) ''/a'' 10 sample_conn = (Inr ''/p/a'', ws, c') \<and>
     (1, 10) \<in> set ws \<and> cn_watchers c' = []"
proof -
  have "conn_inv sample_conn" "hd ''/a'' = slash" "ze_unrecoverable (sample_env True ZOK)" "ze_init1 (sample_env True ZOK)"
    "ze_rc (sample_env True ZOK) = ZOK" "cn_prefix sample_conn @ ''/a'' = ''/p/a''" "cn_next sample_conn = 1"
    by code_simp+
  then show ?thesis using zk_watch_gaps [of sample_conn "''/a''" "sample_env True ZOK" 10] by simp
qed

end
