(* ===== verification/Zk_Unicorn.thy ===== *)
theory Zk_Unicorn
  imports Zk_Connection "HOL-Library.List_Lexorder" "HOL-Library.Char_ord"
begin

text \<open>
  The operations of the unicorn backend over ZooKeeper
  (\<^verbatim>\<open>src/unicorn/src/unicorn/zookeeper.cpp\<close>): each is an object that issues
  commands, receives their replies and watch events, and calls the client back.

  A handler is a function from the object to what it put out (commands, calls of
  the client, reconnections), the exception it threw if it did, and the object
  afterwards; so effects before an exception are kept.  Whether a command can be
  issued and whether a reconnection succeeds are arguments (\<open>zk_call\<close>), as are
  serialization and the numeric conversions of dynamic values (\<open>codec\<close>).
\<close>

section \<open>Commands, replies and what an operation puts out\<close>

record stat =
  st_version :: int
  st_cversion :: int
  st_children :: int

datatype zk_cmd =
    Zk_put string string int
  | Zk_get string bool
  | Zk_create string string bool bool
  | Zk_del string int
  | Zk_exists string bool
  | Zk_childs string bool

datatype zk_reply =
    Put_reply zoo_rc stat
  | Get_reply zoo_rc string stat
  | Create_reply zoo_rc string
  | Del_reply zoo_rc
  | Exists_reply zoo_rc stat
  | Children_reply zoo_rc "string list" stat
  | Watch_reply zoo_event zoo_state

datatype 'd response =
    R_put bool "'d versioned"
  | R_value "'d versioned"
  | R_bool bool
  | R_children int "string list"

datatype 'd emission =
    Issued zk_cmd
  | Called "(unicorn_error, 'd response) result"
  | Reconnecting
  | Escaped unicorn_error

record zk_call =
  zc_issue :: "zk_cmd \<Rightarrow> unicorn_error option"
  zc_reconnect :: bool

record 'd codec =
  cd_serialize :: "'d dynamic \<Rightarrow> string"
  cd_unserialize :: "string \<Rightarrow> (unicorn_error, 'd dynamic) result"
  cd_to_double :: "'d dynamic \<Rightarrow> 'd"
  cd_to_int64 :: "'d dynamic \<Rightarrow> u64"
  cd_add :: "'d \<Rightarrow> 'd \<Rightarrow> 'd"

definition existing :: "'d dynamic \<Rightarrow> int \<Rightarrow> 'd versioned" where
  "existing v n = \<lparr>vv_exists = True, vv_version = n, vv_value = v\<rparr>"

definition not_existing :: "'d versioned" where
  "not_existing = \<lparr>vv_exists = False, vv_version = -1, vv_value = D_null\<rparr>"

section \<open>Operations\<close>

record 'd lock_state =
  lk_folder :: string
  lk_path :: string
  lk_created :: string
  lk_prev :: string
  lk_value :: "'d dynamic"
  lk_depth :: nat
  lk_parent :: bool

datatype 'd kind =
    Put_action string "'d dynamic" int
  | Get_action string
  | Create_action string "'d dynamic" bool bool nat
  | Del_action string int
  | Subscribe_action string
  | Children_action string
  | Increment_action string "'d dynamic"
  | Lock_action "'d lock_state"

record 'd act =
  ac_closed :: bool
  ac_kind :: "'d kind"

type_synonym 'd handled = "'d emission list \<times> unicorn_error option \<times> 'd act"

definition throw :: "unicorn_error \<Rightarrow> 'd act \<Rightarrow> 'd handled" where
  "throw x a = ([], Some x, a)"

definition issue :: "zk_call \<Rightarrow> zk_cmd \<Rightarrow> 'd act \<Rightarrow> 'd handled" where
  "issue zc cmd a = (case zc_issue zc cmd of None \<Rightarrow> ([Issued cmd], None, a) | Some x \<Rightarrow> ([], Some x, a))"

definition satisfy :: "'d response \<Rightarrow> 'd act \<Rightarrow> 'd handled" where
  "satisfy r a = (if ac_closed a then ([], None, a) else ([Called (Inr r)], None, a))"

definition andThen :: "'d handled \<Rightarrow> ('d act \<Rightarrow> 'd handled) \<Rightarrow> 'd handled" where
  "andThen h k =
     (case h of
        (out, Some x, a) \<Rightarrow> (out, Some x, a)
      | (out, None, a) \<Rightarrow> (case k a of (out', x, a') \<Rightarrow> (out @ out', x, a')))"

text \<open>The client library takes versions as 32-bit integers: the 64-bit version is narrowed.\<close>

definition narrow :: "int \<Rightarrow> int" where
  "narrow v = sint (word_of_int v :: 32 word)"

definition parent_of :: "string \<Rightarrow> nat \<Rightarrow> (string \<Rightarrow> 'd act \<Rightarrow> 'd handled) \<Rightarrow> 'd act \<Rightarrow> 'd handled" where
  "parent_of p d k a = (case path_parent p d of Inl x \<Rightarrow> throw x a | Inr q \<Rightarrow> k q a)"

definition put_on_put :: "zk_call \<Rightarrow> string \<Rightarrow> 'd dynamic \<Rightarrow> zoo_rc \<Rightarrow> stat \<Rightarrow> 'd act \<Rightarrow> 'd handled" where
  "put_on_put zc p v rc st a =
     (if rc = ZBADVERSION then issue zc (Zk_get p False) a
      else if rc \<noteq> ZOK then throw (map_zoo_error rc) a
      else satisfy (R_put True (existing v (st_version st))) a)"

definition put_on_get :: "'d codec \<Rightarrow> zoo_rc \<Rightarrow> string \<Rightarrow> stat \<Rightarrow> 'd act \<Rightarrow> 'd handled" where
  "put_on_get cd rc data st a =
     (if rc \<noteq> ZOK then throw (map_zoo_error rc) a
      else case cd_unserialize cd data of
             Inl x \<Rightarrow> throw x a
           | Inr v \<Rightarrow> satisfy (R_put False (existing v (st_version st))) a)"

definition get_on_get :: "'d codec \<Rightarrow> zoo_rc \<Rightarrow> string \<Rightarrow> stat \<Rightarrow> 'd act \<Rightarrow> 'd handled" where
  "get_on_get cd rc data st a =
     (if rc \<noteq> ZOK
      then if rc = ZNONODE then satisfy (R_value not_existing) a else throw (map_zoo_error rc) a
      else if st_children st \<noteq> 0 then throw Child_not_allowed a
      else case cd_unserialize cd data of
             Inl x \<Rightarrow> throw x a
           | Inr v \<Rightarrow> satisfy (R_value (existing v (st_version st))) a)"

definition create_on_create ::
  "'d codec \<Rightarrow> zk_call \<Rightarrow> string \<Rightarrow> 'd dynamic \<Rightarrow> bool \<Rightarrow> bool \<Rightarrow> nat \<Rightarrow> zoo_rc \<Rightarrow> 'd act \<Rightarrow> 'd handled" where
  "create_on_create cd zc p v eph seq depth rc a =
     (let set_depth = (\<lambda>d. a\<lparr>ac_kind := Create_action p v eph seq d\<rparr>) in
      if rc = ZOK
      then if depth = 0 then satisfy (R_bool True) a
           else if depth = 1 then issue zc (Zk_create p (cd_serialize cd v) eph seq) (set_depth 0)
           else parent_of p (depth - 1) (\<lambda>q. issue zc (Zk_create q [] False False)) (set_depth (depth - 1))
      else if rc = ZNONODE
      then parent_of p (depth + 1) (\<lambda>q. issue zc (Zk_create q [] False False)) (set_depth (depth + 1))
      else throw (map_zoo_error rc) a)"

definition del_on_del :: "zoo_rc \<Rightarrow> 'd act \<Rightarrow> 'd handled" where
  "del_on_del rc a = (if rc \<noteq> ZOK then throw (map_zoo_error rc) a else satisfy (R_bool True) a)"

definition subscribe_on_get :: "'d codec \<Rightarrow> zoo_rc \<Rightarrow> string \<Rightarrow> stat \<Rightarrow> 'd act \<Rightarrow> 'd handled" where
  "subscribe_on_get cd rc data st a =
     (if rc \<noteq> ZOK then throw (map_zoo_error rc) a
      else if st_children st \<noteq> 0 then throw Child_not_allowed a
      else case cd_unserialize cd data of
             Inl x \<Rightarrow> throw x a
           | Inr v \<Rightarrow> satisfy (R_value (existing v (st_version st))) a)"

definition subscribe_on_exists :: "zk_call \<Rightarrow> string \<Rightarrow> zoo_rc \<Rightarrow> 'd act \<Rightarrow> 'd handled" where
  "subscribe_on_exists zc p rc a =
     (if rc = ZOK then issue zc (Zk_get p False) a else satisfy (R_value not_existing) a)"

definition subscribe_on_watch :: "zk_call \<Rightarrow> string \<Rightarrow> zoo_event \<Rightarrow> zoo_state \<Rightarrow> 'd act \<Rightarrow> 'd handled" where
  "subscribe_on_watch zc p type state a =
     (if ac_closed a then ([], None, a)
      else if type = ZOO_CREATED_EVENT \<or> type = ZOO_CHANGED_EVENT \<or>
              type = ZOO_SESSION_EVENT \<and> state = ZOO_CONNECTED_STATE
      then issue zc (Zk_get p True) a
      else if type = ZOO_DELETED_EVENT then throw (map_zoo_error ZNONODE) a
      else if type = ZOO_CHILD_EVENT then throw Child_not_allowed a
      else throw Connection_loss a)"

definition children_on_children :: "zoo_rc \<Rightarrow> string list \<Rightarrow> stat \<Rightarrow> 'd act \<Rightarrow> 'd handled" where
  "children_on_children rc cs st a =
     (if rc \<noteq> ZOK then throw (map_zoo_error rc) a else satisfy (R_children (st_cversion st) cs) a)"

definition children_on_watch :: "zk_call \<Rightarrow> string \<Rightarrow> zoo_event \<Rightarrow> zoo_state \<Rightarrow> 'd act \<Rightarrow> 'd handled" where
  "children_on_watch zc p type state a =
     (if ac_closed a then ([], None, a)
      else if type = ZOO_DELETED_EVENT then throw No_node a
      else if type = ZOO_CHILD_EVENT \<or> type = ZOO_SESSION_EVENT \<and> state = ZOO_CONNECTED_STATE
      then issue zc (Zk_childs p True) a
      else throw Connection_loss a)"

fun is_double :: "'d dynamic \<Rightarrow> bool" where
  "is_double (D_double d) = True"
| "is_double _ = False"

fun is_int :: "'d dynamic \<Rightarrow> bool" where
  "is_int (D_int i) = True"
| "is_int _ = False"

definition is_number :: "'d dynamic \<Rightarrow> bool" where
  "is_number v \<longleftrightarrow> is_double v \<or> is_int v \<or> is_uint v"

text \<open>
  The sum: floating point as soon as one of the two is, else 64-bit integers. (An
  overflow of the signed addition, undefined in the code, wraps here.)
\<close>

definition sum_value :: "'d codec \<Rightarrow> 'd dynamic \<Rightarrow> 'd dynamic \<Rightarrow> 'd dynamic" where
  "sum_value cd parsed v =
     (if is_double parsed \<or> is_double v
      then D_double (cd_add cd (cd_to_double cd parsed) (cd_to_double cd v))
      else D_int (cd_to_int64 cd parsed + cd_to_int64 cd v))"

definition increment_on_get ::
  "'d codec \<Rightarrow> zk_call \<Rightarrow> string \<Rightarrow> 'd dynamic \<Rightarrow> zoo_rc \<Rightarrow> string \<Rightarrow> stat \<Rightarrow> 'd act \<Rightarrow> 'd handled" where
  "increment_on_get cd zc p v rc data st a =
     (if rc = ZNONODE then issue zc (Zk_create p (cd_serialize cd v) False False) a
      else if rc \<noteq> ZOK then throw (map_zoo_error rc) a
      else case cd_unserialize cd data of
             Inl x \<Rightarrow> throw x a
           | Inr parsed \<Rightarrow>
               if st_children st \<noteq> 0 then throw Child_not_allowed a
               else if \<not> is_number parsed then throw Invalid_type a
               else let v' = sum_value cd parsed v in
                 issue zc (Zk_put p (cd_serialize cd v') (narrow (st_version st)))
                   (a\<lparr>ac_kind := Increment_action p v'\<rparr>))"

definition increment_on_put :: "'d dynamic \<Rightarrow> zoo_rc \<Rightarrow> stat \<Rightarrow> 'd act \<Rightarrow> 'd handled" where
  "increment_on_put v rc st a =
     (if rc \<noteq> ZOK then throw (map_zoo_error rc) a else satisfy (R_value (existing v (st_version st))) a)"

definition increment_on_create :: "'d dynamic \<Rightarrow> zoo_rc \<Rightarrow> 'd act \<Rightarrow> 'd handled" where
  "increment_on_create v rc a =
     (if rc \<noteq> ZOK then throw (map_zoo_error rc) a else satisfy (R_value (existing v 0)) a)"

section \<open>Locks\<close>

definition new_lock :: "string \<Rightarrow> 'd dynamic \<Rightarrow> 'd lock_state" where
  "new_lock folder v =
     \<lparr>lk_folder = folder, lk_path = folder @ ''/lock'', lk_created = [], lk_prev = [], lk_value = v,
      lk_depth = 0, lk_parent = False\<rparr>"

definition set_lock :: "'d lock_state \<Rightarrow> 'd act \<Rightarrow> 'd act" where
  "set_lock l a = a\<lparr>ac_kind := Lock_action l\<rparr>"

definition lock_on_create :: "'d codec \<Rightarrow> zk_call \<Rightarrow> 'd lock_state \<Rightarrow> zoo_rc \<Rightarrow> string \<Rightarrow> 'd act \<Rightarrow> 'd handled" where
  "lock_on_create cd zc l rc created a =
     (if rc = ZOK
      then if lk_depth l = 0
           then let a' = set_lock (l\<lparr>lk_created := created\<rparr>) a in
                if \<not> ac_closed a then issue zc (Zk_childs (lk_folder l) False) a'
                else issue zc (Zk_del created (-1)) a'
           else if lk_depth l = 1
           then issue zc (Zk_create (lk_path l) (cd_serialize cd (lk_value l)) True True) (set_lock (l\<lparr>lk_depth := 0\<rparr>) a)
           else parent_of (lk_path l) (lk_depth l - 1) (\<lambda>q. issue zc (Zk_create q [] False False))
                  (set_lock (l\<lparr>lk_depth := lk_depth l - 1\<rparr>) a)
      else if rc = ZNONODE
      then parent_of (lk_path l) (lk_depth l + 1) (\<lambda>q. issue zc (Zk_create q [] False False))
             (set_lock (l\<lparr>lk_depth := lk_depth l + 1\<rparr>) a)
      else throw (map_zoo_error rc) a)"

text \<open>The iterator before the first element of the sorted children that is not less than the node.\<close>

definition previous :: "string \<Rightarrow> string list \<Rightarrow> string" where
  "previous node children = last (takeWhile (\<lambda>c. c < node) children)"

definition lock_on_children :: "zk_call \<Rightarrow> 'd lock_state \<Rightarrow> zoo_rc \<Rightarrow> string list \<Rightarrow> 'd act \<Rightarrow> 'd handled" where
  "lock_on_children zc l rc cs a =
     (if rc \<noteq> ZOK then throw (map_zoo_error rc) a
      else let children = sort cs in
        case get_node_name (lk_created l) of
          Inl x \<Rightarrow> throw x a
        | Inr node \<Rightarrow>
            if node \<notin> set children then throw Uncategorized a
            else andThen
              (if hd children = node then satisfy (R_bool True) a
               else let prev = previous node children in
                 if \<not> is_valid_sequence_node prev then throw Uncategorized a
                 else let path = lk_folder l @ ''/'' @ prev in
                   issue zc (Zk_exists path True) (set_lock (l\<lparr>lk_prev := path\<rparr>) a))
              (issue zc (Zk_get (lk_created l) True)))"

definition lock_on_get :: "zoo_rc \<Rightarrow> 'd act \<Rightarrow> 'd handled" where
  "lock_on_get rc a = (if rc \<noteq> ZOK then throw (map_zoo_error rc) a else ([], None, a))"

definition lock_on_exists :: "zk_call \<Rightarrow> 'd lock_state \<Rightarrow> zoo_rc \<Rightarrow> 'd act \<Rightarrow> 'd handled" where
  "lock_on_exists zc l rc a =
     (if rc = ZNONODE then issue zc (Zk_childs (lk_folder l) False) a
      else if rc \<noteq> ZOK then throw (map_zoo_error rc) a
      else ([], None, a))"

definition lock_on_watch :: "zk_call \<Rightarrow> 'd lock_state \<Rightarrow> zoo_event \<Rightarrow> 'd act \<Rightarrow> 'd handled" where
  "lock_on_watch zc l type a =
     (if type = ZOO_DELETED_EVENT then issue zc (Zk_childs (lk_folder l) False) a else throw Connection_loss a)"

definition zk_reconnect :: "zk_call \<Rightarrow> 'd act \<Rightarrow> 'd handled" where
  "zk_reconnect zc a = ([Reconnecting], if zc_reconnect zc then None else Some Connection_loss, a)"

definition lock_on_del :: "zk_call \<Rightarrow> zoo_rc \<Rightarrow> 'd act \<Rightarrow> 'd handled" where
  "lock_on_del zc rc a = (if rc \<noteq> ZOK then zk_reconnect zc a else ([], None, a))"

text \<open>
  The lock's scope deletes the created node, and reconnects when it cannot: the
  node is ephemeral. An exception of the reconnection leaves it.
\<close>

definition on_abort :: "zk_call \<Rightarrow> 'd act \<Rightarrow> 'd handled" where
  "on_abort zc a =
     (case ac_kind a of
        Lock_action l \<Rightarrow>
          if lk_parent l \<and> lk_created l \<noteq> []
          then andThen
            (case issue zc (Zk_del (lk_created l) (-1)) a of
               (out, None, a1) \<Rightarrow> (out, None, a1)
             | (out, Some _, a1) \<Rightarrow> (case zk_reconnect zc a1 of (out', x, a2) \<Rightarrow> (out @ out', x, a2)))
            (\<lambda>a1. ([], None, set_lock (l\<lparr>lk_parent := False\<rparr>) a1))
          else ([], None, a)
      | _ \<Rightarrow> ([], None, a))"

section \<open>Handling of replies\<close>

text \<open>Replies whose type the class of the operation does not handle cannot be delivered to it.\<close>

fun on_reply :: "'d codec \<Rightarrow> zk_call \<Rightarrow> zk_reply \<Rightarrow> 'd kind \<Rightarrow> 'd act \<Rightarrow> 'd handled" where
  "on_reply cd zc (Put_reply rc st) (Put_action p v n) a = put_on_put zc p v rc st a"
| "on_reply cd zc (Get_reply rc data st) (Put_action p v n) a = put_on_get cd rc data st a"
| "on_reply cd zc (Get_reply rc data st) (Get_action p) a = get_on_get cd rc data st a"
| "on_reply cd zc (Create_reply rc q) (Create_action p v eph seq depth) a = create_on_create cd zc p v eph seq depth rc a"
| "on_reply cd zc (Del_reply rc) (Del_action p n) a = del_on_del rc a"
| "on_reply cd zc (Get_reply rc data st) (Subscribe_action p) a = subscribe_on_get cd rc data st a"
| "on_reply cd zc (Exists_reply rc st) (Subscribe_action p) a = subscribe_on_exists zc p rc a"
| "on_reply cd zc (Watch_reply t s) (Subscribe_action p) a = subscribe_on_watch zc p t s a"
| "on_reply cd zc (Children_reply rc cs st) (Children_action p) a = children_on_children rc cs st a"
| "on_reply cd zc (Watch_reply t s) (Children_action p) a = children_on_watch zc p t s a"
| "on_reply cd zc (Get_reply rc data st) (Increment_action p v) a = increment_on_get cd zc p v rc data st a"
| "on_reply cd zc (Put_reply rc st) (Increment_action p v) a = increment_on_put v rc st a"
| "on_reply cd zc (Create_reply rc q) (Increment_action p v) a = increment_on_create v rc a"
| "on_reply cd zc (Create_reply rc q) (Lock_action l) a = lock_on_create cd zc l rc q a"
| "on_reply cd zc (Children_reply rc cs st) (Lock_action l) a = lock_on_children zc l rc cs a"
| "on_reply cd zc (Get_reply rc data st) (Lock_action l) a = lock_on_get rc a"
| "on_reply cd zc (Exists_reply rc st) (Lock_action l) a = lock_on_exists zc l rc a"
| "on_reply cd zc (Watch_reply t s) (Lock_action l) a = lock_on_watch zc l t a"
| "on_reply cd zc (Del_reply rc) (Lock_action l) a = lock_on_del zc rc a"
| "on_reply cd zc _ _ a = ([], None, a)"

text \<open>An exception that \<^verbatim>\<open>on_abort\<close> throws passes through to the client library.\<close>

definition abort_with :: "zk_call \<Rightarrow> unicorn_error \<Rightarrow> 'd act \<Rightarrow> 'd emission list \<times> 'd act" where
  "abort_with zc x a =
     (case on_abort zc a of
        (out, Some y, a1) \<Rightarrow> (out @ [Escaped y], a1)
      | (out, None, a1) \<Rightarrow>
          (out @ (if ac_closed a1 then [] else [Called (Inl x)]), a1\<lparr>ac_closed := True\<rparr>))"

definition handle :: "'d codec \<Rightarrow> zk_call \<Rightarrow> zk_reply \<Rightarrow> 'd act \<Rightarrow> 'd emission list \<times> 'd act" where
  "handle cd zc r a =
     (case on_reply cd zc r (ac_kind a) a of
        (out, None, a1) \<Rightarrow> (out, a1)
      | (out, Some x, a1) \<Rightarrow> (case abort_with zc x a1 of (out', a2) \<Rightarrow> (out @ out', a2)))"

definition close_scope :: "zk_call \<Rightarrow> 'd act \<Rightarrow> 'd emission list \<times> 'd act" where
  "close_scope zc a =
     (case ac_kind a of
        Lock_action l \<Rightarrow>
          if ac_closed a then ([], a)
          else (case on_abort zc a of
                  (out, Some y, a1) \<Rightarrow> (out @ [Escaped y], a1)
                | (out, None, a1) \<Rightarrow> (out, a1\<lparr>ac_closed := True\<rparr>))
      | _ \<Rightarrow> ([], a\<lparr>ac_closed := True\<rparr>))"

fun run :: "'d codec \<Rightarrow> zk_call \<Rightarrow> 'd kind \<Rightarrow> 'd act \<Rightarrow> 'd handled" where
  "run cd zc (Put_action p v n) a =
     (if n < 0 then throw Version_not_allowed a else issue zc (Zk_put p (cd_serialize cd v) (narrow n)) a)"
| "run cd zc (Get_action p) a = issue zc (Zk_get p False) a"
| "run cd zc (Create_action p v eph seq depth) a = issue zc (Zk_create p (cd_serialize cd v) eph seq) a"
| "run cd zc (Del_action p n) a = issue zc (Zk_del p (narrow n)) a"
| "run cd zc (Subscribe_action p) a = issue zc (Zk_exists p True) a"
| "run cd zc (Children_action p) a = issue zc (Zk_childs p True) a"
| "run cd zc (Increment_action p v) a =
     (if \<not> is_number v then throw Invalid_type a else issue zc (Zk_get p False) a)"
| "run cd zc (Lock_action l) a =
     issue zc (Zk_create (lk_path l) (cd_serialize cd (lk_value l)) True True) (set_lock (l\<lparr>lk_parent := True\<rparr>) a)"

text \<open>\<^verbatim>\<open>run_command\<close>: an exception is handed to the executor, which aborts the operation later.\<close>

definition run_command :: "'d codec \<Rightarrow> zk_call \<Rightarrow> 'd kind \<Rightarrow> 'd handled" where
  "run_command cd zc k = run cd zc k \<lparr>ac_closed = False, ac_kind = k\<rparr>"

section \<open>Runs of one operation\<close>

text \<open>
  An operation with its unanswered commands, the aborts the executor still has to
  run, whether the client has closed its scope, everything put out so far, and the
  replies so far with the commands they answer. Every command that was issued is answered once; watch events are delivered at
  any time. A created node has a name.
\<close>

record 'd mach =
  m_act :: "'d act"
  m_pending :: "zk_cmd list"
  m_tasks :: "unicorn_error list"
  m_closed :: bool
  m_out :: "'d emission list"
  m_answered :: "(zk_cmd \<times> zk_reply) list"

fun answers :: "zk_cmd \<Rightarrow> zk_reply \<Rightarrow> bool" where
  "answers (Zk_put p d n) (Put_reply rc st) = True"
| "answers (Zk_get p w) (Get_reply rc d st) = True"
| "answers (Zk_create p d e s) (Create_reply rc q) = (rc = ZOK \<longrightarrow> q \<noteq> [])"
| "answers (Zk_del p n) (Del_reply rc) = True"
| "answers (Zk_exists p w) (Exists_reply rc st) = True"
| "answers (Zk_childs p w) (Children_reply rc cs st) = True"
| "answers _ _ = False"

fun issued :: "'d emission list \<Rightarrow> zk_cmd list" where
  "issued [] = []"
| "issued (Issued c # es) = c # issued es"
| "issued (_ # es) = issued es"

fun calls :: "'d emission list \<Rightarrow> (unicorn_error, 'd response) result list" where
  "calls [] = []"
| "calls (Called r # es) = r # calls es"
| "calls (_ # es) = calls es"

definition emit :: "'d emission list \<times> 'd act \<Rightarrow> 'd mach \<Rightarrow> 'd mach" where
  "emit h m = m\<lparr>m_act := snd h, m_pending := m_pending m @ issued (fst h), m_out := m_out m @ fst h\<rparr>"

definition start :: "'d codec \<Rightarrow> zk_call \<Rightarrow> 'd kind \<Rightarrow> 'd mach" where
  "start cd zc k =
     (case run_command cd zc k of (out, x, a) \<Rightarrow>
        emit (out, a) \<lparr>m_act = a, m_pending = [], m_tasks = (case x of None \<Rightarrow> [] | Some e \<Rightarrow> [e]), m_closed = False, m_out = [],
          m_answered = []\<rparr>)"

inductive zk_step :: "'d codec \<Rightarrow> 'd mach \<Rightarrow> 'd mach \<Rightarrow> bool" for cd where
  Reply: "cmd \<in> set (m_pending m) \<Longrightarrow> answers cmd r \<Longrightarrow>
     zk_step cd m (emit (handle cd zc r (m_act m)) 
       (m\<lparr>m_pending := remove1 cmd (m_pending m), m_answered := m_answered m @ [(cmd, r)]\<rparr>))"
| Watch: "zk_step cd m (emit (handle cd zc (Watch_reply t s) (m_act m)) m)"
| Task: "x \<in> set (m_tasks m) \<Longrightarrow>
     zk_step cd m (emit (abort_with zc x (m_act m)) (m\<lparr>m_tasks := remove1 x (m_tasks m)\<rparr>))"
| Close: "zk_step cd m (emit (close_scope zc (m_act m)) (m\<lparr>m_closed := True\<rparr>))"

inductive zk_reachable :: "'d codec \<Rightarrow> 'd kind \<Rightarrow> 'd mach \<Rightarrow> bool" for cd k where
  Start: "zk_reachable cd k (start cd zc k)"
| Step: "zk_reachable cd k m \<Longrightarrow> zk_step cd m m' \<Longrightarrow> zk_reachable cd k m'"

lemma issued_append [simp]: "issued (xs @ ys) = issued xs @ issued ys"
  by (induction xs rule: issued.induct) auto

lemma calls_append [simp]: "calls (xs @ ys) = calls xs @ calls ys"
  by (induction xs rule: calls.induct) auto

lemma emit_simps [simp]:
  "m_act (emit h m) = snd h" "m_pending (emit h m) = m_pending m @ issued (fst h)" "m_tasks (emit h m) = m_tasks m"
  "m_closed (emit h m) = m_closed m" "m_out (emit h m) = m_out m @ fst h" "m_answered (emit h m) = m_answered m"
  by (simp_all add: emit_def)

lemmas prim_defs = throw_def issue_def satisfy_def parent_of_def zk_reconnect_def andThen_def set_lock_def

lemmas one_shot_defs = put_on_put_def put_on_get_def get_on_get_def create_on_create_def del_on_del_def
  increment_on_get_def increment_on_put_def increment_on_create_def

lemmas stream_defs = subscribe_on_get_def subscribe_on_exists_def subscribe_on_watch_def
  children_on_children_def children_on_watch_def

lemmas lock_defs = lock_on_create_def lock_on_children_def lock_on_get_def lock_on_exists_def lock_on_watch_def lock_on_del_def

section \<open>Callbacks: lemmas\<close>

text \<open>What a handler itself may do: no scope is closed by it, and it calls back with a value at most, and only while the scope is open.\<close>

definition quiet :: "'d act \<Rightarrow> 'd handled \<Rightarrow> bool" where
  "quiet a h \<longleftrightarrow> ac_closed (snd (snd h)) = ac_closed a \<and>
     (\<exists>rs. calls (fst h) = map Inr rs \<and> (ac_closed a \<longrightarrow> rs = []))"

named_theorems quiet_intros

lemma quiet_throw [quiet_intros]: "ac_closed a' = ac_closed a \<Longrightarrow> quiet a (throw x a')"
  by (simp add: quiet_def throw_def)

lemma quiet_issue [quiet_intros]: "ac_closed a' = ac_closed a \<Longrightarrow> quiet a (issue zc cmd a')"
  by (simp add: quiet_def issue_def split: option.split)

lemma quiet_satisfy [quiet_intros]: "ac_closed a' = ac_closed a \<Longrightarrow> quiet a (satisfy r a')"
  unfolding quiet_def satisfy_def by (cases "ac_closed a") (auto intro: exI [of _ "[r]"])

lemma quiet_nothing [quiet_intros]: "ac_closed a' = ac_closed a \<Longrightarrow> quiet a ([], x, a')"
  by (simp add: quiet_def)

lemma quiet_reconnect [quiet_intros]: "ac_closed a' = ac_closed a \<Longrightarrow> quiet a (zk_reconnect zc a')"
  by (simp add: quiet_def zk_reconnect_def)

lemma quiet_parent_of [quiet_intros]:
  "ac_closed a' = ac_closed a \<Longrightarrow> (\<And>q. quiet a (k q a')) \<Longrightarrow> quiet a (parent_of p d k a')"
  by (simp add: parent_of_def quiet_throw split: sum.split)

lemma quiet_andThen [quiet_intros]:
  assumes "quiet a h" and "\<And>a'. ac_closed a' = ac_closed a \<Longrightarrow> quiet a (k a')"
  shows "quiet a (andThen h k)"
proof (cases h)
  case (fields out x a1)
  show ?thesis
  proof (cases x)
    case None
    obtain out' x' a' where k: "k a1 = (out', x', a')" by (cases "k a1")
    from assms(1) fields None obtain rs where rs: "calls out = map Inr rs" "ac_closed a \<longrightarrow> rs = []" "ac_closed a1 = ac_closed a"
      by (auto simp: quiet_def)
    with assms(2) [of a1] k obtain rs' where "calls out' = map Inr rs'" "ac_closed a \<longrightarrow> rs' = []" "ac_closed a' = ac_closed a"
      by (auto simp: quiet_def)
    with rs fields None k show ?thesis by (auto simp: quiet_def andThen_def intro: exI [of _ "rs @ rs'"])
  qed (use assms(1) fields in \<open>auto simp: andThen_def\<close>)
qed

lemma quiet_on_reply: "quiet a (on_reply cd zc r k a)"
  by (cases "(cd, zc, r, k, a)" rule: on_reply.cases)
    (simp_all add: one_shot_defs stream_defs lock_defs Let_def quiet_intros set_lock_def split: sum.split)

lemma on_abort_quiet: "calls (fst (on_abort zc a)) = []" "ac_closed (snd (snd (on_abort zc a))) = ac_closed a"
  by (auto simp: on_abort_def prim_defs split: kind.split option.split)

lemma abort_calls:
  assumes "abort_with zc x a = (out, a')"
  shows "\<exists>es. calls out = map Inl es \<and> length es \<le> 1 \<and> (es \<noteq> [] \<longrightarrow> ac_closed a' \<and> \<not> ac_closed a) \<and> (ac_closed a \<longrightarrow> ac_closed a')"
  using assms on_abort_quiet [of zc a]
  by (auto simp: abort_with_def split: prod.splits option.splits intro: exI [of _ "[x]"])

lemma close_calls: "close_scope zc a = (out, a') \<Longrightarrow> calls out = [] \<and> (ac_closed a \<longrightarrow> ac_closed a')"
  using on_abort_quiet [of zc a] by (auto simp: close_scope_def split: kind.splits prod.splits option.splits if_splits)

text \<open>One reply: values, then at most one error, which closes the scope; nothing once it is closed.\<close>

lemma handle_calls:
  assumes "handle cd zc r a = (out, a')"
  shows "\<exists>rs es. calls out = map Inr rs @ map Inl es \<and> length es \<le> 1 \<and> (es \<noteq> [] \<longrightarrow> ac_closed a') \<and>
    (ac_closed a \<longrightarrow> rs = [] \<and> es = [] \<and> ac_closed a')"
proof -
  obtain out1 x a1 where h: "on_reply cd zc r (ac_kind a) a = (out1, x, a1)" by (cases "on_reply cd zc r (ac_kind a) a")
  with quiet_on_reply [of a cd zc r "ac_kind a"] obtain rs
    where rs: "calls out1 = map Inr rs" "ac_closed a \<longrightarrow> rs = []" "ac_closed a1 = ac_closed a"
    by (auto simp: quiet_def)
  show ?thesis
  proof (cases x)
    case None
    with assms h rs show ?thesis by (intro exI [of _ rs], intro exI [of _ "[]"]) (auto simp: handle_def)
  next
    case (Some e)
    obtain out2 a2 where ab: "abort_with zc e a1 = (out2, a2)" by (cases "abort_with zc e a1")
    from abort_calls [OF this] obtain es where "calls out2 = map Inl es" "length es \<le> 1"
      "es \<noteq> [] \<longrightarrow> ac_closed a2 \<and> \<not> ac_closed a1" "ac_closed a1 \<longrightarrow> ac_closed a2" by blast
    with assms h Some ab rs show ?thesis by (auto simp: handle_def intro!: exI [of _ rs] exI [of _ es])
  qed
qed

lemma run_quiet: "calls (fst (run_command cd zc k)) = [] \<and> \<not> ac_closed (snd (snd (run_command cd zc k)))"
  by (cases k) (auto simp: run_command_def prim_defs split: option.split)

definition callbacks_ok :: "'d mach \<Rightarrow> bool" where
  "callbacks_ok m \<longleftrightarrow> (\<exists>rs es. calls (m_out m) = map Inr rs @ map Inl es \<and> length es \<le> 1 \<and> (es \<noteq> [] \<longrightarrow> ac_closed (m_act m)))"

text \<open>The shape is kept by putting out anything of that shape, and nothing on a closed scope.\<close>

lemma callbacks_emit:
  assumes "callbacks_ok m" and "calls (fst h) = map Inr rs @ map Inl es" and "length es \<le> 1" and "es \<noteq> [] \<longrightarrow> ac_closed (snd h)"
    and "ac_closed (m_act m) \<longrightarrow> rs = [] \<and> es = [] \<and> ac_closed (snd h)" and "m_out m' = m_out m"
  shows "callbacks_ok (emit h m')"
proof -
  obtain rs0 es0 where m: "calls (m_out m) = map Inr rs0 @ map Inl es0" "length es0 \<le> 1" "es0 \<noteq> [] \<longrightarrow> ac_closed (m_act m)"
    using assms(1) by (auto simp: callbacks_ok_def)
  show ?thesis
  proof (cases "es0 = []")
    case True
    with m assms(2-6) show ?thesis
      unfolding callbacks_ok_def by (intro exI [of _ "rs0 @ rs"] exI [of _ es]) simp
  next
    case False
    with m assms(2-6) show ?thesis
      unfolding callbacks_ok_def by (intro exI [of _ rs0] exI [of _ es0]) simp
  qed
qed

lemma callbacks_handle:
  assumes "callbacks_ok m" and "m_out m' = m_out m"
  shows "callbacks_ok (emit (handle cd zc r (m_act m)) m')"
proof -
  obtain out a' where h: "handle cd zc r (m_act m) = (out, a')" by (cases "handle cd zc r (m_act m)")
  from handle_calls [OF h] obtain rs es where "calls out = map Inr rs @ map Inl es" "length es \<le> 1"
    "es \<noteq> [] \<longrightarrow> ac_closed a'" "ac_closed (m_act m) \<longrightarrow> rs = [] \<and> es = [] \<and> ac_closed a'" by blast
  then show ?thesis using assms by (intro callbacks_emit [of m _ rs es]) (simp_all add: h)
qed

lemma callbacks_step: "zk_step cd m m' \<Longrightarrow> callbacks_ok m \<Longrightarrow> callbacks_ok m'"
proof (induction rule: zk_step.induct)
  case (Reply cmd m r zc)
  then show ?case by (simp add: callbacks_handle)
next
  case (Watch m zc t s)
  then show ?case by (simp add: callbacks_handle)
next
  case (Task x m zc)
  obtain out a' where h: "abort_with zc x (m_act m) = (out, a')" by (cases "abort_with zc x (m_act m)")
  from abort_calls [OF h] obtain es where "calls out = map Inl es" "length es \<le> 1"
    "es \<noteq> [] \<longrightarrow> ac_closed a' \<and> \<not> ac_closed (m_act m)" "ac_closed (m_act m) \<longrightarrow> ac_closed a'" by blast
  then show ?case using Task(2) by (intro callbacks_emit [of m _ "[]" es]) (auto simp: h)
next
  case (Close m zc)
  obtain out a' where h: "close_scope zc (m_act m) = (out, a')" by (cases "close_scope zc (m_act m)")
  from close_calls [OF h] show ?case using Close by (intro callbacks_emit [of m _ "[]" "[]"]) (auto simp: h)
qed

lemma start_callbacks: "callbacks_ok (start cd zc k)"
  using run_quiet [of cd zc k] by (auto simp: callbacks_ok_def start_def split: prod.split intro!: exI [of _ "[]"])

lemma reachable_callbacks: "zk_reachable cd k m \<Longrightarrow> callbacks_ok m"
  by (induction rule: zk_reachable.induct) (simp_all add: start_callbacks callbacks_step)

lemma closed_silent:
  assumes "zk_step cd m m'" and "ac_closed (m_act m)"
  shows "calls (m_out m') = calls (m_out m) \<and> ac_closed (m_act m')"
  using assms
proof (induction rule: zk_step.induct)
  case (Reply cmd m r zc)
  obtain out a' where h: "handle cd zc r (m_act m) = (out, a')" by (cases "handle cd zc r (m_act m)")
  from handle_calls [OF h] Reply show ?case by (auto simp: h)
next
  case (Watch m zc t s)
  obtain out a' where h: "handle cd zc (Watch_reply t s) (m_act m) = (out, a')" by (cases "handle cd zc (Watch_reply t s) (m_act m)")
  from handle_calls [OF h] Watch show ?case by (auto simp: h)
next
  case (Task x m zc)
  obtain out a' where h: "abort_with zc x (m_act m) = (out, a')" by (cases "abort_with zc x (m_act m)")
  from abort_calls [OF h] Task show ?case by (auto simp: h)
next
  case (Close m zc)
  obtain out a' where h: "close_scope zc (m_act m) = (out, a')" by (cases "close_scope zc (m_act m)")
  from close_calls [OF h] Close show ?case by (auto simp: h)
qed

section \<open>Operations that answer once: lemmas\<close>

fun one_shot :: "'d kind \<Rightarrow> bool" where
  "one_shot (Put_action p v n) = True"
| "one_shot (Get_action p) = True"
| "one_shot (Create_action p v eph seq depth) = True"
| "one_shot (Del_action p n) = True"
| "one_shot (Increment_action p v) = True"
| "one_shot _ = False"

text \<open>The commands whose replies a class handles.\<close>

fun fits :: "'d kind \<Rightarrow> zk_cmd \<Rightarrow> bool" where
  "fits (Put_action p v n) (Zk_put q d i) = True"
| "fits (Put_action p v n) (Zk_get q w) = True"
| "fits (Get_action p) (Zk_get q w) = True"
| "fits (Create_action p v eph seq depth) (Zk_create q d e s) = True"
| "fits (Del_action p n) (Zk_del q i) = True"
| "fits (Increment_action p v) (Zk_get q w) = True"
| "fits (Increment_action p v) (Zk_put q d i) = True"
| "fits (Increment_action p v) (Zk_create q d e s) = True"
| "fits _ _ = False"

text \<open>A reply to an open operation leads to exactly one of: a callback, a further command, an abort.\<close>

definition advances :: "'d act \<Rightarrow> 'd handled \<Rightarrow> bool" where
  "advances a h \<longleftrightarrow>
     (case h of (out, x, a') \<Rightarrow>
        one_shot (ac_kind a') \<and> ac_closed a' = ac_closed a \<and> (\<forall>c \<in> set (issued out). fits (ac_kind a') c) \<and>
        length (issued out) + length (calls out) + (if x = None then 0 else 1) \<le> 1 \<and>
        (\<not> ac_closed a \<longrightarrow> length (issued out) + length (calls out) + (if x = None then 0 else 1) = 1) \<and>
        (ac_closed a \<longrightarrow> calls out = []))"

named_theorems advances_intros

lemma advances_throw [advances_intros]:
  "one_shot (ac_kind a') \<Longrightarrow> ac_closed a' = ac_closed a \<Longrightarrow> advances a (throw x a')"
  by (simp add: advances_def throw_def)

lemma advances_issue [advances_intros]:
  "one_shot (ac_kind a') \<Longrightarrow> fits (ac_kind a') cmd \<Longrightarrow> ac_closed a' = ac_closed a \<Longrightarrow> advances a (issue zc cmd a')"
  by (simp add: advances_def issue_def split: option.split)

lemma advances_satisfy [advances_intros]:
  "one_shot (ac_kind a') \<Longrightarrow> ac_closed a' = ac_closed a \<Longrightarrow> advances a (satisfy r a')"
  by (simp add: advances_def satisfy_def)

lemma advances_parent_of [advances_intros]:
  "one_shot (ac_kind a') \<Longrightarrow> ac_closed a' = ac_closed a \<Longrightarrow> (\<And>q. advances a (k q a')) \<Longrightarrow> advances a (parent_of p d k a')"
  by (simp add: parent_of_def advances_throw split: sum.split)

lemma advances_on_reply:
  assumes "one_shot (ac_kind a)" and "fits (ac_kind a) cmd" and "answers cmd r"
  shows "advances a (on_reply cd zc r (ac_kind a) a)"
  using assms
  by (cases "ac_kind a"; cases cmd; cases r)
    (simp_all add: one_shot_defs Let_def advances_intros split: sum.split)

lemma one_shot_abort:
  "one_shot (ac_kind a) \<Longrightarrow>
   abort_with zc x a = (if ac_closed a then [] else [Called (Inl x)], a\<lparr>ac_closed := True\<rparr>)"
  by (cases "ac_kind a") (auto simp: abort_with_def on_abort_def)

lemma one_shot_handle:
  assumes "one_shot (ac_kind a)" and "fits (ac_kind a) cmd" and "answers cmd r" and "handle cd zc r a = (out, a')"
  shows "one_shot (ac_kind a')" "\<forall>c \<in> set (issued out). fits (ac_kind a') c"
    "length (issued out) + length (calls out) \<le> 1" "ac_closed a \<longrightarrow> calls out = [] \<and> ac_closed a'"
    "\<not> ac_closed a \<longrightarrow> length (issued out) + length (calls out) = 1 \<and> (ac_closed a' \<longrightarrow> calls out \<noteq> [])"
proof -
  obtain out1 x a1 where h: "on_reply cd zc r (ac_kind a) a = (out1, x, a1)" by (cases "on_reply cd zc r (ac_kind a) a")
  note adv = advances_on_reply [OF assms(1-3), of cd zc, unfolded h advances_def prod.case]
  have "one_shot (ac_kind a') \<and> (\<forall>c \<in> set (issued out). fits (ac_kind a') c) \<and>
    length (issued out) + length (calls out) \<le> 1 \<and> (ac_closed a \<longrightarrow> calls out = [] \<and> ac_closed a') \<and>
    (\<not> ac_closed a \<longrightarrow> length (issued out) + length (calls out) = 1 \<and> (ac_closed a' \<longrightarrow> calls out \<noteq> []))"
  proof (cases x)
    case None
    with adv assms(4) h show ?thesis by (auto simp: handle_def)
  next
    case (Some e)
    with adv assms(4) h one_shot_abort [of a1 zc e] show ?thesis by (auto simp: handle_def)
  qed
  then show "one_shot (ac_kind a')" "\<forall>c \<in> set (issued out). fits (ac_kind a') c"
    "length (issued out) + length (calls out) \<le> 1" "ac_closed a \<longrightarrow> calls out = [] \<and> ac_closed a'"
    "\<not> ac_closed a \<longrightarrow> length (issued out) + length (calls out) = 1 \<and> (ac_closed a' \<longrightarrow> calls out \<noteq> [])"
    by blast+
qed

definition one_shot_inv :: "'d mach \<Rightarrow> bool" where
  "one_shot_inv m \<longleftrightarrow>
     one_shot (ac_kind (m_act m)) \<and> (\<forall>c \<in> set (m_pending m). fits (ac_kind (m_act m)) c) \<and>
     length (m_pending m) + length (m_tasks m) + length (calls (m_out m)) \<le> 1 \<and>
     (m_closed m \<longrightarrow> ac_closed (m_act m)) \<and>
     (\<not> m_closed m \<longrightarrow> length (m_pending m) + length (m_tasks m) + length (calls (m_out m)) = 1 \<and>
        (ac_closed (m_act m) \<longrightarrow> calls (m_out m) \<noteq> []))"

lemma one_shot_watch: "one_shot k \<Longrightarrow> on_reply cd zc (Watch_reply t s) k a = ([], None, a)"
  by (cases k) simp_all

lemma sole: "x \<in> set xs \<Longrightarrow> length xs + m + n \<le> 1 \<Longrightarrow> xs = [x] \<and> m = 0 \<and> n = 0"
  by (cases xs) auto

lemma one_shot_step: "zk_step cd m m' \<Longrightarrow> one_shot_inv m \<Longrightarrow> one_shot_inv m'"
proof (induction rule: zk_step.induct)
  case (Reply cmd m r zc)
  obtain out a' where h: "handle cd zc r (m_act m) = (out, a')" by (cases "handle cd zc r (m_act m)")
  have k: "one_shot (ac_kind (m_act m))" "fits (ac_kind (m_act m)) cmd" using Reply by (auto simp: one_shot_inv_def)
  note H = one_shot_handle [OF k Reply(2) h]
  have p: "m_pending m = [cmd]" "m_tasks m = []" "calls (m_out m) = []"
    using Reply(3) sole [OF Reply(1), of "length (m_tasks m)" "length (calls (m_out m))"] by (simp_all add: one_shot_inv_def)
  then show ?case using Reply(3) H by (auto simp: one_shot_inv_def h)
next
  case (Watch m zc t s)
  then show ?case by (auto simp: one_shot_inv_def handle_def one_shot_watch)
next
  case (Task x m zc)
  then have p: "m_tasks m = [x]" "m_pending m = []" "calls (m_out m) = []"
    using sole [OF Task(1), of "length (m_pending m)" "length (calls (m_out m))"] by (simp_all add: one_shot_inv_def add.commute)
  then show ?case using Task(2) by (auto simp: one_shot_inv_def one_shot_abort)
next
  case (Close m zc)
  then show ?case by (cases "ac_kind (m_act m)") (auto simp: one_shot_inv_def close_scope_def)
qed

lemma start_one_shot: "one_shot k \<Longrightarrow> one_shot_inv (start cd zc k)"
  by (cases k) (auto simp: one_shot_inv_def start_def run_command_def prim_defs split: option.split)

lemma reachable_one_shot: "zk_reachable cd k m \<Longrightarrow> one_shot k \<Longrightarrow> one_shot_inv m"
  by (induction rule: zk_reachable.induct) (auto simp: start_one_shot one_shot_step)

text \<open>
  C6: over every interleaving of replies, watch events, aborts and
  closing, the client of an operation is called with values, then with at most
  one error, which closes the scope; a closed scope is never called again. The
  operations that answer once (put, get, create, delete, increment) call their
  client at most once, and exactly once unless it closed the scope: at every moment
  there is one command to be answered, one abort to be run, or the answer was given.
\<close>

theorem zk_callbacks:
  assumes "zk_reachable cd k m"
  shows "(\<exists>rs es. calls (m_out m) = map Inr rs @ map Inl es \<and> length es \<le> 1 \<and> (es \<noteq> [] \<longrightarrow> ac_closed (m_act m))) \<and>
    (ac_closed (m_act m) \<and> zk_step cd m m' \<longrightarrow> calls (m_out m') = calls (m_out m) \<and> ac_closed (m_act m')) \<and>
    (one_shot k \<longrightarrow> length (m_pending m) + length (m_tasks m) + length (calls (m_out m)) \<le> 1 \<and>
       (\<not> m_closed m \<longrightarrow> length (m_pending m) + length (m_tasks m) + length (calls (m_out m)) = 1))"
  using reachable_callbacks [OF assms] reachable_one_shot [OF assms] closed_silent [of cd m m']
  unfolding callbacks_ok_def one_shot_inv_def by blast

section \<open>Locks: lemmas\<close>

fun is_create :: "zk_cmd \<Rightarrow> bool" where
  "is_create (Zk_create p d e s) = True"
| "is_create _ = False"

definition creates :: "zk_cmd list \<Rightarrow> nat" where
  "creates cmds = length (filter is_create cmds)"

fun is_create_reply :: "zk_reply \<Rightarrow> bool" where
  "is_create_reply (Create_reply rc q) = True"
| "is_create_reply _ = False"

lemma creates_simps [simp]:
  "creates [] = 0" "creates (c # cs) = (if is_create c then 1 else 0) + creates cs" "creates (cs @ cs') = creates cs + creates cs'"
  by (simp_all add: creates_def)

lemma creates_remove1: "c \<in> set cs \<Longrightarrow> creates (remove1 c cs) + (if is_create c then 1 else 0) = creates cs"
  by (induction cs) auto

lemma answers_create: "answers cmd r \<Longrightarrow> is_create_reply r = is_create cmd"
  by (cases cmd; cases r) auto

text \<open>What is put out to get rid of a node: a deletion, or a reconnection, with which an ephemeral node goes away.\<close>

definition lets_go :: "string \<Rightarrow> 'd emission list \<Rightarrow> bool" where
  "lets_go p out \<longleftrightarrow> Zk_del p (-1) \<in> set (issued out) \<or> Reconnecting \<in> set out"

lemma lets_go_append [simp]: "lets_go p (out @ out') \<longleftrightarrow> lets_go p out \<or> lets_go p out'"
  by (auto simp: lets_go_def)

text \<open>
  A node is disposed of: its deletion is not answered yet, or it was confirmed, or the
  connection whose session owns the node was given up.
\<close>

definition disposed :: "string \<Rightarrow> 'd mach \<Rightarrow> bool" where
  "disposed p m \<longleftrightarrow>
     Zk_del p (-1) \<in> set (m_pending m) \<or> (Zk_del p (-1), Del_reply ZOK) \<in> set (m_answered m) \<or>
     Reconnecting \<in> set (m_out m)"

lemma disposed_emit: "lets_go p (fst h) \<or> disposed p m \<Longrightarrow> disposed p (emit h m)"
  by (auto simp: disposed_def lets_go_def)

lemma disposed_reply:
  assumes "disposed p m" and "cmd \<in> set (m_pending m)" and "answers cmd r" and "ac_kind (m_act m) = Lock_action l"
  shows "disposed p (emit (handle cd zc r (m_act m))
           (m\<lparr>m_pending := remove1 cmd (m_pending m), m_answered := m_answered m @ [(cmd, r)]\<rparr>))"
proof (cases "cmd = Zk_del p (-1)")
  case True
  with assms(3) obtain rc where r: "r = Del_reply rc" by (cases r) auto
  show ?thesis
  proof (cases "rc = ZOK")
    case False
    then have "Reconnecting \<in> set (fst (handle cd zc r (m_act m)))"
      using r assms(4) by (auto simp: handle_def lock_on_del_def zk_reconnect_def split: prod.split)
    then show ?thesis by (simp add: disposed_def)
  qed (use r True in \<open>simp add: disposed_def\<close>)
next
  case False
  then have "Zk_del p (-1) \<in> set (remove1 cmd (m_pending m)) \<longleftrightarrow> Zk_del p (-1) \<in> set (m_pending m)"
    by (metis in_set_remove1)
  with assms(1) show ?thesis by (auto simp: disposed_def)
qed

lemma on_abort_lock:
  assumes "ac_kind a = Lock_action l" and "on_abort zc a = (out, x, a1)"
  shows "\<exists>l1. ac_kind a1 = Lock_action l1 \<and> lk_created l1 = lk_created l \<and> creates (issued out) = 0 \<and>
    ac_closed a1 = ac_closed a \<and> (lk_created l \<noteq> [] \<longrightarrow> \<not> lk_parent l \<or> lets_go (lk_created l) out) \<and>
    (\<not> lk_parent l1 \<longrightarrow> \<not> lk_parent l \<or> lk_created l \<noteq> [] \<and> lets_go (lk_created l) out)"
  using assms by (auto simp: on_abort_def prim_defs lets_go_def split: if_splits option.splits)

lemma abort_lock:
  assumes "ac_kind a = Lock_action l" and "abort_with zc x a = (out, a1)"
  shows "\<exists>l1. ac_kind a1 = Lock_action l1 \<and> lk_created l1 = lk_created l \<and> creates (issued out) = 0 \<and>
    (lk_created l \<noteq> [] \<longrightarrow> \<not> lk_parent l \<or> lets_go (lk_created l) out) \<and>
    (\<not> lk_parent l1 \<longrightarrow> \<not> lk_parent l \<or> lk_created l \<noteq> [] \<and> lets_go (lk_created l) out)"
proof -
  obtain out0 y a0 where ab: "on_abort zc a = (out0, y, a0)" by (cases "on_abort zc a")
  from on_abort_lock [OF assms(1) ab] assms(2) ab show ?thesis
    by (cases y) (auto simp: abort_with_def)
qed

lemma close_lock:
  assumes "ac_kind a = Lock_action l" and "close_scope zc a = (out, a1)"
  shows "\<exists>l1. ac_kind a1 = Lock_action l1 \<and> lk_created l1 = lk_created l \<and> creates (issued out) = 0 \<and>
    (lk_created l \<noteq> [] \<longrightarrow> ac_closed a \<or> \<not> lk_parent l \<or> lets_go (lk_created l) out) \<and>
    (\<not> lk_parent l1 \<longrightarrow> \<not> lk_parent l \<or> lk_created l \<noteq> [] \<and> lets_go (lk_created l) out)"
proof -
  obtain out0 y a0 where ab: "on_abort zc a = (out0, y, a0)" by (cases "on_abort zc a")
  from on_abort_lock [OF assms(1) ab] assms ab show ?thesis
    by (cases y) (auto simp: close_scope_def split: if_splits)
qed

text \<open>A handler of a lock, before a possible abort: only the reply to a creation creates anything or sets the node.\<close>

definition lock_kept :: "'d lock_state \<Rightarrow> zk_reply \<Rightarrow> 'd act \<Rightarrow> 'd handled \<Rightarrow> bool" where
  "lock_kept l r a h \<longleftrightarrow>
     (case h of (out, x, a') \<Rightarrow> \<exists>l'. ac_kind a' = Lock_action l' \<and> lk_parent l' = lk_parent l \<and>
        creates (issued out) \<le> (if is_create_reply r then 1 else 0) \<and>
        (\<not> is_create_reply r \<longrightarrow> lk_created l' = lk_created l) \<and>
        (lk_created l' \<noteq> lk_created l \<longrightarrow> creates (issued out) = 0 \<and>
           (ac_closed a \<and> x = None \<longrightarrow> lets_go (lk_created l') out)))"

lemma lock_on_reply: "ac_kind a = Lock_action l \<Longrightarrow> lock_kept l r a (on_reply cd zc r (Lock_action l) a)"
  by (cases r)
    (auto simp: lock_kept_def lock_defs prim_defs Let_def lets_go_def split: if_splits option.splits sum.splits)

lemma lock_handle:
  assumes "ac_kind a = Lock_action l" and "handle cd zc r a = (out, a')"
  shows "\<exists>l'. ac_kind a' = Lock_action l' \<and> creates (issued out) \<le> (if is_create_reply r then 1 else 0) \<and>
    (\<not> is_create_reply r \<longrightarrow> lk_created l' = lk_created l) \<and>
    (lk_created l' \<noteq> lk_created l \<longrightarrow> creates (issued out) = 0) \<and>
    (lk_created l' \<noteq> [] \<and> ac_closed a' \<longrightarrow>
       ac_closed a \<and> lk_created l' = lk_created l \<or> \<not> lk_parent l \<or> lets_go (lk_created l') out) \<and>
    (\<not> lk_parent l' \<longrightarrow> \<not> lk_parent l \<or> lk_created l' \<noteq> [] \<and> lets_go (lk_created l') out)"
proof -
  obtain out1 x a1 where h: "on_reply cd zc r (Lock_action l) a = (out1, x, a1)" by (cases "on_reply cd zc r (Lock_action l) a")
  note kept = lock_on_reply [OF assms(1), of r cd zc, unfolded h lock_kept_def prod.case]
  have closed: "ac_closed a1 = ac_closed a" using quiet_on_reply [of a cd zc r "Lock_action l"] h by (simp add: quiet_def)
  from kept obtain l1 where l1: "ac_kind a1 = Lock_action l1" "lk_parent l1 = lk_parent l"
    "creates (issued out1) \<le> (if is_create_reply r then 1 else 0)" "\<not> is_create_reply r \<longrightarrow> lk_created l1 = lk_created l"
    "lk_created l1 \<noteq> lk_created l \<longrightarrow> creates (issued out1) = 0 \<and> (ac_closed a \<and> x = None \<longrightarrow> lets_go (lk_created l1) out1)"
    by blast
  show ?thesis
  proof (cases x)
    case None
    with assms h l1 closed show ?thesis by (auto simp: handle_def)
  next
    case (Some e)
    obtain out2 a2 where ab: "abort_with zc e a1 = (out2, a2)" by (cases "abort_with zc e a1")
    from abort_lock [OF l1(1) ab] assms h l1 Some ab show ?thesis by (auto simp: handle_def)
  qed
qed

definition lock_inv :: "'d mach \<Rightarrow> bool" where
  "lock_inv m \<longleftrightarrow> (\<exists>l. ac_kind (m_act m) = Lock_action l \<and> creates (m_pending m) \<le> 1 \<and>
     (lk_created l \<noteq> [] \<longrightarrow> creates (m_pending m) = 0) \<and>
     (\<not> lk_parent l \<longrightarrow> lk_created l \<noteq> [] \<and> disposed (lk_created l) m) \<and>
     (lk_created l \<noteq> [] \<and> ac_closed (m_act m) \<longrightarrow> disposed (lk_created l) m))"

lemma lock_inv_handle:
  assumes "lock_inv m" and "handle cd zc r (m_act m) = h"
    and "creates (m_pending m') + (if is_create_reply r then 1 else 0) = creates (m_pending m)"
    and "\<And>p l. ac_kind (m_act m) = Lock_action l \<Longrightarrow> disposed p m \<Longrightarrow> disposed p (emit h m')"
  shows "lock_inv (emit h m')"
proof -
  obtain l where l: "ac_kind (m_act m) = Lock_action l" "creates (m_pending m) \<le> 1" "lk_created l \<noteq> [] \<longrightarrow> creates (m_pending m) = 0"
    "\<not> lk_parent l \<longrightarrow> lk_created l \<noteq> [] \<and> disposed (lk_created l) m"
    "lk_created l \<noteq> [] \<and> ac_closed (m_act m) \<longrightarrow> disposed (lk_created l) m"
    using assms(1) unfolding lock_inv_def by blast
  obtain out a' where h: "h = (out, a')" by (cases h)
  obtain l' where l': "ac_kind a' = Lock_action l'" "creates (issued out) \<le> (if is_create_reply r then 1 else 0)"
    "\<not> is_create_reply r \<longrightarrow> lk_created l' = lk_created l" "lk_created l' \<noteq> lk_created l \<longrightarrow> creates (issued out) = 0"
    "lk_created l' \<noteq> [] \<and> ac_closed a' \<longrightarrow>
       ac_closed (m_act m) \<and> lk_created l' = lk_created l \<or> \<not> lk_parent l \<or> lets_go (lk_created l') out"
    "\<not> lk_parent l' \<longrightarrow> \<not> lk_parent l \<or> lk_created l' \<noteq> [] \<and> lets_go (lk_created l') out"
    using lock_handle [OF l(1) assms(2) [unfolded h]] by blast
  have same: "lk_created l' = lk_created l" if "lk_created l \<noteq> []"
    using that l(3) l'(3) assms(3) by (cases "is_create_reply r") auto
  have go: "disposed p (emit h m')" if "lets_go p out \<or> disposed p m" for p
    using that assms(4) [OF l(1)] disposed_emit [of p h] h by auto
  have "creates (m_pending m' @ issued out) \<le> 1" "lk_created l' \<noteq> [] \<longrightarrow> creates (m_pending m' @ issued out) = 0"
    using l(2,3) l'(2-4) assms(3) same by (auto split: if_splits)
  moreover have "\<not> lk_parent l' \<longrightarrow> lk_created l' \<noteq> [] \<and> disposed (lk_created l') (emit h m')"
    "lk_created l' \<noteq> [] \<and> ac_closed a' \<longrightarrow> disposed (lk_created l') (emit h m')"
    using l(4,5) l'(5,6) same go by auto
  ultimately show ?thesis using l'(1) by (auto simp: lock_inv_def h)
qed

lemma lock_inv_abort:
  assumes "lock_inv m" and "h = abort_with zc x (m_act m) \<or> h = close_scope zc (m_act m)"
    and "m_pending m' = m_pending m" and "m_out m' = m_out m" and "m_answered m' = m_answered m"
  shows "lock_inv (emit h m')"
proof -
  obtain l where l: "ac_kind (m_act m) = Lock_action l" "creates (m_pending m) \<le> 1" "lk_created l \<noteq> [] \<longrightarrow> creates (m_pending m) = 0"
    "\<not> lk_parent l \<longrightarrow> lk_created l \<noteq> [] \<and> disposed (lk_created l) m"
    "lk_created l \<noteq> [] \<and> ac_closed (m_act m) \<longrightarrow> disposed (lk_created l) m"
    using assms(1) unfolding lock_inv_def by blast
  obtain out a' where h: "h = (out, a')" by (cases h)
  with assms(2) abort_lock [OF l(1), of zc x out a'] close_lock [OF l(1), of zc out a'] obtain l1
    where "ac_kind a' = Lock_action l1" "lk_created l1 = lk_created l" "creates (issued out) = 0"
    "lk_created l \<noteq> [] \<longrightarrow> ac_closed (m_act m) \<or> \<not> lk_parent l \<or> lets_go (lk_created l) out"
    "\<not> lk_parent l1 \<longrightarrow> \<not> lk_parent l \<or> lk_created l \<noteq> [] \<and> lets_go (lk_created l) out"
    by metis
  moreover have "disposed p (emit h m')" if "lets_go p out \<or> disposed p m" for p
    using that assms(3-5) disposed_emit [of p h m'] h by (auto simp: disposed_def)
  ultimately show ?thesis using l h assms(3) by (auto simp: lock_inv_def)
qed

lemma lock_inv_step: "zk_step cd m m' \<Longrightarrow> lock_inv m \<Longrightarrow> lock_inv m'"
proof (induction rule: zk_step.induct)
  case (Reply cmd m r zc)
  show ?case
    using Reply(1,3) answers_create [OF Reply(2)] creates_remove1 [OF Reply(1)] disposed_reply [OF _ Reply(1,2)]
    by (intro lock_inv_handle [of m]) auto
next
  case (Watch m zc t s)
  then show ?case by (intro lock_inv_handle [of m]) (auto intro: disposed_emit)
next
  case (Task x m zc)
  then show ?case by (intro lock_inv_abort [of m]) auto
next
  case (Close m zc)
  then show ?case by (intro lock_inv_abort [of m]) auto
qed

lemma start_lock_inv: "lk_created l = [] \<Longrightarrow> lock_inv (start cd zc (Lock_action l))"
  by (auto simp: lock_inv_def start_def run_command_def prim_defs split: option.split)

lemma reachable_lock_inv: "zk_reachable cd (Lock_action l) m \<Longrightarrow> lk_created l = [] \<Longrightarrow> lock_inv m"
  by (induction rule: zk_reachable.induct) (auto simp: start_lock_inv lock_inv_step)

text \<open>
  C9: the backend lets go of the node of every lock that was closed. Over every
  interleaving of replies, watch events, aborts and closing, failures included, at most
  one creation is under way, and none once a node was created. Once the scope of
  the lock is closed and its node was created, even if the reply to the creation arrives
  after the closing, the deletion of the node awaits its answer, or it was confirmed by
  ZooKeeper, or the connection was given up for a new one (the node is
  ephemeral); a deletion that was refused always ends in the last.
\<close>

theorem zk_lock_released:
  assumes "zk_reachable cd (Lock_action (new_lock folder v)) m"
  shows "\<exists>l. ac_kind (m_act m) = Lock_action l \<and> creates (m_pending m) \<le> 1 \<and>
    (lk_created l \<noteq> [] \<longrightarrow> creates (m_pending m) = 0) \<and>
    (lk_created l \<noteq> [] \<and> ac_closed (m_act m) \<longrightarrow>
       Zk_del (lk_created l) (-1) \<in> set (m_pending m) \<or>
       (Zk_del (lk_created l) (-1), Del_reply ZOK) \<in> set (m_answered m) \<or>
       Reconnecting \<in> set (m_out m))"
  using reachable_lock_inv [OF assms] by (auto simp: lock_inv_def disposed_def new_lock_def)

lemma hd_sort: "x \<in> set xs \<Longrightarrow> hd (sort xs) = x \<longleftrightarrow> (\<forall>y \<in> set xs. x \<le> y)" for x :: "'a :: linorder"
proof -
  assume "x \<in> set xs"
  then have "sort xs \<noteq> []" by (metis empty_iff empty_set set_sort)
  then obtain z zs where s: "sort xs = z # zs" by (cases "sort xs") simp_all
  have "sorted (z # zs)" "set xs = set (z # zs)" using sorted_sort s set_sort by metis+
  then show ?thesis using s \<open>x \<in> set xs\<close> by (auto intro: antisym)
qed

lemma takeWhile_sorted: "sorted xs \<Longrightarrow> takeWhile (\<lambda>c. c < x) xs = filter (\<lambda>c. c < x) xs" for x :: "'a :: linorder"
proof (induction xs)
  case (Cons y ys)
  then have "\<forall>c \<in> set ys. y \<le> c" by simp
  then have "filter (\<lambda>c. c < x) ys = []" if "\<not> y < x" using that by (meson filter_False leD leI order_trans)
  with Cons show ?case by auto
qed simp

lemma last_sorted_Max:
  fixes xs :: "'a :: linorder list"
  assumes "sorted xs" and "xs \<noteq> []"
  shows "last xs = Max (set xs)"
proof -
  have "y \<le> last xs" if "y \<in> set xs" for y
    using assms that by (induction xs) (auto simp: last_ConsR split: if_splits)
  then show ?thesis using assms(2) by (intro Max_eqI [symmetric]) auto
qed

lemma previous_Max:
  assumes "\<exists>c \<in> set cs. c < node"
  shows "previous node (sort cs) = Max {c \<in> set cs. c < node}"
proof -
  let ?f = "filter (\<lambda>c. c < node) (sort cs)"
  have "?f \<noteq> []" using assms by (auto simp: filter_empty_conv)
  then have "last ?f = Max (set ?f)" using last_sorted_Max sorted_wrt_filter sorted_sort by blast
  then show ?thesis by (simp add: previous_def takeWhile_sorted)
qed

text \<open>
  The children of the lock's folder form a queue in the order of
  their names. An open lock whose node is the least of them is granted; any other
  watches exactly the child before its own, and is aborted when that child is no
  sequence node. Either way the lock watches its own node.
\<close>

theorem zk_lock_queue:
  assumes "ac_kind a = Lock_action l" and "get_node_name (lk_created l) = Inr node" and "\<not> ac_closed a"
    and "node \<in> set cs" and "\<forall>cmd. zc_issue zc cmd = None"
  shows "let out = fst (handle cd zc (Children_reply ZOK cs st) a); prev = Max {c \<in> set cs. c < node} in
    if \<forall>c \<in> set cs. node \<le> c then out = [Called (Inr (R_bool True)), Issued (Zk_get (lk_created l) True)]
    else if is_valid_sequence_node prev
    then out = [Issued (Zk_exists (lk_folder l @ ''/'' @ prev) True), Issued (Zk_get (lk_created l) True)]
    else calls out = [Inl Uncategorized]"
proof (cases "\<forall>c \<in> set cs. node \<le> c")
  case True
  then have "hd (sort cs) = node" using hd_sort [OF assms(4)] by simp
  with assms True show ?thesis
    by (simp add: handle_def lock_on_children_def prim_defs)
next
  case False
  then have "hd (sort cs) \<noteq> node" "\<exists>c \<in> set cs. c < node" using hd_sort [OF assms(4)] not_le by blast+
  with assms False previous_Max [of cs node] show ?thesis
    by (auto simp: handle_def lock_on_children_def prim_defs Let_def abort_with_def on_abort_def)
qed

text \<open>A value reaches the client from the handler itself, never from an abort.\<close>

lemma value_from_handler:
  assumes "Inr v \<in> set (calls (fst (handle cd zc r a)))"
  shows "Inr v \<in> set (calls (fst (on_reply cd zc r (ac_kind a) a)))"
proof -
  obtain out x a1 where h: "on_reply cd zc r (ac_kind a) a = (out, x, a1)" by (cases "on_reply cd zc r (ac_kind a) a")
  show ?thesis
  proof (cases x)
    case (Some e)
    obtain out2 a2 where ab: "abort_with zc e a1 = (out2, a2)" by (cases "abort_with zc e a1")
    from abort_calls [OF ab] assms h Some ab show ?thesis by (auto simp: handle_def)
  qed (use assms h in \<open>simp add: handle_def\<close>)
qed

text \<open>
  C12: two locks of one folder are never held at once. If a lock was
  granted on the children \<open>cs\<^sub>1\<close> and another is granted later on \<open>cs\<^sub>2\<close>, and every
  node that appeared in between is greater than the first one's (sequence numbers
  grow), then the node of the first lock is gone by then.
\<close>

theorem zk_lock_exclusive:
  assumes "ac_kind a1 = Lock_action l1" and "get_node_name (lk_created l1) = Inr n1"
    and "Inr (R_bool True) \<in> set (calls (fst (handle cd zc1 (Children_reply ZOK cs1 st1) a1)))"
    and "ac_kind a2 = Lock_action l2" and "get_node_name (lk_created l2) = Inr n2"
    and "Inr (R_bool True) \<in> set (calls (fst (handle cd zc2 (Children_reply ZOK cs2 st2) a2)))"
    and "n1 \<noteq> n2" and "\<forall>n \<in> set cs2 - set cs1. n1 < n"
  shows "n1 \<in> set cs1 \<and> n2 \<in> set cs2 \<and> n1 \<notin> set cs2"
proof -
  have granted: "node \<in> set cs \<and> (\<forall>c \<in> set cs. node \<le> c)"
    if "ac_kind a = Lock_action l" "get_node_name (lk_created l) = Inr node"
      "Inr (R_bool True) \<in> set (calls (fst (handle cd zc (Children_reply ZOK cs st) a)))" for a l node zc cs st
  proof -
    have "Inr (R_bool True) \<in> set (calls (fst (lock_on_children zc l ZOK cs a)))"
      using value_from_handler [OF that(3)] that(1) by simp
    with that(2) have "node \<in> set cs" "hd (sort cs) = node"
      by (auto simp: lock_on_children_def prim_defs Let_def split: if_splits option.splits)
    then show ?thesis using hd_sort by blast
  qed
  note g1 = granted [OF assms(1-3)] and g2 = granted [OF assms(4-6)]
  moreover have False if "n1 \<in> set cs2"
  proof -
    have "n2 < n1" using g2 that assms(7) by (simp add: order_less_le)
    then show False using g1 g2 assms(8) by (cases "n2 \<in> set cs1") (auto simp: not_less dest: less_asym)
  qed
  ultimately show ?thesis by blast
qed

section \<open>Creation with parents: lemmas\<close>

text \<open>
  What is relied on of the server: creating a node that exists, or whose parent does
  not exist, is refused with the code for it and changes nothing; otherwise the node
  is added. A creation is driven by answering each command with the server's code.
\<close>

definition tree_server :: "('s \<Rightarrow> string set) \<Rightarrow> ('s \<Rightarrow> string \<Rightarrow> zoo_rc \<times> 's) \<Rightarrow> bool" where
  "tree_server nodes srv \<longleftrightarrow> (\<forall>s cs c. components (cs @ [c]) \<and> c \<noteq> [] \<longrightarrow>
     (let q = slash_path (cs @ [c]) in
       if q \<in> nodes s then srv s q = (ZNODEEXISTS, s)
       else if slash_path cs \<notin> nodes s then srv s q = (ZNONODE, s)
       else fst (srv s q) = ZOK \<and> nodes (snd (srv s q)) = insert q (nodes s)))"

fun drive :: "'d codec \<Rightarrow> zk_call \<Rightarrow> ('s \<Rightarrow> string \<Rightarrow> zoo_rc \<times> 's) \<Rightarrow> nat \<Rightarrow> string \<Rightarrow> 'd act \<Rightarrow> 's \<Rightarrow>
    ((unicorn_error, 'd response) result \<times> 's) option" where
  "drive cd zc srv 0 q a s = None"
| "drive cd zc srv (Suc n) q a s =
     (case srv s q of (rc, s') \<Rightarrow>
        case handle cd zc (Create_reply rc q) a of
          ([Issued (Zk_create q' d e sq)], a') \<Rightarrow> drive cd zc srv n q' a' s'
        | ([Called r], a') \<Rightarrow> Some (r, s')
        | _ \<Rightarrow> None)"

lemma length_slash_path_take:
  "i < j \<Longrightarrow> j \<le> length cs \<Longrightarrow> length (slash_path (take i cs)) < length (slash_path (take j cs))"
proof (induction j)
  case (Suc j)
  then have "length (slash_path (take (Suc j) cs)) > length (slash_path (take j cs))"
    by (simp add: take_Suc_conv_app_nth slash_path_snoc)
  with Suc show ?case by (cases "i = j") (auto simp: less_Suc_eq)
qed simp

lemma slash_path_take_inj:
  "i \<le> length cs \<Longrightarrow> j \<le> length cs \<Longrightarrow> slash_path (take i cs) = slash_path (take j cs) \<longleftrightarrow> i = j"
  by (metis length_slash_path_take less_irrefl nat_neq_iff)

text \<open>The nodes on the way to \<open>cs\<close> exist down to level \<open>k\<close>.\<close>

definition present :: "('s \<Rightarrow> string set) \<Rightarrow> string list \<Rightarrow> nat \<Rightarrow> 's \<Rightarrow> bool" where
  "present nodes cs k s \<longleftrightarrow> (\<forall>i \<le> length cs. slash_path (take i cs) \<in> nodes s \<longleftrightarrow> i \<le> k)"

lemma server_reply:
  assumes "tree_server nodes srv" and "components cs" and "[] \<notin> set cs" and "present nodes cs k s" and "j < length cs"
  shows "k < j \<Longrightarrow> srv s (slash_path (take (Suc j) cs)) = (ZNONODE, s)"
    "k = j \<Longrightarrow> fst (srv s (slash_path (take (Suc j) cs))) = ZOK \<and>
       nodes (snd (srv s (slash_path (take (Suc j) cs)))) = insert (slash_path (take (Suc j) cs)) (nodes s)"
    "j < k \<Longrightarrow> srv s (slash_path (take (Suc j) cs)) = (ZNODEEXISTS, s)"
proof -
  have t: "take (Suc j) cs = take j cs @ [cs ! j]" using assms(5) by (simp add: take_Suc_conv_app_nth)
  have "cs ! j \<in> set cs" using assms(5) by simp
  moreover from this have "components (take j cs @ [cs ! j])" "cs ! j \<noteq> []"
    using assms(2,3) by (auto simp: components_def dest: in_set_takeD)
  moreover have "slash_path (take (Suc j) cs) \<in> nodes s \<longleftrightarrow> Suc j \<le> k" "slash_path (take j cs) \<in> nodes s \<longleftrightarrow> j \<le> k"
    using assms(4,5) by (auto simp: present_def)
  ultimately show "k < j \<Longrightarrow> srv s (slash_path (take (Suc j) cs)) = (ZNONODE, s)"
    "k = j \<Longrightarrow> fst (srv s (slash_path (take (Suc j) cs))) = ZOK \<and>
       nodes (snd (srv s (slash_path (take (Suc j) cs)))) = insert (slash_path (take (Suc j) cs)) (nodes s)"
    "j < k \<Longrightarrow> srv s (slash_path (take (Suc j) cs)) = (ZNODEEXISTS, s)"
    using assms(1) unfolding tree_server_def Let_def t by (metis not_less_eq_eq order.refl less_imp_le leD Suc_leI)+
qed

lemma present_insert:
  "present nodes cs k s \<Longrightarrow> k < length cs \<Longrightarrow> nodes s' = insert (slash_path (take (Suc k) cs)) (nodes s) \<Longrightarrow>
   present nodes cs (Suc k) s'"
  by (auto simp: present_def slash_path_take_inj)

abbreviation creating :: "string list \<Rightarrow> 'd dynamic \<Rightarrow> bool \<Rightarrow> nat \<Rightarrow> 'd act" where
  "creating cs v eph d \<equiv> \<lparr>ac_closed = False, ac_kind = Create_action (slash_path cs) v eph False d\<rparr>"

lemma creating_replies:
  assumes "components cs" and "\<forall>cmd. zc_issue zc cmd = None" and "d < length cs"
  shows "handle cd zc (Create_reply ZNONODE q) (creating cs v eph d) =
      ([Issued (Zk_create (slash_path (take (length cs - Suc d) cs)) [] False False)], creating cs v eph (Suc d))"
    "\<exists>data e. handle cd zc (Create_reply ZOK q) (creating cs v eph (Suc d)) =
      ([Issued (Zk_create (slash_path (take (length cs - d) cs)) data e False)], creating cs v eph d)"
    "handle cd zc (Create_reply ZOK q) (creating cs v eph 0) = ([Called (Inr (R_bool True))], creating cs v eph 0)"
  using assms
  by (auto simp: handle_def create_on_create_def prim_defs path_parent_components Let_def)

lemma drive_down:
  assumes "tree_server nodes srv" and "components cs" and "[] \<notin> set cs" and "\<forall>cmd. zc_issue zc cmd = None"
  shows "d < length cs \<Longrightarrow> d < fuel \<Longrightarrow> present nodes cs (length cs - Suc d) s \<Longrightarrow>
    \<exists>s'. drive cd zc srv fuel (slash_path (take (length cs - d) cs)) (creating cs v eph d) s = Some (Inr (R_bool True), s') \<and>
      nodes s' = nodes s \<union> (\<lambda>i. slash_path (take i cs)) ` {length cs - d..length cs}"
proof (induction d arbitrary: s fuel)
  case 0
  obtain f where f: "fuel = Suc f" using 0(2) by (cases fuel) auto
  have "fst (srv s (slash_path cs)) = ZOK \<and> nodes (snd (srv s (slash_path cs))) = insert (slash_path cs) (nodes s)"
    using server_reply(2) [OF assms(1-3) 0(3), of "length cs - Suc 0"] 0(1) by simp
  then show ?case using f creating_replies(3) [OF assms(2,4) 0(1), of cd "slash_path cs" v eph] by (cases "srv s (slash_path cs)") auto
next
  case (Suc d)
  let ?q = "slash_path (take (length cs - Suc d) cs)"
  obtain f where f: "fuel = Suc f" "d < f" using Suc(3) by (cases fuel) auto
  have j: "Suc (length cs - Suc (Suc d)) = length cs - Suc d" "length cs - Suc (Suc d) < length cs" using Suc(2) by auto
  note rep = server_reply(2) [OF assms(1-3) Suc(4) j(2) refl, unfolded j(1)]
  obtain s1 where s1: "srv s ?q = (ZOK, s1)" "nodes s1 = insert ?q (nodes s)" using rep by (cases "srv s ?q") auto
  have "present nodes cs (length cs - Suc d) s1" using present_insert [OF Suc(4) j(2), of s1] s1(2) j(1) by simp
  from Suc.IH [OF _ f(2) this] Suc(2) obtain s' where s':
    "drive cd zc srv f (slash_path (take (length cs - d) cs)) (creating cs v eph d) s1 = Some (Inr (R_bool True), s')"
    "nodes s' = nodes s1 \<union> (\<lambda>i. slash_path (take i cs)) ` {length cs - d..length cs}" by auto
  obtain data e where "handle cd zc (Create_reply ZOK ?q) (creating cs v eph (Suc d)) =
      ([Issued (Zk_create (slash_path (take (length cs - d) cs)) data e False)], creating cs v eph d)"
    using creating_replies(2) [OF assms(2,4)] Suc(2) by (meson Suc_lessD)
  moreover have "{length cs - Suc d..length cs} = insert (length cs - Suc d) {length cs - d..length cs}"
    using Suc(2) by auto
  ultimately show ?case using f s1 s' by auto
qed

lemma drive_up:
  assumes "tree_server nodes srv" and "components cs" and "[] \<notin> set cs" and "\<forall>cmd. zc_issue zc cmd = None"
    and "present nodes cs k s"
  shows "u + d + k + 1 = length cs \<Longrightarrow> u + length cs - k \<le> fuel \<Longrightarrow>
    \<exists>s'. drive cd zc srv fuel (slash_path (take (length cs - d) cs)) (creating cs v eph d) s = Some (Inr (R_bool True), s') \<and>
      nodes s' = nodes s \<union> (\<lambda>i. slash_path (take i cs)) ` {Suc k..length cs}"
proof (induction u arbitrary: d fuel)
  case 0
  then have d: "d < length cs" "length cs - Suc d = k" "d < fuel" "length cs - d = Suc k" by auto
  show ?case using drive_down [OF assms(1-4) d(1,3), of s cd v eph] assms(5) d(2,4) by simp
next
  case (Suc u)
  obtain f where f: "fuel = Suc f" "u + length cs - k \<le> f" using Suc(2,3) by (cases fuel) auto
  have j: "Suc (length cs - Suc d) = length cs - d" "length cs - Suc d < length cs" "k < length cs - Suc d" "d < length cs"
    using Suc(2) by auto
  have "srv s (slash_path (take (length cs - d) cs)) = (ZNONODE, s)"
    using server_reply(1) [OF assms(1-3,5) j(2,3)] by (simp add: j(1))
  moreover note creating_replies(1) [OF assms(2,4) j(4), of cd "slash_path (take (length cs - d) cs)" v eph]
  ultimately show ?case using Suc.IH [of "Suc d" f] Suc(2) f by simp
qed

text \<open>
  C25: against a server that behaves as a tree, the creation of a node
  ends after at most twice as many requests as nodes are missing, whatever the
  depth of the first existing ancestor; the client is answered with success and
  exactly the missing ancestors and the node are added. A node that exists is
  answered with the error at once and nothing is changed.
\<close>

theorem zk_create_parents:
  assumes "tree_server nodes srv" and "components cs" and "[] \<notin> set cs" and "cs \<noteq> []" and "\<forall>cmd. zc_issue zc cmd = None"
    and "\<forall>i \<le> length cs. slash_path (take i cs) \<in> nodes s \<longleftrightarrow> i \<le> k"
    and "2 * (length cs - k) \<le> fuel" and "0 < fuel"
  shows "if k < length cs
    then \<exists>s'. drive cd zc srv fuel (slash_path cs) (creating cs v eph 0) s = Some (Inr (R_bool True), s') \<and>
      nodes s' = nodes s \<union> (\<lambda>i. slash_path (take i cs)) ` {k<..length cs}
    else drive cd zc srv fuel (slash_path cs) (creating cs v eph 0) s = Some (Inl Node_exists, s)"
proof -
  have pres: "present nodes cs k s" using assms(6) by (simp add: present_def)
  show ?thesis
  proof (cases "k < length cs")
    case True
    have "{k<..length cs} = {Suc k..length cs}" by auto
    then show ?thesis
      using True drive_up [OF assms(1-3,5) pres, of "length cs - Suc k" 0 fuel cd v eph] assms(7) by simp
  next
    case False
    obtain f where "fuel = Suc f" using assms(8) by (cases fuel) auto
    moreover have "srv s (slash_path cs) = (ZNODEEXISTS, s)"
      using server_reply(3) [OF assms(1-3) pres, of "length cs - Suc 0"] assms(4) False by (cases cs) auto
    ultimately show ?thesis
      using False by (simp add: handle_def create_on_create_def prim_defs abort_with_def on_abort_def)
  qed
qed

section \<open>Conditional writes, subscriptions and gaps\<close>

lemma narrow_id: "- (2 ^ 31) \<le> n \<Longrightarrow> n < 2 ^ 31 \<Longrightarrow> narrow n = n"
  by (simp add: narrow_def signed_of_int signed_take_bit_int_eq_self)

text \<open>
  A put sends its value under the version of the client, and
  answers with success only when the server accepted it; when the version did not
  match, the answer is the current value, read back. An increment sends the sum of
  what it read and of its argument under the version it read, so that the sum is
  written only over the value it was computed from; any other outcome is an error.
\<close>

theorem zk_conditional_writes:
  assumes "\<forall>cmd. zc_issue zc cmd = None" and "- (2 ^ 31) \<le> n" and "n < 2 ^ 31"
    and "\<not> ac_closed a" and "\<not> ac_closed b" and "ac_kind a = Put_action p v n" and "ac_kind b = Increment_action p v"
    and "cd_unserialize cd d = Inr x" and "is_number x" and "st_children st = 0" and "st_version st = n"
  shows "run_command cd zc (Put_action p v n) =
      (if n < 0 then ([], Some Version_not_allowed, \<lparr>ac_closed = False, ac_kind = Put_action p v n\<rparr>)
       else ([Issued (Zk_put p (cd_serialize cd v) n)], None, \<lparr>ac_closed = False, ac_kind = Put_action p v n\<rparr>)) \<and>
    fst (handle cd zc (Put_reply rc st) a) =
      (if rc = ZOK then [Called (Inr (R_put True (existing v n)))]
       else if rc = ZBADVERSION then [Issued (Zk_get p False)] else [Called (Inl (map_zoo_error rc))]) \<and>
    fst (handle cd zc (Get_reply ZOK d st) a) = [Called (Inr (R_put False (existing x n)))] \<and>
    handle cd zc (Get_reply ZOK d st) b =
      ([Issued (Zk_put p (cd_serialize cd (sum_value cd x v)) n)], b\<lparr>ac_kind := Increment_action p (sum_value cd x v)\<rparr>) \<and>
    fst (handle cd zc (Put_reply rc st) b) =
      (if rc = ZOK then [Called (Inr (R_value (existing v n)))] else [Called (Inl (map_zoo_error rc))])"
  using assms narrow_id [OF assms(2,3)]
  by (simp add: run_command_def handle_def one_shot_defs prim_defs Let_def abort_with_def on_abort_def)

text \<open>
  A subscription starts by a command that sets a watch, and a watch
  event that is delivered to an open one either closes it with an error or is
  followed by a command that sets the watch again: an open subscription never stays
  without a watch.
\<close>

theorem zk_subscription:
  assumes "k = Subscribe_action p \<or> k = Children_action p" and "ac_kind a = k" and "handle cd zc (Watch_reply t s) a = (out, a')"
  shows "(issued (fst (run_command cd zc k)) = [if k = Subscribe_action p then Zk_exists p True else Zk_childs p True] \<or>
      fst (snd (run_command cd zc k)) \<noteq> None) \<and>
    (ac_closed a' \<or> out = [Issued (if k = Subscribe_action p then Zk_get p True else Zk_childs p True)]) \<and>
    (\<not> ac_closed a \<and> ac_closed a' \<longrightarrow> (\<exists>x. calls out = [Inl x]))"
  using assms
  by (auto simp: run_command_def handle_def stream_defs prim_defs abort_with_def on_abort_def split: if_splits option.splits)

text \<open>
  Four behaviours the operations do not intend. A subscription whose first
  request failed for any reason, such as a lost connection, is told that the node
  does not exist, and nothing is issued any more. A put under the version
  \<open>2\<^sup>3\<^sup>2 - 1\<close> passes the check for negative versions and is sent as \<open>-1\<close>, which
  matches every version. A creation whose parent is created by somebody else in the
  meantime fails with the error for an existing node. A lock that is aborted before
  its node exists keeps its scope and itself alive for ever.
\<close>

theorem zk_gaps:
  assumes "\<not> ac_closed a"
  shows "(ac_kind a = Subscribe_action p \<and> rc \<noteq> ZOK \<longrightarrow>
      handle cd zc (Exists_reply rc st) a = ([Called (Inr (R_value not_existing))], a)) \<and>
    (zc_issue zc (Zk_put p (cd_serialize cd v) (-1)) = None \<longrightarrow>
      fst (run_command cd zc (Put_action p v (2 ^ 32 - 1))) = [Issued (Zk_put p (cd_serialize cd v) (-1))]) \<and>
    (ac_kind a = Create_action p v eph seq (Suc d) \<longrightarrow>
      calls (fst (handle cd zc (Create_reply ZNODEEXISTS q) a)) = [Inl Node_exists]) \<and>
    (ac_kind a = Lock_action l \<and> lk_created l = [] \<longrightarrow>
      abort_with zc x a = ([Called (Inl x)], a\<lparr>ac_closed := True\<rparr>))"
proof -
  have "narrow 4294967295 = -1" by (simp add: narrow_def)
  then show ?thesis
    using assms
    by (auto simp: run_command_def handle_def stream_defs one_shot_defs prim_defs abort_with_def on_abort_def)
qed

section \<open>Concrete operations\<close>

definition sample_codec :: "int codec" where
  "sample_codec =
     \<lparr>cd_serialize = (\<lambda>v. case v of D_int i \<Rightarrow> ''i'' | _ \<Rightarrow> ''u''), cd_unserialize = (\<lambda>d. Inr (D_int 5)), cd_to_double = (\<lambda>_. 0),
      cd_to_int64 = (\<lambda>v. case v of D_int i \<Rightarrow> i | D_uint i \<Rightarrow> i | _ \<Rightarrow> 0), cd_add = (+)\<rparr>"

definition calm :: zk_call where
  "calm = \<lparr>zc_issue = (\<lambda>_. None), zc_reconnect = True\<rparr>"

definition sample_stat :: stat where
  "sample_stat = \<lparr>st_version = 3, st_cversion = 0, st_children = 0\<rparr>"

lemma calm_issue: "\<forall>cmd. zc_issue calm cmd = None"
  by (simp add: calm_def)

text \<open>A put that is answered: one callback, nothing outstanding.\<close>

definition sample_put_run :: "int mach" where
  "sample_put_run =
     emit (handle sample_codec calm (Put_reply ZOK sample_stat) (m_act (start sample_codec calm (Put_action ''/a'' (D_int 7) 2))))
       ((start sample_codec calm (Put_action ''/a'' (D_int 7) 2))\<lparr>m_pending := [],
          m_answered := [(Zk_put ''/a'' ''i'' 2, Put_reply ZOK sample_stat)]\<rparr>)"

lemma sample_put_reachable: "zk_reachable sample_codec (Put_action ''/a'' (D_int 7) 2) sample_put_run"
proof -
  let ?m = "start sample_codec calm (Put_action ''/a'' (D_int 7) 2)"
  have "m_pending ?m = [Zk_put ''/a'' ''i'' 2]" "m_answered ?m = []" by code_simp+
  then have "zk_step sample_codec ?m sample_put_run"
    using zk_step.Reply [of "Zk_put ''/a'' ''i'' 2" ?m "Put_reply ZOK sample_stat" sample_codec calm]
    by (simp add: sample_put_run_def)
  then show ?thesis by (rule zk_reachable.Step [OF zk_reachable.Start])
qed

theorem zk_callbacks_witness:
  "length (m_pending sample_put_run) + length (m_tasks sample_put_run) + length (calls (m_out sample_put_run)) = 1 \<and>
   calls (m_out sample_put_run) = [Inr (R_put True (existing (D_int 7) 3))]"
proof -
  have "one_shot (Put_action ''/a'' (D_int 7 :: int dynamic) 2)" "\<not> m_closed sample_put_run"
    "calls (m_out sample_put_run) = [Inr (R_put True (existing (D_int 7) 3))]"
    by code_simp+
  then show ?thesis using zk_callbacks [OF sample_put_reachable] by blast
qed

text \<open>A lock that its client closes before its node is created.\<close>

definition locking :: "int kind" where
  "locking = Lock_action (new_lock ''/f'' (D_int 1))"

definition sample_lock_closed :: "int mach" where
  "sample_lock_closed =
     emit (close_scope calm (m_act (start sample_codec calm locking))) ((start sample_codec calm locking)\<lparr>m_closed := True\<rparr>)"

definition sample_lock_run :: "int mach" where
  "sample_lock_run =
     emit (handle sample_codec calm (Create_reply ZOK ''/f/lock0000000001'') (m_act sample_lock_closed))
       (sample_lock_closed\<lparr>m_pending := [],
          m_answered := [(Zk_create ''/f/lock'' ''i'' True True, Create_reply ZOK ''/f/lock0000000001'')]\<rparr>)"

lemma sample_lock_reachable: "zk_reachable sample_codec locking sample_lock_run"
proof -
  have s1: "zk_step sample_codec (start sample_codec calm locking) sample_lock_closed"
    unfolding sample_lock_closed_def by (rule zk_step.Close)
  have "m_pending sample_lock_closed = [Zk_create ''/f/lock'' ''i'' True True]" "m_answered sample_lock_closed = []" by code_simp+
  then have "zk_step sample_codec sample_lock_closed sample_lock_run"
    using zk_step.Reply [of "Zk_create ''/f/lock'' ''i'' True True" sample_lock_closed
        "Create_reply ZOK ''/f/lock0000000001''" sample_codec calm]
    by (simp add: sample_lock_run_def)
  then show ?thesis using s1 by (meson zk_reachable.intros)
qed

theorem zk_lock_released_witness:
  "Zk_del ''/f/lock0000000001'' (-1) \<in> set (m_pending sample_lock_run)"
proof -
  have "m_answered sample_lock_run = [(Zk_create ''/f/lock'' ''i'' True True, Create_reply ZOK ''/f/lock0000000001'')]"
    "Reconnecting \<notin> set (m_out sample_lock_run)" by code_simp+
  moreover have "\<exists>l. ac_kind (m_act sample_lock_run) = Lock_action l \<and> lk_created l = ''/f/lock0000000001''" "ac_closed (m_act sample_lock_run)"
    by (rule exI [of _ "(new_lock ''/f'' (D_int 1))\<lparr>lk_parent := True, lk_created := ''/f/lock0000000001''\<rparr>"], code_simp) code_simp
  ultimately show ?thesis using zk_lock_released [OF sample_lock_reachable [unfolded locking_def]] by auto
qed

text \<open>Two locks in a folder with three nodes; the first node goes away.\<close>

definition held :: "string \<Rightarrow> int act" where
  "held created =
     \<lparr>ac_closed = False, ac_kind = Lock_action ((new_lock ''/f'' (D_int 1))\<lparr>lk_parent := True, lk_created := created\<rparr>)\<rparr>"

theorem zk_lock_queue_witness:
  "fst (handle sample_codec calm (Children_reply ZOK [''lock0000000002'', ''lock0000000001''] sample_stat) (held ''/f/lock0000000002'')) =
     [Issued (Zk_exists ''/f/lock0000000001'' True), Issued (Zk_get ''/f/lock0000000002'' True)]"
proof -
  let ?cs = "[''lock0000000002'', ''lock0000000001'']"
  let ?l = "(new_lock ''/f'' (D_int 1 :: int dynamic))\<lparr>lk_parent := True, lk_created := ''/f/lock0000000002''\<rparr>"
  have "ac_kind (held ''/f/lock0000000002'') = Lock_action ?l" "\<not> ac_closed (held ''/f/lock0000000002'')"
    "get_node_name (lk_created ?l) = Inr ''lock0000000002''" "\<not> ''lock0000000002'' \<le> ''lock0000000001''"
    "is_valid_sequence_node ''lock0000000001''" "lk_folder ?l @ ''/'' @ ''lock0000000001'' = ''/f/lock0000000001''"
    "lk_created ?l = ''/f/lock0000000002''"
    by code_simp+
  moreover have "{c \<in> set ?cs. c < ''lock0000000002''} = {''lock0000000001''}" by auto
  ultimately show ?thesis
    using zk_lock_queue [of "held ''/f/lock0000000002''" ?l "''lock0000000002''" ?cs calm sample_codec sample_stat] calm_issue
    by (simp add: Let_def)
qed

theorem zk_lock_exclusive_witness:
  "''lock0000000001'' \<notin> set [''lock0000000003'', ''lock0000000002'']"
proof -
  let ?l = "\<lambda>n. (new_lock ''/f'' (D_int 1 :: int dynamic))\<lparr>lk_parent := True, lk_created := n\<rparr>"
  have "ac_kind (held n) = Lock_action (?l n)" for n by (simp add: held_def)
  moreover have "get_node_name (lk_created (?l ''/f/lock0000000001'')) = Inr ''lock0000000001''"
    "get_node_name (lk_created (?l ''/f/lock0000000002'')) = Inr ''lock0000000002''"
    "Inr (R_bool True) \<in> set (calls (fst (handle sample_codec calm (Children_reply ZOK [''lock0000000001''] sample_stat) (held ''/f/lock0000000001''))))"
    "Inr (R_bool True) \<in> set (calls (fst (handle sample_codec calm
       (Children_reply ZOK [''lock0000000003'', ''lock0000000002''] sample_stat) (held ''/f/lock0000000002''))))"
    by code_simp+
  moreover have "\<forall>n \<in> set [''lock0000000003'', ''lock0000000002''] - set [''lock0000000001'']. ''lock0000000001'' < n"
    "''lock0000000001'' \<noteq> ''lock0000000002''"
    by code_simp+
  ultimately show ?thesis using zk_lock_exclusive by blast
qed

definition sample_server :: "string set \<Rightarrow> string \<Rightarrow> zoo_rc \<times> string set" where
  "sample_server s q =
     (if q \<in> s then (ZNODEEXISTS, s)
      else case path_parent q 1 of
             Inr p \<Rightarrow> if p \<in> s then (ZOK, insert q s) else (ZNONODE, s)
           | Inl _ \<Rightarrow> (ZNONODE, s))"

lemma sample_server_tree: "tree_server id sample_server"
proof -
  have "path_parent (slash_path (cs @ [c])) 1 = Inr (slash_path cs)" if "components (cs @ [c])" for cs c
    using path_parent_components [OF that, of 1] by simp
  then show ?thesis by (auto simp: tree_server_def sample_server_def Let_def)
qed

theorem zk_create_parents_witness:
  "\<exists>s. drive sample_codec calm sample_server 6 ''/a/b/c'' (creating [''a'', ''b'', ''c''] (D_int 1) True 0) {[]} =
     Some (Inr (R_bool True), s) \<and> s = {[], ''/a'', ''/a/b'', ''/a/b/c''}"
proof -
  let ?cs = "[''a'', ''b'', ''c'']"
  have pre: "components ?cs" "[] \<notin> set ?cs" "slash_path ?cs = ''/a/b/c''" by code_simp+
  have "\<forall>i \<le> length ?cs. slash_path (take i ?cs) \<in> id {[]} \<longleftrightarrow> i \<le> 0" by simp
  moreover have "{0<..length ?cs} = {1, 2, 3}" by auto
  moreover have "(\<lambda>i. slash_path (take i ?cs)) ` {1, 2, 3} = {''/a'', ''/a/b'', ''/a/b/c''}" by (simp add: slash_path_def slash_def)
  ultimately show ?thesis
    using zk_create_parents [OF sample_server_tree pre(1,2) _ calm_issue, of "{[]}" 0 6 sample_codec "D_int 1" True] pre(3)
    by (simp add: insert_commute)
qed

theorem zk_conditional_writes_witness:
  "handle sample_codec calm (Get_reply ZOK ''x'' sample_stat) \<lparr>ac_closed = False, ac_kind = Increment_action ''/a'' (D_int 7)\<rparr> =
     ([Issued (Zk_put ''/a'' ''i'' 3)], \<lparr>ac_closed = False, ac_kind = Increment_action ''/a'' (D_int 12)\<rparr>)"
proof -
  have "cd_unserialize sample_codec ''x'' = Inr (D_int 5)" "is_number (D_int 5 :: int dynamic)" "st_children sample_stat = 0"
    "st_version sample_stat = 3" "sum_value sample_codec (D_int 5) (D_int 7) = D_int 12" "cd_serialize sample_codec (D_int 12) = ''i''"
    by code_simp+
  then show ?thesis
    using zk_conditional_writes [OF calm_issue, of 3 "\<lparr>ac_closed = False, ac_kind = Put_action ''/a'' (D_int 7) 3\<rparr>"
        "\<lparr>ac_closed = False, ac_kind = Increment_action ''/a'' (D_int 7)\<rparr>" "''/a''" "D_int 7" sample_codec "''x''" "D_int 5" sample_stat]
    by simp
qed

theorem zk_subscription_witness:
  "\<exists>a. handle sample_codec calm (Watch_reply ZOO_CHANGED_EVENT ZOO_CONNECTED_STATE)
     \<lparr>ac_closed = False, ac_kind = Subscribe_action ''/a''\<rparr> = ([Issued (Zk_get ''/a'' True)], a) \<and> \<not> ac_closed a"
proof -
  let ?h = "handle sample_codec calm (Watch_reply ZOO_CHANGED_EVENT ZOO_CONNECTED_STATE) \<lparr>ac_closed = False, ac_kind = Subscribe_action ''/a''\<rparr>"
  have closed: "\<not> ac_closed (snd ?h)" by code_simp
  obtain out a where h: "?h = (out, a)" by (cases ?h)
  from zk_subscription [OF _ _ h, of "Subscribe_action ''/a''" "''/a''"] closed h show ?thesis by simp
qed

theorem zk_gaps_witness:
  "handle sample_codec calm (Exists_reply ZCONNECTIONLOSS sample_stat) \<lparr>ac_closed = False, ac_kind = Subscribe_action ''/a''\<rparr> =
     ([Called (Inr (R_value not_existing))], \<lparr>ac_closed = False, ac_kind = Subscribe_action ''/a''\<rparr>) \<and>
   fst (run_command sample_codec calm (Put_action ''/a'' (D_int 7) (2 ^ 32 - 1))) = [Issued (Zk_put ''/a'' ''i'' (-1))]"
proof -
  have "cd_serialize sample_codec (D_int 7) = ''i''" by code_simp
  then show ?thesis
    using zk_gaps [of "\<lparr>ac_closed = False, ac_kind = Subscribe_action ''/a''\<rparr>" "''/a''" ZCONNECTIONLOSS sample_codec calm sample_stat "D_int 7"]
      calm_issue by simp
qed

end
