(* ===== verification/Unicorn_Service.thy ===== *)
theory Unicorn_Service
  imports Unicat Zk_Unicorn
begin

text \<open>
  The unicorn service (\<^verbatim>\<open>src/unicorn/src/service/unicorn.cpp\<close>): a request is checked,
  its client identified and verified, and then handed to the backend; the dispatch
  that remains with the client closes the scope of the operation.

  Identification, the outcome of the lookup and of the upload of access lists, the
  flags of \<^verbatim>\<open>create_default\<close> and the current time are arguments.
\<close>

section \<open>Requests\<close>

datatype 'd request =
    Rq_subscribe string
  | Rq_children_subscribe string
  | Rq_put string "'d dynamic" int
  | Rq_get string
  | Rq_create string "'d dynamic"
  | Rq_del string int
  | Rq_remove string int
  | Rq_increment string "'d dynamic"
  | Rq_lock string
  | Rq_named_lock string "'d dynamic"

fun extract_path :: "'d request \<Rightarrow> string" where
  "extract_path (Rq_subscribe p) = p"
| "extract_path (Rq_children_subscribe p) = p"
| "extract_path (Rq_put p v n) = p"
| "extract_path (Rq_get p) = p"
| "extract_path (Rq_create p v) = p"
| "extract_path (Rq_del p n) = p"
| "extract_path (Rq_remove p n) = p"
| "extract_path (Rq_increment p v) = p"
| "extract_path (Rq_lock p) = p"
| "extract_path (Rq_named_lock p v) = p"

fun event_of :: "'d request \<Rightarrow> unicorn_event" where
  "event_of (Rq_subscribe p) = Subscribe"
| "event_of (Rq_children_subscribe p) = Children_subscribe"
| "event_of (Rq_put p v n) = Put"
| "event_of (Rq_get p) = Get"
| "event_of (Rq_create p v) = Create"
| "event_of (Rq_del p n) = Del"
| "event_of (Rq_remove p n) = Remove"
| "event_of (Rq_increment p v) = Increment"
| "event_of (Rq_lock p) = Lock"
| "event_of (Rq_named_lock p v) = Named_lock"

text \<open>The method of the backend a request is bound to, with the arguments of the request.\<close>

fun method_of :: "bool \<times> bool \<Rightarrow> 'd dynamic \<Rightarrow> 'd request \<Rightarrow> 'd kind" where
  "method_of df now (Rq_subscribe p) = Subscribe_action p"
| "method_of df now (Rq_children_subscribe p) = Children_action p"
| "method_of df now (Rq_put p v n) = Put_action p v n"
| "method_of df now (Rq_get p) = Get_action p"
| "method_of df now (Rq_create p v) = Create_action p v (fst df) (snd df) 0"
| "method_of df now (Rq_del p n) = Del_action p n"
| "method_of df now (Rq_remove p n) = Del_action p n"
| "method_of df now (Rq_increment p v) = Increment_action p v"
| "method_of df now (Rq_lock p) = Lock_action (new_lock p now)"
| "method_of df now (Rq_named_lock p v) = Lock_action (new_lock p v)"

section \<open>The slot\<close>

record 'd slot_env =
  se_identify :: "(error_code, u64 list \<times> u64 list) result"
  se_lookup :: "string \<Rightarrow> (error_code, 'd versioned) result"
  se_upload :: "(error_code, bool) result"
  se_codes :: "auth_error \<Rightarrow> error_code"
  se_defaults :: "bool \<times> bool"
  se_now :: "'d dynamic"

datatype 'd slot_result =
    Root_refused
  | Unidentified error_code
  | Denied error_code
  | Invoked "'d handled"
  | Unanswered

definition unicorn_slot ::
  "'d acl_conv \<Rightarrow> 'd codec \<Rightarrow> zk_call \<Rightarrow> 'd slot_env \<Rightarrow> 'd request \<Rightarrow> 'd slot_result" where
  "unicorn_slot ac cd zc env rq =
     (if extract_path rq = [slash] then Root_refused
      else case se_identify env of
             Inl ec \<Rightarrow> Unidentified ec
           | Inr (cids, uids) \<Rightarrow>
               (case answer_code (se_codes env) (se_upload env)
                       (verify ac (event_of rq) (extract_path rq) cids uids (se_lookup env)) of
                  None \<Rightarrow> Unanswered
                | Some ec \<Rightarrow>
                    if is_error ec then Denied ec
                    else Invoked (run_command cd zc (method_of (se_defaults env) (se_now env) rq))))"

section \<open>The dispatch of a request\<close>

record 'd dispatch =
  dp_discarded :: bool
  dp_scope :: "'d act option"

definition new_dispatch :: "'d dispatch" where
  "new_dispatch = \<lparr>dp_discarded = False, dp_scope = None\<rparr>"

definition attach :: "zk_call \<Rightarrow> 'd act \<Rightarrow> 'd dispatch \<Rightarrow> 'd emission list \<times> 'd dispatch" where
  "attach zc a d =
     (if dp_discarded d
      then case close_scope zc a of (out, a') \<Rightarrow> (out, d\<lparr>dp_scope := Some a'\<rparr>)
      else ([], d\<lparr>dp_scope := Some a\<rparr>))"

definition discard :: "zk_call \<Rightarrow> 'd dispatch \<Rightarrow> 'd emission list \<times> 'd dispatch" where
  "discard zc d =
     (case dp_scope d of
        None \<Rightarrow> ([], d\<lparr>dp_discarded := True\<rparr>)
      | Some a \<Rightarrow> (case close_scope zc a of (out, a') \<Rightarrow> (out, d\<lparr>dp_discarded := True, dp_scope := Some a'\<rparr>)))"

section \<open>Properties\<close>

lemma slot_invoked_iff:
  "(\<exists>h. unicorn_slot ac cd zc env rq = Invoked h) \<longleftrightarrow>
   extract_path rq \<noteq> [slash] \<and>
   (\<exists>cids uids ec. se_identify env = Inr (cids, uids) \<and> \<not> is_error ec \<and>
      answer_code (se_codes env) (se_upload env) (verify ac (event_of rq) (extract_path rq) cids uids (se_lookup env)) = Some ec)"
  by (auto simp: unicorn_slot_def split: sum.split option.split) (metis prod_cases3)

text \<open>
  C16: a request of an identified client on a path of an owned prefix
  reaches the backend exactly when the ids of the client hold the permissions the
  request needs, as the operation it is bound to; otherwise the client is sent the
  error of a denied permission and nothing is issued.
\<close>

theorem unicorn_guarded:
  assumes "slash \<notin> set prefix" and "prefix \<noteq> []" and "rest = [] \<or> hd rest = slash"
    and "extract_path rq = slash # prefix @ rest" and "se_identify env = Inr (cids, uids)"
    and "se_lookup env (make_path prefix) = Inr v" and "found_acl ac v m" and "\<not> metainfo_empty m"
    and "operation_from (event_of rq) = Some flag" and "\<forall>x. is_error (se_codes env x)"
  shows "unicorn_slot ac cd zc env rq =
    (if allowed flag cids uids m then Invoked (run_command cd zc (method_of (se_defaults env) (se_now env) rq))
     else Denied (se_codes env Permission_denied))"
proof -
  have prefix: "extract_prefix (prefix @ rest) = Some prefix"
    using extract_prefix_component(1,2) [OF assms(1,2)] assms(3) by (cases rest) auto
  have "verify ac (event_of rq) (extract_path rq) cids uids (se_lookup env) =
      (if allowed flag cids uids m then Answer None else Answer (Some Permission_denied))"
    unfolding assms(4)
    using verify_found [where lookup = "se_lookup env", OF prefix assms(6,7,9), of cids uids] assms(8) by simp
  moreover have "extract_path rq \<noteq> [slash]" using assms(2,4) by simp
  ultimately show ?thesis using assms(5,10) by (simp add: unicorn_slot_def answer_code_def)
qed

text \<open>
  Whichever comes first, the scope the backend returns or the
  end of the client's stream, the scope is closed as soon as both are there, unless
  the reconnection that is the last resort for a lock throws; and the two orders
  put out the same.
\<close>

theorem unicorn_scope_closed:
  "let (out1, d1) = discard zc new_dispatch; (out2, d2) = attach zc a d1;
       (out3, d3) = attach zc a new_dispatch; (out4, d4) = discard zc d3 in
   out1 @ out2 = out3 @ out4 \<and> dp_scope d2 = dp_scope d4 \<and>
   (\<exists>a'. dp_scope d2 = Some a' \<and> (ac_closed a' \<or> (\<exists>x. Escaped x \<in> set out2)))"
  by (cases "ac_kind a")
    (auto simp: discard_def attach_def new_dispatch_def close_scope_def split: prod.splits option.splits)

section \<open>A concrete request\<close>

definition sample_slot_env :: "u64 list \<Rightarrow> int slot_env" where
  "sample_slot_env cids =
     \<lparr>se_identify = Inr (cids, []), se_lookup = (\<lambda>_. Inr owned), se_upload = Inr True,
      se_codes = (\<lambda>_. (System_category, 13)), se_defaults = (False, False), se_now = D_int 0\<rparr>"

text \<open>The client that may only read is denied a put.\<close>

theorem unicorn_guarded_witness:
  "unicorn_slot sample_acl_conv sample_codec calm (sample_slot_env [2]) (Rq_put ''/a/b'' (D_int 7) 2) = Denied (System_category, 13) \<and>
   unicorn_slot sample_acl_conv sample_codec calm (sample_slot_env [1]) (Rq_put ''/a/b'' (D_int 7) 2) =
     Invoked (run_command sample_codec calm (Put_action ''/a/b'' (D_int 7) 2))"
proof -
  have pre: "slash \<notin> set ''a''" "''a'' \<noteq> []" "''/b'' = [] \<or> hd ''/b'' = slash"
    "extract_path (Rq_put ''/a/b'' (D_int 7 :: int dynamic) 2) = slash # ''a'' @ ''/b''"
    "operation_from (event_of (Rq_put ''/a/b'' (D_int 7 :: int dynamic) 2)) = Some both_flags"
    by (simp_all add: slash_def)
  have env: "se_identify (sample_slot_env cids) = Inr (cids, [])" "se_lookup (sample_slot_env cids) (make_path ''a'') = Inr owned"
    "\<forall>x. is_error (se_codes (sample_slot_env cids) x)" "se_codes (sample_slot_env cids) Permission_denied = (System_category, 13)"
    for cids by (simp_all add: sample_slot_env_def is_error_def)
  have "allowed both_flags [1] [] owned_acl" by code_simp
  with sample_readable(2) show ?thesis
    using unicorn_guarded [OF pre(1-4) env(1,2) found_owned pre(5) env(3), of sample_codec calm "[1]"]
      unicorn_guarded [OF pre(1-4) env(1,2) found_owned pre(5) env(3), of sample_codec calm "[2]"] env(4)
    by simp
qed

end
