(* ===== verification/Vicodyn_Peers.thy ===== *)
theory Vicodyn_Peers
  imports Slave_Channel
begin

text \<open>
  The peers of the vicodyn gateway (\<^verbatim>\<open>src/vicodyn\<close>): the connection of a peer
  (\<^verbatim>\<open>vicodyn/peer.cpp\<close>), the table of peers and of the applications they run, the
  simple balancer (\<^verbatim>\<open>vicodyn/balancer/simple.cpp\<close>) and the virtual services of the
  gateway (\<^verbatim>\<open>gateway/vicodyn.cpp\<close>).

  Sockets, timers and sessions are events of a peer. What a peer advertises as its
  cluster, and whether that is a string at all, is an argument; so is the number
  the balancer draws. The wrapped gateway and the actors only receive calls and are
  not modelled. A reference to an entry that is null, and an iterator that was
  erased, are undefined: \<open>None\<close>.
\<close>

section \<open>The connection of a peer\<close>

text \<open>
  \<open>pe_timer\<close>: the timer of the next attempt is armed; \<open>pe_pending\<close>: an attempt is
  under way and has not timed out; \<open>pe_late\<close>: attempts that timed out and whose
  socket has not reported yet.
\<close>

record 'e peer =
  pe_uuid :: string
  pe_endpoints :: "'e list"
  pe_cluster :: string
  pe_session :: bool
  pe_connecting :: bool
  pe_timer :: bool
  pe_pending :: bool
  pe_late :: nat

definition schedule_reconnect :: "'e peer \<Rightarrow> 'e peer" where
  "schedule_reconnect p =
     (if pe_connecting p then p
      else p\<lparr>pe_session := False, pe_timer := True, pe_connecting := True\<rparr>)"

definition connect :: "'e peer \<Rightarrow> 'e peer" where
  "connect p = p\<lparr>pe_connecting := True, pe_pending := True\<rparr>"

definition on_timer :: "'e peer \<Rightarrow> 'e peer" where
  "on_timer p = connect (p\<lparr>pe_timer := False\<rparr>)"

text \<open>The timer of an attempt: its socket is cancelled and will report later.\<close>

definition on_connect_timeout :: "'e peer \<Rightarrow> 'e peer" where
  "on_connect_timeout p =
     schedule_reconnect (p\<lparr>pe_pending := False, pe_late := pe_late p + 1, pe_connecting := False\<rparr>)"

datatype connect_result =
    Connected
  | Attach_failed
  | All_failed
  | Failed_early

text \<open>
  The socket of an attempt whose timer could be cancelled.  \<open>Failed_early\<close>: an error
  with an iterator before the end.
\<close>

definition on_connected :: "connect_result \<Rightarrow> 'e peer \<Rightarrow> 'e peer" where
  "on_connected r p =
     (let p1 = p\<lparr>pe_pending := False\<rparr> in
      case r of
        Connected \<Rightarrow> p1\<lparr>pe_connecting := False, pe_session := True\<rparr>
      | Attach_failed \<Rightarrow> schedule_reconnect p1
      | All_failed \<Rightarrow> schedule_reconnect (p1\<lparr>pe_connecting := False\<rparr>)
      | Failed_early \<Rightarrow> p1)"

definition on_late :: "'e peer \<Rightarrow> 'e peer" where
  "on_late p = p\<lparr>pe_late := pe_late p - 1\<rparr>"

text \<open>Whether the stream was opened; without a session the peer reconnects and the call throws.\<close>

definition open_stream :: "'e peer \<Rightarrow> bool \<times> 'e peer" where
  "open_stream p = (if pe_session p then (True, p) else (False, schedule_reconnect p))"

definition new_peer :: "string \<Rightarrow> 'e list \<Rightarrow> string \<Rightarrow> 'e peer" where
  "new_peer uuid endpoints cluster =
     connect \<lparr>pe_uuid = uuid, pe_endpoints = endpoints, pe_cluster = cluster, pe_session = False, pe_connecting = False,
              pe_timer = False, pe_pending = False, pe_late = 0\<rparr>"

section \<open>The table of peers\<close>

record 'e peers =
  ps_peers :: "(string, 'e peer option) umap"
  ps_apps :: "(string, string list) umap"

text \<open>
  \<^verbatim>\<open>peers[uuid]\<close> inserts a null reference before the peer is made; the constructor
  throws when the cluster is no string.
\<close>

definition register_peer ::
  "string \<Rightarrow> 'e list \<Rightarrow> string option \<Rightarrow> 'e peers \<Rightarrow> bool \<times> 'e peers" where
  "register_peer uuid endpoints cluster d =
     (let make = (\<lambda>d. case cluster of
                    None \<Rightarrow> (False, d)
                  | Some c \<Rightarrow> (True, d\<lparr>ps_peers := um_insert uuid (Some (new_peer uuid endpoints c)) (ps_peers d)\<rparr>)) in
      case um_find uuid (ps_peers d) of
        None \<Rightarrow> make (d\<lparr>ps_peers := um_insert uuid None (ps_peers d)\<rparr>)
      | Some None \<Rightarrow> make d
      | Some (Some p) \<Rightarrow> if endpoints \<noteq> pe_endpoints p then make d else (True, d))"

definition erase_peer :: "string \<Rightarrow> 'e peers \<Rightarrow> 'e peers" where
  "erase_peer uuid d = d\<lparr>ps_peers := um_erase uuid (ps_peers d)\<rparr>"

definition uuids_of :: "string \<Rightarrow> 'e peers \<Rightarrow> string list" where
  "uuids_of name d = (case um_find name (ps_apps d) of None \<Rightarrow> [] | Some us \<Rightarrow> us)"

definition register_app :: "string \<Rightarrow> string \<Rightarrow> 'e peers \<Rightarrow> 'e peers" where
  "register_app uuid name d =
     d\<lparr>ps_apps := um_insert name (List.insert uuid (uuids_of name d)) (ps_apps d)\<rparr>"

definition erase_app :: "string \<Rightarrow> string \<Rightarrow> 'e peers \<Rightarrow> 'e peers" where
  "erase_app uuid name d =
     d\<lparr>ps_apps := um_insert name (removeAll uuid (uuids_of name d)) (ps_apps d)\<rparr>"

text \<open>The loop over the applications erases from copies of their sets.\<close>

definition erase :: "string \<Rightarrow> 'e peers \<Rightarrow> 'e peers" where
  "erase uuid d =
     (let d1 = erase_peer uuid (erase_peer uuid d)
      in fold (\<lambda>pair d. let copy = removeAll uuid (snd pair) in d) (ps_apps d1) d1)"

definition find_peer :: "string \<Rightarrow> 'e peers \<Rightarrow> 'e peer option" where
  "find_peer uuid d = (case um_find uuid (ps_peers d) of None \<Rightarrow> None | Some p \<Rightarrow> p)"

section \<open>The simple balancer\<close>

definition choose_random_if :: "nat \<Rightarrow> ('a \<Rightarrow> bool) \<Rightarrow> 'a list \<Rightarrow> 'a option" where
  "choose_random_if r P xs =
     (let chosen = filter P xs in if chosen = [] then None else Some (chosen ! (r mod length chosen)))"

definition eligible :: "string \<Rightarrow> string list \<Rightarrow> 'e peer \<Rightarrow> bool" where
  "eligible cluster us p \<longleftrightarrow> pe_session p \<and> cluster = pe_cluster p \<and> pe_uuid p \<in> set us"

text \<open>The inner \<open>None\<close> is the exception for no peers, the outer one a null reference.\<close>

definition choose_peer :: "string \<Rightarrow> string \<Rightarrow> nat \<Rightarrow> 'e peers \<Rightarrow> 'e peer option option" where
  "choose_peer app cluster r d =
     (let us = uuids_of app d in
      if us = [] then Some None
      else if None \<in> set (map snd (ps_peers d)) then None
      else Some (choose_random_if r (eligible cluster us) (List.map_filter snd (ps_peers d))))"

text \<open>Errors of the categories the balancer tells apart.\<close>

datatype peer_error =
    Node_not_running
  | Overseer_queue_full
  | Dispatch_not_connected
  | Other_error error_code

definition on_peer_error :: "string \<Rightarrow> string \<Rightarrow> peer_error \<Rightarrow> 'e peers \<Rightarrow> 'e peers" where
  "on_peer_error app uuid ec d = (if ec = Node_not_running then erase_app uuid app d else d)"

definition is_recoverable :: "peer_error \<Rightarrow> bool" where
  "is_recoverable ec \<longleftrightarrow> ec = Overseer_queue_full \<or> ec = Node_not_running \<or> ec = Dispatch_not_connected"

section \<open>The gateway\<close>

record 'e gateway =
  gw_peers :: "'e peers"
  gw_mapping :: "string list"

datatype protocol = Node_protocol | App_protocol | Other_protocol

definition consume ::
  "string \<Rightarrow> string \<Rightarrow> 'e list \<Rightarrow> protocol \<Rightarrow> string option \<Rightarrow> 'e gateway \<Rightarrow> 'e gateway" where
  "consume uuid name endpoints proto cluster g =
     (case proto of
        Node_protocol \<Rightarrow> g\<lparr>gw_peers := snd (register_peer uuid endpoints cluster (gw_peers g))\<rparr>
      | App_protocol \<Rightarrow>
          (let g1 = g\<lparr>gw_peers := register_app uuid name (gw_peers g)\<rparr>
           in if name \<in> set (gw_mapping g) then g1 else g1\<lparr>gw_mapping := name # gw_mapping g\<rparr>)
      | Other_protocol \<Rightarrow> g)"

definition proxy_empty :: "string \<Rightarrow> 'e peers \<Rightarrow> bool" where
  "proxy_empty name d \<longleftrightarrow> uuids_of name d = []"

definition cleanup_service :: "string \<Rightarrow> string \<Rightarrow> 'e gateway \<Rightarrow> 'e gateway" where
  "cleanup_service uuid name g =
     (if name = ''node'' then g\<lparr>gw_peers := erase_peer uuid (gw_peers g)\<rparr>
      else let d = erase_app uuid name (gw_peers g) in
        g\<lparr>gw_peers := d,
          gw_mapping := (if name \<in> set (gw_mapping g) \<and> proxy_empty name d then removeAll name (gw_mapping g) else gw_mapping g)\<rparr>)"

text \<open>The loop goes on with the iterator it has just erased.\<close>

definition cleanup_uuid :: "string \<Rightarrow> 'e gateway \<Rightarrow> 'e gateway option" where
  "cleanup_uuid uuid g =
     (let d = erase uuid (gw_peers g) in
      if \<exists>name \<in> set (gw_mapping g). proxy_empty name d then None
      else Some (g\<lparr>gw_peers := d\<rparr>))"

text \<open>\<open>None\<close>: the wrapped gateway answers.\<close>

definition total_count :: "string \<Rightarrow> 'e gateway \<Rightarrow> nat option" where
  "total_count name g = (if name \<in> set (gw_mapping g) then Some (length (uuids_of name (gw_peers g))) else None)"

datatype resolution = Virtual | Local | Wrapped

definition resolve :: "(string \<Rightarrow> bool) \<Rightarrow> string \<Rightarrow> 'e gateway \<Rightarrow> resolution" where
  "resolve local name g = (if name \<in> set (gw_mapping g) then Virtual else if local name then Local else Wrapped)"

section \<open>Connection: lemmas\<close>

datatype peer_event =
    E_timer
  | E_timeout
  | E_connected connect_result
  | E_late
  | E_schedule
  | E_open

fun enabled :: "'e peer \<Rightarrow> peer_event \<Rightarrow> bool" where
  "enabled p E_timer \<longleftrightarrow> pe_timer p"
| "enabled p E_timeout \<longleftrightarrow> pe_pending p"
| "enabled p (E_connected r) \<longleftrightarrow> pe_pending p"
| "enabled p E_late \<longleftrightarrow> pe_late p > 0"
| "enabled p _ \<longleftrightarrow> True"

fun peer_step :: "peer_event \<Rightarrow> 'e peer \<Rightarrow> 'e peer" where
  "peer_step E_timer p = on_timer p"
| "peer_step E_timeout p = on_connect_timeout p"
| "peer_step (E_connected r) p = on_connected r p"
| "peer_step E_late p = on_late p"
| "peer_step E_schedule p = schedule_reconnect p"
| "peer_step E_open p = snd (open_stream p)"

fun sound_event :: "peer_event \<Rightarrow> bool" where
  "sound_event (E_connected Attach_failed) = False"
| "sound_event (E_connected Failed_early) = False"
| "sound_event _ = True"

inductive peer_run :: "(peer_event \<Rightarrow> bool) \<Rightarrow> 'e peer \<Rightarrow> 'e peer \<Rightarrow> bool" for ok where
  Stay: "peer_run ok p p"
| Go: "peer_run ok p q \<Longrightarrow> enabled q e \<Longrightarrow> ok e \<Longrightarrow> peer_run ok p (peer_step e q)"

lemmas peer_defs = schedule_reconnect_def connect_def on_timer_def on_connect_timeout_def on_connected_def on_late_def open_stream_def

text \<open>The peer is connected, waits for the next attempt, or is in one: exactly one of the three.\<close>

definition peer_inv :: "'e peer \<Rightarrow> bool" where
  "peer_inv p \<longleftrightarrow> pe_connecting p = (pe_timer p \<or> pe_pending p) \<and> \<not> (pe_timer p \<and> pe_pending p) \<and>
     pe_session p = (\<not> pe_timer p \<and> \<not> pe_pending p)"

lemma peer_step_inv: "peer_inv p \<Longrightarrow> enabled p e \<Longrightarrow> sound_event e \<Longrightarrow> peer_inv (peer_step e p)"
  by (cases e rule: sound_event.cases) (auto simp: peer_inv_def peer_defs)

definition peer_stalled :: "'e peer \<Rightarrow> bool" where
  "peer_stalled p \<longleftrightarrow> \<not> pe_session p \<and> pe_connecting p \<and> \<not> pe_timer p \<and> \<not> pe_pending p"

lemma peer_step_stalled: "peer_stalled p \<Longrightarrow> enabled p e \<Longrightarrow> peer_stalled (peer_step e p)"
  by (cases e) (auto simp: peer_stalled_def peer_defs)

text \<open>
  As long as every connection that is made can be attached, a peer
  is at every moment either connected, or waiting for the timer of the next attempt,
  or in one attempt that ends with a report of its socket or of its timer. It is
  connected exactly when streams can be opened. But one failure to attach a
  connection stalls the peer for good: no timer is armed and no request for a
  reconnection has any effect.
\<close>

theorem peer_reconnects:
  assumes "peer_run sound_event (new_peer uuid endpoints cluster) p"
  shows "peer_inv p \<and> fst (open_stream p) = pe_session p \<and>
    (pe_pending p \<and> peer_run (\<lambda>_. True) (peer_step (E_connected Attach_failed) p) q \<longrightarrow>
       \<not> fst (open_stream q) \<and> \<not> pe_timer q \<and> \<not> pe_pending q \<and> schedule_reconnect q = q)"
proof -
  have "peer_inv p"
    using assms
  proof (induction "new_peer uuid endpoints cluster" p rule: peer_run.induct)
    case Stay
    show ?case by (simp add: peer_inv_def new_peer_def connect_def)
  qed (simp add: peer_step_inv)
  moreover have "peer_stalled q"
    if "peer_run (\<lambda>_. True) (peer_step (E_connected Attach_failed) p) q" "pe_pending p"
    using that
  proof (induction "peer_step (E_connected Attach_failed) p" q rule: peer_run.induct)
    case Stay
    then show ?case using \<open>peer_inv p\<close> by (auto simp: peer_stalled_def peer_inv_def peer_defs)
  qed (simp add: peer_step_stalled)
  ultimately show ?thesis by (auto simp: peer_stalled_def open_stream_def schedule_reconnect_def)
qed

section \<open>Peers and balancing: lemmas\<close>

lemma uuids_simps [simp]:
  "uuids_of n (register_app u name d) = (if n = name then List.insert u (uuids_of name d) else uuids_of n d)"
  "uuids_of n (erase_app u name d) = (if n = name then removeAll u (uuids_of name d) else uuids_of n d)"
  "uuids_of n (erase_peer u d) = uuids_of n d"
  by (simp_all add: uuids_of_def register_app_def erase_app_def erase_peer_def)

lemma uuids_register_peer [simp]: "uuids_of n (snd (register_peer u es c d)) = uuids_of n d"
  by (auto simp: uuids_of_def register_peer_def Let_def split: option.splits)

lemma erase_conv: "erase u d = erase_peer u d"
proof -
  have "fold (\<lambda>pair d. let copy = removeAll u (snd pair) in d) xs d = d" for xs :: "(string \<times> string list) list" and d :: "'a peers"
    by (induction xs) auto
  moreover have "erase_peer u (erase_peer u d) = erase_peer u d"
    by (simp add: erase_peer_def um_erase_def delete_idem)
  ultimately show ?thesis by (simp add: erase_def)
qed

lemma set_map_filter_snd: "None \<notin> set (map snd xs) \<Longrightarrow> set (List.map_filter snd xs) = {p. Some p \<in> set (map snd xs)}"
  by (induction xs) (auto simp: List.map_filter_simps split: option.splits)

text \<open>
  Unless the table holds a null entry, the balancer throws exactly when
  no peer is eligible, that is connected, of the locator's cluster and known to run
  the application; the peer it draws is eligible, and every eligible peer is
  drawn for some number.
\<close>

theorem vicodyn_choice:
  assumes "None \<notin> set (map snd (ps_peers d))"
  shows "(choose_peer app cluster r d = Some None \<longleftrightarrow>
      (\<forall>p. Some p \<in> set (map snd (ps_peers d)) \<longrightarrow> \<not> eligible cluster (uuids_of app d) p)) \<and>
    (choose_peer app cluster r d = Some (Some p) \<longrightarrow>
      Some p \<in> set (map snd (ps_peers d)) \<and> eligible cluster (uuids_of app d) p) \<and>
    (Some p \<in> set (map snd (ps_peers d)) \<and> eligible cluster (uuids_of app d) p \<longrightarrow>
      (\<exists>r. choose_peer app cluster r d = Some (Some p)))"
proof -
  define us where "us = uuids_of app d"
  define c where "c = filter (eligible cluster us) (List.map_filter snd (ps_peers d))"
  have set: "q \<in> set c \<longleftrightarrow> Some q \<in> set (map snd (ps_peers d)) \<and> eligible cluster us q" for q
    using set_map_filter_snd [OF assms] by (auto simp: c_def)
  have conv: "choose_peer app cluster r d = Some (if c = [] then None else Some (c ! (r mod length c)))" for r
    using assms by (auto simp: choose_peer_def choose_random_if_def Let_def filter_empty_conv eligible_def c_def us_def)
  have "c = [] \<longleftrightarrow> (\<forall>p. Some p \<in> set (map snd (ps_peers d)) \<longrightarrow> \<not> eligible cluster us p)"
    using set by (metis list.set_intros(1) list.exhaust empty_iff empty_set)
  then have "choose_peer app cluster r d = Some None \<longleftrightarrow>
      (\<forall>p. Some p \<in> set (map snd (ps_peers d)) \<longrightarrow> \<not> eligible cluster us p)"
    using conv [of r] by simp
  moreover have "p \<in> set c" if "choose_peer app cluster r d = Some (Some p)"
    using that conv [of r] nth_mem [of "r mod length c" c] by (auto split: if_splits)
  moreover have "\<exists>r. choose_peer app cluster r d = Some (Some p)" if chosen: "p \<in> set c"
  proof -
    obtain i where "i < length c" "c ! i = p" using chosen unfolding in_set_conv_nth by blast
    moreover from this have "c \<noteq> []" by auto
    ultimately show ?thesis using conv [of i] by (intro exI [of _ i]) simp
  qed
  ultimately show ?thesis using set unfolding us_def by blast
qed

section \<open>The gateway: lemmas\<close>

datatype 'e gw_op =
    Consume string string "'e list" protocol "string option"
  | Cleanup string string
  | Cleanup_uuid string
  | Peer_error string string peer_error

fun gw_step :: "'e gw_op \<Rightarrow> 'e gateway \<Rightarrow> 'e gateway option" where
  "gw_step (Consume u n es proto c) g = Some (consume u n es proto c g)"
| "gw_step (Cleanup u n) g = Some (cleanup_service u n g)"
| "gw_step (Cleanup_uuid u) g = cleanup_uuid u g"
| "gw_step (Peer_error app u ec) g = Some (g\<lparr>gw_peers := on_peer_error app u ec (gw_peers g)\<rparr>)"

fun gw_run :: "'e gw_op list \<Rightarrow> 'e gateway \<Rightarrow> 'e gateway option" where
  "gw_run [] g = Some g"
| "gw_run (op # ops) g = (case gw_step op g of None \<Rightarrow> None | Some g1 \<Rightarrow> gw_run ops g1)"

definition new_gateway :: "'e gateway" where
  "new_gateway = \<lparr>gw_peers = \<lparr>ps_peers = [], ps_apps = []\<rparr>, gw_mapping = []\<rparr>"

definition gw_inv :: "'e gateway \<Rightarrow> bool" where
  "gw_inv g \<longleftrightarrow> distinct (gw_mapping g) \<and>
     (\<forall>name. distinct (uuids_of name (gw_peers g)) \<and> (uuids_of name (gw_peers g) \<noteq> [] \<longrightarrow> name \<in> set (gw_mapping g)))"

lemma removeAll_ne: "removeAll x xs \<noteq> [] \<Longrightarrow> xs \<noteq> []"
  by auto

lemma gw_step_inv: "gw_inv g \<Longrightarrow> gw_step op g = Some g' \<Longrightarrow> gw_inv g'"
proof (cases op)
  case (Consume u n es proto c)
  then show "gw_inv g \<Longrightarrow> gw_step op g = Some g' \<Longrightarrow> gw_inv g'"
    by (cases proto) (auto simp: gw_inv_def consume_def Let_def split: if_splits)
next
  case (Cleanup u n)
  then show "gw_inv g \<Longrightarrow> gw_step op g = Some g' \<Longrightarrow> gw_inv g'"
    using removeAll_ne [of u "uuids_of n (gw_peers g)"]
    by (cases "n = ''node''")
      (auto simp: gw_inv_def cleanup_service_def proxy_empty_def Let_def distinct_removeAll split: if_splits)
next
  case (Cleanup_uuid u)
  then show "gw_inv g \<Longrightarrow> gw_step op g = Some g' \<Longrightarrow> gw_inv g'"
    by (auto simp: gw_inv_def cleanup_uuid_def erase_conv Let_def split: if_splits)
next
  case (Peer_error app u ec)
  then show "gw_inv g \<Longrightarrow> gw_step op g = Some g' \<Longrightarrow> gw_inv g'"
    using removeAll_ne [of u "uuids_of app (gw_peers g)"]
    by (auto simp: gw_inv_def on_peer_error_def distinct_removeAll split: if_splits)
qed

lemma gw_run_inv: "gw_run ops g = Some g' \<Longrightarrow> gw_inv g \<Longrightarrow> gw_inv g'"
  by (induction ops g rule: gw_run.induct) (auto split: option.splits dest: gw_step_inv)

text \<open>
  Over every sequence of announcements, withdrawals and errors of
  peers, every application that some node announced has its virtual service, which
  is what its name is resolved to, and the count that is reported is the number
  of distinct nodes that announced it. An announcement is effective at once; the
  withdrawal by the last node removes the service.
\<close>

theorem vicodyn_gateway:
  fixes g :: "'e gateway"
  assumes "gw_run ops new_gateway = Some g"
  shows "(uuids_of name (gw_peers g) \<noteq> [] \<longrightarrow> resolve local name g = Virtual) \<and>
    (resolve local name g = Virtual \<longrightarrow> total_count name g = Some (card (set (uuids_of name (gw_peers g))))) \<and>
    (let g' = consume uuid name es App_protocol c g in
       resolve local name g' = Virtual \<and> uuid \<in> set (uuids_of name (gw_peers g'))) \<and>
    (name \<noteq> ''node'' \<and> set (uuids_of name (gw_peers g)) \<subseteq> {uuid} \<longrightarrow>
       resolve local name (cleanup_service uuid name g) \<noteq> Virtual)"
proof -
  have "gw_inv (new_gateway :: 'e gateway)" by (simp add: gw_inv_def new_gateway_def uuids_of_def)
  with gw_run_inv [OF assms] have inv: "gw_inv g" by blast
  then have "total_count name g = Some (card (set (uuids_of name (gw_peers g))))" if "name \<in> set (gw_mapping g)"
    using that by (simp add: total_count_def gw_inv_def distinct_card)
  moreover have "removeAll uuid (uuids_of name (gw_peers g)) = []" if "set (uuids_of name (gw_peers g)) \<subseteq> {uuid}"
    using that by (auto simp: removeAll_filter_not_eq filter_empty_conv)
  ultimately show ?thesis
    using inv by (auto simp: gw_inv_def resolve_def consume_def cleanup_service_def proxy_empty_def Let_def)
qed

text \<open>
  A node that is dropped as a whole is still counted: erasing it
  removes the peer but not its announcements, so that the virtual services stay, and
  requests find no eligible peer. If a virtual service did become empty, the loop
  that removes it goes on with an erased iterator. And a peer whose announcement
  carries a cluster that is no string leaves a null entry, on which the next
  choice for any announced application is undefined.
\<close>

theorem vicodyn_peer_gaps:
  "(cleanup_uuid uuid g = Some g' \<longrightarrow> total_count name g' = total_count name g \<and>
      find_peer uuid (gw_peers g') = None \<and> uuids_of name (gw_peers g') = uuids_of name (gw_peers g)) \<and>
   (name \<in> set (gw_mapping g) \<and> uuids_of name (gw_peers g) = [] \<longrightarrow> cleanup_uuid uuid g = None) \<and>
   (um_find uuid (ps_peers d) = None \<and> uuids_of app d \<noteq> [] \<longrightarrow>
      choose_peer app cluster r (snd (register_peer uuid es None d)) = None)"
proof -
  have "None \<in> set (map snd (um_insert u None m))" for u and m :: "(string, 'b peer option) umap"
    using um_find_SomeD [of u "um_insert u None m" None] by force
  then show ?thesis
    by (auto simp: cleanup_uuid_def erase_conv proxy_empty_def total_count_def find_peer_def erase_peer_def uuids_of_def
        register_peer_def choose_peer_def Let_def split: if_splits)
qed

section \<open>Concrete gateways\<close>

definition sample_gateway_ops :: "nat gw_op list" where
  "sample_gateway_ops =
     [Consume ''u1'' ''node'' [1] Node_protocol (Some ''c''), Consume ''u2'' ''node'' [2] Node_protocol (Some ''c''),
      Consume ''u1'' ''app'' [] App_protocol None, Consume ''u2'' ''app'' [] App_protocol None, Peer_error ''app'' ''u2'' Node_not_running]"

definition sample_gateway :: "nat gateway" where
  "sample_gateway =
     \<lparr>gw_peers = \<lparr>ps_peers = [(''u1'', Some (new_peer ''u1'' [1] ''c'')), (''u2'', Some (new_peer ''u2'' [2] ''c''))],
                  ps_apps = [(''app'', [''u1''])]\<rparr>, gw_mapping = [''app'']\<rparr>"

lemma sample_gateway_run: "gw_run sample_gateway_ops new_gateway = Some sample_gateway"
  by code_simp

theorem vicodyn_gateway_witness:
  "resolve (\<lambda>_. False) ''app'' sample_gateway = Virtual \<and> total_count ''app'' sample_gateway = Some 1 \<and>
   resolve (\<lambda>_. False) ''app'' (cleanup_service ''u1'' ''app'' sample_gateway) \<noteq> Virtual"
proof -
  have "uuids_of ''app'' (gw_peers sample_gateway) = [''u1'']" by code_simp
  then show ?thesis using vicodyn_gateway [OF sample_gateway_run, of "''app''" "\<lambda>_. False" "''u1''"] by simp
qed

definition sample_peers :: "nat peers" where
  "sample_peers =
     \<lparr>ps_peers = [(''u1'', Some (on_connected Connected (new_peer ''u1'' [1] ''c''))), (''u2'', Some (new_peer ''u2'' [2] ''c''))],
      ps_apps = [(''app'', [''u1'', ''u2''])]\<rparr>"

theorem vicodyn_choice_witness:
  "\<exists>r. choose_peer ''app'' ''c'' r sample_peers = Some (Some (on_connected Connected (new_peer ''u1'' [1] ''c'')))"
proof -
  have "None \<notin> set (map snd (ps_peers sample_peers))" by (simp add: sample_peers_def)
  moreover have "Some (on_connected Connected (new_peer ''u1'' [1] ''c'')) \<in> set (map snd (ps_peers sample_peers))"
    by (simp add: sample_peers_def)
  moreover have "eligible ''c'' (uuids_of ''app'' sample_peers) (on_connected Connected (new_peer ''u1'' [1 :: nat] ''c''))" by code_simp
  ultimately show ?thesis using vicodyn_choice by blast
qed

theorem peer_reconnects_witness:
  "peer_inv (new_peer ''u1'' [1 :: nat] ''c'') \<and>
   \<not> fst (open_stream (schedule_reconnect (peer_step (E_connected Attach_failed) (new_peer ''u1'' [1 :: nat] ''c''))))"
proof -
  let ?p = "new_peer ''u1'' [1 :: nat] ''c''"
  have "pe_pending ?p" by (simp add: new_peer_def connect_def)
  moreover have "peer_run (\<lambda>_. True) (peer_step (E_connected Attach_failed) ?p) (schedule_reconnect (peer_step (E_connected Attach_failed) ?p))"
    using peer_run.Go [OF peer_run.Stay, of "peer_step (E_connected Attach_failed) ?p" E_schedule "\<lambda>_. True"] by simp
  ultimately show ?thesis using peer_reconnects [OF peer_run.Stay] by blast
qed

theorem vicodyn_peer_gaps_witness:
  "\<exists>g. cleanup_uuid ''u1'' sample_gateway = Some g \<and> total_count ''app'' g = Some 1 \<and> find_peer ''u1'' (gw_peers g) = None"
proof -
  obtain g where g: "cleanup_uuid ''u1'' sample_gateway = Some g"
  proof -
    have "cleanup_uuid ''u1'' sample_gateway \<noteq> None" by code_simp
    then show ?thesis using that by blast
  qed
  moreover have "total_count ''app'' sample_gateway = Some 1" by code_simp
  ultimately show ?thesis using vicodyn_peer_gaps [THEN conjunct1, THEN mp, OF g, of "''app''"] by simp
qed

end
