(* ===== verification/Vicodyn_Proxy.thy ===== *)
theory Vicodyn_Proxy
  imports Vicodyn_Peers
begin

text \<open>
  The request proxy of the vicodyn gateway (\<^verbatim>\<open>src/vicodyn/src/vicodyn/proxy.cpp\<close>): a
  request of a client is forwarded to a worker of some peer; until the first chunk
  of the response, what the client sent is kept, and an error that is recoverable
  opens a stream to another peer and sends it all again.

  What the network does during one handler is its argument (\<open>net\<close>): the peer the
  balancer draws, whether a stream can be opened to it, which of the frames that
  are sent again can be sent, and whether frames to the worker and to the client
  can be sent.  Headers are values of any type \<open>'h\<close>.
\<close>

section \<open>Streams\<close>

text \<open>\<open>F_failed\<close> is an error frame with the code of an exception of the proxy itself.\<close>

datatype 'h frame =
    F_enqueue 'h string
  | F_chunk 'h string
  | F_choke 'h
  | F_error 'h peer_error
  | F_failed 'h

record 'h stream =
  sm_closed :: bool
  sm_sent :: "'h frame list"

text \<open>
  \<^verbatim>\<open>safe_stream_t\<close>: the result is the stream and whether sending threw; a closed
  stream sends nothing.
\<close>

definition stream_send :: "bool \<Rightarrow> bool \<Rightarrow> 'h frame \<Rightarrow> 'h stream \<Rightarrow> bool \<times> 'h stream" where
  "stream_send ok final f s =
     (if sm_closed s then (False, s)
      else if ok then (False, s\<lparr>sm_sent := sm_sent s @ [f], sm_closed := final\<rparr>)
      else (True, s))"

section \<open>The state of a request\<close>

text \<open>
  All streams that were opened to workers, in order; the last one is the forward
  stream.  \<open>vd_calls\<close>: the calls to the balancer, to the peers and to the context of the request.
\<close>

datatype vd_call =
    Peer_failed string peer_error
  | Reconnect string
  | Used_peer string
  | Request_finished
  | Request_failed

record 'h vd =
  vd_peer :: string
  vd_calls :: "vd_call list"
  vd_back :: "'h stream"
  vd_streams :: "'h stream list"
  vd_enqueue_frame :: string
  vd_enqueue_headers :: 'h
  vd_chunks :: "string list"
  vd_chunk_headers :: "'h list"
  vd_choke_sent :: bool
  vd_choke_headers :: 'h
  vd_buffering :: bool
  vd_retries :: nat

record net =
  nt_peer :: "string option"
  nt_open :: bool
  nt_replay :: "nat \<Rightarrow> bool"
  nt_forward :: bool
  nt_client :: bool

text \<open>
  The constructor. \<^verbatim>\<open>choke_sent\<close> is not initialized, so that its value is an argument.
\<close>

definition new_vd :: "bool \<Rightarrow> 'h \<Rightarrow> string \<Rightarrow> 'h vd" where
  "new_vd indeterminate no_headers peer =
     \<lparr>vd_peer = peer, vd_calls = [Used_peer peer], vd_back = \<lparr>sm_closed = False, sm_sent = []\<rparr>, vd_streams = [], vd_enqueue_frame = [],
      vd_enqueue_headers = no_headers, vd_chunks = [], vd_chunk_headers = [], vd_choke_sent = indeterminate,
      vd_choke_headers = no_headers, vd_buffering = True, vd_retries = 0\<rparr>"

definition calls :: "vd_call \<Rightarrow> 'h vd \<Rightarrow> 'h vd" where
  "calls c v = v\<lparr>vd_calls := vd_calls v @ [c]\<rparr>"

text \<open>A call after something that did not throw.\<close>

definition then_call :: "bool \<times> 'h vd \<Rightarrow> vd_call \<Rightarrow> bool \<times> 'h vd" where
  "then_call r c = (if fst r then r else (False, calls c (snd r)))"

definition has_forward :: "'h vd \<Rightarrow> bool" where
  "has_forward v \<longleftrightarrow> vd_streams v \<noteq> []"

text \<open>Sending on the forward stream, if there is one, and on the stream of the client.\<close>

definition send_forward :: "bool \<Rightarrow> bool \<Rightarrow> 'h frame \<Rightarrow> 'h vd \<Rightarrow> bool \<times> 'h vd" where
  "send_forward ok final f v =
     (if vd_streams v = [] then (False, v)
      else case stream_send ok final f (last (vd_streams v)) of
             (x, s) \<Rightarrow> (x, v\<lparr>vd_streams := butlast (vd_streams v) @ [s]\<rparr>))"

definition send_back :: "bool \<Rightarrow> bool \<Rightarrow> 'h frame \<Rightarrow> 'h vd \<Rightarrow> bool \<times> 'h vd" where
  "send_back ok final f v = (case stream_send ok final f (vd_back v) of (x, s) \<Rightarrow> (x, v\<lparr>vd_back := s\<rparr>))"

section \<open>Retrying\<close>

fun replay_chunks :: "(nat \<Rightarrow> bool) \<Rightarrow> nat \<Rightarrow> 'h list \<Rightarrow> string list \<Rightarrow> 'h vd \<Rightarrow> bool \<times> 'h vd" where
  "replay_chunks ok i (h # hs) (c # cs) v =
     (case send_forward (ok i) False (F_chunk h c) v of
        (True, v1) \<Rightarrow> (True, v1)
      | (False, v1) \<Rightarrow> replay_chunks ok (i + 1) hs cs v1)"
| "replay_chunks ok i _ _ v = (False, v)"

text \<open>The new stream with everything the client has sent so far; whether it threw, and the state afterwards.\<close>

definition resend :: "net \<Rightarrow> 'h vd \<Rightarrow> bool \<times> 'h vd" where
  "resend nt v =
     (case replay_chunks (nt_replay nt) 0 (vd_chunk_headers v) (vd_chunks v)
             (v\<lparr>vd_streams := vd_streams v @
                [\<lparr>sm_closed = False, sm_sent = [F_enqueue (vd_enqueue_headers v) (vd_enqueue_frame v)]\<rparr>]\<rparr>) of
        (True, v1) \<Rightarrow> (True, v1)
      | (False, v1) \<Rightarrow>
          if vd_choke_sent v1
          then send_forward (nt_replay nt (length (vd_chunks v1))) True (F_choke (vd_choke_headers v1)) v1
          else (False, v1))"

definition retry_unsafe :: "nat \<Rightarrow> net \<Rightarrow> 'h vd \<Rightarrow> bool \<times> 'h vd" where
  "retry_unsafe limit nt v0 =
     (let v = v0\<lparr>vd_retries := vd_retries v0 + 1\<rparr> in
      if \<not> vd_buffering v then (True, v)
      else if vd_retries v > limit then (True, v)
      else case nt_peer nt of
             None \<Rightarrow> (True, v)
           | Some p \<Rightarrow>
               let v1 = calls (Used_peer p) (v\<lparr>vd_peer := p\<rparr>) in
               if \<not> nt_open nt then (True, v1) else resend nt v1)"

text \<open>A failed retry is reported to the client.\<close>

definition retry_or_report :: "nat \<Rightarrow> 'h \<Rightarrow> net \<Rightarrow> 'h vd \<Rightarrow> bool \<times> 'h vd" where
  "retry_or_report limit h0 nt v =
     (case retry_unsafe limit nt v of
        (False, v1) \<Rightarrow> (False, v1)
      | (True, v1) \<Rightarrow> send_back (nt_client nt) True (F_failed h0) v1)"

section \<open>Handlers\<close>

text \<open>
  Each returns whether an exception leaves it.  \<open>opened\<close>: whether the first stream
  could be opened.
\<close>

definition enqueue :: "nat \<Rightarrow> 'h \<Rightarrow> bool \<Rightarrow> net \<Rightarrow> 'h \<Rightarrow> string \<Rightarrow> 'h vd \<Rightarrow> bool \<times> 'h vd" where
  "enqueue limit h0 opened nt h event v =
     (let v1 = v\<lparr>vd_enqueue_frame := event, vd_enqueue_headers := h\<rparr> in
      if opened
      then (False, v1\<lparr>vd_streams := vd_streams v1 @ [\<lparr>sm_closed = False, sm_sent = [F_enqueue h event]\<rparr>]\<rparr>)
      else retry_or_report limit h0 nt (calls (Reconnect (vd_peer v1)) v1))"

text \<open>The middleware of the handlers for frames of the client.\<close>

definition forwarded :: "'h \<Rightarrow> net \<Rightarrow> ('h vd \<Rightarrow> bool \<times> 'h vd) \<Rightarrow> 'h vd \<Rightarrow> bool \<times> 'h vd" where
  "forwarded h0 nt k v =
     (if \<not> has_forward v then (False, v)
      else case k v of
             (False, v1) \<Rightarrow> (False, v1)
           | (True, v1) \<Rightarrow> then_call (send_back (nt_client nt) True (F_failed h0) v1) (Reconnect (vd_peer v1)))"

definition on_forward_chunk :: "'h \<Rightarrow> net \<Rightarrow> 'h \<Rightarrow> string \<Rightarrow> 'h vd \<Rightarrow> bool \<times> 'h vd" where
  "on_forward_chunk h0 nt h c =
     forwarded h0 nt (\<lambda>v. send_forward (nt_forward nt) False (F_chunk h c)
       (v\<lparr>vd_chunks := vd_chunks v @ [c], vd_chunk_headers := vd_chunk_headers v @ [h]\<rparr>))"

definition on_forward_choke :: "'h \<Rightarrow> net \<Rightarrow> 'h \<Rightarrow> 'h vd \<Rightarrow> bool \<times> 'h vd" where
  "on_forward_choke h0 nt h =
     forwarded h0 nt (\<lambda>v. send_forward (nt_forward nt) True (F_choke h)
       (v\<lparr>vd_choke_sent := True, vd_choke_headers := h\<rparr>))"

definition on_forward_error :: "'h \<Rightarrow> net \<Rightarrow> 'h \<Rightarrow> peer_error \<Rightarrow> 'h vd \<Rightarrow> bool \<times> 'h vd" where
  "on_forward_error h0 nt h ec = forwarded h0 nt (send_forward (nt_forward nt) True (F_error h ec))"

definition on_client_disconnection :: "'h \<Rightarrow> net \<Rightarrow> 'h vd \<Rightarrow> bool \<times> 'h vd" where
  "on_client_disconnection h0 nt v = send_forward (nt_forward nt) True (F_error h0 Dispatch_not_connected) v"

definition disable_buffering :: "'h \<Rightarrow> 'h vd \<Rightarrow> 'h vd" where
  "disable_buffering h0 v =
     v\<lparr>vd_buffering := False, vd_enqueue_frame := [], vd_enqueue_headers := h0, vd_chunk_headers := [], vd_chunks := []\<rparr>"

text \<open>A frame the client cannot be sent means that it has gone.\<close>

definition or_disconnect :: "'h \<Rightarrow> net \<Rightarrow> bool \<times> 'h vd \<Rightarrow> bool \<times> 'h vd" where
  "or_disconnect h0 nt r = (case r of (False, v) \<Rightarrow> (False, v) | (True, v) \<Rightarrow> on_client_disconnection h0 nt v)"

definition on_backward_chunk :: "'h \<Rightarrow> net \<Rightarrow> 'h \<Rightarrow> string \<Rightarrow> 'h vd \<Rightarrow> bool \<times> 'h vd" where
  "on_backward_chunk h0 nt h c v =
     or_disconnect h0 nt (send_back (nt_client nt) False (F_chunk h c) (disable_buffering h0 v))"

definition on_backward_choke :: "'h \<Rightarrow> net \<Rightarrow> 'h \<Rightarrow> 'h vd \<Rightarrow> bool \<times> 'h vd" where
  "on_backward_choke h0 nt h v = then_call (or_disconnect h0 nt (send_back (nt_client nt) True (F_choke h) v)) Request_finished"

definition on_backward_error :: "nat \<Rightarrow> 'h \<Rightarrow> net \<Rightarrow> 'h \<Rightarrow> peer_error \<Rightarrow> 'h vd \<Rightarrow> bool \<times> 'h vd" where
  "on_backward_error limit h0 nt h ec v =
     (let v1 = calls (Peer_failed (vd_peer v) ec) v in
      if is_recoverable ec then retry_or_report limit h0 nt v1
      else then_call (or_disconnect h0 nt (send_back (nt_client nt) True (F_error h ec) v1)) Request_failed)"

text \<open>The session of the worker is gone; an exception is caught.\<close>

definition on_backward_discard :: "'h \<Rightarrow> net \<Rightarrow> peer_error \<Rightarrow> 'h vd \<Rightarrow> bool \<times> 'h vd" where
  "on_backward_discard h0 nt ec v = (False, snd (send_back (nt_client nt) True (F_error h0 ec) v))"

section \<open>Runs\<close>

text \<open>
  Requests with what their client has sent on them, and whether the client has
  finished. \<open>rq_failed\<close>: the client sent an error, has gone, or cannot be reached any more.
\<close>

record 'h req =
  rq_vd :: "'h vd"
  rq_input :: "'h frame list"
  rq_done :: bool
  rq_failed :: bool

definition pass :: "bool \<times> 'h vd \<Rightarrow> 'h req \<Rightarrow> 'h req" where
  "pass r q = q\<lparr>rq_vd := snd r\<rparr>"

definition reaching :: "net \<Rightarrow> 'h req \<Rightarrow> 'h req" where
  "reaching nt q = q\<lparr>rq_failed := rq_failed q \<or> \<not> nt_client nt\<rparr>"

definition given :: "net \<Rightarrow> 'h frame \<Rightarrow> bool \<Rightarrow> 'h req \<Rightarrow> 'h req" where
  "given nt f final q = (reaching nt q)\<lparr>rq_input := rq_input q @ [f], rq_done := final\<rparr>"

definition start_req :: "nat \<Rightarrow> 'h \<Rightarrow> bool \<Rightarrow> string \<Rightarrow> bool \<Rightarrow> net \<Rightarrow> 'h \<Rightarrow> string \<Rightarrow> 'h req" where
  "start_req limit h0 indeterminate peer opened nt h event =
     \<lparr>rq_vd = snd (enqueue limit h0 opened nt h event (new_vd indeterminate h0 peer)),
      rq_input = [], rq_done = False, rq_failed = \<not> nt_client nt\<rparr>"

inductive vd_step :: "nat \<Rightarrow> 'h \<Rightarrow> net \<Rightarrow> 'h req \<Rightarrow> 'h req \<Rightarrow> bool" for limit h0 nt where
  Client_chunk: "\<not> rq_done q \<Longrightarrow> vd_step limit h0 nt q (pass (on_forward_chunk h0 nt h c (rq_vd q)) (given nt (F_chunk h c) False q))"
| Client_choke: "\<not> rq_done q \<Longrightarrow> vd_step limit h0 nt q (pass (on_forward_choke h0 nt h (rq_vd q)) (given nt (F_choke h) True q))"
| Client_error: "\<not> rq_done q \<Longrightarrow>
    vd_step limit h0 nt q (pass (on_forward_error h0 nt h ec (rq_vd q)) (q\<lparr>rq_done := True, rq_failed := True\<rparr>))"
| Client_gone: "vd_step limit h0 nt q (pass (on_client_disconnection h0 nt (rq_vd q)) (q\<lparr>rq_done := True, rq_failed := True\<rparr>))"
| Worker_chunk: "vd_step limit h0 nt q (pass (on_backward_chunk h0 nt h c (rq_vd q)) (reaching nt q))"
| Worker_choke: "vd_step limit h0 nt q (pass (on_backward_choke h0 nt h (rq_vd q)) (reaching nt q))"
| Worker_error: "vd_step limit h0 nt q (pass (on_backward_error limit h0 nt h ec (rq_vd q)) (reaching nt q))"
| Worker_gone: "vd_step limit h0 nt q (pass (on_backward_discard h0 nt ec (rq_vd q)) (reaching nt q))"

inductive vd_run :: "(net \<Rightarrow> bool) \<Rightarrow> nat \<Rightarrow> 'h \<Rightarrow> 'h req \<Rightarrow> 'h req \<Rightarrow> bool" for ok limit h0 where
  Stay: "vd_run ok limit h0 q q"
| Go: "vd_run ok limit h0 q q1 \<Longrightarrow> ok nt \<Longrightarrow> vd_step limit h0 nt q1 q2 \<Longrightarrow> vd_run ok limit h0 q q2"

lemma pass_simps [simp]:
  "rq_vd (pass r q) = snd r" "rq_input (pass r q) = rq_input q" "rq_done (pass r q) = rq_done q" "rq_failed (pass r q) = rq_failed q"
  by (simp_all add: pass_def)

lemma given_simps [simp]:
  "rq_vd (given nt f x q) = rq_vd q" "rq_done (given nt f x q) = x" "rq_failed (given nt f x q) = (rq_failed q \<or> \<not> nt_client nt)"
  "rq_input (given nt f x q) = rq_input q @ [f]"
  by (simp_all add: given_def reaching_def)

lemma reaching_simps [simp]:
  "rq_vd (reaching nt q) = rq_vd q" "rq_done (reaching nt q) = rq_done q" "rq_input (reaching nt q) = rq_input q"
  "rq_failed (reaching nt q) = (rq_failed q \<or> \<not> nt_client nt)"
  by (simp_all add: reaching_def)

lemma reaching_same: "nt_client nt \<Longrightarrow> reaching nt q = q"
  by (simp add: reaching_def)

section \<open>Frames: lemmas\<close>

lemma calls_frame [simp]:
  "vd_streams (calls c v) = vd_streams v" "vd_chunks (calls c v) = vd_chunks v" "vd_back (calls c v) = vd_back v"
  "vd_chunk_headers (calls c v) = vd_chunk_headers v" "vd_choke_sent (calls c v) = vd_choke_sent v"
  "vd_choke_headers (calls c v) = vd_choke_headers v" "vd_buffering (calls c v) = vd_buffering v"
  "vd_retries (calls c v) = vd_retries v" "vd_enqueue_frame (calls c v) = vd_enqueue_frame v"
  "vd_enqueue_headers (calls c v) = vd_enqueue_headers v"
  by (simp_all add: calls_def)

lemma then_call_frame [simp]:
  "vd_streams (snd (then_call r c)) = vd_streams (snd r)" "vd_chunks (snd (then_call r c)) = vd_chunks (snd r)"
  "vd_back (snd (then_call r c)) = vd_back (snd r)"
  "vd_chunk_headers (snd (then_call r c)) = vd_chunk_headers (snd r)" "vd_choke_sent (snd (then_call r c)) = vd_choke_sent (snd r)"
  "vd_choke_headers (snd (then_call r c)) = vd_choke_headers (snd r)" "vd_buffering (snd (then_call r c)) = vd_buffering (snd r)"
  "vd_retries (snd (then_call r c)) = vd_retries (snd r)" "vd_enqueue_frame (snd (then_call r c)) = vd_enqueue_frame (snd r)"
  "vd_enqueue_headers (snd (then_call r c)) = vd_enqueue_headers (snd r)"
  by (simp_all add: then_call_def)

lemma send_back_frame [simp]:
  "vd_streams (snd (send_back ok final f v)) = vd_streams v" "vd_chunks (snd (send_back ok final f v)) = vd_chunks v"
  "vd_chunk_headers (snd (send_back ok final f v)) = vd_chunk_headers v" "vd_choke_sent (snd (send_back ok final f v)) = vd_choke_sent v"
  "vd_choke_headers (snd (send_back ok final f v)) = vd_choke_headers v" "vd_buffering (snd (send_back ok final f v)) = vd_buffering v"
  "vd_retries (snd (send_back ok final f v)) = vd_retries v" "vd_enqueue_frame (snd (send_back ok final f v)) = vd_enqueue_frame v"
  "vd_enqueue_headers (snd (send_back ok final f v)) = vd_enqueue_headers v"
  by (simp_all add: send_back_def split: prod.split)

lemma send_forward_frame [simp]:
  "vd_back (snd (send_forward ok final f v)) = vd_back v" "vd_chunks (snd (send_forward ok final f v)) = vd_chunks v"
  "vd_chunk_headers (snd (send_forward ok final f v)) = vd_chunk_headers v" "vd_choke_sent (snd (send_forward ok final f v)) = vd_choke_sent v"
  "vd_choke_headers (snd (send_forward ok final f v)) = vd_choke_headers v" "vd_buffering (snd (send_forward ok final f v)) = vd_buffering v"
  "vd_retries (snd (send_forward ok final f v)) = vd_retries v" "vd_enqueue_frame (snd (send_forward ok final f v)) = vd_enqueue_frame v"
  "vd_enqueue_headers (snd (send_forward ok final f v)) = vd_enqueue_headers v"
  "length (vd_streams (snd (send_forward ok final f v))) = length (vd_streams v)"
  by (simp_all add: send_forward_def split: prod.split)

lemma sends_ok [simp]:
  "fst (send_forward True final f v) = False" "fst (send_back True final f v) = False"
  by (simp_all add: send_forward_def send_back_def stream_send_def)

lemma replay_frame [simp]:
  "vd_back (snd (replay_chunks ok i hs cs v)) = vd_back v" "vd_chunks (snd (replay_chunks ok i hs cs v)) = vd_chunks v"
  "vd_chunk_headers (snd (replay_chunks ok i hs cs v)) = vd_chunk_headers v" "vd_choke_sent (snd (replay_chunks ok i hs cs v)) = vd_choke_sent v"
  "vd_choke_headers (snd (replay_chunks ok i hs cs v)) = vd_choke_headers v" "vd_buffering (snd (replay_chunks ok i hs cs v)) = vd_buffering v"
  "vd_retries (snd (replay_chunks ok i hs cs v)) = vd_retries v" "vd_enqueue_frame (snd (replay_chunks ok i hs cs v)) = vd_enqueue_frame v"
  "vd_enqueue_headers (snd (replay_chunks ok i hs cs v)) = vd_enqueue_headers v"
  "length (vd_streams (snd (replay_chunks ok i hs cs v))) = length (vd_streams v)"
proof -
  have keep: "\<exists>ss. v = v\<lparr>vd_streams := ss\<rparr> \<and> length ss = length (vd_streams v)" for v :: "'a vd"
    by (intro exI [of _ "vd_streams v"]) simp
  have "\<exists>ss. snd (replay_chunks ok i hs cs v) = v\<lparr>vd_streams := ss\<rparr> \<and> length ss = length (vd_streams v)"
  proof (induction ok i hs cs v rule: replay_chunks.induct)
    case (1 ok i h hs c cs v)
    obtain x v1 where s: "send_forward (ok i) False (F_chunk h c) v = (x, v1)" by (cases "send_forward (ok i) False (F_chunk h c) v")
    then have v1: "\<exists>ss. v1 = v\<lparr>vd_streams := ss\<rparr> \<and> length ss = length (vd_streams v)"
      by (auto simp: send_forward_def split: if_splits prod.splits intro: exI [of _ "vd_streams v"])
    show ?case
    proof (cases x)
      case False
      with 1 [OF s [symmetric]] s v1 show ?thesis by fastforce
    qed (use s v1 in simp)
  qed (simp_all add: keep)
  then obtain ss where ss: "snd (replay_chunks ok i hs cs v) = v\<lparr>vd_streams := ss\<rparr>" "length ss = length (vd_streams v)" by blast
  show "vd_back (snd (replay_chunks ok i hs cs v)) = vd_back v" "vd_chunks (snd (replay_chunks ok i hs cs v)) = vd_chunks v"
    "vd_chunk_headers (snd (replay_chunks ok i hs cs v)) = vd_chunk_headers v" "vd_choke_sent (snd (replay_chunks ok i hs cs v)) = vd_choke_sent v"
    "vd_choke_headers (snd (replay_chunks ok i hs cs v)) = vd_choke_headers v" "vd_buffering (snd (replay_chunks ok i hs cs v)) = vd_buffering v"
    "vd_retries (snd (replay_chunks ok i hs cs v)) = vd_retries v" "vd_enqueue_frame (snd (replay_chunks ok i hs cs v)) = vd_enqueue_frame v"
    "vd_enqueue_headers (snd (replay_chunks ok i hs cs v)) = vd_enqueue_headers v"
    "length (vd_streams (snd (replay_chunks ok i hs cs v))) = length (vd_streams v)"
    by (simp_all add: ss)
qed

lemma resend_frame:
  "vd_back (snd (resend nt v)) = vd_back v" "vd_buffering (snd (resend nt v)) = vd_buffering v"
  "vd_retries (snd (resend nt v)) = vd_retries v" "vd_chunks (snd (resend nt v)) = vd_chunks v"
  "vd_chunk_headers (snd (resend nt v)) = vd_chunk_headers v" "vd_choke_sent (snd (resend nt v)) = vd_choke_sent v"
  "vd_choke_headers (snd (resend nt v)) = vd_choke_headers v" "vd_enqueue_frame (snd (resend nt v)) = vd_enqueue_frame v"
  "vd_enqueue_headers (snd (resend nt v)) = vd_enqueue_headers v"
  "length (vd_streams (snd (resend nt v))) = length (vd_streams v) + 1"
proof -
  let ?v = "v\<lparr>vd_streams := vd_streams v @ [\<lparr>sm_closed = False, sm_sent = [F_enqueue (vd_enqueue_headers v) (vd_enqueue_frame v)]\<rparr>]\<rparr>"
  obtain x v1 where r: "replay_chunks (nt_replay nt) 0 (vd_chunk_headers v) (vd_chunks v) ?v = (x, v1)" by fastforce
  from r have v1: "v1 = snd (replay_chunks (nt_replay nt) 0 (vd_chunk_headers v) (vd_chunks v) ?v)" by simp
  show "vd_back (snd (resend nt v)) = vd_back v" "vd_buffering (snd (resend nt v)) = vd_buffering v"
    "vd_retries (snd (resend nt v)) = vd_retries v" "vd_chunks (snd (resend nt v)) = vd_chunks v"
    "vd_chunk_headers (snd (resend nt v)) = vd_chunk_headers v" "vd_choke_sent (snd (resend nt v)) = vd_choke_sent v"
    "vd_choke_headers (snd (resend nt v)) = vd_choke_headers v" "vd_enqueue_frame (snd (resend nt v)) = vd_enqueue_frame v"
    "vd_enqueue_headers (snd (resend nt v)) = vd_enqueue_headers v"
    "length (vd_streams (snd (resend nt v))) = length (vd_streams v) + 1"
    unfolding resend_def r by (cases x; simp; simp add: v1)+
qed

lemma retry_frame:
  "vd_back (snd (retry_unsafe limit nt v)) = vd_back v" "vd_buffering (snd (retry_unsafe limit nt v)) = vd_buffering v"
  "vd_retries (snd (retry_unsafe limit nt v)) = vd_retries v + 1"
  "\<not> vd_buffering v \<Longrightarrow> vd_streams (snd (retry_unsafe limit nt v)) = vd_streams v"
  "vd_choke_sent (snd (retry_unsafe limit nt v)) = vd_choke_sent v"
  "length (vd_streams (snd (retry_unsafe limit nt v))) \<le>
     (if vd_retries v < limit then length (vd_streams v) + 1 else length (vd_streams v))"
  by (auto simp: retry_unsafe_def Let_def resend_frame split: option.splits)

lemma report_frame:
  "vd_buffering (snd (retry_or_report limit h0 nt v)) = vd_buffering v"
  "vd_retries (snd (retry_or_report limit h0 nt v)) = vd_retries v + 1"
  "\<not> vd_buffering v \<Longrightarrow> vd_streams (snd (retry_or_report limit h0 nt v)) = vd_streams v"
  "length (vd_streams (snd (retry_or_report limit h0 nt v))) \<le>
     (if vd_retries v < limit then length (vd_streams v) + 1 else length (vd_streams v))"
proof -
  obtain x v1 where r: "retry_unsafe limit nt v = (x, v1)" by fastforce
  note fr = retry_frame [where limit = limit and nt = nt and v = v, unfolded r snd_conv]
  show "vd_buffering (snd (retry_or_report limit h0 nt v)) = vd_buffering v"
    "vd_retries (snd (retry_or_report limit h0 nt v)) = vd_retries v + 1"
    "\<not> vd_buffering v \<Longrightarrow> vd_streams (snd (retry_or_report limit h0 nt v)) = vd_streams v"
    "length (vd_streams (snd (retry_or_report limit h0 nt v))) \<le>
       (if vd_retries v < limit then length (vd_streams v) + 1 else length (vd_streams v))"
    using fr unfolding retry_or_report_def r by (cases x; simp)+
qed

text \<open>What a frame of the client's stream may be: data chunks, then one frame that ends it.\<close>

fun is_data :: "'h frame \<Rightarrow> bool" where
  "is_data (F_chunk h c) = True"
| "is_data _ = False"

definition back_ok :: "'h stream \<Rightarrow> bool" where
  "back_ok s \<longleftrightarrow>
     (if sm_closed s then sm_sent s \<noteq> [] \<and> list_all is_data (butlast (sm_sent s)) \<and> \<not> is_data (last (sm_sent s))
      else list_all is_data (sm_sent s))"

lemma back_ok_send: "back_ok s \<Longrightarrow> final = (\<not> is_data f) \<Longrightarrow> back_ok (snd (stream_send ok final f s))"
  by (auto simp: back_ok_def stream_send_def)

lemma back_ok_send_back:
  "back_ok (vd_back v) \<Longrightarrow> final = (\<not> is_data f) \<Longrightarrow> back_ok (vd_back (snd (send_back ok final f v)))"
  using back_ok_send [of "vd_back v" final f ok] by (cases "stream_send ok final f (vd_back v)") (simp add: send_back_def)

lemma back_ok_report: "back_ok (vd_back v) \<Longrightarrow> back_ok (vd_back (snd (retry_or_report limit h0 nt v)))"
proof -
  assume ok: "back_ok (vd_back v)"
  obtain x v1 where r: "retry_unsafe limit nt v = (x, v1)" by fastforce
  with ok have "back_ok (vd_back v1)" using retry_frame(1) [of limit nt v] by simp
  then show ?thesis unfolding retry_or_report_def r by (cases x) (simp_all add: back_ok_send_back)
qed

lemma back_ok_forwarded:
  assumes "back_ok (vd_back v)" and "vd_back (snd (k v)) = vd_back v"
  shows "back_ok (vd_back (snd (forwarded h0 nt k v)))"
proof -
  obtain x v1 where k: "k v = (x, v1)" by fastforce
  with assms show ?thesis unfolding forwarded_def k by (cases x) (auto simp: back_ok_send_back)
qed

lemma back_ok_disconnect: "back_ok (vd_back (snd r)) \<Longrightarrow> back_ok (vd_back (snd (or_disconnect h0 nt r)))"
  by (cases r; cases "fst r") (simp_all add: or_disconnect_def on_client_disconnection_def)

lemma back_ok_step: "vd_step limit h0 nt q q' \<Longrightarrow> back_ok (vd_back (rq_vd q)) \<Longrightarrow> back_ok (vd_back (rq_vd q'))"
  by (induction rule: vd_step.induct)
    (auto simp: on_forward_chunk_def on_forward_choke_def on_forward_error_def on_client_disconnection_def on_backward_chunk_def
      on_backward_choke_def on_backward_error_def on_backward_discard_def disable_buffering_def Let_def
      intro!: back_ok_forwarded back_ok_disconnect back_ok_send_back back_ok_report)

section \<open>Retries: lemmas\<close>

text \<open>What a step may do to the number of streams, of retries and to the buffer.\<close>

lemma forwarded_frame:
  assumes "vd_buffering (snd (k v)) = vd_buffering v" "vd_retries (snd (k v)) = vd_retries v"
    "length (vd_streams (snd (k v))) = length (vd_streams v)"
  shows "vd_buffering (snd (forwarded h0 nt k v)) = vd_buffering v" "vd_retries (snd (forwarded h0 nt k v)) = vd_retries v"
    "length (vd_streams (snd (forwarded h0 nt k v))) = length (vd_streams v)"
proof -
  obtain x v1 where k: "k v = (x, v1)" by fastforce
  show "vd_buffering (snd (forwarded h0 nt k v)) = vd_buffering v" "vd_retries (snd (forwarded h0 nt k v)) = vd_retries v"
    "length (vd_streams (snd (forwarded h0 nt k v))) = length (vd_streams v)"
    using assms unfolding forwarded_def k by (cases x; simp)+
qed

lemma disconnect_frame:
  "vd_buffering (snd (or_disconnect h0 nt r)) = vd_buffering (snd r)" "vd_retries (snd (or_disconnect h0 nt r)) = vd_retries (snd r)"
  "length (vd_streams (snd (or_disconnect h0 nt r))) = length (vd_streams (snd r))"
  "vd_back (snd (or_disconnect h0 nt r)) = vd_back (snd r)"
  by (cases r; cases "fst r"; simp add: or_disconnect_def on_client_disconnection_def)+

lemmas handler_defs = on_forward_chunk_def on_forward_choke_def on_forward_error_def on_client_disconnection_def
  on_backward_chunk_def on_backward_choke_def on_backward_error_def on_backward_discard_def Let_def

definition stream_bound :: "nat \<Rightarrow> 'h vd \<Rightarrow> bool" where
  "stream_bound limit v \<longleftrightarrow> length (vd_streams v) \<le> Suc (min (vd_retries v) limit)"

lemma stream_bound_same:
  "stream_bound limit v \<Longrightarrow> vd_retries v' = vd_retries v \<Longrightarrow> length (vd_streams v') = length (vd_streams v) \<Longrightarrow> stream_bound limit v'"
  by (simp add: stream_bound_def)

lemma stream_bound_report:
  assumes "length (vd_streams v) \<le> Suc (min (vd_retries v) limit)"
  shows "stream_bound limit (snd (retry_or_report limit h0 nt v))"
  using assms report_frame(2, 4) [where limit = limit and ?h0.0 = h0 and nt = nt and v = v]
  by (auto simp: stream_bound_def split: if_splits)

lemma stream_bound_step: "vd_step limit h0 nt q q' \<Longrightarrow> stream_bound limit (rq_vd q) \<Longrightarrow> stream_bound limit (rq_vd q')"
proof (induction rule: vd_step.induct)
  case (Worker_error q h ec)
  then show ?case
    by (auto simp: on_backward_error_def Let_def stream_bound_report stream_bound_def [THEN iffD1] disconnect_frame elim!: stream_bound_same)
qed (auto simp: handler_defs disable_buffering_def disconnect_frame forwarded_frame elim!: stream_bound_same)

lemma buffering_off_step:
  "vd_step limit h0 nt q q' \<Longrightarrow> \<not> vd_buffering (rq_vd q) \<Longrightarrow>
   \<not> vd_buffering (rq_vd q') \<and> length (vd_streams (rq_vd q')) = length (vd_streams (rq_vd q))"
  by (induction rule: vd_step.induct)
    (auto simp: handler_defs disable_buffering_def disconnect_frame forwarded_frame report_frame)

text \<open>No chunk of a response has reached the client while the request is still buffered.\<close>

definition no_data_yet :: "'h vd \<Rightarrow> bool" where
  "no_data_yet v \<longleftrightarrow> (vd_buffering v \<longrightarrow> list_all (\<lambda>f. \<not> is_data f) (sm_sent (vd_back v)))"

lemma no_data_send:
  assumes "no_data_yet v" "\<not> is_data f"
  shows "no_data_yet (snd (send_back ok final f v))"
  using assms by (auto simp: no_data_yet_def send_back_def stream_send_def)

lemma no_data_calls [simp]:
  "no_data_yet (calls c v) = no_data_yet v" "no_data_yet (snd (then_call r c)) = no_data_yet (snd r)"
  by (simp_all add: no_data_yet_def)

lemma no_data_report:
  assumes "no_data_yet v"
  shows "no_data_yet (snd (retry_or_report limit h0 nt v))"
proof -
  obtain x v1 where r: "retry_unsafe limit nt v = (x, v1)" by fastforce
  with assms have "no_data_yet v1" using retry_frame(1, 2) [where limit = limit and nt = nt and v = v] by (simp add: no_data_yet_def)
  then show ?thesis unfolding retry_or_report_def r by (cases x) (simp_all add: no_data_send)
qed

lemma no_data_forwarded:
  assumes "no_data_yet v" "vd_back (snd (k v)) = vd_back v" "vd_buffering (snd (k v)) = vd_buffering v"
  shows "no_data_yet (snd (forwarded h0 nt k v))"
proof -
  obtain x v1 where k: "k v = (x, v1)" by fastforce
  with assms have "no_data_yet v1" by (simp add: no_data_yet_def)
  with assms(1) show ?thesis unfolding forwarded_def k by (cases x) (simp_all add: no_data_send)
qed

lemma no_data_disconnect: "no_data_yet (snd r) \<Longrightarrow> no_data_yet (snd (or_disconnect h0 nt r))"
  by (simp add: no_data_yet_def disconnect_frame)

lemma no_data_same: "no_data_yet v \<Longrightarrow> vd_back v' = vd_back v \<Longrightarrow> vd_buffering v' = vd_buffering v \<Longrightarrow> no_data_yet v'"
  by (simp add: no_data_yet_def)

lemma no_data_off: "\<not> vd_buffering v \<Longrightarrow> no_data_yet v"
  by (simp add: no_data_yet_def)

lemma no_data_step: "vd_step limit h0 nt q q' \<Longrightarrow> no_data_yet (rq_vd q) \<Longrightarrow> no_data_yet (rq_vd q')"
proof (induction rule: vd_step.induct)
  case (Worker_chunk q h c)
  then show ?case by (auto simp: on_backward_chunk_def disable_buffering_def disconnect_frame intro!: no_data_off)
next
  case (Client_gone q)
  then show ?case by (auto simp: on_client_disconnection_def elim: no_data_same)
qed (auto simp: handler_defs intro!: no_data_forwarded no_data_disconnect no_data_send no_data_report)

section \<open>Sending again: lemmas\<close>

lemma send_forward_last:
  assumes "vd_streams v \<noteq> []" "\<not> sm_closed (last (vd_streams v))"
  shows "last (vd_streams (snd (send_forward True final f v))) =
      (last (vd_streams v))\<lparr>sm_sent := sm_sent (last (vd_streams v)) @ [f], sm_closed := final\<rparr>"
    "vd_streams (snd (send_forward True final f v)) \<noteq> []"
  using assms by (simp_all add: send_forward_def stream_send_def)

lemma send_forward_open:
  assumes "send_forward ok final f v = (x, v1)" "\<not> x" "vd_streams v \<noteq> []" "\<not> sm_closed (last (vd_streams v))"
  shows "ok" "v1 = snd (send_forward True final f v)"
  using assms by (auto simp: send_forward_def stream_send_def split: if_splits)

text \<open>Frames that are sent again without an exception have all been sent.\<close>

lemma replay_all:
  assumes "replay_chunks ok i hs cs v = (x, v1)" "\<not> x" "vd_streams v \<noteq> []" "\<not> sm_closed (last (vd_streams v))"
  shows "vd_streams v1 \<noteq> [] \<and> \<not> sm_closed (last (vd_streams v1)) \<and>
    sm_sent (last (vd_streams v1)) = sm_sent (last (vd_streams v)) @ map2 F_chunk hs cs"
  using assms
proof (induction ok i hs cs v rule: replay_chunks.induct)
  case (1 ok i h hs c cs v)
  obtain y w where s: "send_forward (ok i) False (F_chunk h c) v = (y, w)" by fastforce
  with 1(2,3) have y: "\<not> y" and rest: "replay_chunks ok (i + 1) hs cs w = (x, v1)" by (cases y; simp)+
  note w = send_forward_open(2) [OF s y 1(4, 5)] and la = send_forward_last [OF 1(4, 5), of False "F_chunk h c"]
  from 1(1) [OF s [symmetric] _ rest 1(3)] y w la show ?case by simp
qed auto

lemma resend_all:
  assumes "resend nt v = (False, w)"
  shows "vd_streams w \<noteq> []"
    "sm_sent (last (vd_streams w)) =
       F_enqueue (vd_enqueue_headers v) (vd_enqueue_frame v) # map2 F_chunk (vd_chunk_headers v) (vd_chunks v) @
       (if vd_choke_sent v then [F_choke (vd_choke_headers v)] else [])"
    "sm_closed (last (vd_streams w)) = vd_choke_sent v"
proof -
  let ?v = "v\<lparr>vd_streams := vd_streams v @ [\<lparr>sm_closed = False, sm_sent = [F_enqueue (vd_enqueue_headers v) (vd_enqueue_frame v)]\<rparr>]\<rparr>"
  obtain x v1 where r: "replay_chunks (nt_replay nt) 0 (vd_chunk_headers v) (vd_chunks v) ?v = (x, v1)" by fastforce
  have x: "\<not> x" using assms unfolding resend_def r by (cases x) simp_all
  note all = replay_all [OF r x, simplified]
  have v1: "vd_choke_sent v1 = vd_choke_sent v" "vd_choke_headers v1 = vd_choke_headers v"
    using replay_frame(4, 5) [of "nt_replay nt" 0 "vd_chunk_headers v" "vd_chunks v" ?v] unfolding r by simp_all
  have w: "w = (if vd_choke_sent v then snd (send_forward True True (F_choke (vd_choke_headers v)) v1) else v1)"
    using assms x all unfolding resend_def r
    by (auto simp: v1 dest: send_forward_open(2))
  show "vd_streams w \<noteq> []"
    "sm_sent (last (vd_streams w)) =
       F_enqueue (vd_enqueue_headers v) (vd_enqueue_frame v) # map2 F_chunk (vd_chunk_headers v) (vd_chunks v) @
       (if vd_choke_sent v then [F_choke (vd_choke_headers v)] else [])"
    "sm_closed (last (vd_streams w)) = vd_choke_sent v"
    using all by (simp_all add: w send_forward_last)
qed

text \<open>
  The specification of the failover: the worker that is connected now has been
  sent the event and everything the client has sent, as if it had been the only one.
  Excused are requests whose client has failed, requests that were answered for good,
  which includes the report of a failure, and those that were moved although the flag
  of the final frame was true by chance (\<open>b\<close>).
\<close>

definition excused :: "bool \<Rightarrow> 'h req \<Rightarrow> bool" where
  "excused b q \<longleftrightarrow> rq_failed q \<or> sm_closed (vd_back (rq_vd q)) \<or> b \<and> 0 < vd_retries (rq_vd q)"

definition ends :: "'h frame list \<Rightarrow> bool" where
  "ends fs \<longleftrightarrow> (\<exists>h. F_choke h \<in> set fs)"

definition relayed :: "'h \<Rightarrow> string \<Rightarrow> 'h req \<Rightarrow> bool" where
  "relayed h e q \<longleftrightarrow> has_forward (rq_vd q) \<and>
     sm_sent (last (vd_streams (rq_vd q))) = F_enqueue h e # rq_input q \<and>
     sm_closed (last (vd_streams (rq_vd q))) = ends (rq_input q)"

definition buffered :: "bool \<Rightarrow> 'h \<Rightarrow> string \<Rightarrow> 'h req \<Rightarrow> bool" where
  "buffered b h e q \<longleftrightarrow> (let v = rq_vd q in
     (ends (rq_input q) \<longrightarrow> rq_done q) \<and> length (vd_chunk_headers v) = length (vd_chunks v) \<and>
     (\<not> b \<longrightarrow> vd_choke_sent v = ends (rq_input q)) \<and>
     (vd_buffering v \<longrightarrow> vd_enqueue_frame v = e \<and> vd_enqueue_headers v = h \<and>
        rq_input q = map2 F_chunk (vd_chunk_headers v) (vd_chunks v) @
          (if ends (rq_input q) then [F_choke (vd_choke_headers v)] else [])))"

definition relay_ok :: "bool \<Rightarrow> 'h \<Rightarrow> string \<Rightarrow> 'h req \<Rightarrow> bool" where
  "relay_ok b h e q \<longleftrightarrow> excused b q \<or> relayed h e q \<and> buffered b h e q"

lemma ends_simps [simp]: "ends (fs @ [F_chunk h c]) = ends fs" "ends (fs @ [F_choke h])" "\<not> ends []" "\<not> ends (map2 F_chunk hs cs)"
  by (auto simp: ends_def)

lemma back_stays_closed [simp]: "sm_closed (vd_back v) \<Longrightarrow> sm_closed (vd_back (snd (send_back ok final f v)))"
  by (simp add: send_back_def stream_send_def)

lemma back_closes [simp]: "sm_closed (vd_back (snd (send_back True True f v)))"
  by (simp add: send_back_def stream_send_def)

lemma report_stays_closed: "sm_closed (vd_back v) \<Longrightarrow> sm_closed (vd_back (snd (retry_or_report limit h0 nt v)))"
  using retry_frame(1) [of limit nt v] by (auto simp: retry_or_report_def split: prod.split bool.split)

lemma forwarded_stays_closed:
  assumes "sm_closed (vd_back v)" "vd_back (snd (k v)) = vd_back v"
  shows "sm_closed (vd_back (snd (forwarded h0 nt k v)))"
  using assms by (cases "k v"; cases "fst (k v)") (auto simp: forwarded_def)

lemma back_closed_step: "vd_step limit h0 nt q q' \<Longrightarrow> sm_closed (vd_back (rq_vd q)) \<Longrightarrow> sm_closed (vd_back (rq_vd q'))"
  by (induction rule: vd_step.induct)
    (auto simp: handler_defs disable_buffering_def disconnect_frame intro!: forwarded_stays_closed back_stays_closed report_stays_closed)

lemma retries_step: "vd_step limit h0 nt q q' \<Longrightarrow> vd_retries (rq_vd q) \<le> vd_retries (rq_vd q')"
  by (induction rule: vd_step.induct)
    (auto simp: handler_defs disable_buffering_def disconnect_frame forwarded_frame report_frame)

lemma failed_step: "vd_step limit h0 nt q q' \<Longrightarrow> rq_failed q \<Longrightarrow> rq_failed q'"
  by (induction rule: vd_step.induct) auto

lemma excused_step: "vd_step limit h0 nt q q' \<Longrightarrow> excused b q \<Longrightarrow> excused b q'"
  using back_closed_step failed_step retries_step unfolding excused_def by (meson order_less_le_trans)

text \<open>An exception of a retry is reported; a retry without one has sent everything.\<close>

lemma relay_report:
  assumes "nt_client nt" "\<not> b \<longrightarrow> buffered b h e q"
  shows "relay_ok b h e (q\<lparr>rq_vd := snd (retry_or_report limit h0 nt (rq_vd q))\<rparr>)"
proof -
  obtain x v1 where r: "retry_unsafe limit nt (rq_vd q) = (x, v1)" by fastforce
  note retries = report_frame(2) [of limit h0 nt "rq_vd q"]
  consider (reported) "x" | (lucky) "\<not> x" "b" | (moved) "\<not> x" "\<not> b" by blast
  then show ?thesis
  proof cases
    case reported
    then show ?thesis using assms(1) r by (simp add: relay_ok_def excused_def retry_or_report_def)
  next
    case lucky
    then show ?thesis using retries by (simp add: relay_ok_def excused_def)
  next
    case moved
    then obtain p where p: "nt_peer nt = Some p" "vd_buffering (rq_vd q)"
      "resend nt (calls (Used_peer p) (rq_vd q\<lparr>vd_retries := Suc (vd_retries (rq_vd q)), vd_peer := p\<rparr>)) = (False, v1)"
      using r by (auto simp: retry_unsafe_def Let_def split: if_splits option.splits)
    note all = resend_all [OF p(3), simplified] and fr = resend_frame [of nt, where v = "calls (Used_peer p)
        (rq_vd q\<lparr>vd_retries := Suc (vd_retries (rq_vd q)), vd_peer := p\<rparr>)", unfolded p(3), simplified]
    have "snd (retry_or_report limit h0 nt (rq_vd q)) = v1" using r moved by (simp add: retry_or_report_def)
    then show ?thesis using assms(2) moved p(2) all fr
      by (auto simp: relay_ok_def relayed_def buffered_def has_forward_def Let_def)
  qed
qed

lemma relay_forwarded:
  assumes "relayed h e q" "buffered b h e q" "\<not> rq_done q"
  shows "relay_ok b h e (pass (on_forward_chunk h0 nt hc c (rq_vd q)) (given nt (F_chunk hc c) False q))"
    "relay_ok b h e (pass (on_forward_choke h0 nt hc (rq_vd q)) (given nt (F_choke hc) True q))"
proof -
  let ?v = "rq_vd q\<lparr>vd_chunks := vd_chunks (rq_vd q) @ [c], vd_chunk_headers := vd_chunk_headers (rq_vd q) @ [hc]\<rparr>"
  let ?w = "rq_vd q\<lparr>vd_choke_sent := True, vd_choke_headers := hc\<rparr>"
  have no: "\<not> ends (rq_input q)" and fwd: "has_forward (rq_vd q)" using assms by (auto simp: buffered_def relayed_def Let_def)
  then have v: "vd_streams ?v \<noteq> []" "\<not> sm_closed (last (vd_streams ?v))" and w: "vd_streams ?w \<noteq> []" "\<not> sm_closed (last (vd_streams ?w))"
    using assms(1) by (auto simp: relayed_def has_forward_def)
  obtain x v1 where v1: "send_forward (nt_forward nt) False (F_chunk hc c) ?v = (x, v1)" by fastforce
  obtain y w1 where w1: "send_forward (nt_forward nt) True (F_choke hc) ?w = (y, w1)" by fastforce
  show "relay_ok b h e (pass (on_forward_chunk h0 nt hc c (rq_vd q)) (given nt (F_chunk hc c) False q))"
  proof (cases x)
    case False
    note eq = send_forward_open(2) [OF v1 False v]
    show ?thesis using False assms no send_forward_last [OF v, of False "F_chunk hc c"]
      by (auto simp: relay_ok_def relayed_def buffered_def on_forward_chunk_def forwarded_def Let_def fwd v1 eq has_forward_def)
  qed (cases "nt_client nt", simp_all add: relay_ok_def excused_def on_forward_chunk_def forwarded_def fwd v1)
  show "relay_ok b h e (pass (on_forward_choke h0 nt hc (rq_vd q)) (given nt (F_choke hc) True q))"
  proof (cases y)
    case False
    note eq = send_forward_open(2) [OF w1 False w]
    show ?thesis using False assms no send_forward_last [OF w, of True "F_choke hc"]
      by (auto simp: relay_ok_def relayed_def buffered_def on_forward_choke_def forwarded_def Let_def fwd w1 eq has_forward_def)
  qed (cases "nt_client nt", simp_all add: relay_ok_def excused_def on_forward_choke_def forwarded_def fwd w1)
qed

lemma relay_step:
  assumes "vd_step limit h0 nt q q'" "relay_ok b h e q"
  shows "relay_ok b h e q'"
proof (cases "excused b q")
  case True
  with excused_step [OF assms(1)] show ?thesis by (simp add: relay_ok_def)
next
  case False
  with assms(2) have ok: "relayed h e q" "buffered b h e q" by (auto simp: relay_ok_def)
  from assms(1) ok False show ?thesis
  proof (induction rule: vd_step.induct)
    case (Worker_chunk q hc c)
    let ?r = "send_back True False (F_chunk hc c) (disable_buffering h0 (rq_vd q))"
    have "on_backward_chunk h0 nt hc c (rq_vd q) = ?r" if "nt_client nt"
      using that by (auto simp: on_backward_chunk_def or_disconnect_def split: prod.split bool.split dest: arg_cong [of _ _ fst])
    then show ?case using Worker_chunk
      by (cases "nt_client nt") (simp_all add: relay_ok_def relayed_def buffered_def excused_def disable_buffering_def has_forward_def Let_def)
  next
    case (Worker_choke q hc)
    then show ?case by (cases "nt_client nt") (simp_all add: relay_ok_def excused_def on_backward_choke_def disconnect_frame)
  next
    case (Worker_error q hc ec)
    let ?q = "q\<lparr>rq_vd := calls (Peer_failed (vd_peer (rq_vd q)) ec) (rq_vd q)\<rparr>"
    have same: "buffered b h e ?q \<longleftrightarrow> buffered b h e q" by (simp add: buffered_def Let_def)
    have "relay_ok b h e (?q\<lparr>rq_vd := snd (retry_or_report limit h0 nt (rq_vd ?q))\<rparr>)" if "nt_client nt"
      using relay_report [of nt b h e ?q limit h0] that Worker_error(2) same by blast
    with Worker_error show ?case
      by (cases "nt_client nt"; cases "is_recoverable ec")
        (simp_all add: relay_ok_def excused_def on_backward_error_def disconnect_frame pass_def reaching_same Let_def)
  next
    case (Worker_gone q ec)
    then show ?case by (cases "nt_client nt") (simp_all add: relay_ok_def excused_def on_backward_discard_def)
  qed (auto simp: relay_forwarded, simp_all add: relay_ok_def excused_def)
qed

lemma relay_start: "relay_ok b h e (start_req limit h0 b p opened nt h e)"
proof (cases "opened \<or> \<not> nt_client nt")
  case True
  then show ?thesis
    by (auto simp: relay_ok_def excused_def relayed_def buffered_def start_req_def enqueue_def new_vd_def has_forward_def Let_def)
next
  case False
  let ?q = "\<lparr>rq_vd = calls (Reconnect p) ((new_vd b h0 p)\<lparr>vd_enqueue_frame := e, vd_enqueue_headers := h\<rparr>), rq_input = [], rq_done = False, rq_failed = False\<rparr>"
  have "\<not> b \<longrightarrow> buffered b h e ?q" by (simp add: buffered_def new_vd_def Let_def)
  from relay_report [OF _ this, of nt limit h0] False show ?thesis
    by (simp add: start_req_def enqueue_def new_vd_def Let_def)
qed

lemma run_invariant:
  assumes "vd_run ok limit h0 q q'" "P q" "\<And>nt q q'. vd_step limit h0 nt q q' \<Longrightarrow> ok nt \<Longrightarrow> P q \<Longrightarrow> P q'"
  shows "P q'"
  using assms by (induction rule: vd_run.induct) blast+

lemma start_back:
  "back_ok (vd_back (rq_vd (start_req limit h0 b p opened nt h e)))"
  "no_data_yet (rq_vd (start_req limit h0 b p opened nt h e))"
  "stream_bound limit (rq_vd (start_req limit h0 b p opened nt h e))"
proof -
  let ?v = "calls (Reconnect p) ((new_vd b h0 p)\<lparr>vd_enqueue_frame := e, vd_enqueue_headers := h\<rparr>)"
  have fresh: "back_ok (vd_back ?v)" by (simp add: back_ok_def new_vd_def)
  show "back_ok (vd_back (rq_vd (start_req limit h0 b p opened nt h e)))"
    using back_ok_report [of ?v limit h0 nt] fresh by (simp add: start_req_def enqueue_def new_vd_def Let_def)
  show "no_data_yet (rq_vd (start_req limit h0 b p opened nt h e))"
    using no_data_report [of ?v limit h0 nt] by (simp add: start_req_def enqueue_def new_vd_def no_data_yet_def Let_def)
  show "stream_bound limit (rq_vd (start_req limit h0 b p opened nt h e))"
    using stream_bound_report [of ?v limit h0 nt] by (simp add: start_req_def enqueue_def new_vd_def stream_bound_def Let_def)
qed

section \<open>Requests\<close>

text \<open>
  C40: Whatever the workers, the client and the network do, the
  stream of the client is a sequence of response chunks followed by at most one final
  frame, and nothing is sent on it after that frame, although several workers may
  answer the same request. No more workers than the limit of retries plus one are
  ever sent the request.
\<close>

theorem vicodyn_client_stream:
  assumes "vd_run ok limit h0 (start_req limit h0 b p opened nt h e) q"
  shows "back_ok (vd_back (rq_vd q)) \<and> length (vd_streams (rq_vd q)) \<le> Suc limit"
proof
  show "back_ok (vd_back (rq_vd q))"
    by (rule run_invariant [OF assms, of "\<lambda>q. back_ok (vd_back (rq_vd q))"]) (auto intro: start_back back_ok_step)
  have "stream_bound limit (rq_vd q)"
    by (rule run_invariant [OF assms, of "\<lambda>q. stream_bound limit (rq_vd q)"]) (auto intro: start_back stream_bound_step)
  then show "length (vd_streams (rq_vd q)) \<le> Suc limit" by (simp add: stream_bound_def)
qed

text \<open>
  C10: however often a request was moved to another worker, and whatever fails, the
  worker it is forwarded to now has been sent exactly the event and everything its
  client has sent since, in order and once, with the final frame exactly if the client
  has sent it. The only exceptions: the client sent an error, has gone or cannot be
  reached; or its stream has been ended, by a response or by the report of a
  failure, so that nothing is lost silently; or the flag of the final frame, which the
  code does not initialize, started as true and the request has been moved.
\<close>

theorem vicodyn_failover:
  assumes "vd_run ok limit h0 (start_req limit h0 b p opened nt h e) q"
  shows "has_forward (rq_vd q) \<and> sm_sent (last (vd_streams (rq_vd q))) = F_enqueue h e # rq_input q \<and>
       sm_closed (last (vd_streams (rq_vd q))) = (\<exists>hc. F_choke hc \<in> set (rq_input q)) \<or>
     rq_failed q \<or> sm_closed (vd_back (rq_vd q)) \<or> b \<and> 0 < vd_retries (rq_vd q)"
proof -
  have "relay_ok b h e q"
    by (rule run_invariant [OF assms]) (auto intro: relay_start relay_step)
  then show ?thesis by (auto simp: relay_ok_def relayed_def excused_def ends_def)
qed

text \<open>
  C23: once a chunk of a response has been sent to the client, the
  request is never moved to another worker: no more streams are opened, so that the
  client never sees the response of a second worker after a part of the first.
\<close>

theorem vicodyn_no_mixing:
  assumes "vd_run ok limit h0 (start_req limit h0 b p opened nt h e) q"
    and "F_chunk hc c \<in> set (sm_sent (vd_back (rq_vd q)))" and "vd_run ok limit h0 q q'"
  shows "length (vd_streams (rq_vd q')) = length (vd_streams (rq_vd q))"
proof -
  have "no_data_yet (rq_vd q)"
    by (rule run_invariant [OF assms(1), of "\<lambda>q. no_data_yet (rq_vd q)"]) (auto intro: start_back no_data_step)
  with assms(2) have off: "\<not> vd_buffering (rq_vd q)" by (auto simp: no_data_yet_def list_all_iff)
  have "\<not> vd_buffering (rq_vd q') \<and> length (vd_streams (rq_vd q')) = length (vd_streams (rq_vd q))"
    by (rule run_invariant [OF assms(3), of "\<lambda>q'. \<not> vd_buffering (rq_vd q') \<and> length (vd_streams (rq_vd q')) = length (vd_streams (rq_vd q))"])
      (use off buffering_off_step in fastforce)+
  then show ?thesis ..
qed

text \<open>A network in which everything works, and the run of a request that is moved once.\<close>

definition fine :: net where
  "fine = \<lparr>nt_peer = Some ''b'', nt_open = True, nt_replay = (\<lambda>_. True), nt_forward = True, nt_client = True\<rparr>"

definition first_req :: "bool \<Rightarrow> nat req" where
  "first_req b = start_req 3 0 b ''a'' True fine 1 ''event''"

definition moved_req :: "bool \<Rightarrow> nat req" where
  "moved_req b = (let q1 = pass (on_forward_chunk 0 fine 2 ''x'' (rq_vd (first_req b))) (given fine (F_chunk 2 ''x'') False (first_req b))
     in pass (on_backward_error 3 0 fine 0 Overseer_queue_full (rq_vd q1)) (reaching fine q1))"

definition answered_req :: "bool \<Rightarrow> nat req" where
  "answered_req b = pass (on_backward_chunk 0 fine 4 ''r'' (rq_vd (moved_req b))) (reaching fine (moved_req b))"

abbreviation any_net :: "net \<Rightarrow> bool" where
  "any_net nt \<equiv> True"

lemma any_go: "vd_run any_net limit h0 q q1 \<Longrightarrow> vd_step limit h0 nt q1 q2 \<Longrightarrow> vd_run any_net limit h0 q q2"
  by (rule vd_run.Go [where nt = nt]) simp_all

lemma example_runs:
  "vd_run any_net 3 0 (first_req b) (moved_req b)" "vd_run any_net 3 0 (first_req b) (answered_req b)"
proof -
  let ?q = "pass (on_forward_chunk 0 fine 2 ''x'' (rq_vd (first_req b))) (given fine (F_chunk 2 ''x'') False (first_req b))"
  have one: "vd_run any_net 3 0 (first_req b) ?q"
    by (rule any_go [OF vd_run.Stay]) (rule vd_step.Client_chunk, simp add: first_req_def start_req_def)
  show two: "vd_run any_net 3 0 (first_req b) (moved_req b)"
    unfolding moved_req_def Let_def by (rule any_go [OF one]) (rule vd_step.Worker_error)
  show "vd_run any_net 3 0 (first_req b) (answered_req b)"
    unfolding answered_req_def by (rule any_go [OF two]) (rule vd_step.Worker_chunk)
qed

theorem vicodyn_client_stream_witness:
  "back_ok (vd_back (rq_vd (answered_req True))) \<and> length (vd_streams (rq_vd (answered_req True))) \<le> 4 \<and>
   sm_sent (vd_back (rq_vd (answered_req True))) = [F_chunk 4 ''r''] \<and> length (vd_streams (rq_vd (answered_req True))) = 2"
proof -
  have "sm_sent (vd_back (rq_vd (answered_req True))) = [F_chunk 4 ''r'']" "length (vd_streams (rq_vd (answered_req True))) = 2" by code_simp+
  with vicodyn_client_stream [OF example_runs(2) [unfolded first_req_def], of True] show ?thesis by simp
qed

theorem vicodyn_failover_witness:
  "sm_sent (last (vd_streams (rq_vd (moved_req False)))) = F_enqueue 1 ''event'' # rq_input (moved_req False) \<and>
   rq_input (moved_req False) = [F_chunk 2 ''x''] \<and> length (vd_streams (rq_vd (moved_req False))) = 2"
proof -
  have "\<not> rq_failed (moved_req False)" "\<not> sm_closed (vd_back (rq_vd (moved_req False)))" by code_simp+
  with vicodyn_failover [OF example_runs(1) [of False, unfolded first_req_def]]
  have "sm_sent (last (vd_streams (rq_vd (moved_req False)))) = F_enqueue 1 ''event'' # rq_input (moved_req False)" by blast
  moreover have "rq_input (moved_req False) = [F_chunk 2 ''x'']" "length (vd_streams (rq_vd (moved_req False))) = 2" by code_simp+
  ultimately show ?thesis by simp
qed

theorem vicodyn_no_mixing_witness:
  "length (vd_streams (rq_vd (pass (on_backward_error 3 0 fine 0 Overseer_queue_full (rq_vd (answered_req False)))
     (reaching fine (answered_req False))))) = length (vd_streams (rq_vd (answered_req False)))"
proof (rule vicodyn_no_mixing [OF example_runs(2) [of False, unfolded first_req_def]])
  show "F_chunk 4 ''r'' \<in> set (sm_sent (vd_back (rq_vd (answered_req False))))" by code_simp
qed (rule any_go [OF vd_run.Stay], rule vd_step.Worker_error)

text \<open>
  Where the proxy loses data. The flag of the final frame is never
  initialized: when it happens to be true, moving a request closes the stream to the
  new worker with a final frame the client has not sent, and the chunks the client
  sends afterwards are lost without an error. Chunks are still collected after
  buffering has been disabled, for the whole life of the request, although they will
  never be sent again. And an error sent by a client is not sent to the worker
  the request is moved to, which waits for the rest of the request.
\<close>

theorem vicodyn_proxy_gaps:
  "sm_sent (last (vd_streams (rq_vd (moved_req True)))) = [F_enqueue 1 ''event'', F_chunk 2 ''x'', F_choke 0] \<and>
   sm_sent (last (vd_streams (snd (on_forward_chunk 0 fine 5 ''y'' (rq_vd (moved_req True)))))) =
     [F_enqueue 1 ''event'', F_chunk 2 ''x'', F_choke 0] \<and>
   fst (on_forward_chunk 0 fine 5 ''y'' (rq_vd (moved_req True))) = False \<and>
   vd_chunks (snd (on_forward_chunk 0 fine 5 ''y'' (rq_vd (answered_req False)))) = [''y''] \<and>
   vd_buffering (snd (on_forward_chunk 0 fine 5 ''y'' (rq_vd (answered_req False)))) = False \<and>
   (let v = snd (on_forward_error 0 fine 6 Dispatch_not_connected (rq_vd (first_req False)));
        w = snd (on_backward_error 3 0 fine 0 Overseer_queue_full v)
    in sm_sent (last (vd_streams v)) = [F_enqueue 1 ''event'', F_error 6 Dispatch_not_connected] \<and>
       sm_sent (last (vd_streams w)) = [F_enqueue 1 ''event''] \<and> \<not> sm_closed (last (vd_streams w)))"
  by (intro conjI; code_simp)

end
