(* ===== verification/Isometrics.thy ===== *)
theory Isometrics
  imports Dynamic "HOL-Library.List_Lexorder" "HOL-Library.Char_ord"
begin

text \<open>
  The metrics of isolated workers (\<^verbatim>\<open>src/node/src/node/isometrics.cpp\<close>): the node asks the
  isolation daemon at intervals for the metrics of its live workers and of those that
  have just died, keeps a table of metrics by worker, and sums them up for
  the application.

  Counters are 64-bit words whose arithmetic wraps. Gauges are numbers of any type
  \<open>'d\<close> with the operations \<open>gauge_ops\<close>. The metrics hub of the core is the
  argument \<open>hub\<close>: the value of the counter it returns when a name is registered.
  Times are integers in nanoseconds.  The maps are association lists in the order
  in which the code iterates over them.
\<close>

section \<open>Metrics of a worker\<close>

datatype aggregate = Instant | Aggregate

datatype metric_type = Counter | Gauge | Network

definition init_metrics_desc :: "(string \<times> metric_type \<times> aggregate) list" where
  "init_metrics_desc =
     [(''cpu_load'', Gauge, Instant), (''mem'', Counter, Instant),
      (''uptime'', Counter, Aggregate), (''net'', Network, Aggregate)]"

record counter_metric =
  cm_aggregation :: aggregate
  cm_value :: u64
  cm_delta :: u64

record network_metrics =
  nm_rx_bytes :: u64
  nm_tx_bytes :: u64

record 'd worker_metrics =
  wm_counters :: "(string, counter_metric) umap"
  wm_gauges :: "(string, 'd) umap"
  wm_network :: "(string, network_metrics) umap"
  wm_update_stamp :: int
  wm_name_prefix :: string

record 'd gauge_ops =
  go_zero :: 'd
  go_add :: "'d \<Rightarrow> 'd \<Rightarrow> 'd"
  go_div :: "'d \<Rightarrow> int \<Rightarrow> 'd"

definition make_uint_counter :: "(string \<Rightarrow> u64) \<Rightarrow> string \<Rightarrow> string \<Rightarrow> u64" where
  "make_uint_counter hub pfx name = hub (pfx @ ''.'' @ name)"

definition register_metric ::
  "'d gauge_ops \<Rightarrow> (string \<Rightarrow> u64) \<Rightarrow> string \<times> metric_type \<times> aggregate \<Rightarrow> 'd worker_metrics \<Rightarrow> 'd worker_metrics" where
  "register_metric ops hub d w =
     (case d of (name, type, aggregation) \<Rightarrow>
        case type of
          Counter \<Rightarrow> w\<lparr>wm_counters := um_insert name
            \<lparr>cm_aggregation = aggregation, cm_value = make_uint_counter hub (wm_name_prefix w) name, cm_delta = 0\<rparr> (wm_counters w)\<rparr>
        | Gauge \<Rightarrow> w\<lparr>wm_gauges := um_insert name (go_zero ops) (wm_gauges w)\<rparr>
        | Network \<Rightarrow> w)"

definition new_worker_metrics :: "'d gauge_ops \<Rightarrow> (string \<Rightarrow> u64) \<Rightarrow> int \<Rightarrow> string \<Rightarrow> 'd worker_metrics" where
  "new_worker_metrics ops hub now pfx =
     fold (register_metric ops hub) init_metrics_desc
       \<lparr>wm_counters = [], wm_gauges = [], wm_network = [], wm_update_stamp = now, wm_name_prefix = pfx\<rparr>"

section \<open>One value of a response\<close>

text \<open>
  The visitor: the number of metrics it updated, \<open>None\<close> for an exception, and the
  metrics of the worker, which keep what was stored before the exception.
\<close>

definition process_uint :: "string \<Rightarrow> u64 \<Rightarrow> 'd worker_metrics \<Rightarrow> nat option \<times> 'd worker_metrics" where
  "process_uint name incoming w =
     (case um_find name (wm_counters w) of
        None \<Rightarrow> (Some 0, w)
      | Some r \<Rightarrow>
          let r1 = (if cm_aggregation r = Aggregate \<and> cm_value r \<le> incoming
                    then r\<lparr>cm_delta := incoming - cm_value r\<rparr> else r)
          in (Some 1, w\<lparr>wm_counters := um_insert name (r1\<lparr>cm_value := incoming\<rparr>) (wm_counters w)\<rparr>))"

definition process_double :: "string \<Rightarrow> 'd \<Rightarrow> 'd worker_metrics \<Rightarrow> nat option \<times> 'd worker_metrics" where
  "process_double name x w =
     (if um_find name (wm_gauges w) = None then (Some 0, w)
      else (Some 1, w\<lparr>wm_gauges := um_insert name x (wm_gauges w)\<rparr>))"

definition parse_network_record ::
  "(string \<Rightarrow> u64) \<Rightarrow> string \<Rightarrow> (string \<times> 'd dynamic) list \<Rightarrow> 'd worker_metrics \<Rightarrow> nat option \<times> 'd worker_metrics" where
  "parse_network_record hub name net w =
     (case (map_of net ''rx_bytes'', map_of net ''tx_bytes'') of
        (Some rx, Some tx) \<Rightarrow>
          let w1 = (if um_find name (wm_network w) = None
                    then w\<lparr>wm_network := um_insert name
                      \<lparr>nm_rx_bytes = make_uint_counter hub (wm_name_prefix w) (''net.'' @ name @ ''.rx_bytes''),
                       nm_tx_bytes = make_uint_counter hub (wm_name_prefix w) (''net.'' @ name @ ''.tx_bytes'')\<rparr> (wm_network w)\<rparr>
                    else w);
              put = (\<lambda>f w. w\<lparr>wm_network := AList.map_entry name f (wm_network w)\<rparr>)
          in (case as_uint rx of
                Inl _ \<Rightarrow> (None, w1)
              | Inr r \<Rightarrow>
                  let w2 = put (\<lambda>m. m\<lparr>nm_rx_bytes := r\<rparr>) w1
                  in case as_uint tx of
                       Inl _ \<Rightarrow> (None, w2)
                     | Inr t \<Rightarrow> (Some 2, put (\<lambda>m. m\<lparr>nm_tx_bytes := t\<rparr>) w2))
      | _ \<Rightarrow> (Some 0, w))"

fun process_object ::
  "(string \<Rightarrow> u64) \<Rightarrow> (string \<times> 'd dynamic) list \<Rightarrow> nat \<Rightarrow> 'd worker_metrics \<Rightarrow> nat option \<times> 'd worker_metrics" where
  "process_object hub [] updated w = (Some updated, w)"
| "process_object hub ((name, net) # nets) updated w =
     (case net of
        D_object kvs \<Rightarrow>
          (case parse_network_record hub name kvs w of
             (None, w1) \<Rightarrow> (None, w1)
           | (Some n, w1) \<Rightarrow> process_object hub nets (updated + n) w1)
      | _ \<Rightarrow> (None, w))"

fun process_value :: "(string \<Rightarrow> u64) \<Rightarrow> string \<Rightarrow> 'd dynamic \<Rightarrow> 'd worker_metrics \<Rightarrow> nat option \<times> 'd worker_metrics" where
  "process_value hub name (D_uint u) w = process_uint name u w"
| "process_value hub name (D_double d) w = process_double name d w"
| "process_value hub name (D_object nets) w = process_object hub nets 0 w"
| "process_value hub name _ w = (Some 0, w)"

definition decay_metric_name :: "string \<Rightarrow> string \<times> string" where
  "decay_metric_name name = (takeWhile (\<lambda>c. c \<noteq> CHR ''.'') name, tl (dropWhile (\<lambda>c. c \<noteq> CHR ''.'') name))"

fun fill_metrics :: "(string \<Rightarrow> u64) \<Rightarrow> (string \<times> 'd dynamic) list \<Rightarrow> nat \<Rightarrow> 'd worker_metrics \<Rightarrow> nat \<times> 'd worker_metrics" where
  "fill_metrics hub [] updated w = (updated, w)"
| "fill_metrics hub ((name, v) # ms) updated w =
     (let nm = fst (decay_metric_name name) in
      if nm = [] then fill_metrics hub ms updated w
      else case process_value hub nm v w of
             (None, w1) \<Rightarrow> fill_metrics hub ms updated w1
           | (Some n, w1) \<Rightarrow> fill_metrics hub ms (updated + n) w1)"

section \<open>A response\<close>

type_synonym 'd response = "(string \<times> (string \<times> 'd dynamic) list) list"

type_synonym 'd stats_table = "(string, 'd worker_metrics) umap"

record 'd processing =
  rp_table :: "'d stats_table"
  rp_faded :: "(string, int) umap"
  rp_ids_processed :: nat
  rp_errors :: "(int \<times> string) list"

text \<open>One worker of the response; \<^verbatim>\<open>ids_processed\<close> and the errors are never changed.\<close>

definition process_worker ::
  "'d gauge_ops \<Rightarrow> (string \<Rightarrow> u64) \<Rightarrow> string \<Rightarrow> int \<Rightarrow> int \<Rightarrow> string \<times> (string \<times> 'd dynamic) list \<Rightarrow> 'd processing \<Rightarrow> 'd processing" where
  "process_worker ops hub app now faded_timeout worker p =
     (case worker of (uid, ms) \<Rightarrow>
        if uid = [] then p
        else
          let w = (case um_find uid (rp_table p) of
                     None \<Rightarrow> new_worker_metrics ops hub now (app @ ''.isolate.'' @ uid)
                   | Some w \<Rightarrow> w)
          in case fill_metrics hub ms 0 w of (updated, w1) \<Rightarrow>
               if updated > 0
               then p\<lparr>rp_table := um_insert uid (w1\<lparr>wm_update_stamp := now\<rparr>) (rp_table p)\<rparr>
               else
                 let span = now - wm_update_stamp w1;
                     p1 = p\<lparr>rp_table := um_insert uid w1 (rp_table p)\<rparr>
                 in if span > faded_timeout \<and> um_find uid (rp_faded p) = None
                    then p1\<lparr>rp_faded := um_insert uid (span div 1000000000) (rp_faded p1)\<rparr> else p1)"

definition process ::
  "'d gauge_ops \<Rightarrow> (string \<Rightarrow> u64) \<Rightarrow> string \<Rightarrow> int \<Rightarrow> int \<Rightarrow> 'd response \<Rightarrow> 'd stats_table \<Rightarrow> 'd processing" where
  "process ops hub app now faded_timeout response table =
     fold (process_worker ops hub app now faded_timeout) response
       \<lparr>rp_table = table, rp_faded = [], rp_ids_processed = 0, rp_errors = []\<rparr>"

section \<open>The sum over the workers\<close>

record 'd aggregate_proxy =
  ap_counters :: "(string, u64 \<times> u64) umap"
  ap_gauges :: "(string, 'd \<times> int) umap"

definition add_counter :: "string \<times> counter_metric \<Rightarrow> 'd aggregate_proxy \<Rightarrow> 'd aggregate_proxy" where
  "add_counter c p =
     (let (values, deltas) = (case um_find (fst c) (ap_counters p) of None \<Rightarrow> (0, 0) | Some r \<Rightarrow> r)
      in p\<lparr>ap_counters := um_insert (fst c) (values + cm_value (snd c), deltas + cm_delta (snd c)) (ap_counters p)\<rparr>)"

definition add_gauge :: "'d gauge_ops \<Rightarrow> string \<times> 'd \<Rightarrow> 'd aggregate_proxy \<Rightarrow> 'd aggregate_proxy" where
  "add_gauge ops g p =
     (let (value, count) = (case um_find (fst g) (ap_gauges p) of None \<Rightarrow> (go_zero ops, 0) | Some r \<Rightarrow> r)
      in p\<lparr>ap_gauges := um_insert (fst g) (go_add ops value (snd g), count + 1) (ap_gauges p)\<rparr>)"

definition add_worker :: "'d gauge_ops \<Rightarrow> 'd worker_metrics \<Rightarrow> 'd aggregate_proxy \<Rightarrow> 'd aggregate_proxy" where
  "add_worker ops w p = fold (add_gauge ops) (wm_gauges w) (fold add_counter (wm_counters w) p)"

definition accumulate :: "'d gauge_ops \<Rightarrow> 'd stats_table \<Rightarrow> 'd aggregate_proxy" where
  "accumulate ops table = fold (add_worker ops) (map snd table) \<lparr>ap_counters = [], ap_gauges = []\<rparr>"

definition update_counter :: "string \<Rightarrow> aggregate \<Rightarrow> u64 \<Rightarrow> 'd worker_metrics \<Rightarrow> 'd worker_metrics" where
  "update_counter name desired x w =
     (case um_find name (wm_counters w) of
        Some r \<Rightarrow> if cm_aggregation r = desired then w\<lparr>wm_counters := um_insert name (r\<lparr>cm_value := x\<rparr>) (wm_counters w)\<rparr> else w
      | None \<Rightarrow> w)"

definition update_gauge :: "string \<Rightarrow> 'd \<Rightarrow> 'd worker_metrics \<Rightarrow> 'd worker_metrics" where
  "update_gauge name x w =
     (if um_find name (wm_gauges w) = None then w else w\<lparr>wm_gauges := um_insert name x (wm_gauges w)\<rparr>)"

definition zero_metric :: "'d gauge_ops \<Rightarrow> string \<times> metric_type \<times> aggregate \<Rightarrow> 'd worker_metrics \<Rightarrow> 'd worker_metrics" where
  "zero_metric ops d w =
     (case d of (name, type, _) \<Rightarrow>
        case type of
          Counter \<Rightarrow> update_counter name Instant 0 w
        | Gauge \<Rightarrow> update_gauge name (go_zero ops) w
        | Network \<Rightarrow> w)"

definition assign_counter :: "string \<times> u64 \<times> u64 \<Rightarrow> 'd worker_metrics \<Rightarrow> 'd worker_metrics" where
  "assign_counter c w =
     (case c of (name, values, deltas) \<Rightarrow>
        case um_find name (wm_counters w) of
          None \<Rightarrow> w
        | Some r \<Rightarrow>
            let x = (case cm_aggregation r of Aggregate \<Rightarrow> cm_value r + deltas | Instant \<Rightarrow> values)
            in w\<lparr>wm_counters := um_insert name (r\<lparr>cm_value := x\<rparr>) (wm_counters w)\<rparr>)"

definition assign_gauge :: "'d gauge_ops \<Rightarrow> string \<times> 'd \<times> int \<Rightarrow> 'd worker_metrics \<Rightarrow> 'd worker_metrics" where
  "assign_gauge ops g w =
     (case g of (name, value, count) \<Rightarrow>
        update_gauge name (if count \<noteq> 0 then go_div ops value count else go_zero ops) w)"

definition assign :: "'d gauge_ops \<Rightarrow> 'd aggregate_proxy \<Rightarrow> 'd worker_metrics \<Rightarrow> 'd worker_metrics" where
  "assign ops p w =
     (if ap_counters p = [] then fold (zero_metric ops) init_metrics_desc w
      else fold (assign_gauge ops) (ap_gauges p) (fold assign_counter (ap_counters p) w))"

section \<open>The retriever\<close>

record self_metrics =
  sf_uuids_requested :: u64
  sf_uuids_recieved :: u64
  sf_requests_send :: u64
  sf_empty_requests :: u64
  sf_responses_received :: u64
  sf_receive_errors :: u64
  sf_postmortem_queue_size :: u64

text \<open>
  \<open>mr_armed\<close>: the poll timer is armed; \<open>mr_queries\<close>: what the isolation daemon was asked,
  the last query first; \<open>mr_warnings\<close>: the warnings about workers without updates.
\<close>

record 'd retriever =
  mr_app_name :: string
  mr_poll_interval :: int
  mr_purgatory :: "string list"
  mr_metrics :: "'d stats_table"
  mr_aggregate :: "'d worker_metrics"
  mr_self :: self_metrics
  mr_armed :: bool
  mr_queries :: "string list list"
  mr_warnings :: "(string \<times> int) list"

definition purgatory_queue_bound :: nat where
  "purgatory_queue_bound = 8 * 1024"

definition missed_updates_times :: int where
  "missed_updates_times = 10"

definition ignite_poll :: "'d retriever \<Rightarrow> 'd retriever" where
  "ignite_poll m = m\<lparr>mr_armed := True\<rparr>"

definition add_post_mortem :: "string \<Rightarrow> 'd retriever \<Rightarrow> 'd retriever" where
  "add_post_mortem uid m =
     (if length (mr_purgatory m) \<ge> purgatory_queue_bound then m
      else let pot = insort_insert uid (mr_purgatory m)
        in m\<lparr>mr_purgatory := pot, mr_self := (mr_self m)\<lparr>sf_postmortem_queue_size := of_nat (length pot)\<rparr>\<rparr>)"

text \<open>\<^verbatim>\<open>std::set_union\<close> of two sorted ranges.\<close>

fun set_union :: "'a::linorder list \<Rightarrow> 'a list \<Rightarrow> 'a list" where
  "set_union [] ys = ys"
| "set_union xs [] = xs"
| "set_union (x # xs) (y # ys) =
     (if x < y then x # set_union xs (y # ys)
      else if y < x then y # set_union (x # xs) ys
      else x # set_union xs ys)"

text \<open>The entries of the table that are asked for, moved to a new table.\<close>

definition preserve :: "'d stats_table \<Rightarrow> string list \<Rightarrow> 'd stats_table" where
  "preserve table query =
     fold (\<lambda>uid kept. case um_find uid table of
                        None \<Rightarrow> kept
                      | Some w \<Rightarrow> if um_find uid kept = None then um_insert uid w kept else kept) query []"

text \<open>
  \<open>engine\<close>: the workers in the pool of the engine, \<open>None\<close> when the engine is gone.
\<close>

definition poll_metrics :: "bool \<Rightarrow> bool \<Rightarrow> string list option \<Rightarrow> 'd retriever \<Rightarrow> 'd retriever" where
  "poll_metrics cancelled isolate engine m0 =
     (let m = m0\<lparr>mr_armed := False\<rparr> in
      if cancelled then m
      else case engine of
             None \<Rightarrow> m
           | Some alive \<Rightarrow>
               if \<not> isolate then ignite_poll m
               else
                 let query = set_union (sort alive) (mr_purgatory m);
                     s = mr_self m
                 in ignite_poll (m\<lparr>mr_purgatory := [],
                      mr_queries := query # mr_queries m,
                      mr_metrics := preserve (mr_metrics m) query,
                      mr_self := s\<lparr>sf_postmortem_queue_size := 0,
                        sf_empty_requests := (if query = [] then sf_empty_requests s + 1 else sf_empty_requests s),
                        sf_requests_send := sf_requests_send s + 1,
                        sf_uuids_requested := sf_uuids_requested s + of_nat (length query)\<rparr>\<rparr>))"

definition on_data ::
  "'d gauge_ops \<Rightarrow> (string \<Rightarrow> u64) \<Rightarrow> int \<Rightarrow> 'd response \<Rightarrow> 'd retriever \<Rightarrow> 'd retriever" where
  "on_data ops hub now data m =
     (let faded_timeout = mr_poll_interval m * missed_updates_times * 1000000000;
          p = process ops hub (mr_app_name m) now faded_timeout data (mr_metrics m);
          s = mr_self m
      in m\<lparr>mr_metrics := rp_table p,
           mr_aggregate := assign ops (accumulate ops (rp_table p)) (mr_aggregate m),
           mr_self := s\<lparr>sf_uuids_recieved := sf_uuids_recieved s + of_nat (rp_ids_processed p),
                        sf_responses_received := sf_responses_received s + 1\<rparr>,
           mr_warnings := mr_warnings m @ rp_faded p\<rparr>)"

definition on_error :: "bool \<Rightarrow> 'd retriever \<Rightarrow> 'd retriever" where
  "on_error not_connected m =
     (if not_connected then m
      else m\<lparr>mr_self := (mr_self m)\<lparr>sf_receive_errors := sf_receive_errors (mr_self m) + 1\<rparr>\<rparr>)"

definition new_retriever :: "'d gauge_ops \<Rightarrow> (string \<Rightarrow> u64) \<Rightarrow> int \<Rightarrow> string \<Rightarrow> int \<Rightarrow> 'd retriever" where
  "new_retriever ops hub now name interval =
     (let c = make_uint_counter hub ''node.isolate.poll.metrics'' in
      \<lparr>mr_app_name = name, mr_poll_interval = interval, mr_purgatory = [], mr_metrics = [],
       mr_aggregate = new_worker_metrics ops hub now (name @ ''.isolate''),
       mr_self = \<lparr>sf_uuids_requested = c ''uuids.requested'', sf_uuids_recieved = c ''uuids.recieved'',
                  sf_requests_send = c ''requests'', sf_empty_requests = c ''empty.requests'',
                  sf_responses_received = c ''responses'', sf_receive_errors = c ''recieve.errors'',
                  sf_postmortem_queue_size = c ''postmortem.queue.size''\<rparr>,
       mr_armed = False, mr_queries = [], mr_warnings = []\<rparr>)"

text \<open>
  Starting from the arguments of the node service, which are an object here; the errors are thrown.
\<close>

datatype retriever_error = No_isolate | Not_configured | No_node_section | Bad_config

fun as_bool :: "'d dynamic \<Rightarrow> (dynamic_error, bool) result" where
  "as_bool (D_bool b) = Inr b"
| "as_bool _ = Inl Bad_get"

definition make_and_ignite ::
  "'d gauge_ops \<Rightarrow> (string \<Rightarrow> u64) \<Rightarrow> int \<Rightarrow> string \<Rightarrow> bool \<Rightarrow> (string \<times> 'd dynamic) list option \<Rightarrow>
   (retriever_error, 'd retriever) result" where
  "make_and_ignite ops hub now name isolate node_config =
     (if \<not> isolate then Inl No_isolate
      else case node_config of
             None \<Rightarrow> Inl No_node_section
           | Some args \<Rightarrow>
               bindE (lift_error (\<lambda>_. Bad_config) (as_bool (case map_of args ''isolate_metrics'' of None \<Rightarrow> D_bool False | Some v \<Rightarrow> v)))
                 (\<lambda>should_start.
               bindE (lift_error (\<lambda>_. Bad_config)
                   (as_uint (case map_of args ''isolate_metrics_poll_period_s'' of None \<Rightarrow> D_uint 5 | Some v \<Rightarrow> v)))
                 (\<lambda>poll_interval.
               if \<not> should_start then Inl Not_configured
               else Inr (ignite_poll (new_retriever ops hub now name (sint poll_interval))))))"

section \<open>Runs\<close>

datatype 'd mr_event =
    Spawned string
  | Despawned string
  | Poll bool bool "string list option"
  | Data "string \<Rightarrow> u64" int "'d response"
  | Failed bool

fun mr_step :: "'d gauge_ops \<Rightarrow> 'd mr_event \<Rightarrow> 'd retriever \<Rightarrow> 'd retriever" where
  "mr_step ops (Spawned uid) m = m"
| "mr_step ops (Despawned uid) m = add_post_mortem uid m"
| "mr_step ops (Poll c i e) m = (if mr_armed m then poll_metrics c i e m else m)"
| "mr_step ops (Data hub now data) m = on_data ops hub now data m"
| "mr_step ops (Failed nc) m = on_error nc m"

definition mr_run :: "'d gauge_ops \<Rightarrow> 'd mr_event list \<Rightarrow> 'd retriever \<Rightarrow> 'd retriever" where
  "mr_run ops es m = fold (mr_step ops) es m"

section \<open>Well-formed metrics\<close>

definition wf_worker :: "'d worker_metrics \<Rightarrow> bool" where
  "wf_worker w \<longleftrightarrow> map (\<lambda>(n, c). (n, cm_aggregation c)) (wm_counters w) = [(''mem'', Instant), (''uptime'', Aggregate)] \<and>
     um_keys (wm_gauges w) = [''cpu_load''] \<and> distinct (um_keys (wm_network w))"

definition wf_retriever :: "'d retriever \<Rightarrow> bool" where
  "wf_retriever m \<longleftrightarrow> wf_worker (mr_aggregate m) \<and> distinct (um_keys (mr_metrics m)) \<and>
     (\<forall>(uid, w) \<in> set (mr_metrics m). uid \<noteq> [] \<and> wf_worker w) \<and>
     sorted (mr_purgatory m) \<and> distinct (mr_purgatory m) \<and> length (mr_purgatory m) \<le> purgatory_queue_bound"

lemma wf_workerE:
  assumes "wf_worker w"
  obtains a b g where "wm_counters w = [(''mem'', a), (''uptime'', b)]" "cm_aggregation a = Instant" "cm_aggregation b = Aggregate"
    "wm_gauges w = [(''cpu_load'', g)]" "distinct (um_keys (wm_network w))"
  using assms by (auto simp: wf_worker_def um_keys_def map_eq_Cons_conv)

lemma wf_worker_new [simp]: "wf_worker (new_worker_metrics ops hub now pfx)"
  by (simp add: wf_worker_def new_worker_metrics_def init_metrics_desc_def register_metric_def um_insert_def um_keys_def)

lemma keys_map_entry [simp]: "um_keys (AList.map_entry k f m) = um_keys m"
  unfolding um_keys_def by (induction m) auto

lemma process_uint_wf: "wf_worker w \<Longrightarrow> wf_worker (snd (process_uint nm u w))"
  by (erule wf_workerE) (auto simp: wf_worker_def process_uint_def Let_def um_insert_def um_keys_def)

lemma process_double_wf: "wf_worker w \<Longrightarrow> wf_worker (snd (process_double nm x w))"
  by (erule wf_workerE) (auto simp: wf_worker_def process_double_def um_insert_def um_keys_def)

text \<open>Network records change neither counters nor gauges.\<close>

definition network_only :: "'d worker_metrics \<Rightarrow> 'd worker_metrics \<Rightarrow> bool" where
  "network_only w w' \<longleftrightarrow> wm_counters w' = wm_counters w \<and> wm_gauges w' = wm_gauges w \<and>
     (distinct (um_keys (wm_network w)) \<longrightarrow> distinct (um_keys (wm_network w')))"

lemma network_record_only: "network_only w (snd (parse_network_record hub name net w))"
  by (auto simp: network_only_def parse_network_record_def Let_def split: option.split sum.split)

lemma object_only: "network_only w (snd (process_object hub nets n w))"
proof (induction hub nets n w rule: process_object.induct)
  case (2 hub name net nets updated w)
  show ?case
  proof (cases net)
    case (D_object kvs)
    obtain r w1 where p: "parse_network_record hub name kvs w = (r, w1)" by fastforce
    then have "network_only w w1" using network_record_only [of w hub name kvs] by simp
    then show ?thesis using 2 [OF D_object p [symmetric]] by (cases r) (auto simp: D_object p network_only_def)
  qed (simp_all add: network_only_def)
qed (simp add: network_only_def)

lemma process_value_wf: "wf_worker w \<Longrightarrow> wf_worker (snd (process_value hub nm v w))"
proof (cases v)
  case (D_object nets)
  assume "wf_worker w"
  with object_only [of w hub nets 0] D_object show ?thesis by (simp add: wf_worker_def network_only_def)
qed (simp_all add: process_uint_wf process_double_wf)

lemma fill_metrics_wf: "wf_worker w \<Longrightarrow> wf_worker (snd (fill_metrics hub ms n w))"
proof (induction hub ms n w rule: fill_metrics.induct)
  case (2 hub name v ms n w)
  then show ?case using process_value_wf [of w hub "fst (decay_metric_name name)" v]
    by (auto simp: Let_def split: prod.split option.split)
qed simp

section \<open>Responses: lemmas\<close>

text \<open>The entry a response starts from, and the one it leaves.\<close>

definition start_entry :: "'d gauge_ops \<Rightarrow> (string \<Rightarrow> u64) \<Rightarrow> string \<Rightarrow> int \<Rightarrow> string \<Rightarrow> 'd stats_table \<Rightarrow> 'd worker_metrics" where
  "start_entry ops hub app now uid table =
     (case um_find uid table of None \<Rightarrow> new_worker_metrics ops hub now (app @ ''.isolate.'' @ uid) | Some w \<Rightarrow> w)"

lemma process_worker_table:
  assumes "uid \<noteq> []"
  obtains st where "rp_table (process_worker ops hub app now ft (uid, ms) p) =
    um_insert uid ((snd (fill_metrics hub ms 0 (start_entry ops hub app now uid (rp_table p))))\<lparr>wm_update_stamp := st\<rparr>) (rp_table p)"
proof -
  obtain n w1 where f: "fill_metrics hub ms 0 (start_entry ops hub app now uid (rp_table p)) = (n, w1)" by fastforce
  have "rp_table (process_worker ops hub app now ft (uid, ms) p) =
      um_insert uid (w1\<lparr>wm_update_stamp := if n > 0 then now else wm_update_stamp w1\<rparr>) (rp_table p)"
    using assms f by (simp add: process_worker_def start_entry_def Let_def)
  then show ?thesis using that f by simp
qed

lemma process_worker_frame:
  "rp_ids_processed (process_worker ops hub app now ft x p) = rp_ids_processed p"
  "rp_errors (process_worker ops hub app now ft x p) = rp_errors p"
  by (simp_all add: process_worker_def Let_def split: prod.split)

lemma process_never_counts:
  "rp_ids_processed (process ops hub app now ft data table) = 0" "rp_errors (process ops hub app now ft data table) = []"
proof -
  have "rp_ids_processed (fold (process_worker ops hub app now ft) data p) = rp_ids_processed p \<and>
      rp_errors (fold (process_worker ops hub app now ft) data p) = rp_errors p" for p
    by (induction data arbitrary: p) (simp_all add: process_worker_frame)
  then show "rp_ids_processed (process ops hub app now ft data table) = 0" "rp_errors (process ops hub app now ft data table) = []"
    by (simp_all add: process_def)
qed

definition wf_table :: "'d stats_table \<Rightarrow> bool" where
  "wf_table t \<longleftrightarrow> distinct (um_keys t) \<and> (\<forall>(uid, w) \<in> set t. uid \<noteq> [] \<and> wf_worker w)"

lemma wf_table_insert: "wf_table t \<Longrightarrow> uid \<noteq> [] \<Longrightarrow> wf_worker w \<Longrightarrow> wf_table (um_insert uid w t)"
  by (auto simp: wf_table_def set_um_insert)

lemma wf_table_find: "wf_table t \<Longrightarrow> um_find uid t = Some w \<Longrightarrow> wf_worker w \<and> uid \<noteq> []"
  by (auto simp: wf_table_def dest: um_find_SomeD)

lemma wf_start_entry: "wf_table t \<Longrightarrow> wf_worker (start_entry ops hub app now uid t)"
  by (auto simp: start_entry_def split: option.split dest: wf_table_find)

lemma wf_worker_stamp [simp]: "wf_worker (w\<lparr>wm_update_stamp := st\<rparr>) = wf_worker w"
  by (simp add: wf_worker_def)

lemma process_worker_wf: "wf_table (rp_table p) \<Longrightarrow> wf_table (rp_table (process_worker ops hub app now ft x p))"
proof -
  assume wf: "wf_table (rp_table p)"
  obtain uid ms where x: "x = (uid, ms)" by fastforce
  show ?thesis
  proof (cases "uid = []")
    case False
    obtain st where "rp_table (process_worker ops hub app now ft (uid, ms) p) =
      um_insert uid ((snd (fill_metrics hub ms 0 (start_entry ops hub app now uid (rp_table p))))\<lparr>wm_update_stamp := st\<rparr>) (rp_table p)"
      using False by (rule process_worker_table)
    then show ?thesis using False wf by (simp add: x wf_table_insert fill_metrics_wf wf_start_entry)
  qed (simp add: x process_worker_def wf)
qed

lemma process_wf: "wf_table t \<Longrightarrow> wf_table (rp_table (process ops hub app now ft data t))"
proof -
  have "wf_table (rp_table p) \<Longrightarrow> wf_table (rp_table (fold (process_worker ops hub app now ft) data p))" for p
    by (induction data arbitrary: p) (simp_all add: process_worker_wf)
  then show "wf_table t \<Longrightarrow> wf_table (rp_table (process ops hub app now ft data t))" by (simp add: process_def)
qed

text \<open>Every entry of the response is processed once, from its entry before the response.\<close>

lemma process_find:
  assumes "distinct (map fst data)" "uid \<noteq> []"
  shows "(case map_of data uid of
            None \<Rightarrow> um_find uid (rp_table (process ops hub app now ft data t)) = um_find uid t
          | Some ms \<Rightarrow> \<exists>st. um_find uid (rp_table (process ops hub app now ft data t)) =
              Some ((snd (fill_metrics hub ms 0 (start_entry ops hub app now uid t)))\<lparr>wm_update_stamp := st\<rparr>))"
proof -
  have "(case map_of data uid of
            None \<Rightarrow> um_find uid (rp_table (fold (process_worker ops hub app now ft) data p)) = um_find uid (rp_table p)
          | Some ms \<Rightarrow> \<exists>st. um_find uid (rp_table (fold (process_worker ops hub app now ft) data p)) =
              Some ((snd (fill_metrics hub ms 0 (start_entry ops hub app now uid (rp_table p))))\<lparr>wm_update_stamp := st\<rparr>))" for p
    using assms(1)
  proof (induction data arbitrary: p)
    case (Cons x data)
    obtain u ms where x: "x = (u, ms)" by fastforce
    let ?p = "process_worker ops hub app now ft x p"
    have IH: "case map_of data uid of
        None \<Rightarrow> um_find uid (rp_table (fold (process_worker ops hub app now ft) data ?p)) = um_find uid (rp_table ?p)
      | Some ms \<Rightarrow> \<exists>st. um_find uid (rp_table (fold (process_worker ops hub app now ft) data ?p)) =
          Some ((snd (fill_metrics hub ms 0 (start_entry ops hub app now uid (rp_table ?p))))\<lparr>wm_update_stamp := st\<rparr>)"
      using Cons by simp
    show ?case
    proof (cases "u = uid")
      case True
      then have "map_of data uid = None" using Cons.prems x by (simp add: map_of_eq_None_iff)
      moreover obtain st where "rp_table ?p =
        um_insert uid ((snd (fill_metrics hub ms 0 (start_entry ops hub app now uid (rp_table p))))\<lparr>wm_update_stamp := st\<rparr>) (rp_table p)"
        using assms(2) True unfolding x by (blast elim: process_worker_table)
      ultimately show ?thesis using IH True by (auto simp: x)
    next
      case False
      have "um_find uid (rp_table ?p) = um_find uid (rp_table p)"
      proof (cases "u = []")
        case False
        obtain st where "rp_table (process_worker ops hub app now ft (u, ms) p) =
          um_insert u ((snd (fill_metrics hub ms 0 (start_entry ops hub app now u (rp_table p))))\<lparr>wm_update_stamp := st\<rparr>) (rp_table p)"
          using False by (rule process_worker_table)
        with \<open>u \<noteq> uid\<close> show ?thesis by (simp add: x)
      qed (simp add: x process_worker_def)
      then show ?thesis using IH False by (simp add: x start_entry_def split: option.splits)
    qed
  qed simp
  from this [of "\<lparr>rp_table = t, rp_faded = [], rp_ids_processed = 0, rp_errors = []\<rparr>"]
  show ?thesis by (cases "map_of data uid") (simp_all add: process_def)
qed

section \<open>The sum: lemmas\<close>

definition value_of :: "string \<Rightarrow> 'd worker_metrics \<Rightarrow> u64" where
  "value_of name w = (case um_find name (wm_counters w) of Some r \<Rightarrow> cm_value r | None \<Rightarrow> 0)"

definition delta_of :: "string \<Rightarrow> 'd worker_metrics \<Rightarrow> u64" where
  "delta_of name w = (case um_find name (wm_counters w) of Some r \<Rightarrow> cm_delta r | None \<Rightarrow> 0)"

definition gauge_of :: "'d gauge_ops \<Rightarrow> 'd worker_metrics \<Rightarrow> 'd" where
  "gauge_of ops w = (case um_find ''cpu_load'' (wm_gauges w) of Some g \<Rightarrow> g | None \<Rightarrow> go_zero ops)"

lemma add_worker_first:
  assumes "wf_worker w"
  shows "add_worker ops w \<lparr>ap_counters = [], ap_gauges = []\<rparr> =
    \<lparr>ap_counters = [(''mem'', value_of ''mem'' w, delta_of ''mem'' w), (''uptime'', value_of ''uptime'' w, delta_of ''uptime'' w)],
     ap_gauges = [(''cpu_load'', go_add ops (go_zero ops) (gauge_of ops w), 1)]\<rparr>"
  using assms by (auto elim!: wf_workerE
      simp: add_worker_def add_counter_def add_gauge_def value_of_def delta_of_def gauge_of_def um_insert_def)

lemma add_worker_next:
  assumes "wf_worker w"
  shows "add_worker ops w \<lparr>ap_counters = [(''mem'', a, b), (''uptime'', c, d)], ap_gauges = [(''cpu_load'', g, n)]\<rparr> =
    \<lparr>ap_counters = [(''mem'', a + value_of ''mem'' w, b + delta_of ''mem'' w), (''uptime'', c + value_of ''uptime'' w, d + delta_of ''uptime'' w)],
     ap_gauges = [(''cpu_load'', go_add ops g (gauge_of ops w), n + 1)]\<rparr>"
  using assms by (auto elim!: wf_workerE
      simp: add_worker_def add_counter_def add_gauge_def value_of_def delta_of_def gauge_of_def um_insert_def)

lemma fold_add_worker:
  assumes "list_all wf_worker ws"
  shows "fold (add_worker ops) ws \<lparr>ap_counters = [(''mem'', a, b), (''uptime'', c, d)], ap_gauges = [(''cpu_load'', g, n)]\<rparr> =
    \<lparr>ap_counters = [(''mem'', a + sum_list (map (value_of ''mem'') ws), b + sum_list (map (delta_of ''mem'') ws)),
       (''uptime'', c + sum_list (map (value_of ''uptime'') ws), d + sum_list (map (delta_of ''uptime'') ws))],
     ap_gauges = [(''cpu_load'', foldl (go_add ops) g (map (gauge_of ops) ws), n + int (length ws))]\<rparr>"
  using assms by (induction ws arbitrary: a b c d g n) (simp_all add: add_worker_next algebra_simps)

lemma accumulate_wf:
  assumes "list_all wf_worker (map snd t)" "t \<noteq> []"
  defines "ws \<equiv> map snd t"
  shows "accumulate ops t =
    \<lparr>ap_counters = [(''mem'', sum_list (map (value_of ''mem'') ws), sum_list (map (delta_of ''mem'') ws)),
       (''uptime'', sum_list (map (value_of ''uptime'') ws), sum_list (map (delta_of ''uptime'') ws))],
     ap_gauges = [(''cpu_load'', foldl (go_add ops) (go_zero ops) (map (gauge_of ops) ws), int (length ws))]\<rparr>"
proof -
  obtain x xs where t: "t = x # xs" using assms(2) by (cases t) auto
  show ?thesis using assms(1) by (simp add: t ws_def accumulate_def add_worker_first fold_add_worker)
qed

lemma assign_wf:
  assumes w: "wf_worker w"
  shows "wf_worker (assign ops \<lparr>ap_counters = [], ap_gauges = gs\<rparr> w)"
    "value_of ''mem'' (assign ops \<lparr>ap_counters = [], ap_gauges = gs\<rparr> w) = 0"
    "value_of ''uptime'' (assign ops \<lparr>ap_counters = [], ap_gauges = gs\<rparr> w) = value_of ''uptime'' w"
    "gauge_of ops (assign ops \<lparr>ap_counters = [], ap_gauges = gs\<rparr> w) = go_zero ops"
    "wf_worker (assign ops \<lparr>ap_counters = [(''mem'', a, b), (''uptime'', c, d)], ap_gauges = [(''cpu_load'', g, n)]\<rparr> w)"
    "value_of ''mem'' (assign ops \<lparr>ap_counters = [(''mem'', a, b), (''uptime'', c, d)], ap_gauges = [(''cpu_load'', g, n)]\<rparr> w) = a"
    "value_of ''uptime'' (assign ops \<lparr>ap_counters = [(''mem'', a, b), (''uptime'', c, d)], ap_gauges = [(''cpu_load'', g, n)]\<rparr> w) =
       value_of ''uptime'' w + d"
    "n \<noteq> 0 \<Longrightarrow> gauge_of ops (assign ops \<lparr>ap_counters = [(''mem'', a, b), (''uptime'', c, d)], ap_gauges = [(''cpu_load'', g, n)]\<rparr> w) = go_div ops g n"
  using w by (auto elim!: wf_workerE simp: assign_def init_metrics_desc_def zero_metric_def update_counter_def update_gauge_def
      assign_counter_def assign_gauge_def wf_worker_def value_of_def gauge_of_def um_insert_def um_keys_def Let_def)

section \<open>What a response says: lemmas\<close>

text \<open>The value a worker reports under a name, when it reports exactly one and it is unsigned.\<close>

definition named :: "string \<Rightarrow> string \<times> 'd dynamic \<Rightarrow> bool" where
  "named nm x \<longleftrightarrow> fst (decay_metric_name (fst x)) = nm"

definition reports :: "string \<Rightarrow> (string \<times> 'd dynamic) list \<Rightarrow> u64 option" where
  "reports nm ms = (case filter (named nm) ms of [(_, D_uint u)] \<Rightarrow> Some u | _ \<Rightarrow> None)"

lemma reportsD: "reports nm ms = Some u \<Longrightarrow> \<exists>n. filter (named nm) ms = [(n, D_uint u)]"
  by (auto simp: reports_def split: list.splits prod.splits dynamic.splits)

lemma other_value:
  "nm \<noteq> nm' \<Longrightarrow> um_find nm (wm_counters (snd (process_value hub nm' v w))) = um_find nm (wm_counters w)"
  using object_only [of w hub _ 0]
  by (cases v) (auto simp: process_uint_def process_double_def network_only_def Let_def split: option.split)

lemma fill_cons:
  assumes "fst (decay_metric_name n) \<noteq> []"
  obtains k' where "fill_metrics hub ((n, v) # ms) k w = fill_metrics hub ms k' (snd (process_value hub (fst (decay_metric_name n)) v w))"
proof -
  obtain r w1 where p: "process_value hub (fst (decay_metric_name n)) v w = (r, w1)" by fastforce
  show ?thesis using assms that by (cases r) (auto simp: p Let_def)
qed

lemma fill_other:
  "nm \<noteq> [] \<Longrightarrow> filter (named nm) ms = [] \<Longrightarrow> um_find nm (wm_counters (snd (fill_metrics hub ms k w))) = um_find nm (wm_counters w)"
proof (induction ms arbitrary: k w)
  case (Cons x ms)
  obtain n v where x: "x = (n, v)" by fastforce
  show ?case
  proof (cases "fst (decay_metric_name n) = []")
    case False
    obtain k' where "fill_metrics hub (x # ms) k w = fill_metrics hub ms k' (snd (process_value hub (fst (decay_metric_name n)) v w))"
      using fill_cons [OF False] x by metis
    then show ?thesis using Cons x by (auto simp: other_value named_def split: if_splits)
  qed (use Cons x in \<open>auto split: if_splits\<close>)
qed simp

lemma fill_reported:
  assumes "reports ''uptime'' ms = Some u" "wf_worker w"
  shows "value_of ''uptime'' (snd (fill_metrics hub ms k w)) = u"
    "value_of ''uptime'' w \<le> u \<Longrightarrow> delta_of ''uptime'' (snd (fill_metrics hub ms k w)) = u - value_of ''uptime'' w"
proof -
  have "value_of ''uptime'' (snd (fill_metrics hub ms k w)) = u \<and>
      (value_of ''uptime'' w \<le> u \<longrightarrow> delta_of ''uptime'' (snd (fill_metrics hub ms k w)) = u - value_of ''uptime'' w)"
    using reportsD [OF assms(1)] assms(2)
  proof (induction ms arbitrary: k w)
    case (Cons x ms)
    obtain n v where x: "x = (n, v)" by fastforce
    consider (skip) "fst (decay_metric_name n) = []" | (hit) "fst (decay_metric_name n) = ''uptime''"
      | (other) "fst (decay_metric_name n) \<noteq> []" "fst (decay_metric_name n) \<noteq> ''uptime''" by blast
    then show ?case
    proof cases
      case skip
      then have "\<not> named ''uptime'' x" using x by (simp add: named_def)
      then show ?thesis using Cons x skip by simp
    next
      case hit
      obtain k' where f: "fill_metrics hub (x # ms) k w = fill_metrics hub ms k' (snd (process_value hub (fst (decay_metric_name n)) v w))"
        using fill_cons [of n hub v ms k w] hit x by auto
      have "named ''uptime'' x" using hit x by (simp add: named_def)
      with Cons.prems(1) x have "v = D_uint u" "filter (named ''uptime'') ms = []" by auto
      then have "um_find ''uptime'' (wm_counters (snd (fill_metrics hub (x # ms) k w))) =
          um_find ''uptime'' (wm_counters (snd (process_uint ''uptime'' u w)))"
        unfolding f by (simp add: fill_other hit)
      then show ?thesis using Cons.prems(2)
        by (auto elim!: wf_workerE simp: value_of_def delta_of_def process_uint_def Let_def)
    next
      case other
      obtain k' where f: "fill_metrics hub (x # ms) k w = fill_metrics hub ms k' (snd (process_value hub (fst (decay_metric_name n)) v w))"
        using fill_cons [OF other(1)] x by metis
      let ?w = "snd (process_value hub (fst (decay_metric_name n)) v w)"
      have "wf_worker ?w" using Cons.prems(2) by (rule process_value_wf)
      moreover have "\<not> named ''uptime'' x" using other x by (simp add: named_def)
      then have "\<exists>n. filter (named ''uptime'') ms = [(n, D_uint u)]" using Cons.prems(1) by simp
      moreover have "value_of ''uptime'' ?w = value_of ''uptime'' w" using other by (simp add: value_of_def other_value)
      ultimately show ?thesis using Cons.IH [of ?w k'] unfolding f by simp
    qed
  qed simp
  then show "value_of ''uptime'' (snd (fill_metrics hub ms k w)) = u"
    "value_of ''uptime'' w \<le> u \<Longrightarrow> delta_of ''uptime'' (snd (fill_metrics hub ms k w)) = u - value_of ''uptime'' w"
    by blast+
qed

section \<open>Polling: lemmas\<close>

lemma set_set_union [simp]: "set (set_union xs ys) = set xs \<union> set ys"
  by (induction xs ys rule: set_union.induct) auto

lemma sorted_set_union: "sorted xs \<Longrightarrow> sorted ys \<Longrightarrow> sorted (set_union xs ys)"
  by (induction xs ys rule: set_union.induct) (auto simp: order.strict_implies_order)

lemma distinct_set_union:
  "sorted xs \<Longrightarrow> sorted ys \<Longrightarrow> distinct xs \<Longrightarrow> distinct ys \<Longrightarrow> distinct (set_union xs ys)"
  by (induction xs ys rule: set_union.induct) force+

lemma set_union_sorted_list:
  "sorted xs \<Longrightarrow> sorted ys \<Longrightarrow> distinct xs \<Longrightarrow> distinct ys \<Longrightarrow> set_union xs ys = sorted_list_of_set (set xs \<union> set ys)"
  by (rule sorted_distinct_set_unique) (simp_all add: sorted_set_union distinct_set_union)

lemma preserve_find:
  "um_find uid (preserve t q) = (if uid \<in> set q then um_find uid t else None)"
proof -
  let ?f = "\<lambda>uid kept. case um_find uid t of None \<Rightarrow> kept | Some w \<Rightarrow> if um_find uid kept = None then um_insert uid w kept else kept"
  have "(\<forall>v. um_find uid kept = Some v \<longrightarrow> um_find uid t = Some v) \<Longrightarrow>
      um_find uid (fold ?f q kept) = (if uid \<in> set q then um_find uid t else um_find uid kept)" for kept
  proof (induction q arbitrary: kept)
    case (Cons a q)
    show ?case using Cons.prems by (subst fold_Cons) (auto simp: Cons.IH split: option.split)
  qed simp
  then show ?thesis by (simp add: preserve_def)
qed

lemma preserve_distinct: "distinct (um_keys (preserve t q))"
proof -
  let ?f = "\<lambda>uid kept. case um_find uid t of None \<Rightarrow> kept | Some w \<Rightarrow> if um_find uid kept = None then um_insert uid w kept else kept"
  have "distinct (um_keys kept) \<Longrightarrow> distinct (um_keys (fold ?f q kept))" for kept
    by (induction q arbitrary: kept) (auto split: option.split)
  then show ?thesis by (simp add: preserve_def um_keys_def)
qed

lemma preserve_wf: "wf_table t \<Longrightarrow> wf_table (preserve t q)"
  unfolding wf_table_def using preserve_distinct [of t q]
  by (auto simp: preserve_find dest!: um_find_in_set dest: um_find_SomeD split: if_splits)

section \<open>Every run\<close>

lemma wf_retriever_conv:
  "wf_retriever m \<longleftrightarrow> wf_worker (mr_aggregate m) \<and> wf_table (mr_metrics m) \<and>
     sorted (mr_purgatory m) \<and> distinct (mr_purgatory m) \<and> length (mr_purgatory m) \<le> purgatory_queue_bound"
  by (auto simp: wf_retriever_def wf_table_def)

lemma wf_table_workers: "wf_table t \<Longrightarrow> list_all wf_worker (map snd t)"
  by (auto simp: wf_table_def list_all_iff)

lemma aggregate_assigned:
  fixes ops :: "'d gauge_ops"
  assumes "wf_table t" "wf_worker a"
  defines "ws \<equiv> map snd t" and "a' \<equiv> assign ops (accumulate ops t) a"
  shows "wf_worker a'" "value_of ''mem'' a' = sum_list (map (value_of ''mem'') ws)"
    "value_of ''uptime'' a' = value_of ''uptime'' a + sum_list (map (delta_of ''uptime'') ws)"
    "gauge_of ops a' = (if ws = [] then go_zero ops else go_div ops (foldl (go_add ops) (go_zero ops) (map (gauge_of ops) ws)) (int (length ws)))"
proof -
  let ?S = "wf_worker a' \<and> value_of ''mem'' a' = sum_list (map (value_of ''mem'') ws) \<and>
    value_of ''uptime'' a' = value_of ''uptime'' a + sum_list (map (delta_of ''uptime'') ws) \<and>
    gauge_of ops a' = (if ws = [] then go_zero ops else go_div ops (foldl (go_add ops) (go_zero ops) (map (gauge_of ops) ws)) (int (length ws)))"
  have "?S"
  proof (cases "t = []")
    case True
    then have "a' = assign ops \<lparr>ap_counters = [], ap_gauges = []\<rparr> a" by (simp add: a'_def accumulate_def)
    then show ?thesis using True assms(2) by (simp add: assign_wf ws_def)
  next
    case False
    have acc: "a' = assign ops (\<lparr>ap_counters = [(''mem'', sum_list (map (value_of ''mem'') ws), sum_list (map (delta_of ''mem'') ws)),
        (''uptime'', sum_list (map (value_of ''uptime'') ws), sum_list (map (delta_of ''uptime'') ws))],
        ap_gauges = [(''cpu_load'', foldl (go_add ops) (go_zero ops) (map (gauge_of ops) ws), int (length ws))]\<rparr>) a"
      unfolding a'_def ws_def by (subst accumulate_wf [OF wf_table_workers [OF assms(1)] False]) (rule refl)
    have "ws \<noteq> []" using False by (simp add: ws_def)
    then show ?thesis unfolding acc using assms(2) by (simp add: assign_wf)
  qed
  then show "wf_worker a'" "value_of ''mem'' a' = sum_list (map (value_of ''mem'') ws)"
    "value_of ''uptime'' a' = value_of ''uptime'' a + sum_list (map (delta_of ''uptime'') ws)"
    "gauge_of ops a' = (if ws = [] then go_zero ops else go_div ops (foldl (go_add ops) (go_zero ops) (map (gauge_of ops) ws)) (int (length ws)))"
    by blast+
qed

lemma length_insort_insert: "length (insort_insert x xs) \<le> Suc (length xs)"
  by (simp add: insort_insert_key_def)

lemma wf_post_mortem: "wf_retriever m \<Longrightarrow> wf_retriever (add_post_mortem uid m)"
  using length_insort_insert [of uid "mr_purgatory m"]
  by (auto simp: wf_retriever_conv add_post_mortem_def Let_def sorted_insort_insert distinct_insort_insert)

lemma poll_asks:
  assumes "wf_retriever m" "distinct alive"
  defines "q \<equiv> sorted_list_of_set (set alive \<union> set (mr_purgatory m))"
  shows "mr_queries (poll_metrics False True (Some alive) m) = q # mr_queries m"
    "mr_metrics (poll_metrics False True (Some alive) m) = preserve (mr_metrics m) q"
  using assms by (simp_all add: poll_metrics_def ignite_poll_def Let_def wf_retriever_conv set_union_sorted_list)

lemma wf_step: "wf_retriever m \<Longrightarrow> wf_retriever (mr_step ops e m)"
proof (cases e)
  case (Despawned uid)
  moreover assume "wf_retriever m"
  ultimately show ?thesis by (simp add: wf_post_mortem)
next
  case (Poll c i en)
  moreover assume "wf_retriever m"
  ultimately show ?thesis
    by (simp add: wf_retriever_conv poll_metrics_def ignite_poll_def Let_def preserve_wf split: option.split)
next
  case (Data hub now data)
  moreover assume "wf_retriever m"
  ultimately show ?thesis by (simp add: wf_retriever_conv on_data_def Let_def process_wf aggregate_assigned(1))
qed (simp_all add: wf_retriever_conv on_error_def)

lemma wf_run: "wf_retriever m \<Longrightarrow> wf_retriever (mr_run ops es m)"
  unfolding mr_run_def by (induction es arbitrary: m) (simp_all add: wf_step)

lemma wf_new: "wf_retriever (new_retriever ops hub now name interval)"
  by (simp add: wf_retriever_conv new_retriever_def Let_def wf_table_def um_keys_def)

text \<open>
  C31: whatever is polled, reported, spawned and despawned in whatever order,
  the retriever stays well-formed: every entry of the table and the aggregate have
  exactly the counters \<open>mem\<close> (instant) and \<open>uptime\<close> (accumulated) and the gauge \<open>cpu_load\<close>
  each once, however the daemon names what it sends; the table has one entry per
  worker and none for an empty name; the queue of dead workers is sorted, without
  duplicates and never longer than its bound.
\<close>

theorem isometrics_wf: "wf_retriever (mr_run ops es (new_retriever ops hub now name interval))"
  by (simp add: wf_run wf_new)

text \<open>
  After each response the metrics of the application are computed from
  all workers in the table: the memory is the sum of theirs, the load their mean,
  the uptime grows by the sum of their last increments, all as 64-bit numbers;
  with no workers memory and load are zero and the uptime stays.
\<close>

theorem isometrics_sum:
  fixes m :: "'d retriever" and data :: "'d response" and ops hub now
  assumes "wf_retriever m"
  defines "m' \<equiv> on_data ops hub now data m"
  defines "ws \<equiv> map snd (mr_metrics m')" and "a' \<equiv> mr_aggregate m'"
  shows "value_of ''mem'' a' = sum_list (map (value_of ''mem'') ws)"
    and "value_of ''uptime'' a' = value_of ''uptime'' (mr_aggregate m) + sum_list (map (delta_of ''uptime'') ws)"
    and "gauge_of ops a' = (if ws = [] then go_zero ops
           else go_div ops (foldl (go_add ops) (go_zero ops) (map (gauge_of ops) ws)) (int (length ws)))"
  using assms(1) aggregate_assigned [of "mr_metrics m'" "mr_aggregate m" ops]
  unfolding a'_def ws_def m'_def
  by (simp_all add: wf_retriever_conv on_data_def Let_def process_wf)

definition uptime_before :: "'d gauge_ops \<Rightarrow> (string \<Rightarrow> u64) \<Rightarrow> int \<Rightarrow> 'd retriever \<Rightarrow> string \<Rightarrow> u64" where
  "uptime_before ops hub now m uid = value_of ''uptime'' (start_entry ops hub (mr_app_name m) now uid (mr_metrics m))"

text \<open>
  When a response covers the whole table, each worker with one uptime
  that is not less than the one before, the uptime of the application grows by exactly
  the sum of what the workers' uptimes have grown by, workers seen for the first
  time included; so that over such responses the increments of each worker telescope.
\<close>

theorem isometrics_uptime:
  fixes m :: "'d retriever" and data :: "'d response" and ops hub now
  assumes "wf_retriever m" "distinct (map fst data)"
    and complete: "\<And>uid. uid \<noteq> [] \<Longrightarrow> uid \<in> set (um_keys (mr_metrics m)) \<union> fst ` set data \<Longrightarrow>
      \<exists>ms u. map_of data uid = Some ms \<and> reports ''uptime'' ms = Some u \<and> uptime_before ops hub now m uid \<le> u"
  defines "m' \<equiv> on_data ops hub now data m"
  shows "value_of ''uptime'' (mr_aggregate m') = value_of ''uptime'' (mr_aggregate m) +
    (\<Sum>(uid, w) \<leftarrow> mr_metrics m'. value_of ''uptime'' w - uptime_before ops hub now m uid)"
proof -
  let ?ft = "mr_poll_interval m * missed_updates_times * 1000000000"
  let ?t = "rp_table (process ops hub (mr_app_name m) now ?ft data (mr_metrics m))"
  have m': "mr_metrics m' = ?t" "mr_aggregate m' = assign ops (accumulate ops ?t) (mr_aggregate m)"
    by (simp_all add: m'_def on_data_def Let_def)
  have wf: "wf_table (mr_metrics m)" "wf_worker (mr_aggregate m)" using assms(1) by (simp_all add: wf_retriever_conv)
  have t: "wf_table ?t" by (rule process_wf [OF wf(1)])
  have each: "delta_of ''uptime'' w = value_of ''uptime'' w - uptime_before ops hub now m uid" if mem: "(uid, w) \<in> set ?t" for uid w
  proof -
    from mem t have uid: "uid \<noteq> []" and found: "um_find uid ?t = Some w"
      by (auto simp: wf_table_def um_find_in_set)
    note at = process_find [OF assms(2) uid, of ops hub "mr_app_name m" now ?ft "mr_metrics m"]
    have "uid \<in> set (um_keys (mr_metrics m)) \<union> fst ` set data"
    proof (cases "map_of data uid")
      case None
      then have "um_find uid (mr_metrics m) = Some w" using at found by simp
      then show ?thesis using um_find_None_iff [of uid "mr_metrics m"] by auto
    qed (force dest: map_of_SomeD)
    then obtain ms u where ms: "map_of data uid = Some ms" "reports ''uptime'' ms = Some u" "uptime_before ops hub now m uid \<le> u"
      using complete uid by blast
    let ?s = "start_entry ops hub (mr_app_name m) now uid (mr_metrics m)"
    from at found ms(1) obtain st where w: "w = (snd (fill_metrics hub ms 0 ?s))\<lparr>wm_update_stamp := st\<rparr>" by auto
    have s: "wf_worker ?s" by (rule wf_start_entry [OF wf(1)])
    show ?thesis using fill_reported [OF ms(2) s, of hub 0] ms(3)
      by (simp add: w uptime_before_def value_of_def delta_of_def)
  qed
  have "map (delta_of ''uptime'') (map snd ?t) = map (\<lambda>(uid, w). value_of ''uptime'' w - uptime_before ops hub now m uid) ?t"
    using each by auto
  then show ?thesis using aggregate_assigned(3) [OF t wf(2), of ops] unfolding m' by (simp only:)
qed

fun is_poll :: "'d mr_event \<Rightarrow> bool" where
  "is_poll (Poll c i e) = True"
| "is_poll _ = False"

lemma quiet_run:
  assumes "\<forall>e \<in> set es. \<not> is_poll e"
  shows "mr_armed (mr_run ops es m) = mr_armed m" "set (mr_purgatory m) \<subseteq> set (mr_purgatory (mr_run ops es m))"
    "Despawned uid \<notin> set es \<Longrightarrow> uid \<notin> set (mr_purgatory m) \<Longrightarrow> uid \<notin> set (mr_purgatory (mr_run ops es m))"
proof -
  have "mr_armed (mr_run ops es m) = mr_armed m \<and> set (mr_purgatory m) \<subseteq> set (mr_purgatory (mr_run ops es m)) \<and>
      (Despawned uid \<notin> set es \<longrightarrow> uid \<notin> set (mr_purgatory m) \<longrightarrow> uid \<notin> set (mr_purgatory (mr_run ops es m)))"
    using assms unfolding mr_run_def
  proof (induction es arbitrary: m)
    case (Cons e es)
    have "mr_armed (mr_step ops e m) = mr_armed m \<and> set (mr_purgatory m) \<subseteq> set (mr_purgatory (mr_step ops e m)) \<and>
        (e \<noteq> Despawned uid \<longrightarrow> uid \<notin> set (mr_purgatory m) \<longrightarrow> uid \<notin> set (mr_purgatory (mr_step ops e m)))"
      using Cons.prems by (cases e) (auto simp: add_post_mortem_def set_insort_insert on_data_def on_error_def Let_def)
    with Cons.IH [of "mr_step ops e m"] Cons.prems show ?case by auto
  qed simp
  then show "mr_armed (mr_run ops es m) = mr_armed m" "set (mr_purgatory m) \<subseteq> set (mr_purgatory (mr_run ops es m))"
    "Despawned uid \<notin> set es \<Longrightarrow> uid \<notin> set (mr_purgatory m) \<Longrightarrow> uid \<notin> set (mr_purgatory (mr_run ops es m))"
    by blast+
qed

lemma count_distinct: "distinct xs \<Longrightarrow> x \<in> set xs \<Longrightarrow> count_list xs x = 1"
  by (induction xs) (auto simp: count_list_0_iff)

lemma poll_step:
  assumes "wf_retriever m" "mr_armed m" "distinct alive"
  shows "mr_armed (mr_step ops (Poll False True (Some alive)) m)" "mr_purgatory (mr_step ops (Poll False True (Some alive)) m) = []"
    "hd (mr_queries (mr_step ops (Poll False True (Some alive)) m)) = sorted_list_of_set (set alive \<union> set (mr_purgatory m))"
    "um_find uid (mr_metrics (mr_step ops (Poll False True (Some alive)) m)) =
       (if uid \<in> set alive \<union> set (mr_purgatory m) then um_find uid (mr_metrics m) else None)"
  using assms poll_asks [OF assms(1, 3)]
  by (simp_all add: preserve_find) (simp_all add: poll_metrics_def ignite_poll_def Let_def)

text \<open>
  A worker that dies while the queue has room is asked for in
  the next poll, exactly once, with every live worker; afterwards it is forgotten: the
  poll after that does not ask for it, and its metrics leave the table, so that the
  table does not grow with the number of workers that ever lived. Polling goes on.
\<close>

theorem isometrics_post_mortem:
  fixes m :: "'d retriever" and alive alive' ops es es'
  assumes "wf_retriever m" "mr_armed m" "length (mr_purgatory m) < purgatory_queue_bound" "distinct alive" "distinct alive'"
    and "\<forall>e \<in> set (es @ es'). \<not> is_poll e" "Despawned uid \<notin> set es'" "uid \<notin> set alive'"
  defines "m1 \<equiv> mr_run ops (Despawned uid # es @ [Poll False True (Some alive)]) m"
  defines "m2 \<equiv> mr_run ops (es' @ [Poll False True (Some alive')]) m1"
  shows "mr_armed m1 \<and> mr_armed m2 \<and> count_list (hd (mr_queries m1)) uid = 1 \<and> set alive \<subseteq> set (hd (mr_queries m1)) \<and>
    uid \<notin> set (hd (mr_queries m2)) \<and> um_find uid (mr_metrics m2) = None"
proof -
  let ?a = "mr_run ops es (add_post_mortem uid m)" and ?b = "mr_run ops es' m1"
  have m1: "m1 = mr_step ops (Poll False True (Some alive)) ?a" by (simp add: m1_def mr_run_def)
  have m2: "m2 = mr_step ops (Poll False True (Some alive')) ?b" by (simp add: m2_def mr_run_def)
  have in_a: "uid \<in> set (mr_purgatory ?a)"
    using assms(3, 6) quiet_run(2) [where es = es and ops = ops and m = "add_post_mortem uid m"]
    by (auto simp: add_post_mortem_def Let_def set_insort_insert)
  have a: "wf_retriever ?a" "mr_armed ?a"
    using assms(1, 2, 6) quiet_run(1) [where es = es and ops = ops and m = "add_post_mortem uid m"]
    by (simp_all add: wf_run wf_post_mortem) (simp add: add_post_mortem_def Let_def)
  note p1 = poll_step [OF a assms(4), where ops = ops, folded m1]
  have "wf_retriever m1" unfolding m1 by (rule wf_step [OF a(1)])
  then have b: "wf_retriever ?b" "mr_armed ?b" "uid \<notin> set (mr_purgatory ?b)"
    using p1(1, 2) assms(6, 7) quiet_run(1) [where es = es' and ops = ops and m = m1]
      quiet_run(3) [where es = es' and ops = ops and m = m1 and uid = uid]
    by (simp_all add: wf_run ball_Un)
  note p2 = poll_step [OF b(1, 2) assms(5), where ops = ops, folded m2]
  have "count_list (hd (mr_queries m1)) uid = 1" using in_a count_distinct [of "hd (mr_queries m1)" uid] by (simp add: p1(3))
  moreover have "set alive \<subseteq> set (hd (mr_queries m1))" by (simp add: p1(3))
  moreover have "uid \<notin> set (hd (mr_queries m2))" "um_find uid (mr_metrics m2) = None" using assms(8) b(3) by (simp_all add: p2(3, 4))
  ultimately show ?thesis using p1(1) p2(1) by blast
qed

text \<open>
  Where the metrics are wrong. An increment is never reset: a response
  that leaves a worker out, or that reports a smaller uptime, adds the worker's last
  increment once more, so that the uptime of the application grows without any
  worker having lived longer. The number of received workers is never counted and no
  error of the daemon is ever recorded, although both are reported. A network
  record with one bad field has stored the other one and counts as no update.
\<close>

theorem isometrics_gaps:
  fixes m :: "'d retriever" and data :: "'d response" and ops hub now
  assumes "wf_retriever m" "wf_worker w" "u < value_of ''uptime'' w"
  shows "value_of ''uptime'' (mr_aggregate (on_data ops hub now [] m)) =
      value_of ''uptime'' (mr_aggregate m) + sum_list (map (delta_of ''uptime'') (map snd (mr_metrics m))) \<and>
    delta_of ''uptime'' (snd (process_uint ''uptime'' u w)) = delta_of ''uptime'' w \<and>
    sf_uuids_recieved (mr_self (on_data ops hub now data m)) = sf_uuids_recieved (mr_self m) \<and>
    rp_errors (process ops hub app now ft data t) = [] \<and>
    (case parse_network_record (\<lambda>_. 0) ''eth0'' [(''rx_bytes'', D_uint 7), (''tx_bytes'', D_null)]
            (new_worker_metrics ops (\<lambda>_. 0) 0 ''a'') of
          (r, w) \<Rightarrow> r = None \<and> um_find ''eth0'' (wm_network w) = Some \<lparr>nm_rx_bytes = 7, nm_tx_bytes = 0\<rparr>)"
proof (intro conjI)
  show "value_of ''uptime'' (mr_aggregate (on_data ops hub now [] m)) =
      value_of ''uptime'' (mr_aggregate m) + sum_list (map (delta_of ''uptime'') (map snd (mr_metrics m)))"
    using assms(1) aggregate_assigned(3) [of "mr_metrics m" "mr_aggregate m" ops]
    by (simp add: on_data_def Let_def process_def wf_retriever_conv)
  show "delta_of ''uptime'' (snd (process_uint ''uptime'' u w)) = delta_of ''uptime'' w"
    using assms(2, 3) by (auto elim!: wf_workerE simp: value_of_def delta_of_def process_uint_def Let_def)
qed (simp_all add: on_data_def Let_def process_never_counts parse_network_record_def new_worker_metrics_def init_metrics_desc_def
    register_metric_def make_uint_counter_def um_insert_def)

section \<open>An example\<close>

text \<open>Integers in place of doubles; one worker, two responses, its death.\<close>

definition int_gauge :: "int gauge_ops" where
  "int_gauge = \<lparr>go_zero = 0, go_add = (+), go_div = (div)\<rparr>"

definition sample_retriever :: "int retriever" where
  "sample_retriever = mr_run int_gauge [Data (\<lambda>_. 0) 1 [(''w'', [(''uptime.x'', D_uint 10), (''mem'', D_uint 3), (''cpu_load'', D_double 8)])]]
     (ignite_poll (new_retriever int_gauge (\<lambda>_. 0) 0 ''app'' 5))"

lemma sample_wf: "wf_retriever sample_retriever"
  unfolding sample_retriever_def by (rule wf_run) (simp add: ignite_poll_def wf_retriever_conv new_retriever_def Let_def wf_table_def um_keys_def)

lemma sample_values:
  "mr_armed sample_retriever" "mr_purgatory sample_retriever = []" "um_keys (mr_metrics sample_retriever) = [''w'']"
  "value_of ''uptime'' (mr_aggregate sample_retriever) = 10" "map (delta_of ''uptime'') (map snd (mr_metrics sample_retriever)) = [10]"
  by code_simp+

theorem isometrics_sum_witness:
  "value_of ''mem'' (mr_aggregate (on_data int_gauge (\<lambda>_. 0) 2 [(''v'', [(''mem'', D_uint 4)])] sample_retriever)) = 7"
proof -
  have "map (value_of ''mem'') (map snd (mr_metrics (on_data int_gauge (\<lambda>_. 0) 2 [(''v'', [(''mem'', D_uint 4)])] sample_retriever))) = [3, 4]"
    by code_simp
  then show ?thesis
    using isometrics_sum(1) [OF sample_wf, of int_gauge "\<lambda>_. 0" 2 "[(''v'', [(''mem'', D_uint 4)])]"] by simp
qed

theorem isometrics_uptime_witness:
  "value_of ''uptime'' (mr_aggregate (on_data int_gauge (\<lambda>_. 0) 2 [(''w'', [(''uptime'', D_uint 25)])] sample_retriever)) = 25"
proof -
  let ?m = "on_data int_gauge (\<lambda>_. 0) 2 [(''w'', [(''uptime'', D_uint 25)])] sample_retriever"
  have b: "uptime_before int_gauge (\<lambda>_. 0) 2 sample_retriever ''w'' = 10" by code_simp
  have r: "reports ''uptime'' [(''uptime'', D_uint 25 :: int dynamic)] = Some 25" by code_simp
  have "(\<Sum>(uid, w) \<leftarrow> mr_metrics ?m. value_of ''uptime'' w - uptime_before int_gauge (\<lambda>_. 0) 2 sample_retriever uid) = 15" by code_simp
  with isometrics_uptime [OF sample_wf, of "[(''w'', [(''uptime'', D_uint 25)])]" int_gauge "\<lambda>_. 0" 2] b r sample_values(3, 4)
  show ?thesis by simp
qed

theorem isometrics_post_mortem_witness:
  "count_list (hd (mr_queries (mr_run int_gauge [Despawned ''w'', Poll False True (Some [''b'', ''a''])] sample_retriever))) ''w'' = 1 \<and>
   hd (mr_queries (mr_run int_gauge [Despawned ''w'', Poll False True (Some [''b'', ''a''])] sample_retriever)) = [''a'', ''b'', ''w'']"
proof -
  have "hd (mr_queries (mr_run int_gauge [Despawned ''w'', Poll False True (Some [''b'', ''a''])] sample_retriever)) = [''a'', ''b'', ''w'']"
    by code_simp
  with isometrics_post_mortem [OF sample_wf sample_values(1), of "[''b'', ''a'']" "[]" "[]" "[]" "''w''" int_gauge]
  show ?thesis by (simp add: sample_values purgatory_queue_bound_def)
qed

theorem isometrics_gaps_witness:
  "value_of ''uptime'' (mr_aggregate (on_data int_gauge (\<lambda>_. 0) 2 [] sample_retriever)) = 20 \<and>
   delta_of ''uptime'' (snd (process_uint ''uptime'' 4 (snd (hd (mr_metrics sample_retriever))))) = 10"
proof -
  have "wf_worker (snd (hd (mr_metrics sample_retriever)))" "4 < value_of ''uptime'' (snd (hd (mr_metrics sample_retriever)))"
    "delta_of ''uptime'' (snd (hd (mr_metrics sample_retriever))) = 10" by code_simp+
  with isometrics_gaps [OF sample_wf, of "snd (hd (mr_metrics sample_retriever))" 4 int_gauge "\<lambda>_. 0" 2] sample_values(4, 5)
  show ?thesis by simp
qed

end
