(* ===== verification/External_Isolate.thy ===== *)
theory External_Isolate
  imports Prelude
begin

text \<open>
  Isolation by an external daemon (\<^verbatim>\<open>src/node/src/isolate/external.cpp\<close>): requests to
  spool an application, to spawn a worker and for metrics are sent over one session
  to the daemon; while there is no session the first two are queued.

  What the network does is an argument: whether a send succeeds (\<open>env\<close>, by request) and
  how an attempt to connect ends. Times are in milliseconds. The queue of the event
  loop is \<open>ex_posted\<close>. A call through a null session is undefined: \<open>None\<close>.  The endpoint of
  the daemon comes from the configuration, which is parsed by every attempt
  and never changes; the constructor makes the first attempt, so that an object
  only exists with an endpoint that can be parsed.
\<close>

section \<open>State\<close>

datatype load_kind = Spool | Spawn | Metrics

record load =
  ld_kind :: load_kind
  ld_cancelled :: bool
  ld_stream :: bool
  ld_ready :: bool

datatype cause = Not_connected | Send_failed | Cancel_failed | By_daemon int | Finished

datatype callback =
    On_ready
  | On_data string
  | On_value
  | On_failed cause

datatype message = M_spool | M_spawn | M_metrics | M_cancel | M_kill

datatype output_event = Called nat callback | Sent nat message

datatype sending = Send_ok | Fork_threw | Send_threw

record external =
  ex_session :: bool
  ex_prepared :: bool
  ex_connecting :: bool
  ex_last_failed :: int
  ex_seal_time :: int
  ex_loads :: "load list"
  ex_posted :: "nat list"
  ex_spool_queue :: "nat list"
  ex_spawn_queue :: "nat list"
  ex_log :: "output_event list"

definition min_seal_time :: int where
  "min_seal_time = 1000"

definition max_seal_time :: int where
  "max_seal_time = 1000000"

definition log_event :: "output_event \<Rightarrow> external \<Rightarrow> external" where
  "log_event e x = x\<lparr>ex_log := ex_log x @ [e]\<rparr>"

definition load_of :: "nat \<Rightarrow> external \<Rightarrow> load" where
  "load_of i x = ex_loads x ! i"

definition update_load :: "nat \<Rightarrow> (load \<Rightarrow> load) \<Rightarrow> external \<Rightarrow> external" where
  "update_load i f x = x\<lparr>ex_loads := (ex_loads x)[i := f (ex_loads x ! i)]\<rparr>"

section \<open>The connection\<close>

definition connect :: "int \<Rightarrow> external \<Rightarrow> external" where
  "connect now x =
     (if ex_connecting x then x
      else if now < ex_last_failed x + ex_seal_time x then x
      else x\<lparr>ex_connecting := True, ex_session := False\<rparr>)"

text \<open>
  The body all requests share: fork a stream of the session and send.  A session that
  failed is detached, but only a new attempt resets it.
\<close>

definition send_load :: "(nat \<Rightarrow> sending) \<Rightarrow> int \<Rightarrow> nat \<Rightarrow> message \<Rightarrow> external \<Rightarrow> external option" where
  "send_load env now i m x =
     (if \<not> ex_session x then None
      else case env i of
             Send_ok \<Rightarrow> Some (log_event (Sent i m) (update_load i (\<lambda>l. l\<lparr>ld_stream := True\<rparr>) x))
           | Fork_threw \<Rightarrow> Some (connect now (log_event (Called i (On_failed Send_failed)) x))
           | Send_threw \<Rightarrow>
               Some (connect now (log_event (Called i (On_failed Send_failed)) (update_load i (\<lambda>l. l\<lparr>ld_stream := True\<rparr>) x))))"

definition spool_apply :: "(nat \<Rightarrow> sending) \<Rightarrow> int \<Rightarrow> nat \<Rightarrow> external \<Rightarrow> external option" where
  "spool_apply env now i x = (if \<not> ld_cancelled (load_of i x) then send_load env now i M_spool x else Some x)"

definition spawn_apply :: "(nat \<Rightarrow> sending) \<Rightarrow> int \<Rightarrow> nat \<Rightarrow> external \<Rightarrow> external option" where
  "spawn_apply env now i x = (if \<not> ld_cancelled (load_of i x) then send_load env now i M_spawn x else Some x)"

definition metrics_apply :: "(nat \<Rightarrow> sending) \<Rightarrow> int \<Rightarrow> nat \<Rightarrow> external \<Rightarrow> external option" where
  "metrics_apply env now i x = send_load env now i M_metrics x"

definition apply_load :: "(nat \<Rightarrow> sending) \<Rightarrow> int \<Rightarrow> nat \<Rightarrow> external \<Rightarrow> external option" where
  "apply_load env now i x =
     (case ld_kind (load_of i x) of
        Spool \<Rightarrow> spool_apply env now i x | Spawn \<Rightarrow> spawn_apply env now i x | Metrics \<Rightarrow> metrics_apply env now i x)"

fun message_of :: "load_kind \<Rightarrow> message" where
  "message_of Spool = M_spool"
| "message_of Spawn = M_spawn"
| "message_of Metrics = M_metrics"

lemma apply_load_conv:
  "apply_load env now i x =
     (if ld_kind (load_of i x) \<noteq> Metrics \<and> ld_cancelled (load_of i x) then Some x
      else send_load env now i (message_of (ld_kind (load_of i x))) x)"
  by (simp add: apply_load_def spool_apply_def spawn_apply_def metrics_apply_def split: load_kind.split)

fun apply_loads :: "(nat \<Rightarrow> sending) \<Rightarrow> int \<Rightarrow> nat list \<Rightarrow> external \<Rightarrow> external option" where
  "apply_loads env now [] x = Some x"
| "apply_loads env now (i # is) x = (case apply_load env now i x of None \<Rightarrow> None | Some x1 \<Rightarrow> apply_loads env now is x1)"

definition on_ready :: "(nat \<Rightarrow> sending) \<Rightarrow> int \<Rightarrow> external \<Rightarrow> external option" where
  "on_ready env now x0 =
     (let x = x0\<lparr>ex_seal_time := min_seal_time\<rparr> in
      if \<not> ex_prepared x then Some x
      else if \<not> ex_session x then Some x
      else case apply_loads env now (ex_spool_queue x) x of
             None \<Rightarrow> None
           | Some x1 \<Rightarrow>
               let x2 = x1\<lparr>ex_spool_queue := []\<rparr> in
               case apply_loads env now (ex_spawn_queue x2) x2 of
                 None \<Rightarrow> None
               | Some x3 \<Rightarrow> Some (x3\<lparr>ex_spawn_queue := []\<rparr>))"

definition fail_loads :: "nat list \<Rightarrow> external \<Rightarrow> external" where
  "fail_loads is x = fold (\<lambda>i. log_event (Called i (On_failed Not_connected))) is x"

definition on_fail :: "int \<Rightarrow> external \<Rightarrow> external" where
  "on_fail now x =
     (let x1 = x\<lparr>ex_last_failed := now, ex_seal_time := min (ex_seal_time x * 2) max_seal_time\<rparr>;
          x2 = (fail_loads (ex_spool_queue x1) x1)\<lparr>ex_spool_queue := []\<rparr>
      in (fail_loads (ex_spawn_queue x2) x2)\<lparr>ex_spawn_queue := []\<rparr>)"

text \<open>The end of an attempt; the timer of the attempt cancels its socket, which is a failure too.\<close>

definition on_connected :: "(nat \<Rightarrow> sending) \<Rightarrow> int \<Rightarrow> bool \<Rightarrow> external \<Rightarrow> external option" where
  "on_connected env now ok x =
     (let x1 = x\<lparr>ex_connecting := False\<rparr> in
      if ok then on_ready env now (x1\<lparr>ex_session := True\<rparr>) else Some (on_fail now x1))"

definition on_prepared :: "(nat \<Rightarrow> sending) \<Rightarrow> int \<Rightarrow> external \<Rightarrow> external option" where
  "on_prepared env now x = on_ready env now (x\<lparr>ex_prepared := True\<rparr>)"

definition new_external :: "int \<Rightarrow> external" where
  "new_external now =
     connect now \<lparr>ex_session = False, ex_prepared = False, ex_connecting = False, ex_last_failed = 0, ex_seal_time = min_seal_time,
       ex_loads = [], ex_posted = [], ex_spool_queue = [], ex_spawn_queue = [], ex_log = []\<rparr>"

section \<open>Requests\<close>

text \<open>\<^verbatim>\<open>external_t::spool\<close>, \<^verbatim>\<open>spawn\<close> and \<^verbatim>\<open>metrics\<close>: the load is made and its processing posted.\<close>

definition new_load :: "load_kind \<Rightarrow> external \<Rightarrow> external" where
  "new_load k x =
     x\<lparr>ex_loads := ex_loads x @ [\<lparr>ld_kind = k, ld_cancelled = False, ld_stream = False, ld_ready = False\<rparr>],
       ex_posted := ex_posted x @ [length (ex_loads x)]\<rparr>"

definition connect_if_prepared :: "int \<Rightarrow> external \<Rightarrow> external" where
  "connect_if_prepared now x = (if ex_prepared x then connect now x else x)"

definition spool_request :: "(nat \<Rightarrow> sending) \<Rightarrow> int \<Rightarrow> nat \<Rightarrow> external \<Rightarrow> external option" where
  "spool_request env now i x =
     (if ex_session x \<and> ex_prepared x then apply_load env now i x
      else Some (connect_if_prepared now (x\<lparr>ex_spool_queue := ex_spool_queue x @ [i]\<rparr>)))"

definition spawn_request :: "(nat \<Rightarrow> sending) \<Rightarrow> int \<Rightarrow> nat \<Rightarrow> external \<Rightarrow> external option" where
  "spawn_request env now i x =
     (if ex_session x \<and> ex_prepared x then apply_load env now i x
      else Some (connect_if_prepared now (x\<lparr>ex_spawn_queue := ex_spawn_queue x @ [i]\<rparr>)))"

definition metrics_request :: "(nat \<Rightarrow> sending) \<Rightarrow> int \<Rightarrow> nat \<Rightarrow> external \<Rightarrow> external option" where
  "metrics_request env now i x =
     (if ex_session x \<and> ex_prepared x then apply_load env now i x
      else Some (connect_if_prepared now (log_event (Called i (On_failed Not_connected)) x)))"

definition process_load :: "(nat \<Rightarrow> sending) \<Rightarrow> int \<Rightarrow> nat \<Rightarrow> external \<Rightarrow> external option" where
  "process_load env now i x =
     (case ld_kind (load_of i x) of
        Spool \<Rightarrow> spool_request env now i x | Spawn \<Rightarrow> spawn_request env now i x | Metrics \<Rightarrow> metrics_request env now i x)"

lemma process_load_conv:
  "process_load env now i x =
     (if ex_session x \<and> ex_prepared x then apply_load env now i x
      else Some (connect_if_prepared now
        (case ld_kind (load_of i x) of
           Spool \<Rightarrow> x\<lparr>ex_spool_queue := ex_spool_queue x @ [i]\<rparr>
         | Spawn \<Rightarrow> x\<lparr>ex_spawn_queue := ex_spawn_queue x @ [i]\<rparr>
         | Metrics \<Rightarrow> log_event (Called i (On_failed Not_connected)) x)))"
  by (simp add: process_load_def spool_request_def spawn_request_def metrics_request_def split: load_kind.split)

definition run_posted :: "(nat \<Rightarrow> sending) \<Rightarrow> int \<Rightarrow> external \<Rightarrow> external option" where
  "run_posted env now x =
     (case ex_posted x of
        [] \<Rightarrow> Some x
      | i # is \<Rightarrow> process_load env now i (x\<lparr>ex_posted := is\<rparr>))"

text \<open>\<open>ok\<close>: the message can be sent.\<close>

definition cancel_with :: "message \<Rightarrow> bool \<Rightarrow> nat \<Rightarrow> external \<Rightarrow> external" where
  "cancel_with m ok i x =
     (let l = load_of i x in
      if ld_cancelled l then x
      else
        let x1 = update_load i (\<lambda>l. l\<lparr>ld_cancelled := True\<rparr>) x in
        if ld_stream l
        then if ok then log_event (Sent i m) x1 else log_event (Called i (On_failed Cancel_failed)) x1
        else x1)"

definition spool_cancel :: "bool \<Rightarrow> nat \<Rightarrow> external \<Rightarrow> external" where
  "spool_cancel = cancel_with M_cancel"

definition spawn_cancel :: "bool \<Rightarrow> nat \<Rightarrow> external \<Rightarrow> external" where
  "spawn_cancel = cancel_with M_kill"

definition cancel :: "bool \<Rightarrow> nat \<Rightarrow> external \<Rightarrow> external" where
  "cancel ok i x = (if ld_kind (load_of i x) = Spool then spool_cancel ok i x else spawn_cancel ok i x)"

lemmas cancel_defs = cancel_def spool_cancel_def spawn_cancel_def cancel_with_def

section \<open>Frames of the daemon\<close>

definition spool_done :: "nat \<Rightarrow> external \<Rightarrow> external" where
  "spool_done i x = log_event (Called i On_ready) x"

definition on_chunk :: "nat \<Rightarrow> string \<Rightarrow> external \<Rightarrow> external" where
  "on_chunk i chunk x =
     (if chunk = [] \<and> \<not> ld_ready (load_of i x)
      then update_load i (\<lambda>l. l\<lparr>ld_ready := True\<rparr>) (log_event (Called i On_ready) x)
      else log_event (Called i (On_data chunk)) x)"

definition on_choke :: "nat \<Rightarrow> external \<Rightarrow> external" where
  "on_choke i x = log_event (Called i (On_failed Finished)) x"

definition on_error :: "nat \<Rightarrow> int \<Rightarrow> external \<Rightarrow> external" where
  "on_error i ec x = log_event (Called i (On_failed (By_daemon ec))) x"

definition on_metrics :: "nat \<Rightarrow> external \<Rightarrow> external" where
  "on_metrics i x = log_event (Called i On_value) x"

datatype daemon_frame = D_value | D_chunk string | D_choke | D_error int

fun on_frame :: "nat \<Rightarrow> daemon_frame \<Rightarrow> external \<Rightarrow> external" where
  "on_frame i D_value x = (if ld_kind (load_of i x) = Spool then spool_done i x else on_metrics i x)"
| "on_frame i (D_chunk c) x = on_chunk i c x"
| "on_frame i D_choke x = on_choke i x"
| "on_frame i (D_error ec) x = on_error i ec x"

fun frame_of :: "load_kind \<Rightarrow> daemon_frame \<Rightarrow> bool" where
  "frame_of Spool f = (case f of D_value \<Rightarrow> True | D_error _ \<Rightarrow> True | _ \<Rightarrow> False)"
| "frame_of Spawn f = (case f of D_value \<Rightarrow> False | _ \<Rightarrow> True)"
| "frame_of Metrics f = (case f of D_value \<Rightarrow> True | D_error _ \<Rightarrow> True | _ \<Rightarrow> False)"

section \<open>Runs\<close>

text \<open>\<open>None\<close> as a state: the program has crashed.\<close>

inductive ex_step :: "(nat \<Rightarrow> sending) \<Rightarrow> int \<Rightarrow> external \<Rightarrow> external option \<Rightarrow> bool" for env now where
  Prepared: "\<not> ex_prepared x \<Longrightarrow> ex_step env now x (on_prepared env now x)"
| Attempt: "ex_connecting x \<Longrightarrow> ex_step env now x (on_connected env now ok x)"
| Request: "ex_step env now x (Some (new_load k x))"
| Posted: "ex_posted x \<noteq> [] \<Longrightarrow> ex_step env now x (run_posted env now x)"
| Cancelled: "i < length (ex_loads x) \<Longrightarrow> ld_kind (load_of i x) \<noteq> Metrics \<Longrightarrow> ex_step env now x (Some (cancel ok i x))"
| Frame: "i < length (ex_loads x) \<Longrightarrow> ld_stream (load_of i x) \<Longrightarrow> frame_of (ld_kind (load_of i x)) f \<Longrightarrow>
    ex_step env now x (Some (on_frame i f x))"

inductive ex_run :: "((nat \<Rightarrow> sending) \<Rightarrow> bool) \<Rightarrow> external \<Rightarrow> external option \<Rightarrow> bool" for ok where
  Start: "ex_run ok x (Some x)"
| Step: "ex_run ok x (Some y) \<Longrightarrow> ok env \<Longrightarrow> ex_step env now y z \<Longrightarrow> ex_run ok x z"

section \<open>Invariant\<close>

definition waiting :: "external \<Rightarrow> nat list" where
  "waiting x = ex_posted x @ ex_spool_queue x @ ex_spawn_queue x"

fun event_load :: "output_event \<Rightarrow> nat" where
  "event_load (Called i c) = i"
| "event_load (Sent i m) = i"

definition failed :: "nat \<Rightarrow> external \<Rightarrow> bool" where
  "failed i x \<longleftrightarrow> (\<exists>c. Called i (On_failed c) \<in> set (ex_log x))"

text \<open>Where a request is: waiting, cancelled, sent to the daemon, or answered with a failure.\<close>

definition accounted :: "nat \<Rightarrow> external \<Rightarrow> bool" where
  "accounted i x \<longleftrightarrow> i \<in> set (waiting x) \<or> ld_cancelled (load_of i x) \<or> ld_stream (load_of i x) \<or> failed i x"

definition ex_ok :: "external \<Rightarrow> bool" where
  "ex_ok x \<longleftrightarrow>
     (ex_connecting x \<longrightarrow> \<not> ex_session x) \<and>
     min_seal_time \<le> ex_seal_time x \<and> ex_seal_time x \<le> max_seal_time \<and>
     (ex_prepared x \<and> ex_session x \<longrightarrow> ex_spool_queue x = [] \<and> ex_spawn_queue x = []) \<and>
     distinct (waiting x) \<and> (\<forall>i \<in> set (waiting x). i < length (ex_loads x)) \<and>
     (\<forall>e \<in> set (ex_log x). event_load e < length (ex_loads x) \<and> event_load e \<notin> set (waiting x)) \<and>
     (\<forall>i \<in> set (waiting x). \<not> ld_stream (load_of i x)) \<and>
     (\<forall>i < length (ex_loads x). accounted i x)"

lemma seal_consts: "min_seal_time = 1000" "max_seal_time = 1000000"
  by (simp_all add: min_seal_time_def max_seal_time_def)

lemma log_event_simps [simp]:
  "ex_session (log_event e x) = ex_session x" "ex_prepared (log_event e x) = ex_prepared x" "ex_connecting (log_event e x) = ex_connecting x"
  "ex_last_failed (log_event e x) = ex_last_failed x" "ex_seal_time (log_event e x) = ex_seal_time x" "ex_loads (log_event e x) = ex_loads x"
  "ex_posted (log_event e x) = ex_posted x" "ex_spool_queue (log_event e x) = ex_spool_queue x" "ex_spawn_queue (log_event e x) = ex_spawn_queue x"
  "ex_log (log_event e x) = ex_log x @ [e]" "load_of i (log_event e x) = load_of i x" "waiting (log_event e x) = waiting x"
  by (simp_all add: log_event_def load_of_def waiting_def)

lemma update_load_simps [simp]:
  "ex_session (update_load i f x) = ex_session x" "ex_prepared (update_load i f x) = ex_prepared x"
  "ex_connecting (update_load i f x) = ex_connecting x" "ex_last_failed (update_load i f x) = ex_last_failed x"
  "ex_seal_time (update_load i f x) = ex_seal_time x" "length (ex_loads (update_load i f x)) = length (ex_loads x)"
  "ex_posted (update_load i f x) = ex_posted x" "ex_spool_queue (update_load i f x) = ex_spool_queue x"
  "ex_spawn_queue (update_load i f x) = ex_spawn_queue x" "ex_log (update_load i f x) = ex_log x" "waiting (update_load i f x) = waiting x"
  by (simp_all add: update_load_def waiting_def)

lemma load_of_update: "i < length (ex_loads x) \<Longrightarrow> load_of j (update_load i f x) = (if i = j then f (load_of j x) else load_of j x)"
  by (simp add: load_of_def update_load_def)

lemma connect_simps [simp]:
  "ex_prepared (connect now x) = ex_prepared x" "ex_last_failed (connect now x) = ex_last_failed x"
  "ex_seal_time (connect now x) = ex_seal_time x" "ex_loads (connect now x) = ex_loads x"
  "ex_posted (connect now x) = ex_posted x" "ex_spool_queue (connect now x) = ex_spool_queue x"
  "ex_spawn_queue (connect now x) = ex_spawn_queue x" "ex_log (connect now x) = ex_log x"
  "load_of i (connect now x) = load_of i x" "waiting (connect now x) = waiting x"
  by (simp_all add: connect_def load_of_def waiting_def)

lemma connect_session:
  "ex_session (connect now x) \<Longrightarrow> ex_session x"
  "(ex_connecting x \<longrightarrow> \<not> ex_session x) \<Longrightarrow> ex_connecting (connect now x) \<longrightarrow> \<not> ex_session (connect now x)"
  by (auto simp: connect_def split: if_splits)

text \<open>
  The part of the invariant about requests, for a given list of requests that are still to be processed.
\<close>

definition loads_ok :: "nat list \<Rightarrow> external \<Rightarrow> bool" where
  "loads_ok ws x \<longleftrightarrow>
     distinct ws \<and> (\<forall>i \<in> set ws. i < length (ex_loads x)) \<and>
     (\<forall>e \<in> set (ex_log x). event_load e < length (ex_loads x) \<and> event_load e \<notin> set ws) \<and>
     (\<forall>i \<in> set ws. \<not> ld_stream (load_of i x)) \<and>
     (\<forall>i < length (ex_loads x). i \<in> set ws \<or> ld_cancelled (load_of i x) \<or> ld_stream (load_of i x) \<or> failed i x)"

definition session_ok :: "external \<Rightarrow> bool" where
  "session_ok x \<longleftrightarrow> (ex_connecting x \<longrightarrow> \<not> ex_session x) \<and> min_seal_time \<le> ex_seal_time x \<and> ex_seal_time x \<le> max_seal_time"

lemma ex_ok_conv:
  "ex_ok x \<longleftrightarrow> session_ok x \<and> loads_ok (waiting x) x \<and> (ex_prepared x \<and> ex_session x \<longrightarrow> ex_spool_queue x = [] \<and> ex_spawn_queue x = [])"
  unfolding ex_ok_def session_ok_def loads_ok_def accounted_def by blast

lemma loads_ok_set: "loads_ok ws x \<Longrightarrow> set ws' = set ws \<Longrightarrow> distinct ws' \<Longrightarrow> loads_ok ws' x"
  by (simp add: loads_ok_def)

lemma loads_ok_cong:
  "ex_loads y = ex_loads x \<Longrightarrow> ex_log y = ex_log x \<Longrightarrow> loads_ok ws y = loads_ok ws x"
  by (simp add: loads_ok_def load_of_def failed_def)

lemma session_ok_cong:
  "ex_session y = ex_session x \<Longrightarrow> ex_connecting y = ex_connecting x \<Longrightarrow> ex_seal_time y = ex_seal_time x \<Longrightarrow> session_ok y = session_ok x"
  by (simp add: session_ok_def)

lemma session_ok_connect: "session_ok x \<Longrightarrow> session_ok (connect now x)"
  using connect_session(2) [of x now] by (simp add: session_ok_def)

text \<open>The first waiting request is answered, sent, or dropped because it is cancelled.\<close>

lemma loads_ok_failed: "loads_ok (i # ws) x \<Longrightarrow> loads_ok ws (log_event (Called i (On_failed c)) x)"
  by (auto simp: loads_ok_def failed_def)

lemma loads_ok_cancelled: "loads_ok (i # ws) x \<Longrightarrow> ld_cancelled (load_of i x) \<Longrightarrow> loads_ok ws x"
  by (auto simp: loads_ok_def)

lemma loads_ok_stream:
  assumes "loads_ok (i # ws) x" "event_load e = i"
  shows "loads_ok ws (log_event e (update_load i (\<lambda>l. l\<lparr>ld_stream := True\<rparr>) x))"
proof -
  have "i < length (ex_loads x)" using assms(1) by (simp add: loads_ok_def)
  then show ?thesis using assms by (auto simp: loads_ok_def load_of_update failed_def)
qed

lemma apply_load_ok:
  assumes "loads_ok (i # ws) x" "session_ok x" "apply_load env now i x = Some y"
  shows "loads_ok ws y" "session_ok y"
proof -
  let ?s = "update_load i (\<lambda>l. l\<lparr>ld_stream := True\<rparr>) x"
  have conn: "loads_ok ws (connect now z) = loads_ok ws z" for z by (rule loads_ok_cong) simp_all
  have s: "session_ok (log_event e x)" "session_ok (log_event e ?s)" for e using assms(2) by (simp_all add: session_ok_def)
  from assms(3) consider (cancelled) "ld_cancelled (load_of i x)" "y = x"
    | (sent) "y = log_event (Sent i (message_of (ld_kind (load_of i x)))) ?s"
    | (forked) "y = connect now (log_event (Called i (On_failed Send_failed)) x)"
    | (failed) "y = connect now (log_event (Called i (On_failed Send_failed)) ?s)"
    by (auto simp: apply_load_conv send_load_def split: if_splits sending.splits)
  then have "loads_ok ws y \<and> session_ok y"
  proof cases
    case cancelled
    then show ?thesis using assms loads_ok_cancelled by blast
  next
    case sent
    then show ?thesis using loads_ok_stream [OF assms(1)] s by simp
  next
    case forked
    then show ?thesis using loads_ok_failed [OF assms(1)] s session_ok_connect by (simp add: conn)
  next
    case failed
    then show ?thesis using loads_ok_stream [OF assms(1)] s session_ok_connect by (simp add: conn)
  qed
  then show "loads_ok ws y" "session_ok y" by simp_all
qed

lemma apply_load_frame:
  assumes "apply_load env now i x = Some y"
  shows "ex_prepared y = ex_prepared x" "ex_posted y = ex_posted x" "ex_spool_queue y = ex_spool_queue x" "ex_spawn_queue y = ex_spawn_queue x"
  using assms by (auto simp: apply_load_conv send_load_def split: if_splits sending.splits)

lemma apply_loads_ok:
  assumes "loads_ok (is @ ws) x" "session_ok x" "apply_loads env now is x = Some y"
  shows "loads_ok ws y \<and> session_ok y \<and> ex_prepared y = ex_prepared x \<and> ex_posted y = ex_posted x \<and>
    ex_spool_queue y = ex_spool_queue x \<and> ex_spawn_queue y = ex_spawn_queue x"
  using assms
proof (induction "is" arbitrary: x)
  case (Cons i "is")
  then obtain x1 where x1: "apply_load env now i x = Some x1" and rest: "apply_loads env now is x1 = Some y"
    by (auto split: option.splits)
  from Cons.prems(1) have "loads_ok (i # (is @ ws)) x" by simp
  from apply_load_ok [OF this Cons.prems(2) x1] Cons.IH rest apply_load_frame [OF x1] show ?case by simp
qed simp

lemma on_ready_ok:
  assumes "loads_ok (waiting x) x" "session_ok x" "on_ready env now x = Some y"
  shows "ex_ok y"
proof (cases "ex_prepared x \<and> ex_session x")
  case True
  let ?x = "x\<lparr>ex_seal_time := min_seal_time\<rparr>"
  from True assms(3) obtain x1 x3 where x1: "apply_loads env now (ex_spool_queue x) ?x = Some x1"
    and x3: "apply_loads env now (ex_spawn_queue x1) (x1\<lparr>ex_spool_queue := []\<rparr>) = Some x3" and y: "y = x3\<lparr>ex_spawn_queue := []\<rparr>"
    by (auto simp: on_ready_def Let_def split: option.splits)
  have s: "session_ok ?x" using assms(2) by (simp add: session_ok_def seal_consts)
  have "loads_ok (ex_spool_queue x @ ex_spawn_queue x @ ex_posted x) x"
  proof (rule loads_ok_set [OF assms(1)])
    have "distinct (waiting x)" using assms(1) by (simp add: loads_ok_def)
    then show "distinct (ex_spool_queue x @ ex_spawn_queue x @ ex_posted x)" unfolding waiting_def distinct_append by auto
  qed (auto simp: waiting_def)
  then have "loads_ok (ex_spool_queue x @ ex_spawn_queue x @ ex_posted x) ?x" by (subst loads_ok_cong [of _ x]) simp_all
  from apply_loads_ok [OF this s x1]
  have one: "loads_ok (ex_spawn_queue x @ ex_posted x) x1" "session_ok x1" "ex_posted x1 = ex_posted x" "ex_spawn_queue x1 = ex_spawn_queue x" by simp_all
  have "loads_ok (ex_spawn_queue x1 @ ex_posted x) (x1\<lparr>ex_spool_queue := []\<rparr>)" "session_ok (x1\<lparr>ex_spool_queue := []\<rparr>)"
    using one by (simp_all add: loads_ok_cong [of "x1\<lparr>ex_spool_queue := []\<rparr>" x1] session_ok_cong [of "x1\<lparr>ex_spool_queue := []\<rparr>" x1])
  from apply_loads_ok [OF this x3] have "loads_ok (ex_posted x) x3" "session_ok x3" "ex_posted x3 = ex_posted x" "ex_spool_queue x3 = []"
    using one by simp_all
  then show ?thesis
    by (simp add: y ex_ok_conv waiting_def loads_ok_cong [of "x3\<lparr>ex_spawn_queue := []\<rparr>" x3] session_ok_cong [of "x3\<lparr>ex_spawn_queue := []\<rparr>" x3])
next
  case False
  then have "y = x\<lparr>ex_seal_time := min_seal_time\<rparr>" using assms(3) by (auto simp: on_ready_def Let_def split: if_splits)
  then show ?thesis using assms(1, 2) False
    by (auto simp: ex_ok_conv session_ok_def seal_consts waiting_def loads_ok_def failed_def load_of_def)
qed

lemma fail_loads_conv: "fail_loads is x = x\<lparr>ex_log := ex_log x @ map (\<lambda>i. Called i (On_failed Not_connected)) is\<rparr>"
  unfolding fail_loads_def by (induction "is" arbitrary: x) (simp_all add: log_event_def)

lemma on_fail_conv:
  "on_fail now x = x\<lparr>ex_last_failed := now, ex_seal_time := min (ex_seal_time x * 2) max_seal_time, ex_spool_queue := [], ex_spawn_queue := [],
     ex_log := ex_log x @ map (\<lambda>i. Called i (On_failed Not_connected)) (ex_spool_queue x @ ex_spawn_queue x)\<rparr>"
  unfolding on_fail_def Let_def by (simp add: fail_loads_conv)

lemma on_fail_ok:
  assumes "loads_ok (waiting x) x" "session_ok x"
  shows "ex_ok (on_fail now x)"
proof -
  have "session_ok (on_fail now x)" using assms(2) by (auto simp: on_fail_conv session_ok_def seal_consts)
  moreover have "loads_ok (ex_posted x) (on_fail now x)"
    using assms(1) by (auto simp: on_fail_conv loads_ok_def waiting_def failed_def load_of_def image_iff)
  moreover have "waiting (on_fail now x) = ex_posted x" "ex_spool_queue (on_fail now x) = []" "ex_spawn_queue (on_fail now x) = []"
    by (simp_all add: on_fail_conv waiting_def)
  ultimately show ?thesis by (simp add: ex_ok_conv)
qed

lemma on_connected_ok:
  assumes "ex_ok x" "on_connected env now ok x = Some y"
  shows "ex_ok y"
proof -
  let ?x = "x\<lparr>ex_connecting := False\<rparr>"
  have x: "loads_ok (waiting x) x" "session_ok x" using assms(1) by (simp_all add: ex_ok_conv)
  then have "loads_ok (waiting ?x) ?x" "session_ok ?x" "loads_ok (waiting (?x\<lparr>ex_session := True\<rparr>)) (?x\<lparr>ex_session := True\<rparr>)"
    "session_ok (?x\<lparr>ex_session := True\<rparr>)"
    by (simp_all add: loads_ok_def failed_def load_of_def waiting_def session_ok_def)
  then show ?thesis using assms(2) on_ready_ok [of "?x\<lparr>ex_session := True\<rparr>" env now y] on_fail_ok [of ?x now]
    by (auto simp: on_connected_def Let_def split: if_splits)
qed

lemma on_prepared_ok:
  assumes "ex_ok x" "on_prepared env now x = Some y"
  shows "ex_ok y"
proof -
  have "loads_ok (waiting (x\<lparr>ex_prepared := True\<rparr>)) (x\<lparr>ex_prepared := True\<rparr>)" "session_ok (x\<lparr>ex_prepared := True\<rparr>)"
    using assms(1) by (simp_all add: ex_ok_conv loads_ok_def failed_def load_of_def waiting_def session_ok_def)
  from on_ready_ok [OF this, of env now y] assms(2) show ?thesis by (simp add: on_prepared_def)
qed

lemma process_load_ok:
  assumes "loads_ok (i # waiting x) x" "session_ok x" "ex_prepared x \<and> ex_session x \<longrightarrow> ex_spool_queue x = [] \<and> ex_spawn_queue x = []"
    and "process_load env now i x = Some y"
  shows "ex_ok y"
proof (cases "ex_session x \<and> ex_prepared x")
  case True
  then have a: "apply_load env now i x = Some y" using assms(4) by (simp add: process_load_conv)
  have "waiting y = waiting x" using apply_load_frame [OF a] by (simp add: waiting_def)
  then show ?thesis using apply_load_ok [OF assms(1, 2) a] apply_load_frame [OF a] assms(3) True by (simp add: ex_ok_conv)
next
  case False
  let ?x = "case ld_kind (load_of i x) of Spool \<Rightarrow> x\<lparr>ex_spool_queue := ex_spool_queue x @ [i]\<rparr>
     | Spawn \<Rightarrow> x\<lparr>ex_spawn_queue := ex_spawn_queue x @ [i]\<rparr> | Metrics \<Rightarrow> log_event (Called i (On_failed Not_connected)) x"
  have y: "y = connect_if_prepared now ?x" using assms(4) False by (simp add: process_load_conv)
  have "loads_ok (waiting ?x) ?x"
  proof (cases "ld_kind (load_of i x)")
    case Metrics
    then show ?thesis using loads_ok_failed [OF assms(1)] by simp
  qed (use assms(1) in \<open>auto simp: loads_ok_def waiting_def load_of_def failed_def\<close>)
  moreover have s: "session_ok ?x" "ex_session ?x = ex_session x" "ex_prepared ?x = ex_prepared x"
    using assms(2) by (cases "ld_kind (load_of i x)"; simp add: session_ok_def)+
  ultimately show ?thesis unfolding y connect_if_prepared_def
    using False session_ok_connect [OF s(1), of now] connect_session(1) [of now ?x]
    by (auto simp: ex_ok_conv s loads_ok_cong [of "connect now ?x" ?x])
qed

lemma run_posted_ok:
  assumes "ex_ok x" "ex_posted x \<noteq> []" "run_posted env now x = Some y"
  shows "ex_ok y"
proof -
  obtain i "is" where p: "ex_posted x = i # is" using assms(2) by (cases "ex_posted x") auto
  let ?x = "x\<lparr>ex_posted := is\<rparr>"
  have "loads_ok (i # waiting ?x) ?x" "session_ok ?x"
    using assms(1) by (simp_all add: ex_ok_conv loads_ok_def failed_def load_of_def waiting_def session_ok_def p)
  from process_load_ok [OF this, of env now y] assms(1, 3) show ?thesis by (auto simp: run_posted_def p ex_ok_conv)
qed

lemma cancel_load_ok:
  assumes "ex_ok x" "i < length (ex_loads x)"
  shows "ex_ok (cancel ok i x)"
proof -
  let ?x = "update_load i (\<lambda>l. l\<lparr>ld_cancelled := True\<rparr>) x"
  have st: "ld_stream (load_of j ?x) = ld_stream (load_of j x)" for j using assms(2) by (simp add: load_of_update)
  have ca: "ld_cancelled (load_of j ?x) = (j = i \<or> ld_cancelled (load_of j x))" for j using assms(2) by (simp add: load_of_update)
  have l: "loads_ok (waiting x) ?x" using assms(1) by (auto simp: ex_ok_conv loads_ok_def st ca failed_def)
  have "loads_ok (waiting x) (log_event e ?x)" if "event_load e = i" "ld_stream (load_of i x)" for e
    using l that assms(2) by (auto simp: loads_ok_def st ca failed_def)
  with l assms(1) show ?thesis by (auto simp: cancel_defs Let_def ex_ok_conv session_ok_def)
qed

lemma frame_ok:
  assumes "ex_ok x" "i < length (ex_loads x)" "ld_stream (load_of i x)"
  shows "ex_ok (on_frame i f x)"
proof -
  have e: "ex_ok (log_event (Called i c) x)" for c using assms by (auto simp: ex_ok_conv loads_ok_def failed_def session_ok_def)
  have u: "ex_ok (update_load i (\<lambda>l. l\<lparr>ld_ready := True\<rparr>) y)" if "ex_ok y" "i < length (ex_loads y)" for y
    using that by (auto simp: ex_ok_conv loads_ok_def failed_def session_ok_def load_of_update)
  show ?thesis using e u assms(2) by (cases f) (auto simp: spool_done_def on_metrics_def on_chunk_def on_choke_def on_error_def)
qed

lemma new_load_ok:
  assumes "ex_ok x"
  shows "ex_ok (new_load k x)"
proof -
  let ?n = "length (ex_loads x)"
  have old: "load_of i (new_load k x) = load_of i x" if "i < ?n" for i using that by (simp add: new_load_def load_of_def nth_append)
  have new: "\<not> ld_stream (load_of ?n (new_load k x))" by (simp add: new_load_def load_of_def)
  have fr: "length (ex_loads (new_load k x)) = Suc ?n" "ex_log (new_load k x) = ex_log x" "failed i (new_load k x) = failed i x"
    "set (waiting (new_load k x)) = insert ?n (set (waiting x))" for i
    by (auto simp: new_load_def failed_def waiting_def)
  have l: "loads_ok (waiting x) x" and s: "session_ok x" using assms by (simp_all add: ex_ok_conv)
  then have "?n \<notin> set (waiting x)" by (auto simp: loads_ok_def)
  with l have "distinct (waiting (new_load k x))" by (auto simp: loads_ok_def new_load_def waiting_def)
  then have "loads_ok (waiting (new_load k x)) (new_load k x)"
    unfolding loads_ok_def fr using l old new by (auto simp: loads_ok_def less_Suc_eq)
  then show ?thesis using assms s by (simp add: ex_ok_conv session_ok_def new_load_def)
qed

lemma ex_step_ok:
  assumes "ex_step env now x (Some y)" "ex_ok x"
  shows "ex_ok y"
  using assms by (cases rule: ex_step.cases) (auto intro: on_prepared_ok on_connected_ok new_load_ok run_posted_ok cancel_load_ok frame_ok)

lemma new_external_ok: "ex_ok (new_external now)"
  unfolding new_external_def
  by (auto simp: ex_ok_conv session_ok_def loads_ok_def waiting_def seal_consts connect_def)

lemma ex_run_ok: "ex_run ok x z \<Longrightarrow> ex_ok x \<Longrightarrow> z = Some y \<Longrightarrow> ex_ok y"
  by (induction arbitrary: y rule: ex_run.induct) (auto intro: ex_step_ok)

section \<open>Requests are accounted for\<close>

text \<open>
  C11: over every order of requests, attempts to connect, sends that
  fail, cancellations and frames of the daemon, as long as the program does not
  crash: no request is lost or processed twice. Each is still waiting, or was
  cancelled, or has been sent to the daemon, or its handle was told that it failed;
  a waiting request has neither been sent nor answered. There is never a session while
  an attempt is under way, nothing is queued while requests can be sent, and
  the time during which attempts are refused stays between one and a thousand seconds.
\<close>

theorem external_accounted:
  assumes "ex_run ok (new_external now) (Some x)"
  shows "(\<forall>i < length (ex_loads x). accounted i x) \<and> distinct (waiting x) \<and>
    (\<forall>i \<in> set (waiting x). \<not> ld_stream (load_of i x) \<and> i \<notin> event_load ` set (ex_log x)) \<and>
    (ex_connecting x \<longrightarrow> \<not> ex_session x) \<and>
    (ex_prepared x \<and> ex_session x \<longrightarrow> ex_spool_queue x = [] \<and> ex_spawn_queue x = []) \<and>
    1000 \<le> ex_seal_time x \<and> ex_seal_time x \<le> 1000000"
  using ex_run_ok [OF assms new_external_ok refl] unfolding ex_ok_def seal_consts by blast

text \<open>Requests that can be sent never crash.\<close>

lemma apply_load_sends:
  assumes "ex_session x" "env i = Send_ok"
  shows "\<exists>y. apply_load env now i x = Some y \<and> ex_session y \<and> ex_spawn_queue y = ex_spawn_queue x"
  using assms by (auto simp: apply_load_conv send_load_def)

lemma apply_loads_sends:
  assumes "ex_session x" "\<forall>i. env i = Send_ok"
  shows "\<exists>y. apply_loads env now is x = Some y \<and> ex_session y \<and> ex_spawn_queue y = ex_spawn_queue x"
  using assms(1)
proof (induction "is" arbitrary: x)
  case (Cons i "is")
  obtain y where "apply_load env now i x = Some y" "ex_session y" "ex_spawn_queue y = ex_spawn_queue x"
    using apply_load_sends [OF Cons.prems, of env i now] assms(2) by blast
  with Cons.IH [of y] show ?case by auto
qed simp

lemma on_ready_sends:
  assumes "\<forall>i. env i = Send_ok"
  shows "on_ready env now x \<noteq> None"
proof (cases "ex_prepared x \<and> ex_session x")
  case True
  then obtain x1 where x1: "apply_loads env now (ex_spool_queue x) (x\<lparr>ex_seal_time := min_seal_time\<rparr>) = Some x1" "ex_session x1"
    using apply_loads_sends [of "x\<lparr>ex_seal_time := min_seal_time\<rparr>" env now "ex_spool_queue x"] assms by auto
  then obtain x3 where "apply_loads env now (ex_spawn_queue x1) (x1\<lparr>ex_spool_queue := []\<rparr>) = Some x3"
    using apply_loads_sends [of "x1\<lparr>ex_spool_queue := []\<rparr>" env now "ex_spawn_queue x1"] assms by auto
  with True x1 show ?thesis by (simp add: on_ready_def Let_def)
qed (auto simp: on_ready_def Let_def)

lemma apply_load_none:
  "apply_load env now i x = None \<longleftrightarrow> \<not> (ld_kind (load_of i x) \<noteq> Metrics \<and> ld_cancelled (load_of i x)) \<and> \<not> ex_session x"
  by (auto simp: apply_load_conv send_load_def split: sending.split)

lemma run_posted_safe: "run_posted env now x \<noteq> None"
  unfolding run_posted_def by (cases "ex_posted x") (simp_all add: process_load_conv apply_load_none del: not_None_eq)

lemma step_sends:
  assumes "ex_step env now x z" "\<forall>i. env i = Send_ok"
  shows "z \<noteq> None"
  using assms(1)
proof cases
  case Posted
  then show ?thesis by (simp add: run_posted_safe del: not_None_eq)
qed (use assms(2) on_ready_sends in \<open>auto simp: on_prepared_def on_connected_def Let_def split: if_splits\<close>)

text \<open>
  As long as every request that is sent over a session can be sent,
  the null session is never used: the program does not crash, in whatever order
  requests, attempts, cancellations and frames come.
\<close>

theorem external_no_crash:
  assumes "\<And>env i. ok env \<Longrightarrow> env i = Send_ok"
  shows "\<not> ex_run ok (new_external now) None"
proof
  assume "ex_run ok (new_external now) None"
  then show False by cases (use assms step_sends in blast)
qed

section \<open>Failing attempts\<close>

text \<open>The states after a sequence of failed attempts, each started and failed at the given time.\<close>

definition fail_attempt :: "int \<Rightarrow> external \<Rightarrow> external" where
  "fail_attempt now x = (case on_connected (\<lambda>_. Send_ok) now False (connect now x) of Some y \<Rightarrow> y | None \<Rightarrow> x)"

lemma fail_attempt_conv: "fail_attempt now x = on_fail now ((connect now x)\<lparr>ex_connecting := False\<rparr>)"
  by (simp add: fail_attempt_def on_connected_def Let_def)

lemma min_scale: "1 \<le> p \<Longrightarrow> 0 < m \<Longrightarrow> min (min a m * p) m = min (a * p) m" for p m a :: int
proof (cases "a \<le> m")
  case False
  assume p: "1 \<le> p" "0 < m"
  then have "m * 1 \<le> m * p" by (intro mult_left_mono) auto
  moreover have "m * p \<le> a * p" using p False by (intro mult_right_mono) auto
  ultimately have "m \<le> m * p" "m \<le> a * p" by linarith+
  then show ?thesis using False by (simp add: min_absorb2)
qed simp

lemma seal_attempt: "ex_seal_time (fail_attempt t x) = min (ex_seal_time x * 2) max_seal_time"
  by (simp add: fail_attempt_conv on_fail_conv)

lemma seal_after:
  "ex_seal_time (fold fail_attempt (t # ts) x) = min (ex_seal_time x * 2 ^ Suc (length ts)) max_seal_time"
proof (induction ts arbitrary: t x)
  case (Cons u ts)
  have "ex_seal_time (fold fail_attempt (t # u # ts) x) = min (min (ex_seal_time x * 2) max_seal_time * 2 ^ Suc (length ts)) max_seal_time"
    using Cons [of u "fail_attempt t x"] by (simp add: seal_attempt)
  also have "\<dots> = min (ex_seal_time x * 2 * 2 ^ Suc (length ts)) max_seal_time"
    by (rule min_scale) (simp_all add: seal_consts del: power_Suc)
  finally show ?case by (simp add: mult.assoc)
qed (simp add: seal_attempt)

text \<open>
  A failed attempt answers every queued request exactly once, spools
  before spawns and each kind in the order of arrival, and leaves the queues
  empty. After a success and any number of consecutive failures the time for which
  attempts are refused is one second doubled for each failure, at most a thousand
  seconds, and until it has passed no attempt is made.
\<close>

theorem external_backoff:
  assumes "ex_seal_time x = 1000"
  shows "ex_log (fail_attempt t x) = ex_log x @ map (\<lambda>i. Called i (On_failed Not_connected)) (ex_spool_queue x @ ex_spawn_queue x) \<and>
    ex_spool_queue (fail_attempt t x) = [] \<and> ex_spawn_queue (fail_attempt t x) = [] \<and>
    (let y = fold fail_attempt (t # ts) x
     in ex_seal_time y = min (1000 * 2 ^ Suc (length ts)) 1000000 \<and>
        (\<forall>now. now < ex_last_failed y + min (1000 * 2 ^ Suc (length ts)) 1000000 \<longrightarrow> connect now y = y))"
proof -
  let ?y = "fold fail_attempt (t # ts) x"
  have seal: "ex_seal_time ?y = min (1000 * 2 ^ Suc (length ts)) 1000000" unfolding seal_after by (simp add: assms seal_consts)
  then have "\<forall>now. now < ex_last_failed ?y + min (1000 * 2 ^ Suc (length ts)) 1000000 \<longrightarrow> connect now ?y = ?y" by (simp add: connect_def)
  with seal show ?thesis by (simp add: fail_attempt_conv on_fail_conv Let_def)
qed

section \<open>Output of a worker\<close>

lemma chunk_data: "[] \<notin> set cs \<or> ld_ready (load_of i x) \<Longrightarrow>
  fold (on_chunk i) cs x = x\<lparr>ex_log := ex_log x @ map (\<lambda>c. Called i (On_data c)) cs\<rparr>"
proof (induction cs arbitrary: x)
  case (Cons c cs)
  have "on_chunk i c x = x\<lparr>ex_log := ex_log x @ [Called i (On_data c)]\<rparr>" using Cons.prems by (auto simp: on_chunk_def log_event_def)
  then show ?case using Cons by (auto simp: load_of_def)
qed simp

text \<open>
  Of the chunks of a worker's stream exactly the first empty one tells
  that the worker was spawned; all others, later empty ones included, reach the handle
  as output, in order.
\<close>

theorem external_spawned:
  assumes "i < length (ex_loads x)" "\<not> ld_ready (load_of i x)" "[] \<notin> set before"
  shows "ex_log (fold (on_chunk i) (before @ [] # after) x) =
      ex_log x @ map (\<lambda>c. Called i (On_data c)) before @ [Called i On_ready] @ map (\<lambda>c. Called i (On_data c)) after \<and>
    ex_log (fold (on_chunk i) before x) = ex_log x @ map (\<lambda>c. Called i (On_data c)) before"
proof -
  let ?x = "x\<lparr>ex_log := ex_log x @ map (\<lambda>c. Called i (On_data c)) before\<rparr>"
  have b: "fold (on_chunk i) before x = ?x" using assms(3) by (simp add: chunk_data)
  have r: "on_chunk i [] ?x = update_load i (\<lambda>l. l\<lparr>ld_ready := True\<rparr>) (log_event (Called i On_ready) ?x)"
    using assms(2) by (simp add: on_chunk_def load_of_def)
  have "ld_ready (load_of i (on_chunk i [] ?x))" unfolding r using assms(1) by (simp add: load_of_update)
  then show ?thesis by (simp add: b chunk_data) (simp add: r)
qed

section \<open>Gaps\<close>

text \<open>Nothing is under way that would make an attempt or process the queues.\<close>

definition stalled :: "external \<Rightarrow> bool" where
  "stalled x \<longleftrightarrow> ex_prepared x \<and> \<not> ex_session x \<and> \<not> ex_connecting x \<and> ex_posted x = []"

lemma stalled_step:
  assumes "ex_step env now x (Some y)" "stalled x"
  shows "length (ex_loads x) \<le> length (ex_loads y) \<and> (length (ex_loads y) = length (ex_loads x) \<longrightarrow>
    stalled y \<and> ex_spool_queue y = ex_spool_queue x \<and> ex_spawn_queue y = ex_spawn_queue x)"
  using assms(1)
proof cases
  case (Cancelled i ok)
  then show ?thesis using assms(2) by (auto simp: stalled_def cancel_defs Let_def)
next
  case (Frame i f)
  then show ?thesis using assms(2)
    by (cases f) (auto simp: stalled_def spool_done_def on_metrics_def on_chunk_def on_choke_def on_error_def)
qed (use assms(2) in \<open>auto simp: stalled_def new_load_def\<close>)

lemma loads_grow:
  assumes "ex_step env now x (Some y)"
  shows "length (ex_loads x) \<le> length (ex_loads y)"
proof -
  have a: "apply_load env now i x = Some y \<Longrightarrow> length (ex_loads y) = length (ex_loads x)" for i x y
    by (auto simp: apply_load_conv send_load_def split: if_splits sending.splits)
  have as: "apply_loads env now is x = Some y \<Longrightarrow> length (ex_loads y) = length (ex_loads x)" for "is" x y
    by (induction "is" arbitrary: x) (auto dest: a split: option.splits)
  have r: "on_ready env now x = Some y \<Longrightarrow> length (ex_loads y) = length (ex_loads x)" for x y
    by (auto simp: on_ready_def Let_def split: if_splits option.splits dest!: as)
  show ?thesis using assms
  proof cases
    case Posted
    then show ?thesis by (auto simp: run_posted_def process_load_conv connect_if_prepared_def
          split: list.splits if_splits load_kind.splits dest!: a [OF sym])
  next
    case (Attempt ok)
    then show ?thesis by (auto simp: on_connected_def Let_def on_fail_conv split: if_splits dest!: r [OF sym])
  next
    case (Frame i f)
    then show ?thesis by (cases f) (auto simp: spool_done_def on_metrics_def on_chunk_def on_choke_def on_error_def)
  qed (auto simp: on_prepared_def new_load_def cancel_defs Let_def dest!: r [OF sym])
qed

lemma stalled_run:
  assumes "ex_run ok x z" "z = Some y" "stalled x" "length (ex_loads y) = length (ex_loads x)"
  shows "stalled y \<and> ex_spool_queue y = ex_spool_queue x \<and> ex_spawn_queue y = ex_spawn_queue x"
  using assms
proof (induction arbitrary: y rule: ex_run.induct)
  case (Step x y1 env now z)
  have grow: "ex_run ok x z \<Longrightarrow> z = Some u \<Longrightarrow> length (ex_loads x) \<le> length (ex_loads u)" for x z u
    by (induction arbitrary: u rule: ex_run.induct) (auto dest: loads_grow intro: order_trans)
  have "length (ex_loads y1) = length (ex_loads x)"
    using grow [OF Step.hyps(1) refl] loads_grow [of env now y1 y] Step.hyps(3) Step.prems by simp
  with Step stalled_step [of env now y1 y] show ?case by auto
qed simp

text \<open>
  What goes wrong when the daemon is not there. If two requests are queued
  and the first cannot be sent once the session is made, the attempt it starts resets
  the session while the loop goes on, and the second request is sent through the null
  session: the program crashes. A request that arrives while attempts are refused is
  queued and nothing else happens: it waits, however much time passes, until some
  other request arrives after the refusal has ended. And a request whose
  send failed is told so a second time when it is cancelled.
\<close>

theorem external_gaps:
  assumes "ex_prepared x" "\<not> ex_session x" "ex_last_failed x + 1000 \<le> now" "ex_spool_queue x = i # j # js"
    and "\<not> ld_cancelled (load_of i x)" "\<not> ld_cancelled (load_of j x)" "i \<noteq> j" "env i = Fork_threw"
    and "stalled y" "later < ex_last_failed y + ex_seal_time y"
    and "ex_run ok (the (process_load env' later k y)) (Some z)" "length (ex_loads z) = length (ex_loads y)" "ld_kind (load_of k y) = Spawn"
  shows "on_connected env now True x = None \<and> k \<in> set (ex_spawn_queue z) \<and> stalled z \<and>
    (let v = the (apply_load (\<lambda>_. Send_threw) now 0 \<lparr>ex_session = True, ex_prepared = True, ex_connecting = False, ex_last_failed = 0,
         ex_seal_time = 1000, ex_loads = [\<lparr>ld_kind = Spool, ld_cancelled = False, ld_stream = False, ld_ready = False\<rparr>],
         ex_posted = [], ex_spool_queue = [], ex_spawn_queue = [], ex_log = []\<rparr>)
     in ex_log (cancel False 0 v) = [Called 0 (On_failed Send_failed), Called 0 (On_failed Cancel_failed)])"
proof -
  have "on_connected env now True x = None"
    using assms(1-8) by (simp add: on_connected_def on_ready_def Let_def apply_load_conv send_load_def load_of_def connect_def seal_consts log_event_def)
  moreover have p: "process_load env' later k y = Some (y\<lparr>ex_spawn_queue := ex_spawn_queue y @ [k]\<rparr>)"
    using assms(9, 10, 13) by (simp add: stalled_def process_load_conv connect_if_prepared_def connect_def)
  moreover have "stalled z \<and> ex_spawn_queue z = ex_spawn_queue y @ [k]"
    using stalled_run [OF assms(11) refl] assms(9, 12) unfolding p by (simp add: stalled_def)
  ultimately show ?thesis
    by (simp add: apply_load_conv send_load_def load_of_def update_load_def log_event_def connect_def cancel_defs Let_def)
qed

section \<open>An example\<close>

definition ex_sample :: external where
  "ex_sample = new_load Spawn (new_load Spool (new_external 5000))"

lemma sample_run: "ex_run ok (new_external 5000) (Some ex_sample)" if env: "ok (\<lambda>_. Send_ok)" for ok
proof -
  have "ex_run ok (new_external 5000) (Some (new_load Spool (new_external 5000)))"
    by (rule ex_run.Step [where ok = ok, OF ex_run.Start _ ex_step.Request]) (rule env)
  then show ?thesis unfolding ex_sample_def by (rule ex_run.Step [where ok = ok, OF _ _ ex_step.Request]) (rule env)
qed

theorem external_accounted_witness: "accounted 0 ex_sample \<and> accounted 1 ex_sample \<and> waiting ex_sample = [0, 1]"
proof -
  have "length (ex_loads ex_sample) = 2" "waiting ex_sample = [0, 1]" by code_simp+
  with external_accounted [OF sample_run [of "\<lambda>_. True"]] show ?thesis by simp
qed

theorem external_no_crash_witness: "\<not> ex_run (\<lambda>env. env = (\<lambda>_. Send_ok)) (new_external 5000) None \<and>
  ex_run (\<lambda>env. env = (\<lambda>_. Send_ok)) (new_external 5000) (Some ex_sample)"
  using external_no_crash [of "\<lambda>env. env = (\<lambda>_. Send_ok)" 5000] sample_run [of "\<lambda>env. env = (\<lambda>_. Send_ok)"] by simp

theorem external_backoff_witness:
  "ex_seal_time (fold fail_attempt [5000, 9000] (new_external 5000)) = 4000"
proof -
  have "ex_seal_time (new_external 5000) = 1000" by code_simp
  from external_backoff [OF this, of 5000 "[9000]"] show ?thesis by (simp add: Let_def)
qed

theorem external_spawned_witness:
  "ex_log (fold (on_chunk 1) [''a'', [], []] ex_sample) = [Called 1 (On_data ''a''), Called 1 On_ready, Called 1 (On_data [])]"
proof -
  have "1 < length (ex_loads ex_sample)" "\<not> ld_ready (load_of 1 ex_sample)" "ex_log ex_sample = []" by code_simp+
  with external_spawned [of 1 ex_sample "[''a'']" "[[]]"] show ?thesis by simp
qed

theorem external_gaps_witness:
  "on_connected (\<lambda>_. Fork_threw) 9000 True (ex_sample\<lparr>ex_prepared := True, ex_posted := [], ex_spool_queue := [0, 1]\<rparr>) = None"
proof -
  let ?x = "ex_sample\<lparr>ex_prepared := True, ex_posted := [], ex_spool_queue := [0, 1]\<rparr>"
  let ?y = "?x\<lparr>ex_connecting := False, ex_spool_queue := [], ex_last_failed := 9000\<rparr>"
  have x: "ex_prepared ?x" "\<not> ex_session ?x" "ex_last_failed ?x + 1000 \<le> 9000" "ex_spool_queue ?x = 0 # 1 # []"
    "\<not> ld_cancelled (load_of 0 ?x)" "\<not> ld_cancelled (load_of 1 ?x)" "stalled ?y" "9500 < ex_last_failed ?y + ex_seal_time ?y"
    "ld_kind (load_of 1 ?y) = Spawn" "process_load (\<lambda>_. Send_ok) 9500 1 ?y = Some (?y\<lparr>ex_spawn_queue := [1]\<rparr>)"
    "length (ex_loads (?y\<lparr>ex_spawn_queue := [1]\<rparr>)) = length (ex_loads ?y)"
    by code_simp+
  have run: "ex_run (\<lambda>_. True) (the (process_load (\<lambda>_. Send_ok) 9500 1 ?y)) (Some (?y\<lparr>ex_spawn_queue := [1]\<rparr>))"
    unfolding x(10) option.sel by (rule ex_run.Start)
  from external_gaps [OF x(1-6) _ refl x(7, 8) run x(11) x(9)] show ?thesis by simp
qed

end
