(* ===== verification/Process_Isolate.thy ===== *)
theory Process_Isolate
  imports Node_Config Slave_Channel "HOL-Library.Sublist"
begin

section \<open>Isolation by plain processes\<close>

text \<open>
  Isolation by plain processes (\<^verbatim>\<open>src/node/src/isolate/process.cpp\<close>): unpacking of an
  application (\<^verbatim>\<open>process/archive.cpp\<close>), control groups (\<^verbatim>\<open>process/cgroup.cpp\<close>), spawning
  of a worker, the fetcher of its output (\<^verbatim>\<open>fetcher.cpp\<close>) and the terminator that
  collects it.

  The calls that concern other processes are the record \<open>posix\<close> over states of any type;
  what the code relies on is \<open>posix_laws\<close>, in terms of a view of the processes. Outcomes
  of the other system calls are arguments, and so are \<^verbatim>\<open>boost::filesystem\<close> (\<open>fs_ops\<close>),
  \<^verbatim>\<open>lexical_cast\<close>, and what \<^verbatim>\<open>libarchive\<close> reads.  Signals that were sent are a
  result of the operations.
\<close>

subsection \<open>The fetcher of standard output\<close>

datatype read_result = Read_ok string | Read_aborted | Read_eof | Read_failed

record fetcher =
  ft_open :: "int option"
  ft_pending :: nat
  ft_data :: "string list"

definition new_fetcher :: fetcher where
  "new_fetcher = \<lparr>ft_open = None, ft_pending = 0, ft_data = []\<rparr>"

definition watch :: "fetcher \<Rightarrow> fetcher" where
  "watch f = f\<lparr>ft_pending := Suc (ft_pending f)\<rparr>"

definition assign_fd :: "bool \<Rightarrow> int \<Rightarrow> fetcher \<Rightarrow> fetcher option" where
  "assign_fd ok fd f =
     (if ft_open f \<noteq> None \<or> \<not> ok then None else Some (watch (f\<lparr>ft_open := Some fd\<rparr>)))"

definition close_fetcher :: "fetcher \<Rightarrow> fetcher" where
  "close_fetcher f = (if ft_open f \<noteq> None then f\<lparr>ft_open := None\<rparr> else f)"

definition on_read :: "read_result \<Rightarrow> fetcher \<Rightarrow> fetcher" where
  "on_read r f =
     (let g = f\<lparr>ft_pending := ft_pending f - 1\<rparr> in
      case r of
        Read_ok s \<Rightarrow> watch (g\<lparr>ft_data := ft_data g @ [s]\<rparr>)
      | Read_aborted \<Rightarrow> g
      | Read_eof \<Rightarrow> g
      | Read_failed \<Rightarrow> g)"

subsection \<open>The terminator\<close>

datatype unix_signal = SIGTERM | SIGKILL

datatype waited = W_error | W_running | W_collected

record 's posix =
  sys_wait_nohang :: "nat \<Rightarrow> 's \<Rightarrow> waited \<times> 's"
  sys_wait :: "nat \<Rightarrow> 's \<Rightarrow> (bool \<times> 's) option"
  sys_kill :: "nat \<Rightarrow> unix_signal \<Rightarrow> 's \<Rightarrow> bool \<times> 's"

datatype wake = Kill_timer | Gc_timer

record terminator =
  pt_pid :: nat
  pt_kill :: "32 word"
  pt_gc :: "32 word"
  pt_shared :: bool
  pt_timer :: "(wake \<times> 32 word) option"
  pt_fetcher :: fetcher

type_synonym sent = "(nat \<times> unix_signal) list"

definition new_terminator :: "nat \<Rightarrow> u64 \<Rightarrow> bool \<Rightarrow> fetcher \<Rightarrow> terminator" where
  "new_terminator pid kill_timeout shared f =
     \<lparr>pt_pid = pid, pt_kill = ucast kill_timeout, pt_gc = 5, pt_shared = shared, pt_timer = None, pt_fetcher = f\<rparr>"

definition wait_later :: "wake \<Rightarrow> 32 word \<Rightarrow> terminator \<Rightarrow> terminator option" where
  "wait_later w delay t = (if pt_shared t then Some (t\<lparr>pt_timer := Some (w, delay)\<rparr>) else None)"

definition pt_cancel :: "'s posix \<Rightarrow> terminator \<Rightarrow> 's \<Rightarrow> (terminator \<times> sent \<times> 's) option" where
  "pt_cancel k t s =
     (case sys_wait_nohang k (pt_pid t) s of
        (W_error, s1) \<Rightarrow> Some (t, [], s1)
      | (W_running, s1) \<Rightarrow>
          (let s2 = snd (sys_kill k (pt_pid t) SIGTERM s1) in
           map_option (\<lambda>t'. (t', [(pt_pid t, SIGTERM)], s2)) (wait_later Kill_timer (pt_kill t) t))
      | (W_collected, s1) \<Rightarrow> Some (t\<lparr>pt_pid := 0\<rparr>, [], s1))"

definition on_kill_timer :: "'s posix \<Rightarrow> bool \<Rightarrow> terminator \<Rightarrow> 's \<Rightarrow> (terminator \<times> sent \<times> 's) option" where
  "on_kill_timer k aborted t s =
     (if aborted then Some (t, [], s) else
      case sys_wait_nohang k (pt_pid t) s of
        (W_error, s1) \<Rightarrow> Some (t, [], s1)
      | (W_running, s1) \<Rightarrow>
          (let s2 = snd (sys_kill k (pt_pid t) SIGKILL s1) in
           map_option (\<lambda>t'. (t', [(pt_pid t, SIGKILL)], s2)) (wait_later Gc_timer (pt_gc t) t))
      | (W_collected, s1) \<Rightarrow> Some (t\<lparr>pt_pid := 0\<rparr>, [], s1))"

definition on_gc_action :: "'s posix \<Rightarrow> bool \<Rightarrow> terminator \<Rightarrow> 's \<Rightarrow> (terminator \<times> sent \<times> 's) option" where
  "on_gc_action k aborted t s =
     (if aborted then Some (t, [], s) else
      case sys_wait_nohang k (pt_pid t) s of
        (W_error, s1) \<Rightarrow> Some (t, [], s1)
      | (W_running, s1) \<Rightarrow> map_option (\<lambda>t'. (t', [], s1)) (wait_later Gc_timer (pt_gc t) t)
      | (W_collected, s1) \<Rightarrow> Some (t\<lparr>pt_pid := 0\<rparr>, [], s1))"

text \<open>The destructor; \<open>None\<close> when the blocking wait does not return.\<close>

definition pt_destroy :: "'s posix \<Rightarrow> terminator \<Rightarrow> 's \<Rightarrow> (terminator \<times> sent \<times> 's) option" where
  "pt_destroy k t s =
     (let closed = t\<lparr>pt_fetcher := close_fetcher (pt_fetcher t)\<rparr> in
      if pt_pid t = 0 then Some (closed, [], s) else
      case sys_wait_nohang k (pt_pid t) s of
        (W_error, s1) \<Rightarrow> Some (closed, [], s1)
      | (W_running, s1) \<Rightarrow>
          (case sys_kill k (pt_pid t) SIGKILL s1 of
             (True, s2) \<Rightarrow>
               map_option (\<lambda>(collected, s3). (closed, [(pt_pid t, SIGKILL)], s3)) (sys_wait k (pt_pid t) s2)
           | (False, s2) \<Rightarrow> Some (closed, [(pt_pid t, SIGKILL)], s2))
      | (W_collected, s1) \<Rightarrow> Some (closed, [], s1))"

subsection \<open>Unpacking of the application\<close>

record fs_ops =
  fs_absolute :: "string \<Rightarrow> bool"
  fs_append :: "string \<Rightarrow> string \<Rightarrow> string"




datatype process_error =
    Archive_error
  | Storage_error
  | Filesystem_error
  | Pipe_error
  | Fork_error
  | Assign_error
  | Cgroup_init_error
  | Cgroup_create_error
  | Bad_config dynamic_error






subsection \<open>Control groups\<close>

datatype cgroup_value = Cv_bool bool | Cv_int u64 | Cv_uint u64 | Cv_string string

datatype cgroup_call =
    Set_owner
  | Add_controller string
  | Add_value string string cgroup_value
  | Create_cgroup
  | Free_cgroup
  | Delete_cgroup

fun cgroup_configure :: "'d dynamic \<Rightarrow> cgroup_value option" where
  "cgroup_configure (D_bool b) = Some (Cv_bool b)"
| "cgroup_configure (D_int i) = Some (Cv_int i)"
| "cgroup_configure (D_uint u) = Some (Cv_uint u)"
| "cgroup_configure (D_string s) = Some (Cv_string s)"
| "cgroup_configure _ = None"

fun cgroup_parameters :: "string \<Rightarrow> (string \<times> 'd dynamic) list \<Rightarrow> cgroup_call list" where
  "cgroup_parameters ctl [] = []"
| "cgroup_parameters ctl ((p, v) # ps) =
     (case cgroup_configure v of
        None \<Rightarrow> cgroup_parameters ctl ps
      | Some c \<Rightarrow> Add_value ctl p c # cgroup_parameters ctl ps)"

fun cgroup_controllers :: "(string \<times> 'd dynamic) list \<Rightarrow> cgroup_call list" where
  "cgroup_controllers [] = []"
| "cgroup_controllers ((name, v) # ts) =
     (case v of
        D_object ps \<Rightarrow>
          (if ps = [] then cgroup_controllers ts
           else Add_controller name # cgroup_parameters name ps @ cgroup_controllers ts)
      | _ \<Rightarrow> cgroup_controllers ts)"

definition init_cgroups ::
  "bool \<Rightarrow> bool \<Rightarrow> (string \<times> 'd dynamic) list \<Rightarrow> cgroup_call list \<times> (process_error, unit) result" where
  "init_cgroups init_ok create_ok args =
     (if \<not> init_ok then ([], Inl Cgroup_init_error) else
      let calls = Set_owner # cgroup_controllers args @ [Create_cgroup] in
      if create_ok then (calls, Inr ()) else (calls @ [Free_cgroup], Inl Cgroup_create_error))"

definition destroy_cgroups :: "cgroup_call list" where
  "destroy_cgroups = [Delete_cgroup, Free_cgroup]"

subsection \<open>The isolate\<close>

record process =
  pr_name :: string
  pr_dir :: string
  pr_kill_timeout :: u64

definition new_process ::
  "fs_ops \<Rightarrow> bool \<Rightarrow> bool \<Rightarrow> string \<Rightarrow> 'd dynamic \<Rightarrow> cgroup_call list \<times> (process_error, process) result" where
  "new_process fs init_ok create_ok name args =
     (case lift_error Bad_config (bindE (as_object args) (\<lambda>m.
        bindE (as_string (at_default m ''spool'' (D_string ''/var/spool/cocaine''))) (\<lambda>dir.
        bindE (as_uint (at_default m ''kill_timeout'' (D_uint 5))) (\<lambda>timeout.
        Inr (m, \<lparr>pr_name = name, pr_dir = fs_append fs dir name, pr_kill_timeout = timeout\<rparr>))))) of
        Inl e \<Rightarrow> ([], Inl e)
      | Inr (m, pr) \<Rightarrow>
          (case init_cgroups init_ok create_ok m of
             (cs, Inl e) \<Rightarrow> (cs, Inl e)
           | (cs, Inr _) \<Rightarrow> (cs, Inr pr)))"

record 'h host =
  ho_fds :: "int list"
  ho_children :: "nat list"
  ho_ready :: "'h list"


text \<open>The side of the node. What \<^verbatim>\<open>pipe\<close>, \<^verbatim>\<open>fork\<close> and the assignment of the descriptor give is \<open>spawn_env\<close>.\<close>

record spawn_env =
  se_pipe :: "(int \<times> int) option"
  se_fork :: "nat option"
  se_assign :: bool

definition process_spawn ::
  "process \<Rightarrow> spawn_env \<Rightarrow> 'h \<Rightarrow> 'h host \<Rightarrow> (process_error, terminator) result \<times> 'h host" where
  "process_spawn pr env h ho =
     (case se_pipe env of
        None \<Rightarrow> (Inl Pipe_error, ho)
      | Some (rd, wr) \<Rightarrow>
          (let piped = ho\<lparr>ho_fds := ho_fds ho @ [rd, wr]\<rparr> in
           case se_fork env of
             None \<Rightarrow> (Inl Fork_error, piped\<lparr>ho_fds := remove1 wr (remove1 rd (ho_fds piped))\<rparr>)
           | Some pid \<Rightarrow>
               (let forked = piped\<lparr>ho_fds := remove1 wr (ho_fds piped), ho_children := ho_children ho @ [pid],
                                   ho_ready := ho_ready ho @ [h]\<rparr> in
                case assign_fd (se_assign env) rd new_fetcher of
                  None \<Rightarrow> (Inl Assign_error, forked)
                | Some f \<Rightarrow> (Inr (new_terminator pid (pr_kill_timeout pr) False f), forked))))"

text \<open>The side of the child: what it executes, or its exit.\<close>

datatype child_end = Exec string "string list" "string list" | Exit_failure

record child_env =
  ce_fd_dir :: "string list option"
  ce_cgroup :: bool
  ce_chdir :: bool
  ce_environ :: "string list"
  ce_exec :: bool

fun closefrom_dir :: "(string \<Rightarrow> int option) \<Rightarrow> string list \<Rightarrow> int list" where
  "closefrom_dir cast [] = []"
| "closefrom_dir cast (n # ns) =
     (case cast n of
        None \<Rightarrow> closefrom_dir cast ns
      | Some fd \<Rightarrow> if fd < 3 then closefrom_dir cast ns else fd # closefrom_dir cast ns)"

definition close_all :: "(string \<Rightarrow> int option) \<Rightarrow> child_env \<Rightarrow> int list" where
  "close_all cast ce = (case ce_fd_dir ce of None \<Rightarrow> [] | Some ns \<Rightarrow> closefrom_dir cast ns)"

definition env_entry :: "string \<times> string \<Rightarrow> string" where
  "env_entry kv = fst kv @ ''='' @ snd kv"

definition process_child ::
  "fs_ops \<Rightarrow> (string \<Rightarrow> int option) \<Rightarrow> process \<Rightarrow> child_env \<Rightarrow> string \<Rightarrow> (string \<times> string) list \<Rightarrow>
   (string \<times> string) list \<Rightarrow> int list \<times> child_end" where
  "process_child fs cast pr ce path args environment =
     (close_all cast ce,
      if \<not> ce_cgroup ce then Exit_failure
      else if \<not> ce_chdir ce then Exit_failure
      else
        let target = (if fs_absolute fs path then path else fs_append fs (pr_dir pr) path);
            argv = target # concat (map (\<lambda>(k, v). [k, v]) args);
            envp = ce_environ ce @ map env_entry environment in
        if ce_exec ce then Exec target argv envp else Exit_failure)"

definition process_metrics :: "string list \<Rightarrow> (string \<times> 'd dynamic) list" where
  "process_metrics query = []"

subsection \<open>What the code relies on\<close>

datatype proc = Running | Doomed | Zombie | Absent

text \<open>
  A view gives the state of every process: running, running with a \<open>SIGKILL\<close> on its
  way, ended but not collected, or collected. Between two calls a process
  may end by itself, so that every call may find it ended. A blocking wait for a process
  that has ended or is going to returns; it may be interrupted by a signal.
\<close>

definition posix_laws :: "'s posix \<Rightarrow> ('s \<Rightarrow> nat \<Rightarrow> proc) \<Rightarrow> bool" where
  "posix_laws k view \<longleftrightarrow>
     (\<forall>p s r s'. 0 < p \<longrightarrow> sys_wait_nohang k p s = (r, s') \<longrightarrow>
        (case view s p of
           Absent \<Rightarrow> r = W_error \<and> view s' = view s
         | Zombie \<Rightarrow> r = W_collected \<and> view s' = (view s)(p := Absent)
         | _ \<Rightarrow> r = W_running \<and> view s' = view s \<or> r = W_collected \<and> view s' = (view s)(p := Absent))) \<and>
     (\<forall>p sig s b s'. 0 < p \<longrightarrow> sys_kill k p sig s = (b, s') \<longrightarrow>
        (if \<not> b then view s' = view s
         else view s p \<noteq> Absent \<and>
           (view s' = (view s)(p := Zombie) \<or> view s' = (view s)(p := Doomed) \<and> view s p \<noteq> Zombie \<or>
            sig = SIGTERM \<and> view s' = view s))) \<and>
     (\<forall>p s. 0 < p \<longrightarrow>
        (case view s p of
           Absent \<Rightarrow> \<exists>s'. sys_wait k p s = Some (False, s') \<and> view s' = view s
         | Running \<Rightarrow> True
         | _ \<Rightarrow> \<exists>b s'. sys_wait k p s = Some (b, s') \<and> (if b then view s' = (view s)(p := Absent) else view s' = view s)))"

text \<open>A table of processes that obeys the laws: \<open>SIGTERM\<close> is ignored and \<open>SIGKILL\<close> takes effect at the wait.\<close>

type_synonym table = "(nat \<times> proc) list"

definition table_view :: "table \<Rightarrow> nat \<Rightarrow> proc" where
  "table_view tb p = (case map_of tb p of None \<Rightarrow> Absent | Some x \<Rightarrow> x)"

definition table_posix :: "table posix" where
  "table_posix =
     \<lparr>sys_wait_nohang = (\<lambda>p tb. case table_view tb p of
          Absent \<Rightarrow> (if p = 0 \<and> list_ex (\<lambda>(q, x). x = Running) tb then (W_running, tb) else (W_error, tb))
        | Zombie \<Rightarrow> (W_collected, (p, Absent) # tb)
        | _ \<Rightarrow> (W_running, tb)),
      sys_wait = (\<lambda>p tb. case table_view tb p of
          Absent \<Rightarrow> Some (False, tb)
        | Running \<Rightarrow> None
        | _ \<Rightarrow> Some (True, (p, Absent) # tb)),
      sys_kill = (\<lambda>p sig tb. case table_view tb p of
          Absent \<Rightarrow> (p = 0, tb)
        | Zombie \<Rightarrow> (True, (p, Zombie) # tb)
        | _ \<Rightarrow> (True, if sig = SIGKILL then (p, Doomed) # tb else tb))\<rparr>"

section \<open>Collecting the worker\<close>

lemma posix_nohang:
  assumes "posix_laws k view" and "0 < p" and "sys_wait_nohang k p s = (r, s')"
  shows "(r = W_error \<and> view s p = Absent \<and> view s' = view s) \<or>
     (r = W_running \<and> view s p \<in> {Running, Doomed} \<and> view s' = view s) \<or>
     (r = W_collected \<and> view s p \<noteq> Absent \<and> view s' = (view s)(p := Absent))"
proof -
  have "case view s p of
           Absent \<Rightarrow> r = W_error \<and> view s' = view s
         | Zombie \<Rightarrow> r = W_collected \<and> view s' = (view s)(p := Absent)
         | _ \<Rightarrow> r = W_running \<and> view s' = view s \<or> r = W_collected \<and> view s' = (view s)(p := Absent)"
    using assms unfolding posix_laws_def by blast
  then show ?thesis by (cases "view s p") auto
qed

lemma posix_kill:
  assumes "posix_laws k view" and "0 < p" and "sys_kill k p sig s = (b, s')"
  shows "if b then view s p \<noteq> Absent \<and>
           (view s' = (view s)(p := Zombie) \<or> view s' = (view s)(p := Doomed) \<and> view s p \<noteq> Zombie \<or>
            sig = SIGTERM \<and> view s' = view s)
         else view s' = view s"
  using assms unfolding posix_laws_def by presburger

lemma posix_wait:
  assumes "posix_laws k view" and "0 < p" and "view s p \<in> {Doomed, Zombie}"
  shows "\<exists>b s'. sys_wait k p s = Some (b, s') \<and> (if b then view s' = (view s)(p := Absent) else view s' = view s)"
proof -
  have "case view s p of
           Absent \<Rightarrow> \<exists>s'. sys_wait k p s = Some (False, s') \<and> view s' = view s
         | Running \<Rightarrow> True
         | _ \<Rightarrow> \<exists>b s'. sys_wait k p s = Some (b, s') \<and> (if b then view s' = (view s)(p := Absent) else view s' = view s)"
    using assms(1,2) unfolding posix_laws_def by blast
  then show ?thesis using assms(3) by (cases "view s p") auto
qed

lemma table_posix_laws: "posix_laws table_posix table_view"
proof -
  have upd: "table_view ((p, x) # tb) = (table_view tb)(p := x)" for p x tb
    by (rule ext) (simp add: table_view_def)
  have sig: "sig \<noteq> SIGTERM \<longleftrightarrow> sig = SIGKILL" for sig by (cases sig) auto
  show ?thesis
    by (auto simp: posix_laws_def table_posix_def upd sig split: proc.splits if_splits)
qed

lemma close_fetcher_closed: "ft_open (close_fetcher f) = None"
  by (simp add: close_fetcher_def)

text \<open>
  C26:
  For every system that keeps the laws, destroying a terminator returns: it never blocks
  on a worker that was not sent \<open>SIGKILL\<close>. The output is closed, no other process is
  touched or signalled, and nothing at all happens if the worker was collected before.
  Otherwise the worker is collected now, with two exceptions, both of which the code
  only logs: the system refused the \<open>SIGKILL\<close> this call sent to the running worker, or a
  signal interrupted the blocking wait that followed it.
\<close>

theorem process_reaped:
  assumes "posix_laws k view"
  shows "\<exists>t' sg s'. pt_destroy k t s = Some (t', sg, s') \<and>
     ft_open (pt_fetcher t') = None \<and>
     set sg \<subseteq> {(pt_pid t, SIGKILL)} \<and>
     (\<forall>q. q \<noteq> pt_pid t \<longrightarrow> view s' q = view s q) \<and>
     (pt_pid t = 0 \<longrightarrow> s' = s \<and> sg = []) \<and>
     (pt_pid t \<noteq> 0 \<longrightarrow> view s' (pt_pid t) = Absent \<or>
        sg = [(pt_pid t, SIGKILL)] \<and>
        (\<exists>s1 b s2. sys_wait_nohang k (pt_pid t) s = (W_running, s1) \<and> sys_kill k (pt_pid t) SIGKILL s1 = (b, s2) \<and>
           (if b then sys_wait k (pt_pid t) s2 = Some (False, s') else s' = s2)))"
proof (cases "pt_pid t = 0")
  case True
  then show ?thesis by (simp add: pt_destroy_def close_fetcher_closed)
next
  case False
  then have p: "0 < pt_pid t" by simp
  obtain r s1 where w: "sys_wait_nohang k (pt_pid t) s = (r, s1)" by (metis surj_pair)
  obtain b s2 where kl: "sys_kill k (pt_pid t) SIGKILL s1 = (b, s2)" by (metis surj_pair)
  note nh = posix_nohang [OF assms p w] and kp = posix_kill [OF assms p kl]
  show ?thesis
  proof (cases r)
    case W_running
    show ?thesis
    proof (cases b)
      case True
      then have "view s2 (pt_pid t) \<in> {Doomed, Zombie}" and same: "\<forall>q. q \<noteq> pt_pid t \<longrightarrow> view s2 q = view s q"
        using nh kp W_running by auto
      from posix_wait [OF assms p this(1)] obtain c s3 where s3: "sys_wait k (pt_pid t) s2 = Some (c, s3)"
        "if c then view s3 = (view s2)(pt_pid t := Absent) else view s3 = view s2" by blast
      then have "pt_destroy k t s = Some (t\<lparr>pt_fetcher := close_fetcher (pt_fetcher t)\<rparr>, [(pt_pid t, SIGKILL)], s3)"
        using True False W_running w kl by (simp add: pt_destroy_def)
      then show ?thesis using s3 True False W_running w kl same by (cases c) (auto simp: close_fetcher_closed)
    next
      case refused: False
      then have "view s2 = view s" using W_running nh kp by simp
      then show ?thesis using W_running refused False w kl by (auto simp: pt_destroy_def close_fetcher_closed)
    qed
  qed (use nh False w in \<open>simp_all add: pt_destroy_def close_fetcher_closed\<close>)
qed

theorem process_reaped_witness:
  "\<exists>t' sg s'. pt_destroy table_posix (new_terminator 7 5 False new_fetcher) [(7, Running)] = Some (t', sg, s') \<and>
     sg = [(7, SIGKILL)] \<and> table_view s' 7 = Absent"
proof -
  let ?t = "new_terminator 7 5 False new_fetcher"
  from process_reaped [OF table_posix_laws, of ?t "[(7, Running)]"]
  obtain t' sg s' where d: "pt_destroy table_posix ?t [(7, Running)] = Some (t', sg, s')" by blast
  have "pt_destroy table_posix ?t [(7, Running)] = Some (?t, [(7, SIGKILL)], [(7, Absent), (7, Doomed), (7, Running)])"
    by code_simp
  then show ?thesis using d by (simp add: table_view_def)
qed

section \<open>Cancellation\<close>

text \<open>
  The life a terminator would have after its cancellation, were it owned by a shared pointer:
  the signals sent so far, and the state of the system. A worker may end between
  two handlers, and once it is collected its number may be given to another process.
\<close>

inductive pt_reach :: "'s posix \<Rightarrow> ('s \<Rightarrow> nat \<Rightarrow> proc) \<Rightarrow> terminator \<Rightarrow> terminator \<Rightarrow> sent \<Rightarrow> 's \<Rightarrow> bool"
  for k :: "'s posix" and view :: "'s \<Rightarrow> nat \<Rightarrow> proc" and t0 :: terminator where
  cancelled: "view s (pt_pid t0) \<noteq> Absent \<Longrightarrow> pt_cancel k t0 s = Some (t, sg, s') \<Longrightarrow> pt_reach k view t0 t sg s'"
| elsewhere: "pt_reach k view t0 t sg s \<Longrightarrow>
     view s (pt_pid t0) = Absent \<or> view s' (pt_pid t0) = view s (pt_pid t0) \<or> view s' (pt_pid t0) = Zombie \<Longrightarrow>
     pt_reach k view t0 t sg s'"
| kill_timer: "pt_reach k view t0 t sg s \<Longrightarrow> pt_timer t = Some (Kill_timer, d) \<Longrightarrow>
     on_kill_timer k False (t\<lparr>pt_timer := None\<rparr>) s = Some (t', sg', s') \<Longrightarrow> pt_reach k view t0 t' (sg @ sg') s'"
| gc_timer: "pt_reach k view t0 t sg s \<Longrightarrow> pt_timer t = Some (Gc_timer, d) \<Longrightarrow>
     on_gc_action k False (t\<lparr>pt_timer := None\<rparr>) s = Some (t', sg', s') \<Longrightarrow> pt_reach k view t0 t' (sg @ sg') s'"

definition pt_waiting :: "terminator \<Rightarrow> terminator \<Rightarrow> sent \<Rightarrow> bool" where
  "pt_waiting t0 t sg \<longleftrightarrow>
     pt_pid t = pt_pid t0 \<and>
     (pt_timer t = Some (Kill_timer, pt_kill t0) \<and> sg = [(pt_pid t0, SIGTERM)] \<or>
      pt_timer t = Some (Gc_timer, pt_gc t0) \<and> sg = [(pt_pid t0, SIGTERM), (pt_pid t0, SIGKILL)])"

definition pt_done :: "terminator \<Rightarrow> terminator \<Rightarrow> sent \<Rightarrow> bool" where
  "pt_done t0 t sg \<longleftrightarrow> pt_pid t = 0 \<and> pt_timer t = None \<and> prefix sg [(pt_pid t0, SIGTERM), (pt_pid t0, SIGKILL)]"

definition pt_same :: "terminator \<Rightarrow> terminator \<Rightarrow> bool" where
  "pt_same t0 t \<longleftrightarrow> pt_shared t \<and> pt_kill t = pt_kill t0 \<and> pt_gc t = pt_gc t0"

lemma posix_kill_present:
  assumes "posix_laws k view" and "0 < p" and "view s p \<noteq> Absent"
  shows "view (snd (sys_kill k p sig s)) p \<noteq> Absent"
proof -
  obtain b s' where kl: "sys_kill k p sig s = (b, s')" by (metis surj_pair)
  then show ?thesis using posix_kill [OF assms(1,2) kl] assms(3) by (auto split: if_splits)
qed

lemma pt_reach_inv:
  assumes "posix_laws k view" and "0 < pt_pid t0" and "pt_shared t0" and "pt_timer t0 = None"
    and "pt_reach k view t0 t sg s"
  shows "pt_same t0 t \<and> (pt_done t0 t sg \<or> pt_waiting t0 t sg \<and> view s (pt_pid t0) \<noteq> Absent)"
  using assms(5)
proof (induction rule: pt_reach.induct)
  case (cancelled s t sg s')
  obtain r s1 where w: "sys_wait_nohang k (pt_pid t0) s = (r, s1)" by (metis surj_pair)
  show ?case
    using cancelled posix_nohang [OF assms(1,2) w] w assms(3,4) posix_kill_present [OF assms(1,2), of s1 SIGTERM]
    by (cases r) (auto simp: pt_cancel_def wait_later_def pt_same_def pt_done_def pt_waiting_def Let_def)
next
  case (elsewhere t sg s s')
  then show ?case by auto
next
  case (kill_timer t sg s d t' sg' s')
  then have t: "pt_pid t = pt_pid t0" "sg = [(pt_pid t0, SIGTERM)]" "pt_shared t" "pt_kill t = pt_kill t0" "pt_gc t = pt_gc t0"
      "view s (pt_pid t0) \<noteq> Absent"
    by (auto simp: pt_done_def pt_waiting_def pt_same_def)
  obtain r s1 where w: "sys_wait_nohang k (pt_pid t0) s = (r, s1)" by (metis surj_pair)
  show ?case
    using kill_timer(3) posix_nohang [OF assms(1,2) w] w t posix_kill_present [OF assms(1,2), of s1 SIGKILL]
    by (cases r) (auto simp: on_kill_timer_def wait_later_def pt_same_def pt_done_def pt_waiting_def Let_def)
next
  case (gc_timer t sg s d t' sg' s')
  then have t: "pt_pid t = pt_pid t0" "sg = [(pt_pid t0, SIGTERM), (pt_pid t0, SIGKILL)]" "pt_shared t" "pt_kill t = pt_kill t0"
      "pt_gc t = pt_gc t0" "view s (pt_pid t0) \<noteq> Absent"
    by (auto simp: pt_done_def pt_waiting_def pt_same_def)
  obtain r s1 where w: "sys_wait_nohang k (pt_pid t0) s = (r, s1)" by (metis surj_pair)
  show ?case
    using gc_timer(3) posix_nohang [OF assms(1,2) w] w t
    by (cases r) (auto simp: on_gc_action_def wait_later_def pt_same_def pt_done_def pt_waiting_def)
qed

lemma pt_timer_total:
  assumes "pt_shared t"
  shows "\<exists>t' sg s'. on_kill_timer k False t s = Some (t', sg, s')"
    and "\<exists>t' sg s'. on_gc_action k False t s = Some (t', sg, s')"
  using assms
  by (auto simp: on_kill_timer_def on_gc_action_def wait_later_def Let_def split: prod.splits waited.splits)

definition pt_fire :: "'s posix \<Rightarrow> terminator \<Rightarrow> 's \<Rightarrow> (terminator \<times> sent \<times> 's) option" where
  "pt_fire k t s =
     (case pt_timer t of
        None \<Rightarrow> None
      | Some (Kill_timer, _) \<Rightarrow> on_kill_timer k False (t\<lparr>pt_timer := None\<rparr>) s
      | Some (Gc_timer, _) \<Rightarrow> on_gc_action k False (t\<lparr>pt_timer := None\<rparr>) s)"

text \<open>
  The handlers of the timers, were the terminator owned by a shared pointer, which the one
  that \<^verbatim>\<open>spawn\<close> returns is not. After the cancellation of a worker that was not collected:
  the worker is sent \<open>SIGTERM\<close>, and \<open>SIGKILL\<close> only after the
  configured time; nothing is sent once it was collected, even if another process gets
  its number. Until it is collected a timer is running whose handler does not fail,
  and the first timer after the end of the worker collects it.
\<close>

theorem process_escalation:
  assumes "posix_laws k view" and "0 < pt_pid t0" and "pt_shared t0" and "pt_timer t0 = None"
    and "pt_reach k view t0 t sg s"
  shows "prefix sg [(pt_pid t0, SIGTERM), (pt_pid t0, SIGKILL)] \<and>
     (pt_pid t = 0 \<and> pt_timer t = None \<or>
      pt_pid t = pt_pid t0 \<and> view s (pt_pid t0) \<noteq> Absent \<and>
      pt_timer t = Some (if length sg = 1 then (Kill_timer, pt_kill t0) else (Gc_timer, pt_gc t0)) \<and>
      (\<exists>t' sg' s'. pt_fire k t s = Some (t', sg', s') \<and>
         (view s (pt_pid t0) = Zombie \<longrightarrow> pt_pid t' = 0 \<and> sg' = [] \<and> view s' (pt_pid t0) = Absent)))"
proof -
  note inv = pt_reach_inv [OF assms]
  show ?thesis
  proof (cases "pt_done t0 t sg")
    case True
    then show ?thesis by (simp add: pt_done_def)
  next
    case False
    then have w: "pt_waiting t0 t sg" "view s (pt_pid t0) \<noteq> Absent" "pt_shared t" using inv by (auto simp: pt_same_def)
    then obtain t' sg' s' where f: "pt_fire k t s = Some (t', sg', s')"
      using pt_timer_total [of "t\<lparr>pt_timer := None\<rparr>" k s] by (auto simp: pt_waiting_def pt_fire_def)
    obtain r s1 where h: "sys_wait_nohang k (pt_pid t0) s = (r, s1)" by (metis surj_pair)
    have "view s (pt_pid t0) = Zombie \<longrightarrow> pt_pid t' = 0 \<and> sg' = [] \<and> view s' (pt_pid t0) = Absent"
      using posix_nohang [OF assms(1,2) h] h f w(1)
      by (auto simp: pt_fire_def pt_waiting_def on_kill_timer_def on_gc_action_def)
    then show ?thesis using w f by (auto simp: pt_waiting_def)
  qed
qed

theorem process_escalation_witness:
  "\<exists>t sg s. pt_reach table_posix table_view (new_terminator 7 3 True new_fetcher) t sg s \<and>
     sg = [(7, SIGTERM), (7, SIGKILL)] \<and> table_view s 7 = Zombie \<and>
     (\<exists>t' sg' s'. pt_fire table_posix t s = Some (t', sg', s') \<and> pt_pid t' = 0 \<and> table_view s' 7 = Absent)"
proof -
  let ?t = "new_terminator 7 3 True new_fetcher"
  let ?t1 = "?t\<lparr>pt_timer := Some (Kill_timer, 3)\<rparr>" and ?t2 = "?t\<lparr>pt_timer := Some (Gc_timer, 5)\<rparr>"
  have "pt_reach table_posix table_view ?t ?t1 [(7, SIGTERM)] [(7, Running)]"
    by (rule pt_reach.cancelled [of _ "[(7, Running)]"]) code_simp+
  from pt_reach.kill_timer [OF this, of 3 ?t2 "[(7, SIGKILL)]" "[(7, Doomed), (7, Running)]"]
  have "pt_reach table_posix table_view ?t ?t2 [(7, SIGTERM), (7, SIGKILL)] [(7, Doomed), (7, Running)]"
    by (simp add: table_posix_def table_view_def on_kill_timer_def wait_later_def new_terminator_def)
  then have r: "pt_reach table_posix table_view ?t ?t2 [(7, SIGTERM), (7, SIGKILL)] [(7, Zombie)]"
    by (rule pt_reach.elsewhere) (simp add: table_view_def new_terminator_def)
  have "0 < pt_pid ?t" "pt_shared ?t" "pt_timer ?t = None" "pt_pid ?t = 7" "pt_pid ?t2 = 7" "table_view [(7, Zombie)] 7 = Zombie"
    by (simp_all add: new_terminator_def table_view_def)
  with process_escalation [OF table_posix_laws _ _ _ r] obtain t' sg' s' where
    "pt_fire table_posix ?t2 [(7, Zombie)] = Some (t', sg', s')" "pt_pid t' = 0" "table_view s' 7 = Absent" by auto
  then show ?thesis using r \<open>table_view [(7, Zombie)] 7 = Zombie\<close> by blast
qed

section \<open>Spawning and unpacking\<close>

text \<open>
  A failed \<^verbatim>\<open>pipe\<close> or \<^verbatim>\<open>fork\<close> leaves no descriptor, child or callback behind. Otherwise the
  child exists and the handle is going to be told that it is ready; of the pipe only the
  reading end stays open. With a successful assignment it is the descriptor of
  the fetcher, which waits for one read, and a terminator owns child and fetcher.
\<close>

theorem process_spawn_resources:
  assumes "\<forall>rd wr. se_pipe env = Some (rd, wr) \<longrightarrow> rd \<noteq> wr \<and> rd \<notin> set (ho_fds ho) \<and> wr \<notin> set (ho_fds ho)"
  shows "case process_spawn pr env h ho of
     (Inl e, ho') \<Rightarrow>
       (if e = Assign_error
        then \<exists>rd wr pid. se_pipe env = Some (rd, wr) \<and> se_fork env = Some pid \<and> \<not> se_assign env \<and>
          ho_fds ho' = ho_fds ho @ [rd] \<and> ho_children ho' = ho_children ho @ [pid] \<and> ho_ready ho' = ho_ready ho @ [h]
        else ho' = ho)
   | (Inr t, ho') \<Rightarrow>
       \<exists>rd wr. se_pipe env = Some (rd, wr) \<and> se_fork env = Some (pt_pid t) \<and>
         ho_fds ho' = ho_fds ho @ [rd] \<and> ho_children ho' = ho_children ho @ [pt_pid t] \<and> ho_ready ho' = ho_ready ho @ [h] \<and>
         ft_open (pt_fetcher t) = Some rd \<and> ft_pending (pt_fetcher t) = 1 \<and> ft_data (pt_fetcher t) = []"
  using assms
  by (auto simp: process_spawn_def assign_fd_def new_fetcher_def watch_def new_terminator_def Let_def remove1_append
      split: option.splits)

theorem process_spawn_resources_witness:
  "case process_spawn \<lparr>pr_name = ''app'', pr_dir = ''/app'', pr_kill_timeout = 5\<rparr>
       \<lparr>se_pipe = Some (3, 4), se_fork = Some 7, se_assign = True\<rparr> (0::nat) \<lparr>ho_fds = [0, 1, 2], ho_children = [], ho_ready = []\<rparr> of
     (Inl e, ho') \<Rightarrow> False
   | (Inr t, ho') \<Rightarrow> pt_pid t = 7 \<and> ft_open (pt_fetcher t) = Some 3 \<and> ho_fds ho' = [0, 1, 2, 3]"
proof -
  let ?pr = "\<lparr>pr_name = ''app'', pr_dir = ''/app'', pr_kill_timeout = 5\<rparr>"
    and ?env = "\<lparr>se_pipe = Some (3, 4), se_fork = Some 7, se_assign = True\<rparr>"
    and ?ho = "\<lparr>ho_fds = [0, 1, 2], ho_children = [], ho_ready = []\<rparr> :: nat host"
  have "\<forall>rd wr. se_pipe ?env = Some (rd, wr) \<longrightarrow> rd \<noteq> wr \<and> rd \<notin> set (ho_fds ?ho) \<and> wr \<notin> set (ho_fds ?ho)" by simp
  from process_spawn_resources [OF this, where pr = ?pr and h = "0::nat"] show ?thesis
    by (simp add: process_spawn_def assign_fd_def new_fetcher_def new_terminator_def watch_def)
qed











section \<open>The output of the worker\<close>

text \<open>Reads complete one after the other, as long as one is pending.\<close>

fun fetch :: "read_result list \<Rightarrow> fetcher \<Rightarrow> fetcher" where
  "fetch [] f = f"
| "fetch (r # rs) f = (if ft_pending f = 0 then f else fetch rs (on_read r f))"

fun until_end :: "read_result list \<Rightarrow> string list" where
  "until_end (Read_ok s # rs) = s # until_end rs"
| "until_end _ = []"

lemma fetch_idle: "ft_pending f = 0 \<Longrightarrow> fetch rs f = f"
  by (cases rs) auto

lemma fetch_spec:
  "ft_pending f = 1 \<Longrightarrow>
     ft_data (fetch rs f) = ft_data f @ until_end rs \<and>
     ft_pending (fetch rs f) = (if list_all (\<lambda>r. \<exists>s. r = Read_ok s) rs then 1 else 0)"
proof (induction rs arbitrary: f)
  case (Cons r rs)
  show ?case
  proof (cases r)
    case (Read_ok s)
    with Cons.prems have "ft_pending (on_read r f) = 1" "ft_data (on_read r f) = ft_data f @ [s]"
      by (simp_all add: on_read_def watch_def Let_def)
    with Cons Read_ok show ?thesis by simp
  qed (use Cons.prems in \<open>simp_all add: on_read_def fetch_idle\<close>)
qed simp

text \<open>
  C38:
  However the reads of the pipe cut the output of a worker, the fetcher of a spawned
  worker has at most one read pending, stops at the first one that does not give data,
  and the crash log of the slave then holds the last \<open>n\<close> complete lines of all that was
  read until then, with the unfinished line in the splitter.
\<close>

theorem worker_output:
  "case process_spawn pr \<lparr>se_pipe = Some (rd, wr), se_fork = Some pid, se_assign = True\<rparr> h ho of
     (Inl e, ho') \<Rightarrow> False
   | (Inr t, ho') \<Rightarrow>
       ft_pending (fetch rs (pt_fetcher t)) = (if list_all (\<lambda>r. \<exists>s. r = Read_ok s) rs then 1 else 0) \<and>
       (\<exists>ls rest. foldl (\<lambda>sl x. slave_output n x sl) (new_splitter, []) (ft_data (fetch rs (pt_fetcher t))) =
            (new_splitter\<lparr>sp_unparsed := rest\<rparr>, last_n n ls) \<and>
          concat (map (\<lambda>l. l @ [CHR 0x0A]) ls) @ rest = concat (until_end rs) \<and>
          CHR 0x0A \<notin> set rest \<and> list_all (\<lambda>l. CHR 0x0A \<notin> set l) ls)"
proof -
  let ?f = "\<lparr>ft_open = Some rd, ft_pending = 1, ft_data = []\<rparr>" and ?xs = "until_end rs"
  have "\<exists>ls rest. foldl (\<lambda>sl x. slave_output n x sl) (new_splitter, []) ?xs =
         (new_splitter\<lparr>sp_unparsed := rest\<rparr>, last_n n ls) \<and>
       concat (map (\<lambda>l. l @ [CHR 0x0A]) ls) @ rest = concat ?xs \<and>
       CHR 0x0A \<notin> set rest \<and> list_all (\<lambda>l. CHR 0x0A \<notin> set l) ls"
    using slave_output_chunks [of new_splitter n "[]" ?xs] split_lines_roundtrip [of "CHR 0x0A" "concat ?xs"]
      split_lines_no_sep [of "CHR 0x0A" "concat ?xs"]
    by (intro exI [of _ "fst (split_lines (CHR 0x0A) (concat ?xs))"] exI [of _ "snd (split_lines (CHR 0x0A) (concat ?xs))"])
      (simp add: new_splitter_def last_n_def list_all_iff)
  moreover obtain ho' where sp: "process_spawn pr \<lparr>se_pipe = Some (rd, wr), se_fork = Some pid, se_assign = True\<rparr> h ho =
      (Inr (new_terminator pid (pr_kill_timeout pr) False ?f), ho')"
    by (simp add: process_spawn_def assign_fd_def new_fetcher_def watch_def Let_def)
  ultimately show ?thesis
    using fetch_spec [of ?f rs] by (simp add: sp new_terminator_def)
qed

section \<open>Gaps\<close>

text \<open>The first definition of a variable, as \<^verbatim>\<open>getenv\<close> of the C library looks it up.\<close>

definition first_defined :: "string \<Rightarrow> string list \<Rightarrow> string option" where
  "first_defined k envp = map_option (drop (Suc (length k))) (find (\<lambda>e. take (Suc (length k)) e = k @ ''='') envp)"

definition plain_fs :: fs_ops where
  "plain_fs = \<lparr>fs_absolute = (\<lambda>p. take 1 p = ''/''), fs_append = (\<lambda>d p. d @ ''/'' @ p)\<rparr>"

text \<open>
  Four gaps of the process isolate. The terminator that \<^verbatim>\<open>spawn\<close> returns is owned by a unique pointer,
  so that its cancellation, while the worker is running, ends the node: there is no
  shared pointer to bind, and the exception leaves a \<open>noexcept\<close> function. Cancelling a
  terminator whose worker was collected asks for any child of the group, and sends
  \<open>SIGTERM\<close> to the whole group, if some other worker is running. A kill timeout of
  \<open>2 ^ 32\<close> seconds is one of zero. A variable of the node's own environment hides the
  one given for the worker.
\<close>

theorem process_gaps:
  "(case process_spawn pr env h ho of
      (Inr t, ho') \<Rightarrow> (case fst (sys_wait_nohang k (pt_pid t) s) of W_running \<Rightarrow> pt_cancel k t s = None | _ \<Rightarrow> True)
    | _ \<Rightarrow> True) \<and>
   (let t = new_terminator 7 3 True new_fetcher in
    \<exists>t'. pt_cancel table_posix t [(7, Zombie), (8, Running)] = Some (t', [], [(7, Absent), (7, Zombie), (8, Running)]) \<and>
      (\<exists>t'' s''. pt_cancel table_posix t' [(7, Absent), (8, Running)] = Some (t'', [(0, SIGTERM)], s''))) \<and>
   pt_kill (new_terminator 7 (2 ^ 32) True new_fetcher) = 0 \<and>
   (case snd (process_child plain_fs (\<lambda>s. None) \<lparr>pr_name = ''app'', pr_dir = ''/app'', pr_kill_timeout = 5\<rparr>
      \<lparr>ce_fd_dir = None, ce_cgroup = True, ce_chdir = True, ce_environ = [''HOME=/root''], ce_exec = True\<rparr>
      ''worker'' [] [(''HOME'', ''/app'')]) of
      Exec target argv envp \<Rightarrow> target = ''/app/worker'' \<and> first_defined ''HOME'' envp = Some ''/root''
    | Exit_failure \<Rightarrow> False)"
proof (intro conjI)
  show "case process_spawn pr env h ho of
      (Inr t, ho') \<Rightarrow> (case fst (sys_wait_nohang k (pt_pid t) s) of W_running \<Rightarrow> pt_cancel k t s = None | _ \<Rightarrow> True)
    | _ \<Rightarrow> True"
    by (auto simp: process_spawn_def pt_cancel_def wait_later_def new_terminator_def Let_def split: option.splits prod.splits waited.splits)
  have "pt_cancel table_posix (new_terminator 7 3 True new_fetcher) [(7, Zombie), (8, Running)] =
      Some (new_terminator 0 3 True new_fetcher, [], [(7, Absent), (7, Zombie), (8, Running)])" by code_simp
  moreover have "pt_cancel table_posix (new_terminator 0 3 True new_fetcher) [(7, Absent), (8, Running)] =
      Some (new_terminator 0 3 True new_fetcher\<lparr>pt_timer := Some (Kill_timer, 3)\<rparr>, [(0, SIGTERM)], [(7, Absent), (8, Running)])"
    by code_simp
  ultimately show "let t = new_terminator 7 3 True new_fetcher in
    \<exists>t'. pt_cancel table_posix t [(7, Zombie), (8, Running)] = Some (t', [], [(7, Absent), (7, Zombie), (8, Running)]) \<and>
      (\<exists>t'' s''. pt_cancel table_posix t' [(7, Absent), (8, Running)] = Some (t'', [(0, SIGTERM)], s''))" by simp
qed code_simp+

end
