(* ===== verification/Docker_Isolate.thy ===== *)
theory Docker_Isolate
  imports Process_Isolate
begin

section \<open>Isolation in containers\<close>

text \<open>
  Isolation in containers (\<^verbatim>\<open>src/docker\<close>): endpoints and connections, requests to the daemon
  and its answers (\<^verbatim>\<open>docker_client.cpp\<close>, \<^verbatim>\<open>http.cpp\<close>), and the isolate with its
  handles of containers (\<^verbatim>\<open>isolate.cpp\<close>).

  \<^verbatim>\<open>lexical_cast\<close> and case-insensitive comparison are the record \<open>boost\<close>, paths are
  \<open>path_ops\<close>, and \<^verbatim>\<open>rapidjson\<close> is \<open>json_ops\<close>: its writer, its parsers, and what it leaves
  of a value that was moved into another. The daemon is a function from transfers and
  its own states: how the connection is made, and what the HTTP library
  then reports. The requests that reached it are a result of every operation. An
  assertion that fails in \<^verbatim>\<open>rapidjson\<close>, and a write through a dangling pointer,
  are \<open>Undefined\<close>.
\<close>

subsection \<open>Endpoints\<close>

datatype docker_endpoint = Ep_unix string | Ep_tcp string "16 word"

datatype io_error = No_error | Operation_aborted | Io_failed nat

datatype docker_error =
    Bad_endpoint
  | Connection_timed_out
  | Boost_system_error io_error
  | Curl_error nat
  | Unable_to string
  | Cocaine_error
  | Bad_dynamic dynamic_error

record boost =
  bo_to_port :: "string \<Rightarrow> 16 word option"
  bo_show :: "nat \<Rightarrow> string"
  bo_iequals :: "string \<Rightarrow> string \<Rightarrow> bool"

definition endpoint_from_string :: "boost \<Rightarrow> string \<Rightarrow> (docker_error, docker_endpoint) result" where
  "endpoint_from_string bo s =
     (if take 6 s = ''tcp://'' then
        (let rest = drop 6 s in
         if CHR '':'' \<in> set rest then
           (case bo_to_port bo (tl (dropWhile (\<lambda>c. c \<noteq> CHR '':'') rest)) of
              Some p \<Rightarrow> Inr (Ep_tcp (takeWhile (\<lambda>c. c \<noteq> CHR '':'') rest) p)
            | None \<Rightarrow> Inl Bad_endpoint)
         else Inl Bad_endpoint)
      else if take 7 s = ''unix://'' then Inr (Ep_unix (drop 7 s))
      else Inl Bad_endpoint)"

fun endpoint_to_string :: "boost \<Rightarrow> docker_endpoint \<Rightarrow> string" where
  "endpoint_to_string bo (Ep_tcp h p) = ''tcp://'' @ h @ '':'' @ bo_show bo (unat p)"
| "endpoint_to_string bo (Ep_unix p) = ''unix://'' @ p"

fun is_unix :: "docker_endpoint \<Rightarrow> bool" where
  "is_unix (Ep_unix p) = True"
| "is_unix (Ep_tcp h p) = False"

subsection \<open>Headers\<close>

type_synonym http_headers = "(string \<times> string) list"

fun headers_of :: "boost \<Rightarrow> http_headers \<Rightarrow> string \<Rightarrow> string list" where
  "headers_of bo [] key = []"
| "headers_of bo ((k, v) # hs) key = (if bo_iequals bo k key then v # headers_of bo hs key else headers_of bo hs key)"

fun header_of :: "boost \<Rightarrow> http_headers \<Rightarrow> string \<Rightarrow> string option" where
  "header_of bo [] key = None"
| "header_of bo ((k, v) # hs) key = (if bo_iequals bo k key then Some v else header_of bo hs key)"

definition add_header :: "string \<Rightarrow> string \<Rightarrow> http_headers \<Rightarrow> http_headers" where
  "add_header k v hs = hs @ [(k, v)]"

definition reset_headers :: "boost \<Rightarrow> string \<Rightarrow> string list \<Rightarrow> http_headers \<Rightarrow> http_headers" where
  "reset_headers bo key values hs =
     filter (\<lambda>(k, v). \<not> bo_iequals bo k key) hs @ map (\<lambda>v. (key, v)) values"

definition reset_header :: "boost \<Rightarrow> string \<Rightarrow> string \<Rightarrow> http_headers \<Rightarrow> http_headers" where
  "reset_header bo key v hs = add_header key v (filter (\<lambda>(k, v). \<not> bo_iequals bo k key) hs)"

definition isspace :: "char \<Rightarrow> bool" where
  "isspace c \<longleftrightarrow> c \<in> {CHR '' '', CHR 0x09, CHR 0x0A, CHR 0x0B, CHR 0x0C, CHR 0x0D}"

definition strip :: "string \<Rightarrow> string" where
  "strip s = rev (dropWhile isspace (rev (dropWhile isspace s)))"

definition header_callback :: "string \<Rightarrow> http_headers \<Rightarrow> http_headers" where
  "header_callback line hs =
     (if CHR '':'' \<in> set line then
        add_header (strip (takeWhile (\<lambda>c. c \<noteq> CHR '':'') line))
          (strip (takeWhile (\<lambda>c. c \<noteq> CHR 0x0A) (tl (dropWhile (\<lambda>c. c \<noteq> CHR '':'') line)))) hs
      else hs)"

record http_request =
  rq_method :: string
  rq_uri :: string
  rq_version :: string
  rq_headers :: http_headers
  rq_body :: string

record http_response =
  rs_code :: int
  rs_headers :: http_headers
  rs_body :: string

subsection \<open>Connections\<close>

datatype tcp_phase = Resolving | Connecting nat | Idle

record tcp_connector =
  tc_endpoints :: "nat list"
  tc_socket :: "nat option"
  tc_error :: io_error
  tc_phase :: tcp_phase
  tc_stopped :: bool
  tc_timeout :: bool

text \<open>\<open>Stale_done\<close>: the handler that an earlier call left in the loop runs.\<close>

datatype conn_event = Resolve_done io_error "nat list" | Connect_done io_error | Timer_done | Stale_done

definition new_connector :: tcp_connector where
  "new_connector = \<lparr>tc_endpoints = [], tc_socket = None, tc_error = No_error, tc_phase = Resolving, tc_stopped = False, tc_timeout = False\<rparr>"

definition resolve_handler :: "io_error \<Rightarrow> nat list \<Rightarrow> tcp_connector \<Rightarrow> tcp_connector" where
  "resolve_handler e eps c =
     (let c = c\<lparr>tc_error := e, tc_phase := Idle\<rparr> in
      if e = Operation_aborted then c
      else if e \<noteq> No_error then c\<lparr>tc_stopped := True\<rparr>
      else case eps of
        [] \<Rightarrow> c\<lparr>tc_stopped := True\<rparr>
      | ep # _ \<Rightarrow> c\<lparr>tc_endpoints := eps, tc_socket := Some ep, tc_phase := Connecting 1\<rparr>)"

definition connect_handler :: "io_error \<Rightarrow> nat \<Rightarrow> tcp_connector \<Rightarrow> tcp_connector" where
  "connect_handler e next c =
     (let c = c\<lparr>tc_phase := Idle\<rparr> in
      if e = Operation_aborted then c
      else if e = No_error then c\<lparr>tc_stopped := True\<rparr>
      else if next < length (tc_endpoints c) then
        c\<lparr>tc_socket := Some (tc_endpoints c ! next), tc_phase := Connecting (Suc next)\<rparr>
      else c\<lparr>tc_error := e, tc_socket := None, tc_stopped := True\<rparr>)"

definition timeout_handler :: "tcp_connector \<Rightarrow> tcp_connector" where
  "timeout_handler c = c\<lparr>tc_timeout := True, tc_stopped := True\<rparr>"

definition conn_step :: "conn_event \<Rightarrow> tcp_connector \<Rightarrow> tcp_connector" where
  "conn_step ev c =
     (case ev of
        Resolve_done e eps \<Rightarrow> (if tc_phase c = Resolving then resolve_handler e eps c else c)
      | Connect_done e \<Rightarrow> (case tc_phase c of Connecting n \<Rightarrow> connect_handler e n c | _ \<Rightarrow> c)
      | Timer_done \<Rightarrow> timeout_handler c
      | Stale_done \<Rightarrow> c)"

text \<open>The loop runs until it is stopped; the timer expires at last.\<close>

fun run_with_timeout :: "conn_event list \<Rightarrow> tcp_connector \<Rightarrow> tcp_connector" where
  "run_with_timeout [] c = timeout_handler c"
| "run_with_timeout (ev # evs) c = (let c' = conn_step ev c in if tc_stopped c' then c' else run_with_timeout evs c')"

text \<open>Whether that handler runs before the loop is stopped.\<close>

fun runs_stale :: "conn_event list \<Rightarrow> tcp_connector \<Rightarrow> bool" where
  "runs_stale [] c = False"
| "runs_stale (ev # evs) c = (ev = Stale_done \<or> (let c' = conn_step ev c in \<not> tc_stopped c' \<and> runs_stale evs c'))"

text \<open>
  What is left in the loop when a call returns: the handler of a resolution that did not
  finish writes to the connector of that call, which no longer exists, when a later call
  runs the loop long enough. It stays in the loop if that call stops before.
\<close>

datatype stale = Stale_resolve | Stale_connect

datatype 'a outcome = Done 'a | Throw docker_error | Undefined

definition connect_tcp :: "stale list \<Rightarrow> conn_event list \<Rightarrow> nat outcome \<times> stale list" where
  "connect_tcp io evs =
     (if Stale_resolve \<in> set io \<and> runs_stale evs new_connector then (Undefined, []) else
      let c = run_with_timeout evs new_connector;
          io' = filter (\<lambda>x. x = Stale_resolve) io @
            (case tc_phase c of Resolving \<Rightarrow> [Stale_resolve] | Connecting n \<Rightarrow> [Stale_connect] | Idle \<Rightarrow> []) in
      if tc_timeout c then (Throw Connection_timed_out, io')
      else case tc_socket c of
        Some ep \<Rightarrow> (Done ep, io')
      | None \<Rightarrow> (Throw (Boost_system_error (tc_error c)), io'))"

fun connect_unix :: "conn_event list \<Rightarrow> nat outcome" where
  "connect_unix [] = Throw Connection_timed_out"
| "connect_unix (Connect_done e # evs) =
     (if e = Operation_aborted then Throw Connection_timed_out
      else if e = No_error then Done 0
      else Throw (Boost_system_error e))"
| "connect_unix (Timer_done # evs) = Throw Connection_timed_out"
| "connect_unix (Resolve_done e eps # evs) = connect_unix evs"
| "connect_unix (Stale_done # evs) = connect_unix evs"

text \<open>The endpoint of a client is fixed: over a local socket no resolution is ever left behind.\<close>

definition connect_to :: "docker_endpoint \<Rightarrow> stale list \<Rightarrow> conn_event list \<Rightarrow> nat outcome \<times> stale list" where
  "connect_to ep io evs = (if is_unix ep then (connect_unix evs, []) else connect_tcp io evs)"

subsection \<open>Requests\<close>

datatype json = J_null | J_bool bool | J_int int | J_string string | J_array "json list" | J_object "(string \<times> json) list"

record json_ops =
  jo_write :: "json \<Rightarrow> string"
  jo_parse :: "string \<Rightarrow> json option"
  jo_stream :: "string \<Rightarrow> json option list"
  jo_moved :: "json \<Rightarrow> json"

datatype verb = Http_get | Http_post string | Http_head

record transfer =
  tr_url :: string
  tr_verb :: verb
  tr_custom :: string
  tr_headers :: "string list"

record exchange =
  xc_events :: "conn_event list"
  xc_errc :: nat
  xc_code :: int
  xc_headers :: "string list"
  xc_body :: "string list"

type_synonym 's daemon = "transfer \<Rightarrow> 's \<Rightarrow> exchange \<times> 's"

record client =
  cl_endpoint :: docker_endpoint
  cl_io :: "stale list"
  cl_custom :: string

text \<open>A call of the client: what it returns, the client, the transfers that were performed, the daemon.\<close>

type_synonym ('a, 's) call = "client \<Rightarrow> 's \<Rightarrow> 'a outcome \<times> client \<times> transfer list \<times> 's"

definition url_of :: "boost \<Rightarrow> client \<Rightarrow> http_request \<Rightarrow> string" where
  "url_of bo cl rq =
     (case cl_endpoint cl of
        Ep_tcp h p \<Rightarrow> ''http://'' @ h @ '':'' @ bo_show bo (unat p) @ rq_uri rq
      | Ep_unix _ \<Rightarrow> ''http://127.0.0.1'' @ rq_uri rq)"

definition custom_of :: "client \<Rightarrow> http_request \<Rightarrow> string" where
  "custom_of cl rq = (if rq_method rq \<noteq> [] then rq_method rq else cl_custom cl)"

definition header_lines :: "http_request \<Rightarrow> string list" where
  "header_lines rq = map (\<lambda>(k, v). k @ '': '' @ v) (rq_headers rq)"

definition response_of :: "exchange \<Rightarrow> http_response" where
  "response_of x =
     \<lparr>rs_code = xc_code x, rs_headers = fold header_callback (xc_headers x) [], rs_body = concat (xc_body x)\<rparr>"

definition perform :: "boost \<Rightarrow> 's daemon \<Rightarrow> verb \<Rightarrow> http_request \<Rightarrow> (http_response \<times> nat, 's) call" where
  "perform bo dm verb rq cl s =
     (let tr = \<lparr>tr_url = url_of bo cl rq, tr_verb = verb, tr_custom = custom_of cl rq, tr_headers = header_lines rq\<rparr> in
      case dm tr s of
        (x, s') \<Rightarrow>
          (case connect_to (cl_endpoint cl) (cl_io cl) (xc_events x) of
             (Done fd, io) \<Rightarrow>
               (let cl' = cl\<lparr>cl_io := io, cl_custom := custom_of cl rq\<rparr> in
                if xc_errc x \<noteq> 0 then (Throw (Curl_error (xc_errc x)), cl', [tr], s')
                else (Done (response_of x, fd), cl', [tr], s'))
           | (Throw e, io) \<Rightarrow> (Throw e, cl\<lparr>cl_io := io\<rparr>, [], s)
           | (Undefined, io) \<Rightarrow> (Undefined, cl, [], s)))"

definition client_get :: "boost \<Rightarrow> 's daemon \<Rightarrow> http_request \<Rightarrow> (http_response \<times> nat, 's) call" where
  "client_get bo dm rq = perform bo dm Http_get rq"

definition client_post :: "boost \<Rightarrow> 's daemon \<Rightarrow> http_request \<Rightarrow> (http_response \<times> nat, 's) call" where
  "client_post bo dm rq = perform bo dm (Http_post (rq_body rq)) rq"

definition client_head :: "boost \<Rightarrow> 's daemon \<Rightarrow> http_request \<Rightarrow> (http_response \<times> nat, 's) call" where
  "client_head bo dm rq = perform bo dm Http_head rq"

definition api_version :: string where
  "api_version = ''/v1.14''"

definition make_post :: "boost \<Rightarrow> json_ops \<Rightarrow> string \<Rightarrow> json \<Rightarrow> http_request" where
  "make_post bo jo url v =
     (if v = J_null then \<lparr>rq_method = ''POST'', rq_uri = url, rq_version = ''1.0'', rq_headers = [], rq_body = []\<rparr>
      else
        let body = jo_write jo v in
        \<lparr>rq_method = ''POST'', rq_uri = url, rq_version = ''1.0'',
         rq_headers = reset_header bo ''Content-Length'' (bo_show bo (length body)) (reset_header bo ''Content-Type'' ''application/json'' []),
         rq_body = body\<rparr>)"

definition make_get :: "string \<Rightarrow> http_request" where
  "make_get url = \<lparr>rq_method = ''GET'', rq_uri = url, rq_version = ''1.0'', rq_headers = [], rq_body = []\<rparr>"

definition make_del :: "string \<Rightarrow> http_request" where
  "make_del url = \<lparr>rq_method = ''DELETE'', rq_uri = url, rq_version = ''1.0'', rq_headers = [], rq_body = []\<rparr>"

text \<open>The response, if its code is in the accepted range, else the exception of the caller.\<close>

definition expect_code ::
  "string \<Rightarrow> int \<Rightarrow> (http_response \<times> nat \<Rightarrow> 'a) \<Rightarrow> (http_response \<times> nat, 's) call \<Rightarrow> ('a, 's) call" where
  "expect_code what bound f c cl s =
     (case c cl s of
        (Done (rs, fd), r) \<Rightarrow>
          (if 200 \<le> rs_code rs \<and> rs_code rs < bound then (Done (f (rs, fd)), r) else (Throw (Unable_to what), r))
      | (Throw e, r) \<Rightarrow> (Throw e, r)
      | (Undefined, r) \<Rightarrow> (Undefined, r))"

subsection \<open>Containers\<close>

definition container_url :: "string \<Rightarrow> string \<Rightarrow> string" where
  "container_url cid rest = api_version @ ''/containers/'' @ cid @ rest"

definition container_start :: "boost \<Rightarrow> json_ops \<Rightarrow> 's daemon \<Rightarrow> string \<Rightarrow> json \<Rightarrow> (unit, 's) call" where
  "container_start bo jo dm cid args =
     expect_code ''start'' 400 (\<lambda>_. ()) (client_post bo dm (make_post bo jo (container_url cid ''/start'') args))"

definition container_kill :: "boost \<Rightarrow> json_ops \<Rightarrow> 's daemon \<Rightarrow> string \<Rightarrow> (unit, 's) call" where
  "container_kill bo jo dm cid =
     expect_code ''kill'' 400 (\<lambda>_. ()) (client_post bo dm (make_post bo jo (container_url cid ''/kill'') J_null))"

definition container_stop :: "boost \<Rightarrow> json_ops \<Rightarrow> 's daemon \<Rightarrow> string \<Rightarrow> 32 word \<Rightarrow> (unit, 's) call" where
  "container_stop bo jo dm cid timeout =
     expect_code ''stop'' 400 (\<lambda>_. ())
       (client_post bo dm (make_post bo jo (container_url cid (''/stop?t='' @ bo_show bo (unat timeout))) J_null))"

definition container_remove :: "boost \<Rightarrow> 's daemon \<Rightarrow> string \<Rightarrow> bool \<Rightarrow> (unit, 's) call" where
  "container_remove bo dm cid volumes =
     expect_code ''remove'' 300 (\<lambda>_. ())
       (client_get bo dm (make_del (container_url cid (''?v='' @ bo_show bo (if volumes then 1 else 0)))))"

definition container_attach :: "boost \<Rightarrow> json_ops \<Rightarrow> 's daemon \<Rightarrow> string \<Rightarrow> (nat, 's) call" where
  "container_attach bo jo dm cid =
     expect_code ''attach'' 300 snd
       (client_head bo dm (make_post bo jo (container_url cid ''/attach?logs=1&stream=1&stdout=1&stderr=1'') J_null))"

subsection \<open>The client\<close>

definition inspect_image :: "boost \<Rightarrow> json_ops \<Rightarrow> 's daemon \<Rightarrow> string \<Rightarrow> (json, 's) call" where
  "inspect_image bo jo dm img cl s =
     (case client_get bo dm (make_get (api_version @ ''/images/'' @ img @ ''/json'')) cl s of
        (Done (rs, fd), r) \<Rightarrow>
          (if 200 \<le> rs_code rs \<and> rs_code rs < 300
           then (Done (case jo_parse jo (rs_body rs) of Some j \<Rightarrow> j | None \<Rightarrow> J_null), r)
           else if 400 \<le> rs_code rs \<and> rs_code rs < 500 then (Done J_null, r)
           else (Throw (Unable_to ''inspect''), r))
      | (Throw e, r) \<Rightarrow> (Throw e, r)
      | (Undefined, r) \<Rightarrow> (Undefined, r))"

fun pull_args :: "nat \<Rightarrow> nat \<Rightarrow> (string \<times> string) list \<Rightarrow> string \<Rightarrow> string" where
  "pull_args i 0 args request = request"
| "pull_args i (Suc n) args request =
     pull_args (Suc i) n args
       (if i = 0 then request @ fst (args ! 0) @ ''='' @ snd (args ! 0)
        else request @ ''&'' @ fst (args ! 0) @ ''='' @ snd (args ! 0))"

definition pull_url :: "string \<Rightarrow> string \<Rightarrow> string" where
  "pull_url img tag =
     (let args = [(''fromImage'', img)] @ (if tag \<noteq> [] then [(''tag'', tag)] else []) in
      api_version @ pull_args 0 (length args) args ''/images/create?'')"

fun status_ok :: "json option \<Rightarrow> bool" where
  "status_ok None = False"
| "status_ok (Some (J_object ms)) = (\<not> list_ex (\<lambda>(k, v). k = ''error'') ms)"
| "status_ok (Some _) = True"

definition pull_image :: "boost \<Rightarrow> json_ops \<Rightarrow> 's daemon \<Rightarrow> string \<Rightarrow> string \<Rightarrow> (unit, 's) call" where
  "pull_image bo jo dm img tag cl s =
     (case client_post bo dm (make_post bo jo (pull_url img tag) J_null) cl s of
        (Done (rs, fd), r) \<Rightarrow>
          (if 200 \<le> rs_code rs \<and> rs_code rs < 300
           then (if list_all status_ok (jo_stream jo (rs_body rs)) then (Done (), r) else (Throw (Unable_to ''pull''), r))
           else (Throw (Unable_to ''pull''), r))
      | (Throw e, r) \<Rightarrow> (Throw e, r)
      | (Undefined, r) \<Rightarrow> (Undefined, r))"

definition strings_only :: "json \<Rightarrow> bool" where
  "strings_only v = (case v of J_array ws \<Rightarrow> list_all (\<lambda>w. case w of J_string s \<Rightarrow> True | _ \<Rightarrow> False) ws | _ \<Rightarrow> True)"

definition container_id :: "json_ops \<Rightarrow> string \<Rightarrow> string outcome" where
  "container_id jo body =
     (case jo_parse jo body of
        Some (J_object ms) \<Rightarrow>
          (case map_of ms ''Id'' of
             None \<Rightarrow> Throw (Unable_to ''create'')
           | Some v \<Rightarrow>
               (if \<not> strings_only (case map_of ms ''Warnings'' of None \<Rightarrow> J_null | Some w \<Rightarrow> w) then Undefined
                else case v of J_string i \<Rightarrow> Done i | _ \<Rightarrow> Undefined))
      | _ \<Rightarrow> Undefined)"

definition create_container :: "boost \<Rightarrow> json_ops \<Rightarrow> 's daemon \<Rightarrow> json \<Rightarrow> (string, 's) call" where
  "create_container bo jo dm args cl s =
     (case client_post bo dm (make_post bo jo (api_version @ ''/containers/create'') args) cl s of
        (Done (rs, fd), r) \<Rightarrow>
          (if 200 \<le> rs_code rs \<and> rs_code rs < 300 then (container_id jo (rs_body rs), r)
           else (Throw (Unable_to ''create''), r))
      | (Throw e, r) \<Rightarrow> (Throw e, r)
      | (Undefined, r) \<Rightarrow> (Undefined, r))"

subsection \<open>The isolate\<close>

record path_ops =
  po_append :: "string \<Rightarrow> string \<Rightarrow> string"
  po_filename :: "string \<Rightarrow> string"
  po_parent :: "string \<Rightarrow> string"

record docker =
  dk_client :: client
  dk_runtime_path :: string
  dk_pool :: bool
  dk_image :: string
  dk_tag :: string
  dk_caps :: json
  dk_network :: string
  dk_run_config :: "(string \<times> json) list"

fun as_strings :: "'d dynamic \<Rightarrow> (dynamic_error, string list) result" where
  "as_strings (D_array xs) = mapE as_string xs"
| "as_strings _ = Inl Bad_get"

definition string_at :: "(string \<times> 'd dynamic) list \<Rightarrow> string \<Rightarrow> string \<Rightarrow> (dynamic_error, string) result" where
  "string_at m k d = as_string (at_default m k (D_string d))"

definition registry_prefix :: "(string \<times> 'd dynamic) list \<Rightarrow> (dynamic_error, string) result" where
  "registry_prefix m =
     (case um_find ''registry'' m of
        None \<Rightarrow> Inr []
      | Some v \<Rightarrow> bindE (as_string v) (\<lambda>r. Inr (if r = ''<default>'' then [] else r @ ''/'')))"

definition repository_prefix :: "(string \<times> 'd dynamic) list \<Rightarrow> (dynamic_error, string) result" where
  "repository_prefix m =
     (case um_find ''repository'' m of None \<Rightarrow> Inr [] | Some v \<Rightarrow> bindE (as_string v) (\<lambda>r. Inr (r @ ''/'')))"

definition capabilities_of :: "(string \<times> 'd dynamic) list \<Rightarrow> (dynamic_error, json) result" where
  "capabilities_of m =
     (case um_find ''capabilities'' m of
        None \<Rightarrow> Inr J_null
      | Some v \<Rightarrow> bindE (as_strings v) (\<lambda>cs. Inr (J_array (map J_string cs))))"

definition run_config :: "string \<Rightarrow> string \<Rightarrow> string \<Rightarrow> int \<Rightarrow> int \<Rightarrow> int \<Rightarrow> (string \<times> json) list" where
  "run_config img runtime network memory swap cpu =
     [(''Hostname'', J_string []), (''User'', J_string []), (''Memory'', J_int memory), (''MemorySwap'', J_int swap),
      (''CpuShares'', J_int cpu), (''AttachStdin'', J_bool False), (''AttachStdout'', J_bool False), (''AttachStderr'', J_bool False),
      (''PortSpecs'', J_null), (''Tty'', J_bool False), (''OpenStdin'', J_bool False), (''StdinOnce'', J_bool False),
      (''Env'', J_array []), (''Cmd'', J_array []), (''Dns'', J_null), (''Image'', J_string img),
      (''Volumes'', J_object [(runtime, J_object [])]), (''WorkingDir'', J_string ''/''), (''NetworkMode'', J_string network)]"

definition new_client :: "docker_endpoint \<Rightarrow> client" where
  "new_client ep = \<lparr>cl_endpoint = ep, cl_io = [], cl_custom = []\<rparr>"

definition docker_body ::
  "('d dynamic \<Rightarrow> (dynamic_error, int) result) \<Rightarrow> string \<Rightarrow> string \<Rightarrow> docker_endpoint \<Rightarrow> (string \<times> 'd dynamic) list \<Rightarrow>
   (dynamic_error, docker) result" where
  "docker_body ti runtime name ep m =
     bindE (string_at m ''runtime-path'' runtime) (\<lambda>path.
     bindE (registry_prefix m) (\<lambda>registry.
     bindE (repository_prefix m) (\<lambda>repository.
     bindE (capabilities_of m) (\<lambda>caps.
     bindE (string_at m ''network_mode'' ''bridge'') (\<lambda>network.
     bindE (ti (at_default m ''memory_limit'' (D_uint 0))) (\<lambda>memory.
     bindE (ti (at_default m ''memory_swap'' (D_uint 0))) (\<lambda>swap.
     bindE (ti (at_default m ''cpu_shares'' (D_uint 0))) (\<lambda>cpu.
     let img = registry @ repository @ name in
     Inr \<lparr>dk_client = new_client ep, dk_runtime_path = path, dk_pool = (um_find ''registry'' m \<noteq> None), dk_image = img, dk_tag = [],
          dk_caps = caps, dk_network = network, dk_run_config = run_config img path network memory swap cpu\<rparr>))))))))"

definition new_docker ::
  "boost \<Rightarrow> ('d dynamic \<Rightarrow> (dynamic_error, int) result) \<Rightarrow> string \<Rightarrow> string \<Rightarrow> 'd dynamic \<Rightarrow> (docker_error, docker) result" where
  "new_docker bo ti runtime name args =
     bindE (lift_error Bad_dynamic (bindE (as_object args) (\<lambda>m. bindE (string_at m ''endpoint'' ''unix:///var/run/docker.sock'') (\<lambda>e. Inr (m, e))))) (\<lambda>(m, e).
     bindE (endpoint_from_string bo e) (\<lambda>ep.
     lift_error (\<lambda>_. Cocaine_error) (docker_body ti runtime name ep m)))"

datatype spool_event = Spool_ready | Spool_abort docker_error

definition docker_spool ::
  "boost \<Rightarrow> json_ops \<Rightarrow> 's daemon \<Rightarrow> docker \<Rightarrow> 's \<Rightarrow> unit outcome \<times> spool_event list \<times> docker \<times> transfer list \<times> 's" where
  "docker_spool bo jo dm dk s =
     (if \<not> dk_pool dk then (Done (), [], dk, [], s) else
      case pull_image bo jo dm (dk_image dk) (dk_tag dk) (dk_client dk) s of
        (Done _, cl, l, s') \<Rightarrow> (Done (), [Spool_ready], dk\<lparr>dk_client := cl\<rparr>, l, s')
      | (Throw (Curl_error n), cl, l, s') \<Rightarrow> (Done (), [Spool_abort (Curl_error n)], dk\<lparr>dk_client := cl\<rparr>, l, s')
      | (Throw e, cl, l, s') \<Rightarrow> (Throw e, [], dk\<lparr>dk_client := cl\<rparr>, l, s')
      | (Undefined, cl, l, s') \<Rightarrow> (Undefined, [], dk\<lparr>dk_client := cl\<rparr>, l, s'))"

record container_handle =
  ch_id :: string
  ch_terminated :: bool
  ch_fetcher :: fetcher

definition handle_cancel :: "boost \<Rightarrow> json_ops \<Rightarrow> 's daemon \<Rightarrow> container_handle \<Rightarrow> (container_handle, 's) call" where
  "handle_cancel bo jo dm h cl s =
     (if \<not> ch_terminated h then (Done (h\<lparr>ch_terminated := True\<rparr>), cl, [], s) else
      case container_kill bo jo dm (ch_id h) cl s of
        (Undefined, r) \<Rightarrow> (Undefined, r)
      | (_, cl1, l1, s1) \<Rightarrow>
          (case container_remove bo dm (ch_id h) False cl1 s1 of
             (Undefined, cl2, l2, s2) \<Rightarrow> (Undefined, cl2, l1 @ l2, s2)
           | (_, cl2, l2, s2) \<Rightarrow> (Done (h\<lparr>ch_fetcher := close_fetcher (ch_fetcher h)\<rparr>), cl2, l1 @ l2, s2)))"

definition handle_destroy :: "boost \<Rightarrow> json_ops \<Rightarrow> 's daemon \<Rightarrow> container_handle \<Rightarrow> (container_handle, 's) call" where
  "handle_destroy bo jo dm h = handle_cancel bo jo dm h"

definition set_member :: "string \<Rightarrow> json \<Rightarrow> (string \<times> json) list \<Rightarrow> (string \<times> json) list" where
  "set_member k v ms = map (\<lambda>(k', v'). if k' = k then (k, v) else (k', v')) ms"

fun cmd_args :: "path_ops \<Rightarrow> string \<Rightarrow> (string \<times> string) list \<Rightarrow> json list" where
  "cmd_args po endpoint [] = []"
| "cmd_args po endpoint ((k, v) # as) =
     (if k = ''--endpoint'' then
        let e = po_append po endpoint (po_filename po v) in J_string k # J_string e # cmd_args po e as
      else J_string k # J_string v # cmd_args po endpoint as)"

definition prepare_spawn :: "path_ops \<Rightarrow> string \<Rightarrow> (string \<times> string) list \<Rightarrow> (string \<times> string) list \<Rightarrow> docker \<Rightarrow> docker" where
  "prepare_spawn po path args environment dk =
     dk\<lparr>dk_run_config :=
          set_member ''Cmd'' (J_array (J_string path # cmd_args po (dk_runtime_path dk) args))
            (set_member ''Env'' (J_array (map (\<lambda>kv. J_string (env_entry kv)) environment)) (dk_run_config dk))\<rparr>"

definition start_args :: "path_ops \<Rightarrow> string \<Rightarrow> docker \<Rightarrow> json" where
  "start_args po endpoint dk =
     J_object [(''Binds'', J_array [J_string (po_parent po endpoint @ '':'' @ dk_runtime_path dk)]),
               (''CapAdd'', dk_caps dk), (''NetworkMode'', J_string (dk_network dk))]"

text \<open>The steps after the creation of the container.\<close>

definition launch_container ::
  "boost \<Rightarrow> json_ops \<Rightarrow> 's daemon \<Rightarrow> json \<Rightarrow> bool \<Rightarrow> container_handle \<Rightarrow> (container_handle, 's) call" where
  "launch_container bo jo dm sargs assign_ok h cl s =
     (case container_start bo jo dm (ch_id h) sargs cl s of
        (Throw e, r) \<Rightarrow> (Throw e, r)
      | (Undefined, r) \<Rightarrow> (Undefined, r)
      | (Done _, cl1, l1, s1) \<Rightarrow>
          (case container_attach bo jo dm (ch_id h) cl1 s1 of
             (Throw e, cl2, l2, s2) \<Rightarrow> (Throw e, cl2, l1 @ l2, s2)
           | (Undefined, cl2, l2, s2) \<Rightarrow> (Undefined, cl2, l1 @ l2, s2)
           | (Done fd, cl2, l2, s2) \<Rightarrow>
               (case assign_fd assign_ok (int fd) (ch_fetcher h) of
                  None \<Rightarrow> (Throw (Boost_system_error (Io_failed 0)), cl2, l1 @ l2, s2)
                | Some f \<Rightarrow> (Done (h\<lparr>ch_fetcher := f\<rparr>), cl2, l1 @ l2, s2))))"

definition fail_spawn ::
  "boost \<Rightarrow> json_ops \<Rightarrow> 's daemon \<Rightarrow> container_handle \<Rightarrow> docker \<Rightarrow> transfer list \<Rightarrow> 's \<Rightarrow>
   container_handle outcome \<times> bool \<times> docker \<times> transfer list \<times> 's" where
  "fail_spawn bo jo dm h dk l s =
     (case handle_destroy bo jo dm h (dk_client dk) s of
        (Undefined, cl, l', s') \<Rightarrow> (Undefined, False, dk\<lparr>dk_client := cl\<rparr>, l @ l', s')
      | (_, cl, l', s') \<Rightarrow> (Throw Cocaine_error, False, dk\<lparr>dk_client := cl\<rparr>, l @ l', s'))"

definition docker_spawn ::
  "boost \<Rightarrow> json_ops \<Rightarrow> path_ops \<Rightarrow> 's daemon \<Rightarrow> string \<Rightarrow> (string \<times> string) list \<Rightarrow> (string \<times> string) list \<Rightarrow> bool \<Rightarrow>
   docker \<Rightarrow> 's \<Rightarrow> container_handle outcome \<times> bool \<times> docker \<times> transfer list \<times> 's" where
  "docker_spawn bo jo po dm path args environment assign_ok dk s =
     (let dk1 = prepare_spawn po path args environment dk in
      case create_container bo jo dm (J_object (dk_run_config dk1)) (dk_client dk1) s of
        (Throw e, cl, l, s1) \<Rightarrow> (Throw Cocaine_error, False, dk1\<lparr>dk_client := cl\<rparr>, l, s1)
      | (Undefined, cl, l, s1) \<Rightarrow> (Undefined, False, dk1\<lparr>dk_client := cl\<rparr>, l, s1)
      | (Done cid, cl, l, s1) \<Rightarrow>
          (let h = \<lparr>ch_id = cid, ch_terminated = False, ch_fetcher = new_fetcher\<rparr>;
               dk2 = dk1\<lparr>dk_client := cl\<rparr> in
           case map_of args ''--endpoint'' of
             None \<Rightarrow> fail_spawn bo jo dm h dk2 l s1
           | Some endpoint \<Rightarrow>
               (let dk3 = dk2\<lparr>dk_caps := jo_moved jo (dk_caps dk2)\<rparr> in
                case launch_container bo jo dm (start_args po endpoint dk2) assign_ok h cl s1 of
                  (Throw e, cl', l', s2) \<Rightarrow> fail_spawn bo jo dm h (dk3\<lparr>dk_client := cl'\<rparr>) (l @ l') s2
                | (Undefined, cl', l', s2) \<Rightarrow> (Undefined, False, dk3\<lparr>dk_client := cl'\<rparr>, l @ l', s2)
                | (Done h', cl', l', s2) \<Rightarrow> (Done h', True, dk3\<lparr>dk_client := cl'\<rparr>, l @ l', s2))))"

definition docker_metrics :: "string list \<Rightarrow> (string \<times> 'd dynamic) list" where
  "docker_metrics query = []"

section \<open>Endpoints and headers\<close>

text \<open>Decimal numbers, an instance of the conversions.\<close>

fun decimal :: "nat \<Rightarrow> string" where
  "decimal n = (if n < 10 then [char_of (48 + n)] else decimal (n div 10) @ [char_of (48 + n mod 10)])"

declare decimal.simps [simp del]

definition decimal_value :: "string \<Rightarrow> nat" where
  "decimal_value s = foldl (\<lambda>a c. 10 * a + (of_char c - 48)) 0 s"

definition toupper :: "char \<Rightarrow> char" where
  "toupper c = (if 97 \<le> (of_char c :: nat) \<and> (of_char c :: nat) \<le> 122 then char_of ((of_char c :: nat) - 32) else c)"

definition digit :: "char \<Rightarrow> bool" where
  "digit c \<longleftrightarrow> 48 \<le> (of_char c :: nat) \<and> (of_char c :: nat) \<le> 57"

definition decimal_boost :: boost where
  "decimal_boost =
     \<lparr>bo_to_port = (\<lambda>s. if s \<noteq> [] \<and> list_all digit s \<and> decimal_value s < 65536 then Some (of_nat (decimal_value s)) else None),
      bo_show = decimal, bo_iequals = (\<lambda>a b. map toupper a = map toupper b)\<rparr>"

lemma decimal_char: "d < 10 \<Longrightarrow> of_char (char_of (48 + d) :: char) = (48 + d :: nat)"
  by (simp add: of_char_of)

lemma decimal_parse: "decimal_value (decimal n) = n \<and> list_all digit (decimal n) \<and> decimal n \<noteq> []"
proof (induction n rule: decimal.induct)
  case (1 n)
  have "decimal_value [char_of (48 + n)] = n" if "n < 10"
    using decimal_char [OF that] by (simp add: decimal_value_def)
  moreover have "digit (char_of (48 + d))" if "d < 10" for d :: nat
    using decimal_char [OF that] that by (simp add: digit_def)
  moreover have "decimal_value (xs @ [char_of (48 + n mod 10)]) = 10 * decimal_value xs + n mod 10" for xs
    using decimal_char [of "n mod 10"] by (simp add: decimal_value_def)
  ultimately show ?case
    using 1 by (subst (1 2 3) decimal.simps) (auto simp del: of_char_of)
qed

lemma decimal_boost_port: "bo_to_port decimal_boost (bo_show decimal_boost (unat p)) = Some p"
proof -
  have "unat p < 2 ^ LENGTH(16)" by (rule unsigned_less)
  then have "unat p < 65536" by simp
  then show ?thesis using decimal_parse [of "unat p"] by (simp add: decimal_boost_def)
qed

text \<open>
  C37:
  Whatever the conversion of numbers is, as long as it reads back what it
  writes: printing an endpoint and parsing it again gives the endpoint, for every path
  of a socket, and for every host without a colon. Parsing only ever gives hosts
  without a colon, from a text that starts with the scheme, the host and a colon.
\<close>

theorem docker_endpoint_roundtrip:
  assumes "\<forall>p. bo_to_port bo (bo_show bo (unat p)) = Some p"
  shows "(\<forall>h p. CHR '':'' \<notin> set h \<longrightarrow> endpoint_from_string bo (endpoint_to_string bo (Ep_tcp h p)) = Inr (Ep_tcp h p)) \<and>
     (\<forall>path. endpoint_from_string bo (endpoint_to_string bo (Ep_unix path)) = Inr (Ep_unix path)) \<and>
     (\<forall>s e. endpoint_from_string bo s = Inr e \<longrightarrow>
        (case e of
           Ep_unix path \<Rightarrow> s = endpoint_to_string bo e
         | Ep_tcp h p \<Rightarrow> CHR '':'' \<notin> set h \<and> (\<exists>n. s = ''tcp://'' @ h @ '':'' @ n \<and> bo_to_port bo n = Some p)))"
proof (intro conjI allI impI)
  fix h p assume "CHR '':'' \<notin> set h"
  then have "takeWhile (\<lambda>c. c \<noteq> CHR '':'') (h @ '':'' @ xs) = h" "dropWhile (\<lambda>c. c \<noteq> CHR '':'') (h @ '':'' @ xs) = '':'' @ xs" for xs
    by (induction h) auto
  then show "endpoint_from_string bo (endpoint_to_string bo (Ep_tcp h p)) = Inr (Ep_tcp h p)"
    using assms by (simp add: endpoint_from_string_def)
next
  fix path show "endpoint_from_string bo (endpoint_to_string bo (Ep_unix path)) = Inr (Ep_unix path)"
    by (simp add: endpoint_from_string_def)
next
  fix s e assume e: "endpoint_from_string bo s = Inr e"
  show "case e of
           Ep_unix path \<Rightarrow> s = endpoint_to_string bo e
         | Ep_tcp h p \<Rightarrow> CHR '':'' \<notin> set h \<and> (\<exists>n. s = ''tcp://'' @ h @ '':'' @ n \<and> bo_to_port bo n = Some p)"
  proof (cases e)
    case (Ep_unix path)
    then have "take 7 s = ''unix://''" "drop 7 s = path"
      using e by (auto simp: endpoint_from_string_def Let_def split: if_splits option.splits)
    then show ?thesis using Ep_unix append_take_drop_id [of 7 s] by simp
  next
    case (Ep_tcp h p)
    let ?r = "drop 6 s"
    from e Ep_tcp have t: "take 6 s = ''tcp://''" "CHR '':'' \<in> set ?r" "h = takeWhile (\<lambda>c. c \<noteq> CHR '':'') ?r"
        "bo_to_port bo (tl (dropWhile (\<lambda>c. c \<noteq> CHR '':'') ?r)) = Some p"
      by (auto simp: endpoint_from_string_def Let_def split: if_splits option.splits)
    obtain n where "dropWhile (\<lambda>c. c \<noteq> CHR '':'') ?r = CHR '':'' # n"
      using t(2) by (cases "dropWhile (\<lambda>c. c \<noteq> CHR '':'') ?r") (auto simp: dropWhile_eq_Nil_conv dropWhile_eq_Cons_conv)
    moreover from this have r: "?r = h @ '':'' @ n" using t(3) takeWhile_dropWhile_id [of "\<lambda>c. c \<noteq> CHR '':''" ?r] by simp
    moreover have "s = take 6 s @ ?r" by simp
    then have "s = ''tcp://'' @ h @ '':'' @ n" unfolding t(1) r .
    moreover have "CHR '':'' \<notin> set h" unfolding t(3) by (metis (full_types) set_takeWhileD)
    ultimately show ?thesis using Ep_tcp t(4) by simp
  qed
qed

theorem docker_endpoint_roundtrip_witness:
  "endpoint_from_string decimal_boost ''tcp://127.0.0.1:2375'' = Inr (Ep_tcp ''127.0.0.1'' 2375) \<and>
   endpoint_from_string decimal_boost (endpoint_to_string decimal_boost (Ep_unix ''/var/run/docker.sock'')) =
     Inr (Ep_unix ''/var/run/docker.sock'')"
proof
  have "endpoint_to_string decimal_boost (Ep_tcp ''127.0.0.1'' 2375) = ''tcp://127.0.0.1:2375''" by code_simp
  moreover have "CHR '':'' \<notin> set ''127.0.0.1''" by code_simp
  then have "endpoint_from_string decimal_boost (endpoint_to_string decimal_boost (Ep_tcp ''127.0.0.1'' 2375)) =
      Inr (Ep_tcp ''127.0.0.1'' 2375)"
    using docker_endpoint_roundtrip [of decimal_boost] decimal_boost_port by blast
  ultimately show "endpoint_from_string decimal_boost ''tcp://127.0.0.1:2375'' = Inr (Ep_tcp ''127.0.0.1'' 2375)"
    by (simp only:)
qed (use docker_endpoint_roundtrip [of decimal_boost] decimal_boost_port in blast)

lemma strip_ends:
  assumes "strip v = v" and "isspace a" and "isspace b"
  shows "strip (a # v @ [b]) = v"
proof -
  have nb: "dropWhile isspace v = v"
  proof (cases v)
    case (Cons x xs)
    have "length v = length (dropWhile isspace (rev (dropWhile isspace v)))"
      using assms(1) by (metis length_rev strip_def)
    also have "\<dots> \<le> length (dropWhile isspace v)"
      using length_dropWhile_le [of isspace "rev (dropWhile isspace v)"] by simp
    finally have "length v \<le> length (dropWhile isspace v)" .
    then show ?thesis using Cons length_dropWhile_le [of isspace xs] by (cases "isspace x") auto
  qed simp
  then have rv: "rev (dropWhile isspace (rev v)) = v" using assms(1) by (simp add: strip_def)
  show ?thesis
  proof (cases v)
    case Nil
    then show ?thesis using assms by (simp add: strip_def)
  next
    case (Cons x xs)
    then have "\<not> isspace x" using nb by (metis dropWhile.simps(2) length_dropWhile_le impossible_Cons)
    then have "dropWhile isspace (a # v @ [b]) = v @ [b]" using assms(2) Cons by simp
    then show ?thesis using rv assms(3) by (simp add: strip_def)
  qed
qed

definition plain_header :: "string \<times> string \<Rightarrow> bool" where
  "plain_header h \<longleftrightarrow> strip (fst h) = fst h \<and> strip (snd h) = snd h \<and> CHR '':'' \<notin> set (fst h) \<and> CHR 0x0A \<notin> set (snd h)"

lemma header_callback_line:
  assumes "plain_header (k, v)"
  shows "header_callback (k @ '': '' @ v @ [CHR 0x0D, CHR 0x0A]) hs = hs @ [(k, v)]"
proof -
  from assms have k: "CHR '':'' \<notin> set k" "strip k = k" and v: "CHR 0x0A \<notin> set v" "strip v = v" by (auto simp: plain_header_def)
  have "takeWhile (\<lambda>c. c \<noteq> CHR '':'') (k @ CHR '':'' # xs) = k" "dropWhile (\<lambda>c. c \<noteq> CHR '':'') (k @ CHR '':'' # xs) = CHR '':'' # xs" for xs
    using k(1) by (induction k) auto
  moreover have "takeWhile (\<lambda>c. c \<noteq> CHR 0x0A) (CHR '' '' # v @ [CHR 0x0D, CHR 0x0A]) = CHR '' '' # v @ [CHR 0x0D]"
    using v(1) by (induction v) auto
  moreover have "strip (CHR '' '' # v @ [CHR 0x0D]) = v"
    by (rule strip_ends [OF v(2)]) (simp_all add: isspace_def)
  ultimately show ?thesis using k(2) by (simp add: header_callback_def add_header_def)
qed

text \<open>
  The lines in which the client writes the headers of a request, each ended as HTTP ends
  them, are read back as these headers, in order, by the callback that reads the
  headers of a response: for fields without a colon and values without a line feed that
  neither start nor end with white space.
\<close>

theorem docker_header_roundtrip:
  assumes "list_all plain_header (rq_headers rq)"
  shows "fold header_callback (map (\<lambda>l. l @ [CHR 0x0D, CHR 0x0A]) (header_lines rq)) hs = hs @ rq_headers rq"
proof -
  have "list_all plain_header xs \<Longrightarrow>
      fold header_callback (map (\<lambda>l. l @ [CHR 0x0D, CHR 0x0A]) (map (\<lambda>(k, v). k @ '': '' @ v) xs)) hs = hs @ xs" for xs
  proof (induction xs arbitrary: hs)
    case (Cons x xs)
    then show ?case using header_callback_line [of "fst x" "snd x" hs] by (cases x) simp
  qed simp
  then show ?thesis using assms by (simp add: header_lines_def)
qed

theorem docker_header_roundtrip_witness:
  "fold header_callback [''Content-Type: application/json'' @ [CHR 0x0D, CHR 0x0A], ''Host: a:80'' @ [CHR 0x0D, CHR 0x0A]] [] =
     [(''Content-Type'', ''application/json''), (''Host'', ''a:80'')]"
proof -
  let ?rq = "\<lparr>rq_method = ''GET'', rq_uri = ''/'', rq_version = ''1.0'', rq_headers = [(''Content-Type'', ''application/json''), (''Host'', ''a:80'')], rq_body = []\<rparr>"
  have "list_all plain_header (rq_headers ?rq)" by code_simp
  from docker_header_roundtrip [OF this, of "[]"] show ?thesis by (simp add: header_lines_def)
qed

lemma headers_of_append: "headers_of bo (xs @ ys) key = headers_of bo xs key @ headers_of bo ys key"
  by (induction bo xs key rule: headers_of.induct) auto

lemma headers_of_filter:
  assumes "equivp (bo_iequals bo)"
  shows "headers_of bo (filter (\<lambda>(k, v). \<not> bo_iequals bo k key) hs) key' =
     (if bo_iequals bo key key' then [] else headers_of bo hs key')"
proof -
  have "bo_iequals bo k key \<Longrightarrow> bo_iequals bo k key' = bo_iequals bo key key'"
    and "bo_iequals bo key key' \<Longrightarrow> bo_iequals bo k key' = bo_iequals bo k key" for k
    using assms by (metis equivp_def)+
  then show ?thesis by (induction hs) auto
qed

text \<open>
  Resetting a header replaces every earlier entry of that name, however it is written, by the new
  one and leaves the values of all other names as they were; both forms of the
  operation agree, and a lookup gives the first of the values of a name.
\<close>

theorem docker_reset_header:
  assumes "equivp (bo_iequals bo)"
  shows "reset_header bo key v hs = reset_headers bo key [v] hs \<and>
     (\<forall>key'. headers_of bo (reset_headers bo key vs hs) key' = (if bo_iequals bo key key' then vs else headers_of bo hs key')) \<and>
     (\<forall>key'. header_of bo hs key' = (case headers_of bo hs key' of [] \<Rightarrow> None | x # _ \<Rightarrow> Some x))"
proof (intro conjI allI)
  fix key'
  have "headers_of bo (map (\<lambda>v. (key, v)) vs) key' = (if bo_iequals bo key key' then vs else [])"
    by (induction vs) auto
  then show "headers_of bo (reset_headers bo key vs hs) key' = (if bo_iequals bo key key' then vs else headers_of bo hs key')"
    using headers_of_filter [OF assms, of key hs key'] by (simp add: reset_headers_def headers_of_append)
next
  fix key' show "header_of bo hs key' = (case headers_of bo hs key' of [] \<Rightarrow> None | x # _ \<Rightarrow> Some x)"
    by (induction bo hs key' rule: header_of.induct) auto
qed (simp add: reset_header_def reset_headers_def add_header_def)

theorem docker_reset_header_witness:
  "headers_of decimal_boost (reset_headers decimal_boost ''content-type'' [''a''] [(''Content-Type'', ''b''), (''Host'', ''c'')]) ''CONTENT-TYPE'' = [''a'']"
proof -
  have "equivp (bo_iequals decimal_boost)"
    by (auto simp: decimal_boost_def equivp_def fun_eq_iff)
  moreover have "bo_iequals decimal_boost ''content-type'' ''CONTENT-TYPE''" by code_simp
  ultimately show ?thesis using docker_reset_header [of decimal_boost "''content-type''" "[]" "[(''Content-Type'', ''b''), (''Host'', ''c'')]" "[''a'']"] by simp
qed

section \<open>Connecting\<close>

definition connecting :: "nat list \<Rightarrow> nat \<Rightarrow> tcp_connector" where
  "connecting eps n = \<lparr>tc_endpoints = eps, tc_socket = Some (eps ! (n - 1)), tc_error = No_error, tc_phase = Connecting n,
                       tc_stopped = False, tc_timeout = False\<rparr>"

lemma run_failures:
  assumes "length es \<le> length eps - n" and "0 < n" and "\<forall>e \<in> set es. e \<notin> {No_error, Operation_aborted}"
  shows "run_with_timeout (map Connect_done es @ evs) (connecting eps n) =
     run_with_timeout evs (connecting eps (n + length es))"
  using assms
proof (induction es arbitrary: n)
  case (Cons e es)
  then have "conn_step (Connect_done e) (connecting eps n) = connecting eps (Suc n)"
    by (simp add: conn_step_def connecting_def connect_handler_def Let_def)
  moreover have "\<not> tc_stopped (connecting eps (Suc n))" by (simp add: connecting_def)
  moreover have "run_with_timeout (map Connect_done es @ evs) (connecting eps (Suc n)) =
      run_with_timeout evs (connecting eps (Suc n + length es))"
    using Cons.prems by (intro Cons.IH) auto
  ultimately show ?case by simp
qed simp

lemma connect_resolved:
  assumes "eps \<noteq> []"
  shows "run_with_timeout (Resolve_done No_error eps # evs) new_connector = run_with_timeout evs (connecting eps 1)"
  using assms
  by (cases eps) (simp_all add: new_connector_def conn_step_def resolve_handler_def connecting_def)

text \<open>
  A connection over TCP tries the addresses of a host in the order in which they were
  resolved: it is made to the first one that accepts, when all before it failed; when all
  failed the error of the last one is thrown, and when the time is over before one
  accepts, that. No handler that could still write to the attempt is left in the loop.
\<close>

theorem docker_connect:
  assumes "Stale_resolve \<notin> set io" and "length es < length eps"
    and "\<forall>e \<in> set es. e \<notin> {No_error, Operation_aborted}"
  shows "connect_tcp io (Resolve_done No_error eps # map Connect_done es @ Connect_done No_error # evs) = (Done (eps ! length es), []) \<and>
     (e \<notin> {No_error, Operation_aborted} \<and> length eps = Suc (length es) \<longrightarrow>
        connect_tcp io (Resolve_done No_error eps # map Connect_done es @ Connect_done e # evs) = (Throw (Boost_system_error e), [])) \<and>
     connect_tcp io (Resolve_done No_error eps # map Connect_done es @ Timer_done # evs) = (Throw Connection_timed_out, [Stale_connect])"
proof -
  have eps: "eps \<noteq> []" using assms(2) by auto
  have no: "filter (\<lambda>x. x = Stale_resolve) io = []" using assms(1) by (induction io) auto
  have run: "run_with_timeout (Resolve_done No_error eps # map Connect_done es @ evs') new_connector =
      run_with_timeout evs' (connecting eps (Suc (length es)))" for evs'
    using connect_resolved [OF eps] run_failures [OF _ _ assms(3), of eps 1 evs'] assms(2) by simp
  show ?thesis
  proof (intro conjI impI)
    show "connect_tcp io (Resolve_done No_error eps # map Connect_done es @ Connect_done No_error # evs) = (Done (eps ! length es), [])"
      unfolding connect_tcp_def run using no
      by (simp add: assms(1) conn_step_def connecting_def connect_handler_def Let_def)
    show "connect_tcp io (Resolve_done No_error eps # map Connect_done es @ Connect_done e # evs) = (Throw (Boost_system_error e), [])"
      if "e \<notin> {No_error, Operation_aborted} \<and> length eps = Suc (length es)"
      unfolding connect_tcp_def run using no that
      by (simp add: assms(1) conn_step_def connecting_def connect_handler_def Let_def)
    show "connect_tcp io (Resolve_done No_error eps # map Connect_done es @ Timer_done # evs) = (Throw Connection_timed_out, [Stale_connect])"
      unfolding connect_tcp_def run using no
      by (simp add: assms(1) conn_step_def connecting_def timeout_handler_def Let_def)
  qed
qed

theorem docker_connect_witness:
  "connect_tcp [] (Resolve_done No_error [10, 11, 12] # map Connect_done [Io_failed 111, Io_failed 113] @ [Connect_done No_error]) = (Done 12, [])"
  using docker_connect [of "[]" "[Io_failed 111, Io_failed 113]" "[10, 11, 12]" "[]" No_error] by simp

section \<open>Spawning\<close>

definition daemon_base :: "boost \<Rightarrow> client \<Rightarrow> string" where
  "daemon_base bo cl = url_of bo cl (make_get [])"

lemma url_of_base: "url_of bo cl rq = daemon_base bo cl @ rq_uri rq"
  by (simp add: daemon_base_def url_of_def make_get_def split: docker_endpoint.splits)

text \<open>What a request does: it reaches the daemon once or, if it fails, at most once; the endpoint stays.\<close>

definition sends :: "boost \<Rightarrow> client \<Rightarrow> string \<Rightarrow> string \<Rightarrow> 'a outcome \<times> client \<times> transfer list \<times> 's \<Rightarrow> bool" where
  "sends bo cl method uri out \<longleftrightarrow>
     (case out of (r, cl', l, s') \<Rightarrow>
        cl_endpoint cl' = cl_endpoint cl \<and>
        (l = [] \<and> (\<forall>x. r \<noteq> Done x) \<or> (\<exists>tr. l = [tr] \<and> tr_url tr = daemon_base bo cl @ uri \<and> tr_custom tr = method)))"

lemma perform_sends:
  "rq_method rq \<noteq> [] \<Longrightarrow> sends bo cl (rq_method rq) (rq_uri rq) (perform bo dm verb rq cl s)"
  by (auto simp: sends_def perform_def url_of_base custom_of_def Let_def split: prod.splits outcome.splits)

lemma expect_code_sends:
  "sends bo cl m u (c cl s) \<Longrightarrow> sends bo cl m u (expect_code what bound f c cl s)"
  by (auto simp: sends_def expect_code_def split: prod.splits outcome.splits)

lemma make_post_method [simp]: "rq_method (make_post bo jo url v) = ''POST''" "rq_uri (make_post bo jo url v) = url"
  by (simp_all add: make_post_def Let_def)

lemma make_del_method [simp]: "rq_method (make_del url) = ''DELETE''" "rq_uri (make_del url) = url"
  by (simp_all add: make_del_def)

lemma post_sends: "sends bo cl ''POST'' url (client_post bo dm (make_post bo jo url v) cl s)"
  using perform_sends [of "make_post bo jo url v"] by (simp add: client_post_def)

lemma head_sends: "sends bo cl ''POST'' url (client_head bo dm (make_post bo jo url v) cl s)"
  using perform_sends [of "make_post bo jo url v"] by (simp add: client_head_def)

lemma start_sends: "sends bo cl ''POST'' (container_url cid ''/start'') (container_start bo jo dm cid args cl s)"
  unfolding container_start_def by (intro expect_code_sends post_sends)

lemma kill_sends: "sends bo cl ''POST'' (container_url cid ''/kill'') (container_kill bo jo dm cid cl s)"
  unfolding container_kill_def by (intro expect_code_sends post_sends)

lemma del_sends: "sends bo cl ''DELETE'' url (client_get bo dm (make_del url) cl s)"
  using perform_sends [of "make_del url"] by (simp add: client_get_def)

lemma remove_sends:
  "sends bo cl ''DELETE'' (container_url cid (''?v='' @ bo_show bo (if v then 1 else 0))) (container_remove bo dm cid v cl s)"
  unfolding container_remove_def by (intro expect_code_sends del_sends)

lemma attach_sends:
  "sends bo cl ''POST'' (container_url cid ''/attach?logs=1&stream=1&stdout=1&stderr=1'') (container_attach bo jo dm cid cl s)"
  unfolding container_attach_def by (intro expect_code_sends head_sends)

lemma create_sends: "sends bo cl ''POST'' (api_version @ ''/containers/create'') (create_container bo jo dm args cl s)"
  using post_sends [of bo cl "api_version @ ''/containers/create''" dm jo args s]
  by (auto simp: sends_def create_container_def split: prod.splits outcome.splits)

text \<open>The requests of a launch, in order.\<close>

definition launch_uris :: "string \<Rightarrow> string list" where
  "launch_uris cid =
     [api_version @ ''/containers/create'', container_url cid ''/start'',
      container_url cid ''/attach?logs=1&stream=1&stdout=1&stderr=1'']"

definition posts :: "boost \<Rightarrow> client \<Rightarrow> string list \<Rightarrow> transfer list \<Rightarrow> bool" where
  "posts bo cl uris l \<longleftrightarrow> map tr_url l = map (\<lambda>u. daemon_base bo cl @ u) uris \<and> list_all (\<lambda>tr. tr_custom tr = ''POST'') l"

lemma daemon_base_endpoint: "cl_endpoint cl' = cl_endpoint cl \<Longrightarrow> daemon_base bo cl' = daemon_base bo cl"
  by (simp add: daemon_base_def url_of_def)

lemma sends_cases:
  assumes "sends bo cl ''POST'' uri (r, cl', l, s')"
  obtains "l = []" "\<forall>x. r \<noteq> Done x" "cl_endpoint cl' = cl_endpoint cl"
  | "posts bo cl [uri] l" "cl_endpoint cl' = cl_endpoint cl"
  using assms by (auto simp: sends_def posts_def)

lemma launch_posts:
  assumes "launch_container bo jo dm sargs ok h cl s = (r, cl', l, s')"
  shows "cl_endpoint cl' = cl_endpoint cl \<and>
     (\<exists>n \<le> 2. posts bo cl (take n (tl (launch_uris (ch_id h)))) l \<and>
        (\<forall>h'. r = Done h' \<longrightarrow> n = 2 \<and> ok \<and> ft_open (ch_fetcher h) = None \<and>
           (\<exists>fd. h' = h\<lparr>ch_fetcher := watch ((ch_fetcher h)\<lparr>ft_open := Some (int fd)\<rparr>)\<rparr>)))"
proof -
  obtain r1 cl1 l1 s1 where st: "container_start bo jo dm (ch_id h) sargs cl s = (r1, cl1, l1, s1)" by (metis surj_pair)
  have S1: "sends bo cl ''POST'' (container_url (ch_id h) ''/start'') (r1, cl1, l1, s1)" using start_sends st by metis
  show ?thesis
  proof (cases "\<exists>x. r1 = Done x")
    case False
    then have eq: "l = l1" "cl' = cl1" "\<forall>x. r \<noteq> Done x"
      using assms st by (cases r1; auto simp: launch_container_def)+
    from S1 show ?thesis
    proof (cases rule: sends_cases)
      case 1
      with eq show ?thesis by (intro conjI exI [of _ 0]) (auto simp: posts_def)
    next
      case 2
      with eq show ?thesis by (intro conjI exI [of _ 1]) (auto simp: launch_uris_def)
    qed
  next
    case True
    then have p1: "posts bo cl [container_url (ch_id h) ''/start''] l1" "cl_endpoint cl1 = cl_endpoint cl"
      using sends_cases [OF S1] by metis+
    obtain r2 cl2 l2 s2 where at: "container_attach bo jo dm (ch_id h) cl1 s1 = (r2, cl2, l2, s2)" by (metis surj_pair)
    have S2: "sends bo cl1 ''POST'' (container_url (ch_id h) ''/attach?logs=1&stream=1&stdout=1&stderr=1'') (r2, cl2, l2, s2)"
      using attach_sends at by metis
    have eq: "cl' = cl2" "l = l1 @ l2" "\<forall>h'. r = Done h' \<longrightarrow> (\<exists>fd f. r2 = Done fd \<and> assign_fd ok (int fd) (ch_fetcher h) = Some f \<and>
        h' = h\<lparr>ch_fetcher := f\<rparr>)"
      using assms st at True by (auto simp: launch_container_def split: outcome.splits option.splits)
    from S2 show ?thesis
    proof (cases rule: sends_cases)
      case 1
      then have "\<forall>x. r \<noteq> Done x" using eq(3) by blast
      then show ?thesis using 1 eq(1,2) p1 by (intro conjI exI [of _ 1]) (auto simp: launch_uris_def)
    next
      case 2
      have "posts bo cl (tl (launch_uris (ch_id h))) l"
        using 2(1) p1 eq(2) daemon_base_endpoint [OF p1(2), of bo] by (simp add: posts_def launch_uris_def)
      moreover have "take 2 (tl (launch_uris (ch_id h))) = tl (launch_uris (ch_id h))" by (simp add: launch_uris_def)
      moreover have "ok \<and> ft_open (ch_fetcher h) = None \<and> (\<exists>fd. h' = h\<lparr>ch_fetcher := watch ((ch_fetcher h)\<lparr>ft_open := Some (int fd)\<rparr>)\<rparr>)"
        if "r = Done h'" for h'
      proof -
        from eq(3) [rule_format, OF that] obtain fd f where "assign_fd ok (int fd) (ch_fetcher h) = Some f" "h' = h\<lparr>ch_fetcher := f\<rparr>" by (elim exE conjE)
        then show ?thesis by (auto simp: assign_fd_def split: if_splits)
      qed
      ultimately show ?thesis using 2(2) p1(2) eq(1) by (intro conjI exI [of _ 2]) auto
    qed
  qed
qed

lemma handle_destroy_fresh:
  "\<not> ch_terminated h \<Longrightarrow> handle_destroy bo jo dm h cl s = (Done (h\<lparr>ch_terminated := True\<rparr>), cl, [], s)"
  by (simp add: handle_destroy_def handle_cancel_def)

lemma fail_spawn_fresh:
  "\<not> ch_terminated h \<Longrightarrow> fail_spawn bo jo dm h dk l s = (Throw Cocaine_error, False, dk\<lparr>dk_client := dk_client dk\<rparr>, l, s)"
  by (simp add: fail_spawn_def handle_destroy_fresh)

lemma posts_Cons:
  assumes "posts bo cl [u] l" and "posts bo cl' us l'" and "cl_endpoint cl' = cl_endpoint cl"
  shows "posts bo cl (u # us) (l @ l')"
  using assms daemon_base_endpoint [OF assms(3), of bo] by (simp add: posts_def)

subsection \<open>What the daemon answered\<close>

fun replies :: "'s daemon \<Rightarrow> transfer list \<Rightarrow> 's \<Rightarrow> exchange list" where
  "replies dm [] s = []"
| "replies dm (tr # trs) s = (case dm tr s of (x, s') \<Rightarrow> x # replies dm trs s')"

definition accepted :: "int \<Rightarrow> exchange \<Rightarrow> bool" where
  "accepted bound x \<longleftrightarrow> xc_errc x = 0 \<and> 200 \<le> xc_code x \<and> xc_code x < bound"

lemma perform_done:
  assumes "perform bo dm verb rq cl s = (Done (rs, fd), cl', l, s')"
  shows "\<exists>tr x. l = [tr] \<and> dm tr s = (x, s') \<and> xc_errc x = 0 \<and> rs = response_of x"
  using assms by (auto simp: perform_def Let_def split: prod.splits outcome.splits if_splits)

lemma expect_code_done:
  assumes "expect_code what bound f (perform bo dm verb rq) cl s = (Done y, cl', l, s')"
  shows "\<exists>tr x. l = [tr] \<and> dm tr s = (x, s') \<and> accepted bound x"
proof -
  obtain r cl1 l1 s1 where p: "perform bo dm verb rq cl s = (r, cl1, l1, s1)" by (metis surj_pair)
  with assms obtain rs fd where "r = Done (rs, fd)" "200 \<le> rs_code rs" "rs_code rs < bound" "cl1 = cl'" "l1 = l" "s1 = s'"
    by (auto simp: expect_code_def split: outcome.splits prod.splits if_splits)
  with perform_done [of bo dm verb rq cl s rs fd cl' l s'] p show ?thesis by (auto simp: accepted_def response_of_def)
qed

lemma create_done:
  assumes "create_container bo jo dm args cl s = (Done cid, cl', l, s')"
  shows "\<exists>tr x. l = [tr] \<and> dm tr s = (x, s') \<and> accepted 300 x \<and> container_id jo (concat (xc_body x)) = Done cid"
proof -
  let ?rq = "make_post bo jo (api_version @ ''/containers/create'') args"
  obtain r cl1 l1 s1 where p: "client_post bo dm ?rq cl s = (r, cl1, l1, s1)" by (metis surj_pair)
  with assms obtain rs fd where "r = Done (rs, fd)" "200 \<le> rs_code rs" "rs_code rs < 300" "container_id jo (rs_body rs) = Done cid"
    "cl1 = cl'" "l1 = l" "s1 = s'"
    by (auto simp: create_container_def split: outcome.splits prod.splits if_splits)
  with perform_done [of bo dm "Http_post (rq_body ?rq)" ?rq cl s rs fd cl' l s'] p show ?thesis
    by (auto simp: accepted_def response_of_def client_post_def)
qed

lemma launch_done:
  assumes "launch_container bo jo dm sargs ok h cl s = (Done h', cl', l, s')"
  shows "\<exists>x2 x3. replies dm l s = [x2, x3] \<and> accepted 400 x2 \<and> accepted 300 x3"
proof -
  obtain r1 cl1 l1 s1 where st: "container_start bo jo dm (ch_id h) sargs cl s = (r1, cl1, l1, s1)" by (metis surj_pair)
  obtain r2 cl2 l2 s2 where at: "container_attach bo jo dm (ch_id h) cl1 s1 = (r2, cl2, l2, s2)" by (metis surj_pair)
  from assms st at obtain u fd where "r1 = Done u" "r2 = Done fd" "l = l1 @ l2"
    by (auto simp: launch_container_def split: outcome.splits option.splits)
  with st at expect_code_done [of "''start''" 400 _ bo dm _ _ cl s u cl1 l1 s1] expect_code_done [of "''attach''" 300 _ bo dm _ _ cl1 s1 fd cl2 l2 s2]
  show ?thesis unfolding container_start_def container_attach_def client_post_def client_head_def by fastforce
qed

text \<open>
  A daemon that serves: connections to it are made, it accepts every request, and its answer to
  the creation of a container names it.
\<close>

definition serving :: "boost \<Rightarrow> json_ops \<Rightarrow> 's daemon \<Rightarrow> client \<Rightarrow> bool" where
  "serving bo jo dm cl \<longleftrightarrow>
     (\<forall>tr s. accepted 300 (fst (dm tr s)) \<and>
        (\<forall>io. Stale_resolve \<notin> set io \<longrightarrow>
           (\<exists>fd io'. connect_to (cl_endpoint cl) io (xc_events (fst (dm tr s))) = (Done fd, io') \<and> Stale_resolve \<notin> set io')) \<and>
        (tr_url tr = daemon_base bo cl @ api_version @ ''/containers/create'' \<longrightarrow>
           (\<exists>cid. container_id jo (concat (xc_body (fst (dm tr s)))) = Done cid)))"

lemma serving_perform:
  assumes "serving bo jo dm cl" and "cl_endpoint c = cl_endpoint cl" and "Stale_resolve \<notin> set (cl_io c)"
  shows "\<exists>x fd c' l s'. perform bo dm verb rq c s = (Done (response_of x, fd), c', l, s') \<and>
     cl_endpoint c' = cl_endpoint cl \<and> Stale_resolve \<notin> set (cl_io c') \<and> accepted 300 x \<and>
     (rq_uri rq = api_version @ ''/containers/create'' \<longrightarrow> (\<exists>cid. container_id jo (concat (xc_body x)) = Done cid))"
proof -
  let ?tr = "\<lparr>tr_url = url_of bo c rq, tr_verb = verb, tr_custom = custom_of c rq, tr_headers = header_lines rq\<rparr>"
  obtain x s' where x: "dm ?tr s = (x, s')" by fastforce
  have url: "tr_url ?tr = daemon_base bo cl @ rq_uri rq" using url_of_base [of bo c rq] daemon_base_endpoint [OF assms(2), of bo] by simp
  from assms(1) have "accepted 300 (fst (dm ?tr s)) \<and>
      (\<exists>fd io'. connect_to (cl_endpoint cl) (cl_io c) (xc_events (fst (dm ?tr s))) = (Done fd, io') \<and> Stale_resolve \<notin> set io') \<and>
      (tr_url ?tr = daemon_base bo cl @ api_version @ ''/containers/create'' \<longrightarrow>
         (\<exists>cid. container_id jo (concat (xc_body (fst (dm ?tr s)))) = Done cid))"
    using assms(3) unfolding serving_def by blast
  then have "accepted 300 x \<and> (\<exists>fd io'. connect_to (cl_endpoint cl) (cl_io c) (xc_events x) = (Done fd, io') \<and> Stale_resolve \<notin> set io') \<and>
      (rq_uri rq = api_version @ ''/containers/create'' \<longrightarrow> (\<exists>cid. container_id jo (concat (xc_body x)) = Done cid))"
    unfolding x url fst_conv by simp
  then obtain fd io' where "accepted 300 x" "connect_to (cl_endpoint cl) (cl_io c) (xc_events x) = (Done fd, io')" "Stale_resolve \<notin> set io'"
    "rq_uri rq = api_version @ ''/containers/create'' \<longrightarrow> (\<exists>cid. container_id jo (concat (xc_body x)) = Done cid)"
    by blast
  then show ?thesis using x assms(2) by (auto simp: perform_def Let_def accepted_def)
qed

lemma serving_expect:
  assumes "serving bo jo dm cl" and "cl_endpoint c = cl_endpoint cl" and "Stale_resolve \<notin> set (cl_io c)" and "300 \<le> bound"
  shows "\<exists>y c' l s'. expect_code what bound f (perform bo dm verb rq) c s = (Done y, c', l, s') \<and>
     cl_endpoint c' = cl_endpoint cl \<and> Stale_resolve \<notin> set (cl_io c')"
proof -
  from serving_perform [OF assms(1-3), of verb rq s] obtain x fd c' l s' where
    "perform bo dm verb rq c s = (Done (response_of x, fd), c', l, s')" "cl_endpoint c' = cl_endpoint cl" "Stale_resolve \<notin> set (cl_io c')"
    "accepted 300 x" by blast
  then show ?thesis using assms(4) by (simp add: expect_code_def accepted_def response_of_def)
qed

lemma serving_create:
  assumes "serving bo jo dm cl" and "Stale_resolve \<notin> set (cl_io cl)"
  shows "\<exists>cid c' l s'. create_container bo jo dm args cl s = (Done cid, c', l, s') \<and>
     cl_endpoint c' = cl_endpoint cl \<and> Stale_resolve \<notin> set (cl_io c')"
proof -
  let ?rq = "make_post bo jo (api_version @ ''/containers/create'') args"
  from serving_perform [OF assms(1) refl assms(2), of "Http_post (rq_body ?rq)" ?rq s] obtain x fd c' l s' cid where
    "perform bo dm (Http_post (rq_body ?rq)) ?rq cl s = (Done (response_of x, fd), c', l, s')" "cl_endpoint c' = cl_endpoint cl"
    "Stale_resolve \<notin> set (cl_io c')" "accepted 300 x" "container_id jo (concat (xc_body x)) = Done cid" by auto
  then show ?thesis by (simp add: create_container_def client_post_def accepted_def response_of_def)
qed

lemma serving_launch:
  assumes "serving bo jo dm cl" and "cl_endpoint c = cl_endpoint cl" and "Stale_resolve \<notin> set (cl_io c)"
    and "ft_open (ch_fetcher h) = None"
  shows "\<exists>h' c' l s'. launch_container bo jo dm sargs True h c s = (Done h', c', l, s')"
proof -
  obtain y c1 l1 s1 where st: "container_start bo jo dm (ch_id h) sargs c s = (Done y, c1, l1, s1)"
    "cl_endpoint c1 = cl_endpoint cl" "Stale_resolve \<notin> set (cl_io c1)"
    using serving_expect [OF assms(1-3), of 400 "''start''" "\<lambda>_. ()"] unfolding container_start_def client_post_def by (simp, metis)
  obtain fd c2 l2 s2 where "container_attach bo jo dm (ch_id h) c1 s1 = (Done fd, c2, l2, s2)"
    using serving_expect [OF assms(1) st(2,3), of 300 "''attach''" snd] unfolding container_attach_def client_head_def by (simp, metis)
  then show ?thesis using st(1) assms(4) by (simp add: launch_container_def assign_fd_def)
qed

text \<open>
  C29:
  Whatever the daemon answers, a spawn sends to it an initial part of the three requests to
  create, to start and to attach to one container, in this order. If it returns a
  handle, all three were sent, the transfers succeeded, their statuses are those the code
  accepts (2xx for the creation and the attachment, 2xx or 3xx for the start), the
  answer to the creation names the container of the handle, its output is open with one read
  pending, and the worker was announced as ready. Otherwise nothing was announced, and a
  failure, of whatever kind, is an exception of the framework. A daemon that serves all
  three requests gets the worker running, if an endpoint was given, its output can be
  watched and no earlier resolution of a host is left behind.
\<close>

theorem docker_launch:
  "case docker_spawn bo jo po dm path args environment ok dk s of (r, ready, dk', l, s') \<Rightarrow>
     (\<exists>cid n. posts bo (dk_client dk) (take n (launch_uris cid)) l \<and>
       cl_endpoint (dk_client dk') = cl_endpoint (dk_client dk) \<and>
       (case r of
          Done h \<Rightarrow> ready \<and> n = 3 \<and> ch_id h = cid \<and> \<not> ch_terminated h \<and> ft_pending (ch_fetcher h) = 1 \<and> ft_open (ch_fetcher h) \<noteq> None \<and>
            (\<exists>x1 x2 x3. replies dm l s = [x1, x2, x3] \<and> accepted 300 x1 \<and> accepted 400 x2 \<and> accepted 300 x3 \<and>
               container_id jo (concat (xc_body x1)) = Done cid)
        | Throw e \<Rightarrow> \<not> ready \<and> e = Cocaine_error
        | Undefined \<Rightarrow> \<not> ready)) \<and>
     (serving bo jo dm (dk_client dk) \<and> Stale_resolve \<notin> set (cl_io (dk_client dk)) \<and> map_of args ''--endpoint'' \<noteq> None \<and> ok \<longrightarrow>
        (\<exists>h. r = Done h))"
proof -
  let ?dk = "prepare_spawn po path args environment dk" and ?create = "api_version @ ''/containers/create''"
  have cl: "dk_client ?dk = dk_client dk" by (simp add: prepare_spawn_def)
  obtain r1 cl1 l1 s1 where cr: "create_container bo jo dm (J_object (dk_run_config ?dk)) (dk_client dk) s = (r1, cl1, l1, s1)"
    by (metis surj_pair)
  have S: "sends bo (dk_client dk) ''POST'' ?create (r1, cl1, l1, s1)" using create_sends cr by metis
  have ep: "cl_endpoint cl1 = cl_endpoint (dk_client dk)" using S by (simp add: sends_def)
  have part: "\<exists>n. posts bo (dk_client dk) (take n (launch_uris cid)) l1" for cid
  proof (cases rule: sends_cases [OF S])
    case 1
    then show ?thesis by (intro exI [of _ 0]) (simp add: posts_def)
  next
    case 2
    then show ?thesis by (intro exI [of _ 1]) (simp add: launch_uris_def)
  qed
  show ?thesis
  proof (cases r1)
    case (Done cid)
    let ?h = "\<lparr>ch_id = cid, ch_terminated = False, ch_fetcher = new_fetcher\<rparr>"
    have p1: "posts bo (dk_client dk) [?create] l1" using sends_cases [OF S] Done by blast
    show ?thesis
    proof (cases "map_of args ''--endpoint''")
      case None
      then show ?thesis using Done cr cl part [of cid] ep by (simp add: docker_spawn_def Let_def fail_spawn_fresh) blast
    next
      case (Some e)
      obtain r2 cl2 l2 s2 where la: "launch_container bo jo dm (start_args po e (?dk\<lparr>dk_client := cl1\<rparr>)) ok ?h cl1 s1 = (r2, cl2, l2, s2)"
        by (metis surj_pair)
      from launch_posts [OF la] obtain n where
        n: "n \<le> 2" "posts bo cl1 (take n (tl (launch_uris cid))) l2" "cl_endpoint cl2 = cl_endpoint cl1"
          "\<And>h'. r2 = Done h' \<Longrightarrow> n = 2 \<and> (\<exists>fd. h' = ?h\<lparr>ch_fetcher := watch (new_fetcher\<lparr>ft_open := Some (int fd)\<rparr>)\<rparr>)" by auto
      obtain tr x1 where x1: "l1 = [tr]" "dm tr s = (x1, s1)" "accepted 300 x1" "container_id jo (concat (xc_body x1)) = Done cid"
        using create_done [OF cr [unfolded Done]] by blast
      have answers: "\<exists>x2 x3. replies dm (l1 @ l2) s = [x1, x2, x3] \<and> accepted 400 x2 \<and> accepted 300 x3" if "r2 = Done h'" for h'
        using launch_done [OF la [unfolded that]] x1 by auto
      have runs: "\<exists>h'. r2 = Done h'" if "serving bo jo dm (dk_client dk)" "Stale_resolve \<notin> set (cl_io (dk_client dk))" ok
      proof -
        have "cl_endpoint cl1 = cl_endpoint (dk_client dk)" "Stale_resolve \<notin> set (cl_io cl1)"
          using serving_create [OF that(1,2), of "J_object (dk_run_config ?dk)" s] cr by auto
        from serving_launch [OF that(1) this, of ?h "start_args po e (?dk\<lparr>dk_client := cl1\<rparr>)" s1] la that(3) show ?thesis
          by (auto simp: new_fetcher_def)
      qed
      have "posts bo (dk_client dk) (take (Suc n) (launch_uris cid)) (l1 @ l2)"
        using posts_Cons [OF p1 n(2) ep] by (simp add: launch_uris_def)
      moreover have "case r2 of Done h' \<Rightarrow> n = 2 \<and> ch_id h' = cid \<and> \<not> ch_terminated h' \<and> ft_pending (ch_fetcher h') = 1 \<and> ft_open (ch_fetcher h') \<noteq> None
          | _ \<Rightarrow> True"
        using n(4) by (auto simp: watch_def new_fetcher_def split: outcome.splits)
      ultimately have main: "\<exists>m. posts bo (dk_client dk) (take m (launch_uris cid)) (l1 @ l2) \<and> cl_endpoint cl2 = cl_endpoint (dk_client dk) \<and>
          (case r2 of Done h' \<Rightarrow> m = 3 \<and> ch_id h' = cid \<and> \<not> ch_terminated h' \<and> ft_pending (ch_fetcher h') = 1 \<and> ft_open (ch_fetcher h') \<noteq> None
           | _ \<Rightarrow> True)"
        using ep n(3) by (intro exI [of _ "Suc n"]) (auto split: outcome.splits)
      show ?thesis
        using Done Some cr cl la main answers runs x1(3,4) by (cases r2) (auto simp: docker_spawn_def Let_def fail_spawn_fresh)
    qed
  next
    case (Throw e)
    then have "\<not> (serving bo jo dm (dk_client dk) \<and> Stale_resolve \<notin> set (cl_io (dk_client dk)))"
      using serving_create [of bo jo dm "dk_client dk" "J_object (dk_run_config ?dk)" s] cr by auto
    then show ?thesis using Throw cr cl part ep by (simp add: docker_spawn_def Let_def)
  next
    case Undefined
    then have "\<not> (serving bo jo dm (dk_client dk) \<and> Stale_resolve \<notin> set (cl_io (dk_client dk)))"
      using serving_create [of bo jo dm "dk_client dk" "J_object (dk_run_config ?dk)" s] cr by auto
    then show ?thesis using Undefined cr cl part ep by (simp add: docker_spawn_def Let_def)
  qed
qed

text \<open>
  Five gaps of the container isolate. Destroying the handle of a container, which is all that a
  slave does with it and all that happens when a later step of the spawn fails,
  sends nothing to the daemon: the container is neither killed nor removed, since
  the test of the flag is inverted. A
  tag never reaches the daemon, the image is given twice instead. Without a
  registry spooling never answers its handler. After a time-out
  during the resolution of the host, a later request writes to an object that
  no longer exists, if the loop gets to the handler of that resolution. The capabilities are given to the first worker only, because their
  value is moved into the first request.
\<close>

theorem docker_gaps:
  "handle_destroy bo jo dm \<lparr>ch_id = cid, ch_terminated = False, ch_fetcher = f\<rparr> cl s =
     (Done \<lparr>ch_id = cid, ch_terminated = True, ch_fetcher = f\<rparr>, cl, [], s) \<and>
   pull_url img (c # tag) = api_version @ ''/images/create?fromImage='' @ img @ ''&fromImage='' @ img \<and>
   docker_spool bo jo dm (dk\<lparr>dk_pool := False\<rparr>) s = (Done (), [], dk\<lparr>dk_pool := False\<rparr>, [], s) \<and>
   connect_tcp [] (Timer_done # evs) = (Throw Connection_timed_out, [Stale_resolve]) \<and>
   connect_tcp [Stale_resolve] (Stale_done # evs) = (Undefined, []) \<and>
   (case docker_spawn bo (jo\<lparr>jo_moved := \<lambda>v. J_null\<rparr>) po dm path args environment ok dk s of
      (Done h, ready, dk', l, s') \<Rightarrow> start_args po e dk' =
        J_object [(''Binds'', J_array [J_string (po_parent po e @ '':'' @ dk_runtime_path dk)]), (''CapAdd'', J_null),
                  (''NetworkMode'', J_string (dk_network dk))]
    | _ \<Rightarrow> True)"
proof (intro conjI)
  show "case docker_spawn bo (jo\<lparr>jo_moved := \<lambda>v. J_null\<rparr>) po dm path args environment ok dk s of
      (Done h, ready, dk', l, s') \<Rightarrow> start_args po e dk' =
        J_object [(''Binds'', J_array [J_string (po_parent po e @ '':'' @ dk_runtime_path dk)]), (''CapAdd'', J_null),
                  (''NetworkMode'', J_string (dk_network dk))]
    | _ \<Rightarrow> True"
    by (auto simp: docker_spawn_def start_args_def prepare_spawn_def Let_def fail_spawn_def
        split: prod.splits outcome.splits option.splits)
qed (simp_all add: handle_destroy_def handle_cancel_def pull_url_def docker_spool_def connect_tcp_def new_connector_def conn_step_def
    timeout_handler_def Let_def)

text \<open>A daemon that accepts everything: the worker is ready after three requests.\<close>

definition kind_json :: json_ops where
  "kind_json = \<lparr>jo_write = (\<lambda>v. ''{}''), jo_parse = (\<lambda>s. Some (J_object [(''Id'', J_string ''c1'')])), jo_stream = (\<lambda>s. []), jo_moved = (\<lambda>v. J_null)\<rparr>"

definition kind_paths :: path_ops where
  "kind_paths = \<lparr>po_append = (\<lambda>d p. d @ ''/'' @ p), po_filename = (\<lambda>p. ''sock''), po_parent = (\<lambda>p. ''/run'')\<rparr>"

definition kind_daemon :: "nat daemon" where
  "kind_daemon tr n = (\<lparr>xc_events = [Connect_done No_error], xc_errc = 0, xc_code = 201, xc_headers = [], xc_body = []\<rparr>, Suc n)"

definition sample_docker :: docker where
  "sample_docker =
     \<lparr>dk_client = new_client (Ep_unix ''/docker.sock''), dk_runtime_path = ''/run/cocaine'', dk_pool = False, dk_image = ''app'', dk_tag = [],
      dk_caps = J_null, dk_network = ''bridge'', dk_run_config = run_config ''app'' ''/run/cocaine'' ''bridge'' 0 0 0\<rparr>"

lemma kind_serving: "serving decimal_boost kind_json kind_daemon (dk_client sample_docker)"
  by (simp add: serving_def kind_daemon_def accepted_def connect_to_def sample_docker_def new_client_def container_id_def kind_json_def strings_only_def)

theorem docker_launch_witness:
  "case docker_spawn decimal_boost kind_json kind_paths kind_daemon ''worker'' [(''--endpoint'', ''/run/sock'')] [] True sample_docker 0 of
     (r, ready, dk', l, n) \<Rightarrow> ready \<and> n = 3 \<and> (\<exists>h. r = Done h) \<and>
       map tr_url l = [''http://127.0.0.1/v1.14/containers/create'', ''http://127.0.0.1/v1.14/containers/c1/start'',
                       ''http://127.0.0.1/v1.14/containers/c1/attach?logs=1&stream=1&stdout=1&stderr=1'']"
proof -
  let ?out = "docker_spawn decimal_boost kind_json kind_paths kind_daemon ''worker'' [(''--endpoint'', ''/run/sock'')] [] True sample_docker 0"
  have "case ?out of (r, ready, dk', l, n) \<Rightarrow> ready \<and> n = 3 \<and>
       map tr_url l = [''http://127.0.0.1/v1.14/containers/create'', ''http://127.0.0.1/v1.14/containers/c1/start'',
                       ''http://127.0.0.1/v1.14/containers/c1/attach?logs=1&stream=1&stdout=1&stderr=1'']" by code_simp
  moreover have "cl_io (dk_client sample_docker) = []" by (simp add: sample_docker_def new_client_def)
  ultimately show ?thesis
    using docker_launch [where bo = decimal_boost and jo = kind_json and po = kind_paths and dm = kind_daemon and path = "''worker''" and
        args = "[(''--endpoint'', ''/run/sock'')]" and environment = "[]" and ok = True and dk = sample_docker and s = 0]
      kind_serving by auto
qed

end
