(* ===== verification/Unicorn_Cluster.thy ===== *)
theory Unicorn_Cluster
  imports Prelude Dynamic Node_Config
begin

section \<open>The cluster over unicorn\<close>

text \<open>
  Discovery of the nodes of a cluster (\<^verbatim>\<open>src/unicorn/src/cluster/unicorn.cpp\<close>): a node announces
  its endpoints under its own name and watches that announcement; it subscribes to the
  list of names, and to the announcement of every other node, and tells the locator
  which nodes to link and to drop.

  The replies of the unicorn backend, and whether a call of it throws, are arguments.
  The timers are flags: expiring again replaces a pending wait. Endpoints are values of
  any type. The calls of the locator and of the backend are results of the
  operations. \<open>None\<close> is the end of the process or undefined behaviour.
\<close>

subsection \<open>The announcer\<close>

record cfg =
  cf_path :: string
  cf_retry_interval :: u64

definition new_cfg :: "'d dynamic \<Rightarrow> (dynamic_error, cfg) result" where
  "new_cfg args =
     bindE (as_object args) (\<lambda>m.
     bindE (as_string (at_default m ''path'' (D_string ''/cocaine/discovery''))) (\<lambda>path.
     bindE (as_uint (at_default m ''retry_interval'' (D_uint 10))) (\<lambda>retry.
     Inr \<lparr>cf_path = path, cf_retry_interval = retry\<rparr>)))"

datatype operation = No_operation | Creating | Watching

record 'e announcer =
  an_path :: string
  an_endpoints :: "'e list"
  an_timer :: bool
  an_scope :: operation

datatype 'e unicorn_call = Uc_create string "'e list" | Uc_subscribe string | Uc_children string

definition new_announcer :: "cfg \<Rightarrow> string \<Rightarrow> 'e announcer" where
  "new_announcer cfg uuid = \<lparr>an_path = cf_path cfg @ ''/'' @ uuid, an_endpoints = [], an_timer = False, an_scope = No_operation\<rparr>"

definition defer_retry :: "'e announcer \<Rightarrow> 'e announcer" where
  "defer_retry a = a\<lparr>an_timer := True\<rparr>"

text \<open>\<open>quote\<close> are the endpoints of the locator, if it is published.\<close>

definition set_and_check_endpoints :: "'e list option \<Rightarrow> 'e announcer \<Rightarrow> (bool \<times> 'e announcer) option" where
  "set_and_check_endpoints quote a =
     (case quote of
        None \<Rightarrow> Some (False, a)
      | Some eps \<Rightarrow>
          (let a' = (if an_endpoints a = [] then a\<lparr>an_endpoints := eps\<rparr> else a) in
           if eps \<noteq> an_endpoints a' then None else Some (True, a')))"

text \<open>
  How a call of the backend ends: only a \<^verbatim>\<open>std::system_error\<close> is caught. The flag of the operations below
  says that an exception left them, into the loop of the timer or the backend.
\<close>

datatype call_end = Call_ok | System_error | Other_exception

definition announce :: "'e list option \<Rightarrow> call_end \<Rightarrow> 'e announcer \<Rightarrow> (bool \<times> 'e announcer \<times> 'e unicorn_call list) option" where
  "announce quote create a =
     (case set_and_check_endpoints quote a of
        None \<Rightarrow> None
      | Some (False, a') \<Rightarrow> Some (False, defer_retry a', [])
      | Some (True, a') \<Rightarrow>
          (let call = Uc_create (an_path a') (an_endpoints a') in
           case create of
             Call_ok \<Rightarrow> Some (False, a'\<lparr>an_scope := Creating\<rparr>, [call])
           | System_error \<Rightarrow> Some (False, defer_retry a', [call])
           | Other_exception \<Rightarrow> Some (True, a', [call])))"

datatype create_reply = Created | Node_exists | Create_failed | Create_exception

text \<open>The reply to the creation. The call to subscribe is outside of the block that catches.\<close>

definition on_set :: "create_reply \<Rightarrow> bool \<Rightarrow> 'e announcer \<Rightarrow> bool \<times> 'e announcer \<times> 'e unicorn_call list" where
  "on_set r subscribe_ok a =
     (let a = a\<lparr>an_scope := No_operation\<rparr> in
      if r = Create_exception then (True, a, [])
      else if r = Create_failed then (False, defer_retry a, [])
      else if subscribe_ok then (False, a\<lparr>an_scope := Watching\<rparr>, [Uc_subscribe (an_path a)])
      else (True, a, [Uc_subscribe (an_path a)]))"

text \<open>A value with its version, or the end of the subscription by an exception.\<close>

datatype check_reply = Version int | Check_failed | Check_exception

definition on_check :: "check_reply \<Rightarrow> 'e announcer \<Rightarrow> bool \<times> 'e announcer" where
  "on_check r a =
     (case r of
        Version v \<Rightarrow> (False, if v < 0 then defer_retry a else a)
      | Check_failed \<Rightarrow> (False, defer_retry (a\<lparr>an_scope := No_operation\<rparr>))
      | Check_exception \<Rightarrow> (True, a\<lparr>an_scope := No_operation\<rparr>))"

subsection \<open>The subscriber\<close>

record 'e subscription =
  su_endpoints :: "'e list"
  su_scope :: bool

datatype 'e locator_call = Drop_node string | Link_node string "'e list"

record 'e subscriber =
  sb_nodes :: "(string, 'e subscription) umap"
  sb_timer :: bool
  sb_children :: bool
  sb_locator :: "'e locator_call list"

definition new_subscriber :: "'e subscriber" where
  "new_subscriber = \<lparr>sb_nodes = [], sb_timer = False, sb_children = False, sb_locator = []\<rparr>"

definition node_or_new :: "string \<Rightarrow> 'e subscriber \<Rightarrow> 'e subscription" where
  "node_or_new n s = (case um_find n (sb_nodes s) of Some x \<Rightarrow> x | None \<Rightarrow> \<lparr>su_endpoints = [], su_scope = False\<rparr>)"

definition put_node :: "string \<Rightarrow> 'e subscription \<Rightarrow> 'e subscriber \<Rightarrow> 'e subscriber" where
  "put_node n x s = s\<lparr>sb_nodes := um_insert n x (sb_nodes s)\<rparr>"

definition tell :: "'e locator_call \<Rightarrow> 'e subscriber \<Rightarrow> 'e subscriber" where
  "tell c s = s\<lparr>sb_locator := sb_locator s @ [c]\<rparr>"

text \<open>\<open>subscribe\<close>: the flag says that the call threw.\<close>

definition subscribe :: "bool \<Rightarrow> 'e subscriber \<Rightarrow> bool \<times> 'e subscriber" where
  "subscribe ok s = (if ok then (False, s\<lparr>sb_children := True\<rparr>) else (True, s))"

fun drop_missing :: "string list \<Rightarrow> string list \<Rightarrow> 'e subscriber \<Rightarrow> 'e subscriber" where
  "drop_missing nodes [] s = s"
| "drop_missing nodes (k # ks) s =
     (if k \<notin> set nodes
      then drop_missing nodes ks (tell (Drop_node k) s\<lparr>sb_nodes := um_erase k (sb_nodes s)\<rparr>)
      else drop_missing nodes ks s)"

text \<open>
  \<open>sub_ok\<close> says for every node whether subscribing to it throws; the loop ends at the
  first exception, after the entry was made.
\<close>

fun link_nodes :: "string \<Rightarrow> (string \<Rightarrow> bool) \<Rightarrow> string list \<Rightarrow> 'e subscriber \<Rightarrow> bool \<times> 'e subscriber" where
  "link_nodes self sub_ok [] s = (False, s)"
| "link_nodes self sub_ok (n # ns) s =
     (if n = self then link_nodes self sub_ok ns s else
      let x = node_or_new n s; s' = put_node n x s in
      if su_endpoints x \<noteq> [] then link_nodes self sub_ok ns (tell (Link_node n (su_endpoints x)) s')
      else if sub_ok n then link_nodes self sub_ok ns (put_node n (x\<lparr>su_scope := True\<rparr>) s')
      else (True, s'))"

definition update_state :: "string \<Rightarrow> (string \<Rightarrow> bool) \<Rightarrow> string list \<Rightarrow> 'e subscriber \<Rightarrow> bool \<times> 'e subscriber" where
  "update_state self sub_ok nodes s = link_nodes self sub_ok nodes (drop_missing nodes (um_keys (sb_nodes s)) s)"

definition on_children :: "string \<Rightarrow> (string \<Rightarrow> bool) \<Rightarrow> string list option \<Rightarrow> 'e subscriber \<Rightarrow> 'e subscriber" where
  "on_children self sub_ok r s =
     (case r of
        None \<Rightarrow> s\<lparr>sb_timer := True, sb_children := False\<rparr>
      | Some nodes \<Rightarrow>
          (case update_state self sub_ok nodes s of
             (True, s') \<Rightarrow> s'\<lparr>sb_timer := True\<rparr>
           | (False, s') \<Rightarrow> s'))"

datatype 'e node_reply = Node_error | Node_value bool "'e list option"

definition terminate_node :: "string \<Rightarrow> 'e subscriber \<Rightarrow> 'e subscriber" where
  "terminate_node uuid s = tell (Drop_node uuid) s\<lparr>sb_nodes := um_erase uuid (sb_nodes s)\<rparr>"

definition node_failed :: "string \<Rightarrow> 'e subscriber \<Rightarrow> 'e subscriber" where
  "node_failed uuid s = (put_node uuid ((node_or_new uuid s)\<lparr>su_endpoints := []\<rparr>) s)\<lparr>sb_timer := True\<rparr>"

text \<open>
  A value is whether the node exists and its endpoints, if the conversion does not throw.
  \<^verbatim>\<open>terminate\<close> only erases the entry, and the code goes on after it: a new entry is made, and in
  the last test the reference to the erased entry is used.
\<close>

definition on_node :: "string \<Rightarrow> 'e node_reply \<Rightarrow> 'e subscriber \<Rightarrow> 'e subscriber option" where
  "on_node uuid r s =
     (case r of
        Node_error \<Rightarrow> Some (node_failed uuid s)
      | Node_value ex value \<Rightarrow>
          (let s1 = (if \<not> ex then terminate_node uuid s else s) in
           case value of
             None \<Rightarrow> Some (node_failed uuid s1)
           | Some eps \<Rightarrow>
               (let s2 = (if eps = [] then terminate_node uuid s1 else s1);
                    x = node_or_new uuid s2 in
                if su_endpoints x \<noteq> [] \<and> su_endpoints x \<noteq> eps then None
                else Some (tell (Link_node uuid eps) (put_node uuid (x\<lparr>su_endpoints := eps\<rparr>) s2)))))"

text \<open>The constructor: a full member subscribes before it announces itself.\<close>

definition new_cluster ::
  "bool \<Rightarrow> cfg \<Rightarrow> string \<Rightarrow> bool \<Rightarrow> 'e list option \<Rightarrow> call_end \<Rightarrow>
   ('e announcer \<times> 'e subscriber \<times> 'e unicorn_call list) option" where
  "new_cluster full cfg uuid children_ok quote create =
     (let (threw, sb) = (if full then subscribe children_ok new_subscriber else (False, new_subscriber)) in
      if threw then None else
      case announce quote create (new_announcer cfg uuid) of
        Some (False, a, calls) \<Rightarrow> Some (a, sb, (if full then [Uc_children (cf_path cfg)] else []) @ calls)
      | _ \<Rightarrow> None)"

section \<open>The announcement\<close>

text \<open>
  The runs of the announcer, from its construction on; the flag is whether an exception left the last
  step. A process that ends takes no further step.
\<close>

inductive an_run :: "cfg \<Rightarrow> string \<Rightarrow> bool \<Rightarrow> 'e announcer \<Rightarrow> 'e unicorn_call list \<Rightarrow> bool" for cfg :: cfg and uuid :: string where
  started: "announce q c (new_announcer cfg uuid) = Some (False, a, l) \<Longrightarrow> an_run cfg uuid False a l"
| retried: "an_run cfg uuid t a l \<Longrightarrow> an_timer a \<Longrightarrow> announce q c (a\<lparr>an_timer := False\<rparr>) = Some (t', a', l') \<Longrightarrow> an_run cfg uuid t' a' (l @ l')"
| replied: "an_run cfg uuid t a l \<Longrightarrow> an_scope a = Creating \<Longrightarrow> on_set r ok a = (t', a', l') \<Longrightarrow> an_run cfg uuid t' a' (l @ l')"
| checked: "an_run cfg uuid t a l \<Longrightarrow> an_scope a = Watching \<Longrightarrow> on_check v a = (t', a') \<Longrightarrow> an_run cfg uuid t' a' l"

definition own_call :: "string \<Rightarrow> 'e list \<Rightarrow> 'e unicorn_call \<Rightarrow> bool" where
  "own_call path eps c \<longleftrightarrow> c = Uc_create path eps \<or> c = Uc_create path [] \<or> c = Uc_subscribe path"

lemma announce_cases:
  assumes "announce q c a = Some (t, a', l)"
  shows "(t \<or> an_timer a' \<or> an_scope a' = Creating) \<and> an_path a' = an_path a \<and>
     (an_endpoints a \<noteq> [] \<longrightarrow> an_endpoints a' = an_endpoints a) \<and> list_all (own_call (an_path a) (an_endpoints a')) l"
  using assms
  by (auto simp: announce_def set_and_check_endpoints_def defer_retry_def own_call_def Let_def split: option.splits if_splits call_end.splits)

lemma own_call_mono: "list_all (own_call p eps) l \<Longrightarrow> eps \<noteq> [] \<longrightarrow> eps' = eps \<Longrightarrow> list_all (own_call p eps') l"
  by (cases "eps = []") (auto simp: own_call_def list_all_iff)

text \<open>
  C35:
  Whatever the backend replies and whichever of its calls throw: the announcer is silent, with no
  retry scheduled and its node neither being created nor watched, only directly after a step that an
  exception has left: \<open>subscribe()\<close> threw, or something was thrown that is not a \<^verbatim>\<open>std::system_error\<close>. In all
  other states a callback is still to come. Conversely a throw of \<open>subscribe()\<close> silences the announcer unless a
  retry was already scheduled. It only ever touches its own node, and announces the endpoints it has
  once obtained from the locator.
\<close>

theorem cluster_announces:
  assumes "an_run cfg uuid threw a l"
  shows "(threw \<or> an_timer a \<or> an_scope a \<noteq> No_operation) \<and> an_path a = cf_path cfg @ ''/'' @ uuid \<and>
     list_all (own_call (an_path a) (an_endpoints a)) l \<and>
     (\<forall>r a' l'. r \<in> {Created, Node_exists} \<and> on_set r False a = (True, a', l') \<longrightarrow>
        an_scope a' = No_operation \<and> an_timer a' = an_timer a)"
proof -
  have "(threw \<or> an_timer a \<or> an_scope a \<noteq> No_operation) \<and> an_path a = cf_path cfg @ ''/'' @ uuid \<and>
     list_all (own_call (an_path a) (an_endpoints a)) l"
    using assms
  proof (induction rule: an_run.induct)
    case (started q c a l)
    then show ?case using announce_cases [of q c "new_announcer cfg uuid" False a l] by (auto simp: new_announcer_def)
  next
    case (retried t a l q c t' a' l')
    then show ?case
      using announce_cases [of q c "a\<lparr>an_timer := False\<rparr>" t' a' l'] own_call_mono [of "an_path a" "an_endpoints a" l "an_endpoints a'"] by auto
  next
    case (replied t a l r ok t' a' l')
    then show ?case by (auto simp: on_set_def defer_retry_def own_call_def Let_def split: if_splits)
  next
    case (checked t a l v t' a')
    then show ?case by (auto simp: on_check_def defer_retry_def split: check_reply.splits if_splits)
  qed
  then show ?thesis by (auto simp: on_set_def Let_def)
qed

definition sample_cfg :: cfg where
  "sample_cfg = \<lparr>cf_path = ''/d'', cf_retry_interval = 10\<rparr>"

theorem cluster_announces_witness:
  "\<exists>a l. an_run sample_cfg ''n1'' False a l \<and> l = [Uc_create ''/d/n1'' [1], Uc_subscribe ''/d/n1'', Uc_create ''/d/n1'' [1 :: nat]] \<and>
     (an_timer a \<or> an_scope a \<noteq> No_operation)"
proof -
  let ?a = "new_announcer sample_cfg ''n1''"
  let ?b = "?a\<lparr>an_endpoints := [1 :: nat]\<rparr>"
  have "an_run sample_cfg ''n1'' False (?b\<lparr>an_scope := Creating\<rparr>) [Uc_create ''/d/n1'' [1]]"
    by (rule an_run.started [of "Some [1]" Call_ok]) code_simp
  from an_run.replied [OF this, of Created True False "?b\<lparr>an_scope := Watching\<rparr>" "[Uc_subscribe ''/d/n1'']"]
  have "an_run sample_cfg ''n1'' False (?b\<lparr>an_scope := Watching\<rparr>) [Uc_create ''/d/n1'' [1], Uc_subscribe ''/d/n1'']"
    by (simp add: on_set_def new_announcer_def sample_cfg_def Let_def)
  from an_run.checked [OF this, of "Version (- 1)" False "?b\<lparr>an_scope := Watching, an_timer := True\<rparr>"]
  have "an_run sample_cfg ''n1'' False (?b\<lparr>an_scope := Watching, an_timer := True\<rparr>) [Uc_create ''/d/n1'' [1], Uc_subscribe ''/d/n1'']"
    by (simp add: on_check_def defer_retry_def)
  from an_run.retried [OF this, of "Some [1]" Call_ok False "?b\<lparr>an_scope := Creating\<rparr>" "[Uc_create ''/d/n1'' [1]]"]
  have r: "an_run sample_cfg ''n1'' False (?b\<lparr>an_scope := Creating\<rparr>) [Uc_create ''/d/n1'' [1], Uc_subscribe ''/d/n1'', Uc_create ''/d/n1'' [1]]"
    by (simp add: announce_def set_and_check_endpoints_def new_announcer_def sample_cfg_def Let_def)
  with cluster_announces [OF r] show ?thesis by blast
qed

section \<open>The members of the cluster\<close>

fun linked :: "'e locator_call list \<Rightarrow> string set \<Rightarrow> string set" where
  "linked [] L = L"
| "linked (Drop_node n # cs) L = linked cs (L - {n})"
| "linked (Link_node n eps # cs) L = linked cs (insert n L)"

lemma linked_append: "linked (cs @ ds) L = linked ds (linked cs L)"
  by (induction cs L rule: linked.induct) auto

definition members :: "'e subscriber \<Rightarrow> string set" where
  "members s = linked (sb_locator s) {}"

definition known :: "'e subscriber \<Rightarrow> string set" where
  "known s = set (um_keys (sb_nodes s))"

lemma members_tell [simp]: "members (tell (Drop_node n) s) = members s - {n}" "members (tell (Link_node n eps) s) = insert n (members s)"
  by (simp_all add: members_def tell_def linked_append)

lemma nodes_tell [simp]: "sb_nodes (tell c s) = sb_nodes s" "sb_timer (tell c s) = sb_timer s" "sb_children (tell c s) = sb_children s"
  by (simp_all add: tell_def)

lemma put_node_simps [simp]:
  "members (put_node n x s) = members s" "known (put_node n x s) = insert n (known s)" "sb_timer (put_node n x s) = sb_timer s"
  "sb_children (put_node n x s) = sb_children s"
  by (auto simp: members_def known_def put_node_def um_keys_insert)

lemma known_tell [simp]: "known (tell c s) = known s"
  by (simp add: known_def)

lemma erase_simps [simp]:
  "members (s\<lparr>sb_nodes := um_erase k (sb_nodes s)\<rparr>) = members s" "known (s\<lparr>sb_nodes := um_erase k (sb_nodes s)\<rparr>) = known s - {k}"
  by (auto simp: members_def known_def um_keys_erase)

text \<open>Linked nodes are known, and the own node is not; a callback is still to come.\<close>

definition sb_inv :: "string \<Rightarrow> 'e subscriber \<Rightarrow> bool" where
  "sb_inv self s \<longleftrightarrow> self \<notin> known s \<and> members s \<subseteq> known s"

lemma drop_missing_spec:
  "members (drop_missing nodes ks s) = members s - (set ks - set nodes) \<and>
   known (drop_missing nodes ks s) = known s - (set ks - set nodes) \<and>
   (\<forall>n \<in> set nodes. um_find n (sb_nodes (drop_missing nodes ks s)) = um_find n (sb_nodes s)) \<and>
   sb_timer (drop_missing nodes ks s) = sb_timer s \<and> sb_children (drop_missing nodes ks s) = sb_children s"
proof (induction ks arbitrary: s)
  case (Cons k ks)
  let ?s = "tell (Drop_node k) s\<lparr>sb_nodes := um_erase k (sb_nodes s)\<rparr>"
  have "members ?s = members s - {k}" "known ?s = known s - {k}"
    by (auto simp: members_def known_def tell_def um_keys_erase linked_append)
  then show ?case using Cons [of ?s] Cons [of s] by (auto split: if_splits)
qed simp

lemma link_nodes_inv:
  assumes "sb_inv self s" and "link_nodes self ok ns s = (threw, s')"
  shows "sb_inv self s' \<and> known s \<subseteq> known s' \<and> known s' \<subseteq> known s \<union> (set ns - {self}) \<and> members s \<subseteq> members s' \<and>
     sb_timer s' = sb_timer s \<and> sb_children s' = sb_children s \<and> (\<not> threw \<longrightarrow> set ns - {self} \<subseteq> known s')"
  using assms
proof (induction ns arbitrary: s)
  case (Cons n ns)
  let ?x = "node_or_new n s"
  let ?s1 = "put_node n ?x s"
  show ?case
  proof (cases "n = self")
    case True
    then show ?thesis using Cons by auto
  next
    case ne: False
    let ?link = "tell (Link_node n (su_endpoints ?x)) ?s1" and ?sub = "put_node n (?x\<lparr>su_scope := True\<rparr>) ?s1"
    have inv: "sb_inv self ?s1" "sb_inv self ?link" "sb_inv self ?sub" using Cons.prems(1) ne by (auto simp: sb_inv_def)
    consider "su_endpoints ?x \<noteq> []" | "su_endpoints ?x = []" "ok n" | "su_endpoints ?x = []" "\<not> ok n" by blast
    then show ?thesis
    proof cases
      case 1
      then have "link_nodes self ok ns ?link = (threw, s')" using Cons.prems(2) ne by (simp add: Let_def)
      from Cons.IH [OF inv(2) this] show ?thesis using ne by auto
    next
      case 2
      then have "link_nodes self ok ns ?sub = (threw, s')" using Cons.prems(2) ne by (simp add: Let_def)
      from Cons.IH [OF inv(3) this] show ?thesis using ne by auto
    next
      case 3
      then have "threw" "s' = ?s1" using Cons.prems(2) ne by (simp_all add: Let_def)
      then show ?thesis using inv(1) ne by auto
    qed
  qed
qed simp

definition subscribed :: "string \<Rightarrow> 'e subscriber \<Rightarrow> bool" where
  "subscribed n s \<longleftrightarrow> (case um_find n (sb_nodes s) of Some x \<Rightarrow> su_scope x | None \<Rightarrow> False)"

lemma node_or_new_simps [simp]:
  "node_or_new m (put_node n x s) = (if m = n then x else node_or_new m s)" "node_or_new m (tell c s) = node_or_new m s"
  by (simp_all add: node_or_new_def put_node_def)

lemma subscribed_simps [simp]:
  "subscribed m (put_node n x s) = (if m = n then su_scope x else subscribed m s)" "subscribed m (tell c s) = subscribed m s"
  by (auto simp: subscribed_def put_node_def)

lemma subscribed_node: "subscribed n s = su_scope (node_or_new n s)"
  by (simp add: subscribed_def node_or_new_def split: option.split)

lemma link_nodes_mono:
  "link_nodes self ok ns s = (threw, s') \<Longrightarrow> members s \<subseteq> members s' \<and> (subscribed n s \<longrightarrow> subscribed n s')"
proof (induction ns arbitrary: s)
  case (Cons m ns)
  then show ?case by (fastforce simp: Let_def subscribed_node split: if_splits)
qed simp

lemma link_nodes_each:
  assumes "link_nodes self ok ns s = (False, s')" and "n \<in> set ns" and "n \<noteq> self"
  shows "if su_endpoints (node_or_new n s) \<noteq> [] then n \<in> members s' else subscribed n s'"
  using assms
proof (induction ns arbitrary: s)
  case (Cons m ns)
  let ?x = "node_or_new m s"
  let ?s1 = "put_node m ?x s"
  let ?link = "tell (Link_node m (su_endpoints ?x)) ?s1" and ?sub = "put_node m (?x\<lparr>su_scope := True\<rparr>) ?s1"
  show ?case
  proof (cases "m = self")
    case True
    then show ?thesis using Cons by simp
  next
    case ne: False
    show ?thesis
    proof (cases "su_endpoints ?x \<noteq> []")
      case True
      then have l: "link_nodes self ok ns ?link = (False, s')" using Cons.prems(1) ne by (simp add: Let_def)
      then show ?thesis
        using Cons.IH [OF l] Cons.prems(2,3) True link_nodes_mono [OF l, of n] by (cases "n = m") (auto split: if_splits)
    next
      case False
      then have l: "link_nodes self ok ns ?sub = (False, s')" using Cons.prems(1) ne by (simp add: Let_def split: if_splits)
      then show ?thesis
        using Cons.IH [OF l] Cons.prems(2,3) False link_nodes_mono [OF l, of n] by (cases "n = m") (auto split: if_splits)
    qed
  qed
qed simp

lemma update_state_inv:
  assumes "sb_inv self s" and "update_state self ok nodes s = (threw, s')"
  shows "sb_inv self s' \<and> known s' \<subseteq> set nodes - {self} \<and> sb_timer s' = sb_timer s \<and> sb_children s' = sb_children s"
proof -
  let ?d = "drop_missing nodes (um_keys (sb_nodes s)) s"
  have d: "members ?d = members s - (known s - set nodes)" "known ?d = known s \<inter> set nodes" "sb_timer ?d = sb_timer s" "sb_children ?d = sb_children s"
    using drop_missing_spec [of nodes "um_keys (sb_nodes s)" s] by (auto simp: known_def)
  then have "sb_inv self ?d" using assms(1) by (auto simp: sb_inv_def)
  from link_nodes_inv [OF this assms(2) [unfolded update_state_def]] show ?thesis using d assms(1) by (auto simp: sb_inv_def)
qed

inductive sb_run :: "string \<Rightarrow> 'e subscriber \<Rightarrow> bool" for self :: string where
  started: "subscribe ok new_subscriber = (False, s) \<Longrightarrow> sb_run self s"
| children: "sb_run self s \<Longrightarrow> sb_children s \<Longrightarrow> sb_run self (on_children self ok r s)"
| node: "sb_run self s \<Longrightarrow> subscribed n s \<Longrightarrow> on_node n r s = Some s' \<Longrightarrow> sb_run self s'"
| retried: "sb_run self s \<Longrightarrow> sb_timer s \<Longrightarrow> subscribe ok (s\<lparr>sb_timer := False\<rparr>) = (False, s') \<Longrightarrow> sb_run self s'"

lemma subscribed_known: "subscribed n s \<Longrightarrow> n \<in> known s"
  using um_find_None_iff [of n "sb_nodes s"] by (auto simp: subscribed_def known_def split: option.splits)

lemma terminate_node_simps [simp]:
  "members (terminate_node n s) = members s - {n}" "known (terminate_node n s) = known s - {n}"
  "sb_timer (terminate_node n s) = sb_timer s" "sb_children (terminate_node n s) = sb_children s"
  by (auto simp: terminate_node_def members_def known_def tell_def um_keys_erase linked_append)

lemma node_failed_simps [simp]:
  "members (node_failed n s) = members s" "known (node_failed n s) = insert n (known s)" "sb_timer (node_failed n s)"
  by (auto simp: node_failed_def members_def known_def put_node_def um_keys_insert)

lemma on_node_inv:
  assumes "sb_inv self s" and "n \<in> known s" and "on_node n r s = Some s'"
  shows "sb_inv self s' \<and> (sb_timer s \<or> sb_children s \<longrightarrow> sb_timer s' \<or> sb_children s')"
proof -
  have "n \<noteq> self" using assms(1,2) by (auto simp: sb_inv_def)
  with assms show ?thesis
    by (auto simp: on_node_def sb_inv_def Let_def split: node_reply.splits option.splits if_splits)
qed

lemma sb_run_inv: "sb_run self s \<Longrightarrow> sb_inv self s \<and> (sb_timer s \<or> sb_children s)"
proof (induction rule: sb_run.induct)
  case (started ok s)
  then show ?case by (auto simp: subscribe_def new_subscriber_def sb_inv_def members_def known_def um_keys_def split: if_splits)
next
  case (children s ok r)
  have frame: "sb_inv self (t\<lparr>sb_timer := a\<rparr>) = sb_inv self t" "sb_inv self (t\<lparr>sb_timer := a, sb_children := b\<rparr>) = sb_inv self t" for a b t
    by (simp_all add: sb_inv_def members_def known_def)
  from children show ?case
    using update_state_inv [of self s ok] by (auto simp: on_children_def frame split: option.splits prod.splits bool.splits)
next
  case (node s n r s')
  then show ?case using on_node_inv [of self s n r s'] subscribed_known [of n s] by blast
next
  case (retried s ok s')
  then show ?case by (auto simp: subscribe_def sb_inv_def members_def known_def split: if_splits)
qed

text \<open>
  C27:
  In every run in which callbacks only come for open subscriptions: the node never links
  itself, every linked node has an entry, and either the list of nodes is still
  subscribed to or a retry is scheduled. A list of nodes that is processed without
  an exception makes the entries exactly the other nodes of the list, drops the rest,
  and every node of the list is linked, if its endpoints were known, or subscribed to.
\<close>

theorem cluster_members:
  assumes "sb_run self s"
  shows "self \<notin> members s \<and> members s \<subseteq> known s \<and> (sb_timer s \<or> sb_children s) \<and>
     (\<forall>ok nodes s'. update_state self ok nodes s = (False, s') \<longrightarrow>
        known s' = set nodes - {self} \<and> members s' \<subseteq> set nodes - {self} \<and>
        (\<forall>n \<in> set nodes - {self}. if su_endpoints (node_or_new n s) \<noteq> [] then n \<in> members s' else subscribed n s'))"
proof -
  have inv: "sb_inv self s" "sb_timer s \<or> sb_children s" using sb_run_inv [OF assms] by auto
  have "known s' = set nodes - {self} \<and> members s' \<subseteq> set nodes - {self} \<and>
      (\<forall>n \<in> set nodes - {self}. if su_endpoints (node_or_new n s) \<noteq> [] then n \<in> members s' else subscribed n s')"
    if u: "update_state self ok nodes s = (False, s')" for ok nodes s'
  proof -
    let ?d = "drop_missing nodes (um_keys (sb_nodes s)) s"
    note dm = drop_missing_spec [of nodes "um_keys (sb_nodes s)" s]
    have d: "sb_inv self ?d" using dm inv(1) by (auto simp: sb_inv_def known_def)
    have l: "link_nodes self ok nodes ?d = (False, s')" using u by (simp add: update_state_def)
    have "node_or_new n ?d = node_or_new n s" if "n \<in> set nodes" for n using dm that by (simp add: node_or_new_def)
    then have "\<forall>n \<in> set nodes - {self}. if su_endpoints (node_or_new n s) \<noteq> [] then n \<in> members s' else subscribed n s'"
      using link_nodes_each [OF l] by auto
    moreover have "known s' = set nodes - {self}" using link_nodes_inv [OF d l] update_state_inv [OF inv(1) u] by auto
    moreover have "members s' \<subseteq> known s'" using update_state_inv [OF inv(1) u] by (simp add: sb_inv_def)
    ultimately show ?thesis by blast
  qed
  then show ?thesis using inv by (auto simp: sb_inv_def)
qed

theorem cluster_members_witness:
  "\<exists>s :: nat subscriber. sb_run ''a'' s \<and> members s = {''b''} \<and> ''a'' \<notin> members s \<and>
     (\<forall>ok s'. update_state ''a'' ok [''a'', ''c''] s = (False, s') \<longrightarrow> known s' = {''c''} \<and> subscribed ''c'' s')"
proof -
  let ?b = "\<lparr>su_endpoints = [], su_scope = True\<rparr>"
  let ?s1 = "\<lparr>sb_nodes = [(''b'', ?b)], sb_timer = False, sb_children = True, sb_locator = []\<rparr> :: nat subscriber"
  let ?s = "\<lparr>sb_nodes = [(''b'', ?b\<lparr>su_endpoints := [7 :: nat]\<rparr>)], sb_timer = False, sb_children = True, sb_locator = [Link_node ''b'' [7]]\<rparr>"
  have "sb_run ''a'' (new_subscriber\<lparr>sb_children := True\<rparr> :: nat subscriber)"
    by (rule sb_run.started [of True]) (simp add: subscribe_def)
  from sb_run.children [OF this, of "\<lambda>n. True" "Some [''a'', ''b'']"]
  have "sb_run ''a'' ?s1"
    by (simp add: on_children_def update_state_def new_subscriber_def um_keys_def node_or_new_def put_node_def um_insert_def)
  from sb_run.node [OF this, of "''b''" "Node_value True (Some [7])" ?s]
  have r: "sb_run ''a'' ?s"
    by (simp add: subscribed_def on_node_def node_or_new_def put_node_def tell_def um_insert_def)
  have "members ?s = {''b''}" by (simp add: members_def)
  moreover have "su_endpoints (node_or_new ''c'' ?s) = []" by (simp add: node_or_new_def)
  ultimately show ?thesis using cluster_members [OF r] r by (intro exI [of _ ?s]) auto
qed

text \<open>
  Three gaps. If the call to subscribe throws after the creation, the exception leaves the
  callback and the announcer is silent from then on: nothing is scheduled, and a later
  loss of the announcement is never noticed. A node that announces no endpoints is dropped
  and then linked again, without endpoints. A node whose endpoints change is
  dropped by erasing the entry to which the code then writes.
\<close>

theorem cluster_gaps:
  "(case on_set Created False (new_announcer cfg uuid) of
      (threw, a, l) \<Rightarrow> threw \<and> \<not> an_timer a \<and> an_scope a = No_operation) \<and>
   map_option sb_locator (on_node n (Node_value True (Some [])) s) = Some (sb_locator s @ [Drop_node n, Link_node n []]) \<and>
   on_node n (Node_value True (Some [2 :: nat])) (put_node n \<lparr>su_endpoints = [1], su_scope = True\<rparr> s') = None"
proof (intro conjI)
  show "map_option sb_locator (on_node n (Node_value True (Some [])) s) = Some (sb_locator s @ [Drop_node n, Link_node n []])"
    by (simp add: on_node_def terminate_node_def tell_def put_node_def node_or_new_def Let_def)
qed (simp_all add: on_set_def new_announcer_def on_node_def Let_def)

end
