(* ===== verification/Uniresis.thy ===== *)
theory Uniresis
  imports Node_Config
begin

section \<open>The resource service\<close>

text \<open>
  The uniresis service (\<^verbatim>\<open>src/uniresis\<close>): it registers the processors and the memory of the
  machine, within configured restrictions, as a node of unicorn, and answers queries for them.

  What the system reports, the endpoints the host name resolves to and the replies of
  the unicorn backend are arguments. The processors are a 32-bit and the memory a 64-bit
  number, as in the code. The calls of the backend are a result of the operations.
\<close>

subsection \<open>Resources\<close>

record resources =
  re_cpu :: "32 word"
  re_mem :: u64

datatype uniresis_error = Failed_calculate_cpu_count | Failed_calculate_system_memory | Bad_args dynamic_error

text \<open>Pages times page size, as the product of two 64-bit numbers.\<close>

definition total_system_memory :: "u64 \<Rightarrow> u64 \<Rightarrow> u64" where
  "total_system_memory pages page_size = pages * page_size"

definition new_resources :: "32 word \<Rightarrow> u64 \<Rightarrow> u64 \<Rightarrow> resources" where
  "new_resources concurrency pages page_size = \<lparr>re_cpu = concurrency, re_mem = total_system_memory pages page_size\<rparr>"

definition restrict :: "(string \<times> 'd dynamic) list \<Rightarrow> resources \<Rightarrow> (dynamic_error, resources) result" where
  "restrict restrictions r =
     bindE (as_uint (at_default restrictions ''cpu'' (D_uint (ucast (re_cpu r))))) (\<lambda>cpu.
     bindE (as_uint (at_default restrictions ''mem'' (D_uint (re_mem r)))) (\<lambda>mem.
     Inr \<lparr>re_cpu = min (re_cpu r) (ucast cpu), re_mem = min (re_mem r) mem\<rparr>))"

subsection \<open>The updater\<close>

datatype up_operation = Up_idle | Up_creating | Up_watching

record 'd updater =
  up_path :: string
  up_hostname :: string
  up_endpoints :: "(string \<times> 16 word) list"
  up_extra :: "(string \<times> 'd dynamic) list"
  up_resources :: resources
  up_scope :: up_operation
  up_timer :: bool

datatype 'd up_call = Up_create string "'d dynamic" | Up_subscribe string

definition make_value :: "'d updater \<Rightarrow> 'd dynamic" where
  "make_value u =
     D_object [(''endpoints'', D_array (map (\<lambda>(a, p). D_array [D_string a, D_uint (ucast p)]) (up_endpoints u))),
               (''extra'', D_object (up_extra u)),
               (''hostname'', D_string (up_hostname u)),
               (''resources'', D_object [(''cpu'', D_uint (ucast (re_cpu (up_resources u)))), (''mem'', D_uint (re_mem (up_resources u)))])]"

text \<open>The flag of an operation says that an exception left it.\<close>

definition notify :: "bool \<Rightarrow> 'd updater \<Rightarrow> bool \<times> 'd updater \<times> 'd up_call list" where
  "notify ok u =
     (if ok then (False, u\<lparr>up_scope := Up_creating\<rparr>, [Up_create (up_path u) (make_value u)])
      else (True, u, [Up_create (up_path u) (make_value u)]))"

definition notify_later :: "'d updater \<Rightarrow> 'd updater" where
  "notify_later u = u\<lparr>up_timer := True\<rparr>"

text \<open>The reply to the creation: an exception, or whether the node was created. A throw of subscribe is caught.\<close>

definition on_create :: "bool option \<Rightarrow> bool \<Rightarrow> 'd updater \<Rightarrow> 'd updater \<times> 'd up_call list" where
  "on_create r subscribe_ok u =
     (let u = u\<lparr>up_scope := Up_idle\<rparr> in
      case r of
        None \<Rightarrow> (notify_later u, [])
      | Some False \<Rightarrow> (notify_later u, [])
      | Some True \<Rightarrow>
          (if subscribe_ok then (u\<lparr>up_scope := Up_watching\<rparr>, [Up_subscribe (up_path u)])
           else (notify_later u, [Up_subscribe (up_path u)])))"

text \<open>A notification of the subscription: the version of the node, or its end by an exception.\<close>

definition on_subscribe :: "int option \<Rightarrow> bool \<Rightarrow> 'd updater \<Rightarrow> bool \<times> 'd updater \<times> 'd up_call list" where
  "on_subscribe r create_ok u =
     (case r of
        Some v \<Rightarrow> (False, u, [])
      | None \<Rightarrow> notify create_ok (u\<lparr>up_scope := Up_idle\<rparr>))"

subsection \<open>The service\<close>

record uniresis =
  ur_uuid :: string
  ur_resources :: resources

definition new_uniresis ::
  "32 word \<Rightarrow> u64 \<Rightarrow> u64 \<Rightarrow> string \<Rightarrow> string \<Rightarrow> (string \<times> 16 word) list \<Rightarrow> (string \<times> 'd dynamic) list \<Rightarrow> 'd dynamic \<Rightarrow>
   (uniresis_error, uniresis \<times> 'd updater) result" where
  "new_uniresis concurrency pages page_size uuid hostname endpoints extra args =
     (let r = new_resources concurrency pages page_size in
      if re_cpu r = 0 then Inl Failed_calculate_cpu_count
      else if re_mem r = 0 then Inl Failed_calculate_system_memory
      else lift_error Bad_args (
        bindE (as_object args) (\<lambda>m.
        bindE (as_object (at_default m ''restrictions'' (D_object []))) (\<lambda>restrictions.
        bindE (restrict restrictions r) (\<lambda>r'.
        bindE (as_string (at_default m ''prefix'' (D_string ''/resources''))) (\<lambda>pre.
        bindE (as_string (at_default m ''unicorn'' (D_string ''core''))) (\<lambda>unicorn.
        Inr (\<lparr>ur_uuid = uuid, ur_resources = r'\<rparr>,
             \<lparr>up_path = pre @ ''/'' @ uuid, up_hostname = hostname, up_endpoints = endpoints, up_extra = extra,
              up_resources = r', up_scope = Up_idle, up_timer = False\<rparr>))))))))"

definition cpu_count :: "uniresis \<Rightarrow> 32 word" where
  "cpu_count u = re_cpu (ur_resources u)"

definition memory_count :: "uniresis \<Rightarrow> u64" where
  "memory_count u = re_mem (ur_resources u)"

section \<open>What is registered\<close>

definition registered :: "'d dynamic \<Rightarrow> string \<Rightarrow> u64 option" where
  "registered v k =
     (case v of
        D_object m \<Rightarrow> (case map_of m ''resources'' of
           Some (D_object rs) \<Rightarrow> (case map_of rs k of Some (D_uint n) \<Rightarrow> Some n | _ \<Rightarrow> None)
         | _ \<Rightarrow> None)
      | _ \<Rightarrow> None)"

text \<open>
  The runs of the updater of a service that was constructed, so that the first creation did not throw; the flag is
  whether an exception left the last step.
\<close>

inductive up_run :: "'d updater \<Rightarrow> bool \<Rightarrow> 'd updater \<Rightarrow> 'd up_call list \<Rightarrow> bool" for u0 :: "'d updater" where
  started: "notify ok u0 = (False, u, l) \<Longrightarrow> up_run u0 False u l"
| created: "up_run u0 t u l \<Longrightarrow> up_scope u = Up_creating \<Longrightarrow> on_create r ok u = (u', l') \<Longrightarrow> up_run u0 False u' (l @ l')"
| notified: "up_run u0 t u l \<Longrightarrow> up_scope u = Up_watching \<Longrightarrow> on_subscribe r ok u = (t', u', l') \<Longrightarrow> up_run u0 t' u' (l @ l')"
| retried: "up_run u0 t u l \<Longrightarrow> up_timer u \<Longrightarrow> notify ok (u\<lparr>up_timer := False\<rparr>) = (t', u', l') \<Longrightarrow> up_run u0 t' u' (l @ l')"

lemma up_run_inv:
  assumes "up_run u0 t u l" and "up_timer u0 = False" and "up_scope u0 = Up_idle"
  shows "(t \<or> up_timer u \<or> up_scope u \<noteq> Up_idle) \<and> (up_timer u \<longrightarrow> up_scope u = Up_idle) \<and> up_path u = up_path u0 \<and> make_value u = make_value u0 \<and>
     (t \<longrightarrow> \<not> up_timer u \<and> up_scope u = Up_idle) \<and>
     set l \<subseteq> {Up_create (up_path u0) (make_value u0), Up_subscribe (up_path u0)}"
  using assms
proof (induction rule: up_run.induct)
  case (started ok u l)
  then show ?case by (auto simp: notify_def make_value_def split: if_splits)
next
  case (created t u l r ok u' l')
  then show ?case
    by (auto simp: on_create_def notify_later_def make_value_def Let_def split: option.splits bool.splits if_splits)
next
  case (notified t u l r ok t' u' l')
  then show ?case by (auto simp: on_subscribe_def notify_def make_value_def split: option.splits if_splits)
next
  case (retried t u l ok t' u' l')
  then show ?case by (auto simp: notify_def make_value_def split: if_splits)
qed

lemma lift_error_returns: "lift_error h x = Inr y \<longleftrightarrow> x = Inr y"
  by (cases x) auto

lemma restrict_bounds:
  assumes "restrict restrictions r = Inr r'"
  shows "re_cpu r' \<le> re_cpu r \<and> re_mem r' \<le> re_mem r \<and>
     (\<forall>c. um_find ''cpu'' restrictions = Some (D_uint c) \<longrightarrow> re_cpu r' \<le> ucast c) \<and>
     (\<forall>m. um_find ''mem'' restrictions = Some (D_uint m) \<longrightarrow> re_mem r' \<le> m)"
  using assms by (auto simp: restrict_def bindE_Inr_conv at_default_def)

text \<open>
  C39:
  Every value the service registers, whatever the backend replies or throws, is under the path
  of its own identifier and carries what the service
  answers to queries: never more processors or memory than the machine has,
  nor than a restriction allows. The updater is silent, with no retry scheduled and its node neither being created
  nor watched, exactly if an exception of creating the node again has left the last
  step; otherwise a callback is still to come.
\<close>

theorem uniresis_registers:
  assumes "new_uniresis concurrency pages page_size uuid hostname endpoints extra (D_object m) = Inr (s, u0)"
    and "up_run u0 threw u l"
  shows "(threw \<longleftrightarrow> \<not> up_timer u \<and> up_scope u = Up_idle) \<and>
     (\<forall>path v. Up_create path v \<in> set l \<longrightarrow>
        (\<exists>pre. path = pre @ ''/'' @ uuid) \<and>
        registered v ''cpu'' = Some (ucast (cpu_count s)) \<and> registered v ''mem'' = Some (memory_count s)) \<and>
     cpu_count s \<le> concurrency \<and> memory_count s \<le> pages * page_size \<and>
     (\<forall>rs c. um_find ''restrictions'' m = Some (D_object rs) \<and> um_find ''cpu'' rs = Some (D_uint c) \<longrightarrow> cpu_count s \<le> ucast c) \<and>
     (\<forall>rs n. um_find ''restrictions'' m = Some (D_object rs) \<and> um_find ''mem'' rs = Some (D_uint n) \<longrightarrow> memory_count s \<le> n)"
proof -
  let ?r = "new_resources concurrency pages page_size"
  from assms(1) have "lift_error Bad_args (
        bindE (as_object (at_default m ''restrictions'' (D_object []))) (\<lambda>restrictions.
        bindE (restrict restrictions ?r) (\<lambda>r'.
        bindE (as_string (at_default m ''prefix'' (D_string ''/resources''))) (\<lambda>pre.
        bindE (as_string (at_default m ''unicorn'' (D_string ''core''))) (\<lambda>unicorn.
        Inr (\<lparr>ur_uuid = uuid, ur_resources = r'\<rparr>,
             \<lparr>up_path = pre @ ''/'' @ uuid, up_hostname = hostname, up_endpoints = endpoints, up_extra = extra,
              up_resources = r', up_scope = Up_idle, up_timer = False\<rparr>)))))) = Inr (s, u0)"
    by (simp add: new_uniresis_def Let_def split: if_splits)
  then obtain restrictions r' pre where
    rs: "as_object (at_default m ''restrictions'' (D_object [])) = Inr restrictions" "restrict restrictions ?r = Inr r'"
    and s: "s = \<lparr>ur_uuid = uuid, ur_resources = r'\<rparr>"
    and u0: "u0 = \<lparr>up_path = pre @ ''/'' @ uuid, up_hostname = hostname, up_endpoints = endpoints, up_extra = extra,
              up_resources = r', up_scope = Up_idle, up_timer = False\<rparr>"
    by (auto simp: bindE_Inr_conv lift_error_returns)
  have inv: "threw \<longleftrightarrow> \<not> up_timer u \<and> up_scope u = Up_idle" "set l \<subseteq> {Up_create (up_path u0) (make_value u0), Up_subscribe (up_path u0)}"
    using up_run_inv [OF assms(2)] u0 by auto
  have "registered (make_value u0) ''cpu'' = Some (ucast (cpu_count s))" "registered (make_value u0) ''mem'' = Some (memory_count s)"
    by (simp_all add: registered_def make_value_def u0 s cpu_count_def memory_count_def)
  moreover have "um_find ''restrictions'' m = Some (D_object xs) \<Longrightarrow> restrictions = xs" for xs
    using rs(1) by (simp add: at_default_def)
  moreover note restrict_bounds [OF rs(2)]
  ultimately show ?thesis
    using inv u0 by (auto simp: s cpu_count_def memory_count_def new_resources_def total_system_memory_def)
qed

definition sample_args :: "int dynamic" where
  "sample_args = D_object [(''restrictions'', D_object [(''cpu'', D_uint 4)])]"

theorem uniresis_registers_witness:
  "\<exists>s u0 u l. new_uniresis 8 1024 4096 ''id'' ''host'' [(''::1'', 10053)] [] sample_args = Inr (s, u0) \<and> up_run u0 True u l \<and>
     cpu_count s \<le> ucast (4 :: u64) \<and> \<not> up_timer u \<and> up_scope u = Up_idle"
proof -
  let ?r = "\<lparr>re_cpu = 4, re_mem = 4194304\<rparr>"
  let ?u = "\<lparr>up_path = ''/resources/id'', up_hostname = ''host'', up_endpoints = [(''::1'', 10053)], up_extra = [], up_resources = ?r,
    up_scope = Up_idle, up_timer = False\<rparr> :: int updater"
  have n: "new_uniresis 8 1024 4096 ''id'' ''host'' [(''::1'', 10053)] [] sample_args = Inr (\<lparr>ur_uuid = ''id'', ur_resources = ?r\<rparr>, ?u)"
    by code_simp
  let ?c = "[Up_create ''/resources/id'' (make_value ?u)]"
  have "up_run ?u False (?u\<lparr>up_scope := Up_creating\<rparr>) ?c"
    by (rule up_run.started [of True]) (simp add: notify_def)
  from up_run.created [OF this, of None True "?u\<lparr>up_timer := True\<rparr>" "[]"]
  have "up_run ?u False (?u\<lparr>up_timer := True\<rparr>) ?c" by (simp add: on_create_def notify_later_def)
  from up_run.retried [OF this, of False True ?u ?c]
  have r: "up_run ?u True ?u (?c @ ?c)" by (simp add: notify_def make_value_def)
  have "um_find ''restrictions'' [(''restrictions'', D_object [(''cpu'', D_uint 4 :: int dynamic)])] = Some (D_object [(''cpu'', D_uint 4)]) \<and>
      um_find ''cpu'' [(''cpu'', D_uint 4 :: int dynamic)] = Some (D_uint 4)" by simp
  with uniresis_registers [OF n [unfolded sample_args_def] r] n r show ?thesis by blast
qed

text \<open>
  Three gaps. When its node is removed, the subscription reports a version below zero, which the
  updater only logs: the resources are never registered again. A restriction of
  \<open>2 ^ 32\<close> processors is taken modulo \<open>2 ^ 32\<close>, so that the machine offers none. An
  exception of creating the node on a retry leaves the handler, with nothing scheduled.
\<close>

theorem uniresis_gaps:
  "on_subscribe (Some (- 1)) ok u = (False, u, []) \<and>
   restrict [(''cpu'', D_uint (2 ^ 32) :: int dynamic)] \<lparr>re_cpu = 8, re_mem = 1\<rparr> = Inr \<lparr>re_cpu = 0, re_mem = 1\<rparr> \<and>
   (case notify False (w\<lparr>up_timer := False, up_scope := Up_idle\<rparr>) of
      (threw, w', l) \<Rightarrow> threw \<and> \<not> up_timer w' \<and> up_scope w' = Up_idle)"
proof (intro conjI)
  show "restrict [(''cpu'', D_uint (2 ^ 32) :: int dynamic)] \<lparr>re_cpu = 8, re_mem = 1\<rparr> = Inr \<lparr>re_cpu = 0, re_mem = 1\<rparr>" by code_simp
qed (simp_all add: on_subscribe_def notify_def)

end
