(* ===== verification/Metrics_Service.thy ===== *)
theory Metrics_Service
  imports Node_Config "HOL-Library.Sublist"
begin

section \<open>The metrics service\<close>

text \<open>
  The metrics service (\<^verbatim>\<open>src/metrics\<close>): a query is a syntax tree of filters and extractors, built
  by a registry (\<^verbatim>\<open>service/metrics/registry.hpp\<close>, \<^verbatim>\<open>extract.hpp\<close>, \<^verbatim>\<open>filter/*.hpp\<close>); the
  metrics it selects are rendered as a flat object or as a tree by the parts of their names
  (\<^verbatim>\<open>visitor/*.hpp\<close>).

  A closure built by the registry is a value of the datatypes \<open>extractor\<close> and \<open>query\<close>, with an
  evaluation that may throw. Comparison of dynamic values and splitting of names belong to
  libraries and are arguments; so is the division of a duration by a million. The hub
  is the list of metrics in the order in which it is iterated.
\<close>

subsection \<open>Metrics\<close>

record 'd rates =
  ra_count :: u64
  ra_m01 :: 'd
  ra_m05 :: 'd
  ra_m15 :: 'd

record 'd quantiles =
  qu_p50 :: 'd
  qu_p75 :: 'd
  qu_p90 :: 'd
  qu_p95 :: 'd
  qu_p98 :: 'd
  qu_p99 :: 'd
  qu_mean :: 'd
  qu_stddev :: 'd

datatype 'd metric_value =
    Gauge_int u64
  | Gauge_uint u64
  | Gauge_double 'd
  | Gauge_string string
  | Atomic_int u64
  | Atomic_uint u64
  | Meter "'d rates"
  | Timer "'d rates" "'d quantiles"

record 'd metric =
  mt_name :: string
  mt_tags :: "(string \<times> string) list"
  mt_value :: "'d metric_value"

datatype metrics_error =
    Ast_not_object
  | Ast_not_one_name
  | Ast_bad dynamic_error
  | Unknown_filter string
  | Unknown_extractor string
  | Wrong_arity nat string nat
  | Unknown_output_type
  | Not_a_string dynamic_error
  | No_type_tag
  | No_name_parts

subsection \<open>Extractors\<close>

datatype 'd extractor = Ex_const "'d dynamic" | Ex_name | Ex_type | Ex_tag "'d extractor"

fun ex_eval :: "'d extractor \<Rightarrow> 'd metric \<Rightarrow> (metrics_error, 'd dynamic) result" where
  "ex_eval (Ex_const v) m = Inr v"
| "ex_eval Ex_name m = Inr (D_string (mt_name m))"
| "ex_eval Ex_type m = (case map_of (mt_tags m) ''type'' of Some t \<Rightarrow> Inr (D_string t) | None \<Rightarrow> Inl No_type_tag)"
| "ex_eval (Ex_tag ex) m =
     bindE (ex_eval ex m) (\<lambda>v.
     bindE (lift_error Not_a_string (as_string v)) (\<lambda>name.
     Inr (D_string (case map_of (mt_tags m) name of Some t \<Rightarrow> t | None \<Rightarrow> []))))"

fun as_array :: "'d dynamic \<Rightarrow> (dynamic_error, 'd dynamic list) result" where
  "as_array (D_array xs) = Inr xs"
| "as_array _ = Inl Bad_get"

text \<open>The checks of the registry on a node: one name, an array of arguments.\<close>

definition ast_node :: "'d dynamic \<Rightarrow> (metrics_error, string \<times> 'd dynamic list) result" where
  "ast_node t =
     (case t of
        D_object [(name, v)] \<Rightarrow> bindE (lift_error Ast_bad (as_array v)) (\<lambda>args. Inr (name, args))
      | D_object _ \<Rightarrow> Inl Ast_not_one_name
      | _ \<Rightarrow> Inl Ast_not_object)"

definition check_arity :: "nat option \<Rightarrow> string \<Rightarrow> 'a list \<Rightarrow> (metrics_error, unit) result" where
  "check_arity n name args =
     (case n of Some k \<Rightarrow> if k = length args then Inr () else Inl (Wrong_arity k name (length args)) | None \<Rightarrow> Inr ())"

definition extractor_children :: "string \<Rightarrow> nat option option" where
  "extractor_children name =
     map_of [(''tag'', Some 1), (''name'', Some 0), (''type'', Some 0), (''const'', Some 1)] name"

lemma ast_node_size:
  "ast_node t = Inr (name, args) \<Longrightarrow> a \<in> set args \<Longrightarrow> size a < size t"
proof -
  assume n: "ast_node t = Inr (name, args)" and a: "a \<in> set args"
  from n obtain v where t: "t = D_object [(name, v)]" and v: "lift_error Ast_bad (as_array v) = Inr args"
    by (auto simp: ast_node_def bindE_Inr_conv split: dynamic.splits list.splits)
  from v have "v = D_array args" by (cases v) auto
  then show ?thesis using t size_list_estimation' [OF a order_refl, of size] by simp
qed

lemma ast_node_last: "ast_node t = Inr (name, a # as) \<Longrightarrow> size (last (a # as)) < size t"
  by (rule ast_node_size) (auto intro: last_in_set)

function make_extractor :: "'d dynamic \<Rightarrow> (metrics_error, 'd extractor) result" where
  "make_extractor t =
     (case ast_node t of
        Inl e \<Rightarrow> Inl e
      | Inr (name, args) \<Rightarrow>
          (case extractor_children name of
             None \<Rightarrow> Inl (Unknown_extractor name)
           | Some n \<Rightarrow>
               (case check_arity n name args of
                  Inl e \<Rightarrow> Inl e
                | Inr _ \<Rightarrow>
                    if name = ''const'' then Inr (Ex_const (hd args))
                    else if name = ''name'' then Inr Ex_name
                    else if name = ''type'' then Inr Ex_type
                    else (case args of
                        [] \<Rightarrow> Inl (Wrong_arity 1 name 0)
                      | a # as \<Rightarrow> bindE (make_extractor (last (a # as))) (\<lambda>ex. Inr (Ex_tag ex))))))"
  by pat_completeness auto
termination
  by (relation "measure size") (auto dest: ast_node_last simp del: last.simps)

declare make_extractor.simps [simp del]

subsection \<open>Filters\<close>

datatype 'd query =
    Q_eq "'d extractor" "'d extractor"
  | Q_ge
  | Q_and "'d query list"
  | Q_or "'d query list"
  | Q_contains "'d extractor" "'d extractor"

definition filter_arity :: "string \<Rightarrow> nat option option" where
  "filter_arity name =
     map_of [(''eq'', Some 2), (''ge'', Some 2), (''or'', None), (''and'', None), (''contains'', Some 2)] name"

lemma mapE_cong [fundef_cong]:
  "xs = ys \<Longrightarrow> (\<And>x. x \<in> set ys \<Longrightarrow> f x = g x) \<Longrightarrow> mapE f xs = mapE g ys"
  by (induction ys arbitrary: xs) (auto intro: bindE_cong)

function make_filter :: "'d dynamic \<Rightarrow> (metrics_error, 'd query) result" where
  "make_filter t =
     (case ast_node t of
        Inl e \<Rightarrow> Inl e
      | Inr (name, args) \<Rightarrow>
          (case filter_arity name of
             None \<Rightarrow> Inl (Unknown_filter name)
           | Some n \<Rightarrow>
               (case check_arity n name args of
                  Inl e \<Rightarrow> Inl e
                | Inr _ \<Rightarrow>
                    if name = ''and'' then bindE (mapE make_filter args) (\<lambda>qs. Inr (Q_and qs))
                    else if name = ''or'' then bindE (mapE make_filter args) (\<lambda>qs. Inr (Q_or qs))
                    else if name = ''ge'' then Inr Q_ge
                    else
                      bindE (make_extractor (args ! 0)) (\<lambda>f1.
                      bindE (make_extractor (args ! 1)) (\<lambda>f2.
                      Inr (if name = ''eq'' then Q_eq f1 f2 else Q_contains f1 f2))))))"
  by pat_completeness auto
termination
  by (relation "measure size") (auto dest: ast_node_size)

declare make_filter.simps [simp del]

text \<open>\<^verbatim>\<open>std::all_of\<close> and \<^verbatim>\<open>std::any_of\<close> over functions that may throw.\<close>

fun all_of :: "('q \<Rightarrow> ('e, bool) result) \<Rightarrow> 'q list \<Rightarrow> ('e, bool) result" where
  "all_of p [] = Inr True"
| "all_of p (q # qs) = (case p q of Inl e \<Rightarrow> Inl e | Inr False \<Rightarrow> Inr False | Inr True \<Rightarrow> all_of p qs)"

fun any_of :: "('q \<Rightarrow> ('e, bool) result) \<Rightarrow> 'q list \<Rightarrow> ('e, bool) result" where
  "any_of p [] = Inr False"
| "any_of p (q # qs) = (case p q of Inl e \<Rightarrow> Inl e | Inr True \<Rightarrow> Inr True | Inr False \<Rightarrow> any_of p qs)"

lemma all_of_cong [fundef_cong]: "xs = ys \<Longrightarrow> (\<And>x. x \<in> set ys \<Longrightarrow> f x = g x) \<Longrightarrow> all_of f xs = all_of g ys"
  by (induction ys arbitrary: xs) (auto split: sum.splits bool.splits)

lemma any_of_cong [fundef_cong]: "xs = ys \<Longrightarrow> (\<And>x. x \<in> set ys \<Longrightarrow> f x = g x) \<Longrightarrow> any_of f xs = any_of g ys"
  by (induction ys arbitrary: xs) (auto split: sum.splits bool.splits)

definition eq_filter ::
  "('d dynamic \<Rightarrow> 'd dynamic \<Rightarrow> bool) \<Rightarrow> 'd extractor \<Rightarrow> 'd extractor \<Rightarrow> 'd metric \<Rightarrow> (metrics_error, bool) result" where
  [simp]: "eq_filter eq f1 f2 m = bindE (ex_eval f1 m) (\<lambda>a. bindE (ex_eval f2 m) (\<lambda>b. Inr (eq a b)))"

definition ge_filter :: "'d metric \<Rightarrow> (metrics_error, bool) result" where
  [simp]: "ge_filter m = Inr True"

definition contains_filter :: "'d extractor \<Rightarrow> 'd extractor \<Rightarrow> 'd metric \<Rightarrow> (metrics_error, bool) result" where
  [simp]: "contains_filter f1 f2 m =
     bindE (ex_eval f1 m) (\<lambda>a. bindE (lift_error Not_a_string (as_string a)) (\<lambda>name.
     bindE (ex_eval f2 m) (\<lambda>b. bindE (lift_error Not_a_string (as_string b)) (\<lambda>substring.
     Inr (sublist substring name)))))"

fun q_eval :: "('d dynamic \<Rightarrow> 'd dynamic \<Rightarrow> bool) \<Rightarrow> 'd query \<Rightarrow> 'd metric \<Rightarrow> (metrics_error, bool) result" where
  "q_eval eq (Q_eq f1 f2) m = eq_filter eq f1 f2 m"
| "q_eval eq Q_ge m = ge_filter m"
| "q_eval eq (Q_and qs) m = all_of (\<lambda>q. q_eval eq q m) qs"
| "q_eval eq (Q_or qs) m = any_of (\<lambda>q. q_eval eq q m) qs"
| "q_eval eq (Q_contains f1 f2) m = contains_filter f1 f2 m"

subsection \<open>Visitors\<close>

fun scalar_of :: "'d metric_value \<Rightarrow> 'd dynamic option" where
  "scalar_of (Gauge_int i) = Some (D_int i)"
| "scalar_of (Gauge_uint u) = Some (D_uint u)"
| "scalar_of (Gauge_double x) = Some (D_double x)"
| "scalar_of (Gauge_string s) = Some (D_string s)"
| "scalar_of (Atomic_int i) = Some (D_int i)"
| "scalar_of (Atomic_uint u) = Some (D_uint u)"
| "scalar_of _ = None"

definition rate_fields :: "'d rates \<Rightarrow> (string \<times> 'd dynamic) list" where
  "rate_fields r =
     [(''count'', D_uint (ra_count r)), (''m01rate'', D_double (ra_m01 r)), (''m05rate'', D_double (ra_m05 r)), (''m15rate'', D_double (ra_m15 r))]"

definition quantile_fields :: "('d \<Rightarrow> 'd) \<Rightarrow> 'd quantiles \<Rightarrow> (string \<times> 'd dynamic) list" where
  "quantile_fields dv q =
     [(''p50'', D_double (dv (qu_p50 q))), (''p75'', D_double (dv (qu_p75 q))), (''p90'', D_double (dv (qu_p90 q))),
      (''p95'', D_double (dv (qu_p95 q))), (''p98'', D_double (dv (qu_p98 q))), (''p99'', D_double (dv (qu_p99 q))),
      (''mean'', D_double (dv (qu_mean q))), (''stddev'', D_double (dv (qu_stddev q)))]"

fun fields_of :: "('d \<Rightarrow> 'd) \<Rightarrow> 'd metric_value \<Rightarrow> (string \<times> 'd dynamic) list" where
  "fields_of dv (Meter r) = rate_fields r"
| "fields_of dv (Timer r q) = rate_fields r @ quantile_fields dv q"
| "fields_of dv _ = []"

type_synonym 'd object = "(string \<times> 'd dynamic) list"

definition assign_fields :: "(string \<times> 'd dynamic) list \<Rightarrow> 'd object \<Rightarrow> 'd object" where
  "assign_fields kvs out = foldl (\<lambda>o' (k, v). um_insert k v o') out kvs"

definition plain_visit :: "('d \<Rightarrow> 'd) \<Rightarrow> 'd metric \<Rightarrow> 'd object \<Rightarrow> 'd object" where
  "plain_visit dv m out =
     (case scalar_of (mt_value m) of
        Some v \<Rightarrow> um_insert (mt_name m) v out
      | None \<Rightarrow> assign_fields (map (\<lambda>(k, v). (mt_name m @ ''.'' @ k, v)) (fields_of dv (mt_value m))) out)"

text \<open>
  \<open>traverse\<close> goes down the parts of the name, through references into the object; what is
  not an object on the way is replaced by an empty one. The fields are assigned at its end.
\<close>

fun traverse_assign :: "string list \<Rightarrow> (string \<times> 'd dynamic) list \<Rightarrow> 'd object \<Rightarrow> 'd object" where
  "traverse_assign [] kvs out = assign_fields kvs out"
| "traverse_assign (p # ps) kvs out =
     (let sub = (case um_find p out of Some (D_object m) \<Rightarrow> m | _ \<Rightarrow> []) in
      um_insert p (D_object (traverse_assign ps kvs sub)) out)"

definition dendroid_visit :: "('d \<Rightarrow> 'd) \<Rightarrow> (string \<Rightarrow> string list) \<Rightarrow> 'd metric \<Rightarrow> 'd object \<Rightarrow> (metrics_error, 'd object) result" where
  "dendroid_visit dv split m out =
     (let parts = split (mt_name m) in
      if parts = [] then Inl No_name_parts
      else case scalar_of (mt_value m) of
        Some v \<Rightarrow> Inr (traverse_assign (butlast parts) [(last parts, v)] out)
      | None \<Rightarrow> Inr (traverse_assign parts (fields_of dv (mt_value m)) out))"

subsection \<open>The service\<close>

datatype output_type = Json | Plain

definition make_type :: "string \<Rightarrow> (metrics_error, output_type) result" where
  "make_type type =
     (if type = [] then Inr Plain
      else case map_of [(''json'', Json), (''plain'', Plain)] type of Some t \<Rightarrow> Inr t | None \<Rightarrow> Inl Unknown_output_type)"

definition make_query :: "'d dynamic \<Rightarrow> (metrics_error, 'd query option) result" where
  "make_query q = (case q of D_null \<Rightarrow> Inr None | _ \<Rightarrow> bindE (make_filter q) (\<lambda>f. Inr (Some f)))"

fun select_metrics ::
  "('d dynamic \<Rightarrow> 'd dynamic \<Rightarrow> bool) \<Rightarrow> 'd query option \<Rightarrow> 'd metric list \<Rightarrow> (metrics_error, 'd metric list) result" where
  "select_metrics eq f [] = Inr []"
| "select_metrics eq f (m # ms) =
     bindE (case f of None \<Rightarrow> Inr True | Some q \<Rightarrow> q_eval eq q m) (\<lambda>b.
     bindE (select_metrics eq f ms) (\<lambda>ms'. Inr (if b then m # ms' else ms')))"

definition construct_plain :: "('d \<Rightarrow> 'd) \<Rightarrow> 'd metric list \<Rightarrow> 'd dynamic" where
  "construct_plain dv ms = D_object (foldl (\<lambda>out m. plain_visit dv m out) [] ms)"

fun dendroid_loop :: "('d \<Rightarrow> 'd) \<Rightarrow> (string \<Rightarrow> string list) \<Rightarrow> 'd metric list \<Rightarrow> 'd object \<Rightarrow> (metrics_error, 'd object) result" where
  "dendroid_loop dv split [] out = Inr out"
| "dendroid_loop dv split (m # ms) out = bindE (dendroid_visit dv split m out) (dendroid_loop dv split ms)"

definition construct_dendroid :: "('d \<Rightarrow> 'd) \<Rightarrow> (string \<Rightarrow> string list) \<Rightarrow> 'd metric list \<Rightarrow> (metrics_error, 'd dynamic) result" where
  "construct_dendroid dv split ms = bindE (dendroid_loop dv split ms []) (\<lambda>out. Inr (D_object out))"

definition metrics ::
  "('d dynamic \<Rightarrow> 'd dynamic \<Rightarrow> bool) \<Rightarrow> ('d \<Rightarrow> 'd) \<Rightarrow> (string \<Rightarrow> string list) \<Rightarrow> 'd metric list \<Rightarrow> string \<Rightarrow> 'd dynamic \<Rightarrow>
   (metrics_error, 'd dynamic) result" where
  "metrics eq dv split hub type query =
     bindE (make_type type) (\<lambda>ty.
     bindE (make_query query) (\<lambda>f.
     bindE (select_metrics eq f hub) (\<lambda>ms.
     case ty of Json \<Rightarrow> construct_dendroid dv split ms | Plain \<Rightarrow> Inr (construct_plain dv ms))))"

section \<open>Queries\<close>

fun extractor_ast :: "'d extractor \<Rightarrow> 'd dynamic" where
  "extractor_ast (Ex_const v) = D_object [(''const'', D_array [v])]"
| "extractor_ast Ex_name = D_object [(''name'', D_array [])]"
| "extractor_ast Ex_type = D_object [(''type'', D_array [])]"
| "extractor_ast (Ex_tag ex) = D_object [(''tag'', D_array [extractor_ast ex])]"

text \<open>Queries as they are written, and their syntax trees.\<close>

datatype 'd formula =
    F_eq "'d extractor" "'d extractor"
  | F_ge "'d extractor" "'d extractor"
  | F_and "'d formula list"
  | F_or "'d formula list"
  | F_contains "'d extractor" "'d extractor"

fun formula_ast :: "'d formula \<Rightarrow> 'd dynamic" where
  "formula_ast (F_eq a b) = D_object [(''eq'', D_array [extractor_ast a, extractor_ast b])]"
| "formula_ast (F_ge a b) = D_object [(''ge'', D_array [extractor_ast a, extractor_ast b])]"
| "formula_ast (F_and fs) = D_object [(''and'', D_array (map formula_ast fs))]"
| "formula_ast (F_or fs) = D_object [(''or'', D_array (map formula_ast fs))]"
| "formula_ast (F_contains a b) = D_object [(''contains'', D_array [extractor_ast a, extractor_ast b])]"

text \<open>What the registry builds of one.\<close>

fun built :: "'d formula \<Rightarrow> 'd query" where
  "built (F_eq a b) = Q_eq a b"
| "built (F_ge a b) = Q_ge"
| "built (F_and fs) = Q_and (map built fs)"
| "built (F_or fs) = Q_or (map built fs)"
| "built (F_contains a b) = Q_contains a b"

lemma extractor_roundtrip: "make_extractor (extractor_ast ex) = Inr ex"
  by (induction ex) (subst make_extractor.simps; simp add: ast_node_def extractor_children_def check_arity_def)+

lemma mapE_map_built: "(\<And>x. x \<in> set xs \<Longrightarrow> f (g x) = Inr (h x)) \<Longrightarrow> mapE f (map g xs) = Inr (map h xs)"
  by (induction xs) auto

lemma formula_built: "make_filter (formula_ast fm) = Inr (built fm)"
proof (induction fm)
  case (F_and fs)
  then have "mapE make_filter (map formula_ast fs) = Inr (map built fs)" by (intro mapE_map_built)
  then show ?case by (subst make_filter.simps) (simp add: ast_node_def filter_arity_def check_arity_def)
next
  case (F_or fs)
  then have "mapE make_filter (map formula_ast fs) = Inr (map built fs)" by (intro mapE_map_built)
  then show ?case by (subst make_filter.simps) (simp add: ast_node_def filter_arity_def check_arity_def)
qed (subst make_filter.simps; simp add: ast_node_def filter_arity_def check_arity_def extractor_roundtrip)+

lemma select_metrics_filter:
  "(\<And>m. m \<in> set ms \<Longrightarrow> (case f of None \<Rightarrow> Inr True | Some q \<Rightarrow> q_eval eq q m) = Inr (P m)) \<Longrightarrow> select_metrics eq f ms = Inr (filter P ms)"
  by (induction ms) auto

lemma all_of_ok: "(\<And>q. q \<in> set qs \<Longrightarrow> p q = Inr (b q)) \<Longrightarrow> all_of p qs = Inr (list_all b qs)"
  by (induction qs) (auto split: bool.splits)

lemma any_of_ok: "(\<And>q. q \<in> set qs \<Longrightarrow> p q = Inr (b q)) \<Longrightarrow> any_of p qs = Inr (list_ex b qs)"
  by (induction qs) (auto split: bool.splits)

text \<open>The values of extractors, when they have one of the right kind.\<close>

fun ex_value :: "'d extractor \<Rightarrow> 'd metric \<Rightarrow> 'd dynamic" where
  "ex_value (Ex_const v) m = v"
| "ex_value Ex_name m = D_string (mt_name m)"
| "ex_value Ex_type m = D_string (the (map_of (mt_tags m) ''type''))"
| "ex_value (Ex_tag ex) m =
     (case ex_value ex m of D_string s \<Rightarrow> D_string (case map_of (mt_tags m) s of Some t \<Rightarrow> t | None \<Rightarrow> []) | _ \<Rightarrow> D_null)"

fun ex_typed :: "'d extractor \<Rightarrow> 'd metric \<Rightarrow> bool" where
  "ex_typed (Ex_const v) m = True"
| "ex_typed Ex_name m = True"
| "ex_typed Ex_type m = (map_of (mt_tags m) ''type'' \<noteq> None)"
| "ex_typed (Ex_tag ex) m = (ex_typed ex m \<and> is_string (ex_value ex m))"

fun typed :: "'d formula \<Rightarrow> 'd metric \<Rightarrow> bool" where
  "typed (F_eq a b) m = (ex_typed a m \<and> ex_typed b m)"
| "typed (F_ge a b) m = True"
| "typed (F_and fs) m = list_all (\<lambda>f. typed f m) fs"
| "typed (F_or fs) m = list_all (\<lambda>f. typed f m) fs"
| "typed (F_contains a b) m = (ex_typed a m \<and> ex_typed b m \<and> is_string (ex_value a m) \<and> is_string (ex_value b m))"

text \<open>
  What a formula is meant to say; \<open>ge\<close> stands for the order of values that the commented
  body of the filter would use.
\<close>

fun means :: "('d dynamic \<Rightarrow> 'd dynamic \<Rightarrow> bool) \<Rightarrow> ('d dynamic \<Rightarrow> 'd dynamic \<Rightarrow> bool) \<Rightarrow> 'd formula \<Rightarrow> 'd metric \<Rightarrow> bool" where
  "means eq ge (F_eq a b) m = eq (ex_value a m) (ex_value b m)"
| "means eq ge (F_ge a b) m = ge (ex_value a m) (ex_value b m)"
| "means eq ge (F_and fs) m = list_all (\<lambda>f. means eq ge f m) fs"
| "means eq ge (F_or fs) m = list_ex (\<lambda>f. means eq ge f m) fs"
| "means eq ge (F_contains a b) m =
     (case (ex_value a m, ex_value b m) of (D_string s, D_string t) \<Rightarrow> sublist t s | _ \<Rightarrow> False)"

fun has_ge :: "'d formula \<Rightarrow> bool" where
  "has_ge (F_ge a b) = True"
| "has_ge (F_and fs) = list_ex has_ge fs"
| "has_ge (F_or fs) = list_ex has_ge fs"
| "has_ge _ = False"

text \<open>The code evaluates a formula as if every comparison held.\<close>

abbreviation any_order :: "'d dynamic \<Rightarrow> 'd dynamic \<Rightarrow> bool" where
  "any_order a b \<equiv> True"

lemma ex_eval_value: "ex_typed ex m \<Longrightarrow> ex_eval ex m = Inr (ex_value ex m)"
  by (induction ex) (auto simp: is_string_conv split: option.splits)

lemma q_eval_built: "typed fm m \<Longrightarrow> q_eval eq (built fm) m = Inr (means eq any_order fm m)"
proof (induction fm)
  case (F_and fs)
  have "all_of (\<lambda>q. q_eval eq q m) (map built fs) = all_of (\<lambda>f. q_eval eq (built f) m) fs" by (induction fs) (auto split: sum.split bool.split)
  then show ?case using F_and all_of_ok [of fs "\<lambda>f. q_eval eq (built f) m" "\<lambda>f. means eq any_order f m"] by (simp add: list_all_iff)
next
  case (F_or fs)
  have "any_of (\<lambda>q. q_eval eq q m) (map built fs) = any_of (\<lambda>f. q_eval eq (built f) m) fs" by (induction fs) (auto split: sum.split bool.split)
  then show ?case using F_or any_of_ok [of fs "\<lambda>f. q_eval eq (built f) m" "\<lambda>f. means eq any_order f m"] by (simp add: list_all_iff)
qed (auto simp: ex_eval_value is_string_conv)

lemma means_any_order: "means eq ge fm m \<Longrightarrow> means eq any_order fm m"
  by (induction fm) (auto simp: list_all_iff list_ex_iff)

lemma means_without_ge: "\<not> has_ge fm \<Longrightarrow> means eq any_order fm m = means eq ge fm m"
  by (induction fm) (auto simp: list_all_iff list_ex_iff)

lemma make_query_ast: "make_query (formula_ast fm) = Inr (Some (built fm))"
proof -
  have "formula_ast fm \<noteq> D_null" by (cases fm) auto
  then show ?thesis using formula_built [of fm] by (cases "formula_ast fm") (simp_all add: make_query_def)
qed

text \<open>
  C32:
  A query whose extractors have values of the right kind for all metrics selects, in the
  order of the hub, exactly the metrics that satisfy it with every comparison \<open>ge\<close> taken to
  hold; conjunction, disjunction, equality and containment are as they are meant. So no
  metric that satisfies the query as it is meant is missed, whatever the order of
  values, and a query without \<open>ge\<close> selects exactly the metrics that satisfy it. Without a
  query all metrics are selected. An unknown type of output is refused.
\<close>

theorem metrics_query:
  assumes "\<forall>m \<in> set hub. typed fm m"
  shows "\<exists>selected.
     metrics eq dv split hub ''plain'' (formula_ast fm) = Inr (construct_plain dv selected) \<and>
     metrics eq dv split hub ''json'' (formula_ast fm) = construct_dendroid dv split selected \<and>
     selected = filter (means eq (\<lambda>a b. True) fm) hub \<and>
     set (filter (means eq ge fm) hub) \<subseteq> set selected \<and>
     (\<not> has_ge fm \<longrightarrow> selected = filter (means eq ge fm) hub) \<and>
     metrics eq dv split hub [] D_null = Inr (construct_plain dv hub) \<and>
     (\<forall>type. type \<notin> {[], ''json'', ''plain''} \<longrightarrow> metrics eq dv split hub type (formula_ast fm) = Inl Unknown_output_type)"
proof -
  have "select_metrics eq (Some (built fm)) hub = Inr (filter (means eq any_order fm) hub)"
    using assms by (intro select_metrics_filter) (simp add: q_eval_built)
  moreover have "select_metrics eq None hub = Inr hub"
    using select_metrics_filter [where ms = hub and f = None and eq = eq and P = "\<lambda>m. True"] by simp
  moreover have "set (filter (means eq ge fm) hub) \<subseteq> set (filter (means eq any_order fm) hub)"
    using means_any_order by auto
  moreover have "filter (means eq any_order fm) hub = filter (means eq ge fm) hub" if "\<not> has_ge fm"
    using means_without_ge [OF that, of eq _ ge] by (intro filter_cong) auto
  ultimately show ?thesis
    by (intro exI [of _ "filter (means eq any_order fm) hub"]) (auto simp: metrics_def make_type_def make_query_ast make_query_def [of D_null])
qed

definition sample_metric :: "string \<Rightarrow> int metric" where
  "sample_metric n = \<lparr>mt_name = n, mt_tags = [(''type'', ''gauge'')], mt_value = Gauge_uint 7\<rparr>"

theorem metrics_query_witness:
  "metrics (=) (\<lambda>x. x) (\<lambda>n. [n]) [sample_metric ''a.b'', sample_metric ''c''] ''plain''
     (D_object [(''and'', D_array [D_object [(''contains'', D_array [D_object [(''name'', D_array [])], D_object [(''const'', D_array [D_string ''a''])]])],
                                   D_object [(''eq'', D_array [D_object [(''type'', D_array [])], D_object [(''const'', D_array [D_string ''gauge''])]])]])]) =
   Inr (D_object [(''a.b'', D_uint 7)])"
proof -
  let ?q = "F_and [F_contains Ex_name (Ex_const (D_string ''a'')), F_eq Ex_type (Ex_const (D_string ''gauge''))] :: int formula"
  let ?hub = "[sample_metric ''a.b'', sample_metric ''c'']"
  have t: "\<forall>m \<in> set ?hub. typed ?q m" by (simp add: sample_metric_def)
  have sel: "filter (means (=) (\<lambda>a b. True) ?q) ?hub = [sample_metric ''a.b'']" by code_simp
  from metrics_query [OF t, of "(=)" "\<lambda>x. x" "\<lambda>n. [n]" "\<lambda>a b. True"]
  have "metrics (=) (\<lambda>x. x) (\<lambda>n. [n]) ?hub ''plain'' (formula_ast ?q) = Inr (construct_plain (\<lambda>x. x) [sample_metric ''a.b''])"
    unfolding sel by blast
  then show ?thesis
    by (simp add: construct_plain_def plain_visit_def sample_metric_def um_insert_def)
qed

section \<open>The tree of metrics\<close>

fun lookup :: "string list \<Rightarrow> 'd dynamic \<Rightarrow> 'd dynamic option" where
  "lookup [] d = Some d"
| "lookup (p # ps) (D_object m) = (case um_find p m of None \<Rightarrow> None | Some d \<Rightarrow> lookup ps d)"
| "lookup (p # ps) _ = None"

definition leaves :: "('d \<Rightarrow> 'd) \<Rightarrow> (string \<Rightarrow> string list) \<Rightarrow> 'd metric \<Rightarrow> (string list \<times> 'd dynamic) list" where
  "leaves dv split m =
     (case scalar_of (mt_value m) of
        Some v \<Rightarrow> [(split (mt_name m), v)]
      | None \<Rightarrow> map (\<lambda>(k, v). (split (mt_name m) @ [k], v)) (fields_of dv (mt_value m)))"

definition put_leaf :: "string list \<times> 'd dynamic \<Rightarrow> 'd object \<Rightarrow> 'd object" where
  "put_leaf x out = traverse_assign (butlast (fst x)) [(last (fst x), snd x)] out"

definition apart :: "string list \<times> 'd dynamic \<Rightarrow> string list \<times> 'd dynamic \<Rightarrow> bool" where
  "apart x y \<longleftrightarrow> \<not> prefix (fst x) (fst y) \<and> \<not> prefix (fst y) (fst x)"

lemma um_insert_insert: "um_insert k v (um_insert k w m) = um_insert k v m"
  by (induction m) (auto simp: um_insert_def)

lemma traverse_assign_append: "traverse_assign ps (xs @ ys) out = traverse_assign ps ys (traverse_assign ps xs out)"
proof (induction ps arbitrary: out)
  case (Cons p ps)
  then show ?case by (simp add: Let_def um_insert_insert)
qed (simp add: assign_fields_def)

lemma traverse_assign_leaves:
  "kvs \<noteq> [] \<Longrightarrow> traverse_assign ps kvs out = fold put_leaf (map (\<lambda>(k, v). (ps @ [k], v)) kvs) out"
proof (induction kvs rule: rev_induct)
  case (snoc kv kvs)
  then show ?case by (cases "kvs = []"; cases kv) (auto simp: traverse_assign_append put_leaf_def)
qed simp

lemma lookup_put: "lookup (ps @ [k]) (D_object (traverse_assign ps [(k, v)] out)) = Some v"
proof (induction ps arbitrary: out)
  case (Cons p ps)
  then show ?case by (simp add: Let_def)
qed (simp add: assign_fields_def)

lemma lookup_sub:
  "rs \<noteq> [] \<Longrightarrow> lookup (p # rs) (D_object out) = lookup rs (D_object (case um_find p out of Some (D_object m) \<Rightarrow> m | _ \<Rightarrow> []))"
  by (cases rs) (auto split: option.splits dynamic.splits)

lemma lookup_put_other:
  "\<not> prefix q (ps @ [k]) \<Longrightarrow> \<not> prefix (ps @ [k]) q \<Longrightarrow> lookup q (D_object (traverse_assign ps [(k, v)] out)) = lookup q (D_object out)"
proof (induction ps arbitrary: out q)
  case Nil
  then show ?case by (cases q) (auto simp: assign_fields_def)
next
  case (Cons p ps)
  obtain r rs where q: "q = r # rs" using Cons.prems(1) by (cases q) auto
  show ?case
  proof (cases "r = p")
    case True
    then have np: "\<not> prefix rs (ps @ [k])" "\<not> prefix (ps @ [k]) rs" using Cons.prems q by auto
    then have "rs \<noteq> []" by auto
    let ?sub = "case um_find p out of Some (D_object m) \<Rightarrow> m | _ \<Rightarrow> []"
    have "lookup q (D_object (traverse_assign (p # ps) [(k, v)] out)) = lookup rs (D_object (traverse_assign ps [(k, v)] ?sub))"
      using q True by (simp add: Let_def)
    also have "\<dots> = lookup rs (D_object ?sub)" by (rule Cons.IH [OF np])
    also have "\<dots> = lookup q (D_object out)" using lookup_sub [OF \<open>rs \<noteq> []\<close>, of p out] q True by simp
    finally show ?thesis .
  qed (simp add: q Let_def)
qed

lemma put_leaf_lookup: "fst x \<noteq> [] \<Longrightarrow> lookup (fst x) (D_object (put_leaf x out)) = Some (snd x)"
  using lookup_put [of "butlast (fst x)" "last (fst x)" "snd x" out] by (simp add: put_leaf_def)

lemma put_leaf_other: "apart x y \<Longrightarrow> fst y \<noteq> [] \<Longrightarrow> lookup (fst x) (D_object (put_leaf y out)) = lookup (fst x) (D_object out)"
  using lookup_put_other [of "fst x" "butlast (fst y)" "last (fst y)" "snd y" out] by (simp add: put_leaf_def apart_def)

lemma fold_leaves_other:
  "list_all (\<lambda>y. apart x y \<and> fst y \<noteq> []) zs \<Longrightarrow> lookup (fst x) (D_object (fold put_leaf zs out)) = lookup (fst x) (D_object out)"
  by (induction zs arbitrary: out) (auto simp: put_leaf_other)

lemma fold_leaves:
  assumes "fst x \<noteq> []" and "list_all (\<lambda>y. apart x y \<and> fst y \<noteq> []) zs"
  shows "lookup (fst x) (D_object (fold put_leaf (ys @ x # zs) out)) = Some (snd x)"
  using fold_leaves_other [OF assms(2), of "put_leaf x (fold put_leaf ys out)"] put_leaf_lookup [OF assms(1), of "fold put_leaf ys out"] by simp

lemma scalar_or_fields: "scalar_of v = None \<Longrightarrow> fields_of dv v \<noteq> []"
  by (cases v) (auto simp: rate_fields_def)

lemma dendroid_visit_leaves:
  "split (mt_name m) \<noteq> [] \<Longrightarrow> dendroid_visit dv split m out = Inr (fold put_leaf (leaves dv split m) out)"
  using traverse_assign_leaves [OF scalar_or_fields, of "mt_value m" "split (mt_name m)" dv out]
  by (auto simp: dendroid_visit_def leaves_def put_leaf_def Let_def split: option.splits)

lemma dendroid_loop_leaves:
  "list_all (\<lambda>m. split (mt_name m) \<noteq> []) ms \<Longrightarrow>
     dendroid_loop dv split ms out = Inr (fold put_leaf (concat (map (leaves dv split) ms)) out)"
  by (induction ms arbitrary: out) (auto simp: dendroid_visit_leaves)

text \<open>
  C34:
  If names always have parts, every list of metrics is rendered. Taking the values of the metrics in
  the order of the list, the value of a gauge or a counter at the path of its name, the
  rates and quantiles of meters and timers one level below it, the tree holds every
  value at its path, unless a later one has the same path, a path that is the
  beginning of it, or a path below it.
\<close>

theorem metrics_tree:
  assumes "\<forall>n. split n \<noteq> []"
  shows "\<exists>tree. construct_dendroid dv split ms = Inr tree \<and>
     (\<forall>earlier path v later. concat (map (leaves dv split) ms) = earlier @ (path, v) # later \<and>
        list_all (\<lambda>(q, w). \<not> prefix path q \<and> \<not> prefix q path) later \<longrightarrow> lookup path tree = Some v)"
proof -
  let ?xs = "concat (map (leaves dv split) ms)"
  have ne: "\<forall>x \<in> set ?xs. fst x \<noteq> []" using assms by (auto simp: leaves_def split: option.splits)
  have "lookup path (D_object (fold put_leaf ?xs [])) = Some v"
    if xs: "?xs = earlier @ (path, v) # later" and later: "list_all (\<lambda>(q, w). \<not> prefix path q \<and> \<not> prefix q path) later"
    for earlier path v later
  proof -
    have "\<forall>y \<in> set later. fst y \<noteq> []" "path \<noteq> []" using ne unfolding xs by auto
    then have "list_all (\<lambda>y. apart (path, v) y \<and> fst y \<noteq> []) later" "path \<noteq> []"
      using later by (auto simp: list_all_iff apart_def)
    then show ?thesis using fold_leaves [of "(path, v)" later earlier "[]"] xs by simp
  qed
  then show ?thesis using dendroid_loop_leaves [of split ms dv "[]"] assms by (force simp: construct_dendroid_def list_all_iff)
qed

theorem metrics_tree_witness:
  "\<exists>tree. construct_dendroid (\<lambda>x. x) (\<lambda>n. [take 1 n, drop 2 n]) [sample_metric ''a.b'', sample_metric ''a.c''] = Inr tree \<and>
     lookup [''a'', ''b''] tree = Some (D_uint 7) \<and> lookup [''a'', ''c''] tree = Some (D_uint 7)"
proof -
  let ?ms = "[sample_metric ''a.b'', sample_metric ''a.c'']" and ?split = "\<lambda>n :: string. [take 1 n, drop 2 n]"
  have xs: "concat (map (leaves (\<lambda>x. x) ?split) ?ms) = [([''a'', ''b''], D_uint 7), ([''a'', ''c''], D_uint 7)]"
    by (simp add: leaves_def sample_metric_def)
  have "\<forall>n. ?split n \<noteq> []" by simp
  then obtain tree where tree: "construct_dendroid (\<lambda>x. x) ?split ?ms = Inr tree"
      "\<And>earlier path v later. [([''a'', ''b''], D_uint 7), ([''a'', ''c''], D_uint 7)] = earlier @ (path, v) # later \<Longrightarrow>
        list_all (\<lambda>(q, w). \<not> prefix path q \<and> \<not> prefix q path) later \<Longrightarrow> lookup path tree = Some v"
    using metrics_tree [of ?split "\<lambda>x. x" ?ms] unfolding xs by blast
  from tree(2) [of "[]" "[''a'', ''b'']" "D_uint 7" "[([''a'', ''c''], D_uint 7)]"]
    tree(2) [of "[([''a'', ''b''], D_uint 7)]" "[''a'', ''c'']" "D_uint 7" "[]"] tree(1)
  show ?thesis by simp
qed

text \<open>
  Four gaps. A metric whose name is the beginning of another's loses its value, or the whole tree
  of the other one, whichever is rendered first. The filter \<open>ge\<close> ignores its arguments and
  holds for every metric. The type of a metric without that tag is read from an empty optional. A
  query that compares something else than text fails for all metrics, when it is
  evaluated for the first one.
\<close>

theorem metrics_gaps:
  "construct_dendroid (\<lambda>x. x) (\<lambda>n. if n = ''a'' then [''a''] else [''a'', ''b'']) [sample_metric ''a'', sample_metric ''a.b''] =
     Inr (D_object [(''a'', D_object [(''b'', D_uint 7)])]) \<and>
   construct_dendroid (\<lambda>x. x) (\<lambda>n. if n = ''a'' then [''a''] else [''a'', ''b'']) [sample_metric ''a.b'', sample_metric ''a''] =
     Inr (D_object [(''a'', D_uint 7)]) \<and>
   make_filter (D_object [(''ge'', D_array [D_null, D_bool False])]) = (Inr Q_ge :: (metrics_error, int query) result) \<and>
   q_eval eq Q_ge m = Inr True \<and>
   ex_eval Ex_type \<lparr>mt_name = n, mt_tags = [], mt_value = v\<rparr> = Inl No_type_tag \<and>
   metrics eq dv split (m # ms) ''plain'' (formula_ast (F_contains (Ex_const (D_uint 1)) Ex_name)) = Inl (Not_a_string Bad_get)"
proof (intro conjI)
  show "make_filter (D_object [(''ge'', D_array [D_null, D_bool False])]) = (Inr Q_ge :: (metrics_error, int query) result)"
    by (subst make_filter.simps) (simp add: ast_node_def filter_arity_def check_arity_def)
  show "metrics eq dv split (m # ms) ''plain'' (formula_ast (F_contains (Ex_const (D_uint 1)) Ex_name)) = Inl (Not_a_string Bad_get)"
    by (simp add: metrics_def make_type_def make_query_ast del: formula_ast.simps)
  show "construct_dendroid (\<lambda>x. x) (\<lambda>n. if n = ''a'' then [''a''] else [''a'', ''b'']) [sample_metric ''a'', sample_metric ''a.b''] =
     Inr (D_object [(''a'', D_object [(''b'', D_uint 7)])])" by code_simp
  show "construct_dendroid (\<lambda>x. x) (\<lambda>n. if n = ''a'' then [''a''] else [''a'', ''b'']) [sample_metric ''a.b'', sample_metric ''a''] =
     Inr (D_object [(''a'', D_uint 7)])" by code_simp
qed simp_all

end
