(* ===== verification/Postgres.thy ===== *)
theory Postgres
  imports Node_Config "HOL-Library.Multiset" "HOL-Library.Sublist"
begin

section \<open>Postgres\<close>

text \<open>
  The postgres plugin (\<^verbatim>\<open>src/postgres\<close>): the pool of connections with its bound on the load, the
  storage that keeps an index of tags beside another storage, and the sender of metrics
  (\<^verbatim>\<open>src/metrics/src/sender/postgres.cpp\<close>) that uses the same pool.

  Quoting, escaping and printing are the record \<open>sql\<close>. What the database and the other
  storage do, for one operation, is its argument. Jobs wait in the pool until a thread of it
  takes them, and end in any order. Pools are known by their names: an instance is cached, and everyone who names it
  shares it, the two backends of one storage by default as well as the sender and other storages. Reading only calls
  the other storage. Callbacks are values of any type; what each of their calls does, return or
  throw, is an argument as well, and \<open>st_log\<close> has every call.
\<close>

subsection \<open>Transactions and the pool\<close>

datatype attempt = Started | Broken_connection | Other_failure

text \<open>Only a broken connection is tried again; the result says whether there is a transaction.\<close>

fun start_transaction :: "nat \<Rightarrow> attempt list \<Rightarrow> bool" where
  "start_transaction 0 as = False"
| "start_transaction (Suc n) [] = False"
| "start_transaction (Suc n) (a # as) =
     (case a of Started \<Rightarrow> True | Other_failure \<Rightarrow> False | Broken_connection \<Rightarrow> if n = 0 then False else start_transaction n as)"

record 'j pool =
  po_load :: nat
  po_max_load :: nat
  po_size :: nat
  po_jobs :: "'j list"
  po_running :: "'j list"

definition new_pool :: "nat \<Rightarrow> nat \<Rightarrow> 'j pool" where
  "new_pool m n = \<lparr>po_load = 0, po_max_load = m, po_size = n, po_jobs = [], po_running = []\<rparr>"

text \<open>\<open>None\<close> is the exception for a pool that is busy.\<close>

definition pool_execute :: "'j \<Rightarrow> 'j pool \<Rightarrow> 'j pool option" where
  "pool_execute j p = (if po_load p > po_max_load p then None else Some (p\<lparr>po_load := Suc (po_load p), po_jobs := po_jobs p @ [j]\<rparr>))"

text \<open>A thread that is free takes a job; the job at a position of those that run ends.\<close>

definition pool_take :: "'j pool \<Rightarrow> 'j pool" where
  "pool_take p =
     (case po_jobs p of
        [] \<Rightarrow> p
      | j # js \<Rightarrow> if length (po_running p) < po_size p then p\<lparr>po_jobs := js, po_running := po_running p @ [j]\<rparr> else p)"

definition pool_done :: "nat \<Rightarrow> 'j pool \<Rightarrow> 'j pool" where
  "pool_done i p = p\<lparr>po_load := po_load p - 1, po_running := take i (po_running p) @ drop (Suc i) (po_running p)\<rparr>"

subsection \<open>The storage\<close>

record sql =
  sq_esc :: "string \<Rightarrow> string"
  sq_quote :: "string \<Rightarrow> string"
  sq_tags :: "string list \<Rightarrow> string"
  sq_nat :: "nat \<Rightarrow> string"

record columns =
  co_collection :: string
  co_key :: string
  co_tags :: string
  co_table :: string

datatype 'c job =
    Index string string "string list" 'c
  | Unindex string string 'c
  | Find string "string list" 'c
  | Foreign

datatype 'c wrapped_op = Writing string string "string list" 'c | Removing string string 'c

datatype reply = Ok_void | Ok_keys "string list" | Pg_error | Storage_failed | Pool_busy

text \<open>A call of a callback returns, or throws a standard exception or anything else.\<close>

datatype called = Returns | Throws_std | Throws_other

text \<open>
  One answer: the callback, whether the statement was committed, and its calls in order. \<open>st_dead\<close> is the end of
  the process, by an exception that leaves a thread of a pool.
\<close>

record 'c pg_answer =
  pa_callback :: 'c
  pa_committed :: bool
  pa_calls :: "(reply \<times> called) list"

record 'c pg_storage =
  st_columns :: columns
  st_backend :: string
  st_backend_ro :: string
  st_pools :: "string \<Rightarrow> 'c job pool"
  st_wrapped :: "'c wrapped_op list"
  st_log :: "'c pg_answer list"
  st_dead :: bool

definition new_columns :: "'d dynamic \<Rightarrow> (dynamic_error, columns) result" where
  "new_columns args =
     bindE (as_object args) (\<lambda>m.
     bindE (as_string (at_default m ''pg_collection_column'' (D_string ''collection''))) (\<lambda>c.
     bindE (as_string (at_default m ''pg_key_column'' (D_string ''key''))) (\<lambda>k.
     bindE (as_string (at_default m ''pg_tags_column'' (D_string ''tags''))) (\<lambda>t.
     bindE (as_string (at_default m ''pg_table_name'' (D_string ''cocaine_index''))) (\<lambda>table.
     Inr \<lparr>co_collection = c, co_key = k, co_tags = t, co_table = table\<rparr>)))))"

datatype pg_error = Bad_pg_args dynamic_error | No_pool string

text \<open>\<open>pools\<close> is the configuration of the pools: for a name, the maximal load and the number of threads.\<close>

definition get_pool :: "(string \<rightharpoonup> nat \<times> nat) \<Rightarrow> string \<Rightarrow> (pg_error, string) result" where
  "get_pool pools name = (case pools name of None \<Rightarrow> Inl (No_pool name) | Some _ \<Rightarrow> Inr name)"

definition pool_of :: "(string \<rightharpoonup> nat \<times> nat) \<Rightarrow> string \<Rightarrow> 'j pool" where
  "pool_of pools name = (case pools name of None \<Rightarrow> new_pool 0 0 | Some (m, n) \<Rightarrow> new_pool m n)"

definition new_pg_storage :: "(string \<rightharpoonup> nat \<times> nat) \<Rightarrow> 'd dynamic \<Rightarrow> (pg_error, 'c pg_storage) result" where
  "new_pg_storage pools args =
     bindE (lift_error Bad_pg_args (new_columns args)) (\<lambda>co.
     bindE (lift_error Bad_pg_args (as_object args)) (\<lambda>m.
     bindE (lift_error Bad_pg_args (as_string (at_default m ''pg_underlying_storage'' (D_string ''core'')))) (\<lambda>_.
     bindE (lift_error Bad_pg_args (as_string (at_default m ''pg_backend'' (D_string ''core'')))) (\<lambda>backend.
     bindE (get_pool pools backend) (\<lambda>backend.
     bindE (lift_error Bad_pg_args (as_string (at_default m ''pg_backend_ro'' (D_string ''core'')))) (\<lambda>ro.
     bindE (get_pool pools ro) (\<lambda>ro.
     Inr \<lparr>st_columns = co, st_backend = backend, st_backend_ro = ro, st_pools = pool_of pools, st_wrapped = [], st_log = [],
          st_dead = False\<rparr>)))))))"

definition index_sql :: "sql \<Rightarrow> columns \<Rightarrow> string \<Rightarrow> string \<Rightarrow> string list \<Rightarrow> string" where
  "index_sql q co collection key tags =
     (let ts = sq_quote q (sq_tags q tags) in
      ''INSERT INTO '' @ sq_esc q (co_table co) @ '' ('' @ sq_esc q (co_collection co) @ '', '' @ sq_esc q (co_key co) @ '', '' @ sq_esc q (co_tags co) @
      '') VALUES ('' @ sq_quote q collection @ '', '' @ sq_quote q key @ '', '' @ ts @ '') ON CONFLICT (key, collection) DO UPDATE SET '' @
      sq_esc q (co_tags co) @ '' = '' @ ts @ '';'')"

definition unindex_sql :: "sql \<Rightarrow> columns \<Rightarrow> string \<Rightarrow> string \<Rightarrow> string" where
  "unindex_sql q co collection key =
     ''DELETE FROM '' @ sq_esc q (co_table co) @ '' WHERE '' @ sq_esc q (co_collection co) @ '' = '' @ sq_quote q collection @ '' AND '' @
     sq_esc q (co_key co) @ '' = '' @ sq_quote q key @ '';''"

definition find_sql :: "sql \<Rightarrow> columns \<Rightarrow> string \<Rightarrow> string list \<Rightarrow> string" where
  "find_sql q co collection tags =
     ''SELECT '' @ sq_esc q (co_key co) @ '' FROM '' @ sq_esc q (co_table co) @ '' WHERE '' @ sq_esc q (co_collection co) @ '' = '' @
     sq_quote q collection @ '' AND '' @ sq_esc q (co_tags co) @ '' @> '' @ sq_quote q (sq_tags q tags) @ '';''"

definition pg_write :: "string \<Rightarrow> string \<Rightarrow> string list \<Rightarrow> 'c \<Rightarrow> 'c pg_storage \<Rightarrow> 'c pg_storage" where
  "pg_write collection key tags cb s = s\<lparr>st_wrapped := st_wrapped s @ [Writing collection key tags cb]\<rparr>"

definition pg_remove :: "string \<Rightarrow> string \<Rightarrow> 'c \<Rightarrow> 'c pg_storage \<Rightarrow> 'c pg_storage" where
  "pg_remove collection key cb s = s\<lparr>st_wrapped := st_wrapped s @ [Removing collection key cb]\<rparr>"

text \<open>\<open>None\<close> is the exception of a busy pool, which leaves the call.\<close>

definition pg_find :: "string \<Rightarrow> string list \<Rightarrow> 'c \<Rightarrow> 'c pg_storage \<Rightarrow> 'c pg_storage option" where
  "pg_find collection tags cb s =
     map_option (\<lambda>p. s\<lparr>st_pools := (st_pools s)(st_backend_ro s := p)\<rparr>)
       (pool_execute (Find collection tags cb) (st_pools s (st_backend_ro s)))"

fun job_of :: "'c wrapped_op \<Rightarrow> 'c job" where
  "job_of (Writing c k tags cb) = Index c k tags cb"
| "job_of (Removing c k cb) = Unindex c k cb"

fun op_callback :: "'c wrapped_op \<Rightarrow> 'c" where
  "op_callback (Writing c k tags cb) = cb"
| "op_callback (Removing c k cb) = cb"

fun job_callbacks :: "'c job \<Rightarrow> 'c list" where
  "job_callbacks (Index c k tags cb) = [cb]"
| "job_callbacks (Unindex c k cb) = [cb]"
| "job_callbacks (Find c tags cb) = [cb]"
| "job_callbacks Foreign = []"

definition answer :: "bool \<Rightarrow> (reply \<times> called) list \<Rightarrow> 'c \<Rightarrow> 'c pg_answer" where
  "answer committed calls cb = \<lparr>pa_callback = cb, pa_committed = committed, pa_calls = calls\<rparr>"

text \<open>The \<open>n\<close>-th pending operation of the other storage ends.\<close>

definition on_wrapped :: "nat \<Rightarrow> bool \<Rightarrow> called \<Rightarrow> 'c pg_storage \<Rightarrow> 'c pg_storage" where
  "on_wrapped n ok x s =
     (if n < length (st_wrapped s) then
        let w = st_wrapped s ! n;
            s' = s\<lparr>st_wrapped := take n (st_wrapped s) @ drop (Suc n) (st_wrapped s)\<rparr> in
        if \<not> ok then s'\<lparr>st_log := st_log s' @ [answer False [(Storage_failed, x)] (op_callback w)]\<rparr>
        else case pool_execute (job_of w) (st_pools s' (st_backend s')) of
          None \<Rightarrow> s'\<lparr>st_log := st_log s' @ [answer False [(Pool_busy, x)] (op_callback w)]\<rparr>
        | Some p \<Rightarrow> s'\<lparr>st_pools := (st_pools s')(st_backend s' := p)\<rparr>
      else s)"

record db_env =
  db_attempts :: "attempt list"
  db_exec :: "string list option"
  db_commit :: bool
  db_first :: called
  db_second :: called

text \<open>A job: the statements that were executed, whether they were committed, and the reply.\<close>

fun run_job :: "sql \<Rightarrow> columns \<Rightarrow> db_env \<Rightarrow> 'c job \<Rightarrow> string list \<times> bool \<times> reply" where
  "run_job q co env (Index c k tags cb) =
     (if \<not> start_transaction 3 (db_attempts env) then ([], False, Pg_error)
      else if db_exec env = None \<or> \<not> db_commit env then ([index_sql q co c k tags], False, Pg_error)
      else ([index_sql q co c k tags], True, Ok_void))"
| "run_job q co env (Unindex c k cb) =
     (if \<not> start_transaction 3 (db_attempts env) then ([], False, Pg_error)
      else if db_exec env = None \<or> \<not> db_commit env then ([unindex_sql q co c k], False, Pg_error)
      else ([unindex_sql q co c k], True, Ok_void))"
| "run_job q co env (Find c tags cb) =
     (if \<not> start_transaction 3 (db_attempts env) then ([], False, Pg_error)
      else case db_exec env of
        None \<Rightarrow> ([find_sql q co c tags], False, Pg_error)
      | Some keys \<Rightarrow> ([find_sql q co c tags], False, Ok_keys keys))"
| "run_job q co env Foreign = ([], False, Pg_error)"

text \<open>
  The success is reported inside the block that catches standard exceptions, whose handler reports the error: if
  the callback throws one, it is called again. Any other exception, or one of the handler, ends the process.
  The result is the calls and whether the process survives.
\<close>

definition call_back :: "reply \<Rightarrow> called \<Rightarrow> called \<Rightarrow> (reply \<times> called) list \<times> bool" where
  "call_back r x y =
     (if r = Pg_error then ([(r, x)], x = Returns)
      else case x of
        Returns \<Rightarrow> ([(r, x)], True)
      | Throws_std \<Rightarrow> ([(r, x), (Pg_error, y)], y = Returns)
      | Throws_other \<Rightarrow> ([(r, x)], False))"

text \<open>The pool of the backend, or of the one for reading, takes a job, or ends the \<open>i\<close>-th of those that run.\<close>

definition pool_name :: "bool \<Rightarrow> 'c pg_storage \<Rightarrow> string" where
  "pool_name ro s = (if ro then st_backend_ro s else st_backend s)"

definition take_job :: "bool \<Rightarrow> 'c pg_storage \<Rightarrow> 'c pg_storage" where
  "take_job ro s = s\<lparr>st_pools := (st_pools s)(pool_name ro s := pool_take (st_pools s (pool_name ro s)))\<rparr>"

definition step_pool :: "sql \<Rightarrow> db_env \<Rightarrow> bool \<Rightarrow> nat \<Rightarrow> 'c pg_storage \<Rightarrow> 'c pg_storage" where
  "step_pool q env ro i s =
     (let name = pool_name ro s; p = st_pools s name in
      if i < length (po_running p) then
        case run_job q (st_columns s) env (po_running p ! i) of
          (stmts, committed, r) \<Rightarrow>
            (case call_back r (db_first env) (db_second env) of
               (calls, survives) \<Rightarrow>
                 s\<lparr>st_pools := (st_pools s)(name := (if survives then pool_done i p else (pool_done i p)\<lparr>po_load := po_load p\<rparr>)),
                   st_log := st_log s @ map (answer committed calls) (job_callbacks (po_running p ! i)),
                   st_dead := \<not> survives\<rparr>)
      else s)"

text \<open>Another user of the pool, the sender or another storage, has a job executed.\<close>

definition foreign_job :: "bool \<Rightarrow> 'c pg_storage \<Rightarrow> 'c pg_storage" where
  "foreign_job ro s =
     (case pool_execute Foreign (st_pools s (pool_name ro s)) of
        None \<Rightarrow> s
      | Some p \<Rightarrow> s\<lparr>st_pools := (st_pools s)(pool_name ro s := p)\<rparr>)"

subsection \<open>The sender of metrics\<close>

datatype policy = Continuous | Update_row

record pg_sender =
  ps_policy :: policy
  ps_hostname :: string
  ps_table :: string
  ps_send_period :: u64
  ps_gc_period :: u64
  ps_gc_ttl :: u64
  ps_send_timer :: bool
  ps_gc_timer :: bool

datatype sender_error = Invalid_policy | Zero_period | Bad_sender_args dynamic_error

definition policy_of :: "string \<Rightarrow> (sender_error, policy) result" where
  "policy_of p =
     (if p = [] \<or> p = ''continous'' then Inr Continuous
      else if p = ''update'' then Inr Update_row
      else Inl Invalid_policy)"

definition new_pg_sender :: "string \<Rightarrow> 'd dynamic \<Rightarrow> (sender_error, pg_sender) result" where
  "new_pg_sender host args =
     bindE (lift_error Bad_sender_args (as_object args)) (\<lambda>m.
     bindE (lift_error Bad_sender_args (
       bindE (as_string (at_default m ''pg_backend'' (D_string ''core''))) (\<lambda>backend.
       bindE (as_string (at_default m ''pg_table_name'' (D_string ''cocaine_metrics''))) (\<lambda>table.
       bindE (as_uint (at_default m ''pg_send_period_s'' (D_uint 1))) (\<lambda>period.
       bindE (as_uint (at_default m ''pg_gc_period_s'' (D_uint 3600))) (\<lambda>gc_period.
       bindE (as_uint (at_default m ''pg_gc_ttl_s'' (D_uint 3600))) (\<lambda>gc_ttl.
       bindE (as_string (at_default m ''policy'' (D_string []))) (\<lambda>pol.
       Inr (table, period, gc_period, gc_ttl, pol))))))))) (\<lambda>(table, period, gc_period, gc_ttl, pol).
     bindE (policy_of pol) (\<lambda>policy.
     if period = 0 then Inl Zero_period
     else bindE (lift_error Bad_sender_args (as_bool (at_default m ''pg_use_gc'' (D_bool True)))) (\<lambda>gc.
     Inr \<lparr>ps_policy = policy, ps_hostname = host, ps_table = table, ps_send_period = period, ps_gc_period = gc_period,
          ps_gc_ttl = gc_ttl, ps_send_timer = True, ps_gc_timer = gc\<rparr>))))"

datatype sender_job = Send string | Collect_garbage

text \<open>
  The handler of a timer: whether an exception left it, the sender and the pool. \<open>data\<close> is what
  the provider gives, unless it throws.
\<close>

definition on_send_timer ::
  "bool \<Rightarrow> string option \<Rightarrow> pg_sender \<Rightarrow> sender_job pool \<Rightarrow> bool \<times> pg_sender \<times> sender_job pool" where
  "on_send_timer aborted data s p =
     (let s = s\<lparr>ps_send_timer := False\<rparr> in
      if aborted then (False, s, p) else
      case data of
        None \<Rightarrow> (True, s, p)
      | Some d \<Rightarrow>
          (case pool_execute (Send d) p of
             None \<Rightarrow> (True, s, p)
           | Some p' \<Rightarrow> (False, s\<lparr>ps_send_timer := True\<rparr>, p')))"

definition on_gc_timer :: "bool \<Rightarrow> pg_sender \<Rightarrow> sender_job pool \<Rightarrow> bool \<times> pg_sender \<times> sender_job pool" where
  "on_gc_timer aborted s p =
     (let s = s\<lparr>ps_gc_timer := False\<rparr> in
      if aborted then (False, s, p) else
      case pool_execute Collect_garbage p of None \<Rightarrow> (True, s, p) | Some p' \<Rightarrow> (False, s, p'))"

definition insert_sql :: "sql \<Rightarrow> pg_sender \<Rightarrow> string \<Rightarrow> string \<Rightarrow> string" where
  "insert_sql q s now data =
     ''INSERT INTO '' @ sq_esc q (ps_table s) @ '' (ts, host, data) VALUES(to_timestamp('' @ now @ ''), '' @ sq_quote q (ps_hostname s) @ '', '' @
     sq_quote q data @ '');''"

definition count_sql :: "sql \<Rightarrow> pg_sender \<Rightarrow> string" where
  "count_sql q s = ''SELECT count(*) FROM '' @ sq_esc q (ps_table s) @ '' WHERE host = '' @ sq_quote q (ps_hostname s) @ '';''"

definition update_sql :: "sql \<Rightarrow> pg_sender \<Rightarrow> string \<Rightarrow> string \<Rightarrow> string" where
  "update_sql q s now data =
     ''UPDATE '' @ sq_esc q (ps_table s) @ ''  set ts = to_timestamp('' @ now @ ''), data = '' @ sq_quote q data @ '' WHERE host = '' @
     sq_quote q (ps_hostname s) @ '';''"

definition gc_sql :: "sql \<Rightarrow> pg_sender \<Rightarrow> string" where
  "gc_sql q s = ''DELETE FROM '' @ sq_esc q (ps_table s) @ '' WHERE ts < now()-interval '' @ [CHR 0x27] @ sq_nat q (unat (ps_gc_ttl s)) @
     '' seconds'' @ [CHR 0x27] @ '';''"

record send_env =
  sd_attempts :: "attempt list"
  sd_first :: bool
  sd_count :: nat
  sd_second :: bool
  sd_commit :: bool

text \<open>The statements that were executed successfully, and whether they were committed.\<close>

definition send_metrics :: "sql \<Rightarrow> send_env \<Rightarrow> pg_sender \<Rightarrow> string \<Rightarrow> string \<Rightarrow> string list \<times> bool" where
  "send_metrics q env s now data =
     (if \<not> start_transaction 3 (sd_attempts env) then ([], False) else
      case ps_policy s of
        Continuous \<Rightarrow> (if \<not> sd_first env then ([], False) else ([insert_sql q s now data], sd_commit env))
      | Update_row \<Rightarrow>
          (if \<not> sd_first env then ([], False)
           else if \<not> sd_second env then ([count_sql q s], False)
           else ([count_sql q s, if sd_count env = 0 then insert_sql q s now data else update_sql q s now data], sd_commit env)))"

text \<open>A job of the sender; collecting garbage starts its timer again whatever the database did.\<close>

definition run_sender_job ::
  "sql \<Rightarrow> send_env \<Rightarrow> string \<Rightarrow> sender_job \<Rightarrow> pg_sender \<Rightarrow> (string list \<times> bool) \<times> pg_sender" where
  "run_sender_job q env now j s =
     (case j of
        Send d \<Rightarrow> (send_metrics q env s now d, s)
      | Collect_garbage \<Rightarrow>
          ((if sd_first env then ([gc_sql q s], sd_commit env) else ([], False)), s\<lparr>ps_gc_timer := True\<rparr>))"

section \<open>Callbacks of the storage\<close>

inductive pg_run :: "sql \<Rightarrow> (string \<rightharpoonup> nat \<times> nat) \<Rightarrow> 'd dynamic \<Rightarrow> 'c pg_storage \<Rightarrow> 'c list \<Rightarrow> bool"
  for q :: sql and pools :: "string \<rightharpoonup> nat \<times> nat" and args :: "'d dynamic" where
  opened: "new_pg_storage pools args = Inr s \<Longrightarrow> pg_run q pools args s []"
| written: "pg_run q pools args s is \<Longrightarrow> \<not> st_dead s \<Longrightarrow> pg_run q pools args (pg_write c k tags cb s) (is @ [cb])"
| removed: "pg_run q pools args s is \<Longrightarrow> \<not> st_dead s \<Longrightarrow> pg_run q pools args (pg_remove c k cb s) (is @ [cb])"
| searched: "pg_run q pools args s is \<Longrightarrow> \<not> st_dead s \<Longrightarrow> pg_find c tags cb s = Some s' \<Longrightarrow> pg_run q pools args s' (is @ [cb])"
| ended: "pg_run q pools args s is \<Longrightarrow> \<not> st_dead s \<Longrightarrow> pg_run q pools args (on_wrapped i ok x s) is"
| foreign: "pg_run q pools args s is \<Longrightarrow> \<not> st_dead s \<Longrightarrow> pg_run q pools args (foreign_job ro s) is"
| taken: "pg_run q pools args s is \<Longrightarrow> \<not> st_dead s \<Longrightarrow> pg_run q pools args (take_job ro s) is"
| stepped: "pg_run q pools args s is \<Longrightarrow> \<not> st_dead s \<Longrightarrow> pg_run q pools args (step_pool q env ro i s) is"

definition pool_jobs :: "'j pool \<Rightarrow> 'j list" where
  "pool_jobs p = po_jobs p @ po_running p"

definition callbacks_in :: "'c job pool \<Rightarrow> 'c multiset" where
  "callbacks_in p = mset (concat (map job_callbacks (pool_jobs p)))"

text \<open>The callbacks that wait, for the other storage or in the one or two pools.\<close>

definition pending :: "'c pg_storage \<Rightarrow> 'c multiset" where
  "pending s = mset (map op_callback (st_wrapped s)) + (\<Sum>name \<in> {st_backend s, st_backend_ro s}. callbacks_in (st_pools s name))"

definition pool_ok :: "nat \<times> nat \<Rightarrow> 'j pool \<Rightarrow> bool" where
  "pool_ok mn p \<longleftrightarrow> po_max_load p = fst mn \<and> po_size p = snd mn \<and> po_load p = length (pool_jobs p) \<and> po_load p \<le> Suc (fst mn) \<and>
     length (po_running p) \<le> snd mn"

text \<open>
  What an answer is: one call, or a second one that reports the error, exactly if the first reported a success
  and threw a standard exception; the first call reports a success without keys exactly if the statement was committed.
\<close>

definition answer_ok :: "'c pg_answer \<Rightarrow> bool" where
  "answer_ok a \<longleftrightarrow>
     (\<exists>r x y. pa_calls a = (r, x) # (if x = Throws_std \<and> (r = Ok_void \<or> (\<exists>ks. r = Ok_keys ks)) then [(Pg_error, y)] else []) \<and>
        (pa_committed a \<longleftrightarrow> r = Ok_void))"

definition pg_inv :: "(string \<rightharpoonup> nat \<times> nat) \<Rightarrow> 'c pg_storage \<Rightarrow> 'c list \<Rightarrow> bool" where
  "pg_inv pools s is \<longleftrightarrow> mset is = pending s + mset (map pa_callback (st_log s)) \<and> (\<forall>a \<in> set (st_log s). answer_ok a) \<and>
     (\<forall>name \<in> {st_backend s, st_backend_ro s}. \<exists>mn. pools name = Some mn \<and> (st_dead s \<or> pool_ok mn (st_pools s name)))"

lemma mset_remove_nth: "i < length xs \<Longrightarrow> mset xs = add_mset (xs ! i) (mset (take i xs @ drop (Suc i) xs))"
  by (metis add_mset_add_single append_take_drop_id Cons_nth_drop_Suc mset.simps(2) mset_append union_mset_add_mset_right)

lemma pool_execute_ok:
  "pool_ok mn p \<Longrightarrow> pool_execute j p = Some p' \<Longrightarrow> pool_ok mn p' \<and> callbacks_in p' = mset (job_callbacks j) + callbacks_in p"
  by (auto simp: pool_execute_def pool_ok_def pool_jobs_def callbacks_in_def split: if_splits)

lemma pool_take_ok: "pool_ok mn p \<Longrightarrow> pool_ok mn (pool_take p) \<and> callbacks_in (pool_take p) = callbacks_in p"
  by (auto simp: pool_take_def pool_ok_def pool_jobs_def callbacks_in_def split: list.splits)

lemma pool_done_ok:
  "pool_ok mn p \<Longrightarrow> i < length (po_running p) \<Longrightarrow> pool_ok mn (pool_done i p)"
  by (auto simp: pool_done_def pool_ok_def pool_jobs_def)

lemma pool_done_callbacks:
  assumes "i < length (po_running p)"
  shows "callbacks_in p = mset (job_callbacks (po_running p ! i)) + callbacks_in (pool_done i p)"
proof -
  let ?f = "\<lambda>xs. mset (concat (map job_callbacks xs))"
  have "?f (po_running p) = ?f (take i (po_running p) @ po_running p ! i # drop (Suc i) (po_running p))"
    using id_take_nth_drop [OF assms] by simp
  then show ?thesis by (simp add: callbacks_in_def pool_done_def pool_jobs_def ac_simps)
qed

lemma job_of_callbacks [simp]: "job_callbacks (job_of w) = [op_callback w]"
  by (cases w) auto

lemma pa_callback_answer [simp]: "pa_callback (answer c cs cb) = cb" "map (pa_callback \<circ> answer c cs) xs = xs"
  by (simp_all add: answer_def comp_def)

text \<open>Replacing one of the pools changes what waits by what it changes in that pool.\<close>

lemma sum_upd:
  fixes f :: "'p \<Rightarrow> 'c multiset"
  assumes "finite A" and "n \<in> A" and "f p' + X = f (g n) + Y"
  shows "(\<Sum>m \<in> A. f ((g(n := p')) m)) + X = (\<Sum>m \<in> A. f (g m)) + Y"
proof -
  have "(\<Sum>m \<in> A. f ((g(n := p')) m)) = f p' + (\<Sum>m \<in> A - {n}. f (g m))"
    by (simp add: sum.remove [OF assms(1,2)])
  moreover have "(\<Sum>m \<in> A. f (g m)) = f (g n) + (\<Sum>m \<in> A - {n}. f (g m))"
    by (rule sum.remove [OF assms(1,2)])
  ultimately show ?thesis using assms(3) by (simp add: ac_simps)
qed

text \<open>Every step is such a replacement, with what it adds to the log.\<close>

lemma pg_inv_step:
  assumes inv: "pg_inv pools s is" and n: "n \<in> {st_backend s, st_backend_ro s}" and alive: "\<not> st_dead s"
    and bal: "callbacks_in p' + (mset (map op_callback ws) + mset (map pa_callback l)) =
      callbacks_in (st_pools s n) + (mset (map op_callback (st_wrapped s)) + mset xs)"
    and l: "\<forall>a \<in> set l. answer_ok a" and pool: "\<And>mn. pool_ok mn (st_pools s n) \<Longrightarrow> d \<or> pool_ok mn p'"
    and s': "s' = s\<lparr>st_pools := (st_pools s)(n := p'), st_wrapped := ws, st_log := st_log s @ l, st_dead := d\<rparr>"
  shows "pg_inv pools s' (is @ xs)"
proof -
  let ?A = "{st_backend s, st_backend_ro s}"
  have "(\<Sum>m \<in> ?A. callbacks_in (((st_pools s)(n := p')) m)) + (mset (map op_callback ws) + mset (map pa_callback l)) =
      (\<Sum>m \<in> ?A. callbacks_in (st_pools s m)) + (mset (map op_callback (st_wrapped s)) + mset xs)"
    by (rule sum_upd [where f = callbacks_in and g = "st_pools s", OF _ n bal]) simp
  moreover have "mset is = mset (map op_callback (st_wrapped s)) + (\<Sum>m \<in> ?A. callbacks_in (st_pools s m)) + mset (map pa_callback (st_log s))"
    using inv by (simp add: pg_inv_def pending_def)
  ultimately have "mset (is @ xs) = pending s' + mset (map pa_callback (st_log s'))"
    by (simp add: s' pending_def ac_simps)
  moreover have "\<exists>mn. pools name = Some mn \<and> (st_dead s' \<or> pool_ok mn (st_pools s' name))"
    if "name \<in> {st_backend s', st_backend_ro s'}" for name
  proof -
    have "name \<in> ?A" using that by (simp add: s')
    with inv alive obtain mn where "pools name = Some mn" and ok: "pool_ok mn (st_pools s name)"
      unfolding pg_inv_def by blast
    moreover have "d \<or> pool_ok mn (((st_pools s)(n := p')) name)" using ok pool [of mn] by (cases "name = n") auto
    ultimately show ?thesis by (simp add: s')
  qed
  moreover have "\<forall>a \<in> set (st_log s'). answer_ok a" using inv l by (auto simp: s' pg_inv_def)
  ultimately show ?thesis unfolding pg_inv_def by blast
qed

lemma pg_inv_pool_ok:
  "pg_inv pools s is \<Longrightarrow> \<not> st_dead s \<Longrightarrow> n \<in> {st_backend s, st_backend_ro s} \<Longrightarrow> \<exists>mn. pool_ok mn (st_pools s n)"
  unfolding pg_inv_def by blast

lemma answer_ok_once: "answer_ok (answer False [(r, x)] cb)" if "r = Storage_failed \<or> r = Pool_busy"
  using that by (auto simp: answer_ok_def answer_def)

lemma run_job_reply:
  "run_job q co env j = (stmts, committed, r) \<Longrightarrow> (r = Ok_void \<longleftrightarrow> committed) \<and> (r = Ok_void \<or> (\<exists>ks. r = Ok_keys ks) \<or> r = Pg_error)"
  by (cases j) (auto split: if_splits option.splits)

lemma answer_ok_job:
  assumes "run_job q co env j = (stmts, committed, r)" and "call_back r x y = (calls, survives)"
  shows "answer_ok (answer committed calls cb)"
  using assms(2) run_job_reply [OF assms(1)]
  by (auto simp: answer_ok_def answer_def call_back_def split: if_splits called.splits)

lemma pg_find_inv:
  assumes inv: "pg_inv pools s is" "\<not> st_dead s" and f: "pg_find c tags cb s = Some s'"
  shows "pg_inv pools s' (is @ [cb])"
proof -
  let ?n = "st_backend_ro s"
  from f obtain p where p: "pool_execute (Find c tags cb) (st_pools s ?n) = Some p" and s': "s' = s\<lparr>st_pools := (st_pools s)(?n := p)\<rparr>"
    by (auto simp: pg_find_def)
  obtain mn where "pool_ok mn (st_pools s ?n)" using pg_inv_pool_ok [OF inv] by blast
  from pool_execute_ok [OF this p] have "callbacks_in p = {#cb#} + callbacks_in (st_pools s ?n)" by simp
  then show ?thesis
    by (intro pg_inv_step [where n = ?n and p' = p and ws = "st_wrapped s" and l = "[]" and d = "st_dead s", OF inv(1) _ inv(2)])
      (use pool_execute_ok [OF _ p] inv(2) in \<open>auto simp: s'\<close>)
qed

lemma on_wrapped_inv:
  assumes inv: "pg_inv pools s is" "\<not> st_dead s"
  shows "pg_inv pools (on_wrapped i ok x s) is"
proof (cases "i < length (st_wrapped s)")
  case True
  let ?w = "st_wrapped s ! i" and ?ws = "take i (st_wrapped s) @ drop (Suc i) (st_wrapped s)" and ?n = "st_backend s"
  have ws: "mset (map op_callback (st_wrapped s)) = add_mset (op_callback ?w) (mset (map op_callback ?ws))"
    using mset_remove_nth [OF True] by (metis image_mset_add_mset mset_map)
  have refused: "pg_inv pools (s\<lparr>st_wrapped := ?ws, st_log := st_log s @ [answer False [(r, x)] (op_callback ?w)]\<rparr>) (is @ [])"
    if "r = Storage_failed \<or> r = Pool_busy" for r
    by (rule pg_inv_step [where n = ?n and p' = "st_pools s ?n" and ws = ?ws and d = "st_dead s"
        and l = "[answer False [(r, x)] (op_callback ?w)]", OF inv(1) _ inv(2)])
      (use answer_ok_once [OF that] inv(2) ws in auto)
  show ?thesis
  proof (cases "pool_execute (job_of ?w) (st_pools s ?n)")
    case None
    with refused [of Storage_failed] refused [of Pool_busy] True show ?thesis by (auto simp: on_wrapped_def Let_def)
  next
    case (Some p)
    obtain mn where "pool_ok mn (st_pools s ?n)" using pg_inv_pool_ok [OF inv] by blast
    from pool_execute_ok [OF this Some] have "callbacks_in p = {#op_callback ?w#} + callbacks_in (st_pools s ?n)" by simp
    then have "pg_inv pools (s\<lparr>st_wrapped := ?ws, st_pools := (st_pools s)(?n := p)\<rparr>) (is @ [])"
      by (intro pg_inv_step [where n = ?n and p' = p and ws = ?ws and l = "[]" and d = "st_dead s", OF inv(1) _ inv(2)])
        (use pool_execute_ok [OF _ Some] inv(2) ws in auto)
    with refused [of Storage_failed] Some True show ?thesis by (auto simp: on_wrapped_def Let_def)
  qed
qed (use inv in \<open>simp add: on_wrapped_def\<close>)

lemma foreign_job_inv:
  assumes inv: "pg_inv pools s is" "\<not> st_dead s"
  shows "pg_inv pools (foreign_job ro s) is"
proof (cases "pool_execute Foreign (st_pools s (pool_name ro s))")
  case (Some p)
  let ?n = "pool_name ro s"
  have n: "?n \<in> {st_backend s, st_backend_ro s}" by (simp add: pool_name_def)
  obtain mn where "pool_ok mn (st_pools s ?n)" using pg_inv_pool_ok [OF inv n] by blast
  from pool_execute_ok [OF this Some] have "callbacks_in p = callbacks_in (st_pools s ?n)" by simp
  then have "pg_inv pools (foreign_job ro s) (is @ [])"
    by (intro pg_inv_step [where p' = p and ws = "st_wrapped s" and l = "[]" and d = "st_dead s", OF inv(1) n inv(2)])
      (use pool_execute_ok [OF _ Some] inv(2) Some in \<open>auto simp: foreign_job_def\<close>)
  then show ?thesis by simp
qed (use inv in \<open>simp add: foreign_job_def\<close>)

lemma take_job_inv:
  assumes inv: "pg_inv pools s is" "\<not> st_dead s"
  shows "pg_inv pools (take_job ro s) is"
proof -
  let ?n = "pool_name ro s"
  have n: "?n \<in> {st_backend s, st_backend_ro s}" by (simp add: pool_name_def)
  obtain mn where "pool_ok mn (st_pools s ?n)" using pg_inv_pool_ok [OF inv n] by blast
  with pool_take_ok [of _ "st_pools s ?n"] have "pg_inv pools (take_job ro s) (is @ [])"
    by (intro pg_inv_step [where p' = "pool_take (st_pools s ?n)" and ws = "st_wrapped s" and l = "[]" and d = "st_dead s", OF inv(1) n inv(2)])
      (use inv(2) in \<open>auto simp: take_job_def\<close>)
  then show ?thesis by simp
qed

lemma step_pool_inv:
  assumes inv: "pg_inv pools s is" "\<not> st_dead s"
  shows "pg_inv pools (step_pool q env ro i s) is"
proof (cases "i < length (po_running (st_pools s (pool_name ro s)))")
  case True
  let ?n = "pool_name ro s"
  let ?p = "st_pools s ?n"
  let ?j = "po_running ?p ! i"
  have n: "?n \<in> {st_backend s, st_backend_ro s}" by (simp add: pool_name_def)
  obtain stmts committed r where r: "run_job q (st_columns s) env ?j = (stmts, committed, r)" by (metis prod_cases3)
  obtain calls survives where c: "call_back r (db_first env) (db_second env) = (calls, survives)" by (meson surj_pair)
  let ?p' = "if survives then pool_done i ?p else (pool_done i ?p)\<lparr>po_load := po_load ?p\<rparr>"
  have cb: "callbacks_in ?p = mset (job_callbacks ?j) + callbacks_in ?p'"
    using pool_done_callbacks [OF True] by (simp add: callbacks_in_def pool_jobs_def)
  have "pg_inv pools (step_pool q env ro i s) (is @ [])"
  proof (rule pg_inv_step [where n = ?n and p' = ?p' and ws = "st_wrapped s" and d = "\<not> survives"
        and l = "map (answer committed calls) (job_callbacks ?j)", OF inv(1) n inv(2)])
    show "callbacks_in ?p' + (mset (map op_callback (st_wrapped s)) + mset (map pa_callback (map (answer committed calls) (job_callbacks ?j)))) =
        callbacks_in ?p + (mset (map op_callback (st_wrapped s)) + mset [])"
      unfolding cb by (simp only: map_map pa_callback_answer ac_simps mset.simps) simp
    show "\<forall>a \<in> set (map (answer committed calls) (job_callbacks ?j)). answer_ok a" using answer_ok_job [OF r c] by auto
    show "step_pool q env ro i s = s\<lparr>st_pools := (st_pools s)(?n := ?p'), st_wrapped := st_wrapped s,
        st_log := st_log s @ map (answer committed calls) (job_callbacks ?j), st_dead := \<not> survives\<rparr>"
      using True r c by (simp add: step_pool_def Let_def)
  qed (use pool_done_ok [OF _ True] in auto)
  then show ?thesis by simp
qed (use inv in \<open>simp add: step_pool_def Let_def\<close>)

lemma callbacks_in_new [simp]: "callbacks_in (pool_of pools name) = {#}"
  by (auto simp: callbacks_in_def pool_jobs_def pool_of_def new_pool_def split: option.splits)

lemma pool_ok_new: "pools name = Some mn \<Longrightarrow> pool_ok mn (pool_of pools name)"
  by (auto simp: pool_ok_def pool_jobs_def pool_of_def new_pool_def split: prod.splits)

lemma new_pg_storage_inv: "new_pg_storage pools args = Inr s \<Longrightarrow> pg_inv pools s []"
  by (auto simp: new_pg_storage_def get_pool_def pg_inv_def pending_def bindE_Inr_conv pool_ok_new split: option.splits)

lemma pg_run_inv: "pg_run q pools args s is \<Longrightarrow> pg_inv pools s is"
proof (induction rule: pg_run.induct)
  case (written s is' c k tags cb)
  then show ?case by (simp add: pg_inv_def pending_def pg_write_def)
next
  case (removed s is' c k cb)
  then show ?case by (simp add: pg_inv_def pending_def pg_remove_def)
qed (auto intro: new_pg_storage_inv pg_find_inv on_wrapped_inv foreign_job_inv take_job_inv step_pool_inv)

text \<open>
  C33:
  In every run of the storage, whatever the callbacks do and whoever shares the pools, each
  callback that was handed in waits, for the other storage or for the database, or was answered, as often as it was
  handed in. An answer is one call, and a second one, which reports an error, exactly if the first reported a
  success and threw a standard exception: even a committed write is then reported as failed. The first call
  reports the success of a write or a removal exactly if its statement was committed. As long as no
  exception has ended the process, the load of a pool is the number of its jobs, waiting or running, and
  exceeds the maximum by one at most, and no more jobs run than the pool has threads.
\<close>

theorem pg_accounted:
  assumes "pg_run q pools args s is"
  shows "mset is = pending s + mset (map pa_callback (st_log s)) \<and>
     (\<forall>a \<in> set (st_log s). \<exists>r x y.
        pa_calls a = (r, x) # (if x = Throws_std \<and> (r = Ok_void \<or> (\<exists>ks. r = Ok_keys ks)) then [(Pg_error, y)] else []) \<and>
        (pa_committed a \<longleftrightarrow> r = Ok_void)) \<and>
     (st_dead s \<or> (\<forall>name \<in> {st_backend s, st_backend_ro s}. \<exists>m n. pools name = Some (m, n) \<and>
        po_load (st_pools s name) = length (po_jobs (st_pools s name)) + length (po_running (st_pools s name)) \<and>
        po_load (st_pools s name) \<le> Suc m \<and> length (po_running (st_pools s name)) \<le> n))"
  using pg_run_inv [OF assms] unfolding pg_inv_def answer_ok_def pool_ok_def pool_jobs_def
  by (simp only: length_append) (metis prod.collapse)

definition sample_sql :: sql where
  "sample_sql = \<lparr>sq_esc = (\<lambda>s. s), sq_quote = (\<lambda>s. [CHR 0x27] @ s @ [CHR 0x27]), sq_tags = concat, sq_nat = (\<lambda>n. replicate n CHR ''1'')\<rparr>"

definition sample_pools :: "string \<rightharpoonup> nat \<times> nat" where
  "sample_pools name = (if name = ''core'' then Some (5, 1) else None)"

definition sample_storage :: "nat pg_storage" where
  "sample_storage =
     \<lparr>st_columns = \<lparr>co_collection = ''collection'', co_key = ''key'', co_tags = ''tags'', co_table = ''cocaine_index''\<rparr>,
      st_backend = ''core'', st_backend_ro = ''core'', st_pools = pool_of sample_pools, st_wrapped = [], st_log = [], st_dead = False\<rparr>"

theorem pg_accounted_witness:
  "\<exists>s. pg_run sample_sql sample_pools (D_object [] :: unit dynamic) s [1, 2 :: nat] \<and>
     st_log s = [answer False [(Storage_failed, Returns)] 2, answer True [(Ok_void, Throws_std), (Pg_error, Returns)] 1] \<and>
     mset [1, 2 :: nat] = pending s + mset (map pa_callback (st_log s))"
proof -
  let ?s1 = "pg_remove ''c'' ''k'' 2 (pg_write ''c'' ''k'' [] 1 sample_storage)"
  let ?env = "\<lparr>db_attempts = [Broken_connection, Started], db_exec = Some [], db_commit = True, db_first = Throws_std, db_second = Returns\<rparr>"
  let ?s2 = "take_job True (on_wrapped 0 True Returns (on_wrapped 1 False Returns ?s1))"
  let ?s = "step_pool sample_sql ?env False 0 ?s2"
  have "new_pg_storage sample_pools (D_object [] :: unit dynamic) = Inr sample_storage"
    by (simp add: new_pg_storage_def new_columns_def get_pool_def sample_pools_def sample_storage_def at_default_def)
  then have "pg_run sample_sql sample_pools (D_object [] :: unit dynamic) ?s1 [1, 2]"
    using pg_run.removed [OF pg_run.written [OF pg_run.opened]]
    by (force simp: sample_storage_def pg_write_def)
  then have r: "pg_run sample_sql sample_pools (D_object [] :: unit dynamic) ?s [1, 2]"
    by (intro pg_run.stepped pg_run.taken pg_run.ended) (assumption | code_simp)+
  have "st_log ?s = [answer False [(Storage_failed, Returns)] 2, answer True [(Ok_void, Throws_std), (Pg_error, Returns)] 1]" by code_simp
  with pg_accounted [OF r] r show ?thesis by blast
qed

section \<open>The sender\<close>

text \<open>
  A sender with the policy to update makes, in a transaction that is committed, exactly one
  change of the table, to the row of its own host: it inserts the row if there
  was none and updates it otherwise. What is not committed was never complete.
\<close>

theorem pg_sender_rows:
  "case send_metrics q env (s\<lparr>ps_policy := Update_row\<rparr>) now data of
     (stmts, committed) \<Rightarrow>
       (if committed
        then stmts = [count_sql q s, if sd_count env = 0 then insert_sql q s now data else update_sql q s now data]
        else prefix stmts [count_sql q s, if sd_count env = 0 then insert_sql q s now data else update_sql q s now data])"
proof -
  have eq: "count_sql q (s\<lparr>ps_policy := Update_row\<rparr>) = count_sql q s" "insert_sql q (s\<lparr>ps_policy := Update_row\<rparr>) now data = insert_sql q s now data"
      "update_sql q (s\<lparr>ps_policy := Update_row\<rparr>) now data = update_sql q s now data"
    by (simp_all add: count_sql_def insert_sql_def update_sql_def)
  show ?thesis by (simp add: send_metrics_def eq)
qed

text \<open>
  Two gaps. When the pool is busy or the provider of the metrics throws, the exception leaves the
  handler of the timer, which is not started again: nothing is ever sent any more; the
  same holds for collecting garbage. A pool of a maximal load of zero still accepts a job.
\<close>

theorem pg_gaps:
  "on_send_timer False data s \<lparr>po_load = Suc m, po_max_load = m, po_size = n, po_jobs = js, po_running = rs\<rparr> =
     (True, s\<lparr>ps_send_timer := False\<rparr>, \<lparr>po_load = Suc m, po_max_load = m, po_size = n, po_jobs = js, po_running = rs\<rparr>) \<and>
   on_send_timer False None s p = (True, s\<lparr>ps_send_timer := False\<rparr>, p) \<and>
   on_gc_timer False s \<lparr>po_load = Suc m, po_max_load = m, po_size = n, po_jobs = js, po_running = rs\<rparr> =
     (True, s\<lparr>ps_gc_timer := False\<rparr>, \<lparr>po_load = Suc m, po_max_load = m, po_size = n, po_jobs = js, po_running = rs\<rparr>) \<and>
   pool_execute j (new_pool 0 n) = Some \<lparr>po_load = 1, po_max_load = 0, po_size = n, po_jobs = [j], po_running = []\<rparr>"
  by (cases data) (simp_all add: on_send_timer_def on_gc_timer_def pool_execute_def new_pool_def Let_def)

end
