(* ===== verification/Ipvs_Gateway.thy ===== *)
theory Ipvs_Gateway
  imports Prelude "HOL-Library.List_Lexorder" "HOL-Library.Char_ord"
begin

unbundle bit_operations_syntax

text \<open>
  The IPVS gateway (\<^verbatim>\<open>src/ipvs/gateway.cpp\<close>): every service of a cluster that other
  nodes announce becomes a virtual service of the kernel, and each announcement a
  destination of it.

  The kernel behind \<^verbatim>\<open>libipvs\<close> is a parameter: a record \<open>ops\<close> of its four calls on
  states of any type, which say whether the call succeeded. What the code relies on
  is \<open>kernel_laws\<close>: a successful call changes the table accordingly, an unsuccessful
  one not at all; any call may be refused at any time. The port that the context
  assigns to a virtual service is an argument. Results are \<open>None\<close> for undefined
  behaviour, else the exception if one leaves the call, and the state.
\<close>

section \<open>Addresses and handles\<close>

datatype family = V4 | V6

record endpoint =
  ep_family :: family
  ep_addr :: nat
  ep_port :: "16 word"

record ipvs_service =
  sv_af :: family
  sv_addr :: nat
  sv_netmask :: nat
  sv_port :: "16 word"
  sv_sched_name :: string

record ipvs_dest =
  ds_af :: family
  ds_addr :: nat
  ds_port :: "16 word"
  ds_weight :: "32 word"

definition htons :: "16 word \<Rightarrow> 16 word" where
  "htons p = push_bit 8 p OR drop_bit 8 p"

lemma htons_htons: "htons (htons p) = p"
  by (rule bit_word_eqI) (auto simp: htons_def bit_simps)

text \<open>What the kernel tells services and destinations apart by.\<close>

type_synonym service_key = "family \<times> nat \<times> 16 word"
type_synonym dest_key = "nat \<times> 16 word"

definition service_key :: "ipvs_service \<Rightarrow> service_key" where
  "service_key s = (sv_af s, sv_addr s, sv_port s)"

definition dest_key :: "ipvs_dest \<Rightarrow> dest_key" where
  "dest_key d = (ds_addr d, ds_port d)"

record 'k kernel_ops =
  ko_add_service :: "ipvs_service \<Rightarrow> 'k \<Rightarrow> bool \<times> 'k"
  ko_del_service :: "ipvs_service \<Rightarrow> 'k \<Rightarrow> bool \<times> 'k"
  ko_add_dest :: "ipvs_service \<Rightarrow> ipvs_dest \<Rightarrow> 'k \<Rightarrow> bool \<times> 'k"
  ko_del_dest :: "ipvs_service \<Rightarrow> ipvs_dest \<Rightarrow> 'k \<Rightarrow> bool \<times> 'k"

section \<open>A virtual service\<close>

datatype ipvs_error = Addr_not_available | Host_unreachable | Ipvs_failed | Service_not_available | No_shared_ports | No_local_addresses | Init_failed

record remote =
  rm_service :: string
  rm_version :: nat
  rm_endpoints :: "endpoint list"
  rm_services :: "(family, ipvs_service) umap"
  rm_backends :: "(string \<times> ipvs_dest) list"

record ipvs_config =
  cf_scheduler :: string
  cf_weight :: "32 word"
  cf_cluster :: string

definition ip_vs_schedname_maxlen :: nat where
  "ip_vs_schedname_maxlen = 16"

definition service_handle :: "string \<Rightarrow> endpoint \<Rightarrow> ipvs_service" where
  "service_handle scheduler e =
     \<lparr>sv_af = ep_family e, sv_addr = ep_addr e, sv_netmask = (case ep_family e of V4 \<Rightarrow> 32 | V6 \<Rightarrow> 128), sv_port = htons (ep_port e),
      sv_sched_name = take ip_vs_schedname_maxlen scheduler\<rparr>"

fun publish_endpoints ::
  "'k kernel_ops \<Rightarrow> string \<Rightarrow> 16 word \<Rightarrow> (family \<times> nat) list \<Rightarrow> remote \<Rightarrow> 'k \<Rightarrow> remote \<times> 'k" where
  "publish_endpoints ops scheduler port [] r k = (r, k)"
| "publish_endpoints ops scheduler port ((f, a) # as) r k =
     (let e = \<lparr>ep_family = f, ep_addr = a, ep_port = port\<rparr> in
      if um_find f (rm_services r) \<noteq> None then publish_endpoints ops scheduler port as r k
      else
        let h = service_handle scheduler e in
        case ko_add_service ops h k of
          (False, k1) \<Rightarrow> publish_endpoints ops scheduler port as r k1
        | (True, k1) \<Rightarrow>
            publish_endpoints ops scheduler port as
              (r\<lparr>rm_endpoints := rm_endpoints r @ [e], rm_services := um_insert (sv_af h) h (rm_services r)\<rparr>) k1)"

definition new_remote ::
  "'k kernel_ops \<Rightarrow> string \<Rightarrow> (family \<times> nat) list \<Rightarrow> 16 word \<Rightarrow> string \<Rightarrow> nat \<Rightarrow> 'k \<Rightarrow> (ipvs_error, remote) result \<times> 'k" where
  "new_remote ops scheduler addresses port name version k =
     (case publish_endpoints ops scheduler port addresses
        \<lparr>rm_service = name, rm_version = version, rm_endpoints = [], rm_services = [], rm_backends = []\<rparr> k of
        (r, k1) \<Rightarrow> if rm_services r = [] then (Inl Addr_not_available, k1) else (Inr r, k1))"

definition reduce :: "remote \<Rightarrow> (ipvs_error, endpoint list \<times> nat) result" where
  "reduce r =
     (if rm_backends r = [] then Inl Service_not_available
      else Inr (filter (\<lambda>e. list_ex (\<lambda>b. ds_af (snd b) = ep_family e) (rm_backends r)) (rm_endpoints r), rm_version r))"

definition dest_handle :: "32 word \<Rightarrow> endpoint \<Rightarrow> ipvs_dest" where
  "dest_handle weight e = \<lparr>ds_af = ep_family e, ds_addr = ep_addr e, ds_port = htons (ep_port e), ds_weight = weight\<rparr>"

text \<open>One destination per family: the first endpoint of the family that the kernel accepts.\<close>

fun add_dests ::
  "'k kernel_ops \<Rightarrow> 32 word \<Rightarrow> remote \<Rightarrow> endpoint list \<Rightarrow> (family, ipvs_dest) umap \<Rightarrow> 'k \<Rightarrow> (family, ipvs_dest) umap \<times> 'k" where
  "add_dests ops weight r [] handles k = (handles, k)"
| "add_dests ops weight r (e # es) handles k =
     (case um_find (ep_family e) (rm_services r) of
        None \<Rightarrow> add_dests ops weight r es handles k
      | Some s \<Rightarrow>
          if um_find (ep_family e) handles \<noteq> None then add_dests ops weight r es handles k
          else
            let h = dest_handle weight e in
            case ko_add_dest ops s h k of
              (False, k1) \<Rightarrow> add_dests ops weight r es handles k1
            | (True, k1) \<Rightarrow> add_dests ops weight r es (um_insert (ds_af h) h handles) k1)"

text \<open>The handles are a map ordered by family.\<close>

definition in_order :: "(family, ipvs_dest) umap \<Rightarrow> ipvs_dest list" where
  "in_order handles = map snd (filter (\<lambda>h. fst h = V4) handles @ filter (\<lambda>h. fst h = V6) handles)"

definition insert_dests ::
  "'k kernel_ops \<Rightarrow> 32 word \<Rightarrow> string \<Rightarrow> endpoint list \<Rightarrow> remote \<Rightarrow> 'k \<Rightarrow> ipvs_error option \<times> remote \<times> 'k" where
  "insert_dests ops weight uuid endpoints r k =
     (case add_dests ops weight r endpoints [] k of
        (handles, k1) \<Rightarrow>
          if handles = [] then (Some Host_unreachable, r, k1)
          else (None, r\<lparr>rm_backends := rm_backends r @ map (\<lambda>d. (uuid, d)) (in_order handles)\<rparr>, k1))"

text \<open>
  \<open>None\<close>: \<^verbatim>\<open>services.at\<close> has no service of the family, which throws \<^verbatim>\<open>std::out_of_range\<close>.
\<close>

fun del_dests :: "'k kernel_ops \<Rightarrow> remote \<Rightarrow> ipvs_dest list \<Rightarrow> 'k \<Rightarrow> (bool \<times> 'k) option" where
  "del_dests ops r [] k = Some (True, k)"
| "del_dests ops r (d # ds) k =
     (case um_find (ds_af d) (rm_services r) of
        None \<Rightarrow> None
      | Some s \<Rightarrow>
          (case ko_del_dest ops s d k of
             (False, k1) \<Rightarrow> Some (False, k1)
           | (True, k1) \<Rightarrow> del_dests ops r ds k1))"

definition backends_of :: "string \<Rightarrow> remote \<Rightarrow> ipvs_dest list" where
  "backends_of uuid r = map snd (filter (\<lambda>b. fst b = uuid) (rm_backends r))"

definition remove_dests :: "'k kernel_ops \<Rightarrow> string \<Rightarrow> remote \<Rightarrow> 'k \<Rightarrow> (ipvs_error option \<times> remote \<times> 'k) option" where
  "remove_dests ops uuid r k =
     (case del_dests ops r (backends_of uuid r) k of
        None \<Rightarrow> None
      | Some (False, k1) \<Rightarrow> Some (Some Ipvs_failed, r, k1)
      | Some (True, k1) \<Rightarrow> Some (None, r\<lparr>rm_backends := filter (\<lambda>b. fst b \<noteq> uuid) (rm_backends r)\<rparr>, k1))"

text \<open>The destructor ignores what the kernel answers.\<close>

definition destroy_remote :: "'k kernel_ops \<Rightarrow> remote \<Rightarrow> 'k \<Rightarrow> 'k" where
  "destroy_remote ops r k =
     fold (\<lambda>s k. snd (ko_del_service ops s k)) (map snd (rm_services r))
       (fold (\<lambda>b k. case um_find (ds_af (snd b)) (rm_services r) of Some s \<Rightarrow> snd (ko_del_dest ops s (snd b) k) | None \<Rightarrow> k)
         (rm_backends r) k)"

section \<open>The gateway\<close>

text \<open>A \<open>None\<close> entry is a null reference.\<close>

record 'k ipvs =
  iv_cfg :: ipvs_config
  iv_addresses :: "(family \<times> nat) list"
  iv_remotes :: "(string, remote option) umap"
  iv_kernel :: 'k

definition put_remote :: "string \<Rightarrow> remote \<Rightarrow> 'k \<Rightarrow> 'k ipvs \<Rightarrow> 'k ipvs" where
  "put_remote name r k g = g\<lparr>iv_remotes := um_insert name (Some r) (iv_remotes g), iv_kernel := k\<rparr>"

definition resolve :: "string \<Rightarrow> 'k ipvs \<Rightarrow> (ipvs_error, endpoint list \<times> nat) result option" where
  "resolve name g =
     (case um_find name (iv_remotes g) of
        None \<Rightarrow> Some (Inl Service_not_available)
      | Some None \<Rightarrow> None
      | Some (Some r) \<Rightarrow> Some (reduce r))"

definition insert_into ::
  "'k kernel_ops \<Rightarrow> string \<Rightarrow> endpoint list \<Rightarrow> string \<Rightarrow> remote \<Rightarrow> 'k ipvs \<Rightarrow> (ipvs_error option \<times> 'k ipvs) option" where
  "insert_into ops uuid endpoints name r g =
     (case insert_dests ops (cf_weight (iv_cfg g)) uuid endpoints r (iv_kernel g) of
        (ex, r1, k1) \<Rightarrow> Some (ex, put_remote name r1 k1 g))"

text \<open>
  \<open>left_first\<close>: the entry of the map is made before the virtual service is, which the
  language leaves open.
\<close>

definition consume ::
  "'k kernel_ops \<Rightarrow> bool \<Rightarrow> 16 word \<Rightarrow> string \<Rightarrow> string \<Rightarrow> nat \<Rightarrow> endpoint list \<Rightarrow> string \<Rightarrow> 'k ipvs \<Rightarrow> (ipvs_error option \<times> 'k ipvs) option" where
  "consume ops left_first port uuid name version endpoints cluster g =
     (if cf_cluster (iv_cfg g) \<noteq> cluster then Some (None, g)
      else case um_find name (iv_remotes g) of
             None \<Rightarrow>
               (case new_remote ops (cf_scheduler (iv_cfg g)) (iv_addresses g) port name version (iv_kernel g) of
                  (Inl e, k1) \<Rightarrow>
                    Some (Some e, g\<lparr>iv_kernel := k1, iv_remotes := (if left_first then um_insert name None (iv_remotes g) else iv_remotes g)\<rparr>)
                | (Inr r, k1) \<Rightarrow> insert_into ops uuid endpoints name r (put_remote name r k1 g))
           | Some None \<Rightarrow> None
           | Some (Some r) \<Rightarrow> insert_into ops uuid endpoints name r g)"

definition cleanup_service :: "'k kernel_ops \<Rightarrow> string \<Rightarrow> string \<Rightarrow> 'k ipvs \<Rightarrow> (ipvs_error option \<times> 'k ipvs) option" where
  "cleanup_service ops uuid name g =
     (case um_find name (iv_remotes g) of
        None \<Rightarrow> Some (None, g)
      | Some None \<Rightarrow> None
      | Some (Some r) \<Rightarrow>
          (case remove_dests ops uuid r (iv_kernel g) of
             None \<Rightarrow> None
           | Some (ex, r1, k1) \<Rightarrow> Some (ex, put_remote name r1 k1 g)))"

fun cleanup_loop :: "'k kernel_ops \<Rightarrow> string \<Rightarrow> string list \<Rightarrow> 'k ipvs \<Rightarrow> (ipvs_error option \<times> 'k ipvs) option" where
  "cleanup_loop ops uuid [] g = Some (None, g)"
| "cleanup_loop ops uuid (name # names) g =
     (case cleanup_service ops uuid name g of
        None \<Rightarrow> None
      | Some (Some e, g1) \<Rightarrow> Some (Some e, g1)
      | Some (None, g1) \<Rightarrow> cleanup_loop ops uuid names g1)"

definition cleanup_uuid :: "'k kernel_ops \<Rightarrow> string \<Rightarrow> 'k ipvs \<Rightarrow> (ipvs_error option \<times> 'k ipvs) option" where
  "cleanup_uuid ops uuid g = cleanup_loop ops uuid (sort (um_keys (iv_remotes g))) g"

text \<open>A function without a result for unknown names.\<close>

definition total_count :: "string \<Rightarrow> 'k ipvs \<Rightarrow> nat option" where
  "total_count name g =
     (case um_find name (iv_remotes g) of
        None \<Rightarrow> None
      | Some None \<Rightarrow> None
      | Some (Some r) \<Rightarrow> Some (length (rm_backends r)))"

text \<open>
  The constructor: \<open>init\<close> whether the library could be initialized, the range of shared
  ports, the configured address unless it is unspecified, and the addresses the host
  name resolves to. The kernel table is flushed.
\<close>

definition new_ipvs ::
  "ipvs_config \<Rightarrow> bool \<Rightarrow> nat \<times> nat \<Rightarrow> (family \<times> nat) option \<Rightarrow> (family \<times> nat) list option \<Rightarrow> ('k \<Rightarrow> 'k) \<Rightarrow> 'k \<Rightarrow>
   (ipvs_error, 'k ipvs) result" where
  "new_ipvs cfg init ports endpoint resolved flush k =
     (if \<not> init then Inl Init_failed
      else if ports = (0, 0) then Inl No_shared_ports
      else
        let make = (\<lambda>as. Inr \<lparr>iv_cfg = cfg, iv_addresses = as, iv_remotes = [], iv_kernel = flush k\<rparr>) in
        case endpoint of
          Some a \<Rightarrow> make [a]
        | None \<Rightarrow> (case resolved of None \<Rightarrow> Inl No_local_addresses | Some as \<Rightarrow> make as))"

definition destroy_ipvs :: "'k kernel_ops \<Rightarrow> 'k ipvs \<Rightarrow> 'k" where
  "destroy_ipvs ops g = fold (\<lambda>r k. case r of None \<Rightarrow> k | Some r \<Rightarrow> destroy_remote ops r k) (map snd (iv_remotes g)) (iv_kernel g)"

section \<open>What is relied on of the kernel\<close>

text \<open>The table as two sets: the virtual services, and the destinations with their services.\<close>

type_synonym 'k services_view = "'k \<Rightarrow> service_key set"
type_synonym 'k dests_view = "'k \<Rightarrow> (service_key \<times> dest_key) set"

definition add_service_law :: "'k kernel_ops \<Rightarrow> 'k services_view \<Rightarrow> 'k dests_view \<Rightarrow> bool" where
  "add_service_law ops S D \<longleftrightarrow> (\<forall>s k ok k'. ko_add_service ops s k = (ok, k') \<longrightarrow> D k' = D k \<and>
     (if ok then service_key s \<notin> S k \<and> S k' = insert (service_key s) (S k) else S k' = S k))"

definition add_dest_law :: "'k kernel_ops \<Rightarrow> 'k services_view \<Rightarrow> 'k dests_view \<Rightarrow> bool" where
  "add_dest_law ops S D \<longleftrightarrow> (\<forall>s d k ok k'. ko_add_dest ops s d k = (ok, k') \<longrightarrow> S k' = S k \<and>
     (if ok then (service_key s, dest_key d) \<notin> D k \<and> D k' = insert (service_key s, dest_key d) (D k) else D k' = D k))"

definition del_dest_law :: "'k kernel_ops \<Rightarrow> 'k services_view \<Rightarrow> 'k dests_view \<Rightarrow> bool" where
  "del_dest_law ops S D \<longleftrightarrow> (\<forall>s d k ok k'. ko_del_dest ops s d k = (ok, k') \<longrightarrow> S k' = S k \<and>
     (if ok then (service_key s, dest_key d) \<in> D k \<and> D k' = D k - {(service_key s, dest_key d)} else D k' = D k))"

definition del_service_law :: "'k kernel_ops \<Rightarrow> 'k services_view \<Rightarrow> 'k dests_view \<Rightarrow> bool" where
  "del_service_law ops S D \<longleftrightarrow> (\<forall>s k ok k'. ko_del_service ops s k = (ok, k') \<longrightarrow>
     (if ok then S k' = S k - {service_key s} \<and> D k' = {x \<in> D k. fst x \<noteq> service_key s} else S k' = S k \<and> D k' = D k))"

definition kernel_laws :: "'k kernel_ops \<Rightarrow> 'k services_view \<Rightarrow> 'k dests_view \<Rightarrow> bool" where
  "kernel_laws ops S D \<longleftrightarrow> add_service_law ops S D \<and> add_dest_law ops S D \<and> del_dest_law ops S D \<and> del_service_law ops S D"

lemma kernel_add_service:
  assumes "kernel_laws ops S D" "ko_add_service ops s k = (ok, k')"
  shows "D k' = D k" "ok \<Longrightarrow> service_key s \<notin> S k \<and> S k' = insert (service_key s) (S k)" "\<not> ok \<Longrightarrow> S k' = S k"
proof -
  from assms have "D k' = D k \<and> (if ok then service_key s \<notin> S k \<and> S k' = insert (service_key s) (S k) else S k' = S k)"
    unfolding kernel_laws_def add_service_law_def by blast
  then show "D k' = D k" "ok \<Longrightarrow> service_key s \<notin> S k \<and> S k' = insert (service_key s) (S k)" "\<not> ok \<Longrightarrow> S k' = S k" by simp_all
qed

lemma kernel_add_dest:
  assumes "kernel_laws ops S D" "ko_add_dest ops s d k = (ok, k')"
  shows "S k' = S k" "ok \<Longrightarrow> (service_key s, dest_key d) \<notin> D k \<and> D k' = insert (service_key s, dest_key d) (D k)" "\<not> ok \<Longrightarrow> D k' = D k"
proof -
  from assms have "S k' = S k \<and> (if ok then (service_key s, dest_key d) \<notin> D k \<and> D k' = insert (service_key s, dest_key d) (D k) else D k' = D k)"
    unfolding kernel_laws_def add_dest_law_def by blast
  then show "S k' = S k" "ok \<Longrightarrow> (service_key s, dest_key d) \<notin> D k \<and> D k' = insert (service_key s, dest_key d) (D k)"
    "\<not> ok \<Longrightarrow> D k' = D k" by simp_all
qed

lemma kernel_del_dest:
  assumes "kernel_laws ops S D" "ko_del_dest ops s d k = (ok, k')"
  shows "S k' = S k" "ok \<Longrightarrow> (service_key s, dest_key d) \<in> D k \<and> D k' = D k - {(service_key s, dest_key d)}" "\<not> ok \<Longrightarrow> D k' = D k"
proof -
  from assms have "S k' = S k \<and> (if ok then (service_key s, dest_key d) \<in> D k \<and> D k' = D k - {(service_key s, dest_key d)} else D k' = D k)"
    unfolding kernel_laws_def del_dest_law_def by blast
  then show "S k' = S k" "ok \<Longrightarrow> (service_key s, dest_key d) \<in> D k \<and> D k' = D k - {(service_key s, dest_key d)}" "\<not> ok \<Longrightarrow> D k' = D k"
    by simp_all
qed

lemma kernel_del_service:
  assumes "kernel_laws ops S D" "ko_del_service ops s k = (ok, k')"
  shows "ok \<Longrightarrow> S k' = S k - {service_key s} \<and> D k' = {x \<in> D k. fst x \<noteq> service_key s}" "\<not> ok \<Longrightarrow> S k' = S k \<and> D k' = D k"
proof -
  from assms have "if ok then S k' = S k - {service_key s} \<and> D k' = {x \<in> D k. fst x \<noteq> service_key s} else S k' = S k \<and> D k' = D k"
    unfolding kernel_laws_def del_service_law_def by blast
  then show "ok \<Longrightarrow> S k' = S k - {service_key s} \<and> D k' = {x \<in> D k. fst x \<noteq> service_key s}" "\<not> ok \<Longrightarrow> S k' = S k \<and> D k' = D k"
    by simp_all
qed

section \<open>A virtual service and the table\<close>

definition services_of :: "remote \<Rightarrow> service_key set" where
  "services_of r = service_key ` snd ` set (rm_services r)"

definition backend_key :: "remote \<Rightarrow> string \<times> ipvs_dest \<Rightarrow> service_key \<times> dest_key" where
  "backend_key r b = (service_key (the (um_find (ds_af (snd b)) (rm_services r))), dest_key (snd b))"

definition dests_of :: "remote \<Rightarrow> (service_key \<times> dest_key) set" where
  "dests_of r = backend_key r ` set (rm_backends r)"

definition endpoint_key :: "endpoint \<Rightarrow> service_key" where
  "endpoint_key e = (ep_family e, ep_addr e, htons (ep_port e))"

lemma handle_simps [simp]:
  "sv_af (service_handle sched e) = ep_family e" "service_key (service_handle sched e) = endpoint_key e"
  "ds_af (dest_handle w e) = ep_family e"
  by (simp_all add: service_handle_def service_key_def endpoint_key_def dest_handle_def)

definition services_wf :: "remote \<Rightarrow> bool" where
  "services_wf r \<longleftrightarrow> distinct (um_keys (rm_services r)) \<and> (\<forall>(f, s) \<in> set (rm_services r). sv_af s = f) \<and>
     map (service_key \<circ> snd) (rm_services r) = map endpoint_key (rm_endpoints r)"

text \<open>
  \<open>x\<close>: no deletion was refused so far. Then what the gateway has recorded is exactly what
  the kernel has, otherwise it may be more.
\<close>

definition recorded :: "bool \<Rightarrow> 'a set \<Rightarrow> 'a set \<Rightarrow> bool" where
  "recorded x table record \<longleftrightarrow> table \<subseteq> record \<and> (x \<longrightarrow> table = record)"

definition remote_wf :: "bool \<Rightarrow> remote \<Rightarrow> bool" where
  "remote_wf x r \<longleftrightarrow> services_wf r \<and> rm_services r \<noteq> [] \<and> (\<forall>b \<in> set (rm_backends r). um_find (ds_af (snd b)) (rm_services r) \<noteq> None) \<and>
     (x \<longrightarrow> distinct (map (backend_key r) (rm_backends r)))"

lemma remote_wf_less: "remote_wf x r \<Longrightarrow> remote_wf (x \<and> y) r"
  by (simp add: remote_wf_def)

text \<open>The kernel has what the service registered, next to what others did (\<open>S0\<close>, \<open>D0\<close>).\<close>

definition tracked where
  "tracked x S D S0 D0 r k \<longleftrightarrow>
     S k = S0 \<union> services_of r \<and> S0 \<inter> services_of r = {} \<and> recorded x (D k) (D0 \<union> dests_of r) \<and> fst ` D0 \<subseteq> S0"

lemma publish_tracked:
  assumes "kernel_laws ops S D"
    and "publish_endpoints ops sched port as r k = (r', k')" "services_wf r" "rm_backends r = []" "tracked x S D S0 D0 r k"
  shows "services_wf r' \<and> rm_backends r' = [] \<and> tracked x S D S0 D0 r' k'"
  using assms(2-)
proof (induction as arbitrary: r k)
  case (Cons a "as")
  obtain f y where a: "a = (f, y)" by fastforce
  let ?e = "\<lparr>ep_family = f, ep_addr = y, ep_port = port\<rparr>" let ?h = "service_handle sched ?e"
  show ?case
  proof (cases "um_find f (rm_services r)")
    case None
    obtain ok k1 where ad: "ko_add_service ops ?h k = (ok, k1)" by fastforce
    note law = kernel_add_service [OF assms(1) ad]
    show ?thesis
    proof (cases ok)
      case True
      let ?r = "r\<lparr>rm_endpoints := rm_endpoints r @ [?e], rm_services := um_insert (sv_af ?h) ?h (rm_services r)\<rparr>"
      have ins: "um_insert f ?h (rm_services r) = rm_services r @ [(f, ?h)]" using None by (simp add: um_insert_fresh um_find_None_iff)
      have "services_wf ?r"
        using Cons.prems(2) None by (auto simp: services_wf_def ins um_keys_def um_find_None_iff)
      moreover have "tracked x S D S0 D0 ?r k1"
        using Cons.prems(3, 4) law True by (auto simp: tracked_def services_of_def dests_of_def ins)
      moreover have "publish_endpoints ops sched port as ?r k1 = (r', k')" using Cons.prems(1) None ad True by (simp add: a Let_def)
      ultimately show ?thesis using Cons.IH Cons.prems(3) by simp
    next
      case False
      then have "publish_endpoints ops sched port as r k1 = (r', k')" "tracked x S D S0 D0 r k1"
        using Cons.prems None ad law by (simp_all add: a Let_def tracked_def)
      then show ?thesis using Cons by simp
    qed
  qed (use Cons in \<open>simp add: a Let_def\<close>)
qed simp

text \<open>Destinations while an announcement is processed: \<open>handles\<close> are registered but not yet stored.\<close>

definition handles_ok where
  "handles_ok x S D S0 D0 r handles k \<longleftrightarrow>
     S k = S0 \<union> services_of r \<and> S0 \<inter> services_of r = {} \<and> fst ` D0 \<subseteq> S0 \<and>
     recorded x (D k) (D0 \<union> dests_of r \<union> backend_key r ` (\<lambda>h. ([], snd h)) ` set handles) \<and>
     distinct (map fst handles) \<and> (\<forall>(f, d) \<in> set handles. ds_af d = f \<and> um_find f (rm_services r) \<noteq> None) \<and>
     (x \<longrightarrow> distinct (map (backend_key r) (rm_backends r @ map (\<lambda>h. ([], snd h)) handles)))"

lemma service_found: "services_wf r \<Longrightarrow> um_find f (rm_services r) = Some s \<Longrightarrow> sv_af s = f \<and> service_key s \<in> services_of r"
  by (force simp: services_wf_def services_of_def dest: um_find_SomeD)

lemma add_dests_ok:
  assumes "kernel_laws ops S D" "remote_wf x r"
    and "add_dests ops w r es handles k = (handles', k')" "handles_ok x S D S0 D0 r handles k"
  shows "handles_ok x S D S0 D0 r handles' k'"
  using assms(3-)
proof (induction es arbitrary: handles k)
  case (Cons e es)
  show ?case
  proof (cases "um_find (ep_family e) (rm_services r)")
    case (Some s)
    let ?h = "dest_handle w e"
    show ?thesis
    proof (cases "um_find (ep_family e) handles")
      case None
      obtain ok k1 where ad: "ko_add_dest ops s ?h k = (ok, k1)" by fastforce
      note law = kernel_add_dest [OF assms(1) ad]
      show ?thesis
      proof (cases ok)
        case True
        have ins: "um_insert (ep_family e) ?h handles = handles @ [(ep_family e, ?h)]"
          using None by (simp add: um_insert_fresh um_find_None_iff)
        have fresh: "ep_family e \<notin> fst ` set handles" using None by (simp add: um_find_None_iff um_keys_def)
        have key: "backend_key r (u, ?h) = (service_key s, dest_key ?h)" for u using Some by (simp add: backend_key_def)
        have "handles_ok x S D S0 D0 r (handles @ [(ep_family e, ?h)]) k1"
          using Cons.prems(2) law True fresh Some unfolding handles_ok_def recorded_def by (cases x) (auto simp: key dests_of_def image_iff)
        moreover have "add_dests ops w r es (handles @ [(ep_family e, ?h)]) k1 = (handles', k')"
          using Cons.prems(1) Some None ad True ins by (simp add: Let_def)
        ultimately show ?thesis using Cons.IH by simp
      next
        case False
        then have "add_dests ops w r es handles k1 = (handles', k')" "handles_ok x S D S0 D0 r handles k1"
          using Cons.prems Some None ad law by (simp_all add: Let_def handles_ok_def)
        then show ?thesis using Cons.IH by simp
      qed
    qed (use Cons Some in simp)
  qed (use Cons in simp)
qed simp

lemma mset_in_order:
  assumes "distinct (map fst handles)"
  shows "set (in_order handles) = snd ` set handles" "distinct (map f (map snd handles)) \<Longrightarrow> distinct (map f (in_order handles))"
proof -
  have two: "(\<forall>h \<in> set handles. fst h = V4 \<or> fst h = V6)" by (metis family.exhaust)
  then show "set (in_order handles) = snd ` set handles" by (auto simp: in_order_def)
  assume d: "distinct (map f (map snd handles))"
  have inj: "inj_on (\<lambda>h. f (snd h)) (set handles)" and "distinct handles"
    using d by (simp_all add: distinct_map comp_def)
  then show "distinct (map f (in_order handles))"
    unfolding in_order_def map_append distinct_append
    by (auto simp: distinct_map comp_def inj_on_def) fastforce
qed

lemma insert_dests_ok:
  assumes "kernel_laws ops S D" "remote_wf x r" "tracked x S D S0 D0 r k" "insert_dests ops w uuid es r k = (ex, r', k')"
  shows "remote_wf x r' \<and> tracked x S D S0 D0 r' k'"
proof -
  obtain handles k1 where a: "add_dests ops w r es [] k = (handles, k1)" by fastforce
  have "handles_ok x S D S0 D0 r [] k" using assms(2, 3) by (simp add: handles_ok_def tracked_def remote_wf_def)
  from add_dests_ok [OF assms(1, 2) a this] have h: "handles_ok x S D S0 D0 r handles k1" .
  have k': "k' = k1" using assms(4) a by (auto simp: insert_dests_def split: if_splits)
  let ?ds = "in_order handles"
  have dist: "distinct (map fst handles)" using h by (simp add: handles_ok_def)
  note io = mset_in_order [OF dist]
  define K where "K d = backend_key r ([], d)" for d
  have anon: "backend_key r (u, d) = K d" for u d by (simp add: K_def backend_key_def)
  show ?thesis
  proof (cases "handles = []")
    case True
    then have "r' = r" "tracked x S D S0 D0 r k1" using assms(4) a h by (auto simp: insert_dests_def handles_ok_def tracked_def)
    then show ?thesis using assms(2) by (simp add: k')
  next
    case False
    then have r': "r' = r\<lparr>rm_backends := rm_backends r @ map (\<lambda>d. (uuid, d)) ?ds\<rparr>" using assms(4) a by (auto simp: insert_dests_def)
    have bk: "backend_key r' = backend_key r" "services_of r' = services_of r" by (simp_all add: r' backend_key_def services_of_def fun_eq_iff)
    have set': "set (rm_backends r') = set (rm_backends r) \<union> (\<lambda>h. (uuid, snd h)) ` set handles" using io(1) by (auto simp: r')
    have img: "backend_key r ` (\<lambda>h. (uuid, snd h)) ` set handles = backend_key r ` (\<lambda>h. ([], snd h)) ` set handles"
      by (simp add: image_image anon)
    have "tracked x S D S0 D0 r' k1"
      using h img by (simp add: handles_ok_def tracked_def bk dests_of_def set' image_Un Un_assoc)
    moreover have "distinct (map (backend_key r) (rm_backends r'))" if x
    proof -
      have "distinct (map (\<lambda>d. backend_key r (uuid, d)) ?ds)"
        using h that by (intro io(2)) (simp add: handles_ok_def comp_def anon)
      moreover have "backend_key r ` set (rm_backends r) \<inter> backend_key r ` (\<lambda>h. ([], snd h)) ` set handles = {}"
        using h that by (auto simp: handles_ok_def)
      ultimately show ?thesis using h that io(1) img by (simp add: handles_ok_def r' comp_def image_image anon)
    qed
    moreover have "\<forall>b \<in> set (rm_backends r'). um_find (ds_af (snd b)) (rm_services r) \<noteq> None"
      unfolding set' using assms(2) h by (auto simp: remote_wf_def handles_ok_def)
    ultimately show ?thesis using assms(2) by (simp add: remote_wf_def bk services_wf_def k') (simp add: r')
  qed
qed

lemma backend_in_services:
  assumes "remote_wf x r" "b \<in> set (rm_backends r)"
  shows "fst (backend_key r b) \<in> services_of r"
proof -
  obtain s where "um_find (ds_af (snd b)) (rm_services r) = Some s" "services_wf r" using assms by (auto simp: remote_wf_def)
  then show ?thesis using service_found [of r "ds_af (snd b)" s] by (simp add: backend_key_def)
qed

abbreviation without :: "string \<Rightarrow> remote \<Rightarrow> remote" where
  "without uuid r \<equiv> r\<lparr>rm_backends := filter (\<lambda>b. fst b \<noteq> uuid) (rm_backends r)\<rparr>"

text \<open>Deletions either all succeed, or the first one that is refused ends the loop.\<close>

lemma del_dests_ok:
  assumes "kernel_laws ops S D" and "\<forall>d \<in> set ds. um_find (ds_af d) (rm_services r) \<noteq> None"
  shows "\<exists>ok k'. del_dests ops r ds k = Some (ok, k') \<and> S k' = S k \<and> D k' \<subseteq> D k \<and>
    (ok \<longrightarrow> D k' = D k - (\<lambda>d. backend_key r ([], d)) ` set ds)"
  using assms(2-)
proof (induction ds arbitrary: k)
  case (Cons d ds)
  obtain s where s: "um_find (ds_af d) (rm_services r) = Some s" using Cons.prems(1) by auto
  obtain ok k1 where del: "ko_del_dest ops s d k = (ok, k1)" by fastforce
  have key: "backend_key r ([], d) = (service_key s, dest_key d)" using s by (simp add: backend_key_def)
  note law = kernel_del_dest [OF assms(1) del]
  show ?case
  proof (cases ok)
    case True
    from Cons.IH [of k1] Cons.prems obtain ok' k' where "del_dests ops r ds k1 = Some (ok', k')" "S k' = S k1" "D k' \<subseteq> D k1"
      "ok' \<longrightarrow> D k' = D k1 - (\<lambda>d. backend_key r ([], d)) ` set ds" by auto
    then show ?thesis using s del True law key by auto
  qed (use s del law in auto)
qed auto

lemma remove_dests_ok:
  assumes "kernel_laws ops S D" "remote_wf x r"
  shows "\<exists>ok k'. remove_dests ops uuid r k = Some (if ok then (None, without uuid r, k') else (Some Ipvs_failed, r, k')) \<and>
    S k' = S k \<and> D k' \<subseteq> D k \<and> (ok \<longrightarrow> D k' = D k - {backend_key r b | b. b \<in> set (rm_backends r) \<and> fst b = uuid})"
    "remote_wf x (without uuid r)"
proof -
  have img: "(\<lambda>d. backend_key r ([], d)) ` set (backends_of uuid r) = {backend_key r b | b. b \<in> set (rm_backends r) \<and> fst b = uuid}"
    by (force simp: backends_of_def backend_key_def)
  have "\<forall>d \<in> set (backends_of uuid r). um_find (ds_af d) (rm_services r) \<noteq> None"
    using assms(2) by (auto simp: backends_of_def remote_wf_def)
  from del_dests_ok [OF assms(1) this, of k] obtain ok k' where "del_dests ops r (backends_of uuid r) k = Some (ok, k')"
    "S k' = S k" "D k' \<subseteq> D k" "ok \<longrightarrow> D k' = D k - {backend_key r b | b. b \<in> set (rm_backends r) \<and> fst b = uuid}"
    unfolding img by blast
  then show "\<exists>ok k'. remove_dests ops uuid r k = Some (if ok then (None, without uuid r, k') else (Some Ipvs_failed, r, k')) \<and>
    S k' = S k \<and> D k' \<subseteq> D k \<and> (ok \<longrightarrow> D k' = D k - {backend_key r b | b. b \<in> set (rm_backends r) \<and> fst b = uuid})"
    by (intro exI [of _ ok] exI [of _ k']) (simp add: remove_dests_def split: bool.split)
  have "backend_key (without uuid r) = backend_key r" by (simp add: backend_key_def fun_eq_iff)
  then show "remote_wf x (without uuid r)" using assms(2) distinct_map_filter [of "backend_key r" "rm_backends r" "\<lambda>b. fst b \<noteq> uuid"]
    by (auto simp: remote_wf_def services_wf_def)
qed

lemma remove_tracked:
  assumes "remote_wf x r" "tracked x S D S0 D0 r k" "S k' = S k" "D k' = D k - {backend_key r b | b. b \<in> set (rm_backends r) \<and> fst b = uuid}"
  shows "tracked x S D S0 D0 (without uuid r) k'"
proof -
  have bk: "backend_key (without uuid r) = backend_key r" "services_of (without uuid r) = services_of r"
    by (simp_all add: backend_key_def services_of_def fun_eq_iff)
  let ?gone = "{backend_key r b | b. b \<in> set (rm_backends r) \<and> fst b = uuid}"
  have gone: "?gone = backend_key r ` {b \<in> set (rm_backends r). fst b = uuid}" by auto
  have off: "D0 \<inter> ?gone = {}" using backend_in_services [OF assms(1)] assms(2) by (fastforce simp: tracked_def)
  have "dests_of r - ?gone \<subseteq> dests_of (without uuid r)" by (auto simp: dests_of_def bk)
  moreover have "dests_of (without uuid r) = dests_of r - ?gone" if x
  proof -
    have inj: "inj_on (backend_key r) (set (rm_backends r))" using assms(1) that by (simp add: remote_wf_def distinct_map)
    have "set (rm_backends (without uuid r)) = set (rm_backends r) - {b \<in> set (rm_backends r). fst b = uuid}" by auto
    then show ?thesis unfolding gone dests_of_def bk by (simp only:) (rule inj_on_image_set_diff [OF inj]; blast)
  qed
  ultimately show ?thesis using assms(2-4) off by (auto simp: tracked_def recorded_def bk)
qed

lemma remove_refused:
  assumes "tracked x S D S0 D0 r k" "S k' = S k" "D k' \<subseteq> D k"
  shows "tracked False S D S0 D0 r k'"
  using assms by (auto simp: tracked_def recorded_def)

section \<open>The gateway and the table\<close>

definition remote_at :: "'k ipvs \<Rightarrow> string \<Rightarrow> remote \<Rightarrow> bool" where
  "remote_at g name r \<longleftrightarrow> um_find name (iv_remotes g) = Some (Some r)"

definition others_services where
  "others_services g name = {x. \<exists>m r. m \<noteq> name \<and> remote_at g m r \<and> x \<in> services_of r}"

definition others_dests where
  "others_dests g name = {x. \<exists>m r. m \<noteq> name \<and> remote_at g m r \<and> x \<in> dests_of r}"

text \<open>
  The table of the kernel has the virtual services of the gateway and nothing else, and
  only destinations it has recorded; no two services share an address.
\<close>

definition gateway_ok :: "bool \<Rightarrow> 'k services_view \<Rightarrow> 'k dests_view \<Rightarrow> 'k ipvs \<Rightarrow> bool" where
  "gateway_ok x S D g \<longleftrightarrow>
     S (iv_kernel g) = {x. \<exists>m r. remote_at g m r \<and> x \<in> services_of r} \<and>
     recorded x (D (iv_kernel g)) {d. \<exists>m r. remote_at g m r \<and> d \<in> dests_of r} \<and>
     (\<forall>m r m' r'. remote_at g m r \<and> remote_at g m' r' \<and> m \<noteq> m' \<longrightarrow> services_of r \<inter> services_of r' = {}) \<and>
     (\<forall>m r. remote_at g m r \<longrightarrow> remote_wf x r)"

lemma gateway_ok_less: "gateway_ok x S D g \<Longrightarrow> gateway_ok (x \<and> y) S D g"
  unfolding gateway_ok_def recorded_def remote_wf_def by blast

lemma dests_in_services: "remote_wf x r \<Longrightarrow> d \<in> dests_of r \<Longrightarrow> fst d \<in> services_of r"
  by (auto simp: dests_of_def dest: backend_in_services)

lemma others_frame:
  "others_services (put_remote name r k g) name = others_services g name"
  "others_dests (put_remote name r k g) name = others_dests g name"
  by (auto simp: others_services_def others_dests_def remote_at_def put_remote_def)

lemma gateway_tracked:
  assumes "gateway_ok x S D g" "remote_at g name r"
  shows "tracked x S D (others_services g name) (others_dests g name) r (iv_kernel g)" "remote_wf x r"
proof -
  show wf: "remote_wf x r" using assms by (auto simp: gateway_ok_def)
  have split: "remote_at g m r' \<Longrightarrow> m = name \<Longrightarrow> r' = r" for m r' using assms(2) by (simp add: remote_at_def)
  have ex: "(\<exists>m r'. remote_at g m r' \<and> P r') \<longleftrightarrow> (\<exists>m r'. m \<noteq> name \<and> remote_at g m r' \<and> P r') \<or> P r" for P
    using assms(2) split by blast
  have "{d. \<exists>m r. remote_at g m r \<and> d \<in> services_of r} = others_services g name \<union> services_of r"
    "{d. \<exists>m r. remote_at g m r \<and> d \<in> dests_of r} = others_dests g name \<union> dests_of r"
    unfolding others_services_def others_dests_def ex by auto
  then have "S (iv_kernel g) = others_services g name \<union> services_of r" "recorded x (D (iv_kernel g)) (others_dests g name \<union> dests_of r)"
    using assms(1) by (simp_all add: gateway_ok_def)
  moreover have "others_services g name \<inter> services_of r = {}" using assms by (fastforce simp: gateway_ok_def others_services_def)
  moreover have "fst ` others_dests g name \<subseteq> others_services g name"
    using assms(1) dests_in_services by (fastforce simp: gateway_ok_def others_services_def others_dests_def)
  ultimately show "tracked x S D (others_services g name) (others_dests g name) r (iv_kernel g)" by (simp add: tracked_def)
qed

lemma gateway_put:
  assumes "gateway_ok x S D g" "remote_wf x r" "tracked x S D (others_services g name) (others_dests g name) r k"
  shows "gateway_ok x S D (put_remote name r k g)"
proof -
  have at: "remote_at (put_remote name r k g) m r' \<longleftrightarrow> (if m = name then r' = r else remote_at g m r')" for m r'
    by (auto simp: remote_at_def put_remote_def)
  have k: "iv_kernel (put_remote name r k g) = k" by (simp add: put_remote_def)
  have "{d. \<exists>m r'. remote_at (put_remote name r k g) m r' \<and> d \<in> services_of r'} = others_services g name \<union> services_of r"
    "{d. \<exists>m r'. remote_at (put_remote name r k g) m r' \<and> d \<in> dests_of r'} = others_dests g name \<union> dests_of r"
    unfolding others_services_def others_dests_def at by auto
  then have "S k = {d. \<exists>m r'. remote_at (put_remote name r k g) m r' \<and> d \<in> services_of r'}"
    "recorded x (D k) {d. \<exists>m r'. remote_at (put_remote name r k g) m r' \<and> d \<in> dests_of r'}"
    using assms(3) by (simp_all add: tracked_def)
  moreover have "services_of r1 \<inter> services_of r2 = {}"
    if "remote_at (put_remote name r k g) m1 r1" "remote_at (put_remote name r k g) m2 r2" "m1 \<noteq> m2" for m1 r1 m2 r2
  proof -
    have other: "remote_at g m r' \<Longrightarrow> m \<noteq> name \<Longrightarrow> services_of r' \<inter> services_of r = {}" for m r'
      using assms(3) unfolding tracked_def others_services_def by blast
    have "remote_at g m1 r1 \<Longrightarrow> remote_at g m2 r2 \<Longrightarrow> services_of r1 \<inter> services_of r2 = {}"
      using assms(1) that(3) unfolding gateway_ok_def by blast
    then show ?thesis using that other [of m1 r1] other [of m2 r2] unfolding at by (auto split: if_splits)
  qed
  moreover have "remote_wf x r'" if "remote_at (put_remote name r k g) m r'" for m r'
    using that assms(1, 2) unfolding at gateway_ok_def by (metis (full_types))
  ultimately show ?thesis unfolding gateway_ok_def k by blast
qed

lemma insert_into_ok:
  assumes "kernel_laws ops S D" "gateway_ok x S D g" "remote_at g name r" "insert_into ops uuid es name r g = Some (ex, g')"
  shows "gateway_ok x S D g'"
proof -
  obtain ex1 r1 k1 where i: "insert_dests ops (cf_weight (iv_cfg g)) uuid es r (iv_kernel g) = (ex1, r1, k1)"
    by (cases "insert_dests ops (cf_weight (iv_cfg g)) uuid es r (iv_kernel g)") auto
  note tr = gateway_tracked [OF assms(2, 3)]
  have "g' = put_remote name r1 k1 g" using assms(4) i by (simp add: insert_into_def)
  then show ?thesis using gateway_put [OF assms(2)] insert_dests_ok [OF assms(1) tr(2) tr(1) i] by simp
qed

lemma new_name_tracked:
  assumes "gateway_ok x S D g" "um_find name (iv_remotes g) = None" "services_of r = {}" "dests_of r = {}"
  shows "tracked x S D (others_services g name) (others_dests g name) r k \<longleftrightarrow>
    S k = S (iv_kernel g) \<and> recorded x (D k) {d. \<exists>m r. remote_at g m r \<and> d \<in> dests_of r}"
proof -
  have at: "remote_at g m r' \<Longrightarrow> m \<noteq> name" for m r' using assms(2) by (auto simp: remote_at_def)
  have all: "(\<exists>m r. m \<noteq> name \<and> remote_at g m r \<and> P r) \<longleftrightarrow> (\<exists>m r. remote_at g m r \<and> P r)" for P using at by blast
  have S: "others_services g name = S (iv_kernel g)" and D: "others_dests g name = {d. \<exists>m r. remote_at g m r \<and> d \<in> dests_of r}"
    using assms(1) unfolding gateway_ok_def others_services_def others_dests_def all by simp_all
  have "fst ` others_dests g name \<subseteq> S (iv_kernel g)" using assms(1) dests_in_services unfolding D by (fastforce simp: gateway_ok_def)
  then show ?thesis using assms(3, 4) by (auto simp: tracked_def S D)
qed

lemma new_remote_ok:
  assumes "kernel_laws ops S D" "gateway_ok x S D g" "um_find name (iv_remotes g) = None"
    and "new_remote ops sched as port name v (iv_kernel g) = (res, k1)"
  shows "case res of
      Inl e \<Rightarrow> S k1 = S (iv_kernel g) \<and> recorded x (D k1) {d. \<exists>m r. remote_at g m r \<and> d \<in> dests_of r}
    | Inr r \<Rightarrow> gateway_ok x S D (put_remote name r k1 g) \<and> rm_backends r = []"
proof -
  let ?r0 = "\<lparr>rm_service = name, rm_version = v, rm_endpoints = [], rm_services = [], rm_backends = []\<rparr>"
  obtain r where p: "publish_endpoints ops sched port as ?r0 (iv_kernel g) = (r, k1)"
    using assms(4) by (auto simp: new_remote_def split: prod.splits if_splits)
  have r0: "services_of ?r0 = {}" "dests_of ?r0 = {}" "services_wf ?r0" by (simp_all add: services_of_def dests_of_def services_wf_def um_keys_def)
  have "tracked x S D (others_services g name) (others_dests g name) ?r0 (iv_kernel g)"
    using new_name_tracked [OF assms(2, 3) r0(1, 2)] assms(2) by (simp add: gateway_ok_def)
  from publish_tracked [OF assms(1) p r0(3) _ this]
  have r: "services_wf r" "rm_backends r = []" "tracked x S D (others_services g name) (others_dests g name) r k1" by simp_all
  show ?thesis
  proof (cases "rm_services r = []")
    case True
    then have "res = Inl Addr_not_available" "services_of r = {}" "dests_of r = {}"
      using assms(4) p r(2) by (simp_all add: new_remote_def services_of_def dests_of_def)
    then show ?thesis using new_name_tracked [OF assms(2, 3), of r k1] r(3) by simp
  next
    case False
    then have "res = Inr r" "remote_wf x r" using assms(4) p r by (simp_all add: new_remote_def remote_wf_def)
    then show ?thesis using gateway_put [OF assms(2) _ r(3)] r(2) by simp
  qed
qed

lemma gateway_ok_cong:
  "gateway_ok x S D g \<Longrightarrow> S k = S (iv_kernel g) \<Longrightarrow> recorded x (D k) {d. \<exists>m r. remote_at g m r \<and> d \<in> dests_of r} \<Longrightarrow> (\<And>m r. remote_at g' m r = remote_at g m r) \<Longrightarrow>
   iv_kernel g' = k \<Longrightarrow> gateway_ok x S D g'"
  by (simp add: gateway_ok_def)

lemma consume_ok:
  assumes "kernel_laws ops S D" "gateway_ok x S D g" "consume ops lf port uuid name v es cluster g = Some (ex, g')"
  shows "gateway_ok x S D g'"
proof (cases "cf_cluster (iv_cfg g) = cluster")
  case True
  show ?thesis
  proof (cases "um_find name (iv_remotes g)")
    case None
    obtain res k1 where n: "new_remote ops (cf_scheduler (iv_cfg g)) (iv_addresses g) port name v (iv_kernel g) = (res, k1)" by fastforce
    note ok = new_remote_ok [OF assms(1, 2) None n]
    show ?thesis
    proof (cases res)
      case (Inl e)
      then have g': "g' = g\<lparr>iv_kernel := k1, iv_remotes := (if lf then um_insert name None (iv_remotes g) else iv_remotes g)\<rparr>"
        using assms(3) True None n by (simp add: consume_def)
      have "remote_at g' m r = remote_at g m r" for m r using None by (auto simp: g' remote_at_def)
      then show ?thesis using ok Inl by (intro gateway_ok_cong [OF assms(2)]) (auto simp: g')
    next
      case (Inr r)
      then have i: "insert_into ops uuid es name r (put_remote name r k1 g) = Some (ex, g')" using assms(3) True None n by (simp add: consume_def)
      have at: "remote_at (put_remote name r k1 g) name r" by (simp add: remote_at_def put_remote_def)
      show ?thesis by (rule insert_into_ok [OF assms(1) _ at i]) (use ok Inr in simp)
    qed
  next
    case (Some o')
    then obtain r where "o' = Some r" "insert_into ops uuid es name r g = Some (ex, g')"
      using assms(3) True by (cases o') (simp_all add: consume_def)
    then show ?thesis using insert_into_ok [OF assms(1, 2), of name r uuid es ex g'] Some by (simp add: remote_at_def)
  qed
qed (use assms in \<open>simp add: consume_def\<close>)

text \<open>A withdrawal: without an exception the node is gone, with one the table may have less than what is recorded.\<close>

lemma cleanup_service_ok:
  assumes "kernel_laws ops S D" "gateway_ok x S D g" "um_find name (iv_remotes g) \<noteq> Some None"
  shows "\<exists>ex g'. cleanup_service ops uuid name g = Some (ex, g') \<and> (ex = None \<or> ex = Some Ipvs_failed) \<and>
    gateway_ok (x \<and> ex = None) S D g' \<and>
    (ex = None \<longrightarrow> (\<forall>m r'. remote_at g' m r' \<longleftrightarrow> (if m = name then \<exists>r. remote_at g name r \<and> r' = without uuid r else remote_at g m r'))) \<and>
    (\<forall>m. um_find m (iv_remotes g') = Some None \<longleftrightarrow> um_find m (iv_remotes g) = Some None)"
proof (cases "um_find name (iv_remotes g)")
  case None
  then show ?thesis using assms(2) by (auto simp: cleanup_service_def remote_at_def)
next
  case (Some o')
  then obtain r where found: "um_find name (iv_remotes g) = Some (Some r)" using assms(3) by (cases o') auto
  then have at: "remote_at g name r" by (simp add: remote_at_def)
  note tr = gateway_tracked [OF assms(2) at] and wf = remove_dests_ok(2) [OF assms(1) gateway_tracked(2) [OF assms(2) at]]
  obtain ok k' where k': "remove_dests ops uuid r (iv_kernel g) = Some (if ok then (None, without uuid r, k') else (Some Ipvs_failed, r, k'))"
    "S k' = S (iv_kernel g)" "D k' \<subseteq> D (iv_kernel g)"
    "ok \<longrightarrow> D k' = D (iv_kernel g) - {backend_key r b | b. b \<in> set (rm_backends r) \<and> fst b = uuid}"
    using remove_dests_ok(1) [OF assms(1) tr(2), of uuid "iv_kernel g"] by blast
  show ?thesis
  proof (cases ok)
    case True
    have "gateway_ok x S D (put_remote name (without uuid r) k' g)"
      by (rule gateway_put [OF assms(2) wf remove_tracked [OF tr(2) tr(1) k'(2)]]) (use k'(4) True in simp)
    then show ?thesis using found k'(1) True by (auto simp: cleanup_service_def remote_at_def put_remote_def)
  next
    case False
    have lax: "gateway_ok False S D g" "remote_wf False r" using gateway_ok_less [OF assms(2), of False] remote_wf_less [OF tr(2), of False] by simp_all
    have "gateway_ok False S D (put_remote name r k' g)"
      by (rule gateway_put [OF lax remove_refused [OF tr(1) k'(2, 3)]])
    then show ?thesis using found k'(1) False by (auto simp: cleanup_service_def remote_at_def put_remote_def)
  qed
qed

lemma cleanup_loop_ok:
  assumes "kernel_laws ops S D" "gateway_ok x S D g" "\<forall>name \<in> set names. um_find name (iv_remotes g) \<noteq> Some None" "distinct names"
  shows "\<exists>ex g'. cleanup_loop ops uuid names g = Some (ex, g') \<and> gateway_ok (x \<and> ex \<noteq> Some Ipvs_failed) S D g' \<and>
    (ex = None \<longrightarrow> (\<forall>m r'. remote_at g' m r' \<longleftrightarrow> (if m \<in> set names then \<exists>r. remote_at g m r \<and> r' = without uuid r else remote_at g m r')))"
  using assms(2-4)
proof (induction names arbitrary: g)
  case (Cons name names)
  have nn: "um_find name (iv_remotes g) \<noteq> Some None" using Cons.prems(2) by simp
  obtain ex g1 where g1: "cleanup_service ops uuid name g = Some (ex, g1)" "ex = None \<or> ex = Some Ipvs_failed"
    "gateway_ok (x \<and> ex = None) S D g1"
    "ex = None \<Longrightarrow> remote_at g1 m r' \<longleftrightarrow> (if m = name then \<exists>r. remote_at g name r \<and> r' = without uuid r else remote_at g m r')"
    "\<And>m. um_find m (iv_remotes g1) = Some None \<longleftrightarrow> um_find m (iv_remotes g) = Some None" for m r'
    using cleanup_service_ok [OF assms(1) Cons.prems(1) nn, of uuid] by metis
  show ?case
  proof (cases ex)
    case None
    have "\<forall>name \<in> set names. um_find name (iv_remotes g1) \<noteq> Some None" "distinct names" "gateway_ok x S D g1"
      using Cons.prems(2, 3) g1(3,5) None by simp_all
    from Cons.IH [OF this(3,1,2)] obtain ex2 g2 where g2: "cleanup_loop ops uuid names g1 = Some (ex2, g2)"
      "gateway_ok (x \<and> ex2 \<noteq> Some Ipvs_failed) S D g2"
      "ex2 = None \<Longrightarrow> remote_at g2 m r' \<longleftrightarrow> (if m \<in> set names then \<exists>r. remote_at g1 m r \<and> r' = without uuid r else remote_at g1 m r')" for m r'
      by metis
    have "name \<notin> set names" using Cons.prems(3) by simp
    then have "remote_at g2 m r' \<longleftrightarrow> (if m \<in> set (name # names) then \<exists>r. remote_at g m r \<and> r' = without uuid r else remote_at g m r')"
      if "ex2 = None" for m r'
      unfolding g2(3) [OF that] g1(4) [OF None] by auto
    then show ?thesis using g1(1) g2(1, 2) None by simp
  next
    case (Some e)
    then show ?thesis using g1(1-3) by simp
  qed
qed (simp add: gateway_ok_less)

section \<open>Runs\<close>

datatype ipvs_op =
    Announce bool "16 word" string string nat "endpoint list" string
  | Withdraw string string
  | Withdraw_all string

fun ipvs_step :: "'k kernel_ops \<Rightarrow> ipvs_op \<Rightarrow> 'k ipvs \<Rightarrow> (ipvs_error option \<times> 'k ipvs) option" where
  "ipvs_step ops (Announce lf port uuid name v es cluster) g = consume ops lf port uuid name v es cluster g"
| "ipvs_step ops (Withdraw uuid name) g = cleanup_service ops uuid name g"
| "ipvs_step ops (Withdraw_all uuid) g = cleanup_uuid ops uuid g"

text \<open>Runs, with the exception of every operation.\<close>

fun ipvs_run :: "'k kernel_ops \<Rightarrow> ipvs_op list \<Rightarrow> 'k ipvs \<Rightarrow> (ipvs_error option list \<times> 'k ipvs) option" where
  "ipvs_run ops [] g = Some ([], g)"
| "ipvs_run ops (op # os) g =
     (case ipvs_step ops op g of
        None \<Rightarrow> None
      | Some (ex, g1) \<Rightarrow> map_option (\<lambda>(exs, g2). (ex # exs, g2)) (ipvs_run ops os g1))"

text \<open>The order of evaluation that leaves no null entry behind.\<close>

fun right_first :: "ipvs_op \<Rightarrow> bool" where
  "right_first (Announce lf port uuid name v es cluster) = (\<not> lf)"
| "right_first _ = True"

definition no_nulls :: "'k ipvs \<Rightarrow> bool" where
  "no_nulls g \<longleftrightarrow> (\<forall>m. um_find m (iv_remotes g) \<noteq> Some None)"

definition keys_ok :: "'k ipvs \<Rightarrow> bool" where
  "keys_ok g \<longleftrightarrow> distinct (um_keys (iv_remotes g))"

lemma put_remote_frame:
  "no_nulls g \<Longrightarrow> no_nulls (put_remote name r k g)" "keys_ok g \<Longrightarrow> keys_ok (put_remote name r k g)"
  by (simp_all add: no_nulls_def keys_ok_def put_remote_def)

lemma insert_into_frame:
  assumes "insert_into ops uuid es name r g = Some (ex, g')"
  shows "no_nulls g \<Longrightarrow> no_nulls g'" "keys_ok g \<Longrightarrow> keys_ok g'"
  using assms by (auto simp: insert_into_def put_remote_frame split: prod.splits)

lemma insert_into_total: "\<exists>ex g'. insert_into ops uuid es name r g = Some (ex, g')"
  by (simp add: insert_into_def split: prod.split)

lemma kernel_frame:
  "keys_ok (g\<lparr>iv_kernel := k, iv_remotes := um_insert n x (iv_remotes g)\<rparr>) = keys_ok (g\<lparr>iv_remotes := um_insert n x (iv_remotes g)\<rparr>)"
  "keys_ok g \<Longrightarrow> keys_ok (g\<lparr>iv_remotes := um_insert n x (iv_remotes g)\<rparr>)"
  "keys_ok (g\<lparr>iv_kernel := k\<rparr>) = keys_ok g" "no_nulls (g\<lparr>iv_kernel := k\<rparr>) = no_nulls g"
  by (simp_all add: keys_ok_def no_nulls_def)

lemma consume_frame:
  assumes "consume ops lf port uuid name v es cluster g = Some (ex, g')"
  shows "keys_ok g \<Longrightarrow> keys_ok g'" "\<not> lf \<Longrightarrow> no_nulls g \<Longrightarrow> no_nulls g'"
  using assms insert_into_frame [of ops uuid es name _ _ ex g']
  by (auto simp: consume_def put_remote_frame kernel_frame split: if_splits option.splits prod.splits sum.splits)

lemma consume_total: "no_nulls g \<Longrightarrow> \<exists>ex g'. consume ops lf port uuid name v es cluster g = Some (ex, g')"
  by (auto simp: consume_def no_nulls_def insert_into_total split: option.split prod.split sum.split)

lemma cleanup_service_frame:
  assumes "cleanup_service ops uuid name g = Some (ex, g')"
  shows "no_nulls g \<Longrightarrow> no_nulls g'" "keys_ok g \<Longrightarrow> keys_ok g'"
  using assms by (auto simp: cleanup_service_def put_remote_frame split: option.splits prod.splits)

lemma cleanup_loop_frame:
  assumes "cleanup_loop ops uuid names g = Some (ex, g')"
  shows "no_nulls g \<Longrightarrow> no_nulls g'" "keys_ok g \<Longrightarrow> keys_ok g'"
  using assms by (induction names arbitrary: g) (auto split: option.splits prod.splits dest: cleanup_service_frame)

lemma cleanup_loop_Some:
  assumes "kernel_laws ops S D" "gateway_ok x S D g" "cleanup_loop ops uuid names g = Some (ex, g')"
  shows "gateway_ok (x \<and> ex \<noteq> Some Ipvs_failed) S D g'"
  using assms(2, 3)
proof (induction names arbitrary: g)
  case (Cons name names)
  have "um_find name (iv_remotes g) \<noteq> Some None" using Cons.prems(2) by (auto simp: cleanup_service_def)
  then obtain ex1 g1 where g1: "cleanup_service ops uuid name g = Some (ex1, g1)" "ex1 = None \<or> ex1 = Some Ipvs_failed"
    "gateway_ok (x \<and> ex1 = None) S D g1"
    using cleanup_service_ok [OF assms(1) Cons.prems(1)] by blast
  then show ?case using Cons by (cases ex1) simp_all
qed simp

lemma ipvs_step_ok:
  assumes "kernel_laws ops S D" "gateway_ok x S D g" "keys_ok g" "ipvs_step ops op g = Some (ex, g')"
  shows "gateway_ok (x \<and> ex \<noteq> Some Ipvs_failed) S D g' \<and> keys_ok g'"
proof (cases op)
  case (Announce lf port uuid name v es cluster)
  then show ?thesis using assms(3,4) gateway_ok_less [OF consume_ok [OF assms(1, 2)]] consume_frame(1) by fastforce
next
  case (Withdraw uuid name)
  then have c: "cleanup_service ops uuid name g = Some (ex, g')" using assms(4) by simp
  then have "um_find name (iv_remotes g) \<noteq> Some None" by (auto simp: cleanup_service_def)
  from cleanup_service_ok [OF assms(1, 2) this, of uuid] show ?thesis using c cleanup_service_frame(2) [OF c] assms(3) by auto
next
  case (Withdraw_all uuid)
  then show ?thesis using assms cleanup_loop_Some [OF assms(1, 2)] cleanup_loop_frame(2) by (fastforce simp: cleanup_uuid_def)
qed

lemma ipvs_run_ok:
  assumes "kernel_laws ops S D" "gateway_ok x S D g" "keys_ok g" "ipvs_run ops os g = Some (exs, g')"
  shows "gateway_ok (x \<and> Some Ipvs_failed \<notin> set exs) S D g' \<and> keys_ok g'"
  using assms(2-)
proof (induction os arbitrary: g x exs)
  case (Cons op os)
  then obtain ex g1 exs1 where "ipvs_step ops op g = Some (ex, g1)" "ipvs_run ops os g1 = Some (exs1, g')" "exs = ex # exs1"
    by (auto split: option.splits)
  then show ?case using Cons.IH [of "x \<and> ex \<noteq> Some Ipvs_failed" g1 exs1] ipvs_step_ok [OF assms(1) Cons.prems(1,2), of op ex g1]
    by (simp add: conj_assoc eq_commute)
qed simp

lemma ipvs_step_total:
  assumes "kernel_laws ops S D" "gateway_ok x S D g" "keys_ok g" "no_nulls g" "right_first op"
  shows "\<exists>ex g'. ipvs_step ops op g = Some (ex, g') \<and> no_nulls g'"
proof (cases op)
  case (Announce lf port uuid name v es cluster)
  then show ?thesis using assms consume_total [OF assms(4)] consume_frame(2) by fastforce
next
  case (Withdraw uuid name)
  then show ?thesis using assms cleanup_service_ok [OF assms(1, 2), of name uuid] cleanup_service_frame(1) by (fastforce simp: no_nulls_def)
next
  case (Withdraw_all uuid)
  have "\<forall>name \<in> set (sort (um_keys (iv_remotes g))). um_find name (iv_remotes g) \<noteq> Some None" "distinct (sort (um_keys (iv_remotes g)))"
    using assms(3, 4) by (simp_all add: no_nulls_def keys_ok_def)
  from cleanup_loop_ok [OF assms(1, 2) this, of uuid] show ?thesis
    using Withdraw_all cleanup_loop_frame(1) assms(4) by (fastforce simp: cleanup_uuid_def)
qed

lemma ipvs_run_total:
  assumes "kernel_laws ops S D" "gateway_ok x S D g" "keys_ok g" "no_nulls g" "list_all right_first os"
  shows "\<exists>exs g'. ipvs_run ops os g = Some (exs, g') \<and> no_nulls g'"
  using assms(2-)
proof (induction os arbitrary: g x)
  case (Cons op os)
  then obtain ex g1 where s: "ipvs_step ops op g = Some (ex, g1)" "no_nulls g1" using ipvs_step_total [OF assms(1)] by fastforce
  with Cons.prems have "gateway_ok (x \<and> ex \<noteq> Some Ipvs_failed) S D g1" "keys_ok g1" using ipvs_step_ok [OF assms(1)] by blast+
  with Cons.IH [of "x \<and> ex \<noteq> Some Ipvs_failed" g1] Cons.prems s show ?case by auto
qed simp

definition fresh_ipvs :: "ipvs_config \<Rightarrow> (family \<times> nat) list \<Rightarrow> 'k \<Rightarrow> 'k ipvs" where
  "fresh_ipvs cfg as k = \<lparr>iv_cfg = cfg, iv_addresses = as, iv_remotes = [], iv_kernel = k\<rparr>"

lemma fresh_ok: "S k = {} \<Longrightarrow> D k = {} \<Longrightarrow> gateway_ok True S D (fresh_ipvs cfg as k) \<and> keys_ok (fresh_ipvs cfg as k) \<and> no_nulls (fresh_ipvs cfg as k)"
  by (simp add: gateway_ok_def recorded_def fresh_ipvs_def remote_at_def keys_ok_def no_nulls_def um_keys_def)

section \<open>Addresses that are given out\<close>

lemma endpoint_service:
  assumes "services_wf r" "e \<in> set (rm_endpoints r)" "um_find (ep_family e) (rm_services r) = Some s"
  shows "service_key s = endpoint_key e"
proof -
  have "map (service_key \<circ> snd) (rm_services r) = map endpoint_key (rm_endpoints r)" using assms(1) by (simp add: services_wf_def)
  then have "endpoint_key e \<in> set (map (service_key \<circ> snd) (rm_services r))" using assms(2) by simp
  then obtain f t where t: "(f, t) \<in> set (rm_services r)" "service_key t = endpoint_key e" by auto
  then have "f = ep_family e" using assms(1) by (force simp: services_wf_def service_key_def endpoint_key_def)
  then have "um_find (ep_family e) (rm_services r) = Some t" using assms(1) t(1) by (simp add: services_wf_def um_find_in_set)
  then show ?thesis using assms(3) t(2) by simp
qed

lemma service_endpoint:
  assumes "services_wf r" "um_find f (rm_services r) = Some s"
  shows "\<exists>e \<in> set (rm_endpoints r). ep_family e = f"
proof -
  have "service_key s \<in> set (map (service_key \<circ> snd) (rm_services r))" using um_find_SomeD [OF assms(2)] by force
  moreover have "map (service_key \<circ> snd) (rm_services r) = map endpoint_key (rm_endpoints r)" using assms(1) by (simp add: services_wf_def)
  ultimately have "service_key s \<in> set (map endpoint_key (rm_endpoints r))" by (simp only:)
  then show ?thesis using service_found [OF assms] by (auto simp: service_key_def endpoint_key_def)
qed

lemma reduce_serving:
  assumes "remote_wf x r" "reduce r = Inr (es, v)"
  shows "es \<noteq> [] \<and> (\<forall>e \<in> set es. endpoint_key e \<in> services_of r \<and> (\<exists>d. (endpoint_key e, d) \<in> dests_of r))"
proof -
  have wf: "services_wf r" using assms(1) by (simp add: remote_wf_def)
  have es: "es = filter (\<lambda>e. list_ex (\<lambda>b. ds_af (snd b) = ep_family e) (rm_backends r)) (rm_endpoints r)" and ne: "rm_backends r \<noteq> []"
    using assms(2) by (auto simp: reduce_def split: if_splits)
  obtain b where b: "b \<in> set (rm_backends r)" using ne by (cases "rm_backends r") auto
  then obtain s where "um_find (ds_af (snd b)) (rm_services r) = Some s" using assms(1) by (auto simp: remote_wf_def)
  then obtain e where "e \<in> set (rm_endpoints r)" "ep_family e = ds_af (snd b)" using service_endpoint [OF wf] by blast
  then have "e \<in> set es" using b by (force simp: es list_ex_iff)
  then have "es \<noteq> []" by auto
  moreover have "endpoint_key e \<in> services_of r \<and> (\<exists>d. (endpoint_key e, d) \<in> dests_of r)" if e: "e \<in> set es" for e
  proof -
    from e obtain b where b: "b \<in> set (rm_backends r)" "ds_af (snd b) = ep_family e" "e \<in> set (rm_endpoints r)"
      by (auto simp: es list_ex_iff)
    then obtain s where s: "um_find (ep_family e) (rm_services r) = Some s" using assms(1) by (auto simp: remote_wf_def)
    have key: "service_key s = endpoint_key e" by (rule endpoint_service [OF wf b(3) s])
    then have "backend_key r b = (endpoint_key e, dest_key (snd b))" using b(2) s by (simp add: backend_key_def)
    then have "(endpoint_key e, dest_key (snd b)) \<in> dests_of r" using b(1) by (force simp: dests_of_def)
    moreover have "endpoint_key e \<in> services_of r" using service_found [OF wf s] key by simp
    ultimately show ?thesis by blast
  qed
  ultimately show ?thesis by blast
qed

text \<open>
  C13: over every sequence of announcements and withdrawals, whatever calls the kernel
  refuses, the table of the kernel has exactly the virtual services the gateway
  has recorded, and no destination it has not recorded. As long as no withdrawal has
  failed with the refusal of a deletion, the destinations are exactly those recorded too.
  A service with recorded destinations gives out some address; every address a
  client is given is a virtual service of the table, and, again as long as no withdrawal has
  failed, it forwards to at least one destination. If the entry of a new service is made
  after the service, no sequence runs into undefined behaviour.
\<close>

theorem ipvs_table:
  assumes "kernel_laws ops S D" "S k = {}" "D k = {}"
  shows "(\<forall>exs g. ipvs_run ops os (fresh_ipvs cfg as k) = Some (exs, g) \<longrightarrow>
      S (iv_kernel g) = {x. \<exists>m r. remote_at g m r \<and> x \<in> services_of r} \<and>
      D (iv_kernel g) \<subseteq> {x. \<exists>m r. remote_at g m r \<and> x \<in> dests_of r} \<and>
      (Some Ipvs_failed \<notin> set exs \<longrightarrow> D (iv_kernel g) = {x. \<exists>m r. remote_at g m r \<and> x \<in> dests_of r}) \<and>
      (\<forall>name es v. resolve name g = Some (Inr (es, v)) \<longrightarrow>
         es \<noteq> [] \<and> (\<forall>e \<in> set es. endpoint_key e \<in> S (iv_kernel g) \<and>
           (Some Ipvs_failed \<notin> set exs \<longrightarrow> (\<exists>d. (endpoint_key e, d) \<in> D (iv_kernel g)))))) \<and>
    (list_all right_first os \<longrightarrow> (\<exists>exs g. ipvs_run ops os (fresh_ipvs cfg as k) = Some (exs, g)))"
proof (intro conjI allI impI)
  fix exs g
  note fr = fresh_ok [where S = S and D = D and cfg = cfg and ?as = "as", OF assms(2, 3)]
  assume "ipvs_run ops os (fresh_ipvs cfg as k) = Some (exs, g)"
  then have g: "gateway_ok (Some Ipvs_failed \<notin> set exs) S D g" using ipvs_run_ok [OF assms(1), of True] fr by fastforce
  then show S: "S (iv_kernel g) = {x. \<exists>m r. remote_at g m r \<and> x \<in> services_of r}"
    and "D (iv_kernel g) \<subseteq> {x. \<exists>m r. remote_at g m r \<and> x \<in> dests_of r}"
    and D: "Some Ipvs_failed \<notin> set exs \<Longrightarrow> D (iv_kernel g) = {x. \<exists>m r. remote_at g m r \<and> x \<in> dests_of r}"
    unfolding gateway_ok_def recorded_def by blast+
  fix name es v
  assume "resolve name g = Some (Inr (es, v))"
  then obtain r where at: "remote_at g name r" and red: "reduce r = Inr (es, v)"
    by (auto simp: resolve_def remote_at_def split: option.splits)
  then have "remote_wf (Some Ipvs_failed \<notin> set exs) r" using g by (auto simp: gateway_ok_def)
  from reduce_serving [OF this red] show "es \<noteq> []" and
    "\<forall>e \<in> set es. endpoint_key e \<in> S (iv_kernel g) \<and> (Some Ipvs_failed \<notin> set exs \<longrightarrow> (\<exists>d. (endpoint_key e, d) \<in> D (iv_kernel g)))"
    using at D unfolding S by blast+
next
  assume "list_all right_first os"
  then show "\<exists>exs g. ipvs_run ops os (fresh_ipvs cfg as k) = Some (exs, g)"
    using ipvs_run_total [OF assms(1)] fresh_ok [where S = S and D = D and cfg = cfg and ?as = "as", OF assms(2, 3)] by blast
qed

text \<open>
  After a run in which no withdrawal has failed, the withdrawal of a node that does not
  fail either removes exactly the destinations of the node from the table; those
  of other nodes and all virtual services stay, and no service records the node any more.
\<close>

theorem ipvs_withdraw:
  assumes "kernel_laws ops S D" "S k = {}" "D k = {}" "ipvs_run ops os (fresh_ipvs cfg as k) = Some (exs, g)"
    and "Some Ipvs_failed \<notin> set exs" "no_nulls g" "cleanup_uuid ops uuid g = Some (None, g')"
  shows "S (iv_kernel g') = S (iv_kernel g) \<and>
    D (iv_kernel g') = {backend_key r b | m r b. remote_at g m r \<and> b \<in> set (rm_backends r) \<and> fst b \<noteq> uuid} \<and>
    (\<forall>m r. remote_at g' m r \<longrightarrow> uuid \<notin> fst ` set (rm_backends r))"
proof -
  note fr = fresh_ok [where S = S and D = D and cfg = cfg and ?as = "as", OF assms(2, 3)]
  have g: "gateway_ok True S D g" "keys_ok g" using ipvs_run_ok [OF assms(1) _ _ assms(4), of True] fr assms(5) by simp_all
  have "\<forall>name \<in> set (sort (um_keys (iv_remotes g))). um_find name (iv_remotes g) \<noteq> Some None" "distinct (sort (um_keys (iv_remotes g)))"
    using g(2) assms(6) by (simp_all add: no_nulls_def keys_ok_def)
  from cleanup_loop_ok [OF assms(1) g(1) this, of uuid] assms(7) have c: "gateway_ok True S D g'"
    and at: "remote_at g' m r' \<longleftrightarrow> (if m \<in> set (um_keys (iv_remotes g))
      then \<exists>r. remote_at g m r \<and> r' = without uuid r else remote_at g m r')" for m r'
    by (simp_all add: cleanup_uuid_def)
  have known: "remote_at g m r \<Longrightarrow> m \<in> set (um_keys (iv_remotes g))" for m r
    using um_find_None_iff [of m "iv_remotes g"] by (auto simp: remote_at_def)
  have at': "remote_at g' m r' \<longleftrightarrow> (\<exists>r. remote_at g m r \<and> r' = without uuid r)" for m r'
    unfolding at using known by auto
  have bk: "backend_key (r\<lparr>rm_backends := bs\<rparr>) = backend_key r" "services_of (r\<lparr>rm_backends := bs\<rparr>) = services_of r" for r bs
    by (simp_all add: backend_key_def services_of_def fun_eq_iff)
  have S: "S (iv_kernel g) = {x. \<exists>m r. remote_at g m r \<and> x \<in> services_of r}" using g(1) unfolding gateway_ok_def by blast
  have S': "S (iv_kernel g') = {x. \<exists>m r. remote_at g' m r \<and> x \<in> services_of r}"
    and D': "D (iv_kernel g') = {x. \<exists>m r. remote_at g' m r \<and> x \<in> dests_of r}" using c unfolding gateway_ok_def recorded_def by blast+
  have ex: "(\<exists>m r'. remote_at g' m r' \<and> P r') \<longleftrightarrow> (\<exists>m r. remote_at g m r \<and> P (without uuid r))" for P
    unfolding at' by blast
  have "S (iv_kernel g') = S (iv_kernel g)" unfolding S S' ex bk ..
  moreover have "D (iv_kernel g') = {backend_key r b | m r b. remote_at g m r \<and> b \<in> set (rm_backends r) \<and> fst b \<noteq> uuid}"
  proof -
    have "d \<in> D (iv_kernel g') \<longleftrightarrow> (\<exists>m r b. d = backend_key r b \<and> remote_at g m r \<and> b \<in> set (rm_backends r) \<and> fst b \<noteq> uuid)" for d
      unfolding D' mem_Collect_eq ex dests_of_def bk by (simp add: image_iff) blast
    then show ?thesis by blast
  qed
  moreover have "\<forall>m r. remote_at g' m r \<longrightarrow> uuid \<notin> fst ` set (rm_backends r)" unfolding at' by auto
  ultimately show ?thesis by blast
qed

section \<open>Shutting down\<close>

text \<open>The destructor ignores refusals: a service the kernel does not delete stays.\<close>

definition deletes_services :: "'k kernel_ops \<Rightarrow> 'k services_view \<Rightarrow> bool" where
  "deletes_services ops S \<longleftrightarrow> (\<forall>s k. service_key s \<in> S k \<longrightarrow> fst (ko_del_service ops s k))"

lemma del_services_fold:
  assumes "kernel_laws ops S D" "deletes_services ops S" "fst ` D k \<subseteq> S k"
  shows "S (fold (\<lambda>s k. snd (ko_del_service ops s k)) ss k) = S k - service_key ` set ss \<and>
    D (fold (\<lambda>s k. snd (ko_del_service ops s k)) ss k) = {x \<in> D k. fst x \<notin> service_key ` set ss}"
  using assms(3)
proof (induction ss arbitrary: k)
  case (Cons s ss)
  obtain ok k1 where del: "ko_del_service ops s k = (ok, k1)" by fastforce
  note law = kernel_del_service [OF assms(1) del]
  have "service_key s \<in> S k \<Longrightarrow> ok" using assms(2) del unfolding deletes_services_def by (metis fst_conv)
  then have k1: "S k1 = S k - {service_key s}" "D k1 = {x \<in> D k. fst x \<noteq> service_key s}"
    using law Cons.prems by (cases ok; force)+
  then have "fst ` D k1 \<subseteq> S k1" using Cons.prems by auto
  from Cons.IH [OF this] k1 show ?case by (auto simp: del)
qed simp

lemma del_backends_fold:
  fixes ss :: "(family, ipvs_service) umap"
  assumes "kernel_laws ops S D"
  defines "f \<equiv> \<lambda>(b :: string \<times> ipvs_dest) k. case um_find (ds_af (snd b)) ss of Some s \<Rightarrow> snd (ko_del_dest ops s (snd b) k) | None \<Rightarrow> k"
  shows "S (fold f bs k) = S k \<and> D (fold f bs k) \<subseteq> D k"
proof (induction bs arbitrary: k)
  case (Cons b bs)
  have "S (f b k) = S k \<and> D (f b k) \<subseteq> D k"
  proof (cases "um_find (ds_af (snd b)) ss")
    case (Some s)
    obtain ok k1 where del: "ko_del_dest ops s (snd b) k = (ok, k1)" by fastforce
    show ?thesis using kernel_del_dest [OF assms(1) del] by (cases ok) (auto simp: f_def Some del)
  qed (simp add: f_def)
  then show ?case using Cons [of "f b k"] by auto
qed simp

lemma destroy_remote_table:
  assumes "kernel_laws ops S D" "deletes_services ops S" "fst ` D k \<subseteq> S k"
  shows "S (destroy_remote ops r k) = S k - services_of r \<and> D (destroy_remote ops r k) \<subseteq> {x \<in> D k. fst x \<notin> services_of r}"
proof -
  let ?k = "fold (\<lambda>b k. case um_find (ds_af (snd b)) (rm_services r) of Some s \<Rightarrow> snd (ko_del_dest ops s (snd b) k) | None \<Rightarrow> k) (rm_backends r) k"
  have k: "S ?k = S k" "D ?k \<subseteq> D k" using del_backends_fold [OF assms(1), where ss = "rm_services r" and bs = "rm_backends r" and k = k] by simp_all
  then have "fst ` D ?k \<subseteq> S ?k" using assms(3) by auto
  from del_services_fold [OF assms(1,2) this, of "map snd (rm_services r)"] k show ?thesis
    unfolding destroy_remote_def by (auto simp: services_of_def)
qed

text \<open>
  Destroying the gateway leaves the table of the kernel empty, after every
  sequence of announcements and withdrawals, if the kernel deletes the virtual services.
\<close>

theorem ipvs_shutdown:
  assumes "kernel_laws ops S D" "deletes_services ops S" "S k = {}" "D k = {}" "ipvs_run ops os (fresh_ipvs cfg as k) = Some (exs, g)"
  shows "S (destroy_ipvs ops g) = {} \<and> D (destroy_ipvs ops g) = {}"
proof -
  note fr = fresh_ok [where S = S and D = D and cfg = cfg and ?as = "as", OF assms(3, 4)]
  have g: "gateway_ok (Some Ipvs_failed \<notin> set exs) S D g" "keys_ok g" using ipvs_run_ok [OF assms(1) _ _ assms(5), of True] fr by auto
  let ?f = "\<lambda>r k. case r of None \<Rightarrow> k | Some r \<Rightarrow> destroy_remote ops r k"
  have fold: "fst ` D k \<subseteq> S k \<Longrightarrow> S (fold ?f rs k) = S k - {x. \<exists>r. Some r \<in> set rs \<and> x \<in> services_of r} \<and>
      D (fold ?f rs k) \<subseteq> {x \<in> D k. \<forall>r. Some r \<in> set rs \<longrightarrow> fst x \<notin> services_of r}" for rs k
  proof (induction rs arbitrary: k)
    case (Cons r rs)
    show ?case
    proof (cases r)
      case (Some r')
      note one = destroy_remote_table [OF assms(1,2) Cons.prems, of r']
      then have "fst ` D (destroy_remote ops r' k) \<subseteq> S (destroy_remote ops r' k)" using Cons.prems by fastforce
      note two = Cons.IH [OF this]
      have "S (fold ?f (r # rs) k) = S k - services_of r' - {x. \<exists>r. Some r \<in> set rs \<and> x \<in> services_of r}"
        using one two by (simp add: Some)
      moreover have "D (fold ?f (r # rs) k) \<subseteq> {x \<in> D (destroy_remote ops r' k). \<forall>r. Some r \<in> set rs \<longrightarrow> fst x \<notin> services_of r}"
        using two by (simp add: Some)
      then have "D (fold ?f (r # rs) k) \<subseteq> {x \<in> D k. fst x \<notin> services_of r' \<and> (\<forall>r. Some r \<in> set rs \<longrightarrow> fst x \<notin> services_of r)}"
        using conjunct2 [OF one] by blast
      moreover have "S k - services_of r' - {x. \<exists>r. Some r \<in> set rs \<and> x \<in> services_of r} =
          S k - {x. \<exists>q. Some q \<in> set (r # rs) \<and> x \<in> services_of q}" by (auto simp: Some)
      ultimately show ?thesis by (auto simp: Some)
    qed (use Cons in simp)
  qed simp
  have at: "(\<exists>m. remote_at g m r) \<longleftrightarrow> Some r \<in> set (map snd (iv_remotes g))" for r
  proof
    assume "Some r \<in> set (map snd (iv_remotes g))"
    then obtain m where "(m, Some r) \<in> set (iv_remotes g)" by auto
    then show "\<exists>m. remote_at g m r" using g(2) um_find_in_set [of "iv_remotes g"] by (auto simp: remote_at_def keys_ok_def)
  qed (force simp: remote_at_def dest: um_find_SomeD)
  have S: "S (iv_kernel g) = {x. \<exists>r. Some r \<in> set (map snd (iv_remotes g)) \<and> x \<in> services_of r}"
  proof -
    have "S (iv_kernel g) = {x. \<exists>m r. remote_at g m r \<and> x \<in> services_of r}" using g(1) by (simp add: gateway_ok_def)
    then show ?thesis unfolding at [symmetric] by blast
  qed
  have below: "fst ` D (iv_kernel g) \<subseteq> S (iv_kernel g)"
  proof
    fix y assume "y \<in> fst ` D (iv_kernel g)"
    then obtain d where d: "y = fst d" "d \<in> D (iv_kernel g)" by blast
    have "D (iv_kernel g) \<subseteq> {d. \<exists>m r. remote_at g m r \<and> d \<in> dests_of r}" using g(1) by (simp add: gateway_ok_def recorded_def)
    with d obtain m r where r: "remote_at g m r" "d \<in> dests_of r" by blast
    then have "remote_wf (Some Ipvs_failed \<notin> set exs) r" using g(1) by (simp add: gateway_ok_def)
    then have "fst d \<in> services_of r" using r(2) dests_in_services by blast
    then show "y \<in> S (iv_kernel g)" using r(1) d(1) at [of r] unfolding S by auto
  qed
  note all = fold [OF below, of "map snd (iv_remotes g)", folded destroy_ipvs_def]
  then have "S (destroy_ipvs ops g) = {}" unfolding S by blast
  moreover have "d \<notin> D (destroy_ipvs ops g)" for d
  proof
    assume d: "d \<in> D (destroy_ipvs ops g)"
    then have "fst d \<in> S (iv_kernel g)" using all below by blast
    then show False using d all unfolding S by blast
  qed
  ultimately show ?thesis by blast
qed

section \<open>A concrete kernel\<close>

text \<open>A table as two lists; calls that contradict it are refused.\<close>

type_synonym table = "service_key list \<times> (service_key \<times> dest_key) list"

definition table_ops :: "table kernel_ops" where
  "table_ops =
     \<lparr>ko_add_service = (\<lambda>s (ss, ds). if service_key s \<in> set ss then (False, (ss, ds)) else (True, (service_key s # ss, ds))),
      ko_del_service = (\<lambda>s (ss, ds). if service_key s \<notin> set ss then (False, (ss, ds))
                          else (True, (removeAll (service_key s) ss, filter (\<lambda>x. fst x \<noteq> service_key s) ds))),
      ko_add_dest = (\<lambda>s d (ss, ds). if service_key s \<notin> set ss \<or> (service_key s, dest_key d) \<in> set ds then (False, (ss, ds))
                       else (True, (ss, (service_key s, dest_key d) # ds))),
      ko_del_dest = (\<lambda>s d (ss, ds). ((service_key s, dest_key d) \<in> set ds, (ss, removeAll (service_key s, dest_key d) ds)))\<rparr>"

definition table_services :: "table services_view" where
  "table_services k = set (fst k)"

definition table_dests :: "table dests_view" where
  "table_dests k = set (snd k)"

lemma table_laws: "kernel_laws table_ops table_services table_dests"
  by (auto simp: kernel_laws_def add_service_law_def add_dest_law_def del_dest_law_def del_service_law_def
      table_ops_def table_services_def table_dests_def)

lemma empty_table: "table_services ([], []) = {}" "table_dests ([], []) = {}"
  by (simp_all add: table_services_def table_dests_def)

definition sample_cfg :: ipvs_config where
  "sample_cfg = \<lparr>cf_scheduler = ''wlc'', cf_weight = 1, cf_cluster = []\<rparr>"

definition node_at :: "nat \<Rightarrow> endpoint" where
  "node_at a = \<lparr>ep_family = V4, ep_addr = a, ep_port = 10053\<rparr>"

definition sample_ops :: "ipvs_op list" where
  "sample_ops = [Announce False 10000 ''n1'' ''app'' 1 [node_at 1] [], Announce False 10000 ''n2'' ''app'' 1 [node_at 2] []]"

definition sample_ipvs :: "table ipvs" where
  "sample_ipvs = snd (the (ipvs_run table_ops sample_ops (fresh_ipvs sample_cfg [(V4, 7)] ([], []))))"

lemma sample_ipvs_run: "ipvs_run table_ops sample_ops (fresh_ipvs sample_cfg [(V4, 7)] ([], [])) = Some ([None, None], sample_ipvs)"
proof -
  have "map_option fst (ipvs_run table_ops sample_ops (fresh_ipvs sample_cfg [(V4, 7)] ([], []))) = Some [None, None]" by code_simp
  then show ?thesis by (auto simp: sample_ipvs_def)
qed

theorem ipvs_table_witness:
  "table_dests (iv_kernel sample_ipvs) = {x. \<exists>m r. remote_at sample_ipvs m r \<and> x \<in> dests_of r} \<and>
   length (snd (iv_kernel sample_ipvs)) = 2"
proof -
  have "length (snd (iv_kernel sample_ipvs)) = 2" by code_simp
  then show ?thesis
    using ipvs_table [OF table_laws empty_table, of sample_ops sample_cfg "[(V4, 7)]"] sample_ipvs_run by fastforce
qed

theorem ipvs_withdraw_witness: "\<exists>g'. cleanup_uuid table_ops ''n1'' sample_ipvs = Some (None, g') \<and>
  table_services (iv_kernel g') = table_services (iv_kernel sample_ipvs)"
proof -
  have "map_option fst (cleanup_uuid table_ops ''n1'' sample_ipvs) = Some None" "list_all (\<lambda>(m, r). r \<noteq> None) (iv_remotes sample_ipvs)" by code_simp+
  moreover from this obtain g' where "cleanup_uuid table_ops ''n1'' sample_ipvs = Some (None, g')" by auto
  moreover have "no_nulls sample_ipvs" using calculation(2) by (force simp: no_nulls_def list_all_iff dest: um_find_SomeD)
  ultimately show ?thesis using ipvs_withdraw [OF table_laws empty_table sample_ipvs_run] by auto
qed

theorem ipvs_shutdown_witness: "table_services (destroy_ipvs table_ops sample_ipvs) = {}"
proof -
  have "deletes_services table_ops table_services" by (simp add: deletes_services_def table_ops_def table_services_def split_beta)
  from ipvs_shutdown [OF table_laws this empty_table sample_ipvs_run] show ?thesis by blast
qed

text \<open>A kernel that refuses to delete the destination of one address.\<close>

definition stubborn_ops :: "nat \<Rightarrow> table kernel_ops" where
  "stubborn_ops a = table_ops\<lparr>ko_del_dest := (\<lambda>s d k. if ds_addr d = a then (False, k) else ko_del_dest table_ops s d k)\<rparr>"

definition two_families :: "table ipvs" where
  "two_families = snd (the (ipvs_run table_ops [Announce False 10000 ''n1'' ''app'' 1 [node_at 1, (node_at 2)\<lparr>ep_family := V6\<rparr>] []]
     (fresh_ipvs sample_cfg [(V4, 7), (V6, 8)] ([], []))))"

text \<open>
  What is not handled. If the kernel refuses to delete one of several
  destinations of a node, the exception leaves the deleted ones recorded; once the
  kernel accepts the call again, the withdrawal still fails for ever, because the first
  destination is gone. If a service cannot be published and the entry of the map was
  made first, a null entry stays and the next announcement uses it. A node that
  announces the same endpoints twice is refused as unreachable. And the
  number of nodes of an unknown service is undefined.
\<close>

theorem ipvs_gaps:
  "(case cleanup_service (stubborn_ops 2) ''n1'' ''app'' two_families of
      Some (ex, g) \<Rightarrow> ex = Some Ipvs_failed \<and> length (snd (iv_kernel g)) = 1 \<and> total_count ''app'' g = Some 2 \<and>
        (case cleanup_service table_ops ''n1'' ''app'' g of Some (ex', g') \<Rightarrow> ex' = Some Ipvs_failed \<and> g' = g | None \<Rightarrow> False)
    | None \<Rightarrow> False) \<and>
   (case consume table_ops True 10000 ''n1'' ''app'' 1 [node_at 1] [] (fresh_ipvs sample_cfg [] ([], [])) of
      Some (ex, g) \<Rightarrow> ex = Some Addr_not_available \<and> consume table_ops True 10000 ''n1'' ''app'' 1 [node_at 1] [] g = None
    | None \<Rightarrow> False) \<and>
   map_option fst (consume table_ops False 10000 ''n1'' ''app'' 1 [node_at 1] [] sample_ipvs) = Some (Some Host_unreachable) \<and>
   total_count ''other'' sample_ipvs = None"
  by (intro conjI; code_simp)

end
