(* ===== verification/Spec2Isabelle.thy ===== *)
theory Spec2Isabelle
  imports Lru_Cache Logging_Service Node_Service Chrono Unicorn_Service Vicodyn_Proxy Isometrics External_Isolate Docker_Isolate Unicorn_Cluster Uniresis Metrics_Service Postgres Ipvs_Gateway
begin

text \<open>
  \<^bold>\<open>Verification of the Cocaine plugins.\<close>

  Cocaine is a cloud of services. This repository holds the plugins of its core: the
  node service, which runs applications in isolated worker processes; the services for
  logging, caching, timers, coordination (unicorn, over ZooKeeper) and permissions
  (unicat); and the gateways vicodyn and ipvs, which hide a cluster behind one node.
  The theories below are a shallow embedding of the C++ of these plugins. Every
  definition translates named code; state is a \<open>record\<close>, exceptions are values, and
  deferred work (timers, posted closures, callbacks of the network) is an explicit
  queue or an explicit step, so that orderings of events are sequences of steps.

  \<^bold>\<open>Parts, and how they interact.\<close>

  \<^item> The node service (\<open>Node_Service\<close>) keeps applications (\<open>Node_App\<close>) built from the
    configuration (\<open>Node_Config\<close>). An application that was spooled owns an overseer,
    whose engine (\<open>Node_Engine\<close>) queues requests and balances them over slaves
    (\<open>Slave_Machine\<close>); each request is a pair of channels with dispatches on both sides
    (\<open>Slave_Channel\<close>). Workers live in an isolate: an external daemon
    (\<open>External_Isolate\<close>), from which the node also gathers metrics (\<open>Isometrics\<close>), or
    containers (\<open>Docker_Isolate\<close>), or plain processes (\<open>Process_Isolate\<close>).
  \<^item> The unicorn service (\<open>Unicorn_Service\<close>) checks a request against the access lists
    (\<open>Unicorn_Auth\<close>) and hands it to the ZooKeeper backend (\<open>Zk_Unicorn\<close>), which uses
    the shared connection (\<open>Zk_Connection\<close>). Unicat (\<open>Unicat\<close>) edits the same lists.
  \<^item> The logging service (\<open>Logging_Service\<close>) keeps groups of filters (\<open>Metafilter\<close>) of
    filter expressions (\<open>Log_Filter\<close>), shared between nodes through unicorn.
  \<^item> Vicodyn keeps peers (\<open>Vicodyn_Peers\<close>) and proxies requests (\<open>Vicodyn_Proxy\<close>); the
    ipvs gateway (\<open>Ipvs_Gateway\<close>) programs the kernel's table of virtual services.
  \<^item> The members of a cluster find each other through unicorn (\<open>Unicorn_Cluster\<close>), and
    uniresis (\<open>Uniresis\<close>) registers the resources of a machine there.
  \<^item> The metrics service (\<open>Metrics_Service\<close>) renders the metrics of a node; its sender and an
    index of a storage use a pool of database connections (\<open>Postgres\<close>).
  \<^item> The cache service (\<open>Lru_Cache\<close>) and the timers (\<open>Chrono\<close>) stand alone.

  \<^bold>\<open>Theories, sources and results.\<close>

  \<^item> \<open>Prelude\<close> the result type \<open>'e + 'a\<close> of code that throws, unordered maps as
    association lists with distinct keys, list facts and the collections of rules.
  \<^item> \<open>Dynamic\<close> the variant \<^verbatim>\<open>dynamic_t\<close> of the core, as far as the plugins use it.
  \<^item> \<open>Lru_Cache\<close> \<^verbatim>\<open>cache/include/cocaine/lru_cache.hpp\<close>, \<^verbatim>\<open>cache/src/cache.cpp\<close>: list nodes
    with addresses and a map of iterators. The invariant ties both together, the
    operations refine a recency list, and the service is verified against the locale
    \<open>bounded_store\<close>, interpreted on the LRU cache: what a get returns after any run.
  \<^item> \<open>Log_Filter\<close> \<^verbatim>\<open>logging/src/logging/filter.cpp\<close>: evaluation of filter expressions, and
    that parsing a filter's representation gives the filter back.
  \<^item> \<open>Metafilter\<close> \<^verbatim>\<open>logging/src/logging/metafilter.cpp\<close>: the decision is the disjunction of
    the filters whose deadline has not passed; counters and cleanup.
  \<^item> \<open>Logging_Service\<close> \<^verbatim>\<open>logging/src/logging_v2.cpp\<close>: an invariant over a heap of shared
    metafilters under every operation and callback, through the locale \<open>filter_group\<close>;
    acknowledgement of every emitted record; the longest matching logger decides.
  \<^item> \<open>Slave_Channel\<close> \<^verbatim>\<open>slave/channel.cpp\<close>, \<^verbatim>\<open>dispatch/*.cpp\<close>, \<^verbatim>\<open>util/splitter.hpp\<close> of the node:
    a channel closes once both sides are closed; splitting of output is equal to a
    reference definition of lines, whatever the chunks.
  \<^item> \<open>Slave_Machine\<close> \<^verbatim>\<open>slave/machine.cpp\<close>, \<^verbatim>\<open>slave/state/*.cpp\<close>, \<^verbatim>\<open>slave/control.cpp\<close>: invariants of
    all runs of the state machine: clean-up happens at most once, every request that
    was injected is accounted for, and in every state that waits for the
    worker some timer is running (the watchdog).
  \<^item> \<open>Node_Engine\<close> \<^verbatim>\<open>node/engine.cpp\<close>, \<^verbatim>\<open>slave.cpp\<close>, \<^verbatim>\<open>overseer.cpp\<close>: FIFO order of the queue,
    concurrency limits, that balancing is greedy, the size of the pool after
    rebalancing, and that the loops end. The engine relies on slaves through the
    locale \<open>slave_contract\<close>, interpreted on the machines of \<open>Slave_Machine\<close>.
  \<^item> \<open>Node_Config\<close> \<^verbatim>\<open>manifest.cpp\<close>, \<^verbatim>\<open>profile.cpp\<close>, \<^verbatim>\<open>cached.hpp\<close>: validation of profiles, and that
    an accepted profile satisfies \<open>profile_ok\<close>, the precondition of the engine.
  \<^item> \<open>Node_App\<close> \<^verbatim>\<open>node/app.cpp\<close>: the states of an application, publishing with hysteresis
    as a refinement of a two-threshold switch, and lifetime of the shared overseer.
  \<^item> \<open>Node_Service\<close> \<^verbatim>\<open>node.cpp\<close>: the table of applications and the control streams, with an
    invariant over references under every operation.
  \<^item> \<open>Isometrics\<close> \<^verbatim>\<open>node/isometrics.cpp\<close>: counters and gauges by worker, the queue of dead
    workers and its bound, the sums for the application.
  \<^item> \<open>External_Isolate\<close> \<^verbatim>\<open>isolate/external.cpp\<close>: every queued request is answered exactly
    once or still queued, no call goes through a null session, back-off.
  \<^item> \<open>Chrono\<close> \<^verbatim>\<open>chrono/src/chrono.cpp\<close>: what is written to the streams of timers.
  \<^item> \<open>Unicorn_Auth\<close>, \<open>Unicat\<close> \<^verbatim>\<open>unicorn/src/authorization/unicorn.cpp\<close>, \<^verbatim>\<open>unicat/src\<close>: the decision
    of an access list as an intersection over ids, and who may change lists.
  \<^item> \<open>Zk_Connection\<close>, \<open>Zk_Unicorn\<close> \<^verbatim>\<open>unicorn/src/zookeeper*.cpp\<close>, \<^verbatim>\<open>unicorn/src/unicorn/zookeeper.cpp\<close>:
    paths, watchers, sessions; the operations as state machines: order of the calls of
    the client, mutual exclusion and release of locks, creation of missing parents.
  \<^item> \<open>Unicorn_Service\<close> \<^verbatim>\<open>unicorn/src/service/unicorn.cpp\<close>: no operation of the backend without
    permission.
  \<^item> \<open>Vicodyn_Peers\<close>, \<open>Vicodyn_Proxy\<close> \<^verbatim>\<open>vicodyn/src\<close>: a peer keeps reconnecting; a request that
    fails over is sent again completely, and a response never mixes two workers.
  \<^item> \<open>Ipvs_Gateway\<close> \<^verbatim>\<open>ipvs/gateway.cpp\<close>: the records of the gateway describe the table of the
    kernel (a refinement), and withdrawing a node removes its destinations.
  \<^item> \<open>Process_Isolate\<close> \<^verbatim>\<open>isolate/process.cpp\<close>, \<^verbatim>\<open>process/archive.cpp\<close>, \<^verbatim>\<open>process/cgroup.cpp\<close>, \<^verbatim>\<open>fetcher.cpp\<close>:
    a destroyed handle collects its worker and touches no other process; the order of
    signals after a cancellation; descriptors and children after a spawn; what unpacking
    writes; and the output of a worker, from the reads of the pipe to the crash log of
    \<open>Slave_Channel\<close>.
  \<^item> \<open>Docker_Isolate\<close> \<^verbatim>\<open>docker/docker_client.cpp\<close>, \<^verbatim>\<open>http.cpp\<close>, \<^verbatim>\<open>isolate.cpp\<close>: the requests of a
    launch and their order, round trips of endpoints and headers, failover over the
    addresses of a host, and the gaps of the handles.
  \<^item> \<open>Unicorn_Cluster\<close> \<^verbatim>\<open>unicorn/src/cluster/unicorn.cpp\<close>: a node never links itself, follows the
    list of nodes exactly, and never stops announcing itself.
  \<^item> \<open>Uniresis\<close> \<^verbatim>\<open>uniresis/src\<close>: what is registered is within the machine and the restrictions.
  \<^item> \<open>Metrics_Service\<close> \<^verbatim>\<open>metrics/src/service\<close>: queries from syntax trees, their meaning, and the tree
    of metrics.
  \<^item> \<open>Postgres\<close> \<^verbatim>\<open>postgres/src\<close>, \<^verbatim>\<open>metrics/src/sender/postgres.cpp\<close>: callbacks of the storage are
    accounted for, the load of the pool is bounded, and rows of the sender.

  Theorems whose name ends in \<open>gaps\<close> show, on the code as it is, where it does not do what it is
  meant to do.

  \<^bold>\<open>Parameters and bounds.\<close> What is not in this repository is an argument:

  \<^item> Arithmetic on doubles: \<open>fpu\<close>, \<open>clock\<close>, \<open>gauge_ops\<close>; conversions and serialization of the
    core: \<open>conv\<close>, \<open>acl_conv\<close>, \<open>codec\<close>. Where a theorem needs a law of them, it is a
    named hypothesis with a witness on a concrete instance.
  \<^item> The core's context and actors: \<open>platform\<close>, with \<open>context_laws\<close>; the radix tree of the
    logging service: \<open>rtree\<close>, with \<open>rtree_ok\<close>; the metrics hub: \<open>hub\<close>.
  \<^item> The network and the kernel: \<open>zk_env\<close> and \<open>zk_call\<close> for the ZooKeeper client,
    \<open>net\<close> for vicodyn, \<open>env\<close> for the isolation daemon, \<open>ops\<close> with \<open>kernel_laws\<close> for ipvs,
    \<open>posix\<close> with \<open>posix_laws\<close> for processes, a function for the Docker daemon; libraries:
    \<open>boost\<close>, \<open>json_ops\<close>, \<open>fs_ops\<close>, \<open>path_ops\<close>, \<open>sql\<close>. A
    theorem over these holds for every behaviour of the outside, except for the laws
    it names; \<open>tree_server\<close> is the behaviour of a ZooKeeper server on create.
  \<^item> Identifiers: \<open>en_ids\<close> is an injective source. Random numbers are sequences; the
    loop of chrono that draws an unused id is a \<open>partial_function\<close> and may not return.
  \<^item> Counters that cannot wrap in a feasible run (ids of watchers, addresses of list nodes) are natural
    numbers; metrics, loads and sizes that can wrap are words of their width, or have
    the wrap-around written out.
  \<^item> Fuel: \<open>drive\<close> lets the creation of a ZooKeeper node and a server answer each other, and twice
    the number of missing levels is proved to be enough; \<open>spawn_loop\<close> of the engine is
    bounded by the number of slaves that are missing to the target, after which the
    condition of the loop in the code is false, which is part of its specification.

  \<^bold>\<open>Not modelled.\<close> The info collectors of the node, which only render its state; the C library
  \<^verbatim>\<open>libipvs\<close> (third party); the graphite, elasticsearch, urlfetch and echo services and the
  elliptics, eblob and mongo storages, which pass requests on to client libraries; the Python
  sandbox, which binds an interpreter and is not built; the redirection of the
  ZooKeeper client's log; registration of plugins, logging, tracing and the
  serialization of the protocol, which belong to the core. Locks are taken to make the
  operations of an object atomic.
\<close>

end
